(* ===== verification/TSL_Prelude.thy ===== *)
theory TSL_Prelude
  imports Main "HOL-Library.Word" "HOL-Library.Monad_Syntax" "HOL-Library.Multiset"
begin

unbundle bit_operations_syntax

section \<open>Shared vocabulary of the development\<close>

text \<open>
  What every component theory uses: machine types, pointers, the convention for faults, and
  generic lemmas on lists, options and words.

  Conventions.
  \<^item> A pointer is a 64-bit word of type \<open>addr\<close>; \<open>NULL\<close> is 0. Memory that holds structs of
    one type is a function from addresses to a \<^theory_text>\<open>record\<close>.
  \<^item> A pointer to a caller-owned struct that an operation reads and updates, and a pointer to
    an out-parameter, is an \<open>option\<close>: \<open>None\<close> is the NULL pointer and \<open>Some v\<close> a pointer to a
    location whose content is \<open>v\<close>; the operation returns the new content.
  \<^item> Code that may dereference NULL, read outside an array or loop forever has a result of type
    \<open>'a option\<close>: \<open>None\<close> is the fault (or the endless loop), \<open>Some r\<close> a normal return. A theorem
    that such an operation gives \<open>Some r\<close> therefore states that it is free of these faults and
    that it returns.
  \<^item> \<open>TSL_ASSERT_ARG_DEBUG\<close> checks are part of the model: the default build type of the
    repository is the debug build.
\<close>

subsection \<open>Types\<close>

type_synonym addr = "64 word"
type_synonym u8 = "8 word"
type_synonym u32 = "32 word"
type_synonym u64 = "64 word"

abbreviation (input) NULL :: addr where
  "NULL \<equiv> 0"

named_theorems aresult_vals "values of the result codes"
named_theorems list_mem_simps "reading list memory after a write"
named_theorems rb_mem_simps "reading tree node memory after a write"

subsection \<open>Arrays\<close>

text \<open>Reading and writing an array; outside its bounds is a fault.\<close>

definition arr_get :: "'a list \<Rightarrow> nat \<Rightarrow> 'a option" where
  "arr_get xs i = (if i < length xs then Some (xs ! i) else None)"

definition arr_set :: "'a list \<Rightarrow> nat \<Rightarrow> 'a \<Rightarrow> 'a list option" where
  "arr_set xs i v = (if i < length xs then Some (xs[i := v]) else None)"

lemma arr_get_in [simp]: "i < length xs \<Longrightarrow> arr_get xs i = Some (xs ! i)"
  by (simp add: arr_get_def)

lemma arr_set_in [simp]: "i < length xs \<Longrightarrow> arr_set xs i v = Some (xs[i := v])"
  by (simp add: arr_set_def)

subsection \<open>Options\<close>

lemma bind_eq_Some_iff:
  "Option.bind x f = Some y \<longleftrightarrow> (\<exists>z. x = Some z \<and> f z = Some y)"
  by (cases x) auto

lemma if_Some_eq_Some [simp]:
  "((if b then Some x else None) = Some y) \<longleftrightarrow> b \<and> x = y"
  by simp

subsection \<open>Lists\<close>

lemma nth_swap:
  assumes "i < length xs" "j < length xs" "k < length xs"
  shows "(xs[i := xs ! j, j := xs ! i]) ! k =
         (if k = j then xs ! i else if k = i then xs ! j else xs ! k)"
  using assms by (simp add: nth_list_update)

lemma mset_swap_nth:
  assumes "i < length xs" "j < length xs"
  shows "mset (xs[i := xs ! j, j := xs ! i]) = mset xs"
  using assms by (simp add: mset_swap)

lemma mset_take_swap:
  assumes "i < n" "j < n" "n \<le> length xs"
  shows "mset (take n (xs[i := xs ! j, j := xs ! i])) = mset (take n xs)"
proof -
  have "take n (xs[i := xs ! j, j := xs ! i]) =
        (take n xs)[i := take n xs ! j, j := take n xs ! i]"
    using assms by (simp add: take_update_swap)
  then show ?thesis
    using assms mset_swap_nth [of i "take n xs" j] by simp
qed

lemma take_Suc_update_last:
  assumes "n < length xs"
  shows "take (Suc n) (xs[n := x]) = take n xs @ [x]"
  using assms by (simp add: take_Suc_conv_app_nth)

lemma last_notin_butlast: "distinct zs \<Longrightarrow> zs \<noteq> [] \<Longrightarrow> last zs \<notin> set (butlast zs)"
  by (metis append_butlast_last_id disjoint_insert(1) distinct_append list.simps(15))

lemma hd_notin_tl: "distinct zs \<Longrightarrow> zs \<noteq> [] \<Longrightarrow> hd zs \<notin> set (tl zs)"
  by (cases zs) auto

lemma in_set_tlD: "x \<in> set (tl xs) \<Longrightarrow> x \<in> set xs"
  by (cases xs) auto

lemma last_Cons_in_set: "last (x # xs) \<in> set (x # xs)"
  by (rule last_in_set) simp

lemma hd_snoc_in_set: "hd (xs @ [x]) \<in> set (xs @ [x])"
  by (rule hd_in_set) simp

subsection \<open>Words\<close>

lemma unat_word_le_iff: "a \<le> b \<longleftrightarrow> unat a \<le> unat (b :: 'a::len word)"
  by (simp add: word_le_nat_alt)

lemma bit_imp_pow_le:
  fixes w :: "'a::len word"
  assumes "bit w j"
  shows "2 ^ j \<le> unat w"
proof -
  from assms have "bit (unat w) j"
    by (simp add: bit_unsigned_iff)
  then have "odd (unat w div 2 ^ j)"
    by (simp add: bit_iff_odd)
  then have "unat w div 2 ^ j \<noteq> 0"
    by (metis even_zero)
  then show ?thesis
    by (metis div_less not_less)
qed

lemma unat_less_pow_iff_bits:
  "unat (w :: 'a::len word) < 2 ^ n \<longleftrightarrow> (\<forall>j\<ge>n. \<not> bit w j)"
proof
  assume "unat w < 2 ^ n"
  then show "\<forall>j\<ge>n. \<not> bit w j"
    using bit_imp_pow_le [of w] power_increasing [of n _ "2::nat"]
    by (meson le_less_trans not_less one_le_numeral)
next
  assume a: "\<forall>j\<ge>n. \<not> bit w j"
  then have "take_bit n w = w"
    by (auto intro!: bit_word_eqI simp: bit_take_bit_iff not_le)
  then have "unat w = take_bit n (unat w)"
    by (metis unsigned_take_bit_eq)
  then show "unat w < 2 ^ n"
    by (metis take_bit_nat_less_exp)
qed

end
