(* ===== verification/TSL_Bits.thy ===== *)
theory TSL_Bits
  imports TSL_Prelude
begin

section \<open>Bit manipulation (tsl/bits.h)\<close>

text \<open>
  The bit-field macros and the inline bit functions. Shift amounts are \<open>nat\<close>; a shift by the
  word size or more is undefined in C, so the theorems that need it bound the amounts. The gcc
  builtins are part of the language: \<open>builtin_clz\<close> counts leading zeros from the most
  significant bit of the word it is given, \<open>builtin_popcountll\<close> the set bits.
\<close>

subsection \<open>Definitions\<close>

definition TSL_MASK :: "nat \<Rightarrow> u64" where
  "TSL_MASK x = push_bit x 1 - 1"

definition TSL_DEPOSIT :: "u64 \<Rightarrow> nat \<Rightarrow> nat \<Rightarrow> u64" where
  "TSL_DEPOSIT val off len = push_bit off (val AND TSL_MASK len)"

definition TSL_EXTRACT :: "u64 \<Rightarrow> nat \<Rightarrow> nat \<Rightarrow> u64" where
  "TSL_EXTRACT val off len = (drop_bit off val) AND TSL_MASK len"

definition builtin_clz :: "'a::len word \<Rightarrow> nat" where
  "builtin_clz w = length (takeWhile (\<lambda>i. \<not> bit w i) (rev [0..<LENGTH('a)]))"

definition builtin_popcountll :: "u64 \<Rightarrow> nat" where
  "builtin_popcountll w = length (filter (bit w) [0..<64])"

definition tsl_clz64 :: "u64 \<Rightarrow> nat" where
  "tsl_clz64 word = builtin_clz word"

text \<open>\<open>__builtin_clzl\<close> takes an \<open>unsigned long\<close>, which is 64 bits wide on the targets of the
  library, so the 32-bit argument is widened first.\<close>

definition tsl_clz32 :: "u32 \<Rightarrow> nat" where
  "tsl_clz32 word = builtin_clz (ucast word :: u64)"

definition tsl_round_up_2_64 :: "u64 \<Rightarrow> u64" where
  "tsl_round_up_2_64 value =
     (let v = value;
          v = v - 1;
          v = v OR drop_bit 1 v;
          v = v OR drop_bit 2 v;
          v = v OR drop_bit 4 v;
          v = v OR drop_bit 8 v;
          v = v OR drop_bit 16 v;
          v = v OR drop_bit 32 v;
          v = v + 1
      in v)"

definition tsl_round_up_2_32 :: "u32 \<Rightarrow> u32" where
  "tsl_round_up_2_32 value =
     (let v = value;
          v = v - 1;
          v = v OR drop_bit 1 v;
          v = v OR drop_bit 2 v;
          v = v OR drop_bit 4 v;
          v = v OR drop_bit 8 v;
          v = v OR drop_bit 16 v
      in v)"

definition tsl_bit_scan_rev_64 :: "u64 \<Rightarrow> nat" where
  "tsl_bit_scan_rev_64 val = 8 * 8 - 1 - builtin_clz val"

definition tsl_pop_count_64 :: "u64 \<Rightarrow> nat" where
  "tsl_pop_count_64 val = builtin_popcountll val"

subsection \<open>Masks and fields\<close>

lemma TSL_MASK_eq_mask: "TSL_MASK n = mask n"
  by (simp add: TSL_MASK_def mask_eq_exp_minus_1 push_bit_eq_mult)

lemma bit_TSL_MASK [simp]: "bit (TSL_MASK n) i \<longleftrightarrow> i < n \<and> i < 64"
  by (simp add: TSL_MASK_eq_mask bit_mask_iff conj_commute)

lemma bit_TSL_DEPOSIT:
  "bit (TSL_DEPOSIT v off len) i \<longleftrightarrow> off \<le> i \<and> i < off + len \<and> i < 64 \<and> bit v (i - off)"
  by (auto simp: TSL_DEPOSIT_def bit_push_bit_iff bit_and_iff)

lemma bit_TSL_EXTRACT:
  "bit (TSL_EXTRACT v off len) i \<longleftrightarrow> i < len \<and> i < 64 \<and> bit v (off + i)"
  by (auto simp: TSL_EXTRACT_def bit_drop_bit_eq bit_and_iff)

subsection \<open>Smearing the highest set bit downwards\<close>

text \<open>\<open>smeared v s n\<close>: bit \<open>i\<close> of \<open>s\<close> is set iff one of the bits \<open>i, \<dots>, i + n - 1\<close> of \<open>v\<close> is.\<close>

definition smeared :: "'a::len word \<Rightarrow> 'a word \<Rightarrow> nat \<Rightarrow> bool" where
  "smeared v s n \<longleftrightarrow> (\<forall>i. bit s i \<longleftrightarrow> (\<exists>d<n. bit v (i + d)))"

lemma smeared_start: "smeared v v 1"
  by (simp add: smeared_def)

lemma smeared_double:
  assumes "smeared v s n"
  shows "smeared v (s OR drop_bit n s) (2 * n)"
  unfolding smeared_def
proof (intro allI iffI)
  fix i
  assume "bit (s OR drop_bit n s) i"
  then consider "bit s i" | "bit s (n + i)"
    by (auto simp: bit_or_iff bit_drop_bit_eq)
  then show "\<exists>d<2 * n. bit v (i + d)"
  proof cases
    case 1
    then obtain d where "d < n" "bit v (i + d)"
      using assms by (auto simp: smeared_def)
    then show ?thesis by (intro exI [of _ d]) simp
  next
    case 2
    then obtain d where "d < n" "bit v (n + i + d)"
      using assms by (auto simp: smeared_def)
    then show ?thesis by (intro exI [of _ "n + d"]) (simp add: algebra_simps)
  qed
next
  fix i
  assume "\<exists>d<2 * n. bit v (i + d)"
  then obtain d where d: "d < 2 * n" "bit v (i + d)" by blast
  show "bit (s OR drop_bit n s) i"
  proof (cases "d < n")
    case True
    with d have "bit s i" using assms by (auto simp: smeared_def)
    then show ?thesis by (simp add: bit_or_iff)
  next
    case False
    with d have "d - n < n" "bit v (n + i + (d - n))" by (simp_all add: algebra_simps)
    then have "bit s (n + i)" using assms by (auto simp: smeared_def)
    then show ?thesis by (simp add: bit_or_iff bit_drop_bit_eq)
  qed
qed

lemma smeared_full:
  fixes v s :: "'a::len word"
  assumes "smeared v s n" "LENGTH('a) \<le> n" "unat v < 2 ^ k" "\<forall>m. unat v < 2 ^ m \<longrightarrow> k \<le> m"
  shows "s = mask k"
proof (rule bit_word_eqI)
  fix i
  assume "i < LENGTH('a)"
  have "bit s i \<longleftrightarrow> (\<exists>j\<ge>i. bit v j)"
  proof
    assume "bit s i"
    then obtain d where "bit v (i + d)" using assms(1) by (auto simp: smeared_def)
    then show "\<exists>j\<ge>i. bit v j" by (intro exI [of _ "i + d"]) simp
  next
    assume "\<exists>j\<ge>i. bit v j"
    then obtain j where j: "i \<le> j" "bit v j" by blast
    then have "j < LENGTH('a)" by (metis bit_imp_le_length)
    with j assms(2) have "j - i < n" "bit v (i + (j - i))" by simp_all
    then show "bit s i" using assms(1) by (auto simp: smeared_def)
  qed
  also have "\<dots> \<longleftrightarrow> i < k"
  proof
    assume "\<exists>j\<ge>i. bit v j"
    then have "\<not> unat v < 2 ^ i" by (auto simp: unat_less_pow_iff_bits)
    then show "i < k"
      using assms(3) by (metis less_le_trans not_le one_le_numeral power_increasing)
  next
    assume "i < k"
    then have "\<not> unat v < 2 ^ i" using assms(4) by auto
    then show "\<exists>j\<ge>i. bit v j" by (auto simp: unat_less_pow_iff_bits)
  qed
  finally show "bit s i \<longleftrightarrow> bit (mask k :: 'a word) i"
    using \<open>i < LENGTH('a)\<close> by (simp add: bit_mask_iff)
qed

lemma least_pow_exists:
  fixes w :: "'a::len word"
  obtains k where "unat w < 2 ^ k" "\<forall>m. unat w < 2 ^ m \<longrightarrow> k \<le> m" "k \<le> LENGTH('a)"
proof -
  let ?k = "LEAST k. unat w < 2 ^ k"
  have lt: "unat w < 2 ^ LENGTH('a)" by (rule unsigned_less)
  then have "unat w < 2 ^ ?k" by (rule LeastI)
  moreover have "\<forall>m. unat w < 2 ^ m \<longrightarrow> ?k \<le> m" by (blast intro: Least_le)
  ultimately show thesis using lt that by blast
qed

lemma tsl_round_up_2_64_smear:
  obtains s where "smeared (v - 1) s 64" "tsl_round_up_2_64 v = s + 1"
proof -
  define a where "a = v - 1"
  define b where "b = a OR drop_bit 1 a"
  define c where "c = b OR drop_bit 2 b"
  define d where "d = c OR drop_bit 4 c"
  define e where "e = d OR drop_bit 8 d"
  define f where "f = e OR drop_bit 16 e"
  define g where "g = f OR drop_bit 32 f"
  have "smeared a b 2" using smeared_double [OF smeared_start [of a]] by (simp add: b_def)
  then have "smeared a c 4" using smeared_double [of a b 2] by (simp add: c_def)
  then have "smeared a d 8" using smeared_double [of a c 4] by (simp add: d_def)
  then have "smeared a e 16" using smeared_double [of a d 8] by (simp add: e_def)
  then have "smeared a f 32" using smeared_double [of a e 16] by (simp add: f_def)
  then have "smeared a g 64" using smeared_double [of a f 32] by (simp add: g_def)
  then show thesis
    using that [of g]
    by (simp add: tsl_round_up_2_64_def Let_def a_def b_def c_def d_def e_def f_def g_def)
qed

lemma tsl_round_up_2_32_smear: "smeared (v - 1) (tsl_round_up_2_32 v) 32"
proof -
  define a where "a = v - 1"
  define b where "b = a OR drop_bit 1 a"
  define c where "c = b OR drop_bit 2 b"
  define d where "d = c OR drop_bit 4 c"
  define e where "e = d OR drop_bit 8 d"
  define f where "f = e OR drop_bit 16 e"
  have "smeared a b 2" using smeared_double [OF smeared_start [of a]] by (simp add: b_def)
  then have "smeared a c 4" using smeared_double [of a b 2] by (simp add: c_def)
  then have "smeared a d 8" using smeared_double [of a c 4] by (simp add: d_def)
  then have "smeared a e 16" using smeared_double [of a d 8] by (simp add: e_def)
  then have "smeared a f 32" using smeared_double [of a e 16] by (simp add: f_def)
  then show ?thesis
    by (simp add: tsl_round_up_2_32_def Let_def a_def b_def c_def d_def e_def f_def)
qed

lemma unat_mask_word:
  assumes "k \<le> LENGTH('a::len)"
  shows "unat (mask k :: 'a word) = 2 ^ k - 1"
proof -
  have "unat (mask k :: 'a word) = mask k"
    using assms by (intro bit_eqI) (auto simp: bit_unsigned_iff bit_mask_iff)
  then show ?thesis by (simp add: mask_eq_exp_minus_1)
qed

lemma unat_minus_1_word: "0 < unat v \<Longrightarrow> unat (v - 1 :: 'a::len word) = unat v - 1"
  by (metis Suc_pred' unat_0 unat_minus_one less_not_refl One_nat_def diff_Suc_1)

lemma smeared_pred_full:
  fixes v s :: "'a::len word"
  assumes "0 < unat v" "smeared (v - 1) s n" "LENGTH('a) \<le> n"
  obtains k where "unat s = 2 ^ k - 1" "s = mask k" "unat v \<le> 2 ^ k"
    "\<forall>m. unat v \<le> 2 ^ m \<longrightarrow> k \<le> m" "k \<le> LENGTH('a)"
proof -
  obtain k where k: "unat (v - 1) < 2 ^ k" "\<forall>m. unat (v - 1) < 2 ^ m \<longrightarrow> k \<le> m" "k \<le> LENGTH('a)"
    by (rule least_pow_exists)
  have s: "s = mask k" using smeared_full [OF assms(2,3) k(1,2)] .
  have "unat v \<le> 2 ^ m \<longleftrightarrow> unat (v - 1) < 2 ^ m" for m
    using assms(1) by (auto simp: unat_minus_1_word)
  with k s show thesis
    using that [of k] unat_mask_word [OF k(3)] by auto
qed

subsection \<open>Leading zeros and the highest set bit\<close>

lemma builtin_clz_highest:
  fixes w :: "'a::len word"
  assumes "bit w h" "\<forall>j>h. \<not> bit w j"
  shows "builtin_clz w = LENGTH('a) - 1 - h"
proof -
  have h: "h < LENGTH('a)" using assms(1) by (rule bit_imp_le_length)
  then have "[0..<LENGTH('a)] = [0..<h] @ h # [Suc h..<LENGTH('a)]"
    using upt_add_eq_append [of 0 h "LENGTH('a) - h"] by (simp add: upt_conv_Cons)
  then have "rev [0..<LENGTH('a)] = rev [Suc h..<LENGTH('a)] @ h # rev [0..<h]"
    by simp
  moreover have "takeWhile (\<lambda>i. \<not> bit w i) (rev [Suc h..<LENGTH('a)] @ h # rev [0..<h]) =
                 rev [Suc h..<LENGTH('a)]"
    using assms by (subst takeWhile_append2) auto
  ultimately show ?thesis by (simp add: builtin_clz_def)
qed

lemma highest_bit_exists:
  fixes w :: "'a::len word"
  assumes "w \<noteq> 0"
  obtains h where "bit w h" "\<forall>j>h. \<not> bit w j" "h < LENGTH('a)"
proof -
  let ?S = "{i. bit w i}"
  have fin: "finite ?S"
    by (rule finite_subset [of _ "{..<LENGTH('a)}"]) (auto dest: bit_imp_le_length)
  have "?S \<noteq> {}" using assms by (auto simp: bit_eq_iff)
  with fin have top: "Max ?S \<in> ?S" by (rule Max_in)
  have "\<not> bit w j" if "Max ?S < j" for j
  proof
    assume "bit w j"
    with fin have "j \<le> Max ?S" by (intro Max_ge) simp_all
    with that show False by simp
  qed
  with top show thesis using that bit_imp_le_length by blast
qed

lemma round_up_2_64_power:
  assumes "0 < unat v" "unat v \<le> 2 ^ 63"
  shows "\<exists>k. unat (tsl_round_up_2_64 v) = 2 ^ k \<and> unat v \<le> 2 ^ k \<and>
             (\<forall>m. unat v \<le> 2 ^ m \<longrightarrow> k \<le> m)"
proof -
  obtain s where s: "smeared (v - 1) s 64" "tsl_round_up_2_64 v = s + 1"
    by (rule tsl_round_up_2_64_smear)
  obtain k where k: "unat s = 2 ^ k - 1" "unat v \<le> 2 ^ k" "\<forall>m. unat v \<le> 2 ^ m \<longrightarrow> k \<le> m"
    using smeared_pred_full [OF assms(1) s(1)] by auto
  from k(3) assms(2) have "k \<le> 63" by blast
  then have "(2::nat) ^ k \<le> 2 ^ 63" by (rule power_increasing) simp
  then have "Suc (unat s) < 2 ^ 64" using k(1) by simp
  then have "unat (s + 1) = Suc (unat s)"
    using unat_add_lem [of s 1] by simp
  with k s(2) show ?thesis by (intro exI [of _ k]) auto
qed

subsection \<open>Properties\<close>

text \<open>For every value in 1 .. 2^63, \<open>tsl_round_up_2_64\<close> returns the least power of two
  that is not below the value.\<close>

theorem tsl_round_up_2_64_least_power:
  assumes "0 < unat v" "unat v \<le> 2 ^ 63"
  shows "\<exists>k. unat (tsl_round_up_2_64 v) = 2 ^ k \<and> unat v \<le> 2 ^ k \<and>
             (\<forall>m. unat v \<le> 2 ^ m \<longrightarrow> k \<le> m)"
  by (rule round_up_2_64_power [OF assms])

theorem tsl_round_up_2_64_least_power_witness:
  "unat (tsl_round_up_2_64 130) = 256 \<and>
   (\<exists>k. unat (tsl_round_up_2_64 130) = 2 ^ k \<and> unat (130 :: u64) \<le> 2 ^ k \<and>
        (\<forall>m. unat (130 :: u64) \<le> 2 ^ m \<longrightarrow> k \<le> m))"
proof
  show "unat (tsl_round_up_2_64 130) = 256" by code_simp
  show "\<exists>k. unat (tsl_round_up_2_64 130) = 2 ^ k \<and> unat (130 :: u64) \<le> 2 ^ k \<and>
          (\<forall>m. unat (130 :: u64) \<le> 2 ^ m \<longrightarrow> k \<le> m)"
    by (rule tsl_round_up_2_64_least_power) simp_all
qed

text \<open>\<open>tsl_round_up_2_32\<close> omits the final increment that its 64-bit twin has: for every
  nonzero value it returns the least power of two not below the value, minus one, and never
  that power itself.\<close>

theorem tsl_round_up_2_32_is_power_minus_one:
  assumes "0 < unat v"
  shows "\<exists>k. unat (tsl_round_up_2_32 v) + 1 = 2 ^ k \<and> unat v \<le> 2 ^ k \<and>
             (\<forall>m. unat v \<le> 2 ^ m \<longrightarrow> k \<le> m)"
proof -
  define s where "s = tsl_round_up_2_32 v"
  have sm: "smeared (v - 1) s 32" unfolding s_def by (rule tsl_round_up_2_32_smear)
  obtain k where "unat s = 2 ^ k - 1" "unat v \<le> 2 ^ k" "\<forall>m. unat v \<le> 2 ^ m \<longrightarrow> k \<le> m"
    using smeared_pred_full [OF assms(1) sm] by auto
  then show ?thesis unfolding s_def by (intro exI [of _ k]) simp
qed

theorem tsl_round_up_2_32_is_power_minus_one_witness:
  "unat (tsl_round_up_2_32 130) = 255 \<and>
   (\<exists>k. unat (tsl_round_up_2_32 130) + 1 = 2 ^ k \<and> unat (130 :: u32) \<le> 2 ^ k \<and>
        (\<forall>m. unat (130 :: u32) \<le> 2 ^ m \<longrightarrow> k \<le> m))"
proof
  show "unat (tsl_round_up_2_32 130) = 255" by code_simp
  show "\<exists>k. unat (tsl_round_up_2_32 130) + 1 = 2 ^ k \<and> unat (130 :: u32) \<le> 2 ^ k \<and>
          (\<forall>m. unat (130 :: u32) \<le> 2 ^ m \<longrightarrow> k \<le> m)"
    by (rule tsl_round_up_2_32_is_power_minus_one) simp_all
qed

text \<open>For a nonzero word, \<open>tsl_bit_scan_rev_64\<close> is the position of the most significant
  set bit, i.e. the value lies in \<open>[2^r, 2^(r+1))\<close>, and \<open>tsl_clz64\<close> is \<open>63 - r\<close>.\<close>

theorem tsl_bit_scan_rev_64_highest:
  assumes "val \<noteq> 0"
  shows "bit val (tsl_bit_scan_rev_64 val) \<and>
         2 ^ tsl_bit_scan_rev_64 val \<le> unat val \<and>
         unat val < 2 ^ (tsl_bit_scan_rev_64 val + 1) \<and>
         tsl_clz64 val = 63 - tsl_bit_scan_rev_64 val"
proof -
  obtain h where h: "bit val h" "\<forall>j>h. \<not> bit val j" "h < LENGTH(64)"
    using highest_bit_exists [OF assms] .
  then have clz: "builtin_clz val = 63 - h" using builtin_clz_highest by fastforce
  with h(3) have scan: "tsl_bit_scan_rev_64 val = h"
    by (simp add: tsl_bit_scan_rev_64_def)
  have "unat val < 2 ^ (h + 1)"
    unfolding unat_less_pow_iff_bits using h(2) by auto
  with h(1) scan clz bit_imp_pow_le [OF h(1)] show ?thesis
    by (simp add: tsl_clz64_def)
qed

theorem tsl_bit_scan_rev_64_highest_witness:
  "tsl_bit_scan_rev_64 40 = 5 \<and> bit (40 :: u64) (tsl_bit_scan_rev_64 40) \<and>
   tsl_clz64 40 = 63 - tsl_bit_scan_rev_64 40"
proof -
  have "(40 :: u64) \<noteq> 0" by simp
  from tsl_bit_scan_rev_64_highest [OF this]
  have *: "bit (40 :: u64) (tsl_bit_scan_rev_64 40)" "tsl_clz64 40 = 63 - tsl_bit_scan_rev_64 40"
    by simp_all
  have "tsl_bit_scan_rev_64 40 = 5" by code_simp
  with * show ?thesis by simp
qed

text \<open>\<open>tsl_clz32\<close> calls the 64-bit builtin, so on every nonzero 32-bit word it returns 32
  more than the number of leading zeros of that word.\<close>

theorem tsl_clz32_off_by_32:
  assumes "w \<noteq> 0"
  shows "tsl_clz32 w = 32 + builtin_clz w"
proof -
  obtain h where h: "bit w h" "\<forall>j>h. \<not> bit w j" "h < LENGTH(32)"
    using highest_bit_exists [OF assms] .
  have "bit (ucast w :: u64) h" "\<forall>j>h. \<not> bit (ucast w :: u64) j"
    using h by (auto simp: bit_ucast_iff)
  from builtin_clz_highest [OF this] builtin_clz_highest [OF h(1,2)] h(3)
  show ?thesis by (simp add: tsl_clz32_def)
qed

theorem tsl_clz32_off_by_32_witness:
  "tsl_clz32 1 = 63 \<and> tsl_clz32 1 = 32 + builtin_clz (1 :: u32)"
proof
  show "tsl_clz32 1 = 63" by code_simp
  show "tsl_clz32 1 = 32 + builtin_clz (1 :: u32)"
    by (rule tsl_clz32_off_by_32) simp
qed

text \<open>A value deposited in a field of a 64-bit word is read back by extracting the same
  field, cut to the field's length, and it sets no bit outside the field.\<close>

theorem TSL_EXTRACT_DEPOSIT:
  assumes "off + len \<le> 64"
  shows "TSL_EXTRACT (TSL_DEPOSIT val off len) off len = val AND TSL_MASK len \<and>
         TSL_DEPOSIT val off len AND NOT (push_bit off (TSL_MASK len)) = 0"
proof
  show "TSL_EXTRACT (TSL_DEPOSIT val off len) off len = val AND TSL_MASK len"
    using assms
    by (intro bit_word_eqI) (auto simp: bit_TSL_EXTRACT bit_TSL_DEPOSIT bit_and_iff)
  show "TSL_DEPOSIT val off len AND NOT (push_bit off (TSL_MASK len)) = 0"
    by (intro bit_word_eqI)
      (auto simp: bit_TSL_DEPOSIT bit_and_iff bit_not_iff bit_push_bit_iff)
qed

theorem TSL_EXTRACT_DEPOSIT_witness:
  "TSL_EXTRACT (TSL_DEPOSIT 0x1abcd 16 14) 16 14 = 0x1abcd AND TSL_MASK 14 \<and>
   TSL_DEPOSIT 0x1abcd 16 14 AND NOT (push_bit 16 (TSL_MASK 14)) = 0"
  by (rule TSL_EXTRACT_DEPOSIT) simp

end
