(* ===== verification/TSL_Basic.thy ===== *)
theory TSL_Basic
  imports TSL_Bits
begin

section \<open>Basic macros (tsl/basic.h)\<close>

text \<open>The macros at 64-bit unsigned operands. \<open>BL_CONTAINER_OF\<close> is \<open>LIST_ITEM\<close> of the theory of lists.\<close>

definition BL_ROUND_POW2 :: "u64 \<Rightarrow> nat \<Rightarrow> u64" where
  "BL_ROUND_POW2 val n = push_bit n (drop_bit n (val + of_nat n - 1))"

definition BL_MIN2 :: "u64 \<Rightarrow> u64 \<Rightarrow> u64" where
  "BL_MIN2 x y = (if x < y then x else y)"

definition BL_MIN3 :: "u64 \<Rightarrow> u64 \<Rightarrow> u64 \<Rightarrow> u64" where
  "BL_MIN3 x y z = (if x < y then BL_MIN2 x z else BL_MIN2 y z)"

text \<open>\<open>BL_MIN3\<close> is the least of its arguments.\<close>

theorem BL_MIN3_least: "BL_MIN3 x y z = Min {x, y, z}"
  by (auto simp: BL_MIN3_def BL_MIN2_def min_def not_less not_le)

text \<open>\<open>BL_ROUND_POW2\<close> adds \<open>n - 1\<close>, not \<open>2 ^ n - 1\<close>, before it cuts off the low bits. The result is a multiple of
  \<open>2 ^ n\<close>, and it is the multiple below the value unless the value lies less than \<open>n\<close> below the next multiple: for \<open>n\<close> of at least 3, it
  rounds neither up nor to the nearest multiple.\<close>

theorem BL_ROUND_POW2_value:
  assumes "0 < n" "n < 64" "unat val + 2 ^ n < 2 ^ 64"
  shows "unat (BL_ROUND_POW2 val n) =
    (if unat val mod 2 ^ n + n \<le> 2 ^ n then unat val div 2 ^ n * 2 ^ n else (unat val div 2 ^ n + 1) * 2 ^ n)"
proof -
  let ?v = "unat val" and ?p = "(2 :: nat) ^ n"
  have np: "n < ?p" by (rule less_exp)
  have less_p: "?v mod ?p < ?p" by simp
  have eq: "val + of_nat n - 1 = of_nat (?v + n - 1)" using assms(1) by (simp add: of_nat_diff)
  have "?v + n - 1 < 2 ^ 64" using assms(3) np by linarith
  then have s: "unat (val + of_nat n - 1) = ?v + n - 1" unfolding eq by (subst unat_of_nat) (simp add: take_bit_eq_mod)
  have q: "(?v + n - 1) div ?p = (if ?v mod ?p + n \<le> ?p then ?v div ?p else ?v div ?p + 1)"
  proof -
    have v: "?v + n - 1 = (?v mod ?p + n - 1) + ?v div ?p * ?p" using assms(1) mod_div_mult_eq [of ?v ?p] by simp
    have "(?v + n - 1) div ?p = (?v mod ?p + n - 1) div ?p + ?v div ?p" by (subst v) simp
    moreover have "(?v mod ?p + n - 1) div ?p = (if ?v mod ?p + n \<le> ?p then 0 else 1)"
    proof (cases "?v mod ?p + n \<le> ?p")
      case False
      moreover have "?v mod ?p + n - 1 < 2 * ?p" using np less_p by linarith
      ultimately show ?thesis by (simp add: div_nat_eqI)
    qed (use assms(1) in simp)
    ultimately show ?thesis by simp
  qed
  have len64: "LENGTH(64) = 64" by simp
  have "(?v + n - 1) div ?p * ?p \<le> ?v + n - 1" by simp
  then have "(?v + n - 1) div ?p * ?p < 2 ^ 64" using assms(3) np by linarith
  moreover have "unat (BL_ROUND_POW2 val n) = take_bit 64 (push_bit n (drop_bit n (?v + n - 1)))"
    by (simp only: BL_ROUND_POW2_def unsigned_push_bit_eq unat_drop_bit_eq s len64)
  ultimately have "unat (BL_ROUND_POW2 val n) = (?v + n - 1) div ?p * ?p"
    by (simp only: push_bit_eq_mult drop_bit_eq_div take_bit_eq_mod mod_less)
  then show ?thesis using q by simp
qed

theorem BL_ROUND_POW2_value_witness: "unat (BL_ROUND_POW2 13 3) = 8"
  using BL_ROUND_POW2_value [of 3 13] by simp

end
