(* ===== verification/TSL_Result.thy ===== *)
theory TSL_Result
  imports TSL_Bits
begin

section \<open>Result codes (tsl/result.h, tsl/errors.h)\<close>

text \<open>
  \<open>aresult_t\<close> is a 32-bit integer whose bit 31 flags an error. The codes are built with the macro
  \<open>ARESULT_CODE\<close>, translated with C's integer promotions: the two flag terms are \<open>int\<close>s and are
  sign-extended when they meet the 64-bit fields, and the result is cut back to 32 bits.
\<close>

type_synonym aresult_t = u32

definition ARESULT_ERROR_BIT :: nat where "ARESULT_ERROR_BIT = 31"
definition ARESULT_WARNING_BIT :: nat where "ARESULT_WARNING_BIT = 30"
definition ARESULT_FACILITY_OFFSET :: nat where "ARESULT_FACILITY_OFFSET = 16"
definition ARESULT_FACILITY_SIZE :: nat where "ARESULT_FACILITY_SIZE = 14"
definition ARESULT_CODE_OFFSET :: nat where "ARESULT_CODE_OFFSET = 0"
definition ARESULT_CODE_SIZE :: nat where "ARESULT_CODE_SIZE = 16"

definition FACIL_SYSTEM :: u64 where "FACIL_SYSTEM = 0"

definition AFAILED :: "aresult_t \<Rightarrow> bool" where
  "AFAILED x \<longleftrightarrow> x AND push_bit ARESULT_ERROR_BIT 1 \<noteq> 0"

definition ARESULT_CODE :: "bool \<Rightarrow> bool \<Rightarrow> u64 \<Rightarrow> u64 \<Rightarrow> aresult_t" where
  "ARESULT_CODE err warn facil code =
     ucast (scast (push_bit ARESULT_ERROR_BIT (of_bool err) OR
                   push_bit ARESULT_WARNING_BIT (of_bool warn) :: 32 word) OR
            TSL_DEPOSIT facil ARESULT_FACILITY_OFFSET ARESULT_FACILITY_SIZE OR
            TSL_DEPOSIT code ARESULT_CODE_OFFSET ARESULT_CODE_SIZE :: u64)"

definition ARESULT_ERROR :: "u64 \<Rightarrow> u64 \<Rightarrow> aresult_t" where
  "ARESULT_ERROR facil code = ARESULT_CODE True False facil code"

definition A_OK :: aresult_t where "A_OK = ARESULT_CODE False False FACIL_SYSTEM 0"
definition A_E_NOMEM :: aresult_t where "A_E_NOMEM = ARESULT_ERROR FACIL_SYSTEM 1"
definition A_E_BADARGS :: aresult_t where "A_E_BADARGS = ARESULT_ERROR FACIL_SYSTEM 2"
definition A_E_NOTFOUND :: aresult_t where "A_E_NOTFOUND = ARESULT_ERROR FACIL_SYSTEM 3"
definition A_E_BUSY :: aresult_t where "A_E_BUSY = ARESULT_ERROR FACIL_SYSTEM 4"
definition A_E_INVAL :: aresult_t where "A_E_INVAL = ARESULT_ERROR FACIL_SYSTEM 5"
definition A_E_NOTHREAD :: aresult_t where "A_E_NOTHREAD = ARESULT_ERROR FACIL_SYSTEM 6"
definition A_E_EMPTY :: aresult_t where "A_E_EMPTY = ARESULT_ERROR FACIL_SYSTEM 7"
definition A_E_NO_SOCKET :: aresult_t where "A_E_NO_SOCKET = ARESULT_ERROR FACIL_SYSTEM 8"
definition A_E_NOENT :: aresult_t where "A_E_NOENT = ARESULT_ERROR FACIL_SYSTEM 9"
definition A_E_INV_DATE :: aresult_t where "A_E_INV_DATE = ARESULT_ERROR FACIL_SYSTEM 10"
definition A_E_NOSPC :: aresult_t where "A_E_NOSPC = ARESULT_ERROR FACIL_SYSTEM 11"
definition A_E_EXIST :: aresult_t where "A_E_EXIST = ARESULT_ERROR FACIL_SYSTEM 12"
definition A_E_UNKNOWN :: aresult_t where "A_E_UNKNOWN = ARESULT_ERROR FACIL_SYSTEM 13"
definition A_E_DONE :: aresult_t where "A_E_DONE = ARESULT_ERROR FACIL_SYSTEM 14"

subsection \<open>The codes as numerals\<close>

lemma bit_flag:
  "bit (push_bit n (of_bool b) :: 'a::len word) i \<longleftrightarrow> b \<and> i = n \<and> n < LENGTH('a)"
  by (auto simp: bit_push_bit_iff bit_of_bool_iff)

lemma and_flag_nonzero:
  fixes x :: "'a::len word"
  shows "x AND push_bit n 1 \<noteq> 0 \<longleftrightarrow> bit x n"
proof -
  have bits: "bit (x AND push_bit n 1) i \<longleftrightarrow> i = n \<and> bit x n" for i
    using bit_flag [of n True i, where 'a = 'a]
    by (auto simp only: bit_and_iff of_bool_eq dest: bit_imp_le_length)
  show ?thesis
    by (metis bits bit_0_eq bot_apply bot_bool_def bit_word_eqI)
qed

lemma AFAILED_iff_bit: "AFAILED x \<longleftrightarrow> bit x 31"
  unfolding AFAILED_def and_flag_nonzero by (simp add: ARESULT_ERROR_BIT_def)

lemma and_TSL_MASK_eq_iff:
  assumes "n \<le> 64"
  shows "x AND TSL_MASK n = y AND TSL_MASK n \<longleftrightarrow> (\<forall>j<n. bit x j = bit y j)"
proof
  assume eq: "x AND TSL_MASK n = y AND TSL_MASK n"
  show "\<forall>j<n. bit x j = bit y j"
  proof (intro allI impI)
    fix j assume "j < n"
    with assms show "bit x j = bit y j"
      using arg_cong [OF eq, of "\<lambda>w. bit w j"] by (simp add: bit_and_iff)
  qed
next
  assume "\<forall>j<n. bit x j = bit y j"
  then show "x AND TSL_MASK n = y AND TSL_MASK n"
    by (intro bit_word_eqI) (auto simp: bit_and_iff)
qed

lemma A_OK_val [aresult_vals]: "A_OK = 0" by code_simp
lemma A_E_NOMEM_val [aresult_vals]: "A_E_NOMEM = 0x80000001" by code_simp
lemma A_E_BADARGS_val [aresult_vals]: "A_E_BADARGS = 0x80000002" by code_simp
lemma A_E_NOTFOUND_val [aresult_vals]: "A_E_NOTFOUND = 0x80000003" by code_simp
lemma A_E_BUSY_val [aresult_vals]: "A_E_BUSY = 0x80000004" by code_simp
lemma A_E_INVAL_val [aresult_vals]: "A_E_INVAL = 0x80000005" by code_simp
lemma A_E_NOTHREAD_val [aresult_vals]: "A_E_NOTHREAD = 0x80000006" by code_simp
lemma A_E_EMPTY_val [aresult_vals]: "A_E_EMPTY = 0x80000007" by code_simp
lemma A_E_NOENT_val [aresult_vals]: "A_E_NOENT = 0x80000009" by code_simp
lemma A_E_NOSPC_val [aresult_vals]: "A_E_NOSPC = 0x8000000b" by code_simp
lemma A_E_UNKNOWN_val [aresult_vals]: "A_E_UNKNOWN = 0x8000000d" by code_simp

lemma AFAILED_codes [simp]:
  "\<not> AFAILED A_OK" "AFAILED A_E_NOMEM" "AFAILED A_E_BADARGS" "AFAILED A_E_NOTFOUND"
  "AFAILED A_E_BUSY" "AFAILED A_E_INVAL" "AFAILED A_E_NOTHREAD" "AFAILED A_E_EMPTY"
  "AFAILED A_E_NOENT" "AFAILED A_E_NOSPC" "AFAILED A_E_UNKNOWN"
  by code_simp+

lemma A_OK_neq_errors [simp]:
  "A_OK \<noteq> A_E_NOMEM" "A_OK \<noteq> A_E_BADARGS" "A_OK \<noteq> A_E_NOTFOUND" "A_OK \<noteq> A_E_BUSY"
  "A_OK \<noteq> A_E_INVAL" "A_OK \<noteq> A_E_NOTHREAD" "A_OK \<noteq> A_E_EMPTY" "A_OK \<noteq> A_E_NOENT"
  "A_OK \<noteq> A_E_NOSPC" "A_OK \<noteq> A_E_UNKNOWN"
  by (simp_all add: aresult_vals)

lemmas errors_neq_A_OK [simp] = A_OK_neq_errors [symmetric]

lemma bit_ARESULT_CODE:
  "bit (ARESULT_CODE err warn facil code) i \<longleftrightarrow>
     i = 31 \<and> err \<or> i = 30 \<and> warn \<or>
     16 \<le> i \<and> i < 30 \<and> bit facil (i - 16) \<or> i < 16 \<and> bit code i"
proof -
  define f where "f = (push_bit 31 (of_bool err) OR push_bit 30 (of_bool warn) :: 32 word)"
  have flags: "bit f i \<longleftrightarrow> i = 31 \<and> err \<or> i = 30 \<and> warn" for i
    unfolding f_def bit_or_iff bit_flag by auto
  have "ARESULT_CODE err warn facil code =
      ucast (scast f OR TSL_DEPOSIT facil 16 14 OR TSL_DEPOSIT code 0 16 :: u64)"
    by (simp only: ARESULT_CODE_def f_def ARESULT_ERROR_BIT_def ARESULT_WARNING_BIT_def
        ARESULT_FACILITY_OFFSET_def ARESULT_FACILITY_SIZE_def ARESULT_CODE_OFFSET_def
        ARESULT_CODE_SIZE_def)
  then show ?thesis
    by (auto simp: bit_ucast_iff bit_or_iff bit_signed_iff flags bit_TSL_DEPOSIT min_def)
qed

subsection \<open>Properties\<close>

text \<open>The layout that the header documents: \<open>AFAILED\<close> of a constructed code is its error
  flag, whatever the facility and code are, and two constructed codes are equal only if their
  flags, the low 14 bits of their facilities and the low 16 bits of their codes are.\<close>

theorem ARESULT_CODE_layout:
  "AFAILED (ARESULT_CODE err warn facil code) = err \<and>
   (ARESULT_CODE err warn facil code = ARESULT_CODE err' warn' facil' code' \<longleftrightarrow>
      err = err' \<and> warn = warn' \<and>
      facil AND TSL_MASK 14 = facil' AND TSL_MASK 14 \<and>
      code AND TSL_MASK 16 = code' AND TSL_MASK 16)"
proof
  show "AFAILED (ARESULT_CODE err warn facil code) = err"
    by (simp add: AFAILED_iff_bit bit_ARESULT_CODE)
  have facil: "facil AND TSL_MASK 14 = facil' AND TSL_MASK 14 \<longleftrightarrow>
      (\<forall>j<14. bit facil j = bit facil' j)"
    by (rule and_TSL_MASK_eq_iff) simp
  have code: "code AND TSL_MASK 16 = code' AND TSL_MASK 16 \<longleftrightarrow> (\<forall>j<16. bit code j = bit code' j)"
    by (rule and_TSL_MASK_eq_iff) simp
  show "ARESULT_CODE err warn facil code = ARESULT_CODE err' warn' facil' code' \<longleftrightarrow>
      err = err' \<and> warn = warn' \<and>
      facil AND TSL_MASK 14 = facil' AND TSL_MASK 14 \<and>
      code AND TSL_MASK 16 = code' AND TSL_MASK 16" (is "?L = ?R")
  proof
    assume eq: ?L
    then have bits: "bit (ARESULT_CODE err warn facil code) i =
        bit (ARESULT_CODE err' warn' facil' code') i" for i by simp
    have "bit facil j = bit facil' j" if "j < 14" for j
      using bits [of "j + 16"] that by (auto simp: bit_ARESULT_CODE)
    moreover have "bit code j = bit code' j" if "j < 16" for j
      using bits [of j] that by (auto simp: bit_ARESULT_CODE)
    ultimately show ?R
      using bits [of 31] bits [of 30] facil code by (auto simp: bit_ARESULT_CODE)
  next
    assume ?R
    then show ?L
      unfolding facil code by (intro bit_word_eqI) (auto simp: bit_ARESULT_CODE)
  qed
qed

end
