(* ===== verification/TSL_List.thy ===== *)
theory TSL_List
  imports TSL_Result
begin

section \<open>Intrusive linked lists (tsl/list.h)\<close>

text \<open>
  Circular doubly linked lists whose entries are embedded in other structs. The memory that holds
  the entries is a function from addresses to \<open>list_entry\<close> records, so that aliasing between
  lists is part of the model. \<open>is_list m h xs\<close> states that the entries reachable from head \<open>h\<close>
  are exactly \<open>xs\<close>, in this order and linked in both directions. The locale \<open>linked_lists\<close> is
  the interface that the clients (hash table, slab allocator, timers) rely on: what one operation
  does to its list and that it leaves every disjoint list alone. It is interpreted on the model's
  own operations at the end.
\<close>

subsection \<open>Memory and operations\<close>

record list_entry =
  le_prev :: addr
  le_next :: addr

type_synonym list_mem = "addr \<Rightarrow> list_entry"

definition set_next :: "list_mem \<Rightarrow> addr \<Rightarrow> addr \<Rightarrow> list_mem" where
  "set_next m p v = m(p := (m p)\<lparr>le_next := v\<rparr>)"

definition set_prev :: "list_mem \<Rightarrow> addr \<Rightarrow> addr \<Rightarrow> list_mem" where
  "set_prev m p v = m(p := (m p)\<lparr>le_prev := v\<rparr>)"

definition LIST_POISON_NEXT :: addr where "LIST_POISON_NEXT = 0xc1c1c1c1"
definition LIST_POISON_PREV :: addr where "LIST_POISON_PREV = 0x81818181"

text \<open>\<open>LIST_ITEM\<close>: the struct that holds the entry at a given offset.\<close>

definition LIST_ITEM :: "addr \<Rightarrow> addr \<Rightarrow> addr" where
  "LIST_ITEM list_ptr offset = list_ptr - offset"

definition list_init :: "list_mem \<Rightarrow> addr \<Rightarrow> list_mem" where
  "list_init m new = set_next (set_prev m new new) new new"

text \<open>\<open>__list_add\<close>\<close>

definition list_add :: "list_mem \<Rightarrow> addr \<Rightarrow> addr \<Rightarrow> addr \<Rightarrow> list_mem" where
  "list_add m new prv nxt =
     (let m = set_next m prv new;
          m = set_prev m new prv;
          m = set_prev m nxt new;
          m = set_next m new nxt
      in m)"

definition list_insert_at :: "list_mem \<Rightarrow> addr \<Rightarrow> addr \<Rightarrow> list_mem" where
  "list_insert_at m pos new = list_add m new pos (le_next (m pos))"

definition list_append :: "list_mem \<Rightarrow> addr \<Rightarrow> addr \<Rightarrow> list_mem" where
  "list_append m head new = list_add m new (le_prev (m head)) head"

definition list_prepend :: "list_mem \<Rightarrow> addr \<Rightarrow> addr \<Rightarrow> list_mem" where
  "list_prepend m head new = list_add m new head (le_next (m head))"

text \<open>\<open>__list_del\<close>\<close>

definition list_del_between :: "list_mem \<Rightarrow> addr \<Rightarrow> addr \<Rightarrow> list_mem" where
  "list_del_between m prv nxt = set_prev (set_next m prv nxt) nxt prv"

definition list_del :: "list_mem \<Rightarrow> addr \<Rightarrow> list_mem" where
  "list_del m del =
     (let m = list_del_between m (le_prev (m del)) (le_next (m del));
          m = set_next m del LIST_POISON_NEXT;
          m = set_prev m del LIST_POISON_PREV
      in m)"

text \<open>\<open>__list_splice\<close>\<close>

definition list_splice_between ::
  "list_mem \<Rightarrow> addr \<Rightarrow> addr \<Rightarrow> addr \<Rightarrow> addr \<Rightarrow> addr \<Rightarrow> list_mem" where
  "list_splice_between m target_head first_prev first_next second_prev second_next =
     (let m = set_next m first_prev second_next;
          m = set_prev m second_next first_prev;
          m = set_next m second_prev target_head;
          m = set_prev m first_next target_head;
          m = set_prev m target_head second_prev;
          m = set_next m target_head first_next
      in m)"

definition list_splice :: "list_mem \<Rightarrow> addr \<Rightarrow> addr \<Rightarrow> addr \<Rightarrow> list_mem" where
  "list_splice m target first second =
     list_splice_between m target (le_prev (m first)) (le_next (m first))
                                  (le_prev (m second)) (le_next (m second))"

definition list_empty :: "list_mem \<Rightarrow> addr \<Rightarrow> bool" where
  "list_empty m head \<longleftrightarrow> le_next (m head) = head"

definition list_is_last :: "list_mem \<Rightarrow> addr \<Rightarrow> addr \<Rightarrow> bool" where
  "list_is_last m head item \<longleftrightarrow> le_next (m item) = head"

text \<open>The entries that \<open>list_for_each\<close> visits, from a given position; \<open>None\<close> if the loop never
  reaches the head again.\<close>

partial_function (option) list_walk :: "list_mem \<Rightarrow> addr \<Rightarrow> addr \<Rightarrow> addr list option" where
  "list_walk m head iter =
     (if iter = head then Some []
      else do {
        rest \<leftarrow> list_walk m head (le_next (m iter));
        Some (iter # rest)
      })"

definition list_for_each :: "list_mem \<Rightarrow> addr \<Rightarrow> addr list option" where
  "list_for_each m head = list_walk m head (le_next (m head))"

subsection \<open>Lists in memory\<close>

definition link :: "list_mem \<Rightarrow> addr \<Rightarrow> addr \<Rightarrow> bool" where
  "link m a b \<longleftrightarrow> le_next (m a) = b \<and> le_prev (m b) = a"

definition is_list :: "list_mem \<Rightarrow> addr \<Rightarrow> addr list \<Rightarrow> bool" where
  "is_list m h xs \<longleftrightarrow> distinct (h # xs) \<and> successively (link m) (h # xs @ [h])"

text \<open>A family of pairwise disjoint lists, one for each head in \<open>H\<close>.\<close>

definition list_family ::
  "('m \<Rightarrow> 'a \<Rightarrow> 'a list \<Rightarrow> bool) \<Rightarrow> 'm \<Rightarrow> 'a set \<Rightarrow> ('a \<Rightarrow> 'a list) \<Rightarrow> bool" where
  "list_family lst m H X \<longleftrightarrow>
     (\<forall>h\<in>H. lst m h (X h)) \<and>
     (\<forall>h\<in>H. \<forall>h'\<in>H. h \<noteq> h' \<longrightarrow> set (h # X h) \<inter> set (h' # X h') = {})"

definition family_cells :: "'a set \<Rightarrow> ('a \<Rightarrow> 'a list) \<Rightarrow> 'a set" where
  "family_cells H X = (\<Union>h\<in>H. set (h # X h))"

subsection \<open>Reading after writing\<close>

lemma set_next_read [list_mem_simps]:
  "le_next (set_next m p v q) = (if q = p then v else le_next (m q))"
  "le_prev (set_next m p v q) = le_prev (m q)"
  by (simp_all add: set_next_def)

lemma set_prev_read [list_mem_simps]:
  "le_prev (set_prev m p v q) = (if q = p then v else le_prev (m q))"
  "le_next (set_prev m p v q) = le_next (m q)"
  by (simp_all add: set_prev_def)

lemma list_add_read [list_mem_simps]:
  "le_next (list_add m n p q x) =
     (if x = n then q else if x = p then n else le_next (m x))"
  "le_prev (list_add m n p q x) =
     (if x = q then n else if x = n then p else le_prev (m x))"
  by (simp_all add: list_add_def Let_def list_mem_simps)

lemma list_del_between_read [list_mem_simps]:
  "le_next (list_del_between m p q x) = (if x = p then q else le_next (m x))"
  "le_prev (list_del_between m p q x) = (if x = q then p else le_prev (m x))"
  by (simp_all add: list_del_between_def list_mem_simps)

lemma list_del_read [list_mem_simps]:
  "le_next (list_del m d x) =
     (if x = d then LIST_POISON_NEXT
      else if x = le_prev (m d) then le_next (m d) else le_next (m x))"
  "le_prev (list_del m d x) =
     (if x = d then LIST_POISON_PREV
      else if x = le_next (m d) then le_prev (m d) else le_prev (m x))"
  by (simp_all add: list_del_def Let_def list_mem_simps)

subsection \<open>Chains of links\<close>

lemma links_cong:
  assumes "\<And>u. u \<in> set (butlast zs) \<Longrightarrow> le_next (m u) = le_next (m' u)"
    and "\<And>v. v \<in> set (tl zs) \<Longrightarrow> le_prev (m v) = le_prev (m' v)"
  shows "successively (link m) zs \<longleftrightarrow> successively (link m') zs"
  using assms by (induction zs rule: induct_list012) (auto simp: link_def)

lemma is_list_split:
  "is_list m h (xs @ ys) \<longleftrightarrow>
     distinct (h # xs @ ys) \<and> successively (link m) (h # xs) \<and>
     link m (last (h # xs)) (hd (ys @ [h])) \<and> successively (link m) (ys @ [h])"
proof -
  have eq: "h # (xs @ ys) @ [h] = (h # xs) @ (ys @ [h])" by simp
  show ?thesis
    unfolding is_list_def eq successively_append_iff [of _ "h # xs" "ys @ [h]"] by auto
qed

lemma is_list_cong:
  assumes "\<And>x. x \<in> set (h # xs) \<Longrightarrow> m x = m' x"
  shows "is_list m h xs \<longleftrightarrow> is_list m' h xs"
  unfolding is_list_def using assms
  by (intro conj_cong refl links_cong) (auto dest: in_set_butlastD)

lemma is_list_distinct: "is_list m h xs \<Longrightarrow> distinct (h # xs)"
  by (simp add: is_list_def)

lemma is_list_neighbours:
  assumes "is_list m h (xs @ d # ys)"
  shows "le_prev (m d) = last (h # xs)" "le_next (m d) = hd (ys @ [h])"
proof -
  from assms have "link m (last (h # xs)) d" by (auto simp: is_list_split)
  then show "le_prev (m d) = last (h # xs)" by (simp add: link_def)
  from assms have "is_list m h ((xs @ [d]) @ ys)" by simp
  then have "link m d (hd (ys @ [h]))" by (simp add: is_list_split del: append_assoc)
  then show "le_next (m d) = hd (ys @ [h])" by (simp add: link_def)
qed

lemma is_list_ends:
  assumes "is_list m h xs"
  shows "le_next (m h) = hd (xs @ [h])" "le_prev (m h) = last (h # xs)"
proof -
  from assms have "is_list m h ([] @ xs)" by simp
  then show "le_next (m h) = hd (xs @ [h])" unfolding is_list_split by (simp add: link_def)
  from assms have "is_list m h (xs @ [])" by simp
  then show "le_prev (m h) = last (h # xs)" unfolding is_list_split by (simp add: link_def)
qed

lemma is_list_init: "is_list (list_init m h) h []"
  by (simp add: is_list_def link_def list_init_def list_mem_simps)

lemma is_list_empty_iff: "is_list m h xs \<Longrightarrow> list_empty m h \<longleftrightarrow> xs = []"
  using is_list_ends(1) [of m h xs] by (cases xs) (auto simp: is_list_def list_empty_def)

lemma list_walk_links:
  assumes "successively (link m) (xs @ [h])" "h \<notin> set xs"
  shows "list_walk m h (hd (xs @ [h])) = Some xs"
  using assms
proof (induction xs)
  case Nil
  then show ?case by (simp add: list_walk.simps)
next
  case (Cons x xs)
  then have "successively (link m) (xs @ [h])" "le_next (m x) = hd (xs @ [h])"
    by (auto simp: successively_Cons link_def)
  with Cons have "list_walk m h (le_next (m x)) = Some xs" by simp
  with Cons.prems show ?case by (auto simp: list_walk.simps [of m h x])
qed

lemma is_list_for_each:
  assumes "is_list m h xs"
  shows "list_for_each m h = Some xs"
proof -
  from assms have "is_list m h ([] @ xs)" by simp
  then have "successively (link m) (xs @ [h])" "h \<notin> set xs"
    unfolding is_list_split by auto
  then show ?thesis
    using list_walk_links is_list_ends(1) [OF assms] by (simp add: list_for_each_def)
qed

subsection \<open>The operations on lists in memory\<close>

lemma is_list_list_add:
  assumes l: "is_list m h (xs @ ys)" and n: "n \<notin> set (h # xs @ ys)"
  shows "is_list (list_add m n (last (h # xs)) (hd (ys @ [h]))) h (xs @ n # ys)"
proof -
  let ?p = "last (h # xs)" and ?q = "hd (ys @ [h])"
  let ?m = "list_add m n ?p ?q"
  from l have dist: "distinct (h # xs @ ys)" and sx: "successively (link m) (h # xs)"
    and sy: "successively (link m) (ys @ [h])" by (auto simp: is_list_split)
  from dist have p: "?p \<in> set (h # xs)" "?p \<notin> set (butlast (h # xs))"
    using last_Cons_in_set [of h xs] last_notin_butlast [of "h # xs"] by auto
  from dist have q: "?q \<in> set (ys @ [h])" "?q \<notin> set (tl (ys @ [h]))"
    using hd_snoc_in_set [of ys h] hd_notin_tl [of "ys @ [h]"] by auto
  have "successively (link ?m) (h # xs)"
    using sx n p q dist
    by (subst links_cong [where m' = m]) (auto simp: list_mem_simps dest: in_set_butlastD)
  moreover have "successively (link ?m) (ys @ [h])"
    using sy n p q dist
    by (subst links_cong [where m' = m]) (auto simp: list_mem_simps dest: in_set_tlD)
  moreover have "?p \<noteq> n"
    using p(1) n by (metis Un_iff list.set_intros(1) list.set_intros(2) set_ConsD set_append)
  moreover have "?q \<noteq> n"
    using q(1) n by (metis Un_iff list.set_intros(1) list.set_intros(2) set_ConsD set_append
        empty_iff empty_set)
  ultimately have "successively (link ?m) (h # xs)" "successively (link ?m) (ys @ [h])" "link ?m ?p n" "link ?m n ?q"
    by (simp_all add: link_def list_mem_simps del: last.simps)
  then show ?thesis
    using dist n unfolding is_list_split [of ?m h xs "n # ys"] by (auto simp: successively_Cons)
qed

lemma is_list_append:
  assumes "is_list m h xs" "n \<notin> set (h # xs)"
  shows "is_list (list_append m h n) h (xs @ [n])"
  using is_list_list_add [of m h xs "[]" n] assms is_list_ends(2) [OF assms(1)]
  by (simp add: list_append_def)

lemma is_list_prepend:
  assumes "is_list m h xs" "n \<notin> set (h # xs)"
  shows "is_list (list_prepend m h n) h (n # xs)"
  using is_list_list_add [of m h "[]" xs n] assms is_list_ends(1) [OF assms(1)]
  by (simp add: list_prepend_def)

lemma is_list_insert_at:
  assumes "is_list m h (xs @ p # ys)" "n \<notin> set (h # xs @ p # ys)"
  shows "is_list (list_insert_at m p n) h (xs @ p # n # ys)"
  using is_list_list_add [of m h "xs @ [p]" ys n] assms is_list_neighbours(2) [OF assms(1)]
  by (simp add: list_insert_at_def)

lemma is_list_del_split:
  assumes l: "is_list m h (xs @ d # ys)"
  shows "is_list (list_del m d) h (xs @ ys)"
proof -
  let ?p = "last (h # xs)" and ?q = "hd (ys @ [h])"
  let ?m = "list_del m d"
  note nb = is_list_neighbours [OF l]
  from l have dist: "distinct (h # xs @ d # ys)" and sx: "successively (link m) (h # xs)"
    and sdy: "successively (link m) (d # ys @ [h])" by (auto simp: is_list_split)
  from sdy have sy: "successively (link m) (ys @ [h])" by (auto simp: successively_Cons)
  from dist have p: "?p \<in> set (h # xs)" "?p \<notin> set (butlast (h # xs))"
    using last_Cons_in_set [of h xs] last_notin_butlast [of "h # xs"] by auto
  from dist have q: "?q \<in> set (ys @ [h])" "?q \<notin> set (tl (ys @ [h]))"
    using hd_snoc_in_set [of ys h] hd_notin_tl [of "ys @ [h]"] by auto
  have "successively (link ?m) (h # xs)"
    using sx p q dist
    by (subst links_cong [where m' = m]) (auto simp: list_mem_simps nb dest: in_set_butlastD)
  moreover have "successively (link ?m) (ys @ [h])"
    using sy p q dist
    by (subst links_cong [where m' = m]) (auto simp: list_mem_simps nb dest: in_set_tlD)
  moreover have "link ?m ?p ?q"
    using p q dist by (auto simp: link_def list_mem_simps nb)
  ultimately show ?thesis
    using dist unfolding is_list_split by auto
qed

lemma is_list_del:
  assumes "is_list m h xs" "d \<in> set xs"
  shows "is_list (list_del m d) h (remove1 d xs)"
proof -
  from assms(2) obtain ys zs where xs: "xs = ys @ d # zs" "d \<notin> set ys"
    by (meson split_list_first)
  with assms(1) is_list_del_split [of m h ys d zs] show ?thesis
    by (simp add: remove1_append)
qed

lemma list_entry_eqI: "le_next a = le_next b \<Longrightarrow> le_prev a = le_prev b \<Longrightarrow> a = (b :: list_entry)"
  by (cases a, cases b) simp

lemma list_add_outside: "x \<notin> {n, p, q} \<Longrightarrow> list_add m n p q x = m x"
  by (rule list_entry_eqI) (auto simp: list_mem_simps)

lemma list_del_outside: "x \<notin> {d, le_prev (m d), le_next (m d)} \<Longrightarrow> list_del m d x = m x"
  by (rule list_entry_eqI) (auto simp: list_mem_simps)

lemma list_append_outside:
  assumes "is_list m h xs" "x \<notin> set (n # h # xs)"
  shows "list_append m h n x = m x"
  unfolding list_append_def
  using assms(2) is_list_ends(2) [OF assms(1)] last_Cons_in_set [of h xs]
  by (intro list_add_outside) auto

lemma list_prepend_outside:
  assumes "is_list m h xs" "x \<notin> set (n # h # xs)"
  shows "list_prepend m h n x = m x"
  unfolding list_prepend_def
  using assms(2) is_list_ends(1) [OF assms(1)] hd_snoc_in_set [of xs h]
  by (intro list_add_outside) auto

lemma list_del_outside_list:
  assumes "is_list m h xs" "d \<in> set xs" "x \<notin> set (h # xs)"
  shows "list_del m d x = m x"
proof -
  from assms(2) obtain ys zs where xs: "xs = ys @ d # zs" by (meson split_list)
  with assms(1) have "le_prev (m d) \<in> set (h # xs)" "le_next (m d) \<in> set (h # xs)"
    using is_list_neighbours [of m h ys d zs] last_Cons_in_set [of h ys] hd_snoc_in_set [of zs h]
    by auto
  with assms(2,3) show ?thesis by (intro list_del_outside) auto
qed

lemma list_splice_between_read [list_mem_simps]:
  "le_next (list_splice_between m t fp fn sp sn x) =
     (if x = t then fn else if x = sp then t else if x = fp then sn else le_next (m x))"
  "le_prev (list_splice_between m t fp fn sp sn x) =
     (if x = t then sp else if x = fn then t else if x = sn then fp else le_prev (m x))"
  by (simp_all add: list_splice_between_def Let_def list_mem_simps)

lemma is_list_inner:
  assumes "is_list m h xs"
  shows "successively (link m) xs" "distinct xs"
  using assms unfolding is_list_def by (auto simp: successively_Cons successively_append_iff)

lemma is_list_splice:
  assumes f: "is_list m f xs" and s: "is_list m s ys" and ne: "xs \<noteq> []" "ys \<noteq> []"
    and disj: "set xs \<inter> set ys = {}" and t: "t \<notin> set xs \<union> set ys"
  shows "is_list (list_splice m t f s) t (xs @ ys)"
proof -
  define fn fp sn sp where "fn = hd xs" and "fp = last xs" and "sn = hd ys" and "sp = last ys"
  let ?m = "list_splice_between m t fp fn sp sn"
  have m: "list_splice m t f s = ?m"
    using ne is_list_ends [OF f] is_list_ends [OF s]
    by (simp add: list_splice_def fn_def fp_def sn_def sp_def)
  note ends = hd_in_set [OF ne(1)] hd_in_set [OF ne(2)] last_in_set [OF ne(1)] last_in_set [OF ne(2)]
    hd_notin_tl [OF is_list_inner(2) [OF f] ne(1)] hd_notin_tl [OF is_list_inner(2) [OF s] ne(2)]
    last_notin_butlast [OF is_list_inner(2) [OF f] ne(1)]
    last_notin_butlast [OF is_list_inner(2) [OF s] ne(2)]
  note ends = ends [folded fn_def fp_def sn_def sp_def]
  have "successively (link ?m) xs"
    using is_list_inner(1) [OF f] ends disj t
    by (subst links_cong [where m' = m])
      (auto simp: list_mem_simps dest: in_set_tlD in_set_butlastD)
  moreover have "successively (link ?m) ys"
    using is_list_inner(1) [OF s] ends disj t
    by (subst links_cong [where m' = m])
      (auto simp: list_mem_simps dest: in_set_tlD in_set_butlastD)
  moreover have "link ?m t fn" "link ?m fp sn" "link ?m sp t"
    using ends disj t by (auto simp: link_def list_mem_simps)
  ultimately show ?thesis
    using ne disj t is_list_inner(2) [OF f] is_list_inner(2) [OF s] unfolding m is_list_def
    by (auto simp: successively_Cons successively_append_iff fn_def fp_def sn_def sp_def)
qed

lemma is_list_splice_empty_first:
  assumes f: "is_list m f []" and s: "is_list m s ys" and ne: "ys \<noteq> []"
    and t: "t \<noteq> f" "t \<notin> set ys" "f \<notin> set ys"
  shows "is_list (list_splice m t f s) t (f # ys)"
proof -
  define sn sp where "sn = hd ys" and "sp = last ys"
  let ?m = "list_splice_between m t f f sp sn"
  have m: "list_splice m t f s = ?m"
    using ne is_list_ends [OF f] is_list_ends [OF s] by (simp add: list_splice_def sn_def sp_def)
  note ends = hd_in_set [OF ne] last_in_set [OF ne] hd_notin_tl [OF is_list_inner(2) [OF s] ne]
    last_notin_butlast [OF is_list_inner(2) [OF s] ne]
  note ends = ends [folded sn_def sp_def]
  have "successively (link ?m) ys"
    using is_list_inner(1) [OF s] ends t
    by (subst links_cong [where m' = m])
      (auto simp: list_mem_simps dest: in_set_tlD in_set_butlastD)
  moreover have "link ?m t f" "link ?m f sn" "link ?m sp t"
    using ends t by (auto simp: link_def list_mem_simps)
  ultimately show ?thesis
    using ne t is_list_inner(2) [OF s] unfolding m is_list_def
    by (auto simp: successively_Cons successively_append_iff sn_def sp_def)
qed

subsection \<open>The interface of linked lists\<close>

locale linked_lists =
  fixes lst :: "'m \<Rightarrow> 'a \<Rightarrow> 'a list \<Rightarrow> bool"
    and app :: "'m \<Rightarrow> 'a \<Rightarrow> 'a \<Rightarrow> 'm"
    and pre :: "'m \<Rightarrow> 'a \<Rightarrow> 'a \<Rightarrow> 'm"
    and del :: "'m \<Rightarrow> 'a \<Rightarrow> 'm"
  assumes lst_distinct: "lst m h xs \<Longrightarrow> distinct (h # xs)"
    and lst_app: "lst m h xs \<Longrightarrow> n \<notin> set (h # xs) \<Longrightarrow> lst (app m h n) h (xs @ [n])"
    and lst_pre: "lst m h xs \<Longrightarrow> n \<notin> set (h # xs) \<Longrightarrow> lst (pre m h n) h (n # xs)"
    and lst_del: "lst m h xs \<Longrightarrow> d \<in> set xs \<Longrightarrow> lst (del m d) h (remove1 d xs)"
    and app_frame: "lst m h xs \<Longrightarrow> lst m g ys \<Longrightarrow>
      set (g # ys) \<inter> set (n # h # xs) = {} \<Longrightarrow> lst (app m h n) g ys"
    and pre_frame: "lst m h xs \<Longrightarrow> lst m g ys \<Longrightarrow>
      set (g # ys) \<inter> set (n # h # xs) = {} \<Longrightarrow> lst (pre m h n) g ys"
    and del_frame: "lst m h xs \<Longrightarrow> d \<in> set xs \<Longrightarrow> lst m g ys \<Longrightarrow>
      set (g # ys) \<inter> set (h # xs) = {} \<Longrightarrow> lst (del m d) g ys"
begin

lemma family_app:
  assumes f: "list_family lst m H X" and h: "h \<in> H" and n: "n \<notin> family_cells H X"
  shows "list_family lst (app m h n) H (X(h := X h @ [n]))"
proof -
  have l: "lst m g (X g)" if "g \<in> H" for g using f that by (simp add: list_family_def)
  have disj: "set (g # X g) \<inter> set (n # h # X h) = {}" if "g \<in> H" "g \<noteq> h" for g
    using f h n that by (auto simp: list_family_def family_cells_def)
  have "lst (app m h n) h (X h @ [n])"
    using l h n by (intro lst_app) (auto simp: family_cells_def)
  moreover have "lst (app m h n) g (X g)" if "g \<in> H" "g \<noteq> h" for g
    using app_frame [OF l [OF h] l [OF that(1)] disj [OF that]] .
  ultimately show ?thesis
    using f n h by (auto simp: list_family_def family_cells_def)
qed

lemma family_pre:
  assumes f: "list_family lst m H X" and h: "h \<in> H" and n: "n \<notin> family_cells H X"
  shows "list_family lst (pre m h n) H (X(h := n # X h))"
proof -
  have l: "lst m g (X g)" if "g \<in> H" for g using f that by (simp add: list_family_def)
  have disj: "set (g # X g) \<inter> set (n # h # X h) = {}" if "g \<in> H" "g \<noteq> h" for g
    using f h n that by (auto simp: list_family_def family_cells_def)
  have "lst (pre m h n) h (n # X h)"
    using l h n by (intro lst_pre) (auto simp: family_cells_def)
  moreover have "lst (pre m h n) g (X g)" if "g \<in> H" "g \<noteq> h" for g
    using pre_frame [OF l [OF h] l [OF that(1)] disj [OF that]] .
  ultimately show ?thesis
    using f n h by (auto simp: list_family_def family_cells_def)
qed

lemma family_del:
  assumes f: "list_family lst m H X" and h: "h \<in> H" and d: "d \<in> set (X h)"
  shows "list_family lst (del m d) H (X(h := remove1 d (X h)))"
proof -
  have l: "lst m g (X g)" if "g \<in> H" for g using f that by (simp add: list_family_def)
  have disj: "set (g # X g) \<inter> set (h # X h) = {}" if "g \<in> H" "g \<noteq> h" for g
    using f h that by (auto simp: list_family_def)
  have "lst (del m d) h (remove1 d (X h))" using l h d by (intro lst_del)
  moreover have "lst (del m d) g (X g)" if "g \<in> H" "g \<noteq> h" for g
    using del_frame [OF l [OF h] d l [OF that(1)] disj [OF that]] .
  moreover have "set (h # remove1 d (X h)) \<subseteq> set (h # X h)"
    using set_remove1_subset by fastforce
  ultimately show ?thesis
    using f h by (auto simp: list_family_def dest: notin_set_remove1) blast+
qed

lemma family_del_fresh:
  assumes f: "list_family lst m H X" and h: "h \<in> H" and d: "d \<in> set (X h)"
  shows "d \<notin> family_cells H (X(h := remove1 d (X h)))"
proof -
  have "distinct (h # X h)" using f h lst_distinct by (auto simp: list_family_def)
  moreover have "d \<notin> set (g # X g)" if "g \<in> H" "g \<noteq> h" for g
    using f h d that by (auto simp: list_family_def)
  ultimately show ?thesis
    using d by (auto simp: family_cells_def)
qed

text \<open>Moving an entry between two lists of a family: delete here, append there.\<close>

lemma family_move_app:
  assumes "list_family lst m H X" "h \<in> H" "d \<in> set (X h)" "k \<in> H" "k \<noteq> h"
  shows "list_family lst (app (del m d) k d) H (X(h := remove1 d (X h), k := X k @ [d]))"
  using family_app [OF family_del [OF assms(1-3)] assms(4) family_del_fresh [OF assms(1-3)]]
    assms(5) by (simp add: fun_upd_twist)

lemma family_move_pre:
  assumes "list_family lst m H X" "h \<in> H" "d \<in> set (X h)" "k \<in> H" "k \<noteq> h"
  shows "list_family lst (pre (del m d) k d) H (X(h := remove1 d (X h), k := d # X k))"
  using family_pre [OF family_del [OF assms(1-3)] assms(4) family_del_fresh [OF assms(1-3)]]
    assms(5) by (simp add: fun_upd_twist)

end

interpretation il: linked_lists is_list list_append list_prepend list_del
proof unfold_locales
  fix m h and xs :: "addr list" assume "is_list m h xs"
  then show "distinct (h # xs)" by (rule is_list_distinct)
next
  fix m h and xs :: "addr list" and n assume "is_list m h xs" "n \<notin> set (h # xs)"
  then show "is_list (list_append m h n) h (xs @ [n])" by (rule is_list_append)
next
  fix m h and xs :: "addr list" and n assume "is_list m h xs" "n \<notin> set (h # xs)"
  then show "is_list (list_prepend m h n) h (n # xs)" by (rule is_list_prepend)
next
  fix m h and xs :: "addr list" and d assume "is_list m h xs" "d \<in> set xs"
  then show "is_list (list_del m d) h (remove1 d xs)" by (rule is_list_del)
next
  fix m h xs g and ys :: "addr list" and n
  assume l: "is_list m h xs" "is_list m g ys" "set (g # ys) \<inter> set (n # h # xs) = {}"
  have "list_append m h n x = m x" if "x \<in> set (g # ys)" for x
    using list_append_outside [OF l(1)] l(3) that by blast
  with l(2) show "is_list (list_append m h n) g ys" using is_list_cong by blast
next
  fix m h xs g and ys :: "addr list" and n
  assume l: "is_list m h xs" "is_list m g ys" "set (g # ys) \<inter> set (n # h # xs) = {}"
  have "list_prepend m h n x = m x" if "x \<in> set (g # ys)" for x
    using list_prepend_outside [OF l(1)] l(3) that by blast
  with l(2) show "is_list (list_prepend m h n) g ys" using is_list_cong by blast
next
  fix m h xs d g and ys :: "addr list"
  assume l: "is_list m h xs" "d \<in> set xs" "is_list m g ys" "set (g # ys) \<inter> set (h # xs) = {}"
  have "list_del m d x = m x" if "x \<in> set (g # ys)" for x
    using list_del_outside_list [OF l(1,2)] l(4) that by blast
  with l(3) show "is_list (list_del m d) g ys" using is_list_cong by blast
qed

subsection \<open>Properties\<close>

text \<open>A concrete memory for the witnesses: entries 0x20 and 0x30 on the list with head 0x10, and an
  empty list with head 0x40.\<close>

definition sample_list :: list_mem where
  "sample_list =
     list_init (list_append (list_append (list_init (\<lambda>_. \<lparr>le_prev = 0, le_next = 0\<rparr>) 0x10) 0x10 0x20)
       0x10 0x30) 0x40"

lemma sample_list_is_list: "is_list sample_list 0x10 [0x20, 0x30]" "is_list sample_list 0x40 []"
  by (simp_all add: sample_list_def is_list_def link_def list_append_def list_init_def
      list_mem_simps)

text \<open>Claim C30. The operations refine operations on sequences: on a well-formed list with content
  \<open>xs\<close> and an entry that is not on it, \<open>list_append\<close> yields \<open>xs @ [n]\<close>, \<open>list_prepend\<close> yields
  \<open>n # xs\<close>, \<open>list_del\<close> of any member removes exactly that member and poisons its links,
  \<open>list_for_each\<close> terminates and visits exactly \<open>xs\<close> in order, and \<open>list_empty\<close> is emptiness.\<close>

theorem list_operations_refine_sequences:
  assumes "is_list m h xs" "n \<notin> set (h # xs)"
  shows "is_list (list_append m h n) h (xs @ [n]) \<and>
         is_list (list_prepend m h n) h (n # xs) \<and>
         (\<forall>ys d zs. xs = ys @ d # zs \<longrightarrow>
            is_list (list_del m d) h (ys @ zs) \<and>
            list_del m d d = \<lparr>le_prev = LIST_POISON_PREV, le_next = LIST_POISON_NEXT\<rparr> \<and>
            is_list (list_insert_at m d n) h (ys @ d # n # zs)) \<and>
         list_for_each m h = Some xs \<and>
         (list_empty m h \<longleftrightarrow> xs = [])"
proof (intro conjI allI impI)
  fix ys d zs
  assume xs: "xs = ys @ d # zs"
  show "is_list (list_del m d) h (ys @ zs)" using assms(1) xs is_list_del_split by blast
  show "list_del m d d = \<lparr>le_prev = LIST_POISON_PREV, le_next = LIST_POISON_NEXT\<rparr>"
    by (rule list_entry_eqI) (simp_all add: list_mem_simps)
  show "is_list (list_insert_at m d n) h (ys @ d # n # zs)"
    using assms xs by (auto intro: is_list_insert_at)
qed (use assms is_list_append is_list_prepend is_list_for_each is_list_empty_iff in blast)+

theorem list_operations_refine_sequences_witness:
  "is_list (list_append sample_list 0x10 0x50) 0x10 [0x20, 0x30, 0x50] \<and>
   list_for_each sample_list 0x10 = Some [0x20, 0x30]"
  using list_operations_refine_sequences [OF sample_list_is_list(1), of "0x50"] by simp

text \<open>Splicing two non-empty lists with disjoint entries onto a head that is not one of
  their entries (it may be one of the two heads) yields one list with the entries of the first
  followed by those of the second.\<close>

theorem list_splice_concatenates:
  assumes "is_list m first xs" "is_list m second ys" "xs \<noteq> []" "ys \<noteq> []"
    and "set xs \<inter> set ys = {}" "target \<notin> set xs \<union> set ys"
  shows "is_list (list_splice m target first second) target (xs @ ys)"
  using assms by (rule is_list_splice)

theorem list_splice_concatenates_witness:
  "is_list (list_splice (list_append sample_list 0x40 0x60) 0x10 0x10 0x40) 0x10 [0x20, 0x30, 0x60]"
proof -
  have "is_list (list_append sample_list 0x40 0x60) 0x40 [0x60]"
    using is_list_append [OF sample_list_is_list(2), of "0x60"] by simp
  moreover have "is_list (list_append sample_list 0x40 0x60) 0x10 [0x20, 0x30]"
    using il.app_frame [OF sample_list_is_list(2) sample_list_is_list(1), of "0x60"] by simp
  ultimately show ?thesis
    using list_splice_concatenates [of "list_append sample_list 0x40 0x60" "0x10" "[0x20, 0x30]"
        "0x40" "[0x60]" "0x10"] by simp
qed

text \<open>When the first of the two lists is empty, splicing onto a third head makes the
  first list's head itself an entry of the result: iterating the target visits a head that is
  embedded in no item.\<close>

theorem list_splice_empty_first_leaks_head:
  assumes "is_list m first []" "is_list m second ys" "ys \<noteq> []"
    and "target \<noteq> first" "target \<notin> set ys" "first \<notin> set ys"
  shows "list_for_each (list_splice m target first second) target = Some (first # ys)"
  using is_list_for_each [OF is_list_splice_empty_first [OF assms]] .

theorem list_splice_empty_first_leaks_head_witness:
  "list_for_each (list_splice sample_list 0x70 0x40 0x10) 0x70 = Some [0x40, 0x20, 0x30]"
  using list_splice_empty_first_leaks_head [OF sample_list_is_list(2) sample_list_is_list(1),
      of "0x70"] by simp

end
