(* ===== verification/Call_Sequences.thy ===== *)
theory Call_Sequences
  imports Main
begin

section \<open>Sequences of calls against a specification\<close>

text \<open>
  A component keeps a promise over any sequence of calls when each single call does. The locales relate the states of an
  implementation, whose calls may fault (\<open>None\<close>), to those of a specification, and lift the relation from one call to
  sequences. The specification of \<open>simulation\<close> is a relation: it may leave answers open. That of
  \<open>data_refinement\<close> is a function. \<open>legal\<close> is what the caller has to respect, in terms of the specification.
\<close>

fun run_calls :: "('s \<Rightarrow> 'c \<Rightarrow> ('r \<times> 's) option) \<Rightarrow> 's \<Rightarrow> 'c list \<Rightarrow> ('r list \<times> 's) option" where
  "run_calls call s [] = Some ([], s)"
| "run_calls call s (c # cs) =
     (case call s c of None \<Rightarrow> None
      | Some (r, s) \<Rightarrow> (case run_calls call s cs of None \<Rightarrow> None | Some (rs, s) \<Rightarrow> Some (r # rs, s)))"

fun run_spec :: "('a \<Rightarrow> 'c \<Rightarrow> 'r \<times> 'a) \<Rightarrow> 'a \<Rightarrow> 'c list \<Rightarrow> 'r list \<times> 'a" where
  "run_spec spec a [] = ([], a)"
| "run_spec spec a (c # cs) = (let (r, a) = spec a c; (rs, a) = run_spec spec a cs in (r # rs, a))"

fun legal_calls :: "('a \<Rightarrow> 'c \<Rightarrow> 'r \<times> 'a) \<Rightarrow> ('a \<Rightarrow> 'c \<Rightarrow> bool) \<Rightarrow> 'a \<Rightarrow> 'c list \<Rightarrow> bool" where
  "legal_calls spec legal a [] \<longleftrightarrow> True"
| "legal_calls spec legal a (c # cs) \<longleftrightarrow> legal a c \<and> legal_calls spec legal (snd (spec a c)) cs"

text \<open>The sequences that a relation allows, and the calls that stay legal whatever the answers before them were.\<close>

inductive spec_runs :: "('a \<Rightarrow> 'c \<Rightarrow> 'r \<Rightarrow> 'a \<Rightarrow> bool) \<Rightarrow> 'a \<Rightarrow> 'c list \<Rightarrow> 'r list \<Rightarrow> 'a \<Rightarrow> bool" for allowed where
  spec_runs_Nil: "spec_runs allowed a [] [] a"
| spec_runs_Cons: "allowed a c r a1 \<Longrightarrow> spec_runs allowed a1 cs rs a' \<Longrightarrow> spec_runs allowed a (c # cs) (r # rs) a'"

inductive_simps spec_runs_simps [simp]:
  "spec_runs allowed a [] rs a'"
  "spec_runs allowed a (c # cs) rs a'"

fun always_legal :: "('a \<Rightarrow> 'c \<Rightarrow> 'r \<Rightarrow> 'a \<Rightarrow> bool) \<Rightarrow> ('a \<Rightarrow> 'c \<Rightarrow> bool) \<Rightarrow> 'a \<Rightarrow> 'c list \<Rightarrow> bool" where
  "always_legal allowed legal a [] \<longleftrightarrow> True"
| "always_legal allowed legal a (c # cs) \<longleftrightarrow> legal a c \<and> (\<forall>r a1. allowed a c r a1 \<longrightarrow> always_legal allowed legal a1 cs)"

locale simulation =
  fixes call :: "'s \<Rightarrow> 'c \<Rightarrow> ('r \<times> 's) option"
    and allowed :: "'a \<Rightarrow> 'c \<Rightarrow> 'r \<Rightarrow> 'a \<Rightarrow> bool"
    and rel :: "'s \<Rightarrow> 'a \<Rightarrow> bool"
    and legal :: "'a \<Rightarrow> 'c \<Rightarrow> bool"
  assumes call_simulated: "rel s a \<Longrightarrow> legal a c \<Longrightarrow> \<exists>r s1 a1. call s c = Some (r, s1) \<and> allowed a c r a1 \<and> rel s1 a1"
begin

lemma calls_simulated:
  "rel s a \<Longrightarrow> always_legal allowed legal a cs \<Longrightarrow>
   \<exists>rs s' a'. run_calls call s cs = Some (rs, s') \<and> spec_runs allowed a cs rs a' \<and> rel s' a'"
proof (induction cs arbitrary: s a)
  case (Cons c cs)
  then obtain r s1 a1 where 1: "call s c = Some (r, s1)" "allowed a c r a1" "rel s1 a1"
    using call_simulated [of s a c] by auto
  then obtain rs s' a' where "run_calls call s1 cs = Some (rs, s')" "spec_runs allowed a1 cs rs a'" "rel s' a'"
    using Cons.IH [OF 1(3)] Cons.prems(2) by auto
  then show ?case using 1 by auto
qed simp

end

locale data_refinement =
  fixes call :: "'s \<Rightarrow> 'c \<Rightarrow> ('r \<times> 's) option"
    and spec :: "'a \<Rightarrow> 'c \<Rightarrow> 'r \<times> 'a"
    and rel :: "'s \<Rightarrow> 'a \<Rightarrow> bool"
    and legal :: "'a \<Rightarrow> 'c \<Rightarrow> bool"
  assumes call_refines: "rel s a \<Longrightarrow> legal a c \<Longrightarrow> \<exists>s'. call s c = Some (fst (spec a c), s') \<and> rel s' (snd (spec a c))"

text \<open>A functional specification is the relation that allows one answer.\<close>

sublocale data_refinement \<subseteq> fun_spec: simulation call "\<lambda>a c r a1. spec a c = (r, a1)" rel legal
  by unfold_locales (metis call_refines prod.collapse)

lemma spec_runs_function: "spec_runs (\<lambda>a c r a1. spec a c = (r, a1)) a cs rs a' \<longleftrightarrow> run_spec spec a cs = (rs, a')"
proof (induction cs arbitrary: a rs)
  case (Cons c cs)
  obtain r a1 where 1: "spec a c = (r, a1)" by fastforce
  obtain rs1 a2 where 2: "run_spec spec a1 cs = (rs1, a2)" by fastforce
  show ?case using Cons.IH [of a1] by (auto simp: 1 2)
qed auto

lemma always_legal_function: "always_legal (\<lambda>a c r a1. spec a c = (r, a1)) legal a cs \<longleftrightarrow> legal_calls spec legal a cs"
proof (induction cs arbitrary: a)
  case (Cons c cs)
  obtain r a1 where 1: "spec a c = (r, a1)" by fastforce
  show ?case using Cons.IH [of a1] by (simp add: 1)
qed simp

context data_refinement
begin

lemma calls_refine:
  assumes "rel s a" "legal_calls spec legal a cs"
  shows "\<exists>s'. run_calls call s cs = Some (fst (run_spec spec a cs), s') \<and> rel s' (snd (run_spec spec a cs))"
  proof -
  have "always_legal (\<lambda>a c r a1. spec a c = (r, a1)) legal a cs" using assms(2) by (simp add: always_legal_function)
  then obtain rs s' a' where "run_calls call s cs = Some (rs, s')" "run_spec spec a cs = (rs, a')" "rel s' a'"
    using fun_spec.calls_simulated [OF assms(1)] unfolding spec_runs_function by blast
  then show ?thesis by simp
qed

end

end
