(* ===== verification/Comparator.thy ===== *)
theory Comparator
  imports TSL_Result
begin

section \<open>Comparison callbacks\<close>

text \<open>
  \<open>rb_cmp_func_t\<close> (tsl/rbtree.h) and \<open>fixed_heap_compare_func_t\<close> (tsl/fixed_heap.h) are callbacks
  that return a negative number, zero or a positive number. The containers rely on the sign being
  antisymmetric and on transitivity, for the keys they hold. \<open>comparator_on K cmp\<close> is this contract
  for the keys in \<open>K\<close>: the callbacks that the library itself supplies keep it on part of their
  argument type only.
\<close>

locale comparator_on =
  fixes K :: "'a set" and cmp :: "'a \<Rightarrow> 'a \<Rightarrow> int"
  assumes cmp_flip: "a \<in> K \<Longrightarrow> b \<in> K \<Longrightarrow> cmp a b < 0 \<longleftrightarrow> 0 < cmp b a"
    and cmp_trans: "a \<in> K \<Longrightarrow> b \<in> K \<Longrightarrow> c \<in> K \<Longrightarrow> cmp a b \<le> 0 \<Longrightarrow> cmp b c \<le> 0 \<Longrightarrow> cmp a c \<le> 0"
begin

lemma cmp_ge_iff: "a \<in> K \<Longrightarrow> b \<in> K \<Longrightarrow> 0 \<le> cmp a b \<longleftrightarrow> cmp b a \<le> 0"
  using cmp_flip [of a b] by linarith

lemma cmp_zero_sym: "a \<in> K \<Longrightarrow> b \<in> K \<Longrightarrow> cmp a b = 0 \<longleftrightarrow> cmp b a = 0"
  using cmp_flip [of a b] cmp_flip [of b a] by linarith

lemma cmp_refl: "a \<in> K \<Longrightarrow> cmp a a = 0"
  using cmp_flip [of a a] by linarith

lemma cmp_less_le_trans:
  "a \<in> K \<Longrightarrow> b \<in> K \<Longrightarrow> c \<in> K \<Longrightarrow> cmp a b < 0 \<Longrightarrow> cmp b c \<le> 0 \<Longrightarrow> cmp a c < 0"
  using cmp_trans [of b c a] cmp_ge_iff [of a c] cmp_flip [of a b] by linarith

lemma cmp_le_less_trans:
  "a \<in> K \<Longrightarrow> b \<in> K \<Longrightarrow> c \<in> K \<Longrightarrow> cmp a b \<le> 0 \<Longrightarrow> cmp b c < 0 \<Longrightarrow> cmp a c < 0"
  using cmp_trans [of c a b] cmp_ge_iff [of a c] cmp_flip [of b c] by linarith

lemma cmp_less_trans:
  "a \<in> K \<Longrightarrow> b \<in> K \<Longrightarrow> c \<in> K \<Longrightarrow> cmp a b < 0 \<Longrightarrow> cmp b c < 0 \<Longrightarrow> cmp a c < 0"
  by (rule cmp_less_le_trans [of a b c]) auto

end

end
