(* ===== verification/Fixed_Heap.thy ===== *)
theory Fixed_Heap
  imports "Comparator"
begin

section \<open>Fixed-size binary heap (tsl/fixed_heap.h, tsl/fixed_heap.c)\<close>

text \<open>
  The heap is an array of item pointers with a capacity, an entry count and a comparison callback.
  The callback reads memory that the items point to, so it takes that memory \<open>'w\<close> as an argument,
  and so do the operations that call it. The sizes that a caller passes are 64-bit words. Indices are \<open>nat\<close>: an access
  outside of the array is a fault, so an index stays below the length of the array, and an array of that many 8-byte
  pointers fits in memory, so that \<open>2 * i + 2\<close> does not overflow a \<open>size_t\<close>. Whether \<open>calloc\<close> or \<open>realloc\<close> succeeds
  is an argument; what \<open>realloc\<close> leaves in the added slots is too.
\<close>

subsection \<open>State\<close>

record 'w fixed_heap =
  fh_heap :: "addr list option"
  fh_capacity :: nat
  fh_entries :: nat
  fh_compare :: "('w \<Rightarrow> addr \<Rightarrow> addr \<Rightarrow> int) option"

definition fixed_heap_zero :: "'w fixed_heap" where
  "fixed_heap_zero = \<lparr>fh_heap = None, fh_capacity = 0, fh_entries = 0, fh_compare = None\<rparr>"

subsection \<open>Lifecycle\<close>

definition fixed_heap_new ::
  "bool \<Rightarrow> 'w fixed_heap option \<Rightarrow> u64 \<Rightarrow> ('w \<Rightarrow> addr \<Rightarrow> addr \<Rightarrow> int) option \<Rightarrow>
   aresult_t \<times> 'w fixed_heap option" where
  "fixed_heap_new calloc_ok heap max_items compare =
     (case heap of
        None \<Rightarrow> (A_E_BADARGS, None)
      | Some h \<Rightarrow>
          if \<not> max_items > 0 then (A_E_BADARGS, Some h)
          else if \<not> calloc_ok then (A_E_NOMEM, Some fixed_heap_zero)
          else (A_OK, Some \<lparr>fh_heap = Some (replicate (unat max_items) NULL), fh_capacity = unat max_items,
                            fh_entries = 0, fh_compare = compare\<rparr>))"

text \<open>\<open>calloc\<close> fails if the product of its arguments overflows. \<open>realloc\<close> gets the product \<open>sizeof(void *) * new_max_items\<close>, which
  wraps around: the array has as many slots as fit into that many bytes, the capacity is the number asked for.
  (Some \<open>realloc\<close> free the block and return NULL for zero bytes; the function then answers \<open>A_E_NOMEM\<close> with a dangling \<open>fh_heap\<close>. A request
  for zero bytes is left out of the sequences of calls.)\<close>

definition sizeof_item :: u64 where "sizeof_item = 8"

definition resized_slots :: "u64 \<Rightarrow> nat" where
  "resized_slots new_max_items = unat (sizeof_item * new_max_items) div unat sizeof_item"

definition fixed_heap_resize ::
  "bool \<Rightarrow> (nat \<Rightarrow> addr) \<Rightarrow> 'w fixed_heap option \<Rightarrow> u64 \<Rightarrow> aresult_t \<times> 'w fixed_heap option" where
  "fixed_heap_resize realloc_ok junk heap new_max_items =
     (case heap of
        None \<Rightarrow> (A_E_BADARGS, None)
      | Some h \<Rightarrow>
          if \<not> unat new_max_items \<ge> fh_entries h then (A_E_BADARGS, Some h)
          else (case fh_heap h of
                  None \<Rightarrow> (A_E_BADARGS, Some h)
                | Some xs \<Rightarrow>
                    if \<not> realloc_ok then (A_E_NOMEM, Some h)
                    else (A_OK, Some (h\<lparr>fh_heap := Some (take (resized_slots new_max_items) xs @
                                                        map junk [length xs..<resized_slots new_max_items]),
                                        fh_capacity := unat new_max_items\<rparr>))))"

lemma resized_slots_small:
  assumes "unat n < 2 ^ 61"
  shows "resized_slots n = unat n"
proof -
  have "unat (sizeof_item * n) = 8 * unat n"
    using assms by (simp add: sizeof_item_def unat_word_ariths)
  then show ?thesis by (simp add: resized_slots_def sizeof_item_def)
qed

definition fixed_heap_delete :: "'w fixed_heap option \<Rightarrow> aresult_t \<times> 'w fixed_heap option" where
  "fixed_heap_delete heap =
     (case heap of
        None \<Rightarrow> (A_E_BADARGS, None)
      | Some h \<Rightarrow> (A_OK, Some fixed_heap_zero))"

subsection \<open>Sifting\<close>

definition FIXED_HEAP_PARENT :: "nat \<Rightarrow> nat" where "FIXED_HEAP_PARENT idx = (idx - 1) div 2"
definition FIXED_HEAP_LEFT :: "nat \<Rightarrow> nat" where "FIXED_HEAP_LEFT idx = 2 * idx + 1"
definition FIXED_HEAP_RIGHT :: "nat \<Rightarrow> nat" where "FIXED_HEAP_RIGHT idx = 2 * idx + 2"

text \<open>\<open>__fixed_heap_swap\<close>\<close>

definition fixed_heap_swap :: "addr list \<Rightarrow> nat \<Rightarrow> nat \<Rightarrow> addr list option" where
  "fixed_heap_swap xs a b =
     do { temp \<leftarrow> arr_get xs a;
          v \<leftarrow> arr_get xs b;
          xs \<leftarrow> arr_set xs a v;
          arr_set xs b temp }"

text \<open>The loop of \<open>__fixed_heap_insert\<close>: sift the item at \<open>i\<close> towards the root.\<close>

function fixed_heap_sift_up :: "(addr \<Rightarrow> addr \<Rightarrow> int) \<Rightarrow> addr list \<Rightarrow> nat \<Rightarrow> addr list option" where
  "fixed_heap_sift_up cmp xs i =
     (if i > 0 then
        do { p \<leftarrow> arr_get xs (FIXED_HEAP_PARENT i);
             v \<leftarrow> arr_get xs i;
             if cmp p v < 0 then
               do { xs \<leftarrow> fixed_heap_swap xs i (FIXED_HEAP_PARENT i);
                    fixed_heap_sift_up cmp xs (FIXED_HEAP_PARENT i) }
             else Some xs }
      else Some xs)"
  by pat_completeness auto
termination
  by (relation "measure (\<lambda>(cmp, xs, i). i)") (auto simp: FIXED_HEAP_PARENT_def)

text \<open>\<open>__fixed_heap_insert\<close>\<close>

definition fixed_heap_insert ::
  "(addr \<Rightarrow> addr \<Rightarrow> int) \<Rightarrow> addr list \<Rightarrow> addr \<Rightarrow> nat \<Rightarrow> addr list option" where
  "fixed_heap_insert cmp xs key idx =
     do { xs \<leftarrow> arr_set xs idx key; fixed_heap_sift_up cmp xs idx }"

text \<open>The body of the loop of \<open>__fixed_heap_heapify\<close> up to the swap: the position of the largest of
  the item at \<open>i\<close> and its two children.\<close>

definition fixed_heap_largest ::
  "(addr \<Rightarrow> addr \<Rightarrow> int) \<Rightarrow> addr list \<Rightarrow> nat \<Rightarrow> nat \<Rightarrow> nat option" where
  "fixed_heap_largest cmp xs entries i =
     do { let l = FIXED_HEAP_LEFT i;
          let r = FIXED_HEAP_RIGHT i;
          let largest = i;
          largest \<leftarrow> (if l < entries then
                         do { vl \<leftarrow> arr_get xs l; vi \<leftarrow> arr_get xs i;
                              Some (if cmp vl vi > 0 then l else largest) }
                       else Some largest);
          largest \<leftarrow> (if r < entries then
                         do { vr \<leftarrow> arr_get xs r; vg \<leftarrow> arr_get xs largest;
                              Some (if cmp vr vg > 0 then r else largest) }
                       else Some largest);
          Some largest }"

lemma fixed_heap_largest_cases:
  "fixed_heap_largest cmp xs n i = Some g \<Longrightarrow> g \<noteq> i \<Longrightarrow> i < g \<and> g < n"
  by (auto simp: fixed_heap_largest_def FIXED_HEAP_LEFT_def FIXED_HEAP_RIGHT_def bind_eq_Some_iff
      split: if_splits)

text \<open>\<open>__fixed_heap_heapify\<close>\<close>

function fixed_heap_heapify ::
  "(addr \<Rightarrow> addr \<Rightarrow> int) \<Rightarrow> addr list \<Rightarrow> nat \<Rightarrow> nat \<Rightarrow> addr list option" where
  "fixed_heap_heapify cmp xs entries i =
     (case fixed_heap_largest cmp xs entries i of
        None \<Rightarrow> None
      | Some largest \<Rightarrow>
          if largest \<noteq> i then
            do { xs \<leftarrow> fixed_heap_swap xs i largest;
                 fixed_heap_heapify cmp xs entries largest }
          else Some xs)"
  by pat_completeness auto
termination
  by (relation "measure (\<lambda>(cmp, xs, n, i). n - i)") (auto dest: fixed_heap_largest_cases)

declare fixed_heap_sift_up.simps [simp del] fixed_heap_heapify.simps [simp del]

subsection \<open>Operations\<close>

definition fixed_heap_push ::
  "'w \<Rightarrow> 'w fixed_heap option \<Rightarrow> addr \<Rightarrow> (aresult_t \<times> 'w fixed_heap option) option" where
  "fixed_heap_push w heap item =
     (case heap of
        None \<Rightarrow> Some (A_E_BADARGS, None)
      | Some h \<Rightarrow>
          (case fh_heap h of
             None \<Rightarrow> Some (A_E_BADARGS, Some h)
           | Some xs \<Rightarrow>
               if fh_capacity h \<le> fh_entries h then Some (A_E_NOSPC, Some h)
               else do { cmp \<leftarrow> fh_compare h;
                         xs \<leftarrow> fixed_heap_insert (cmp w) xs item (fh_entries h);
                         Some (A_OK, Some (h\<lparr>fh_heap := Some xs, fh_entries := fh_entries h + 1\<rparr>)) }))"

definition fixed_heap_pop ::
  "'w \<Rightarrow> 'w fixed_heap option \<Rightarrow> addr option \<Rightarrow>
   (aresult_t \<times> 'w fixed_heap option \<times> addr option) option" where
  "fixed_heap_pop w heap item =
     (case heap of
        None \<Rightarrow> Some (A_E_BADARGS, None, item)
      | Some h \<Rightarrow>
          if item = None then Some (A_E_BADARGS, Some h, item)
          else (case fh_heap h of
             None \<Rightarrow> Some (A_E_BADARGS, Some h, item)
           | Some xs \<Rightarrow>
               if fh_entries h = 0 then Some (A_E_EMPTY, Some h, item)
               else do { top \<leftarrow> arr_get xs 0;
                         let n = fh_entries h - 1;
                         last \<leftarrow> arr_get xs n;
                         xs \<leftarrow> arr_set xs 0 last;
                         xs \<leftarrow> arr_set xs n NULL;
                         cmp \<leftarrow> fh_compare h;
                         xs \<leftarrow> fixed_heap_heapify (cmp w) xs n 0;
                         Some (A_OK, Some (h\<lparr>fh_heap := Some xs, fh_entries := n\<rparr>), Some top) }))"

definition fixed_heap_peek_head ::
  "'w fixed_heap option \<Rightarrow> addr option \<Rightarrow> (aresult_t \<times> addr option) option" where
  "fixed_heap_peek_head heap item =
     (case heap of
        None \<Rightarrow> Some (A_E_BADARGS, item)
      | Some h \<Rightarrow>
          if item = None then Some (A_E_BADARGS, item)
          else (case fh_heap h of
             None \<Rightarrow> Some (A_E_BADARGS, item)
           | Some xs \<Rightarrow>
               if fh_entries h = 0 then Some (A_E_EMPTY, item)
               else do { top \<leftarrow> arr_get xs 0; Some (A_OK, Some top) }))"

text \<open>The search loop of \<open>fixed_heap_remove_item\<close>.\<close>

fun fixed_heap_index_of :: "addr list \<Rightarrow> addr \<Rightarrow> nat \<Rightarrow> nat \<Rightarrow> nat option option" where
  "fixed_heap_index_of xs item i 0 = Some None"
| "fixed_heap_index_of xs item i (Suc n) =
     do { v \<leftarrow> arr_get xs i;
          if v = item then Some (Some i) else fixed_heap_index_of xs item (i + 1) n }"

definition fixed_heap_remove_item ::
  "'w \<Rightarrow> 'w fixed_heap option \<Rightarrow> addr \<Rightarrow> (aresult_t \<times> 'w fixed_heap option) option" where
  "fixed_heap_remove_item w heap item =
     (case heap of
        None \<Rightarrow> Some (A_E_BADARGS, None)
      | Some h \<Rightarrow>
          do { xs \<leftarrow> (if fh_entries h = 0 then Some [] else fh_heap h);
               found \<leftarrow> fixed_heap_index_of xs item 0 (fh_entries h);
               case found of
                 None \<Rightarrow> Some (A_E_NOTFOUND, Some h)
               | Some item_offs \<Rightarrow>
                   let n = fh_entries h - 1 in
                   if item_offs < fh_entries h then
                     do { v \<leftarrow> arr_get xs n;
                          xs \<leftarrow> arr_set xs item_offs v;
                          cmp \<leftarrow> fh_compare h;
                          xs \<leftarrow> fixed_heap_heapify (cmp w) xs n item_offs;
                          Some (A_OK, Some (h\<lparr>fh_heap := Some xs, fh_entries := n\<rparr>)) }
                   else Some (A_OK, Some (h\<lparr>fh_entries := n\<rparr>)) })"

subsection \<open>Heap order\<close>

definition heap_edge :: "('a \<Rightarrow> 'a \<Rightarrow> int) \<Rightarrow> 'a list \<Rightarrow> nat \<Rightarrow> bool" where
  "heap_edge cmp xs j \<longleftrightarrow> (j > 0 \<longrightarrow> 0 \<le> cmp (xs ! FIXED_HEAP_PARENT j) (xs ! j))"

definition heap_order :: "('a \<Rightarrow> 'a \<Rightarrow> int) \<Rightarrow> 'a list \<Rightarrow> nat \<Rightarrow> bool" where
  "heap_order cmp xs n \<longleftrightarrow> (\<forall>j<n. heap_edge cmp xs j)"

text \<open>The item at the parent of \<open>i\<close> is not below the children of \<open>i\<close>.\<close>

definition heap_skip :: "('a \<Rightarrow> 'a \<Rightarrow> int) \<Rightarrow> 'a list \<Rightarrow> nat \<Rightarrow> nat \<Rightarrow> bool" where
  "heap_skip cmp xs n i \<longleftrightarrow>
     (\<forall>c<n. 0 < c \<and> 0 < i \<and> FIXED_HEAP_PARENT c = i \<longrightarrow> 0 \<le> cmp (xs ! FIXED_HEAP_PARENT i) (xs ! c))"

definition sift_up_pre where
  "sift_up_pre cmp xs n i \<longleftrightarrow>
     i < n \<and> n \<le> length xs \<and> (\<forall>j<n. j \<noteq> i \<longrightarrow> heap_edge cmp xs j) \<and> heap_skip cmp xs n i"

definition heapify_pre where
  "heapify_pre cmp xs n i \<longleftrightarrow>
     n \<le> length xs \<and> (\<forall>j<n. j > 0 \<and> FIXED_HEAP_PARENT j \<noteq> i \<longrightarrow> heap_edge cmp xs j) \<and> heap_skip cmp xs n i"

text \<open>\<open>ys\<close> rearranges the first \<open>n\<close> items of \<open>xs\<close> and leaves the rest of the array alone.\<close>

definition heap_perm :: "nat \<Rightarrow> 'a list \<Rightarrow> 'a list \<Rightarrow> bool" where
  "heap_perm n xs ys \<longleftrightarrow>
     length ys = length xs \<and> mset (take n ys) = mset (take n xs) \<and> drop n ys = drop n xs"

lemma FIXED_HEAP_PARENT_less [simp]: "0 < i \<Longrightarrow> FIXED_HEAP_PARENT i < i"
  by (simp add: FIXED_HEAP_PARENT_def)

lemma FIXED_HEAP_PARENT_le: "FIXED_HEAP_PARENT i \<le> i"
  by (simp add: FIXED_HEAP_PARENT_def)

lemma parent_eq_iff:
  "0 < j \<Longrightarrow> FIXED_HEAP_PARENT j = i \<longleftrightarrow> j = FIXED_HEAP_LEFT i \<or> j = FIXED_HEAP_RIGHT i"
  by (auto simp: FIXED_HEAP_PARENT_def FIXED_HEAP_LEFT_def FIXED_HEAP_RIGHT_def)

lemma heap_skip_leaf: "n \<le> Suc i \<Longrightarrow> heap_skip cmp xs n i"
  unfolding heap_skip_def
proof (intro allI impI, elim conjE)
  fix c assume "n \<le> Suc i" "c < n" "0 < c" "FIXED_HEAP_PARENT c = i"
  then show "0 \<le> cmp (xs ! FIXED_HEAP_PARENT i) (xs ! c)"
    using FIXED_HEAP_PARENT_less [of c] by linarith
qed

lemma heap_perm_refl [simp]: "heap_perm n xs xs"
  by (simp add: heap_perm_def)

lemma heap_perm_trans: "heap_perm n xs ys \<Longrightarrow> heap_perm n ys zs \<Longrightarrow> heap_perm n xs zs"
  by (simp add: heap_perm_def)

lemma heap_perm_set: "heap_perm n xs ys \<Longrightarrow> set (take n ys) = set (take n xs)"
  unfolding heap_perm_def by (metis set_mset_mset)

lemma fixed_heap_swap_Some:
  "a < length xs \<Longrightarrow> b < length xs \<Longrightarrow> fixed_heap_swap xs a b = Some (xs[a := xs ! b, b := xs ! a])"
  by (simp add: fixed_heap_swap_def)

lemma heap_perm_swap:
  "a < n \<Longrightarrow> b < n \<Longrightarrow> n \<le> length xs \<Longrightarrow> heap_perm n xs (xs[a := xs ! b, b := xs ! a])"
  by (simp add: heap_perm_def mset_take_swap)

lemma nth_in_take: "i < n \<Longrightarrow> n \<le> length xs \<Longrightarrow> xs ! i \<in> set (take n xs)"
  by (metis length_take min.absorb2 nth_mem nth_take)

text \<open>The heap's comparison callback compares items by address.\<close>

locale heap_comparator = comparator_on K cmp for K :: "addr set" and cmp :: "addr \<Rightarrow> addr \<Rightarrow> int"
begin

lemma heap_skip_trans:
  assumes "set (take n xs) \<subseteq> K" "n \<le> length xs" "\<forall>j<n. heap_edge cmp xs j"
  shows "heap_skip cmp xs n i"
  unfolding heap_skip_def
proof (intro allI impI, elim conjE)
  fix c assume c: "c < n" "0 < c" "0 < i" "FIXED_HEAP_PARENT c = i"
  then have i: "i < c" and p: "FIXED_HEAP_PARENT i < i"
    using FIXED_HEAP_PARENT_less by blast+
  have K: "xs ! c \<in> K" "xs ! i \<in> K" "xs ! FIXED_HEAP_PARENT i \<in> K"
    using assms(1,2) nth_in_take [of _ n xs] c(1) i p by (meson less_trans subsetD)+
  have "0 \<le> cmp (xs ! i) (xs ! c)" "0 \<le> cmp (xs ! FIXED_HEAP_PARENT i) (xs ! i)"
    using assms(3) c i unfolding heap_edge_def by (metis, metis less_trans)
  then show "0 \<le> cmp (xs ! FIXED_HEAP_PARENT i) (xs ! c)"
    using K cmp_trans cmp_ge_iff by meson
qed

lemma sift_up_step:
  fixes xs i
  defines "p \<equiv> FIXED_HEAP_PARENT i"
  assumes pre: "sift_up_pre cmp xs n i" and K: "set (take n xs) \<subseteq> K" and i: "0 < i"
    and lt: "cmp (xs ! p) (xs ! i) < 0"
  shows "sift_up_pre cmp (xs[i := xs ! p, p := xs ! i]) n p"
proof -
  define ys where "ys = xs[i := xs ! p, p := xs ! i]"
  from pre have n: "i < n" "n \<le> length xs" and e: "\<And>j. j < n \<Longrightarrow> j \<noteq> i \<Longrightarrow> heap_edge cmp xs j"
    and sk: "heap_skip cmp xs n i"
    by (auto simp: sift_up_pre_def)
  have pd: "FIXED_HEAP_PARENT i = p" and pi: "p < i" using i by (simp_all add: p_def)
  have mem: "\<And>j. j < n \<Longrightarrow> xs ! j \<in> K"
    using K n(2) nth_in_take by blast
  have nth: "\<And>k. k < n \<Longrightarrow> ys ! k = (if k = p then xs ! i else if k = i then xs ! p else xs ! k)"
    using n pi unfolding ys_def by (subst nth_swap) auto
  have pn: "p < n" using pi n by simp
  have sib: "0 \<le> cmp (xs ! i) (xs ! j)" if "j < n" "0 < j" "FIXED_HEAP_PARENT j = p" "j \<noteq> i" for j
  proof -
    have "cmp (xs ! j) (xs ! p) \<le> 0"
      using e [of j] that cmp_ge_iff [OF mem mem, of p j] pn by (simp add: heap_edge_def)
    then show ?thesis
      using lt cmp_le_less_trans [OF mem mem mem, of j p i] cmp_ge_iff [OF mem mem, of i j] that n pn
      by auto
  qed
  have edge: "heap_edge cmp ys j" if "j < n" "j \<noteq> p" for j
  proof (cases "j = 0")
    case True then show ?thesis by (simp add: heap_edge_def)
  next
    case False
    then have pj: "FIXED_HEAP_PARENT j < n" "FIXED_HEAP_PARENT j \<noteq> j"
      using that FIXED_HEAP_PARENT_less [of j] by linarith+
    show ?thesis
    proof (cases "j = i")
      case True
      then show ?thesis
        using lt cmp_flip [OF mem mem, of p i] n pn pi nth [of i] nth [of p]
        by (simp add: heap_edge_def pd)
    next
      case ji: False
      then have ysj: "ys ! j = xs ! j" using nth [of j] that by simp
      consider "FIXED_HEAP_PARENT j = i" | "FIXED_HEAP_PARENT j = p" |
        "FIXED_HEAP_PARENT j \<noteq> i" "FIXED_HEAP_PARENT j \<noteq> p" by blast
      then show ?thesis
      proof cases
        case 1
        then show ?thesis
          using sk False i that(1) nth [of i] n pi unfolding heap_skip_def
          by (simp add: heap_edge_def ysj pd)
      next
        case 2
        then show ?thesis
          using sib [OF that(1) _ 2 ji] nth [of p] pn by (simp add: heap_edge_def ysj)
      next
        case 3
        then show ?thesis
          using e [OF that(1) ji] nth [OF pj(1)] by (simp add: heap_edge_def ysj)
      qed
    qed
  qed
  have skip: "heap_skip cmp ys n p"
    unfolding heap_skip_def
  proof (intro allI impI, elim conjE)
    fix c assume c: "c < n" "0 < c" "0 < p" "FIXED_HEAP_PARENT c = p"
    have q: "FIXED_HEAP_PARENT p < p" using c by simp
    have pp: "0 \<le> cmp (xs ! FIXED_HEAP_PARENT p) (xs ! p)"
      using e [of p] pi n c by (simp add: heap_edge_def)
    have "0 \<le> cmp (xs ! FIXED_HEAP_PARENT p) (xs ! c)" if "c \<noteq> i"
      using e [of c] c that pp cmp_trans [OF mem mem mem, of c p "FIXED_HEAP_PARENT p"] q pn
        cmp_ge_iff [OF mem mem, of _ _] by (auto simp: heap_edge_def)
    then show "0 \<le> cmp (ys ! FIXED_HEAP_PARENT p) (ys ! c)"
      using pp c q pn pi nth [of c] nth [of "FIXED_HEAP_PARENT p"]
      by (metis FIXED_HEAP_PARENT_less less_irrefl_nat less_trans)
  qed
  from edge skip n pn show ?thesis
    by (simp add: sift_up_pre_def ys_def)
qed

lemma sift_up_correct:
  "sift_up_pre cmp xs n i \<Longrightarrow> set (take n xs) \<subseteq> K \<Longrightarrow>
   \<exists>ys. fixed_heap_sift_up cmp xs i = Some ys \<and> heap_perm n xs ys \<and> heap_order cmp ys n"
proof (induction i arbitrary: xs rule: less_induct)
  case (less i)
  let ?p = "FIXED_HEAP_PARENT i"
  let ?ys = "xs[i := xs ! ?p, ?p := xs ! i]"
  from less.prems have n: "i < n" "n \<le> length xs" by (auto simp: sift_up_pre_def)
  show ?case
  proof (cases "0 < i \<and> cmp (xs ! ?p) (xs ! i) < 0")
    case True
    then have p: "?p < i" "?p < n" using n FIXED_HEAP_PARENT_less [of i] by linarith+
    have perm: "heap_perm n xs ?ys"
      using n p by (intro heap_perm_swap) auto
    have "sift_up_pre cmp ?ys n ?p"
      using less.prems True by (intro sift_up_step) auto
    moreover have "set (take n ?ys) \<subseteq> K"
      using heap_perm_set [OF perm] less.prems by simp
    ultimately obtain zs where "fixed_heap_sift_up cmp ?ys ?p = Some zs" "heap_perm n ?ys zs"
      "heap_order cmp zs n"
      using less.IH [OF p(1)] by blast
    moreover have "fixed_heap_sift_up cmp xs i = fixed_heap_sift_up cmp ?ys ?p"
      using True n p by (subst fixed_heap_sift_up.simps) (simp add: fixed_heap_swap_Some)
    ultimately show ?thesis
      using heap_perm_trans [OF perm] by auto
  next
    case False
    then have "heap_order cmp xs n"
      using less.prems(1) by (auto simp: heap_order_def sift_up_pre_def heap_edge_def)
    moreover have "fixed_heap_sift_up cmp xs i = Some xs"
      using False n le_less_trans [OF FIXED_HEAP_PARENT_le, of i "length xs"]
      by (subst fixed_heap_sift_up.simps) (cases "0 < i", simp_all)
    ultimately show ?thesis by auto
  qed
qed

lemma largest_correct:
  assumes n: "n \<le> length xs" "i < length xs" and K: "set (take n xs) \<subseteq> K" "xs ! i \<in> K"
  obtains g where "fixed_heap_largest cmp xs n i = Some g"
    "g = i \<or> (g < n \<and> 0 < g \<and> FIXED_HEAP_PARENT g = i)" "0 \<le> cmp (xs ! g) (xs ! i)"
    "\<And>c. c < n \<Longrightarrow> 0 < c \<Longrightarrow> FIXED_HEAP_PARENT c = i \<Longrightarrow> 0 \<le> cmp (xs ! g) (xs ! c)"
proof -
  define l r where "l = FIXED_HEAP_LEFT i" and "r = FIXED_HEAP_RIGHT i"
  define g1 where "g1 = (if l < n \<and> cmp (xs ! l) (xs ! i) > 0 then l else i)"
  define g where "g = (if r < n \<and> cmp (xs ! r) (xs ! g1) > 0 then r else g1)"
  have mem: "\<And>j. j < n \<Longrightarrow> xs ! j \<in> K"
    using K n(1) nth_in_take by blast
  have pos: "0 < l" "0 < r" "FIXED_HEAP_PARENT l = i" "FIXED_HEAP_PARENT r = i"
    by (auto simp: l_def r_def FIXED_HEAP_LEFT_def FIXED_HEAP_RIGHT_def FIXED_HEAP_PARENT_def)
  have "g1 < length xs" using n by (auto simp: g1_def)
  then have eq: "fixed_heap_largest cmp xs n i = Some g"
    using n by (auto simp: fixed_heap_largest_def Let_def l_def [symmetric] r_def [symmetric] g_def g1_def)
  have k1: "xs ! g1 \<in> K" using mem K by (simp add: g1_def)
  have kg: "xs ! g \<in> K" using mem k1 by (simp add: g_def)
  have g1i: "0 \<le> cmp (xs ! g1) (xs ! i)" using cmp_refl K by (simp add: g1_def)
  have g1l: "0 \<le> cmp (xs ! g1) (xs ! l)" if "l < n"
    using cmp_refl cmp_ge_iff mem K that by (auto simp: g1_def)
  have gg1: "0 \<le> cmp (xs ! g) (xs ! g1)" using cmp_refl k1 by (simp add: g_def)
  have gr: "0 \<le> cmp (xs ! g) (xs ! r)" if "r < n"
    using cmp_refl cmp_ge_iff mem k1 that by (auto simp: g_def)
  have tr: "0 \<le> cmp (xs ! g) x" if "0 \<le> cmp (xs ! g1) x" "x \<in> K" for x
    using that gg1 k1 kg cmp_ge_iff cmp_trans by meson
  show ?thesis
  proof (rule that [OF eq])
    show "g = i \<or> (g < n \<and> 0 < g \<and> FIXED_HEAP_PARENT g = i)"
      using pos by (auto simp: g_def g1_def)
    show "0 \<le> cmp (xs ! g) (xs ! i)" using tr g1i K by simp
    show "0 \<le> cmp (xs ! g) (xs ! c)" if "c < n" "0 < c" "FIXED_HEAP_PARENT c = i" for c
      using that parent_eq_iff [of c i] gr tr g1l mem by (auto simp: l_def r_def)
  qed
qed

lemma heapify_step:
  assumes pre: "heapify_pre cmp xs n i" and K: "set (take n xs) \<subseteq> K"
    and g: "g < n" "0 < g" "FIXED_HEAP_PARENT g = i" "0 \<le> cmp (xs ! g) (xs ! i)"
    and gmax: "\<And>c. c < n \<Longrightarrow> 0 < c \<Longrightarrow> FIXED_HEAP_PARENT c = i \<Longrightarrow> 0 \<le> cmp (xs ! g) (xs ! c)"
  shows "heapify_pre cmp (xs[i := xs ! g, g := xs ! i]) n g"
proof -
  define ys where "ys = xs[i := xs ! g, g := xs ! i]"
  from pre have n: "n \<le> length xs"
    and e: "\<And>j. j < n \<Longrightarrow> 0 < j \<Longrightarrow> FIXED_HEAP_PARENT j \<noteq> i \<Longrightarrow> heap_edge cmp xs j"
    and sk: "heap_skip cmp xs n i"
    by (auto simp: heapify_pre_def)
  have ig: "i < g" using g by auto
  then have "i < n" using g by simp
  have nth: "\<And>k. k < n \<Longrightarrow> ys ! k = (if k = g then xs ! i else if k = i then xs ! g else xs ! k)"
    using n ig g unfolding ys_def by (subst nth_swap) auto
  have edge: "heap_edge cmp ys j" if j: "j < n" "0 < j" "FIXED_HEAP_PARENT j \<noteq> g" for j
  proof -
    have "FIXED_HEAP_PARENT j < n"
      using j FIXED_HEAP_PARENT_less [of j] by linarith
    moreover have "0 \<le> cmp (xs ! FIXED_HEAP_PARENT i) (xs ! g)" if "j = i"
      using sk g that j by (simp add: heap_skip_def)
    moreover have "FIXED_HEAP_PARENT i \<noteq> i" if "j = i"
      using j that FIXED_HEAP_PARENT_less by (metis less_irrefl_nat)
    ultimately show ?thesis
      using j e [of j] gmax [of j] g ig
      by (cases "j = i"; cases "FIXED_HEAP_PARENT j = i"; cases "j = g") (auto simp: heap_edge_def nth)
  qed
  have skip: "heap_skip cmp ys n g"
    unfolding heap_skip_def
  proof (intro allI impI, elim conjE)
    fix c assume c: "c < n" "0 < c" "FIXED_HEAP_PARENT c = g"
    then have "c \<noteq> g" "c \<noteq> i" using FIXED_HEAP_PARENT_less [of c] ig by auto
    moreover have "0 \<le> cmp (xs ! g) (xs ! c)"
      using e [of c] c ig by (simp add: heap_edge_def)
    ultimately show "0 \<le> cmp (ys ! FIXED_HEAP_PARENT g) (ys ! c)"
      using c g ig nth [of c] nth [of i] \<open>i < n\<close> by simp
  qed
  from edge skip n show ?thesis
    by (simp add: heapify_pre_def ys_def)
qed

lemma heapify_correct:
  "heapify_pre cmp xs n i \<Longrightarrow> i < length xs \<Longrightarrow> set (take n xs) \<subseteq> K \<Longrightarrow> xs ! i \<in> K \<Longrightarrow>
   \<exists>ys. fixed_heap_heapify cmp xs n i = Some ys \<and> heap_perm n xs ys \<and> heap_order cmp ys n"
proof (induction "n - i" arbitrary: xs i rule: less_induct)
  case less
  from less.prems have n: "n \<le> length xs" by (simp add: heapify_pre_def)
  obtain g where g: "fixed_heap_largest cmp xs n i = Some g"
    "g = i \<or> (g < n \<and> 0 < g \<and> FIXED_HEAP_PARENT g = i)" "0 \<le> cmp (xs ! g) (xs ! i)"
    and gmax: "\<And>c. c < n \<Longrightarrow> 0 < c \<Longrightarrow> FIXED_HEAP_PARENT c = i \<Longrightarrow> 0 \<le> cmp (xs ! g) (xs ! c)"
    using largest_correct [OF n less.prems(2-4)] by metis
  show ?case
  proof (cases "g = i")
    case True
    then have "heap_edge cmp xs j" if "j < n" for j
      using less.prems(1) gmax [of j] that
      by (cases "FIXED_HEAP_PARENT j = i") (auto simp: heapify_pre_def heap_edge_def)
    then show ?thesis
      using g True by (subst fixed_heap_heapify.simps) (simp add: heap_order_def)
  next
    case False
    let ?ys = "xs[i := xs ! g, g := xs ! i]"
    from False g have g': "g < n" "0 < g" "FIXED_HEAP_PARENT g = i" by auto
    then have ig: "i < g" by auto
    have perm: "heap_perm n xs ?ys"
      using n g' ig by (intro heap_perm_swap) auto
    have "heapify_pre cmp ?ys n g"
      by (rule heapify_step [OF less.prems(1,3) g' g(3) gmax])
    moreover have "set (take n ?ys) \<subseteq> K"
      using heap_perm_set [OF perm] less.prems by simp
    moreover have "?ys ! g \<in> K" using less.prems n g' by simp
    ultimately obtain zs where "fixed_heap_heapify cmp ?ys n g = Some zs" "heap_perm n ?ys zs"
      "heap_order cmp zs n"
      using less.hyps [of g ?ys] diff_less_mono2 [OF ig, of n] g' ig n by auto
    moreover have "fixed_heap_heapify cmp xs n i = fixed_heap_heapify cmp ?ys n g"
      using g False g' ig n by (subst fixed_heap_heapify.simps) (simp add: fixed_heap_swap_Some)
    ultimately show ?thesis
      using heap_perm_trans [OF perm] by auto
  qed
qed

lemma heap_order_root:
  assumes "heap_order cmp xs n" "n \<le> length xs" "set (take n xs) \<subseteq> K" "i < n"
  shows "0 \<le> cmp (xs ! 0) (xs ! i)"
  using assms(4)
proof (induction i rule: less_induct)
  case (less i)
  have mem: "\<And>j. j < n \<Longrightarrow> xs ! j \<in> K"
    using assms nth_in_take by blast
  show ?case
  proof (cases "i = 0")
    case True
    then show ?thesis using cmp_refl mem less.prems by simp
  next
    case False
    let ?p = "FIXED_HEAP_PARENT i"
    have p: "?p < i" "?p < n" using False less.prems FIXED_HEAP_PARENT_less [of i] by linarith+
    have "0 \<le> cmp (xs ! 0) (xs ! ?p)" using less.IH p by simp
    moreover have "0 \<le> cmp (xs ! ?p) (xs ! i)"
      using assms(1) less.prems False by (simp add: heap_order_def heap_edge_def)
    moreover have "xs ! 0 \<in> K" "xs ! ?p \<in> K" "xs ! i \<in> K" using mem p less.prems by auto
    ultimately show ?thesis
      using cmp_ge_iff cmp_trans by meson
  qed
qed

end

subsection \<open>Invariant and contents of a heap\<close>

definition heap_slots :: "'w fixed_heap \<Rightarrow> addr list" where
  "heap_slots h = (case fh_heap h of None \<Rightarrow> [] | Some xs \<Rightarrow> xs)"

definition heap_items :: "'w fixed_heap \<Rightarrow> addr multiset" where
  "heap_items h = mset (take (fh_entries h) (heap_slots h))"

definition fixed_heap_wf :: "addr set \<Rightarrow> ('w \<Rightarrow> addr \<Rightarrow> addr \<Rightarrow> int) \<Rightarrow> 'w \<Rightarrow> 'w fixed_heap \<Rightarrow> bool" where
  "fixed_heap_wf K c w h \<longleftrightarrow>
     fh_heap h = Some (heap_slots h) \<and> length (heap_slots h) = fh_capacity h \<and>
     fh_entries h \<le> fh_capacity h \<and> fh_compare h = Some c \<and>
     set (take (fh_entries h) (heap_slots h)) \<subseteq> K \<and> heap_order (c w) (heap_slots h) (fh_entries h)"

lemma size_heap_items:
  "fixed_heap_wf K c w h \<Longrightarrow> size (heap_items h) = fh_entries h"
  by (simp add: fixed_heap_wf_def heap_items_def)

lemma heap_items_subset:
  "fixed_heap_wf K c w h \<Longrightarrow> x \<in># heap_items h \<Longrightarrow> x \<in> K"
  by (auto simp: fixed_heap_wf_def heap_items_def)

lemma heap_items_Some: "fh_heap h = Some xs \<Longrightarrow> heap_items h = mset (take (fh_entries h) xs)"
  by (simp add: heap_items_def heap_slots_def)

lemma fixed_heap_wf_Some:
  "fh_heap h = Some xs \<Longrightarrow> fixed_heap_wf K c w h \<longleftrightarrow>
     length xs = fh_capacity h \<and> fh_entries h \<le> fh_capacity h \<and> fh_compare h = Some c \<and>
     set (take (fh_entries h) xs) \<subseteq> K \<and> heap_order (c w) xs (fh_entries h)"
  by (simp add: fixed_heap_wf_def heap_slots_def)

lemma fixed_heap_wf_cong:
  assumes wf: "fixed_heap_wf K c w h"
    and K': "\<And>x. x \<in># heap_items h \<Longrightarrow> x \<in> K'"
    and c: "\<And>x y. x \<in># heap_items h \<Longrightarrow> y \<in># heap_items h \<Longrightarrow> c w x y = c w' x y"
  shows "fixed_heap_wf K' c w' h"
proof -
  let ?xs = "heap_slots h" and ?n = "fh_entries h"
  have n: "?n \<le> length ?xs" using wf by (simp add: fixed_heap_wf_def)
  have it: "?xs ! j \<in># heap_items h" if "j < ?n" for j
    using nth_in_take [OF that n] by (simp add: heap_items_def)
  have "heap_edge (c w') ?xs j" if "j < ?n" for j
    using wf that c [OF it it, of "FIXED_HEAP_PARENT j" j] le_less_trans [OF FIXED_HEAP_PARENT_le that]
    by (auto simp: fixed_heap_wf_def heap_order_def heap_edge_def)
  then show ?thesis
    using wf K' by (auto simp: fixed_heap_wf_def heap_order_def heap_items_def)
qed

lemma heap_peek_cases:
  assumes wf: "fixed_heap_wf K c w h"
  shows "fixed_heap_peek_head (Some h) (Some j) =
    (if heap_items h = {#} then Some (A_E_EMPTY, Some j) else Some (A_OK, Some (heap_slots h ! 0)))"
proof -
  have "heap_items h = {#} \<longleftrightarrow> fh_entries h = 0"
    using size_heap_items [OF wf] by (metis size_empty size_eq_0_iff_empty)
  then show ?thesis
    using wf by (auto simp: fixed_heap_peek_head_def fixed_heap_wf_def)
qed

text \<open>What \<open>fixed_heap_peek_head\<close> shows is what \<open>fixed_heap_pop\<close> takes.\<close>

lemma heap_pop_is_head:
  assumes "fixed_heap_wf K c w h" "fixed_heap_pop w (Some h) (Some j) = Some (A_OK, Some h', Some x)"
  shows "x = heap_slots h ! 0"
  using assms by (auto simp: fixed_heap_pop_def fixed_heap_wf_def bind_eq_Some_iff Let_def arr_get_def
      split: if_splits)

subsection \<open>The contract: a bounded priority queue\<close>

text \<open>
  What a client of the heap relies on. \<open>inv\<close> is the representation invariant, \<open>items\<close> the multiset of
  stored items, \<open>cap\<close> the capacity and \<open>le x y\<close> that \<open>y\<close> leaves the queue before \<open>x\<close> or ties with it.
  The operations are the ones the client calls.
\<close>

type_synonym 'h pq_push = "'h option \<Rightarrow> addr \<Rightarrow> (aresult_t \<times> 'h option) option"
type_synonym 'h pq_pop = "'h option \<Rightarrow> addr option \<Rightarrow> (aresult_t \<times> 'h option \<times> addr option) option"

text \<open>Client loops: push a list of items, take out \<open>n\<close> items.\<close>

fun pq_push_all :: "'h pq_push \<Rightarrow> 'h option \<Rightarrow> addr list \<Rightarrow> (aresult_t \<times> 'h option) option" where
  "pq_push_all push h [] = Some (A_OK, h)"
| "pq_push_all push h (x # xs) =
     do { (r, h) \<leftarrow> push h x; if AFAILED r then Some (r, h) else pq_push_all push h xs }"

fun pq_drain :: "'h pq_pop \<Rightarrow> 'h option \<Rightarrow> nat \<Rightarrow> (addr list \<times> 'h option) option" where
  "pq_drain pop h 0 = Some ([], h)"
| "pq_drain pop h (Suc n) =
     do { (r, h, x) \<leftarrow> pop h (Some NULL);
          if AFAILED r then Some ([], h)
          else do { x \<leftarrow> x; (xs, h) \<leftarrow> pq_drain pop h n; Some (x # xs, h) } }"

locale bounded_pq =
  fixes K :: "addr set" and le :: "addr \<Rightarrow> addr \<Rightarrow> bool"
    and inv :: "'h \<Rightarrow> bool" and items :: "'h \<Rightarrow> addr multiset" and cap :: "'h \<Rightarrow> nat"
    and push :: "'h pq_push" and pop :: "'h pq_pop"
  assumes inv_cap: "inv h \<Longrightarrow> size (items h) \<le> cap h"
    and push_ok: "inv h \<Longrightarrow> x \<in> K \<Longrightarrow> size (items h) < cap h \<Longrightarrow>
      \<exists>h'. push (Some h) x = Some (A_OK, Some h') \<and> inv h' \<and>
           items h' = add_mset x (items h) \<and> cap h' = cap h"
    and push_full: "inv h \<Longrightarrow> size (items h) = cap h \<Longrightarrow> push (Some h) x = Some (A_E_NOSPC, Some h)"
    and pop_ok: "inv h \<Longrightarrow> items h \<noteq> {#} \<Longrightarrow>
      \<exists>h' x. pop (Some h) (Some j) = Some (A_OK, Some h', Some x) \<and> inv h' \<and>
             items h = add_mset x (items h') \<and> cap h' = cap h \<and> (\<forall>y\<in>#items h. le y x)"
    and pop_empty: "inv h \<Longrightarrow> items h = {#} \<Longrightarrow> pop (Some h) (Some j) = Some (A_E_EMPTY, Some h, Some j)"
begin

lemma push_all_ok:
  "inv h \<Longrightarrow> set xs \<subseteq> K \<Longrightarrow> size (items h) + length xs \<le> cap h \<Longrightarrow>
   \<exists>h'. pq_push_all push (Some h) xs = Some (A_OK, Some h') \<and> inv h' \<and> cap h' = cap h \<and>
        items h' = items h + mset xs"
proof (induction xs arbitrary: h)
  case (Cons x xs)
  then obtain h1 where h1: "push (Some h) x = Some (A_OK, Some h1)" "inv h1"
    "items h1 = add_mset x (items h)" "cap h1 = cap h"
    using push_ok [of h x] by auto
  then show ?case
    using Cons.IH [of h1] Cons.prems by auto
qed simp

lemma drain_sorted:
  "inv h \<Longrightarrow> n = size (items h) \<Longrightarrow>
   \<exists>xs h'. pq_drain pop (Some h) n = Some (xs, Some h') \<and> inv h' \<and> items h' = {#} \<and> cap h' = cap h \<and>
           mset xs = items h \<and> sorted_wrt (\<lambda>x y. le y x) xs"
proof (induction n arbitrary: h)
  case (Suc n)
  then have "items h \<noteq> {#}" by auto
  then obtain h1 x where x: "pop (Some h) (Some NULL) = Some (A_OK, Some h1, Some x)" "inv h1"
    "items h = add_mset x (items h1)" "cap h1 = cap h" "\<forall>y\<in>#items h. le y x"
    using pop_ok [of h NULL] Suc.prems by blast
  then have "n = size (items h1)" using Suc.prems by simp
  then obtain xs h2 where "pq_drain pop (Some h1) n = Some (xs, Some h2)" "inv h2" "items h2 = {#}"
    "cap h2 = cap h1" "mset xs = items h1" "sorted_wrt (\<lambda>x y. le y x) xs"
    using Suc.IH [OF x(2)] by blast
  moreover from this have "\<forall>y\<in>set xs. le y x" using x by (metis insert_iff set_mset_add_mset_insert set_mset_mset)
  ultimately show ?case using x by simp
qed simp

end

text \<open>The heap keeps that contract for every comparison callback that is a comparator on the items.\<close>

locale fixed_heap_items = heap_comparator K "c w"
  for K :: "addr set" and c :: "'w \<Rightarrow> addr \<Rightarrow> addr \<Rightarrow> int" and w :: 'w
begin

lemma push_grows:
  assumes wf: "fixed_heap_wf K c w h" and x: "x \<in> K" and room: "fh_entries h < fh_capacity h"
  shows "\<exists>h'. fixed_heap_push w (Some h) x = Some (A_OK, Some h') \<and> fixed_heap_wf K c w h' \<and>
              heap_items h' = add_mset x (heap_items h) \<and> fh_capacity h' = fh_capacity h"
proof -
  let ?n = "fh_entries h" and ?xs = "(heap_slots h)[fh_entries h := x]"
  from wf have h: "fh_heap h = Some (heap_slots h)" "length (heap_slots h) = fh_capacity h"
    "fh_compare h = Some c" "set (take ?n (heap_slots h)) \<subseteq> K" "heap_order (c w) (heap_slots h) ?n"
    by (auto simp: fixed_heap_wf_def)
  have tk: "take (Suc ?n) ?xs = take ?n (heap_slots h) @ [x]"
    using h room by (simp add: take_Suc_update_last)
  have sub: "set (take (Suc ?n) ?xs) \<subseteq> K"
    using h x by (simp only: tk) simp
  have edges: "heap_edge (c w) ?xs j" if "j < ?n" for j
    using that h(5) le_less_trans [OF FIXED_HEAP_PARENT_le that]
    by (auto simp: heap_order_def heap_edge_def)
  have "heap_skip (c w) ?xs (Suc ?n) ?n"
    by (simp add: heap_skip_leaf)
  then have "sift_up_pre (c w) ?xs (Suc ?n) ?n"
    using edges h room by (auto simp: sift_up_pre_def less_Suc_eq)
  then obtain ys where ys: "fixed_heap_sift_up (c w) ?xs ?n = Some ys" "heap_perm (Suc ?n) ?xs ys"
    "heap_order (c w) ys (Suc ?n)"
    using sift_up_correct sub by blast
  let ?h' = "h\<lparr>fh_heap := Some ys, fh_entries := ?n + 1\<rparr>"
  have "fixed_heap_push w (Some h) x = Some (A_OK, Some ?h')"
    using h room ys(1) by (simp add: fixed_heap_push_def fixed_heap_insert_def)
  moreover have "fixed_heap_wf K c w ?h'"
    using h room ys sub heap_perm_set [OF ys(2)]
    by (simp add: fixed_heap_wf_Some) (simp add: heap_perm_def)
  moreover have "heap_items ?h' = add_mset x (heap_items h)"
    using ys(2) by (simp add: heap_items_Some heap_perm_def tk) (simp add: heap_items_def)
  ultimately show ?thesis by auto
qed

lemma pop_takes_max:
  assumes wf: "fixed_heap_wf K c w h" and ne: "fh_entries h \<noteq> 0"
  shows "\<exists>h' x. fixed_heap_pop w (Some h) (Some j) = Some (A_OK, Some h', Some x) \<and>
                fixed_heap_wf K c w h' \<and> heap_items h = add_mset x (heap_items h') \<and>
                fh_capacity h' = fh_capacity h \<and> (\<forall>y\<in>#heap_items h. c w y x \<le> 0)"
proof -
  define n where "n = fh_entries h - 1"
  define xs where "xs = heap_slots h"
  define ys where "ys = xs[0 := xs ! n, n := NULL]"
  from wf ne have h: "fh_heap h = Some xs" "length xs = fh_capacity h" "fh_entries h = Suc n"
    "Suc n \<le> length xs" "fh_compare h = Some c" "set (take (Suc n) xs) \<subseteq> K" "heap_order (c w) xs (Suc n)"
    by (auto simp: fixed_heap_wf_def xs_def n_def)
  have ysn: "ys ! j = (if j = 0 then xs ! n else xs ! j)" if "j < n" for j
    using that h by (simp add: ys_def nth_list_update)
  have split: "mset (take (Suc n) xs) = add_mset (xs ! 0) (mset (take n ys))"
  proof (cases n)
    case 0 then show ?thesis using h by (cases xs) auto
  next
    case (Suc m)
    obtain a as where xs: "xs = a # as" using h by (cases xs) auto
    have "take n ys = as ! m # take m as"
      using h by (simp add: ys_def xs Suc)
    moreover have "take (Suc n) xs = a # take m as @ [as ! m]"
      using h by (simp add: xs Suc take_Suc_conv_app_nth)
    ultimately show ?thesis by (simp add: xs)
  qed
  have "set_mset (mset (take n ys)) \<subseteq> set_mset (mset (take (Suc n) xs))"
    by (simp only: split) auto
  then have sub: "set (take n ys) \<subseteq> K"
    using h(6) by auto
  have "heap_edge (c w) ys j" if "j < n" "0 < j" "FIXED_HEAP_PARENT j \<noteq> 0" for j
    using that h(7) ysn [of j] ysn [OF le_less_trans [OF FIXED_HEAP_PARENT_le that(1)]]
    by (simp add: heap_edge_def heap_order_def)
  then have pre: "heapify_pre (c w) ys n 0"
    using h(4) by (simp add: heapify_pre_def heap_skip_def ys_def)
  have top: "c w y (xs ! 0) \<le> 0" if "y \<in># heap_items h" for y
  proof -
    from that obtain i where "i < Suc n" "y = xs ! i"
      using h by (auto simp: heap_items_Some in_set_conv_nth)
    moreover from this have "xs ! i \<in> K" "xs ! 0 \<in> K"
      using h(4,6) nth_in_take [of _ "Suc n" xs] by (meson subsetD zero_less_Suc)+
    ultimately show ?thesis
      using heap_order_root [OF h(7,4,6)] cmp_ge_iff [of "xs ! 0" "xs ! i"] by simp
  qed
  have "\<exists>zs. fixed_heap_heapify (c w) ys n 0 = Some zs \<and> heap_perm n ys zs \<and> heap_order (c w) zs n"
  proof (cases "n = 0")
    case True
    then have "fixed_heap_heapify (c w) ys n 0 = Some ys"
      by (subst fixed_heap_heapify.simps) (simp add: fixed_heap_largest_def)
    then show ?thesis using True by (simp add: heap_order_def)
  next
    case False
    then have "ys ! 0 \<in> K" using sub nth_in_take [of 0 n ys] h by (auto simp: ys_def)
    then show ?thesis using heapify_correct [OF pre] sub h by (auto simp: ys_def)
  qed
  then obtain zs where zs: "fixed_heap_heapify (c w) ys n 0 = Some zs" "heap_perm n ys zs"
    "heap_order (c w) zs n" by blast
  let ?h' = "h\<lparr>fh_heap := Some zs, fh_entries := n\<rparr>"
  have "fixed_heap_pop w (Some h) (Some j) = Some (A_OK, Some ?h', Some (xs ! 0))"
    using h zs(1) by (simp add: fixed_heap_pop_def ys_def)
  moreover have "fixed_heap_wf K c w ?h'"
    using h zs sub heap_perm_set [OF zs(2)]
    by (simp add: fixed_heap_wf_Some) (simp add: heap_perm_def ys_def)
  moreover have "heap_items h = add_mset (xs ! 0) (heap_items ?h')"
    using zs(2) h split by (simp add: heap_items_Some heap_perm_def)
  ultimately show ?thesis using top by auto
qed

end

sublocale fixed_heap_items \<subseteq> pq: bounded_pq K "\<lambda>x y. c w x y \<le> 0" "fixed_heap_wf K c w" heap_items
  fh_capacity "fixed_heap_push w" "fixed_heap_pop w"
proof unfold_locales
  fix h :: "'w fixed_heap" and x j
  assume wf: "fixed_heap_wf K c w h"
  note n = size_heap_items [OF wf]
  show "size (heap_items h) \<le> fh_capacity h"
    using wf n by (simp add: fixed_heap_wf_def)
  show "\<exists>h'. fixed_heap_push w (Some h) x = Some (A_OK, Some h') \<and> fixed_heap_wf K c w h' \<and>
        heap_items h' = add_mset x (heap_items h) \<and> fh_capacity h' = fh_capacity h"
    if "x \<in> K" "size (heap_items h) < fh_capacity h"
    using push_grows [OF wf that(1)] that n by simp
  show "fixed_heap_push w (Some h) x = Some (A_E_NOSPC, Some h)" if "size (heap_items h) = fh_capacity h"
    using that wf n by (auto simp: fixed_heap_push_def fixed_heap_wf_def)
  show "\<exists>h' x. fixed_heap_pop w (Some h) (Some j) = Some (A_OK, Some h', Some x) \<and>
       fixed_heap_wf K c w h' \<and> heap_items h = add_mset x (heap_items h') \<and>
       fh_capacity h' = fh_capacity h \<and> (\<forall>y\<in>#heap_items h. c w y x \<le> 0)"
    if "heap_items h \<noteq> {#}"
    using pop_takes_max [OF wf] that n by (metis size_eq_0_iff_empty)
  show "fixed_heap_pop w (Some h) (Some j) = Some (A_E_EMPTY, Some h, Some j)" if "heap_items h = {#}"
    using that wf n by (auto simp: fixed_heap_pop_def fixed_heap_wf_def)
qed

context fixed_heap_items
begin

lemmas heap_is_pq = pq.bounded_pq_axioms

lemma sorts:
  assumes "fixed_heap_wf K c w h" "heap_items h = {#}" "set xs \<subseteq> K" "length xs \<le> fh_capacity h"
  shows "\<exists>h1 ys h2. pq_push_all (fixed_heap_push w) (Some h) xs = Some (A_OK, Some h1) \<and>
           pq_drain (fixed_heap_pop w) (Some h1) (length xs) = Some (ys, Some h2) \<and>
           fixed_heap_wf K c w h2 \<and> heap_items h2 = {#} \<and>
           mset ys = mset xs \<and> sorted_wrt (\<lambda>x y. c w y x \<le> 0) ys"
proof -
  obtain h1 where h1: "pq_push_all (fixed_heap_push w) (Some h) xs = Some (A_OK, Some h1)"
    "fixed_heap_wf K c w h1" "heap_items h1 = mset xs"
    using pq.push_all_ok [of h xs] assms by auto
  then show ?thesis
    using pq.drain_sorted [of h1 "length xs"] by auto
qed

end

lemma fixed_heap_itemsI: "comparator_on K (c w) \<Longrightarrow> fixed_heap_items K c w"
  by (simp add: fixed_heap_items_def heap_comparator_def)

subsection \<open>Removal by value\<close>

lemma index_of_correct:
  "i + n \<le> length xs \<Longrightarrow>
   (\<exists>k. fixed_heap_index_of xs x i n = Some (Some k) \<and> i \<le> k \<and> k < i + n \<and> xs ! k = x) \<or>
   (fixed_heap_index_of xs x i n = Some None \<and> (\<forall>k. i \<le> k \<and> k < i + n \<longrightarrow> xs ! k \<noteq> x))"
proof (induction n arbitrary: i)
  case (Suc n)
  then show ?case
    using Suc.IH [of "Suc i"] by (auto simp: less_Suc_eq_le) (metis Suc_leI le_neq_implies_less)
qed auto

lemma largest_returns:
  assumes "n \<le> length xs" "i < length xs"
  shows "\<exists>g. fixed_heap_largest cmp xs n i = Some g"
proof -
  let ?l = "FIXED_HEAP_LEFT i" and ?r = "FIXED_HEAP_RIGHT i"
  let ?g = "if ?l < n \<and> cmp (xs ! ?l) (xs ! i) > 0 then ?l else i"
  have "?g < length xs" using assms by auto
  then show ?thesis
    using assms by (cases "?l < n"; cases "?r < n") (simp_all add: fixed_heap_largest_def Let_def)
qed

lemma heapify_returns:
  "n \<le> length xs \<Longrightarrow> i < length xs \<Longrightarrow> \<exists>ys. fixed_heap_heapify cmp xs n i = Some ys \<and> heap_perm n xs ys"
proof (induction "n - i" arbitrary: xs i rule: less_induct)
  case less
  obtain g where g: "fixed_heap_largest cmp xs n i = Some g"
    using largest_returns [OF less.prems] by blast
  show ?case
  proof (cases "g = i")
    case True
    then show ?thesis using g by (subst fixed_heap_heapify.simps) simp
  next
    case False
    let ?ys = "xs[i := xs ! g, g := xs ! i]"
    have ig: "i < g" "g < n" using fixed_heap_largest_cases [OF g False] by auto
    then obtain zs where "fixed_heap_heapify cmp ?ys n g = Some zs" "heap_perm n ?ys zs"
      using less.hyps [of g ?ys] diff_less_mono2 [OF ig(1), of n] less.prems by auto
    moreover have "heap_perm n xs ?ys" using ig less.prems by (intro heap_perm_swap) auto
    moreover have "fixed_heap_heapify cmp xs n i = fixed_heap_heapify cmp ?ys n g"
      using g False ig less.prems by (subst fixed_heap_heapify.simps) (simp add: fixed_heap_swap_Some)
    ultimately show ?thesis using heap_perm_trans by auto
  qed
qed

lemma mset_take_move_last:
  assumes "k \<le> n" "n < length xs"
  shows "mset (take (Suc n) xs) = add_mset (xs ! k) (mset (take n (xs[k := xs ! n])))"
proof (cases "k = n")
  case True
  then show ?thesis using assms by (simp add: take_Suc_conv_app_nth)
next
  case False
  then have k: "k < length (take n xs)" using assms by simp
  have "mset (take n (xs[k := xs ! n])) = add_mset (xs ! n) (mset (take n xs) - {#xs ! k#})"
    using mset_update [OF k, of "xs ! n"] assms False by (simp add: take_update_swap)
  moreover have "xs ! k \<in># mset (take n xs)"
    using k nth_in_take [of k n xs] assms by auto
  ultimately show ?thesis
    using assms by (simp add: take_Suc_conv_app_nth)
qed

subsection \<open>Properties\<close>

text \<open>
  \<open>fixed_heap_push\<close> never faults and always returns on a well-formed heap: with room left it answers
  \<open>A_OK\<close>, the new heap is well-formed (heap ordered, within its capacity) and holds exactly one more
  occurrence of the pushed item; a full heap answers \<open>A_E_NOSPC\<close> and is unchanged.
\<close>

theorem fixed_heap_push_correct:
  assumes "comparator_on K (c w)" and wf: "fixed_heap_wf K c w h" and "x \<in> K"
  shows "(if size (heap_items h) < fh_capacity h then
            \<exists>h'. fixed_heap_push w (Some h) x = Some (A_OK, Some h') \<and> fixed_heap_wf K c w h' \<and>
                 heap_items h' = add_mset x (heap_items h) \<and> fh_capacity h' = fh_capacity h
          else fixed_heap_push w (Some h) x = Some (A_E_NOSPC, Some h))"
proof -
  note pq = fixed_heap_items.heap_is_pq [OF fixed_heap_itemsI, of K c w, OF assms(1)]
  show ?thesis
    using bounded_pq.inv_cap [OF pq wf] bounded_pq.push_ok [OF pq wf assms(3)]
      bounded_pq.push_full [OF pq wf, of x] by auto
qed

text \<open>Items ordered by their address, and a heap of three of them.\<close>

definition sample_cmp :: "unit \<Rightarrow> addr \<Rightarrow> addr \<Rightarrow> int" where
  "sample_cmp w a b = uint a - uint b"

definition sample_heap :: "unit fixed_heap" where
  "sample_heap = \<lparr>fh_heap = Some [9, 4, 7, 0], fh_capacity = 4, fh_entries = 3,
                  fh_compare = Some sample_cmp\<rparr>"

lemma sample_cmp_comparator: "comparator_on UNIV (sample_cmp w)"
  by unfold_locales (simp_all add: sample_cmp_def)

lemma sample_heap_wf: "fixed_heap_wf UNIV sample_cmp () sample_heap"
  by (simp add: fixed_heap_wf_def sample_heap_def heap_slots_def heap_order_def heap_edge_def
      sample_cmp_def FIXED_HEAP_PARENT_def numeral_3_eq_3 All_less_Suc)

theorem fixed_heap_push_correct_witness:
  "\<exists>h'. fixed_heap_push () (Some sample_heap) 8 = Some (A_OK, Some h') \<and>
        fixed_heap_wf UNIV sample_cmp () h' \<and> heap_items h' = {#8, 9, 4, 7#}"
proof -
  have "heap_items sample_heap = {#9, 4, 7#}" "fh_capacity sample_heap = 4"
    by (simp_all add: heap_items_def sample_heap_def heap_slots_def)
  then show ?thesis
    using fixed_heap_push_correct [OF sample_cmp_comparator sample_heap_wf, of 8] by auto
qed

text \<open>
  \<open>fixed_heap_pop\<close> never faults and always returns on a well-formed heap: from a non-empty heap it
  takes out one item that no stored item exceeds, and leaves a well-formed heap with exactly the other
  items; an empty heap answers \<open>A_E_EMPTY\<close> and heap and out-parameter are unchanged.
\<close>

theorem fixed_heap_pop_correct:
  assumes "comparator_on K (c w)" and wf: "fixed_heap_wf K c w h"
  shows "(if heap_items h \<noteq> {#} then
            \<exists>h' x. fixed_heap_pop w (Some h) (Some j) = Some (A_OK, Some h', Some x) \<and>
                   fixed_heap_wf K c w h' \<and> heap_items h = add_mset x (heap_items h') \<and>
                   fh_capacity h' = fh_capacity h \<and> (\<forall>y\<in>#heap_items h. c w y x \<le> 0)
          else fixed_heap_pop w (Some h) (Some j) = Some (A_E_EMPTY, Some h, Some j))"
proof -
  note pq = fixed_heap_items.heap_is_pq [OF fixed_heap_itemsI, of K c w, OF assms(1)]
  show ?thesis
    using bounded_pq.pop_ok [OF pq wf, of j] bounded_pq.pop_empty [OF pq wf, of j] by auto
qed

theorem fixed_heap_pop_correct_witness:
  "\<exists>h'. fixed_heap_pop () (Some sample_heap) (Some 0) = Some (A_OK, Some h', Some 9) \<and>
        fixed_heap_wf UNIV sample_cmp () h' \<and> heap_items h' = {#4, 7#}"
proof -
  have i: "heap_items sample_heap = {#9, 4, 7#}"
    by (simp add: heap_items_def sample_heap_def heap_slots_def)
  obtain h' x where h': "fixed_heap_pop () (Some sample_heap) (Some 0) = Some (A_OK, Some h', Some x)"
    "fixed_heap_wf UNIV sample_cmp () h'" "heap_items sample_heap = add_mset x (heap_items h')"
    "\<forall>y\<in>#heap_items sample_heap. sample_cmp () y x \<le> 0"
    using fixed_heap_pop_correct [OF sample_cmp_comparator sample_heap_wf, of 0] i
    by (metis add_mset_not_empty)
  note h' = h' [unfolded i]
  from h'(3) have "x \<in> {9, 4, 7}"
    by (metis set_mset_add_mset_insert set_mset_empty insertI1)
  moreover have "x \<noteq> 4" "x \<noteq> 7" using h'(4) by (auto simp: sample_cmp_def)
  ultimately have "x = 9" by simp
  then show ?thesis using h' by auto
qed

text \<open>
  Heap sort: pushing a list of items that fits into an empty well-formed heap and popping as many
  items again gives the same items in descending order of the callback, and an empty heap.
\<close>

theorem fixed_heap_sorts:
  assumes "comparator_on K (c w)" "fixed_heap_wf K c w h" "heap_items h = {#}"
    "set xs \<subseteq> K" "length xs \<le> fh_capacity h"
  shows "\<exists>h1 ys h2. pq_push_all (fixed_heap_push w) (Some h) xs = Some (A_OK, Some h1) \<and>
           pq_drain (fixed_heap_pop w) (Some h1) (length xs) = Some (ys, Some h2) \<and>
           fixed_heap_wf K c w h2 \<and> heap_items h2 = {#} \<and>
           mset ys = mset xs \<and> sorted_wrt (\<lambda>x y. c w y x \<le> 0) ys"
  by (rule fixed_heap_items.sorts [OF fixed_heap_itemsI, of K c w, OF assms])

definition sample_heap_empty :: "unit fixed_heap" where
  "sample_heap_empty = the (snd (fixed_heap_new True (Some fixed_heap_zero) 3 (Some sample_cmp)))"

theorem fixed_heap_sorts_witness:
  "\<exists>h1 ys h2. pq_push_all (fixed_heap_push ()) (Some sample_heap_empty) [2, 5, 3] = Some (A_OK, Some h1) \<and>
     pq_drain (fixed_heap_pop ()) (Some h1) 3 = Some (ys, Some h2) \<and>
     mset ys = {#2, 5, 3#} \<and> sorted_wrt (\<lambda>x y. sample_cmp () y x \<le> 0) ys"
proof -
  have "fixed_heap_wf UNIV sample_cmp () sample_heap_empty" "heap_items sample_heap_empty = {#}"
    "fh_capacity sample_heap_empty = 3"
    by (simp_all add: sample_heap_empty_def fixed_heap_new_def fixed_heap_wf_def heap_slots_def
        heap_order_def heap_items_def)
  then show ?thesis
    using fixed_heap_sorts [where c = sample_cmp and w = "()" and xs = "[2, 5, 3]",
        OF sample_cmp_comparator, of sample_heap_empty]
    by (auto simp: numeral_3_eq_3)
qed

text \<open>
  \<open>fixed_heap_remove_item\<close> on a well-formed heap never faults and always returns: a stored item loses
  exactly one occurrence, capacity and callback are kept; an item that is not stored answers
  \<open>A_E_NOTFOUND\<close> and the heap is unchanged.
\<close>

theorem fixed_heap_remove_item_removes_one:
  assumes wf: "fixed_heap_wf K c w h"
  shows "(if x \<in># heap_items h then
            \<exists>h'. fixed_heap_remove_item w (Some h) x = Some (A_OK, Some h') \<and>
                 heap_items h = add_mset x (heap_items h') \<and> fh_entries h = Suc (fh_entries h') \<and>
                 fh_capacity h' = fh_capacity h \<and> fh_compare h' = Some c
          else fixed_heap_remove_item w (Some h) x = Some (A_E_NOTFOUND, Some h))"
proof -
  define xs n where "xs = heap_slots h" and "n = fh_entries h"
  from wf have h: "fh_heap h = Some xs" "n \<le> length xs" "fh_compare h = Some c" "fh_entries h = n"
    by (simp_all add: fixed_heap_wf_def xs_def n_def)
  let ?ys = "if n = 0 then [] else xs"
  have items: "heap_items h = mset (take n xs)" using h by (simp add: heap_items_Some)
  have "(\<exists>k<n. fixed_heap_index_of ?ys x 0 n = Some (Some k) \<and> xs ! k = x) \<or>
        (fixed_heap_index_of ?ys x 0 n = Some None \<and> x \<notin># heap_items h)"
    using index_of_correct [of 0 n ?ys x] h(2) by (auto simp: items in_set_conv_nth)
  then show ?thesis
  proof (elim disjE exE conjE)
    fix k assume k: "k < n" "fixed_heap_index_of ?ys x 0 n = Some (Some k)" "xs ! k = x"
    let ?zs = "xs[k := xs ! (n - 1)]"
    obtain zs where zs: "fixed_heap_heapify (c w) ?zs (n - 1) k = Some zs" "heap_perm (n - 1) ?zs zs"
      using heapify_returns [of "n - 1" ?zs k "c w"] k h le_trans [OF diff_le_self h(2)] by auto
    have "mset (take n xs) = add_mset x (mset (take (n - 1) zs))"
      using mset_take_move_last [of k "n - 1" xs] k h zs(2) by (simp add: heap_perm_def)
    moreover have "fixed_heap_remove_item w (Some h) x =
        Some (A_OK, Some (h\<lparr>fh_heap := Some zs, fh_entries := n - 1\<rparr>))"
      using h k zs(1) by (simp add: fixed_heap_remove_item_def)
    ultimately show ?thesis
      using h k by (simp add: items heap_items_Some)
  qed (use h in \<open>auto simp: fixed_heap_remove_item_def\<close>)
qed

theorem fixed_heap_remove_item_removes_one_witness:
  "\<exists>h'. fixed_heap_remove_item () (Some sample_heap) 4 = Some (A_OK, Some h') \<and>
        {#9, 4, 7#} = add_mset 4 (heap_items h')"
proof -
  have i: "heap_items sample_heap = {#9, 4, 7#}"
    by (simp add: heap_items_def sample_heap_def heap_slots_def)
  show ?thesis
    using fixed_heap_remove_item_removes_one [OF sample_heap_wf, of 4] unfolding i by auto
qed

definition unbalanced_heap :: "unit fixed_heap" where
  "unbalanced_heap = \<lparr>fh_heap = Some [10, 2, 9, 1, 0, 8], fh_capacity = 6, fh_entries = 6,
                      fh_compare = Some sample_cmp\<rparr>"

lemma unbalanced_heap_order: "heap_order (sample_cmp ()) [10, 2, 9, 1, 0, 8] 6"
  by code_simp

lemma unbalanced_heap_steps:
  "fixed_heap_index_of [10, 2, 9, 1, 0, 8] 1 0 6 = Some (Some 3)"
  "fixed_heap_heapify (sample_cmp ()) [10, 2, 9, 8, 0, 8] 5 3 = Some [10, 2, 9, 8, 0, 8]"
  by code_simp+

text \<open>
  \<open>fixed_heap_remove_item\<close> does not keep the heap order: it moves the last item into the gap and only
  sifts it down, so that an item larger than its new parent stays below it. On the heap below the
  removal of 1 answers \<open>A_OK\<close>, 8 ends up under 2, and after one pop the next pop gives 2 although 8
  is still stored.
\<close>

theorem fixed_heap_remove_item_breaks_order:
  "fixed_heap_wf UNIV sample_cmp () unbalanced_heap \<and>
   (\<exists>h'. fixed_heap_remove_item () (Some unbalanced_heap) 1 = Some (A_OK, Some h') \<and>
         \<not> heap_order (sample_cmp ()) (heap_slots h') (fh_entries h'))"
proof
  show "fixed_heap_wf UNIV sample_cmp () unbalanced_heap"
    using unbalanced_heap_order
    by (simp add: fixed_heap_wf_def unbalanced_heap_def heap_slots_def)
  have "fixed_heap_remove_item () (Some unbalanced_heap) 1 =
      Some (A_OK, Some (unbalanced_heap\<lparr>fh_heap := Some [10, 2, 9, 8, 0, 8], fh_entries := 5\<rparr>))"
    using unbalanced_heap_steps by (simp add: fixed_heap_remove_item_def unbalanced_heap_def)
  moreover have "\<not> heap_edge (sample_cmp ()) [10, 2, 9, 8, 0, 8] 3"
    by (simp add: heap_edge_def FIXED_HEAP_PARENT_def sample_cmp_def)
  ultimately show "\<exists>h'. fixed_heap_remove_item () (Some unbalanced_heap) 1 = Some (A_OK, Some h') \<and>
         \<not> heap_order (sample_cmp ()) (heap_slots h') (fh_entries h')"
    by (auto simp: heap_order_def heap_slots_def intro!: exI [of _ 3])
qed

end
