(* ===== verification/Heap_Sequences.thy ===== *)
theory Heap_Sequences
  imports Call_Sequences Fixed_Heap
begin

section \<open>Heaps under sequences of calls\<close>

text \<open>
  A fixed-size heap under any sequence of insertions, removals of the head, looks at the head and changes of the capacity
  is a bounded priority queue. Which one of several greatest items is taken is left open. The calls are those of a caller;
  the code is that of \<open>Fixed_Heap\<close>. \<open>fixed_heap_remove_item\<close> is not among them: it breaks the order.
\<close>

subsection \<open>Calls and their specification\<close>

datatype heap_call = PQ_Push addr | PQ_Pop | PQ_Peek | PQ_Resize u64 bool "nat \<Rightarrow> addr"

type_synonym heap_answer = "aresult_t \<times> addr option"

definition heap_call_run :: "'w \<Rightarrow> 'w fixed_heap \<Rightarrow> heap_call \<Rightarrow> (heap_answer \<times> 'w fixed_heap) option" where
  "heap_call_run w h c = (case c of
     PQ_Push x \<Rightarrow> do { (r, h) \<leftarrow> fixed_heap_push w (Some h) x; h \<leftarrow> h; Some ((r, None), h) }
   | PQ_Pop \<Rightarrow> do { (r, h, x) \<leftarrow> fixed_heap_pop w (Some h) (Some NULL); h \<leftarrow> h; Some ((r, x), h) }
   | PQ_Peek \<Rightarrow> do { (r, x) \<leftarrow> fixed_heap_peek_head (Some h) (Some NULL); Some ((r, x), h) }
   | PQ_Resize n ok junk \<Rightarrow> (case fixed_heap_resize ok junk (Some h) n of
        (r, h) \<Rightarrow> do { h \<leftarrow> h; Some ((r, None), h) }))"

text \<open>The state of the specification: the items and the capacity.\<close>

type_synonym pq = "addr multiset \<times> nat"

definition greatest :: "(addr \<Rightarrow> addr \<Rightarrow> int) \<Rightarrow> addr multiset \<Rightarrow> addr \<Rightarrow> bool" where
  "greatest cmp M x \<longleftrightarrow> x \<in># M \<and> (\<forall>y \<in># M. cmp y x \<le> 0)"

fun heap_allowed :: "(addr \<Rightarrow> addr \<Rightarrow> int) \<Rightarrow> pq \<Rightarrow> heap_call \<Rightarrow> heap_answer \<Rightarrow> pq \<Rightarrow> bool" where
  "heap_allowed cmp (M, n) (PQ_Push x) r a \<longleftrightarrow>
     (if size M < n then r = (A_OK, None) \<and> a = (add_mset x M, n) else r = (A_E_NOSPC, None) \<and> a = (M, n))"
| "heap_allowed cmp (M, n) PQ_Pop r a \<longleftrightarrow>
     (if M = {#} then r = (A_E_EMPTY, Some NULL) \<and> a = (M, n)
      else \<exists>x. greatest cmp M x \<and> r = (A_OK, Some x) \<and> a = (M - {#x#}, n))"
| "heap_allowed cmp (M, n) PQ_Peek r a \<longleftrightarrow>
     a = (M, n) \<and> (if M = {#} then r = (A_E_EMPTY, Some NULL) else \<exists>x. greatest cmp M x \<and> r = (A_OK, Some x))"
| "heap_allowed cmp (M, n) (PQ_Resize k ok junk) r a \<longleftrightarrow>
     (if unat k < size M then r = (A_E_BADARGS, None) \<and> a = (M, n)
      else if ok then r = (A_OK, None) \<and> a = (M, unat k) else r = (A_E_NOMEM, None) \<and> a = (M, n))"

text \<open>Items that the callback can compare, and new capacities below 2 to the 61, for which the size in bytes does not wrap around. A
  capacity of 0 is excluded: what \<open>realloc\<close> does then is not defined.\<close>

definition heap_call_legal :: "addr set \<Rightarrow> heap_call \<Rightarrow> bool" where
  "heap_call_legal K c \<longleftrightarrow> (case c of PQ_Push x \<Rightarrow> x \<in> K | PQ_Resize k ok junk \<Rightarrow> 0 < unat k \<and> unat k < 2 ^ 61 | _ \<Rightarrow> True)"

definition heap_rel :: "addr set \<Rightarrow> ('w \<Rightarrow> addr \<Rightarrow> addr \<Rightarrow> int) \<Rightarrow> 'w \<Rightarrow> 'w fixed_heap \<Rightarrow> pq \<Rightarrow> bool" where
  "heap_rel K c w h a \<longleftrightarrow> fixed_heap_wf K c w h \<and> a = (heap_items h, fh_capacity h)"

lemma always_legal_heap:
  "list_all (heap_call_legal K) cs \<Longrightarrow> always_legal (heap_allowed cmp) (\<lambda>_. heap_call_legal K) a cs"
  by (induction cs arbitrary: a) auto

subsection \<open>Each call\<close>

lemma heap_order_cong:
  assumes "\<And>i. i < n \<Longrightarrow> xs ! i = ys ! i"
  shows "heap_order cmp xs n = heap_order cmp ys n"
proof -
  have "heap_edge cmp xs j = heap_edge cmp ys j" if "j < n" for j
    using assms [OF that] assms [of "FIXED_HEAP_PARENT j"] that by (auto simp: heap_edge_def FIXED_HEAP_PARENT_def)
  then show ?thesis by (simp add: heap_order_def)
qed

lemma resize_wf:
  fixes junk :: "nat \<Rightarrow> addr"
  assumes wf: "fixed_heap_wf K c w h" and n: "fh_entries h \<le> unat k" "unat k < 2 ^ 61"
  defines "n \<equiv> unat k"
  defines "xs \<equiv> take n (heap_slots h) @ map junk [length (heap_slots h)..<n]"
  defines "h' \<equiv> h\<lparr>fh_heap := Some xs, fh_capacity := n\<rparr>"
  shows "fixed_heap_resize True junk (Some h) k = (A_OK, Some h')" "fixed_heap_wf K c w h'" "heap_items h' = heap_items h"
proof -
  have h: "fh_heap h = Some (heap_slots h)" "length (heap_slots h) = fh_capacity h" "fh_entries h \<le> fh_capacity h"
    using wf by (simp_all add: fixed_heap_wf_def)
  note n = n(1) [folded n_def] resized_slots_small [OF n(2), folded n_def]
  have nth: "xs ! i = heap_slots h ! i" if "i < fh_entries h" for i
    using that n h by (simp add: xs_def nth_append)
  have tk: "take (fh_entries h) xs = take (fh_entries h) (heap_slots h)"
    using h n by (simp add: xs_def min_absorb1)
  show "fixed_heap_resize True junk (Some h) k = (A_OK, Some h')"
    using h(1) n by (simp add: fixed_heap_resize_def h'_def xs_def n_def [symmetric])
  show "heap_items h' = heap_items h" using h(1) by (simp add: heap_items_Some h'_def tk)
  have "length xs = n" using h by (simp add: xs_def)
  moreover have "heap_order (c w) xs (fh_entries h)"
    using wf heap_order_cong [of "fh_entries h" xs "heap_slots h" "c w", OF nth] by (simp add: fixed_heap_wf_def)
  ultimately show "fixed_heap_wf K c w h'"
    using wf n h(1) tk by (subst fixed_heap_wf_Some [of _ xs]) (simp_all add: h'_def fixed_heap_wf_def)
qed

context fixed_heap_items
begin

lemma push_call:
  assumes wf: "fixed_heap_wf K c w h" and x: "x \<in> K"
  shows "\<exists>r h1 a1. heap_call_run w h (PQ_Push x) = Some (r, h1) \<and>
    heap_allowed (c w) (heap_items h, fh_capacity h) (PQ_Push x) r a1 \<and> heap_rel K c w h1 a1"
proof (cases "size (heap_items h) < fh_capacity h")
  case True
  then show ?thesis using pq.push_ok [OF wf x] by (auto simp: heap_call_run_def heap_rel_def)
next
  case False
  then show ?thesis
    using wf pq.push_full [OF wf, of x] pq.inv_cap [OF wf] by (simp add: heap_call_run_def heap_rel_def)
qed

lemma head_is_greatest:
  assumes wf: "fixed_heap_wf K c w h" and ne: "heap_items h \<noteq> {#}"
  shows "greatest (c w) (heap_items h) (heap_slots h ! 0)"
proof -
  obtain h' x where "fixed_heap_pop w (Some h) (Some NULL) = Some (A_OK, Some h', Some x)"
    "heap_items h = add_mset x (heap_items h')" "\<forall>y\<in>#heap_items h. c w y x \<le> 0"
    using pq.pop_ok [OF wf ne, of NULL] by blast
  then show ?thesis using heap_pop_is_head [OF wf] by (auto simp: greatest_def)
qed

lemma pop_call:
  assumes wf: "fixed_heap_wf K c w h"
  shows "\<exists>r h1 a1. heap_call_run w h PQ_Pop = Some (r, h1) \<and>
    heap_allowed (c w) (heap_items h, fh_capacity h) PQ_Pop r a1 \<and> heap_rel K c w h1 a1"
proof (cases "heap_items h = {#}")
  case True
  then show ?thesis using wf pq.pop_empty [OF wf True, of NULL] by (simp add: heap_call_run_def heap_rel_def)
next
  case False
  then obtain h' x where x: "fixed_heap_pop w (Some h) (Some NULL) = Some (A_OK, Some h', Some x)"
    "fixed_heap_wf K c w h'" "heap_items h = add_mset x (heap_items h')" "fh_capacity h' = fh_capacity h"
    "\<forall>y\<in>#heap_items h. c w y x \<le> 0"
    using pq.pop_ok [OF wf False, of NULL] by blast
  have g: "greatest (c w) (heap_items h) x" "heap_items h - {#x#} = heap_items h'" using x(3,5) by (simp_all add: greatest_def)
  then have "heap_allowed (c w) (heap_items h, fh_capacity h) PQ_Pop (A_OK, Some x) (heap_items h', fh_capacity h)"
    using False by auto
  moreover have "heap_call_run w h PQ_Pop = Some ((A_OK, Some x), h')" by (simp add: heap_call_run_def x(1))
  ultimately show ?thesis using x(2,4) by (metis heap_rel_def)
qed

lemma peek_call:
  assumes wf: "fixed_heap_wf K c w h"
  shows "\<exists>r h1 a1. heap_call_run w h PQ_Peek = Some (r, h1) \<and>
    heap_allowed (c w) (heap_items h, fh_capacity h) PQ_Peek r a1 \<and> heap_rel K c w h1 a1"
  using wf heap_peek_cases [OF wf, of NULL] head_is_greatest [OF wf]
  by (auto simp: heap_call_run_def heap_rel_def)

lemma resize_call:
  assumes wf: "fixed_heap_wf K c w h" and k: "unat k < 2 ^ 61"
  shows "\<exists>r h1 a1. heap_call_run w h (PQ_Resize k ok junk) = Some (r, h1) \<and>
    heap_allowed (c w) (heap_items h, fh_capacity h) (PQ_Resize k ok junk) r a1 \<and> heap_rel K c w h1 a1"
proof (cases "fh_entries h \<le> unat k \<and> ok")
  case True
  then show ?thesis using resize_wf [OF wf _ k, of junk] size_heap_items [OF wf] by (simp add: heap_call_run_def heap_rel_def)
next
  case False
  have "fh_heap h = Some (heap_slots h)" using wf by (simp add: fixed_heap_wf_def)
  then show ?thesis
    using wf False size_heap_items [OF wf] by (auto simp: heap_call_run_def heap_rel_def fixed_heap_resize_def)
qed

end

sublocale fixed_heap_items \<subseteq> pq_calls: simulation "heap_call_run w" "heap_allowed (c w)" "heap_rel K c w" "\<lambda>_. heap_call_legal K"
proof unfold_locales
  fix h a cl
  assume "heap_rel K c w h a" "heap_call_legal K cl"
  then show "\<exists>r h1 a1. heap_call_run w h cl = Some (r, h1) \<and> heap_allowed (c w) a cl r a1 \<and> heap_rel K c w h1 a1"
    using push_call [of h] pop_call [of h] peek_call [of h] resize_call [of h]
    by (cases cl) (simp_all add: heap_rel_def heap_call_legal_def)
qed

context fixed_heap_items
begin

lemma heap_calls:
  assumes "heap_rel K c w h a" "list_all (heap_call_legal K) cs"
  shows "\<exists>rs h' a'. run_calls (heap_call_run w) h cs = Some (rs, h') \<and> spec_runs (heap_allowed (c w)) a cs rs a' \<and> heap_rel K c w h' a'"
  by (rule pq_calls.calls_simulated [OF assms(1) always_legal_heap [OF assms(2)]])

end

subsection \<open>Properties\<close>

text \<open>Claim C7. A heap made by \<open>fixed_heap_new\<close>, under any sequence of insertions, removals, looks at the head and changes of the
  capacity to between 1 and 2 to the 61 - 1 items: no call faults, all return, and the answers are those of a bounded priority queue. An item that is taken or shown is
  in the queue and none in it is greater; a full queue, an empty queue, a capacity below the number of items and a failure of
  \<open>realloc\<close> are answered without a change. At the end the heap is well-formed and has the items and the capacity of the queue.\<close>

theorem fixed_heap_sequences_correct:
  assumes "comparator_on K (c w)" "fixed_heap_new True (Some h0) n (Some c) = (r0, Some h)" "0 < n" "list_all (heap_call_legal K) cs"
  shows "r0 = A_OK \<and> (\<exists>rs h' M k. run_calls (heap_call_run w) h cs = Some (rs, h') \<and>
    spec_runs (heap_allowed (c w)) ({#}, unat n) cs rs (M, k) \<and>
    fixed_heap_wf K c w h' \<and> heap_items h' = M \<and> fh_capacity h' = k)"
proof -
  have new: "r0 = A_OK" "heap_rel K c w h ({#}, unat n)"
    using assms(2,3) by (auto simp: fixed_heap_new_def heap_rel_def fixed_heap_wf_def heap_slots_def heap_items_def heap_order_def)
  show ?thesis
    using fixed_heap_items.heap_calls [OF fixed_heap_itemsI [of K c w, OF assms(1)] new(2) assms(4)] new(1)
    unfolding heap_rel_def by blast
qed

text \<open>Three items in a heap of two slots: the third one is refused at first and fits after the heap has grown.\<close>

theorem fixed_heap_sequences_correct_witness:
  "\<exists>h. run_calls (heap_call_run ()) (the (snd (fixed_heap_new True (Some fixed_heap_zero) 2 (Some sample_cmp))))
     [PQ_Push 4, PQ_Push 9, PQ_Push 7, PQ_Resize 3 True (\<lambda>_. 0), PQ_Push 7, PQ_Pop, PQ_Peek] =
   Some ([(A_OK, None), (A_OK, None), (A_E_NOSPC, None), (A_OK, None), (A_OK, None), (A_OK, Some 9), (A_OK, Some 7)], h) \<and>
   fixed_heap_wf UNIV sample_cmp () h \<and> heap_items h = {#7, 4#}"
proof -
  define h where "h = the (snd (fixed_heap_new True (Some fixed_heap_zero) 2 (Some sample_cmp)))"
  have new: "fixed_heap_new True (Some fixed_heap_zero) 2 (Some sample_cmp) = (A_OK, Some h)"
    by (simp add: h_def fixed_heap_new_def)
  let ?cs = "[PQ_Push 4, PQ_Push 9, PQ_Push 7, PQ_Resize 3 True (\<lambda>_. 0), PQ_Push 7, PQ_Pop, PQ_Peek]"
  have leg: "list_all (heap_call_legal UNIV) ?cs" by (simp add: heap_call_legal_def)
  have g: "greatest (sample_cmp ()) {#4, 7, 9#} x \<longleftrightarrow> x = 9" "greatest (sample_cmp ()) {#4, 7#} x \<longleftrightarrow> x = 7" for x
    by (auto simp: greatest_def sample_cmp_def)
  show ?thesis
    using fixed_heap_sequences_correct [OF sample_cmp_comparator new _ leg]
    unfolding h_def [symmetric] by (auto simp: g add_mset_commute)
qed

text \<open>A capacity of 2 to the 61 + 1: the size in bytes is 8, \<open>fixed_heap_resize\<close> answers A_OK and leaves an array with one slot. With an item
  in it, the next insertion writes behind the array.\<close>

theorem fixed_heap_resize_overflow:
  assumes "fixed_heap_wf K c w h" "fh_entries h = 1"
  shows "\<exists>h'. fixed_heap_resize True junk (Some h) (2 ^ 61 + 1) = (A_OK, Some h') \<and> fh_capacity h' = 2 ^ 61 + 1 \<and>
    length (the (fh_heap h')) = 1 \<and> fixed_heap_push w (Some h') x = None"
proof -
  have s: "resized_slots (2 ^ 61 + 1) = 1" "unat (2 ^ 61 + 1 :: u64) = 2 ^ 61 + 1" by (simp_all add: resized_slots_def sizeof_item_def)
  have h: "fh_heap h = Some (heap_slots h)" "0 < length (heap_slots h)" using assms by (auto simp: fixed_heap_wf_def)
  then have "take 1 (heap_slots h) @ map junk [length (heap_slots h)..<1] = [heap_slots h ! 0]"
    by (cases "heap_slots h") auto
  then show ?thesis
    using h assms(2) s unfolding fixed_heap_resize_def
    by (auto simp: fixed_heap_push_def fixed_heap_insert_def arr_set_def split: option.split)
qed

theorem fixed_heap_resize_overflow_witness:
  "\<exists>h h'. fixed_heap_resize True (\<lambda>_. 0) (Some h) (2 ^ 61 + 1) = (A_OK, Some h') \<and> fixed_heap_push () (Some h') 5 = None"
proof -
  define h where "h = the (snd (fixed_heap_new True (Some fixed_heap_zero) 2 (Some sample_cmp)))"
  have new: "fixed_heap_new True (Some fixed_heap_zero) 2 (Some sample_cmp) = (A_OK, Some h)"
    by (simp add: h_def fixed_heap_new_def)
  have "heap_rel UNIV sample_cmp () h ({#}, 2)"
    by (auto simp: h_def fixed_heap_new_def heap_rel_def fixed_heap_wf_def heap_slots_def heap_items_def heap_order_def)
  from fixed_heap_items.heap_calls [OF fixed_heap_itemsI [of UNIV sample_cmp "()", OF sample_cmp_comparator] this, of "[PQ_Push 4]"]
  obtain h1 where "fixed_heap_wf UNIV sample_cmp () h1" "heap_items h1 = {#4#}"
    by (auto simp: heap_call_legal_def heap_rel_def)
  moreover from this have "fh_entries h1 = 1" using size_heap_items [of UNIV sample_cmp "()" h1] by simp
  ultimately show ?thesis using fixed_heap_resize_overflow [of UNIV sample_cmp "()" h1 "\<lambda>_. 0" 5] by blast
qed

end
