(* ===== verification/TSL_Time.thy ===== *)
theory TSL_Time
  imports TSL_Result
begin

section \<open>Time sources (tsl/time.h, tsl/time.c)\<close>

text \<open>
  A time source is a struct with an operations table of two function pointers; the module keeps the
  address of the global source. What a clock reads is external: \<open>'c\<close> is the state of the clocks, a
  function pointer is an optional function on it (\<open>None\<close> is NULL), and a source's reading may
  change it (a scripted clock advances). \<open>clock_gettime\<close> is a parameter of the system source.
\<close>

record 'c time_ops =
  get_timestamp :: "(addr \<Rightarrow> 'c \<Rightarrow> u64 \<times> 'c) option"
  set_time :: "(addr \<Rightarrow> u64 \<Rightarrow> 'c \<Rightarrow> 'c) option"

record 'c time_source =
  ts_ops :: "'c time_ops option"
  ts_name :: string
  ts_priv :: addr

record 'c time_state =
  tm_clock :: 'c
  tm_sources :: "addr \<Rightarrow> 'c time_source"
  global_time_source :: addr

text \<open>The address of the static \<open>system_time\<close>; nothing depends on its value but that it is fixed and
  not NULL.\<close>

definition SYSTEM_TIME :: addr where "SYSTEM_TIME = 0x601000"

record timespec =
  tv_sec :: u64
  tv_nsec :: u64

definition system_get_timestamp :: "('c \<Rightarrow> timespec \<times> 'c) \<Rightarrow> addr \<Rightarrow> 'c \<Rightarrow> u64 \<times> 'c" where
  "system_get_timestamp clock_gettime src c =
     (case clock_gettime c of (ts, c) \<Rightarrow> (tv_sec ts * 1000000000 + tv_nsec ts, c))"

definition system_set_time :: "addr \<Rightarrow> u64 \<Rightarrow> 'c \<Rightarrow> 'c" where
  "system_set_time src ts c = c"

definition system_time_ops :: "('c \<Rightarrow> timespec \<times> 'c) \<Rightarrow> 'c time_ops" where
  "system_time_ops clock_gettime =
     \<lparr>get_timestamp = Some (system_get_timestamp clock_gettime), set_time = Some system_set_time\<rparr>"

definition system_time :: "('c \<Rightarrow> timespec \<times> 'c) \<Rightarrow> 'c time_source" where
  "system_time clock_gettime =
     \<lparr>ts_ops = Some (system_time_ops clock_gettime), ts_name = ''System Clock'', ts_priv = NULL\<rparr>"

text \<open>The state at program start.\<close>

definition time_boot :: "('c \<Rightarrow> timespec \<times> 'c) \<Rightarrow> 'c \<Rightarrow> (addr \<Rightarrow> 'c time_source) \<Rightarrow> 'c time_state" where
  "time_boot clock_gettime c srcs =
     \<lparr>tm_clock = c, tm_sources = srcs(SYSTEM_TIME := system_time clock_gettime),
      global_time_source = SYSTEM_TIME\<rparr>"

subsection \<open>Operations\<close>

text \<open>\<open>ops->get_timestamp (src)\<close>: calling a NULL pointer is a fault.\<close>

definition source_read :: "'c time_state \<Rightarrow> addr \<Rightarrow> (u64 \<times> 'c time_state) option" where
  "source_read st src =
     do { ops \<leftarrow> ts_ops (tm_sources st src);
          get \<leftarrow> get_timestamp ops;
          let (t, c) = get src (tm_clock st);
          Some (t, st\<lparr>tm_clock := c\<rparr>) }"

definition time_get_time :: "'c time_state \<Rightarrow> (u64 \<times> 'c time_state) option" where
  "time_get_time st = source_read st (global_time_source st)"

definition time_set_default_source :: "'c time_state \<Rightarrow> addr \<Rightarrow> aresult_t \<times> 'c time_state" where
  "time_set_default_source st source =
     (if \<not> source \<noteq> NULL then (A_E_BADARGS, st)
      else (case ts_ops (tm_sources st source) of
              None \<Rightarrow> (A_E_INVAL, st)
            | Some ops \<Rightarrow>
                if get_timestamp ops = None \<or> set_time ops = None then (A_E_INVAL, st)
                else (A_OK, st\<lparr>global_time_source := source\<rparr>)))"

definition time_get_from_source ::
  "'c time_state \<Rightarrow> addr \<Rightarrow> u64 option \<Rightarrow> (aresult_t \<times> u64 option \<times> 'c time_state) option" where
  "time_get_from_source st source time =
     (if \<not> source \<noteq> NULL then Some (A_E_BADARGS, time, st)
      else if \<not> time \<noteq> None then Some (A_E_BADARGS, time, st)
      else if \<not> ts_ops (tm_sources st source) \<noteq> None then Some (A_E_BADARGS, time, st)
      else do { (t, st) \<leftarrow> source_read st source; Some (A_OK, Some t, st) })"

definition time_get_global_source :: "'c time_state \<Rightarrow> addr option \<Rightarrow> aresult_t \<times> addr option" where
  "time_get_global_source st source =
     (if \<not> source \<noteq> None then (A_E_BADARGS, source) else (A_OK, Some (global_time_source st)))"

definition time_get_system_source :: "addr option \<Rightarrow> aresult_t \<times> addr option" where
  "time_get_system_source source =
     (if \<not> source \<noteq> None then (A_E_BADARGS, source) else (A_OK, Some SYSTEM_TIME))"

subsection \<open>The global source can always be read\<close>

definition source_usable :: "'c time_source \<Rightarrow> bool" where
  "source_usable s \<longleftrightarrow>
     (case ts_ops s of None \<Rightarrow> False | Some ops \<Rightarrow> get_timestamp ops \<noteq> None \<and> set_time ops \<noteq> None)"

definition time_wf :: "'c time_state \<Rightarrow> bool" where
  "time_wf st \<longleftrightarrow> source_usable (tm_sources st (global_time_source st))"

lemma time_get_time_returns: "time_wf st \<Longrightarrow> \<exists>t c. time_get_time st = Some (t, st\<lparr>tm_clock := c\<rparr>)"
  by (auto simp: time_wf_def source_usable_def time_get_time_def source_read_def split: option.splits
      prod.splits)

lemma time_wf_clock [simp]: "time_wf (st\<lparr>tm_clock := c\<rparr>) = time_wf st"
  by (simp add: time_wf_def)

text \<open>
  \<open>time_set_default_source\<close> installs a source exactly when it is non-NULL and has both operations
  (otherwise \<open>A_E_BADARGS\<close> or \<open>A_E_INVAL\<close> and no change), so that from program start, whatever
  sources have been offered, \<open>time_get_time\<close> never calls a NULL pointer and reads the source that
  \<open>time_get_global_source\<close> answers.
\<close>

theorem time_default_source_always_usable:
  "time_wf (time_boot gt c srcs) \<and>
   (time_wf st \<longrightarrow>
      time_wf (snd (time_set_default_source st src)) \<and>
      (fst (time_set_default_source st src) = A_OK \<longleftrightarrow>
         src \<noteq> NULL \<and> source_usable (tm_sources st src)) \<and>
      (AFAILED (fst (time_set_default_source st src)) \<longrightarrow> snd (time_set_default_source st src) = st) \<and>
      (fst (time_set_default_source st src) = A_OK \<longrightarrow>
         time_get_global_source (snd (time_set_default_source st src)) (Some j) = (A_OK, Some src)) \<and>
      (\<exists>t c'. time_get_time st = Some (t, st\<lparr>tm_clock := c'\<rparr>)))"
  using time_get_time_returns [of st]
  by (auto simp: time_wf_def source_usable_def time_boot_def system_time_def system_time_ops_def
      time_set_default_source_def time_get_global_source_def split: option.splits)

text \<open>A scripted clock at 0x100 next to the system clock.\<close>

definition script_source :: "nat time_source" where
  "script_source = \<lparr>ts_ops = Some \<lparr>get_timestamp = Some (\<lambda>src n. (of_nat n, n + 1)),
                                   set_time = Some (\<lambda>src t n. unat t)\<rparr>,
                    ts_name = ''script'', ts_priv = NULL\<rparr>"

definition sample_time :: "nat time_state" where
  "sample_time = snd (time_set_default_source
     (time_boot (\<lambda>n. (\<lparr>tv_sec = of_nat n, tv_nsec = 5\<rparr>, n)) 7 (\<lambda>_. script_source)) 0x100)"

lemma sample_time_reads: "time_get_time sample_time = Some (7, sample_time\<lparr>tm_clock := 8\<rparr>)"
  by (simp add: sample_time_def time_boot_def time_set_default_source_def script_source_def
      time_get_time_def source_read_def SYSTEM_TIME_def)

theorem time_default_source_always_usable_witness:
  "time_wf sample_time \<and> (\<exists>t c'. time_get_time sample_time = Some (t, sample_time\<lparr>tm_clock := c'\<rparr>))"
proof -
  have "time_wf sample_time"
    by (simp add: sample_time_def time_boot_def time_set_default_source_def script_source_def
        time_wf_def source_usable_def SYSTEM_TIME_def)
  then show ?thesis
    using time_default_source_always_usable [where st = sample_time, THEN conjunct2] by blast
qed

end
