(* ===== verification/Timer.thy ===== *)
theory Timer
  imports TSL_List TSL_Time Fixed_Heap
begin

section \<open>Deadline timers (tsl/timer.h, tsl/timer.c)\<close>

text \<open>
  A manager holds a heap of the armed timers, ordered by deadline, and the list of live timers; timers
  are caller-owned structs that refer to their manager. The world of the module is the memory of
  timers and managers, the memory of list entries (a timer's \<open>tnode\<close> and a manager's \<open>live_timers\<close>
  are entries inside the structs, at the structs' offsets) and the time module's state.
  The \<open>fire\<close> member of a timer is a function pointer; what the functions do to the world is the
  parameter \<open>call\<close> of \<open>timer_manager_fire_next\<close>. Whether an allocation succeeds is an argument.
\<close>

subsection \<open>State\<close>

record timer =
  tmr_fire :: addr
  next_firing :: u64
  tmr_mgr :: addr

type_synonym timer_mem = "addr \<Rightarrow> timer"

record timer_manager =
  armed_timers :: "timer_mem fixed_heap"

record 'c timer_world =
  tw_timers :: timer_mem
  tw_mgrs :: "addr \<Rightarrow> timer_manager"
  tw_list :: list_mem
  tw_time :: "'c time_state"

definition TIMER_STATE_DISARMED :: u64 where "TIMER_STATE_DISARMED = 0"

text \<open>The addresses of \<open>&tmr->tnode\<close> and \<open>&mgr->live_timers\<close>.\<close>

definition tnode :: "addr \<Rightarrow> addr" where "tnode tmr = tmr + 16"
definition live_timers :: "addr \<Rightarrow> addr" where "live_timers mgr = mgr + 32"

text \<open>\<open>__timer_manager_sort_timers\<close>: the 64-bit difference is returned as an \<open>int\<close>.\<close>

definition timer_manager_sort_timers :: "timer_mem \<Rightarrow> addr \<Rightarrow> addr \<Rightarrow> int" where
  "timer_manager_sort_timers timers lhs rhs =
     sint (ucast (next_firing (timers rhs) - next_firing (timers lhs)) :: 32 word)"

subsection \<open>Operations\<close>

text \<open>\<open>mgr\<close> is the address that \<open>calloc\<close> returns for the new manager, NULL if it fails; the contents of
  \<open>pmgr\<close> is returned.\<close>

definition timer_manager_new ::
  "addr \<Rightarrow> bool \<Rightarrow> 'c timer_world \<Rightarrow> addr option \<Rightarrow> u64 \<Rightarrow> aresult_t \<times> addr option \<times> 'c timer_world" where
  "timer_manager_new mgr heap_ok w pmgr max_timers =
     (if \<not> pmgr \<noteq> None then (A_E_BADARGS, pmgr, w)
      else if \<not> 0 < max_timers then (A_E_BADARGS, pmgr, w)
      else if mgr = NULL then (A_E_NOMEM, Some NULL, w)
      else case fixed_heap_new heap_ok (Some fixed_heap_zero) max_timers (Some timer_manager_sort_timers) of
             (r, h) \<Rightarrow>
               if AFAILED r then (A_E_NOMEM, Some NULL, w)
               else (A_OK, Some mgr,
                     w\<lparr>tw_mgrs := (tw_mgrs w)(mgr := \<lparr>armed_timers = the h\<rparr>),
                       tw_list := list_init (tw_list w) (live_timers mgr)\<rparr>))"

text \<open>The memory of the manager is released: it is zeroed, then freed.\<close>

definition timer_manager_delete ::
  "'c timer_world \<Rightarrow> addr option \<Rightarrow> aresult_t \<times> addr option \<times> 'c timer_world" where
  "timer_manager_delete w pmgr =
     (case pmgr of
        None \<Rightarrow> (A_E_BADARGS, pmgr, w)
      | Some mgr \<Rightarrow>
          if \<not> mgr \<noteq> NULL then (A_E_BADARGS, pmgr, w)
          else (A_OK, Some NULL,
                w\<lparr>tw_mgrs := (tw_mgrs w)(mgr := \<lparr>armed_timers = fixed_heap_zero\<rparr>),
                  tw_list := (tw_list w)(live_timers mgr := \<lparr>le_prev = NULL, le_next = NULL\<rparr>)\<rparr>))"

text \<open>\<open>__timer_manager_add_timer\<close>\<close>

definition timer_manager_add_timer ::
  "'c timer_world \<Rightarrow> addr \<Rightarrow> addr \<Rightarrow> (aresult_t \<times> 'c timer_world) option" where
  "timer_manager_add_timer w tmr mgr =
     (if \<not> tmr \<noteq> NULL then Some (A_E_BADARGS, w)
      else if \<not> mgr \<noteq> NULL then Some (A_E_BADARGS, w)
      else
        let w = w\<lparr>tw_timers := (tw_timers w)(tmr := (tw_timers w tmr)\<lparr>tmr_mgr := mgr\<rparr>)\<rparr>;
            w = w\<lparr>tw_list := list_append (tw_list w) (live_timers mgr) (tnode tmr)\<rparr>
        in do { (r, h) \<leftarrow> fixed_heap_push (tw_timers w) (Some (armed_timers (tw_mgrs w mgr))) tmr;
                let w = w\<lparr>tw_mgrs := (tw_mgrs w)(mgr := \<lparr>armed_timers = the h\<rparr>)\<rparr>;
                if AFAILED r then Some (A_E_INVAL, w) else Some (A_OK, w) })"

definition timer_arm ::
  "'c timer_world \<Rightarrow> addr \<Rightarrow> addr \<Rightarrow> u64 \<Rightarrow> (aresult_t \<times> 'c timer_world) option" where
  "timer_arm w tmr mgr usecs =
     (if \<not> tmr \<noteq> NULL then Some (A_E_BADARGS, w)
      else if \<not> mgr \<noteq> NULL then Some (A_E_BADARGS, w)
      else if \<not> 0 < usecs then Some (A_E_BADARGS, w)
      else do { (now, t) \<leftarrow> time_get_time (tw_time w);
                let w = w\<lparr>tw_time := t\<rparr>;
                let w = w\<lparr>tw_timers := (tw_timers w)(tmr := (tw_timers w tmr)
                            \<lparr>next_firing := now + usecs * 1000\<rparr>)\<rparr>;
                timer_manager_add_timer w tmr mgr })"

definition timer_arm_at ::
  "'c timer_world \<Rightarrow> addr \<Rightarrow> addr \<Rightarrow> u64 \<Rightarrow> (aresult_t \<times> 'c timer_world) option" where
  "timer_arm_at w tmr mgr when =
     (if \<not> tmr \<noteq> NULL then Some (A_E_BADARGS, w)
      else if \<not> mgr \<noteq> NULL then Some (A_E_BADARGS, w)
      else let w = w\<lparr>tw_timers := (tw_timers w)(tmr := (tw_timers w tmr)\<lparr>next_firing := when\<rparr>)\<rparr>
           in timer_manager_add_timer w tmr mgr)"

definition timer_disarm :: "'c timer_world \<Rightarrow> addr \<Rightarrow> aresult_t \<times> 'c timer_world" where
  "timer_disarm w tmr =
     (if \<not> tmr \<noteq> NULL then (A_E_BADARGS, w)
      else (A_OK, w\<lparr>tw_timers := (tw_timers w)(tmr := (tw_timers w tmr)\<lparr>next_firing := 0\<rparr>)\<rparr>))"

text \<open>\<open>call f t w\<close> is the world after the function at \<open>f\<close> has been called with timer \<open>t\<close>. Result, contents
  of \<open>pnext\<close> and world are returned.\<close>

definition timer_manager_fire_next ::
  "(addr \<Rightarrow> addr \<Rightarrow> 'c timer_world \<Rightarrow> 'c timer_world) \<Rightarrow> 'c timer_world \<Rightarrow> addr \<Rightarrow> u64 option \<Rightarrow>
   (aresult_t \<times> u64 option \<times> 'c timer_world) option" where
  "timer_manager_fire_next call w mgr pnext =
     (if \<not> mgr \<noteq> NULL then Some (A_E_BADARGS, pnext, w)
      else if \<not> pnext \<noteq> None then Some (A_E_BADARGS, pnext, w)
      else do {
        (r, tmr) \<leftarrow> fixed_heap_peek_head (Some (armed_timers (tw_mgrs w mgr))) (Some NULL);
        if AFAILED r then Some (if r = A_E_EMPTY then A_OK else r, Some 0, w)
        else do {
          tmr \<leftarrow> tmr;
          (now, t) \<leftarrow> time_get_time (tw_time w);
          let w = w\<lparr>tw_time := t\<rparr>;
          if now \<ge> next_firing (tw_timers w tmr) then do {
            (r, h, tmr) \<leftarrow> fixed_heap_pop (tw_timers w) (Some (armed_timers (tw_mgrs w mgr))) (Some tmr);
            let w = w\<lparr>tw_mgrs := (tw_mgrs w)(mgr := \<lparr>armed_timers = the h\<rparr>)\<rparr>;
            tmr \<leftarrow> tmr;
            if AFAILED r then Some (r, Some 0, w)
            else do {
              let w = w\<lparr>tw_list := list_del (tw_list w) (tnode tmr)\<rparr>;
              let w = call (tmr_fire (tw_timers w tmr)) tmr w;
              (r, tmr) \<leftarrow> fixed_heap_peek_head (Some (armed_timers (tw_mgrs w mgr))) (Some tmr);
              tmr \<leftarrow> tmr;
              if AFAILED r then Some (r, Some 0, w)
              else Some (A_OK, Some (next_firing (tw_timers w tmr)), w) } }
          else Some (A_OK, Some (next_firing (tw_timers w tmr)), w) } })"

subsection \<open>The comparator\<close>

text \<open>Deadlines that lie less than \<open>2 ^ 31\<close> nanoseconds (about 2.1 s) apart.\<close>

definition timers_in_window :: "nat \<Rightarrow> timer_mem \<Rightarrow> addr set" where
  "timers_in_window b timers =
     {t. t \<noteq> NULL \<and> b \<le> unat (next_firing (timers t)) \<and> unat (next_firing (timers t)) < b + 2 ^ 31}"

lemma sint_ucast_diff:
  fixes a b :: u64
  assumes "\<bar>int (unat a) - int (unat b)\<bar> < 2 ^ 31"
  shows "sint (ucast (a - b) :: 32 word) = int (unat a) - int (unat b)"
proof -
  let ?k = "uint a - uint b"
  have k: "- (2 ^ 31) \<le> ?k" "?k < 2 ^ 31" using assms by auto
  have "uint (ucast (a - b) :: 32 word) = take_bit 32 (take_bit 64 ?k)"
    by (simp add: unsigned_ucast_eq uint_word_ariths(2) take_bit_eq_mod)
  then have "sint (ucast (a - b) :: 32 word) = signed_take_bit 31 ?k"
    by (simp add: sint_uint signed_take_bit_take_bit)
  also have "\<dots> = ?k"
    using k by (intro signed_take_bit_int_eq_self)
  finally show ?thesis by simp
qed

lemma abs_diff_less_window:
  assumes "b \<le> x" "x < b + 2 ^ 31" "b \<le> y" "y < b + 2 ^ 31"
  shows "\<bar>int x - int y\<bar> < 2 ^ 31"
  using assms by simp

lemma sort_timers_diff:
  assumes "l \<in> timers_in_window b timers" "r \<in> timers_in_window b timers"
  shows "timer_manager_sort_timers timers l r =
         int (unat (next_firing (timers r))) - int (unat (next_firing (timers l)))"
proof -
  have "\<bar>int (unat (next_firing (timers r))) - int (unat (next_firing (timers l)))\<bar> < 2 ^ 31"
    using assms unfolding timers_in_window_def mem_Collect_eq by (intro abs_diff_less_window [of b]) auto
  then show ?thesis
    unfolding timer_manager_sort_timers_def by (rule sint_ucast_diff)
qed

interpretation tmr: comparator_on "timers_in_window b timers" "timer_manager_sort_timers timers"
  for b timers
  by unfold_locales (simp_all add: sort_timers_diff)

interpretation tmr: fixed_heap_items "timers_in_window b timers" timer_manager_sort_timers timers
  for b timers
  by unfold_locales

subsection \<open>Invariant of a manager\<close>

text \<open>The heap is well-formed, the live list holds the timers \<open>ts\<close>, which are the ones in the heap, and
  the deadlines lie in the window that starts at \<open>b\<close>.\<close>

definition timer_mgr_wf :: "nat \<Rightarrow> 'c timer_world \<Rightarrow> addr \<Rightarrow> addr list \<Rightarrow> bool" where
  "timer_mgr_wf b w mgr ts \<longleftrightarrow>
     mgr \<noteq> NULL \<and> time_wf (tw_time w) \<and>
     fixed_heap_wf (timers_in_window b (tw_timers w)) timer_manager_sort_timers (tw_timers w)
       (armed_timers (tw_mgrs w mgr)) \<and>
     heap_items (armed_timers (tw_mgrs w mgr)) = mset ts \<and>
     is_list (tw_list w) (live_timers mgr) (map tnode ts)"

lemma tnode_inj [simp]: "tnode a = tnode b \<longleftrightarrow> a = b"
  by (simp add: tnode_def)

lemma remove1_map_tnode: "remove1 (tnode t) (map tnode ts) = map tnode (remove1 t ts)"
  by (induction ts) auto

text \<open>Writing to a timer that is not armed leaves the heap well-formed.\<close>

lemma timer_heap_frame:
  assumes "fixed_heap_wf (timers_in_window b timers) timer_manager_sort_timers timers h"
    and "\<And>x. x \<in># heap_items h \<Longrightarrow> next_firing (timers' x) = next_firing (timers x)"
  shows "fixed_heap_wf (timers_in_window b timers') timer_manager_sort_timers timers' h"
proof (rule fixed_heap_wf_cong [OF assms(1)])
  show "x \<in> timers_in_window b timers'" if "x \<in># heap_items h" for x
    using heap_items_subset [OF assms(1) that] assms(2) [OF that] by (simp add: timers_in_window_def)
  show "timer_manager_sort_timers timers x y = timer_manager_sort_timers timers' x y"
    if "x \<in># heap_items h" "y \<in># heap_items h" for x y
    using assms(2) [OF that(1)] assms(2) [OF that(2)] by (simp add: timer_manager_sort_timers_def)
qed

lemma timer_mgr_heap:
  "timer_mgr_wf b w mgr ts \<Longrightarrow>
   fixed_heap_wf (timers_in_window b (tw_timers w)) timer_manager_sort_timers (tw_timers w)
     (armed_timers (tw_mgrs w mgr))"
  by (simp add: timer_mgr_wf_def)

lemma add_timer_correct:
  assumes wf: "timer_mgr_wf b w mgr ts" and t: "tmr \<noteq> NULL" "tnode tmr \<notin> set (live_timers mgr # map tnode ts)"
    and win: "tmr \<in> timers_in_window b (tw_timers w)"
  shows "\<exists>r w'. timer_manager_add_timer w tmr mgr = Some (r, w') \<and>
           tw_timers w' = (tw_timers w)(tmr := (tw_timers w tmr)\<lparr>tmr_mgr := mgr\<rparr>) \<and>
           tw_time w' = tw_time w \<and>
           is_list (tw_list w') (live_timers mgr) (map tnode (ts @ [tmr])) \<and>
           (if length ts < fh_capacity (armed_timers (tw_mgrs w mgr))
            then r = A_OK \<and> timer_mgr_wf b w' mgr (ts @ [tmr])
            else r = A_E_INVAL \<and> tw_mgrs w' = tw_mgrs w)"
proof -
  let ?tm = "(tw_timers w)(tmr := (tw_timers w tmr)\<lparr>tmr_mgr := mgr\<rparr>)" and ?h = "armed_timers (tw_mgrs w mgr)"
  have hw: "fixed_heap_wf (timers_in_window b ?tm) timer_manager_sort_timers ?tm ?h"
    by (rule timer_heap_frame [OF timer_mgr_heap [OF wf]]) simp
  have l: "is_list (list_append (tw_list w) (live_timers mgr) (tnode tmr)) (live_timers mgr)
             (map tnode (ts @ [tmr]))"
    using il.lst_app [of "tw_list w" "live_timers mgr" "map tnode ts" "tnode tmr"] wf t
    by (simp add: timer_mgr_wf_def)
  have sz: "size (heap_items ?h) = length ts" and mgr: "mgr \<noteq> NULL"
    using wf by (auto simp: timer_mgr_wf_def)
  have "tmr \<in> timers_in_window b ?tm" using win by (simp add: timers_in_window_def)
  then have push: "if length ts < fh_capacity ?h then
      \<exists>h'. fixed_heap_push ?tm (Some ?h) tmr = Some (A_OK, Some h') \<and>
        fixed_heap_wf (timers_in_window b ?tm) timer_manager_sort_timers ?tm h' \<and>
        heap_items h' = add_mset tmr (mset ts)
      else fixed_heap_push ?tm (Some ?h) tmr = Some (A_E_NOSPC, Some ?h)"
    using tmr.pq.push_ok [OF hw] tmr.pq.push_full [OF hw] tmr.pq.inv_cap [OF hw] wf sz
    by (auto simp: timer_mgr_wf_def)
  have idm: "(tw_mgrs w)(mgr := \<lparr>armed_timers = ?h\<rparr>) = tw_mgrs w" by (rule ext) simp
  show ?thesis
    using push l t mgr wf idm
    by (auto simp: timer_manager_add_timer_def Let_def timer_mgr_wf_def split: if_splits)
qed

text \<open>Setting the deadline of a timer that is not armed.\<close>

lemma timer_mgr_wf_set_deadline:
  assumes wf: "timer_mgr_wf b w mgr ts" and t: "tmr \<notin> set ts"
    and "time_wf tm"
  shows "timer_mgr_wf b (w\<lparr>tw_time := tm, tw_timers := (tw_timers w)(tmr := (tw_timers w tmr)\<lparr>next_firing := d\<rparr>)\<rparr>)
           mgr ts"
proof -
  let ?tm = "(tw_timers w)(tmr := (tw_timers w tmr)\<lparr>next_firing := d\<rparr>)"
  have "fixed_heap_wf (timers_in_window b ?tm) timer_manager_sort_timers ?tm (armed_timers (tw_mgrs w mgr))"
    using wf t by (intro timer_heap_frame [OF timer_mgr_heap [OF wf]]) (auto simp: timer_mgr_wf_def)
  then show ?thesis using wf assms(3) by (simp add: timer_mgr_wf_def)
qed

subsection \<open>Properties\<close>

text \<open>Claim C17. 
  \<open>timer_arm\<close> on a timer that is not on the manager's list: it always returns, the deadline is the
  current time plus the given microseconds in nanoseconds (modulo \<open>2 ^ 64\<close>), the timer points to the
  manager and is last on the live list. With room in the heap the answer is \<open>A_OK\<close> and the manager
  stays well-formed with the timer armed; with a full heap it is \<open>A_E_INVAL\<close>, the heap is unchanged and
  the timer nevertheless stays on the live list.
\<close>

theorem timer_arm_correct:
  assumes wf: "timer_mgr_wf b w mgr ts" and t: "tmr \<noteq> NULL" "tnode tmr \<notin> set (live_timers mgr # map tnode ts)"
    and u: "0 < usecs" and now: "time_get_time (tw_time w) = Some (now, tm)"
    and win: "b \<le> unat (now + usecs * 1000)" "unat (now + usecs * 1000) < b + 2 ^ 31"
  shows "\<exists>r w'. timer_arm w tmr mgr usecs = Some (r, w') \<and>
           next_firing (tw_timers w' tmr) = now + usecs * 1000 \<and> tmr_mgr (tw_timers w' tmr) = mgr \<and>
           (\<forall>t. t \<noteq> tmr \<longrightarrow> tw_timers w' t = tw_timers w t) \<and>
           is_list (tw_list w') (live_timers mgr) (map tnode (ts @ [tmr])) \<and>
           (if length ts < fh_capacity (armed_timers (tw_mgrs w mgr))
            then r = A_OK \<and> timer_mgr_wf b w' mgr (ts @ [tmr])
            else r = A_E_INVAL \<and> tw_mgrs w' = tw_mgrs w)"
proof -
  let ?w = "w\<lparr>tw_time := tm, tw_timers := (tw_timers w)(tmr := (tw_timers w tmr)\<lparr>next_firing := now + usecs * 1000\<rparr>)\<rparr>"
  have "time_wf tm"
    using wf now time_get_time_returns [of "tw_time w"] by (auto simp: timer_mgr_wf_def)
  then have wf': "timer_mgr_wf b ?w mgr ts"
    using t by (intro timer_mgr_wf_set_deadline [OF wf]) auto
  have "tmr \<in> timers_in_window b (tw_timers ?w)"
    using win t by (simp add: timers_in_window_def)
  moreover have "timer_arm w tmr mgr usecs = timer_manager_add_timer ?w tmr mgr"
    using t u now wf by (simp add: timer_arm_def timer_mgr_wf_def word_neq_0_conv)
  ultimately obtain r w' where "timer_arm w tmr mgr usecs = Some (r, w')"
    "tw_timers w' = (tw_timers ?w)(tmr := (tw_timers ?w tmr)\<lparr>tmr_mgr := mgr\<rparr>)"
    "is_list (tw_list w') (live_timers mgr) (map tnode (ts @ [tmr]))"
    "if length ts < fh_capacity (armed_timers (tw_mgrs w mgr))
     then r = A_OK \<and> timer_mgr_wf b w' mgr (ts @ [tmr]) else r = A_E_INVAL \<and> tw_mgrs w' = tw_mgrs w"
    using add_timer_correct [OF wf' t] by auto
  then show ?thesis
    by (intro exI [of _ r] exI [of _ w']) (auto split: if_splits)
qed

text \<open>The timer at the top of the heap is an earliest one, and taking it off leaves a well-formed manager.\<close>

lemma earliest_timer:
  assumes wf: "timer_mgr_wf b w mgr ts" and ne0: "ts \<noteq> []" and tm: "time_wf tm"
  obtains x h' where "x \<in> set ts" "\<forall>s \<in> set ts. next_firing (tw_timers w x) \<le> next_firing (tw_timers w s)"
    "fixed_heap_peek_head (Some (armed_timers (tw_mgrs w mgr))) (Some NULL) = Some (A_OK, Some x)"
    "fixed_heap_pop (tw_timers w) (Some (armed_timers (tw_mgrs w mgr))) (Some x) = Some (A_OK, Some h', Some x)"
    "timer_mgr_wf b (w\<lparr>tw_time := tm, tw_mgrs := (tw_mgrs w)(mgr := \<lparr>armed_timers = h'\<rparr>),
               tw_list := list_del (tw_list w) (tnode x)\<rparr>) mgr (remove1 x ts)"
proof -
  let ?h = "armed_timers (tw_mgrs w mgr)" and ?K = "timers_in_window b (tw_timers w)"
  let ?t = "heap_slots ?h ! 0"
  note h = timer_mgr_heap [OF wf]
  from wf ne0 have ne: "heap_items ?h \<noteq> {#}" and items: "heap_items ?h = mset ts" and mgr: "mgr \<noteq> NULL"
    by (auto simp: timer_mgr_wf_def)
  obtain h' x where pop0: "fixed_heap_pop (tw_timers w) (Some ?h) (Some ?t) = Some (A_OK, Some h', Some x)"
    and h': "fixed_heap_wf ?K timer_manager_sort_timers (tw_timers w) h'"
    and x: "heap_items ?h = add_mset x (heap_items h')"
    and top: "\<forall>y\<in>#heap_items ?h. timer_manager_sort_timers (tw_timers w) y x \<le> 0"
    using tmr.pq.pop_ok [OF h ne] by blast
  have xt: "x = ?t" by (rule heap_pop_is_head [OF h pop0])
  then have pop: "fixed_heap_pop (tw_timers w) (Some ?h) (Some x) = Some (A_OK, Some h', Some x)"
    using pop0 by simp
  have xts: "x \<in> set ts" using x items by (metis set_mset_mset union_single_eq_member)
  have min: "next_firing (tw_timers w x) \<le> next_firing (tw_timers w s)" if "s \<in> set ts" for s
    using top that items xts sort_timers_diff [of s b "tw_timers w" x] heap_items_subset [OF h]
    by (auto simp: word_le_def)
  have peek: "fixed_heap_peek_head (Some ?h) (Some NULL) = Some (A_OK, Some x)"
    using heap_peek_cases [OF h] ne xt by simp
  let ?w1 = "w\<lparr>tw_time := tm, tw_mgrs := (tw_mgrs w)(mgr := \<lparr>armed_timers = h'\<rparr>),
               tw_list := list_del (tw_list w) (tnode x)\<rparr>"
  have rest: "heap_items h' = mset (remove1 x ts)"
    using x items by (metis add_mset_remove_trivial mset_remove1)
  have "is_list (list_del (tw_list w) (tnode x)) (live_timers mgr) (map tnode (remove1 x ts))"
    using il.lst_del [of "tw_list w" "live_timers mgr" "map tnode ts" "tnode x"] wf xts
    by (simp add: timer_mgr_wf_def remove1_map_tnode)
  then have w1: "timer_mgr_wf b ?w1 mgr (remove1 x ts)"
    using h' rest tm mgr by (simp add: timer_mgr_wf_def)
  show ?thesis by (rule that [OF xts _ peek pop w1]) (use min in blast)
qed

lemma fire_next_cases:
  assumes wf: "timer_mgr_wf b w mgr ts" and now: "time_get_time (tw_time w) = Some (now, tm)"
  shows "(if ts = [] then timer_manager_fire_next call w mgr (Some p) = Some (A_OK, Some 0, w)
          else \<exists>t\<in>set ts. (\<forall>s\<in>set ts. next_firing (tw_timers w t) \<le> next_firing (tw_timers w s)) \<and>
            (if now < next_firing (tw_timers w t)
             then timer_manager_fire_next call w mgr (Some p) =
                    Some (A_OK, Some (next_firing (tw_timers w t)), w\<lparr>tw_time := tm\<rparr>)
             else \<exists>w1. timer_mgr_wf b w1 mgr (remove1 t ts) \<and> tw_timers w1 = tw_timers w \<and>
                    tw_time w1 = tm \<and>
                    timer_manager_fire_next call w mgr (Some p) =
                      (let w2 = call (tmr_fire (tw_timers w t)) t w1
                       in do { (r, q) \<leftarrow> fixed_heap_peek_head (Some (armed_timers (tw_mgrs w2 mgr))) (Some t);
                               q \<leftarrow> q;
                               Some (if AFAILED r then (r, Some 0, w2)
                                     else (A_OK, Some (next_firing (tw_timers w2 q)), w2)) })))"
proof (cases "ts = []")
  case True
  then show ?thesis
    using wf heap_peek_cases [OF timer_mgr_heap [OF wf]]
    by (simp add: timer_manager_fire_next_def timer_mgr_wf_def)
next
  case False
  have tm: "time_wf tm"
    using wf now time_get_time_returns [of "tw_time w"] by (auto simp: timer_mgr_wf_def)
  obtain x h' where xts: "x \<in> set ts" and min: "\<forall>s \<in> set ts. next_firing (tw_timers w x) \<le> next_firing (tw_timers w s)"
    and peek: "fixed_heap_peek_head (Some (armed_timers (tw_mgrs w mgr))) (Some NULL) = Some (A_OK, Some x)"
    and pop: "fixed_heap_pop (tw_timers w) (Some (armed_timers (tw_mgrs w mgr))) (Some x) = Some (A_OK, Some h', Some x)"
    and w1: "timer_mgr_wf b (w\<lparr>tw_time := tm, tw_mgrs := (tw_mgrs w)(mgr := \<lparr>armed_timers = h'\<rparr>),
               tw_list := list_del (tw_list w) (tnode x)\<rparr>) mgr (remove1 x ts)"
    using earliest_timer [OF wf False tm] .
  let ?w1 = "w\<lparr>tw_time := tm, tw_mgrs := (tw_mgrs w)(mgr := \<lparr>armed_timers = h'\<rparr>),
               tw_list := list_del (tw_list w) (tnode x)\<rparr>"
  have mgr: "mgr \<noteq> NULL" using wf by (simp add: timer_mgr_wf_def)
  have late: "timer_manager_fire_next call w mgr (Some p) =
      Some (A_OK, Some (next_firing (tw_timers w x)), w\<lparr>tw_time := tm\<rparr>)"
    if "now < next_firing (tw_timers w x)"
    using that [unfolded not_le [symmetric]] mgr peek now by (simp add: timer_manager_fire_next_def Let_def)
  have due: "timer_manager_fire_next call w mgr (Some p) =
      (let w2 = call (tmr_fire (tw_timers w x)) x ?w1
       in do { (r, q) \<leftarrow> fixed_heap_peek_head (Some (armed_timers (tw_mgrs w2 mgr))) (Some x);
               q \<leftarrow> q;
               Some (if AFAILED r then (r, Some 0, w2)
                     else (A_OK, Some (next_firing (tw_timers w2 q)), w2)) })"
    if "\<not> now < next_firing (tw_timers w x)"
    using that [unfolded not_less] mgr peek now pop
    by (simp add: timer_manager_fire_next_def Let_def if_distrib [of Some] case_prod_unfold
        cong: Option.bind_cong if_cong)
  show ?thesis
    unfolding if_not_P [OF False]
    by (rule bexI [OF _ xts], intro conjI, rule min,
        rule iffD2 [OF if_bool_eq_conj], intro conjI impI, rule late, assumption,
        rule exI [of _ ?w1], intro conjI, rule w1, simp, simp, rule due, assumption)
qed

text \<open>
  \<open>timer_manager_fire_next\<close> on a well-formed manager: with no armed timer it answers \<open>A_OK\<close> and 0 and
  changes nothing. Otherwise there is an armed timer \<open>t\<close> whose deadline no armed timer precedes: if it
  is still in the future, it is reported and only the clock has been read; if it has passed, exactly
  this timer is taken off the heap and the live list, in a state that is again well-formed its
  function is called once, and the answer is what \<open>fixed_heap_peek_head\<close> gives after the call.
\<close>

theorem timer_manager_fire_next_correct:
  assumes wf: "timer_mgr_wf b w mgr ts" and now: "time_get_time (tw_time w) = Some (now, tm)"
  shows "(if ts = [] then timer_manager_fire_next call w mgr (Some p) = Some (A_OK, Some 0, w)
          else \<exists>t\<in>set ts. (\<forall>s\<in>set ts. next_firing (tw_timers w t) \<le> next_firing (tw_timers w s)) \<and>
            (if now < next_firing (tw_timers w t)
             then timer_manager_fire_next call w mgr (Some p) =
                    Some (A_OK, Some (next_firing (tw_timers w t)), w\<lparr>tw_time := tm\<rparr>)
             else \<exists>w1. timer_mgr_wf b w1 mgr (remove1 t ts) \<and> tw_timers w1 = tw_timers w \<and>
                    tw_time w1 = tm \<and>
                    timer_manager_fire_next call w mgr (Some p) =
                      (let w2 = call (tmr_fire (tw_timers w t)) t w1
                       in do { (r, q) \<leftarrow> fixed_heap_peek_head (Some (armed_timers (tw_mgrs w2 mgr))) (Some t);
                               q \<leftarrow> q;
                               Some (if AFAILED r then (r, Some 0, w2)
                                     else (A_OK, Some (next_firing (tw_timers w2 q)), w2)) })))"
  by (rule fire_next_cases [OF assms])

text \<open>A manager at 0x1000 with one timer at 0x2000, due at 50, and a free timer at 0x3000, under the
  scripted clock that reads 7.\<close>

definition sample_timers :: timer_mem where
  "sample_timers = (\<lambda>_. \<lparr>tmr_fire = 0x400, next_firing = 50, tmr_mgr = 0x1000\<rparr>)"

definition sample_timer_world :: "nat timer_world" where
  "sample_timer_world =
     \<lparr>tw_timers = sample_timers,
      tw_mgrs = (\<lambda>_. \<lparr>armed_timers = \<lparr>fh_heap = Some [0x2000, 0], fh_capacity = 2, fh_entries = 1,
                                      fh_compare = Some timer_manager_sort_timers\<rparr>\<rparr>),
      tw_list = list_append (list_init (\<lambda>_. \<lparr>le_prev = 0, le_next = 0\<rparr>) 0x1020) 0x1020 0x2010,
      tw_time = sample_time\<rparr>"

lemma sample_timer_world_wf: "timer_mgr_wf 0 sample_timer_world 0x1000 [0x2000]"
proof -
  have "is_list (list_append (list_init (\<lambda>_. \<lparr>le_prev = 0, le_next = 0\<rparr>) 0x1020) 0x1020 0x2010) 0x1020 ([] @ [0x2010])"
    by (intro is_list_append is_list_init) simp
  moreover have "time_wf sample_time"
    by (simp add: sample_time_def time_boot_def time_set_default_source_def script_source_def
        time_wf_def source_usable_def SYSTEM_TIME_def)
  ultimately show ?thesis
    by (simp add: timer_mgr_wf_def sample_timer_world_def sample_timers_def live_timers_def tnode_def
        heap_items_def heap_slots_def fixed_heap_wf_def heap_order_def heap_edge_def timers_in_window_def)
qed

theorem timer_arm_correct_witness:
  "\<exists>w'. timer_arm sample_timer_world 0x3000 0x1000 2 = Some (A_OK, w') \<and>
        next_firing (tw_timers w' 0x3000) = 2007 \<and> timer_mgr_wf 0 w' 0x1000 [0x2000, 0x3000]"
proof -
  have *: "length [0x2000] < fh_capacity (armed_timers (tw_mgrs sample_timer_world 0x1000))"
    "time_get_time (tw_time sample_timer_world) = Some (7, sample_time\<lparr>tm_clock := 8\<rparr>)"
    by (simp_all add: sample_timer_world_def sample_time_reads)
  show ?thesis
    using timer_arm_correct [OF sample_timer_world_wf _ _ _ *(2), of "0x3000" 2] *(1)
    by (auto simp: live_timers_def tnode_def)
qed

theorem timer_manager_fire_next_correct_witness:
  "timer_manager_fire_next (\<lambda>f t w. w) sample_timer_world 0x1000 (Some 0) =
     Some (A_OK, Some 50, sample_timer_world\<lparr>tw_time := sample_time\<lparr>tm_clock := 8\<rparr>\<rparr>)"
proof -
  have *: "time_get_time (tw_time sample_timer_world) = Some (7, sample_time\<lparr>tm_clock := 8\<rparr>)"
    "next_firing (tw_timers sample_timer_world 0x2000) = 50"
    by (simp_all add: sample_timer_world_def sample_time_reads sample_timers_def)
  show ?thesis
    using timer_manager_fire_next_correct [OF sample_timer_world_wf *(1), of "\<lambda>f t w. w" 0] *(2) by simp
qed

text \<open>
  \<open>timer_disarm\<close> does not prevent a timer from firing: it only sets the deadline to 0. If the one
  armed timer of a manager is disarmed, the next call of \<open>timer_manager_fire_next\<close> calls its function
  whatever the time is; when the function leaves the manager alone, the answer of that successful
  firing is \<open>A_E_EMPTY\<close>.
\<close>

theorem timer_disarm_does_not_prevent_firing:
  assumes wf: "timer_mgr_wf b w mgr [t]" and now: "time_get_time (tw_time w) = Some (now, tm)"
    and call: "\<And>f s v. tw_mgrs (call f s v) = tw_mgrs v"
  shows "fst (timer_disarm w t) = A_OK \<and>
         (\<exists>w1. timer_manager_fire_next call (snd (timer_disarm w t)) mgr (Some p) =
                 Some (A_E_EMPTY, Some 0, call (tmr_fire (tw_timers w t)) t w1))"
proof -
  let ?tm = "(tw_timers w)(t := (tw_timers w t)\<lparr>next_firing := 0\<rparr>)" and ?h = "armed_timers (tw_mgrs w mgr)"
  let ?w = "w\<lparr>tw_timers := ?tm\<rparr>"
  note h = timer_mgr_heap [OF wf]
  have items: "heap_items ?h = {#t#}" using wf by (simp add: timer_mgr_wf_def)
  then have t: "t \<noteq> NULL" "fh_entries ?h = 1"
    using heap_items_subset [OF h] size_heap_items [OF h] by (auto simp: timers_in_window_def)
  have "fixed_heap_wf (timers_in_window 0 ?tm) timer_manager_sort_timers ?tm ?h"
    using h t items by (auto simp: fixed_heap_wf_def heap_order_def heap_edge_def heap_items_def
        timers_in_window_def)
  then have w: "timer_mgr_wf 0 ?w mgr [t]"
    using wf by (simp add: timer_mgr_wf_def)
  have dis: "timer_disarm w t = (A_OK, ?w)" using t by (simp add: timer_disarm_def)
  obtain w1 where w1: "timer_mgr_wf 0 w1 mgr []"
    and fire: "timer_manager_fire_next call ?w mgr (Some p) =
      (let w2 = call (tmr_fire (tw_timers w t)) t w1
       in do { (r, q) \<leftarrow> fixed_heap_peek_head (Some (armed_timers (tw_mgrs w2 mgr))) (Some t);
               q \<leftarrow> q;
               Some (if AFAILED r then (r, Some 0, w2)
                     else (A_OK, Some (next_firing (tw_timers w2 q)), w2)) })"
    using fire_next_cases [OF w, of now tm call p] now by auto
  have "fixed_heap_peek_head (Some (armed_timers (tw_mgrs w1 mgr))) (Some t) = Some (A_E_EMPTY, Some t)"
    using heap_peek_cases [OF timer_mgr_heap [OF w1]] w1 by (simp add: timer_mgr_wf_def)
  then show ?thesis
    using fire call dis by (auto simp: Let_def)
qed

theorem timer_disarm_does_not_prevent_firing_witness:
  "\<exists>w1. timer_manager_fire_next (\<lambda>f t w. w) (snd (timer_disarm sample_timer_world 0x2000)) 0x1000 (Some 0) =
     Some (A_E_EMPTY, Some 0, w1)"
proof -
  have *: "time_get_time (tw_time sample_timer_world) = Some (7, sample_time\<lparr>tm_clock := 8\<rparr>)"
    by (simp add: sample_timer_world_def sample_time_reads)
  show ?thesis
    using timer_disarm_does_not_prevent_firing [OF sample_timer_world_wf *, of "\<lambda>f t w. w" 0] by auto
qed

lemma take_bit_wraps:
  fixes k :: int
  assumes "2 ^ 31 \<le> k" "k < 2 ^ 32"
  shows "take_bit 32 (k + 2 ^ 31) = k + 2 ^ 31 - 2 ^ 32"
proof -
  have "take_bit 32 (k + 2 ^ 31) = (k - 2 ^ 31 + 2 ^ 32) mod 2 ^ 32"
    by (simp add: take_bit_eq_mod add.commute)
  also have "\<dots> = (k - 2 ^ 31) mod 2 ^ 32" by (rule mod_add_self2)
  also have "\<dots> = k - 2 ^ 31" using assms by (intro mod_pos_pos_trivial) auto
  finally show ?thesis by simp
qed

text \<open>
  The comparator returns a 64-bit difference as an \<open>int\<close>. Deadlines that are between \<open>2 ^ 31\<close> and
  \<open>2 ^ 32\<close> nanoseconds apart are ordered the wrong way round: the later one is treated as due first,
  while deadlines less than \<open>2 ^ 31\<close> apart are ordered by time.
\<close>

theorem timer_sort_window:
  assumes "next_firing (timers l) < next_firing (timers r)"
    and "unat (next_firing (timers r)) - unat (next_firing (timers l)) < 2 ^ 32"
  shows "timer_manager_sort_timers timers l r > 0 \<longleftrightarrow>
         unat (next_firing (timers r)) - unat (next_firing (timers l)) < 2 ^ 31"
proof -
  let ?a = "next_firing (timers r)" and ?b = "next_firing (timers l)"
  let ?k = "int (unat ?a) - int (unat ?b)"
  have "0 < int x - int y \<and> int x - int y < 2 ^ 32 \<and> (x - y < 2 ^ 31 \<longleftrightarrow> int x - int y < 2 ^ 31)"
    if "y < x" "x - y < 2 ^ 32" for x y :: nat
    using that by auto
  then have k: "0 < ?k" "?k < 2 ^ 32" "unat ?a - unat ?b < 2 ^ 31 \<longleftrightarrow> ?k < 2 ^ 31"
    using assms unfolding word_less_nat_alt by blast+
  show ?thesis
  proof (cases "?k < 2 ^ 31")
    case True
    then have "timer_manager_sort_timers timers l r = ?k"
      unfolding timer_manager_sort_timers_def using k by (intro sint_ucast_diff) auto
    then show ?thesis using k True by simp
  next
    case False
    have "uint (ucast (?a - ?b) :: 32 word) = take_bit 32 (take_bit 64 ?k)"
      by (simp add: unsigned_ucast_eq uint_word_ariths(2) take_bit_eq_mod)
    then have "timer_manager_sort_timers timers l r = signed_take_bit 31 ?k"
      by (simp add: timer_manager_sort_timers_def sint_uint signed_take_bit_take_bit)
    also have "\<dots> = take_bit 32 (?k + 2 ^ 31) - 2 ^ 31"
      by (simp add: signed_take_bit_eq_take_bit_shift)
    also have "take_bit 32 (?k + 2 ^ 31) = ?k + 2 ^ 31 - 2 ^ 32"
      using False k take_bit_wraps [of ?k] by simp
    finally show ?thesis using False k by simp
  qed
qed

theorem timer_sort_window_witness:
  "\<not> timer_manager_sort_timers (\<lambda>a. \<lparr>tmr_fire = 0, next_firing = (if a = 1 then 5 else 0x80000005), tmr_mgr = 0\<rparr>) 1 2 > 0"
  using timer_sort_window [of "\<lambda>a. \<lparr>tmr_fire = 0, next_firing = (if a = 1 then 5 else 0x80000005), tmr_mgr = 0\<rparr>" 1 2]
  by simp

end
