(* ===== verification/Timer_Firing.thy ===== *)
theory Timer_Firing
  imports Timer
begin

section \<open>Timers fire in the order of their deadlines\<close>

text \<open>
  The loop of a client that calls \<open>timer_manager_fire_next\<close> as often as there are armed timers, all of them due.
\<close>

fun fire_times :: "(addr \<Rightarrow> addr \<Rightarrow> 'c timer_world \<Rightarrow> 'c timer_world) \<Rightarrow> addr \<Rightarrow> nat \<Rightarrow> 'c timer_world \<Rightarrow>
    ((aresult_t \<times> u64 option) list \<times> 'c timer_world) option" where
  "fire_times call mgr 0 w = Some ([], w)"
| "fire_times call mgr (Suc n) w =
     do { (r, p, w) \<leftarrow> timer_manager_fire_next call w mgr (Some 0);
          (as, w) \<leftarrow> fire_times call mgr n w;
          Some ((r, p) # as, w) }"

text \<open>Functions that change neither timers nor managers nor lists (they may use the time module and whatever its clock is).\<close>

definition leaves_timers :: "(addr \<Rightarrow> addr \<Rightarrow> 'c timer_world \<Rightarrow> 'c timer_world) \<Rightarrow> bool" where
  "leaves_timers call \<longleftrightarrow> (\<forall>f t w. tw_timers (call f t w) = tw_timers w \<and> tw_mgrs (call f t w) = tw_mgrs w \<and>
     tw_list (call f t w) = tw_list w \<and> (time_wf (tw_time w) \<longrightarrow> time_wf (tw_time (call f t w))))"

text \<open>The functions of the timers are called one after the other. Each is called in a state in which its timer is disarmed
  (the rest \<open>ts\<close> is still armed), after one reading of the clock.\<close>

fun fires :: "(addr \<Rightarrow> addr \<Rightarrow> 'c timer_world \<Rightarrow> 'c timer_world) \<Rightarrow> nat \<Rightarrow> addr \<Rightarrow> addr list \<Rightarrow> 'c timer_world \<Rightarrow> 'c timer_world \<Rightarrow> bool" where
  "fires call b mgr [] w w' \<longleftrightarrow> w' = w"
| "fires call b mgr (t # ts) w w' \<longleftrightarrow>
     (\<exists>now tm v us. time_get_time (tw_time w) = Some (now, tm) \<and> tw_time v = tm \<and> tw_timers v = tw_timers w \<and>
        timer_mgr_wf b v mgr us \<and> mset us = mset ts \<and> fires call b mgr ts (call (tmr_fire (tw_timers w t)) t v) w')"

lemma leaves_timers_wf:
  assumes "leaves_timers call" "timer_mgr_wf b v mgr ts"
  shows "timer_mgr_wf b (call f t v) mgr ts"
  using assms by (simp add: leaves_timers_def timer_mgr_wf_def)

text \<open>The answer after a call: the deadline of the timer that is due next.\<close>

lemma peek_earliest:
  assumes wf: "timer_mgr_wf b w mgr ts"
  shows "if ts = [] then fixed_heap_peek_head (Some (armed_timers (tw_mgrs w mgr))) (Some t) = Some (A_E_EMPTY, Some t)
    else \<exists>x \<in> set ts. (\<forall>s \<in> set ts. next_firing (tw_timers w x) \<le> next_firing (tw_timers w s)) \<and>
      fixed_heap_peek_head (Some (armed_timers (tw_mgrs w mgr))) (Some t) = Some (A_OK, Some x)"
proof (cases "ts = []")
  case True
  then show ?thesis using wf heap_peek_cases [OF timer_mgr_heap [OF wf]] by (simp add: timer_mgr_wf_def)
next
  case False
  have tm: "time_wf (tw_time w)" using wf by (simp add: timer_mgr_wf_def)
  obtain x h' where x: "x \<in> set ts" "\<forall>s \<in> set ts. next_firing (tw_timers w x) \<le> next_firing (tw_timers w s)"
    "fixed_heap_peek_head (Some (armed_timers (tw_mgrs w mgr))) (Some NULL) = Some (A_OK, Some x)"
    using earliest_timer [OF wf False tm] by metis
  have "heap_items (armed_timers (tw_mgrs w mgr)) \<noteq> {#}" using wf False by (simp add: timer_mgr_wf_def)
  then show ?thesis
    using x False heap_peek_cases [OF timer_mgr_heap [OF wf], of t] heap_peek_cases [OF timer_mgr_heap [OF wf], of NULL] by auto
qed

lemma fire_due:
  assumes wf: "timer_mgr_wf b w mgr ts" and ts: "ts \<noteq> []" and p: "leaves_timers call"
    and now: "time_get_time (tw_time w) = Some (now, tm)" and due: "\<exists>t \<in> set ts. next_firing (tw_timers w t) \<le> now"
  obtains t v where "t \<in> set ts" "\<forall>s \<in> set ts. next_firing (tw_timers w t) \<le> next_firing (tw_timers w s)"
    "timer_mgr_wf b v mgr (remove1 t ts)" "tw_timers v = tw_timers w" "tw_time v = tm"
    "timer_mgr_wf b (call (tmr_fire (tw_timers w t)) t v) mgr (remove1 t ts)"
    "tw_timers (call (tmr_fire (tw_timers w t)) t v) = tw_timers w"
    "if remove1 t ts = []
     then timer_manager_fire_next call w mgr (Some 0) = Some (A_E_EMPTY, Some 0, call (tmr_fire (tw_timers w t)) t v)
     else \<exists>x \<in> set (remove1 t ts). (\<forall>s \<in> set (remove1 t ts). next_firing (tw_timers w x) \<le> next_firing (tw_timers w s)) \<and>
       timer_manager_fire_next call w mgr (Some 0) =
         Some (A_OK, Some (next_firing (tw_timers w x)), call (tmr_fire (tw_timers w t)) t v)"
proof -
  obtain t where t: "t \<in> set ts" "\<forall>s \<in> set ts. next_firing (tw_timers w t) \<le> next_firing (tw_timers w s)"
    and c: "if now < next_firing (tw_timers w t)
             then timer_manager_fire_next call w mgr (Some 0) = Some (A_OK, Some (next_firing (tw_timers w t)), w\<lparr>tw_time := tm\<rparr>)
             else \<exists>w1. timer_mgr_wf b w1 mgr (remove1 t ts) \<and> tw_timers w1 = tw_timers w \<and> tw_time w1 = tm \<and>
                    timer_manager_fire_next call w mgr (Some 0) =
                      (let w2 = call (tmr_fire (tw_timers w t)) t w1
                       in do { (r, q) \<leftarrow> fixed_heap_peek_head (Some (armed_timers (tw_mgrs w2 mgr))) (Some t);
                               q \<leftarrow> q;
                               Some (if AFAILED r then (r, Some 0, w2)
                                     else (A_OK, Some (next_firing (tw_timers w2 q)), w2)) })"
    using fire_next_cases [OF wf now, of call 0] unfolding if_not_P [OF ts] by blast
  have "\<not> now < next_firing (tw_timers w t)" using due t(2) by (meson not_less order_trans)
  then obtain v where v: "timer_mgr_wf b v mgr (remove1 t ts)" "tw_timers v = tw_timers w" "tw_time v = tm"
    and f: "timer_manager_fire_next call w mgr (Some 0) =
                      (let w2 = call (tmr_fire (tw_timers w t)) t v
                       in do { (r, q) \<leftarrow> fixed_heap_peek_head (Some (armed_timers (tw_mgrs w2 mgr))) (Some t);
                               q \<leftarrow> q;
                               Some (if AFAILED r then (r, Some 0, w2)
                                     else (A_OK, Some (next_firing (tw_timers w2 q)), w2)) })"
    using c by auto
  let ?v = "call (tmr_fire (tw_timers w t)) t v"
  have v': "timer_mgr_wf b ?v mgr (remove1 t ts)" "tw_timers ?v = tw_timers w"
    using leaves_timers_wf [OF p v(1)] p v(2) by (simp_all add: leaves_timers_def)
  show ?thesis
    by (rule that [OF t v v'])
      (use f peek_earliest [OF v'(1), of t] v'(2) in \<open>auto simp: Let_def split: if_splits\<close>)
qed

text \<open>A set of states of the time module that readings and calls do not leave and in which the time read is at least \<open>d\<close>.\<close>

definition clock_past :: "(addr \<Rightarrow> addr \<Rightarrow> 'c timer_world \<Rightarrow> 'c timer_world) \<Rightarrow> 'c time_state set \<Rightarrow> u64 \<Rightarrow> bool" where
  "clock_past call Q d \<longleftrightarrow> (\<forall>tm \<in> Q. \<exists>now tm'. time_get_time tm = Some (now, tm') \<and> d \<le> now \<and> tm' \<in> Q) \<and>
     (\<forall>f t w. tw_time w \<in> Q \<longrightarrow> tw_time (call f t w) \<in> Q)"

lemma all_fire:
  assumes "timer_mgr_wf b w mgr ts" "leaves_timers call" "ts \<noteq> []" "clock_past call Q d"
    and "tw_time w \<in> Q" "\<forall>t \<in> set ts. next_firing (tw_timers w t) \<le> d"
  shows "\<exists>order w'. mset order = mset ts \<and> sorted (map (\<lambda>t. next_firing (tw_timers w t)) order) \<and>
    fires call b mgr order w w' \<and> timer_mgr_wf b w' mgr [] \<and>
    fire_times call mgr (length ts) w =
      Some (map (\<lambda>t. (A_OK, Some (next_firing (tw_timers w t)))) (tl order) @ [(A_E_EMPTY, Some 0)], w')"
  using assms
proof (induction "length ts" arbitrary: ts w)
  case (Suc n)
  obtain now tm where r: "time_get_time (tw_time w) = Some (now, tm)" "d \<le> now" "tm \<in> Q"
    using Suc.prems(4,5) unfolding clock_past_def by blast
  then have now: "time_get_time (tw_time w) = Some (now, tm)" "\<forall>t \<in> set ts. next_firing (tw_timers w t) \<le> now"
    using Suc.prems(6) by (auto intro: order.trans)
  have due: "\<exists>t \<in> set ts. next_firing (tw_timers w t) \<le> now" using now(2) Suc.prems(3) by (cases ts) auto
  obtain t v where t: "t \<in> set ts" "\<forall>s \<in> set ts. next_firing (tw_timers w t) \<le> next_firing (tw_timers w s)"
    and v: "timer_mgr_wf b v mgr (remove1 t ts)" "tw_timers v = tw_timers w" "tw_time v = tm"
    and v': "timer_mgr_wf b (call (tmr_fire (tw_timers w t)) t v) mgr (remove1 t ts)"
      "tw_timers (call (tmr_fire (tw_timers w t)) t v) = tw_timers w"
    and f: "if remove1 t ts = []
     then timer_manager_fire_next call w mgr (Some 0) = Some (A_E_EMPTY, Some 0, call (tmr_fire (tw_timers w t)) t v)
     else \<exists>x \<in> set (remove1 t ts). (\<forall>s \<in> set (remove1 t ts). next_firing (tw_timers w x) \<le> next_firing (tw_timers w s)) \<and>
       timer_manager_fire_next call w mgr (Some 0) =
         Some (A_OK, Some (next_firing (tw_timers w x)), call (tmr_fire (tw_timers w t)) t v)"
    by (rule fire_due [OF Suc.prems(1,3,2) now(1) due])
  let ?v = "call (tmr_fire (tw_timers w t)) t v" and ?r = "remove1 t ts"
  have n: "n = length ?r" using Suc.hyps(2) t(1) by (simp add: length_remove1)
  have ms: "mset ts = add_mset t (mset ?r)" using t(1) by simp
  have sub: "set ?r \<subseteq> set ts" by (rule set_remove1_subset)
  show ?case
  proof (cases "?r = []")
    case True
    then have "n = 0" "mset [t] = mset ts" using n ms by simp_all
    moreover have "fires call b mgr [t] w ?v" using now v True by (auto intro!: exI [of _ v])
    ultimately show ?thesis
      using f True v'(1) Suc.hyps(2) by (intro exI [of _ "[t]"] exI [of _ ?v]) (simp flip: Suc.hyps(2))
  next
    case False
    have "tw_time ?v \<in> Q" "\<forall>t \<in> set ?r. next_firing (tw_timers ?v t) \<le> d"
      using Suc.prems(4,6) r(3) v(3) sub unfolding v'(2) clock_past_def by auto
    from Suc.hyps(1) [OF n v'(1) Suc.prems(2) False Suc.prems(4) this] obtain order w' where o: "mset order = mset ?r"
      "sorted (map (\<lambda>t. next_firing (tw_timers w t)) order)" "fires call b mgr order ?v w'" "timer_mgr_wf b w' mgr []"
      "fire_times call mgr (length ?r) ?v =
        Some (map (\<lambda>t. (A_OK, Some (next_firing (tw_timers w t)))) (tl order) @ [(A_E_EMPTY, Some 0)], w')"
      unfolding v'(2) by blast
    obtain x where x: "x \<in> set ?r" "\<forall>s \<in> set ?r. next_firing (tw_timers w x) \<le> next_firing (tw_timers w s)"
      "timer_manager_fire_next call w mgr (Some 0) = Some (A_OK, Some (next_firing (tw_timers w x)), ?v)"
      using f False by auto
    have so: "set order = set ?r" using o(1) by (metis set_mset_mset)
    then obtain y ys where y: "order = y # ys" using False by (cases order) auto
    have "y \<in> set ?r" "x \<in> set (y # ys)" using so x(1) y by auto
    then have "next_firing (tw_timers w x) \<le> next_firing (tw_timers w y)" "next_firing (tw_timers w y) \<le> next_firing (tw_timers w x)"
      using x(2) o(2) y by auto
    then have "next_firing (tw_timers w y) = next_firing (tw_timers w x)" by (rule order.antisym [rotated])
    moreover have "sorted (map (\<lambda>t. next_firing (tw_timers w t)) (t # order))" using o(2) t(2) so sub by auto
    moreover have "fires call b mgr (t # order) w w'" using now(1) v o(1,3) by (auto intro!: exI [of _ v] exI [of _ ?r])
    moreover have "mset (t # order) = mset ts" using ms o(1) by simp
    moreover have "length ts = Suc (length ?r)" using n Suc.hyps(2) by simp
    then have "fire_times call mgr (length ts) w = Some ((A_OK, Some (next_firing (tw_timers w x))) #
        map (\<lambda>t. (A_OK, Some (next_firing (tw_timers w t)))) (tl order) @ [(A_E_EMPTY, Some 0)], w')"
      by (simp add: x(3) o(5))
    ultimately show ?thesis
      using o(4) unfolding y by (intro exI [of _ "t # y # ys"] exI [of _ w'] conjI) simp_all
  qed
qed simp

subsection \<open>Properties\<close>

text \<open>Claim C16. A manager whose armed timers are all due, served by as many calls of \<open>timer_manager_fire_next\<close>: the function of each
  timer is called exactly once, in the order of the deadlines, with the timer off the heap and the list; every call but the last answers
  A_OK with the deadline of the timer that comes next, the last one A_E_EMPTY; afterwards the manager is empty and well-formed. The
  deadlines lie within 2 to the 31 nanoseconds, where the comparator is an order, and the functions leave timers and managers alone.\<close>

theorem timers_fire_in_order:
  assumes "timer_mgr_wf b w mgr ts" "leaves_timers call" "ts \<noteq> []" "clock_past call Q d"
    and "tw_time w \<in> Q" "\<forall>t \<in> set ts. next_firing (tw_timers w t) \<le> d"
  shows "\<exists>order w'. mset order = mset ts \<and> sorted (map (\<lambda>t. next_firing (tw_timers w t)) order) \<and>
    fires call b mgr order w w' \<and> timer_mgr_wf b w' mgr [] \<and>
    fire_times call mgr (length ts) w =
      Some (map (\<lambda>t. (A_OK, Some (next_firing (tw_timers w t)))) (tl order) @ [(A_E_EMPTY, Some 0)], w')"
  using all_fire [OF assms] .

text \<open>Two timers, due at 50 and at 20; the clock reads 100, and the functions write the addresses of their timers to a log.\<close>

definition log_source :: "addr list time_source" where
  "log_source = \<lparr>ts_ops = Some \<lparr>get_timestamp = Some (\<lambda>src c. (100, c)), set_time = Some (\<lambda>src t c. c)\<rparr>, ts_name = ''log'', ts_priv = NULL\<rparr>"

definition log_time :: "addr list time_state" where
  "log_time = snd (time_set_default_source (time_boot (\<lambda>c. (\<lparr>tv_sec = 0, tv_nsec = 100\<rparr>, c)) [] (\<lambda>_. log_source)) 0x100)"

definition log_call :: "addr \<Rightarrow> addr \<Rightarrow> addr list timer_world \<Rightarrow> addr list timer_world" where
  "log_call f t w = w\<lparr>tw_time := (tw_time w)\<lparr>tm_clock := tm_clock (tw_time w) @ [t]\<rparr>\<rparr>"

definition due_world :: "addr list timer_world" where
  "due_world =
     \<lparr>tw_timers = (\<lambda>a. \<lparr>tmr_fire = 0x400, next_firing = (if a = 0x2000 then 50 else 20), tmr_mgr = 0x1000\<rparr>),
      tw_mgrs = (\<lambda>_. \<lparr>armed_timers = \<lparr>fh_heap = Some [0x3000, 0x2000], fh_capacity = 2, fh_entries = 2,
                                      fh_compare = Some timer_manager_sort_timers\<rparr>\<rparr>),
      tw_list = list_append (list_append (list_init (\<lambda>_. \<lparr>le_prev = 0, le_next = 0\<rparr>) 0x1020) 0x1020 0x2010) 0x1020 0x3010,
      tw_time = log_time\<rparr>"

lemma log_time_wf: "time_wf (log_time\<lparr>tm_clock := c\<rparr>)"
  by (simp add: log_time_def time_boot_def time_set_default_source_def log_source_def time_wf_def source_usable_def SYSTEM_TIME_def)

lemma log_time_reads: "time_get_time (log_time\<lparr>tm_clock := c\<rparr>) = Some (100, log_time\<lparr>tm_clock := c\<rparr>)"
  by (simp add: log_time_def time_boot_def time_set_default_source_def log_source_def time_get_time_def source_read_def SYSTEM_TIME_def)

lemma due_world_wf: "timer_mgr_wf 0 due_world 0x1000 [0x2000, 0x3000]"
proof -
  have "is_list (list_append (list_append (list_init (\<lambda>_. \<lparr>le_prev = 0, le_next = 0\<rparr>) 0x1020) 0x1020 0x2010) 0x1020 0x3010) 0x1020
      (([] @ [0x2010]) @ [0x3010])"
    by (intro is_list_append is_list_init) simp_all
  moreover have "time_wf log_time" using log_time_wf [of "tm_clock log_time"] by simp
  ultimately show ?thesis
    by (simp add: timer_mgr_wf_def due_world_def live_timers_def tnode_def heap_items_def heap_slots_def fixed_heap_wf_def
        heap_order_def heap_edge_def timers_in_window_def timer_manager_sort_timers_def)
qed

theorem timers_fire_in_order_witness:
  "\<exists>w'. fire_times log_call 0x1000 2 due_world = Some ([(A_OK, Some 50), (A_E_EMPTY, Some 0)], w') \<and>
     tm_clock (tw_time w') = [0x3000, 0x2000]"
proof -
  let ?Q = "range (\<lambda>c. log_time\<lparr>tm_clock := c\<rparr>)"
  have q: "log_time \<in> ?Q" by (rule range_eqI [of _ _ "tm_clock log_time"]) simp
  have "leaves_timers log_call" "clock_past log_call ?Q 100" "tw_time due_world \<in> ?Q"
    using q by (auto simp: leaves_timers_def log_call_def clock_past_def log_time_reads due_world_def)
  moreover have "\<forall>t \<in> set [0x2000, 0x3000]. next_firing (tw_timers due_world t) \<le> 100" by (simp add: due_world_def)
  ultimately obtain order w' where o: "mset order = mset [0x2000, 0x3000]" "sorted (map (\<lambda>t. next_firing (tw_timers due_world t)) order)"
    "fires log_call 0 0x1000 order due_world w'"
    "fire_times log_call 0x1000 (length [0x2000, 0x3000 :: addr]) due_world =
       Some (map (\<lambda>t. (A_OK, Some (next_firing (tw_timers due_world t)))) (tl order) @ [(A_E_EMPTY, Some 0)], w')"
    using timers_fire_in_order [OF due_world_wf, of log_call ?Q 100] by blast
  have "length order = 2" using arg_cong [OF o(1), of size] by simp
  then obtain x y where xy: "order = [x, y]" by (auto simp: numeral_2_eq_2 length_Suc_conv)
  then have "{x, y} = {0x2000, 0x3000}" using arg_cong [OF o(1), of set_mset] by simp
  then have "(x = 0x2000 \<and> y = 0x3000) \<or> (x = 0x3000 \<and> y = 0x2000)" by (auto simp: doubleton_eq_iff)
  then have ord: "order = [0x3000, 0x2000]" using o(2) xy by (auto simp: due_world_def)
  have "tm_clock log_time = []"
    by (simp add: log_time_def time_boot_def time_set_default_source_def log_source_def SYSTEM_TIME_def)
  then have "tm_clock (tw_time w') = [0x3000, 0x2000]"
    using o(3) unfolding ord
    by (auto simp: log_call_def due_world_def log_time_reads [of "tm_clock log_time", simplified] log_time_reads dest!: sym [of "log_time\<lparr>tm_clock := c\<rparr>" for c])
  then show ?thesis using o(4) ord by (simp add: due_world_def numeral_2_eq_2)
qed

end
