(* ===== verification/Timer_Sequences.thy ===== *)
theory Timer_Sequences
  imports Call_Sequences Timer_Firing
begin

section \<open>Timer managers under sequences of calls\<close>

text \<open>
  A manager under any sequence of calls that arm timers or fire the next one is a map from timers to deadlines. The state of the
  specification is this map and the state of the time module: a call reads the clock, and the functions of the timers act on it.
  Which one of several timers with the earliest deadline fires is left open. The calls are those of a caller; the code is
  that of \<open>Timer\<close>. \<open>timer_disarm\<close> is not among them: it breaks the order of the heap.
\<close>

subsection \<open>Calls and their specification\<close>

datatype timer_call = TC_Arm addr u64 | TC_Arm_At addr u64 | TC_Fire

type_synonym timer_answer = "aresult_t \<times> u64 option"

text \<open>The functions of the timers: what the one at address \<open>f\<close>, called with the timer \<open>t\<close>, does to the time module.\<close>

type_synonym 'c timer_action = "addr \<Rightarrow> addr \<Rightarrow> 'c time_state \<Rightarrow> 'c time_state"

definition act_on_time :: "'c timer_action \<Rightarrow> addr \<Rightarrow> addr \<Rightarrow> 'c timer_world \<Rightarrow> 'c timer_world" where
  "act_on_time act f t w = w\<lparr>tw_time := act f t (tw_time w)\<rparr>"

definition timer_call_run :: "'c timer_action \<Rightarrow> addr \<Rightarrow> 'c timer_world \<Rightarrow> timer_call \<Rightarrow> (timer_answer \<times> 'c timer_world) option" where
  "timer_call_run act mgr w c = (case c of
     TC_Arm t us \<Rightarrow> do { (r, w) \<leftarrow> timer_arm w t mgr us; Some ((r, None), w) }
   | TC_Arm_At t d \<Rightarrow> do { (r, w) \<leftarrow> timer_arm_at w t mgr d; Some ((r, None), w) }
   | TC_Fire \<Rightarrow> do { (r, p, w) \<leftarrow> timer_manager_fire_next (act_on_time act) w mgr (Some 0); Some ((r, p), w) })"

type_synonym 'c timer_spec = "(addr \<rightharpoonup> u64) \<times> 'c time_state"

definition earliest :: "(addr \<rightharpoonup> u64) \<Rightarrow> addr \<Rightarrow> u64 \<Rightarrow> bool" where
  "earliest M t d \<longleftrightarrow> M t = Some d \<and> (\<forall>s \<in> dom M. d \<le> the (M s))"

fun timer_allowed :: "'c timer_action \<Rightarrow> (addr \<Rightarrow> addr) \<Rightarrow> 'c timer_spec \<Rightarrow> timer_call \<Rightarrow> timer_answer \<Rightarrow> 'c timer_spec \<Rightarrow> bool" where
  "timer_allowed act fn (M, tm) (TC_Arm_At t d) r a \<longleftrightarrow> r = (A_OK, None) \<and> a = (M(t \<mapsto> d), tm)"
| "timer_allowed act fn (M, tm) (TC_Arm t us) r a \<longleftrightarrow>
     (\<exists>now tm1. time_get_time tm = Some (now, tm1) \<and> r = (A_OK, None) \<and> a = (M(t \<mapsto> now + us * 1000), tm1))"
| "timer_allowed act fn (M, tm) TC_Fire r a \<longleftrightarrow>
     (if dom M = {} then r = (A_OK, Some 0) \<and> a = (M, tm)
      else \<exists>t d now tm1. earliest M t d \<and> time_get_time tm = Some (now, tm1) \<and>
        (if now < d then r = (A_OK, Some d) \<and> a = (M, tm1)
         else a = (M(t := None), act (fn t) t tm1) \<and>
           (if dom M = {t} then r = (A_E_EMPTY, Some 0) else \<exists>s e. earliest (M(t := None)) s e \<and> r = (A_OK, Some e))))"

text \<open>The caller arms a timer that is not armed, with room in the heap and a deadline in the window that starts at \<open>b\<close>.\<close>

definition may_arm :: "nat \<Rightarrow> addr \<Rightarrow> nat \<Rightarrow> (addr \<rightharpoonup> u64) \<Rightarrow> addr \<Rightarrow> u64 \<Rightarrow> bool" where
  "may_arm b mgr n M t d \<longleftrightarrow>
     t \<noteq> NULL \<and> tnode t \<noteq> live_timers mgr \<and> M t = None \<and> card (dom M) < n \<and> b \<le> unat d \<and> unat d < b + 2 ^ 31"

definition timer_call_legal :: "nat \<Rightarrow> addr \<Rightarrow> nat \<Rightarrow> 'c timer_spec \<Rightarrow> timer_call \<Rightarrow> bool" where
  "timer_call_legal b mgr n a c \<longleftrightarrow> (case c of
     TC_Arm_At t d \<Rightarrow> may_arm b mgr n (fst a) t d
   | TC_Arm t us \<Rightarrow> 0 < us \<and> (\<forall>now tm. time_get_time (snd a) = Some (now, tm) \<longrightarrow> may_arm b mgr n (fst a) t (now + us * 1000))
   | TC_Fire \<Rightarrow> True)"

definition deadlines :: "timer_mem \<Rightarrow> addr list \<Rightarrow> (addr \<rightharpoonup> u64)" where
  "deadlines timers ts = (\<lambda>t. if t \<in> set ts then Some (next_firing (timers t)) else None)"

definition timer_rel :: "nat \<Rightarrow> addr \<Rightarrow> nat \<Rightarrow> (addr \<Rightarrow> addr) \<Rightarrow> 'c timer_world \<Rightarrow> 'c timer_spec \<Rightarrow> bool" where
  "timer_rel b mgr n fn w a \<longleftrightarrow>
     (\<exists>ts. timer_mgr_wf b w mgr ts \<and> distinct ts \<and> a = (deadlines (tw_timers w) ts, tw_time w)) \<and>
     fh_capacity (armed_timers (tw_mgrs w mgr)) = n \<and> (\<forall>t. tmr_fire (tw_timers w t) = fn t)"

subsection \<open>What no call changes\<close>

lemma push_capacity: "fixed_heap_push w (Some h) x = Some (r, h') \<Longrightarrow> \<exists>h1. h' = Some h1 \<and> fh_capacity h1 = fh_capacity h"
  by (auto simp: fixed_heap_push_def bind_eq_Some_iff Let_def split: if_splits option.splits)

lemma pop_capacity: "fixed_heap_pop w (Some h) x = Some (r, h', y) \<Longrightarrow> \<exists>h1. h' = Some h1 \<and> fh_capacity h1 = fh_capacity h"
  by (auto simp: fixed_heap_pop_def bind_eq_Some_iff Let_def split: if_splits option.splits)

lemma add_timer_frame:
  assumes "timer_manager_add_timer w t mgr = Some (r, w')"
  shows "fh_capacity (armed_timers (tw_mgrs w' mgr)) = fh_capacity (armed_timers (tw_mgrs w mgr))"
    "tmr_fire (tw_timers w' s) = tmr_fire (tw_timers w s)"
  using assms by (auto simp: timer_manager_add_timer_def Let_def bind_eq_Some_iff split: if_splits dest!: push_capacity)

lemma fire_next_frame:
  assumes "timer_manager_fire_next (act_on_time act) w mgr p = Some (r, q, w')"
  shows "fh_capacity (armed_timers (tw_mgrs w' mgr)) = fh_capacity (armed_timers (tw_mgrs w mgr)) \<and>
    tmr_fire (tw_timers w' s) = tmr_fire (tw_timers w s)"
proof -
  have pop: "fh_capacity (the h) = fh_capacity g" if "fixed_heap_pop tw (Some g) x = Some (r, h, y)" for tw g x r h y
    using pop_capacity [OF that] by auto
  show ?thesis
    using assms
    by (simp add: timer_manager_fire_next_def act_on_time_def Let_def bind_eq_Some_iff split: if_split_asm)
      (elim exE conjE disjE; clarsimp simp: pop)+
qed

lemma act_on_time_leaves: "(\<And>f t tm. time_wf tm \<Longrightarrow> time_wf (act f t tm)) \<Longrightarrow> leaves_timers (act_on_time act)"
  by (simp add: leaves_timers_def act_on_time_def)

subsection \<open>Each call\<close>

lemma dom_deadlines [simp]: "dom (deadlines timers ts) = set ts"
  by (auto simp: deadlines_def split: if_splits)

lemma deadlines_eq: "t \<in> set ts \<Longrightarrow> deadlines timers ts t = Some (next_firing (timers t))" "deadlines timers ts t = None \<longleftrightarrow> t \<notin> set ts"
  by (simp_all add: deadlines_def)

lemma earliest_deadlines:
  "t \<in> set ts \<Longrightarrow> \<forall>s \<in> set ts. next_firing (timers t) \<le> next_firing (timers s) \<Longrightarrow> earliest (deadlines timers ts) t (next_firing (timers t))"
  by (simp add: earliest_def deadlines_eq)

lemma deadlines_remove: "distinct ts \<Longrightarrow> (deadlines timers ts)(t := None) = deadlines timers (remove1 t ts)"
  by (rule ext) (simp add: deadlines_def)

lemma add_armed:
  assumes rel: "timer_rel b mgr n fn w (M, tm)" and ok: "may_arm b mgr n M t d" and tm: "time_wf tm1"
  defines "w0 \<equiv> w\<lparr>tw_time := tm1, tw_timers := (tw_timers w)(t := (tw_timers w t)\<lparr>next_firing := d\<rparr>)\<rparr>"
  shows "\<exists>w'. timer_manager_add_timer w0 t mgr = Some (A_OK, w') \<and> timer_rel b mgr n fn w' (M(t \<mapsto> d), tm1)"
proof -
  obtain ts where ts: "timer_mgr_wf b w mgr ts" "distinct ts" "M = deadlines (tw_timers w) ts"
    and n: "fh_capacity (armed_timers (tw_mgrs w mgr)) = n" and fn: "\<forall>t. tmr_fire (tw_timers w t) = fn t"
    using rel by (auto simp: timer_rel_def)
  have t: "t \<noteq> NULL" "t \<notin> set ts" "tnode t \<notin> set (live_timers mgr # map tnode ts)" "length ts < n"
    using ok ts(2) distinct_card [OF ts(2)] by (auto simp: may_arm_def ts(3) deadlines_eq)
  have wf: "timer_mgr_wf b w0 mgr ts" unfolding w0_def by (rule timer_mgr_wf_set_deadline [OF ts(1) t(2) tm])
  have win: "t \<in> timers_in_window b (tw_timers w0)" using ok by (simp add: w0_def timers_in_window_def may_arm_def)
  have cap: "length ts < fh_capacity (armed_timers (tw_mgrs w0 mgr))" using t(4) n by (simp add: w0_def)
  obtain w' where w': "timer_manager_add_timer w0 t mgr = Some (A_OK, w')"
    "tw_timers w' = (tw_timers w0)(t := (tw_timers w0 t)\<lparr>tmr_mgr := mgr\<rparr>)" "tw_time w' = tm1" "timer_mgr_wf b w' mgr (ts @ [t])"
    using add_timer_correct [OF wf t(1,3) win] cap by (auto simp: w0_def)
  have "deadlines (tw_timers w') (ts @ [t]) = M(t \<mapsto> d)"
    using w'(2) by (intro ext) (simp add: deadlines_def ts(3) w0_def)
  moreover have "\<forall>s. tmr_fire (tw_timers w' s) = fn s" using fn by (simp add: w'(2) w0_def)
  moreover have "fh_capacity (armed_timers (tw_mgrs w' mgr)) = n" using add_timer_frame(1) [OF w'(1)] n by (simp add: w0_def)
  ultimately have "timer_rel b mgr n fn w' (M(t \<mapsto> d), tm1)"
    unfolding timer_rel_def using w'(3,4) ts(2) t(2) by (auto intro!: exI [of _ "ts @ [t]"])
  then show ?thesis using w'(1) by blast
qed

lemma rel_parts:
  assumes "timer_rel b mgr n fn w (M, tm)"
  shows "mgr \<noteq> NULL" "time_wf tm" "tw_time w = tm"
  using assms by (auto simp: timer_rel_def timer_mgr_wf_def)

lemma arm_at_call:
  assumes rel: "timer_rel b mgr n fn w (M, tm)" and ok: "may_arm b mgr n M t d"
  shows "\<exists>w'. timer_call_run act mgr w (TC_Arm_At t d) = Some ((A_OK, None), w') \<and> timer_rel b mgr n fn w' (M(t \<mapsto> d), tm)"
proof -
  have "w\<lparr>tw_time := tm\<rparr> = w" using rel_parts(3) [OF rel] by simp
  then show ?thesis
    using add_armed [OF rel ok rel_parts(2) [OF rel]] rel_parts(1) [OF rel] ok
    by (auto simp: timer_call_run_def timer_arm_at_def may_arm_def Let_def)
qed

lemma arm_call:
  assumes rel: "timer_rel b mgr n fn w (M, tm)" and now: "time_get_time tm = Some (now, tm1)"
    and ok: "may_arm b mgr n M t (now + us * 1000)" and us: "0 < us"
  shows "\<exists>w'. timer_call_run act mgr w (TC_Arm t us) = Some ((A_OK, None), w') \<and> timer_rel b mgr n fn w' (M(t \<mapsto> now + us * 1000), tm1)"
proof -
  have tm1: "time_wf tm1" using time_get_time_returns [OF rel_parts(2) [OF rel]] now rel_parts(2) [OF rel] by auto
  have "timer_arm w t mgr us = timer_manager_add_timer (w\<lparr>tw_time := tm1,
      tw_timers := (tw_timers w)(t := (tw_timers w t)\<lparr>next_firing := now + us * 1000\<rparr>)\<rparr>) t mgr"
    using rel_parts(1,3) [OF rel] ok us now by (simp add: timer_arm_def may_arm_def word_neq_0_conv)
  then show ?thesis using add_armed [OF rel ok tm1] by (auto simp: timer_call_run_def)
qed

lemma allowed_due:
  assumes "earliest M t d" "time_get_time tm = Some (now, tm1)" "\<not> now < d"
    and "if dom M = {t} then r = (A_E_EMPTY, Some 0) else \<exists>s e. earliest (M(t := None)) s e \<and> r = (A_OK, Some e)"
  shows "timer_allowed act fn (M, tm) TC_Fire r (M(t := None), act (fn t) t tm1)"
proof -
  have ne: "dom M \<noteq> {}" using assms(1) by (auto simp: earliest_def)
  show ?thesis
    unfolding timer_allowed.simps if_not_P [OF ne]
    by (intro exI [of _ t] exI [of _ d] exI [of _ now] exI [of _ tm1] conjI) (use assms in simp_all)
qed

lemma fire_keeps_rel:
  assumes "timer_rel b mgr n fn w a" "timer_manager_fire_next (act_on_time act) w mgr (Some 0) = Some (r, q, w')"
    and "timer_mgr_wf b w' mgr us" "distinct us"
  shows "timer_rel b mgr n fn w' (deadlines (tw_timers w') us, tw_time w')"
  using assms fire_next_frame [OF assms(2)] unfolding timer_rel_def by auto

lemma fire_call_due:
  fixes act :: "'c timer_action"
  assumes rel: "timer_rel b mgr n fn w (deadlines (tw_timers w) ts, tm)" and wf: "timer_mgr_wf b w mgr ts" "distinct ts"
    and act: "leaves_timers (act_on_time act)" and now: "time_get_time tm = Some (now, tm1)"
    and due: "ts \<noteq> []" "\<exists>t \<in> set ts. next_firing (tw_timers w t) \<le> now"
  shows "\<exists>r w' a'. timer_call_run act mgr w TC_Fire = Some (r, w') \<and>
    timer_allowed act fn (deadlines (tw_timers w) ts, tm) TC_Fire r a' \<and> timer_rel b mgr n fn w' a'"
proof -
  have fn: "tmr_fire (tw_timers w t) = fn t" for t using rel by (simp add: timer_rel_def)
  have now': "time_get_time (tw_time w) = Some (now, tm1)" using now rel_parts(3) [OF rel] by simp
  let ?M = "deadlines (tw_timers w) ts"
  obtain t v where t: "t \<in> set ts" "\<forall>s \<in> set ts. next_firing (tw_timers w t) \<le> next_firing (tw_timers w s)"
    and v: "timer_mgr_wf b v mgr (remove1 t ts)" "tw_timers v = tw_timers w" "tw_time v = tm1"
    and v': "timer_mgr_wf b (act_on_time act (fn t) t v) mgr (remove1 t ts)"
      "tw_timers (act_on_time act (fn t) t v) = tw_timers w"
    and f: "if remove1 t ts = []
      then timer_manager_fire_next (act_on_time act) w mgr (Some 0) = Some (A_E_EMPTY, Some 0, act_on_time act (fn t) t v)
      else \<exists>x \<in> set (remove1 t ts). (\<forall>s \<in> set (remove1 t ts). next_firing (tw_timers w x) \<le> next_firing (tw_timers w s)) \<and>
        timer_manager_fire_next (act_on_time act) w mgr (Some 0) =
          Some (A_OK, Some (next_firing (tw_timers w x)), act_on_time act (fn t) t v)"
    by (rule fire_due [OF wf(1) due(1) act now' due(2), unfolded fn])
  let ?v = "act_on_time act (fn t) t v" and ?a = "(?M(t := None), act (fn t) t tm1)"
  have le: "\<not> now < next_firing (tw_timers w t)" using due(2) t(2) by (meson not_less order_trans)
  have a: "?a = (deadlines (tw_timers ?v) (remove1 t ts), tw_time ?v)"
    using v(3) wf(2) v'(2) by (simp add: deadlines_remove act_on_time_def)
  have "remove1 t ts = [] \<longleftrightarrow> set ts - {t} = {}" using set_remove1_eq [OF wf(2), of t] by (metis set_empty)
  then have one: "dom ?M = {t} \<longleftrightarrow> remove1 t ts = []" "dom ?M \<noteq> {}" using t(1) by auto
  obtain r q where rq: "timer_manager_fire_next (act_on_time act) w mgr (Some 0) = Some (r, q, ?v)"
    "if dom ?M = {t} then (r, q) = (A_E_EMPTY, Some 0) else \<exists>s e. earliest (?M(t := None)) s e \<and> (r, q) = (A_OK, Some e)"
    using f earliest_deadlines [of _ "remove1 t ts" "tw_timers w"] unfolding one(1) deadlines_remove [OF wf(2)]
    by (cases "remove1 t ts = []") (simp, metis)
  have "timer_allowed act fn (?M, tm) TC_Fire (r, q) ?a"
    by (rule allowed_due [OF earliest_deadlines [OF t] now le rq(2)])
  moreover have "timer_rel b mgr n fn ?v ?a"
    unfolding a by (rule fire_keeps_rel [OF rel rq(1) v'(1)]) (simp add: wf(2))
  moreover have "timer_call_run act mgr w TC_Fire = Some ((r, q), ?v)" using rq(1) by (simp add: timer_call_run_def)
  ultimately show ?thesis by blast
qed

lemma fire_call_early:
  fixes act :: "'c timer_action"
  assumes rel: "timer_rel b mgr n fn w (deadlines (tw_timers w) ts, tm)" and wf: "timer_mgr_wf b w mgr ts" "distinct ts"
    and now: "time_get_time tm = Some (now, tm1)" "time_wf tm1" and late: "ts \<noteq> []" "\<forall>t \<in> set ts. now < next_firing (tw_timers w t)"
  shows "\<exists>r w' a'. timer_call_run act mgr w TC_Fire = Some (r, w') \<and>
    timer_allowed act fn (deadlines (tw_timers w) ts, tm) TC_Fire r a' \<and> timer_rel b mgr n fn w' a'"
proof -
  have now': "time_get_time (tw_time w) = Some (now, tm1)" using now rel_parts(3) [OF rel] by simp
  obtain t where t: "t \<in> set ts" "\<forall>s \<in> set ts. next_firing (tw_timers w t) \<le> next_firing (tw_timers w s)"
    and f: "timer_manager_fire_next (act_on_time act) w mgr (Some 0) = Some (A_OK, Some (next_firing (tw_timers w t)), w\<lparr>tw_time := tm1\<rparr>)"
    using fire_next_cases [OF wf(1) now', of "act_on_time act" 0] late by auto
  have "timer_mgr_wf b (w\<lparr>tw_time := tm1\<rparr>) mgr ts" using wf(1) now(2) by (simp add: timer_mgr_wf_def)
  then have r: "timer_rel b mgr n fn (w\<lparr>tw_time := tm1\<rparr>) (deadlines (tw_timers w) ts, tm1)"
    using fire_keeps_rel [OF rel f _ wf(2)] by simp
  have "set ts \<noteq> {}" using late(1) by simp
  then have "timer_allowed act fn (deadlines (tw_timers w) ts, tm) TC_Fire (A_OK, Some (next_firing (tw_timers w t)))
      (deadlines (tw_timers w) ts, tm1)"
    using now(1) late(2) t(1) earliest_deadlines [OF t] by auto
  moreover have "timer_call_run act mgr w TC_Fire = Some ((A_OK, Some (next_firing (tw_timers w t))), w\<lparr>tw_time := tm1\<rparr>)"
    using f by (simp add: timer_call_run_def)
  ultimately show ?thesis using r by blast
qed

lemma fire_call:
  fixes act :: "'c timer_action"
  assumes rel: "timer_rel b mgr n fn w (M, tm)" and act: "leaves_timers (act_on_time act)"
  shows "\<exists>r w' a'. timer_call_run act mgr w TC_Fire = Some (r, w') \<and> timer_allowed act fn (M, tm) TC_Fire r a' \<and> timer_rel b mgr n fn w' a'"
proof -
  obtain ts where ts: "timer_mgr_wf b w mgr ts" "distinct ts" "M = deadlines (tw_timers w) ts"
    using rel by (auto simp: timer_rel_def)
  note rel' = rel [unfolded ts(3)]
  obtain now tm1 where now: "time_get_time tm = Some (now, tm1)" "time_wf tm1"
    using time_get_time_returns [OF rel_parts(2) [OF rel]] rel_parts(2) [OF rel] by auto
  consider "ts = []" | "ts \<noteq> []" "\<exists>t \<in> set ts. next_firing (tw_timers w t) \<le> now"
    | "ts \<noteq> []" "\<forall>t \<in> set ts. now < next_firing (tw_timers w t)" by (meson not_less)
  then show ?thesis
  proof cases
    case 1
    have "time_get_time (tw_time w) = Some (now, tm1)" using now rel_parts(3) [OF rel] by simp
    then show ?thesis using 1 fire_next_cases [OF ts(1), of now tm1 "act_on_time act" 0] rel
      by (auto simp: timer_call_run_def ts(3))
  next
    case 2
    then show ?thesis unfolding ts(3) by (rule fire_call_due [OF rel' ts(1,2) act now(1)])
  next
    case 3
    then show ?thesis unfolding ts(3) by (rule fire_call_early [OF rel' ts(1,2) now])
  qed
qed

text \<open>The contract, for functions that keep the time module usable.\<close>

locale timer_actions =
  fixes act :: "'c timer_action"
  assumes act_wf: "time_wf tm \<Longrightarrow> time_wf (act f t tm)"

sublocale timer_actions \<subseteq> timer_calls: simulation "timer_call_run act mgr" "timer_allowed act fn" "timer_rel b mgr n fn"
  "timer_call_legal b mgr n" for mgr fn b n
proof unfold_locales
  fix w :: "'c timer_world" and a c
  assume rel: "timer_rel b mgr n fn w a" and legal: "timer_call_legal b mgr n a c"
  obtain M tm where a: "a = (M, tm)" by fastforce
  note rel = rel [unfolded a]
  show "\<exists>r w1 a1. timer_call_run act mgr w c = Some (r, w1) \<and> timer_allowed act fn a c r a1 \<and> timer_rel b mgr n fn w1 a1"
  proof (cases c)
    case (TC_Arm t us)
    obtain now tm1 where now: "time_get_time tm = Some (now, tm1)"
      using time_get_time_returns [OF rel_parts(2) [OF rel]] by auto
    then show ?thesis
      using arm_call [OF rel now, of t us act] legal by (auto simp: TC_Arm a timer_call_legal_def)
  next
    case (TC_Arm_At t d)
    then show ?thesis using arm_at_call [OF rel, of t d act] legal by (auto simp: a timer_call_legal_def)
  next
    case TC_Fire
    then show ?thesis using fire_call [OF rel act_on_time_leaves] act_wf by (simp add: a)
  qed
qed

context timer_actions
begin

lemma calls_are_map_calls:
  assumes "timer_rel b mgr n fn w a" "always_legal (timer_allowed act fn) (timer_call_legal b mgr n) a cs"
  shows "\<exists>rs w' a'. run_calls (timer_call_run act mgr) w cs = Some (rs, w') \<and> spec_runs (timer_allowed act fn) a cs rs a' \<and>
    timer_rel b mgr n fn w' a'"
  by (rule timer_calls.calls_simulated [OF assms])

end

lemma new_manager:
  assumes "mgr \<noteq> NULL" "0 < n" "time_wf (tw_time w)"
  shows "\<exists>w'. timer_manager_new mgr True w (Some q) n = (A_OK, Some mgr, w') \<and>
    timer_rel b mgr (unat n) (\<lambda>t. tmr_fire (tw_timers w t)) w' (Map.empty, tw_time w)"
proof -
  have "is_list (list_init (tw_list w) (live_timers mgr)) (live_timers mgr) []" by (rule is_list_init)
  moreover have "deadlines timers [] = Map.empty" for timers by (rule ext) (simp add: deadlines_def)
  ultimately show ?thesis
    using assms by (auto simp: timer_manager_new_def timer_rel_def timer_mgr_wf_def fixed_heap_new_def fixed_heap_wf_def
      heap_slots_def heap_items_def heap_order_def intro!: exI [of _ "[]"])
qed

subsection \<open>Properties\<close>

text \<open>Claim C14. A manager made by \<open>timer_manager_new\<close>, under any sequence of calls that arm timers which are not armed, with room for
  them and deadlines within a window of 2 to the 31 nanoseconds, or fire the next timer: no call faults, all return, and the
  answers are those of a map from timers to deadlines. A timer fires only when its deadline has passed, after
  all timers with earlier deadlines, exactly once per time that it is armed, and its function is called with the time module as the
  reading of the clock left it. In a state with no timer left the call that fires answers A_E_EMPTY.\<close>

theorem timer_sequences_correct:
  fixes act :: "'c timer_action" and w0 :: "'c timer_world"
  assumes "mgr \<noteq> NULL" "0 < n" "time_wf (tw_time w0)" "\<And>f t tm. time_wf tm \<Longrightarrow> time_wf (act f t tm)"
    and "timer_manager_new mgr True w0 (Some q) n = (r0, p, w)"
    and "always_legal (timer_allowed act fn) (timer_call_legal b mgr (unat n)) (Map.empty, tw_time w0) cs"
    and "fn = (\<lambda>t. tmr_fire (tw_timers w0 t))"
  shows "r0 = A_OK \<and> p = Some mgr \<and> (\<exists>rs w' M ts. run_calls (timer_call_run act mgr) w cs = Some (rs, w') \<and>
    spec_runs (timer_allowed act fn) (Map.empty, tw_time w0) cs rs (M, tw_time w') \<and>
    timer_mgr_wf b w' mgr ts \<and> M = (\<lambda>t. if t \<in> set ts then Some (next_firing (tw_timers w' t)) else None))"
proof -
  have new: "r0 = A_OK" "p = Some mgr" "timer_rel b mgr (unat n) fn w (Map.empty, tw_time w0)"
    using new_manager [OF assms(1-3), of q b] assms(5,7) by auto
  have "timer_actions act" by unfold_locales (rule assms(4))
  then obtain rs w' a' where "run_calls (timer_call_run act mgr) w cs = Some (rs, w')"
    "spec_runs (timer_allowed act fn) (Map.empty, tw_time w0) cs rs a'" "timer_rel b mgr (unat n) fn w' a'"
    using timer_actions.calls_are_map_calls [OF _ new(3) assms(6)] by blast
  then show ?thesis using new(1,2) unfolding timer_rel_def deadlines_def by blast
qed

text \<open>A manager for two timers and a clock that reads 100: one timer is due at 50, the other one microsecond from now. The first
  call that fires calls the function of the first timer, the second one only reports the deadline of the other.\<close>

definition log_act :: "addr list timer_action" where
  "log_act f t tm = tm\<lparr>tm_clock := tm_clock tm @ [t]\<rparr>"

interpretation log: timer_actions log_act
  by unfold_locales (simp add: log_act_def)

lemma log_time_reads_any: "time_get_time log_time = Some (100, log_time)"
  using log_time_reads [of "tm_clock log_time"] by simp

lemma earliest_two:
  "earliest [0x2000 \<mapsto> 50, 0x3000 \<mapsto> 1100] t d \<longleftrightarrow> t = 0x2000 \<and> d = 50"
  "earliest [0x3000 \<mapsto> 1100] t d \<longleftrightarrow> t = 0x3000 \<and> d = 1100"
  by (auto simp: earliest_def split: if_splits)

lemma drop_first: "[0x2000 \<mapsto> 50, 0x3000 \<mapsto> 1100](0x2000 := None) = [0x3000 :: addr \<mapsto> 1100 :: u64]"
  by (rule ext) simp

theorem timer_sequences_correct_witness:
  "\<exists>w w'. timer_manager_new 0x1000 True due_world (Some 0) 2 = (A_OK, Some 0x1000, w) \<and>
     run_calls (timer_call_run log_act 0x1000) w [TC_Arm_At 0x2000 50, TC_Arm 0x3000 1, TC_Fire, TC_Fire] =
       Some ([(A_OK, None), (A_OK, None), (A_OK, Some 1100), (A_OK, Some 1100)], w') \<and>
     tm_clock (tw_time w') = [0x2000]"
proof -
  let ?cs = "[TC_Arm_At 0x2000 50, TC_Arm 0x3000 1, TC_Fire, TC_Fire]" and ?fn = "\<lambda>t :: addr. 0x400 :: addr"
  have c: "tm_clock log_time = []"
    by (simp add: log_time_def time_boot_def time_set_default_source_def log_source_def SYSTEM_TIME_def)
  have tm: "tw_time due_world = log_time" "?fn = (\<lambda>t. tmr_fire (tw_timers due_world t))" by (simp_all add: due_world_def)
  have wf: "time_wf log_time" using log_time_wf [of "tm_clock log_time"] by simp
  have n: "(0x1000 :: addr) \<noteq> NULL" "(0 :: u64) < 2" "time_wf (tw_time due_world)" using wf by (simp_all add: tm(1))
  obtain r0 p w where new: "timer_manager_new 0x1000 True due_world (Some 0) 2 = (r0, p, w)" by (metis prod_cases3)
  have leg: "always_legal (timer_allowed log_act ?fn) (timer_call_legal 0 0x1000 (unat (2 :: u64))) (Map.empty, tw_time due_world) ?cs"
    by (simp add: tm timer_call_legal_def may_arm_def log_time_reads_any tnode_def live_timers_def)
  obtain rs w' M ts where run: "r0 = A_OK" "p = Some 0x1000" "run_calls (timer_call_run log_act 0x1000) w ?cs = Some (rs, w')"
    "spec_runs (timer_allowed log_act ?fn) (Map.empty, log_time) ?cs rs (M, tw_time w')"
    using timer_sequences_correct [OF n log.act_wf new leg tm(2)] unfolding tm(1) by blast
  from run(4) have "rs = [(A_OK, None), (A_OK, None), (A_OK, Some 1100), (A_OK, Some 1100)] \<and> tm_clock (tw_time w') = [0x2000]"
    by (auto simp: log_time_reads_any earliest_two drop_first log_act_def c log_time_reads)
  then show ?thesis using run(1-3) new by auto
qed

end
