(* ===== verification/Bounded_Queue.thy ===== *)
theory Bounded_Queue
  imports TSL_Result
begin

section \<open>The contract of a bounded FIFO queue\<close>

text \<open>
  Two components of the library offer their clients a bounded first-in first-out queue: the
  megaqueue (a producer fills slots, a reader empties them) and the work queue (pushes and pops of
  work items). \<open>bounded_fifo\<close> is that contract over the operations that the client calls, and its
  lemmas show once that any sequence of these calls behaves as a queue on lists.
\<close>

datatype 'v fifo_cmd = Enqueue 'v | Dequeue

text \<open>The reference: a list with room for \<open>cap\<close> items; \<open>full\<close> and \<open>emp\<close> are the error codes.\<close>

fun fifo_run :: "nat \<Rightarrow> aresult_t \<Rightarrow> aresult_t \<Rightarrow> 'v list \<Rightarrow> 'v fifo_cmd list \<Rightarrow>
    (aresult_t \<times> 'v option) list \<times> 'v list" where
  "fifo_run cap full emp xs [] = ([], xs)"
| "fifo_run cap full emp xs (Enqueue v # cs) =
     (let (r, xs') = (if length xs < cap then (A_OK, xs @ [v]) else (full, xs));
          (out, zs) = fifo_run cap full emp xs' cs
      in ((r, None) # out, zs))"
| "fifo_run cap full emp xs (Dequeue # cs) =
     (let (r, v, xs') = (case xs of [] \<Rightarrow> (emp, None, []) | x # ys \<Rightarrow> (A_OK, Some x, ys));
          (out, zs) = fifo_run cap full emp xs' cs
      in ((r, v) # out, zs))"

text \<open>The same commands on an implementation.\<close>

fun queue_run :: "('s \<Rightarrow> 'v \<Rightarrow> (aresult_t \<times> 's) option) \<Rightarrow> ('s \<Rightarrow> (aresult_t \<times> 'v option \<times> 's) option) \<Rightarrow>
    's \<Rightarrow> 'v fifo_cmd list \<Rightarrow> ((aresult_t \<times> 'v option) list \<times> 's) option" where
  "queue_run enq deq s [] = Some ([], s)"
| "queue_run enq deq s (Enqueue v # cs) =
     do { (r, s) \<leftarrow> enq s v; (out, s) \<leftarrow> queue_run enq deq s cs; Some ((r, None) # out, s) }"
| "queue_run enq deq s (Dequeue # cs) =
     do { (r, v, s) \<leftarrow> deq s; (out, s) \<leftarrow> queue_run enq deq s cs; Some ((r, v) # out, s) }"

fun cmd_values :: "'v fifo_cmd list \<Rightarrow> 'v set" where
  "cmd_values [] = {}"
| "cmd_values (Enqueue v # cs) = insert v (cmd_values cs)"
| "cmd_values (Dequeue # cs) = cmd_values cs"

locale bounded_fifo =
  fixes V :: "'v set" and inv :: "'s \<Rightarrow> bool" and items :: "'s \<Rightarrow> 'v list" and cap :: nat
    and full :: aresult_t and emp :: aresult_t
    and enq :: "'s \<Rightarrow> 'v \<Rightarrow> (aresult_t \<times> 's) option"
    and deq :: "'s \<Rightarrow> (aresult_t \<times> 'v option \<times> 's) option"
  assumes enq_ok: "inv s \<Longrightarrow> v \<in> V \<Longrightarrow> length (items s) < cap \<Longrightarrow>
      \<exists>s'. enq s v = Some (A_OK, s') \<and> inv s' \<and> items s' = items s @ [v]"
    and enq_full: "inv s \<Longrightarrow> v \<in> V \<Longrightarrow> \<not> length (items s) < cap \<Longrightarrow>
      \<exists>s'. enq s v = Some (full, s') \<and> inv s' \<and> items s' = items s"
    and deq_ok: "inv s \<Longrightarrow> items s = x # xs \<Longrightarrow>
      \<exists>s'. deq s = Some (A_OK, Some x, s') \<and> inv s' \<and> items s' = xs"
    and deq_empty: "inv s \<Longrightarrow> items s = [] \<Longrightarrow>
      \<exists>s'. deq s = Some (emp, None, s') \<and> inv s' \<and> items s' = []"
begin

lemma run_refines:
  "inv s \<Longrightarrow> cmd_values cs \<subseteq> V \<Longrightarrow>
   \<exists>s'. queue_run enq deq s cs = Some (fst (fifo_run cap full emp (items s) cs), s') \<and> inv s' \<and>
        items s' = snd (fifo_run cap full emp (items s) cs)"
proof (induction cs arbitrary: s)
  case (Cons c cs)
  show ?case
  proof (cases c)
    case (Enqueue v)
    then have v: "v \<in> V" "cmd_values cs \<subseteq> V" using Cons.prems by auto
    obtain r s' where s': "enq s v = Some (r, s')" "inv s'"
      "(r, items s') = (if length (items s) < cap then (A_OK, items s @ [v]) else (full, items s))"
      using enq_ok [OF Cons.prems(1) v(1)] enq_full [OF Cons.prems(1) v(1)]
      by (cases "length (items s) < cap") auto
    then show ?thesis
      using Cons.IH [OF s'(2) v(2)] Enqueue
      by (auto simp: Let_def case_prod_unfold split: if_splits)
  next
    case Dequeue
    then have v: "cmd_values cs \<subseteq> V" using Cons.prems by auto
    obtain r y s' where s': "deq s = Some (r, y, s')" "inv s'"
      "(r, y, items s') = (case items s of [] \<Rightarrow> (emp, None, []) | x # ys \<Rightarrow> (A_OK, Some x, ys))"
      using deq_ok [OF Cons.prems(1)] deq_empty [OF Cons.prems(1)] by (cases "items s") auto
    then show ?thesis
      using Cons.IH [OF s'(2) v] Dequeue
      by (auto simp: Let_def case_prod_unfold split: list.splits)
  qed
qed simp

end

end
