(* ===== verification/Megaqueue.thy ===== *)
theory Megaqueue
  imports Bounded_Queue
begin

section \<open>Shared-memory ring queue (tsl/megaqueue)\<close>

text \<open>
  A megaqueue is a ring of fixed-size slots behind a header page in shared memory. The header holds
  the producer's position \<open>head\<close>, the reader's position \<open>tail\<close> and the position \<open>_delete\<close> up to which
  slots may be reused; every process has its own \<open>struct megaqueue\<close> that points to the header.
  \<open>mq_mem\<close> is the memory of headers. Contents of slots are caller data at the slot addresses.

  The calls into the operating system (\<open>asprintf\<close>, \<open>shm_open\<close>, \<open>ftruncate\<close>, \<open>read\<close>, \<open>mmap\<close>) are
  represented by their results, in \<open>mq_os\<close>; the calls that release something are recorded in a list.
\<close>

subsection \<open>State\<close>

record megaqueue_header =
  mh_head :: u64
  mh_tail :: u64
  mh_delete :: u64
  producer_pid :: u64
  mh_object_size :: u64
  mh_object_count :: u64

record megaqueue =
  mq_object_size :: u32
  mq_object_count :: u32
  writable_start :: addr
  mq_region :: addr
  region_size :: u64
  rgn_name :: "string option"
  mq_hdr :: addr
  mq_fd :: int

type_synonym mq_mem = "addr \<Rightarrow> megaqueue_header"

text \<open>\<open>MEGAQUEUE_EMPTY\<close>\<close>

definition MEGAQUEUE_EMPTY :: "megaqueue \<Rightarrow> megaqueue" where
  "MEGAQUEUE_EMPTY q = q\<lparr>writable_start := NULL, mq_region := NULL, region_size := 0, rgn_name := None,
                         mq_hdr := NULL, mq_fd := -1\<rparr>"

definition MEGAQUEUE_NAME_PREFIX :: string where
  "MEGAQUEUE_NAME_PREFIX = ''megaqueue_''"

subsection \<open>Positions\<close>

text \<open>The remainder of a division by zero is a fault.\<close>

definition mod_checked :: "u64 \<Rightarrow> u64 \<Rightarrow> u64 option" where
  "mod_checked a b = (if b = 0 then None else Some (a mod b))"

definition count64 :: "megaqueue \<Rightarrow> u64" where "count64 q = ucast (mq_object_count q)"

text \<open>\<open>__megaqueue_is_full\<close>, \<open>__megaqueue_is_empty\<close>, \<open>__megaqueue_can_delete\<close>\<close>

definition megaqueue_is_full :: "mq_mem \<Rightarrow> megaqueue \<Rightarrow> bool option" where
  "megaqueue_is_full m q =
     do { n \<leftarrow> mod_checked (mh_head (m (mq_hdr q)) + 1) (count64 q);
          Some (mh_delete (m (mq_hdr q)) = n) }"

definition megaqueue_is_empty :: "mq_mem \<Rightarrow> megaqueue \<Rightarrow> bool" where
  "megaqueue_is_empty m q \<longleftrightarrow> mh_tail (m (mq_hdr q)) = mh_head (m (mq_hdr q))"

definition megaqueue_can_delete :: "mq_mem \<Rightarrow> megaqueue \<Rightarrow> bool" where
  "megaqueue_can_delete m q \<longleftrightarrow> mh_tail (m (mq_hdr q)) = mh_delete (m (mq_hdr q))"

definition slot_address :: "megaqueue \<Rightarrow> u64 \<Rightarrow> addr" where
  "slot_address q i = writable_start q + ucast (mq_object_size q) * i"

subsection \<open>Producer and reader operations\<close>

definition megaqueue_next_slot ::
  "mq_mem \<Rightarrow> megaqueue option \<Rightarrow> addr option \<Rightarrow> (aresult_t \<times> addr option) option" where
  "megaqueue_next_slot m queue slot =
     (case queue of
        None \<Rightarrow> Some (A_E_BADARGS, slot)
      | Some q \<Rightarrow>
          if \<not> slot \<noteq> None then Some (A_E_BADARGS, slot)
          else do { full \<leftarrow> megaqueue_is_full m q;
                    if full then Some (A_E_NOSPC, slot)
                    else Some (A_OK, Some (slot_address q (mh_head (m (mq_hdr q))))) })"

definition megaqueue_advance :: "mq_mem \<Rightarrow> megaqueue option \<Rightarrow> (aresult_t \<times> mq_mem) option" where
  "megaqueue_advance m queue =
     (case queue of
        None \<Rightarrow> Some (A_E_BADARGS, m)
      | Some q \<Rightarrow>
          do { full \<leftarrow> megaqueue_is_full m q;
               if \<not> full then
                 do { offset \<leftarrow> mod_checked (mh_head (m (mq_hdr q)) + 1) (count64 q);
                      Some (A_OK, m(mq_hdr q := (m (mq_hdr q))\<lparr>mh_head := offset\<rparr>)) }
               else Some (A_E_NOSPC, m) })"

definition megaqueue_read_next_slot ::
  "mq_mem \<Rightarrow> megaqueue option \<Rightarrow> addr option \<Rightarrow> aresult_t \<times> addr option" where
  "megaqueue_read_next_slot m queue slot =
     (case queue of
        None \<Rightarrow> (A_E_BADARGS, slot)
      | Some q \<Rightarrow>
          if \<not> slot \<noteq> None then (A_E_BADARGS, slot)
          else if \<not> megaqueue_is_empty m q then
            (A_OK, Some (slot_address q (mh_tail (m (mq_hdr q)))))
          else (A_E_EMPTY, Some NULL))"

definition megaqueue_read_advance :: "mq_mem \<Rightarrow> megaqueue option \<Rightarrow> (aresult_t \<times> mq_mem) option" where
  "megaqueue_read_advance m queue =
     (case queue of
        None \<Rightarrow> Some (A_E_BADARGS, m)
      | Some q \<Rightarrow>
          if \<not> megaqueue_is_empty m q then
            do { offset \<leftarrow> mod_checked (mh_tail (m (mq_hdr q)) + 1) (count64 q);
                 Some (A_OK, m(mq_hdr q := (m (mq_hdr q))\<lparr>mh_tail := offset, mh_delete := offset\<rparr>)) }
          else Some (A_E_EMPTY, m))"

definition megaqueue_read_only_advance :: "mq_mem \<Rightarrow> megaqueue option \<Rightarrow> (aresult_t \<times> mq_mem) option" where
  "megaqueue_read_only_advance m queue =
     (case queue of
        None \<Rightarrow> Some (A_E_BADARGS, m)
      | Some q \<Rightarrow>
          if \<not> megaqueue_is_empty m q then
            do { offset \<leftarrow> mod_checked (mh_tail (m (mq_hdr q)) + 1) (count64 q);
                 Some (A_OK, m(mq_hdr q := (m (mq_hdr q))\<lparr>mh_tail := offset\<rparr>)) }
          else Some (A_E_EMPTY, m))"

definition megaqueue_delete_advance :: "mq_mem \<Rightarrow> megaqueue option \<Rightarrow> (aresult_t \<times> mq_mem) option" where
  "megaqueue_delete_advance m queue =
     (case queue of
        None \<Rightarrow> Some (A_E_BADARGS, m)
      | Some q \<Rightarrow>
          if \<not> megaqueue_can_delete m q then
            do { offset \<leftarrow> mod_checked (mh_delete (m (mq_hdr q)) + 1) (count64 q);
                 Some (A_OK, m(mq_hdr q := (m (mq_hdr q))\<lparr>mh_delete := offset\<rparr>)) }
          else Some (A_E_EMPTY, m))"

subsection \<open>Opening and closing\<close>

definition KB :: "u64 \<Rightarrow> u64" where "KB x = x * 1024"
definition MB :: "u64 \<Rightarrow> u64" where "MB x = KB (x * 1024)"

definition MAP_FAILED :: addr where "MAP_FAILED = -1"
definition O_CREAT :: u32 where "O_CREAT = 0x40"
definition O_RDWR :: u32 where "O_RDWR = 2"
definition O_WRONLY :: u32 where "O_WRONLY = 1"

datatype os_call =
    Munmap addr u64
  | Close int
  | Shm_unlink "string option"

record mq_os =
  os_page_size :: u64
  os_pid :: u64
  os_name_ok :: bool
  os_shm_open :: int
  os_ftruncate_ok :: bool
  os_read :: "megaqueue_header option"
  os_mmap :: addr

definition megaqueue_prepare_superblock :: "u64 \<Rightarrow> mq_mem \<Rightarrow> addr \<Rightarrow> u64 \<Rightarrow> u64 \<Rightarrow> aresult_t \<times> mq_mem" where
  "megaqueue_prepare_superblock pid m base obj_size obj_count =
     (if \<not> base \<noteq> NULL then (A_E_BADARGS, m)
      else (A_OK, m(base := (m base)\<lparr>mh_head := 0, producer_pid := pid,
                                     mh_object_size := obj_size, mh_object_count := obj_count\<rparr>)))"

text \<open>\<open>__megaqueue_prefault_range\<close>: the addresses of the 32-bit words it writes \<open>0xdead\<close> to. The page
  size is positive.\<close>

definition megaqueue_prefault_range :: "addr \<Rightarrow> u64 \<Rightarrow> u64 \<Rightarrow> aresult_t \<times> addr list" where
  "megaqueue_prefault_range base bytes page_size =
     (let page_mask = NOT (page_size - 1);
          page_base = page_size - 1;
          page_count = ((bytes - 1) AND page_mask) div page_size
      in if \<not> 0 < bytes then (A_E_BADARGS, [])
         else if \<not> base \<noteq> NULL then (A_E_BADARGS, [])
         else if \<not> base AND page_base = 0 then (A_E_BADARGS, [])
         else (A_OK, map (\<lambda>i. base + of_nat i * page_size) [0..<unat page_count]))"

text \<open>Of the header fields only the low half of \<open>head\<close> is at an address that is prefaulted.\<close>

definition prefault_header :: "addr list \<Rightarrow> mq_mem \<Rightarrow> addr \<Rightarrow> mq_mem" where
  "prefault_header touched m base =
     (if base \<in> set touched
      then m(base := (m base)\<lparr>mh_head := (mh_head (m base) AND NOT 0xffffffff) OR 0xdead\<rparr>)
      else m)"

text \<open>The failure path of \<open>megaqueue_open\<close> (label \<open>done\<close>).\<close>

definition open_cleanup :: "addr \<Rightarrow> u64 \<Rightarrow> int \<Rightarrow> os_call list" where
  "open_cleanup mapping queue_size qfd =
     (if mapping \<noteq> NULL then [Munmap mapping queue_size] else []) @ (if 0 \<le> qfd then [Close qfd] else [])"

definition prefetch_size :: "u64 \<Rightarrow> u64 \<Rightarrow> u64" where
  "prefetch_size queue_size page_size =
     (let prefetch = (if queue_size > MB 512 then MB 512 else queue_size + page_size - 1)
      in (prefetch + page_size - 1) AND NOT (page_size - 1))"

text \<open>Result code, queue, header memory and the releasing calls.\<close>

definition megaqueue_open ::
  "mq_os \<Rightarrow> mq_mem \<Rightarrow> megaqueue option \<Rightarrow> u32 \<Rightarrow> string option \<Rightarrow> u64 \<Rightarrow> u64 \<Rightarrow>
   aresult_t \<times> megaqueue option \<times> mq_mem \<times> os_call list" where
  "megaqueue_open os m queue mode queue_name obj_size obj_count =
     (let page_size = os_page_size os; queue_size = obj_size * obj_count + page_size in
      case (queue, queue_name) of
        (None, _) \<Rightarrow> (A_E_BADARGS, queue, m, [])
      | (Some q, None) \<Rightarrow> (A_E_BADARGS, queue, m, [])
      | (Some q, Some name) \<Rightarrow>
        if \<not> 0 \<noteq> length name then (A_E_BADARGS, queue, m, [])
        else
          let queue_name_alloc = ''/'' @ MEGAQUEUE_NAME_PREFIX @ name; qfd = os_shm_open os in
          if \<not> os_name_ok os then (A_E_NOMEM, queue, m, open_cleanup MAP_FAILED queue_size (-1))
          else if qfd < 0 then (A_E_INVAL, queue, m, open_cleanup MAP_FAILED queue_size qfd)
          else if mode AND O_CREAT \<noteq> 0 \<and> \<not> os_ftruncate_ok os then
            (A_E_INVAL, queue, m, open_cleanup MAP_FAILED queue_size qfd)
          else if mode AND O_CREAT = 0 \<and> os_read os = None then
            (A_E_INVAL, queue, m, open_cleanup MAP_FAILED queue_size qfd)
          else
            let (queue_size, obj_count) =
                  (if mode AND O_CREAT \<noteq> 0 then (queue_size, obj_count)
                   else let h = the (os_read os)
                        in (mh_object_count h * mh_object_size h + page_size, mh_object_count h));
                mapping = os_mmap os
            in if mapping = MAP_FAILED then (A_E_INVAL, queue, m, open_cleanup MAP_FAILED queue_size qfd)
               else
                 let opened = (\<lambda>count m.
                       (A_OK, Some (q\<lparr>mq_region := mapping, mq_object_size := ucast obj_size,
                                      mq_object_count := ucast count, mq_fd := qfd,
                                      region_size := queue_size, mq_hdr := mapping,
                                      writable_start := mapping + page_size,
                                      rgn_name := Some queue_name_alloc\<rparr>), m, []))
                 in if mode AND O_CREAT \<noteq> 0 then
                      let (r, touched) = megaqueue_prefault_range mapping (prefetch_size queue_size page_size)
                                           page_size;
                          m = prefault_header touched m mapping;
                          (r, m) = megaqueue_prepare_superblock (os_pid os) m mapping obj_size obj_count
                      in opened obj_count m
                    else if mh_object_size (m mapping) < obj_size then
                      (A_E_INVAL, queue, m, open_cleanup mapping queue_size qfd)
                    else if mh_object_count (m mapping) = 0 then
                      (A_E_INVAL, queue, m, open_cleanup mapping queue_size qfd)
                    else opened (mh_object_count (m mapping)) m)"

definition megaqueue_zero :: megaqueue where
  "megaqueue_zero = \<lparr>mq_object_size = 0, mq_object_count = 0, writable_start = NULL, mq_region = NULL,
                     region_size = 0, rgn_name = None, mq_hdr = NULL, mq_fd = 0\<rparr>"

definition megaqueue_close ::
  "megaqueue option \<Rightarrow> bool \<Rightarrow> aresult_t \<times> megaqueue option \<times> os_call list" where
  "megaqueue_close queue unlink =
     (case queue of
        None \<Rightarrow> (A_E_BADARGS, None, [])
      | Some q \<Rightarrow>
          (A_OK, Some megaqueue_zero,
           (if mq_region q \<noteq> NULL \<and> 0 < region_size q then [Munmap (mq_region q) (region_size q)] else []) @
           (if mq_fd q > -1 then [Close (mq_fd q)] else []) @
           (if unlink then [Shm_unlink (rgn_name q)] else [])))"

subsection \<open>Ring positions\<close>

definition ring_dist :: "nat \<Rightarrow> nat \<Rightarrow> nat \<Rightarrow> nat" where
  "ring_dist n a b = (if a \<le> b then b - a else b + n - a)"

definition ring_slots :: "nat \<Rightarrow> nat \<Rightarrow> nat \<Rightarrow> nat list" where
  "ring_slots n a b = map (\<lambda>i. (a + i) mod n) [0..<ring_dist n a b]"

definition ring_next :: "nat \<Rightarrow> nat \<Rightarrow> nat" where "ring_next n a = (a + 1) mod n"

lemma ring_next_cases: "a < n \<Longrightarrow> ring_next n a = (if a + 1 = n then 0 else a + 1)"
  by (simp add: ring_next_def)

lemma ring_next_less [simp]: "a < n \<Longrightarrow> ring_next n a < n"
  by (simp add: ring_next_def)

lemma ring_dist_less: "a < n \<Longrightarrow> b < n \<Longrightarrow> ring_dist n a b < n"
  by (auto simp: ring_dist_def)

lemma ring_dist_refl [simp]: "ring_dist n a a = 0"
  by (simp add: ring_dist_def)

lemma ring_dist_0_iff: "a < n \<Longrightarrow> b < n \<Longrightarrow> ring_dist n a b = 0 \<longleftrightarrow> a = b"
  by (auto simp: ring_dist_def)

lemma ring_dist_next:
  "a < n \<Longrightarrow> b < n \<Longrightarrow> a \<noteq> ring_next n b \<Longrightarrow> ring_dist n a (ring_next n b) = Suc (ring_dist n a b)"
  by (auto simp: ring_dist_def ring_next_cases)

lemma ring_dist_from_next:
  "a < n \<Longrightarrow> b < n \<Longrightarrow> a \<noteq> b \<Longrightarrow> Suc (ring_dist n (ring_next n a) b) = ring_dist n a b"
  by (auto simp: ring_dist_def ring_next_cases)

lemma ring_full_iff: "a < n \<Longrightarrow> b < n \<Longrightarrow> a = ring_next n b \<longleftrightarrow> Suc (ring_dist n a b) = n"
  by (auto simp: ring_dist_def ring_next_cases)

lemma ring_dist_add:
  "a < n \<Longrightarrow> b < n \<Longrightarrow> c < n \<Longrightarrow> ring_dist n a b + ring_dist n b c < n \<Longrightarrow>
   ring_dist n a c = ring_dist n a b + ring_dist n b c"
  by (auto simp: ring_dist_def split: if_splits)

lemma ring_at_dist: "a < n \<Longrightarrow> b < n \<Longrightarrow> (a + ring_dist n a b) mod n = b"
  by (auto simp: ring_dist_def)

lemma length_ring_slots [simp]: "length (ring_slots n a b) = ring_dist n a b"
  by (simp add: ring_slots_def)

lemma ring_slots_snoc:
  "a < n \<Longrightarrow> b < n \<Longrightarrow> a \<noteq> ring_next n b \<Longrightarrow> ring_slots n a (ring_next n b) = ring_slots n a b @ [b]"
  by (simp add: ring_slots_def ring_dist_next ring_at_dist)

lemma ring_slots_Cons:
  assumes "a < n" "b < n" "a \<noteq> b"
  shows "ring_slots n a b = a # ring_slots n (ring_next n a) b"
proof -
  have "ring_dist n a b = Suc (ring_dist n (ring_next n a) b)" using ring_dist_from_next assms by simp
  then have "ring_slots n a b = (a mod n) # map (\<lambda>i. (a + Suc i) mod n) [0..<ring_dist n (ring_next n a) b]"
    by (simp only: ring_slots_def upt_conv_Cons [OF zero_less_Suc] list.map map_Suc_upt [symmetric])
       (simp add: comp_def)
  then show ?thesis
    using assms by (simp add: ring_slots_def ring_next_def mod_simps ac_simps)
qed

lemma ring_slots_refl [simp]: "ring_slots n a a = []"
  by (simp add: ring_slots_def)

lemma ring_slots_less: "0 < n \<Longrightarrow> x \<in> set (ring_slots n a b) \<Longrightarrow> x < n"
  by (auto simp: ring_slots_def)

text \<open>The producer's slot is not one of the slots in use.\<close>

lemma ring_head_not_used:
  assumes "a < n" "b < n"
  shows "b \<notin> set (ring_slots n a b)"
proof
  assume "b \<in> set (ring_slots n a b)"
  then obtain i where i: "i < ring_dist n a b" "(a + i) mod n = b" by (auto simp: ring_slots_def)
  have "ring_dist n a b < n" using assms by (rule ring_dist_less)
  moreover have "(a + i) mod n = (if a + i < n then a + i else a + i - n)"
    using i(1) assms(1) calculation mod_less [of "a + i - n" n] by (auto simp: le_mod_geq)
  ultimately show False
    using i assms by (auto simp: ring_dist_def split: if_splits)
qed

subsection \<open>Invariant and contents\<close>

definition mq_count :: "megaqueue \<Rightarrow> nat" where "mq_count q = unat (mq_object_count q)"

definition mq_head :: "mq_mem \<Rightarrow> megaqueue \<Rightarrow> nat" where "mq_head m q = unat (mh_head (m (mq_hdr q)))"
definition mq_tail :: "mq_mem \<Rightarrow> megaqueue \<Rightarrow> nat" where "mq_tail m q = unat (mh_tail (m (mq_hdr q)))"
definition mq_delete :: "mq_mem \<Rightarrow> megaqueue \<Rightarrow> nat" where "mq_delete m q = unat (mh_delete (m (mq_hdr q)))"

text \<open>The slots that wait for the reader, and those that are read but not yet deleted.\<close>

definition mq_pending :: "mq_mem \<Rightarrow> megaqueue \<Rightarrow> nat list" where
  "mq_pending m q = ring_slots (mq_count q) (mq_tail m q) (mq_head m q)"

definition mq_retired :: "mq_mem \<Rightarrow> megaqueue \<Rightarrow> nat list" where
  "mq_retired m q = ring_slots (mq_count q) (mq_delete m q) (mq_tail m q)"

definition megaqueue_wf :: "mq_mem \<Rightarrow> megaqueue \<Rightarrow> bool" where
  "megaqueue_wf m q \<longleftrightarrow>
     mq_head m q < mq_count q \<and> mq_tail m q < mq_count q \<and> mq_delete m q < mq_count q \<and>
     length (mq_retired m q) + length (mq_pending m q) < mq_count q"

lemma count64_count: "unat (count64 q) = mq_count q"
  by (simp add: count64_def mq_count_def unsigned_ucast_eq take_bit_nat_eq_self unsigned_less
      less_trans [OF unsigned_less])

lemma mq_count_bound: "mq_count q < 2 ^ 32"
  using unsigned_less [of "mq_object_count q"] by (simp add: mq_count_def)

lemma mod_checked_next:
  assumes "unat w < mq_count q"
  shows "\<exists>w'. mod_checked (w + 1) (count64 q) = Some w' \<and> unat w' = ring_next (mq_count q) (unat w)"
proof -
  have "count64 q \<noteq> 0" using assms count64_count [of q] by auto
  moreover have "unat (w + 1) = unat w + 1"
    using assms mq_count_bound [of q] by (simp add: unat_word_ariths)
  ultimately show ?thesis
    by (simp add: mod_checked_def unat_mod_distrib ring_next_def count64_count)
qed

lemma is_full_iff:
  assumes "megaqueue_wf m q"
  shows "megaqueue_is_full m q =
         Some (Suc (length (mq_retired m q) + length (mq_pending m q)) = mq_count q)"
proof -
  let ?n = "mq_count q"
  from assms have lt: "mq_head m q < ?n" "mq_tail m q < ?n" "mq_delete m q < ?n"
    and tot: "ring_dist ?n (mq_delete m q) (mq_tail m q) + ring_dist ?n (mq_tail m q) (mq_head m q) < ?n"
    by (auto simp: megaqueue_wf_def mq_pending_def mq_retired_def)
  obtain w where w: "mod_checked (mh_head (m (mq_hdr q)) + 1) (count64 q) = Some w"
    "unat w = ring_next ?n (mq_head m q)"
    using mod_checked_next [of "mh_head (m (mq_hdr q))" q] lt by (auto simp: mq_head_def)
  have "mh_delete (m (mq_hdr q)) = w \<longleftrightarrow> mq_delete m q = ring_next ?n (mq_head m q)"
    using w(2) by (simp add: mq_delete_def word_unat_eq_iff)
  then show ?thesis
    using w(1) lt ring_full_iff [of "mq_delete m q" ?n "mq_head m q"]
      ring_dist_add [OF lt(3,2,1) tot]
    by (simp add: megaqueue_is_full_def mq_pending_def mq_retired_def)
qed

lemma is_empty_iff:
  "megaqueue_wf m q \<Longrightarrow> megaqueue_is_empty m q \<longleftrightarrow> mq_pending m q = []"
  using ring_dist_0_iff [of "mq_tail m q" "mq_count q" "mq_head m q"]
  by (auto simp: megaqueue_wf_def megaqueue_is_empty_def mq_pending_def ring_slots_def mq_head_def mq_tail_def
      simp flip: word_unat_eq_iff)

lemma can_delete_iff:
  "megaqueue_wf m q \<Longrightarrow> megaqueue_can_delete m q \<longleftrightarrow> mq_retired m q = []"
  using ring_dist_0_iff [of "mq_delete m q" "mq_count q" "mq_tail m q"]
  by (auto simp: megaqueue_wf_def megaqueue_can_delete_def mq_retired_def ring_slots_def mq_delete_def mq_tail_def
      simp flip: word_unat_eq_iff)

text \<open>Moving one position at a time.\<close>

lemma advance_correct:
  assumes wf: "megaqueue_wf m q"
    and room: "Suc (length (mq_retired m q) + length (mq_pending m q)) < mq_count q"
  shows "\<exists>m'. megaqueue_advance m (Some q) = Some (A_OK, m') \<and> megaqueue_wf m' q \<and>
              mq_pending m' q = mq_pending m q @ [mq_head m q] \<and> mq_retired m' q = mq_retired m q"
proof -
  let ?n = "mq_count q"
  from wf have lt: "mq_head m q < ?n" "mq_tail m q < ?n" "mq_delete m q < ?n"
    and tot: "ring_dist ?n (mq_delete m q) (mq_tail m q) + ring_dist ?n (mq_tail m q) (mq_head m q) < ?n"
    by (auto simp: megaqueue_wf_def mq_pending_def mq_retired_def)
  obtain w where w: "mod_checked (mh_head (m (mq_hdr q)) + 1) (count64 q) = Some w"
    "unat w = ring_next ?n (mq_head m q)"
    using mod_checked_next [of "mh_head (m (mq_hdr q))" q] lt by (auto simp: mq_head_def)
  let ?m = "m(mq_hdr q := (m (mq_hdr q))\<lparr>mh_head := w\<rparr>)"
  have m: "mq_head ?m q = ring_next ?n (mq_head m q)" "mq_tail ?m q = mq_tail m q" "mq_delete ?m q = mq_delete m q"
    by (simp_all add: mq_head_def mq_tail_def mq_delete_def w(2))
  have "mq_tail m q \<noteq> ring_next ?n (mq_head m q)"
    using room ring_full_iff [of "mq_tail m q" ?n "mq_head m q"] lt
    by (auto simp: mq_pending_def mq_retired_def)
  then have "mq_pending ?m q = mq_pending m q @ [mq_head m q]" "mq_retired ?m q = mq_retired m q"
    using lt by (simp_all add: mq_pending_def mq_retired_def m ring_slots_snoc)
  moreover have "megaqueue_advance m (Some q) = Some (A_OK, ?m)"
    using is_full_iff [OF wf] room w(1) by (simp add: megaqueue_advance_def)
  ultimately show ?thesis
    using lt room by (auto simp: megaqueue_wf_def m)
qed

lemma read_only_advance_correct:
  assumes wf: "megaqueue_wf m q" and p: "mq_pending m q = x # xs"
  shows "\<exists>m'. megaqueue_read_only_advance m (Some q) = Some (A_OK, m') \<and> megaqueue_wf m' q \<and>
              mq_pending m' q = xs \<and> mq_retired m' q = mq_retired m q @ [x] \<and> x = mq_tail m q"
proof -
  let ?n = "mq_count q"
  from wf have lt: "mq_head m q < ?n" "mq_tail m q < ?n" "mq_delete m q < ?n"
    and tot: "ring_dist ?n (mq_delete m q) (mq_tail m q) + ring_dist ?n (mq_tail m q) (mq_head m q) < ?n"
    by (auto simp: megaqueue_wf_def mq_pending_def mq_retired_def)
  obtain w where w: "mod_checked (mh_tail (m (mq_hdr q)) + 1) (count64 q) = Some w"
    "unat w = ring_next ?n (mq_tail m q)"
    using mod_checked_next [of "mh_tail (m (mq_hdr q))" q] lt by (auto simp: mq_tail_def)
  let ?m = "m(mq_hdr q := (m (mq_hdr q))\<lparr>mh_tail := w\<rparr>)"
  have m: "mq_tail ?m q = ring_next ?n (mq_tail m q)" "mq_head ?m q = mq_head m q" "mq_delete ?m q = mq_delete m q"
    by (simp_all add: mq_head_def mq_tail_def mq_delete_def w(2))
  have ne: "mq_tail m q \<noteq> mq_head m q" using p by (auto simp: mq_pending_def)
  then have x: "x = mq_tail m q" "mq_pending ?m q = xs"
    using p ring_slots_Cons [of "mq_tail m q" ?n "mq_head m q"] lt by (auto simp: mq_pending_def m)
  have "mq_delete m q \<noteq> ring_next ?n (mq_tail m q)"
    using tot ne ring_full_iff [of "mq_delete m q" ?n "mq_tail m q"] ring_dist_0_iff lt by fastforce
  then have "mq_retired ?m q = mq_retired m q @ [x]"
    using lt x by (simp add: mq_retired_def m ring_slots_snoc)
  moreover have "megaqueue_read_only_advance m (Some q) = Some (A_OK, ?m)"
    using is_empty_iff [OF wf] p w(1) by (simp add: megaqueue_read_only_advance_def)
  ultimately show ?thesis
    using lt x wf p by (auto simp: megaqueue_wf_def m)
qed

lemma delete_advance_correct:
  assumes wf: "megaqueue_wf m q" and p: "mq_retired m q = x # xs"
  shows "\<exists>m'. megaqueue_delete_advance m (Some q) = Some (A_OK, m') \<and> megaqueue_wf m' q \<and>
              mq_pending m' q = mq_pending m q \<and> mq_retired m' q = xs"
proof -
  let ?n = "mq_count q"
  from wf have lt: "mq_head m q < ?n" "mq_tail m q < ?n" "mq_delete m q < ?n"
    by (auto simp: megaqueue_wf_def)
  obtain w where w: "mod_checked (mh_delete (m (mq_hdr q)) + 1) (count64 q) = Some w"
    "unat w = ring_next ?n (mq_delete m q)"
    using mod_checked_next [of "mh_delete (m (mq_hdr q))" q] lt by (auto simp: mq_delete_def)
  let ?m = "m(mq_hdr q := (m (mq_hdr q))\<lparr>mh_delete := w\<rparr>)"
  have m: "mq_delete ?m q = ring_next ?n (mq_delete m q)" "mq_head ?m q = mq_head m q" "mq_tail ?m q = mq_tail m q"
    by (simp_all add: mq_head_def mq_tail_def mq_delete_def w(2))
  have "mq_delete m q \<noteq> mq_tail m q" using p by (auto simp: mq_retired_def)
  then have "mq_retired ?m q = xs" "mq_pending ?m q = mq_pending m q"
    using p ring_slots_Cons [of "mq_delete m q" ?n "mq_tail m q"] lt
    by (auto simp: mq_retired_def mq_pending_def m)
  moreover have "megaqueue_delete_advance m (Some q) = Some (A_OK, ?m)"
    using can_delete_iff [OF wf] p w(1) by (simp add: megaqueue_delete_advance_def)
  ultimately show ?thesis
    using lt wf p by (auto simp: megaqueue_wf_def m)
qed

text \<open>Slots are disjoint: no two positions of the ring share an address.\<close>

lemma slot_address_inj:
  assumes "unat i < mq_count q" "unat j < mq_count q" "mq_object_size q \<noteq> 0"
    and "slot_address q i = slot_address q j"
  shows "i = j"
proof -
  let ?s = "ucast (mq_object_size q) :: u64"
  have s: "unat ?s = unat (mq_object_size q)"
    by (simp add: unsigned_ucast_eq take_bit_nat_eq_self less_trans [OF unsigned_less])
  have prod: "unat (?s * k) = unat (mq_object_size q) * unat k" if "unat k < mq_count q" for k :: u64
  proof -
    have "unat (mq_object_size q) * unat k < 2 ^ 32 * 2 ^ 32"
      using that mq_count_bound [of q] unsigned_less [of "mq_object_size q"]
      by (intro mult_strict_mono) auto
    then show ?thesis using s by (simp add: unat_word_ariths)
  qed
  have "?s * i = ?s * j" using assms(4) by (simp add: slot_address_def)
  then have "unat (mq_object_size q) * unat i = unat (mq_object_size q) * unat j"
    using prod [OF assms(1)] prod [OF assms(2)] by metis
  then have "unat i = unat j" using assms(3) by (simp add: unat_eq_0)
  then show ?thesis by (rule word_unat_eq_iff [THEN iffD2])
qed

subsection \<open>Producing and consuming values\<close>

text \<open>The use that the header describes: the producer fills the slot of \<open>megaqueue_next_slot\<close> and
  advances; the reader copies the slot of \<open>megaqueue_read_next_slot\<close>, advances and deletes. The state
  is the header memory and the contents of the slots.\<close>

definition mq_produce :: "megaqueue \<Rightarrow> mq_mem \<times> (addr \<Rightarrow> 'v) \<Rightarrow> 'v \<Rightarrow> (aresult_t \<times> mq_mem \<times> (addr \<Rightarrow> 'v)) option" where
  "mq_produce q s v =
     (let (m, d) = s in
      do { (r, slot) \<leftarrow> megaqueue_next_slot m (Some q) (Some NULL);
           if AFAILED r then Some (r, m, d)
           else do { p \<leftarrow> slot;
                     let d = d(p := v);
                     (r, m) \<leftarrow> megaqueue_advance m (Some q);
                     Some (r, m, d) } })"

definition mq_consume :: "megaqueue \<Rightarrow> mq_mem \<times> (addr \<Rightarrow> 'v) \<Rightarrow> (aresult_t \<times> 'v option \<times> mq_mem \<times> (addr \<Rightarrow> 'v)) option" where
  "mq_consume q s =
     (let (m, d) = s; (r, slot) = megaqueue_read_next_slot m (Some q) (Some NULL) in
      if AFAILED r then Some (r, None, m, d)
      else do { p \<leftarrow> slot;
                let v = d p;
                (r, m) \<leftarrow> megaqueue_read_only_advance m (Some q);
                (r', m) \<leftarrow> megaqueue_delete_advance m (Some q);
                Some (r', Some v, m, d) })"

definition mq_inv :: "megaqueue \<Rightarrow> mq_mem \<times> (addr \<Rightarrow> 'v) \<Rightarrow> bool" where
  "mq_inv q s \<longleftrightarrow> megaqueue_wf (fst s) q \<and> mq_retired (fst s) q = [] \<and> mq_object_size q \<noteq> 0"

definition mq_values :: "megaqueue \<Rightarrow> mq_mem \<times> (addr \<Rightarrow> 'v) \<Rightarrow> 'v list" where
  "mq_values q s = map (\<lambda>i. snd s (slot_address q (of_nat i))) (mq_pending (fst s) q)"

lemma unat_of_nat_count: "i < mq_count q \<Longrightarrow> unat (of_nat i :: u64) = i"
  using mq_count_bound [of q] by (simp add: unat_of_nat)

lemma slot_write_other:
  assumes wf: "megaqueue_wf m q" and "mq_object_size q \<noteq> 0" and i: "i \<in> set (mq_pending m q)"
  shows "slot_address q (of_nat i) \<noteq> slot_address q (mh_head (m (mq_hdr q)))"
proof
  assume eq: "slot_address q (of_nat i) = slot_address q (mh_head (m (mq_hdr q)))"
  have lt: "mq_head m q < mq_count q" "mq_tail m q < mq_count q" using wf by (auto simp: megaqueue_wf_def)
  have "i < mq_count q" 
    using ring_slots_less [of "mq_count q" i "mq_tail m q" "mq_head m q"] i lt(1)
    unfolding mq_pending_def by linarith
  then have u: "unat (of_nat i :: u64) = i" by (rule unat_of_nat_count)
  have "(of_nat i :: u64) = mh_head (m (mq_hdr q))"
    by (rule slot_address_inj [OF _ _ assms(2) eq]) (use u \<open>i < mq_count q\<close> lt in \<open>simp_all add: mq_head_def\<close>)
  then have "i = mq_head m q" using u by (simp add: mq_head_def)
  then show False using ring_head_not_used [OF lt(2,1)] i by (simp add: mq_pending_def)
qed

interpretation mqf: bounded_fifo UNIV "mq_inv q" "mq_values q" "mq_count q - 1" A_E_NOSPC A_E_EMPTY
  "mq_produce q" "mq_consume q" for q :: megaqueue
proof unfold_locales
  fix s :: "mq_mem \<times> (addr \<Rightarrow> 'v)" and v :: 'v
  obtain m d where s: "s = (m, d)" by (cases s)
  assume inv: "mq_inv q s"
  then have wf: "megaqueue_wf m q" "mq_retired m q = []" "mq_object_size q \<noteq> 0" by (auto simp: mq_inv_def s)
  note full = is_full_iff [OF wf(1)]
  have len: "length (mq_values q s) = length (mq_pending m q)" by (simp add: mq_values_def s)
  show "\<exists>s'. mq_produce q s v = Some (A_OK, s') \<and> mq_inv q s' \<and> mq_values q s' = mq_values q s @ [v]"
    if room: "length (mq_values q s) < mq_count q - 1"
  proof -
    have r: "Suc (length (mq_retired m q) + length (mq_pending m q)) < mq_count q"
      using room len wf(2) by simp
    then obtain m' where m': "megaqueue_advance m (Some q) = Some (A_OK, m')" "megaqueue_wf m' q"
      "mq_pending m' q = mq_pending m q @ [mq_head m q]" "mq_retired m' q = mq_retired m q"
      using advance_correct [OF wf(1)] by blast
    let ?d = "d(slot_address q (mh_head (m (mq_hdr q))) := v)"
    have "mq_produce q s v = Some (A_OK, m', ?d)"
      using full r m'(1) by (simp add: mq_produce_def s megaqueue_next_slot_def)
    moreover have "mq_values q (m', ?d) = mq_values q s @ [v]"
      using slot_write_other [OF wf(1,3)] by (simp add: mq_values_def s m' mq_head_def)
    ultimately show ?thesis using m' wf by (auto simp: mq_inv_def)
  qed
  show "\<exists>s'. mq_produce q s v = Some (A_E_NOSPC, s') \<and> mq_inv q s' \<and> mq_values q s' = mq_values q s"
    if "\<not> length (mq_values q s) < mq_count q - 1"
  proof -
    have "Suc (length (mq_retired m q) + length (mq_pending m q)) = mq_count q"
      using that len wf by (auto simp: megaqueue_wf_def)
    then have "mq_produce q s v = Some (A_E_NOSPC, s)"
      using full by (simp add: mq_produce_def s megaqueue_next_slot_def)
    then show ?thesis using inv by blast
  qed
  show "\<exists>s'. mq_consume q s = Some (A_OK, Some x, s') \<and> mq_inv q s' \<and> mq_values q s' = xs"
    if vals: "mq_values q s = x # xs" for x xs
  proof -
    obtain i ks where p: "mq_pending m q = i # ks" "x = d (slot_address q (of_nat i))"
      "xs = map (\<lambda>i. d (slot_address q (of_nat i))) ks"
      using vals by (auto simp: mq_values_def s)
    obtain m1 where m1: "megaqueue_read_only_advance m (Some q) = Some (A_OK, m1)" "megaqueue_wf m1 q"
      "mq_pending m1 q = ks" "mq_retired m1 q = [i]" "i = mq_tail m q"
      using read_only_advance_correct [OF wf(1) p(1)] wf(2) by auto
    obtain m2 where "megaqueue_delete_advance m1 (Some q) = Some (A_OK, m2)" "megaqueue_wf m2 q"
      "mq_pending m2 q = ks" "mq_retired m2 q = []"
      using delete_advance_correct [OF m1(2,4)] m1(3) by auto
    moreover have "\<not> megaqueue_is_empty m q" using is_empty_iff [OF wf(1)] p by simp
    ultimately show ?thesis
      using m1 p wf(3) by (auto simp: mq_consume_def s megaqueue_read_next_slot_def mq_inv_def mq_values_def
          mq_tail_def)
  qed
  show "\<exists>s'. mq_consume q s = Some (A_E_EMPTY, None, s') \<and> mq_inv q s' \<and> mq_values q s' = []"
    if "mq_values q s = []"
  proof -
    have "megaqueue_is_empty m q" using that is_empty_iff [OF wf(1)] by (simp add: mq_values_def s)
    then have "mq_consume q s = Some (A_E_EMPTY, None, s)"
      by (simp add: mq_consume_def s megaqueue_read_next_slot_def)
    then show ?thesis using inv that by blast
  qed
qed

subsection \<open>Properties\<close>

text \<open>
  On a well-formed queue the three positions implement a queue of slots with two stages. With fewer
  than \<open>object_count - 1\<close> slots in use, \<open>megaqueue_advance\<close> appends the producer's slot to the pending
  ones; otherwise it answers \<open>A_E_NOSPC\<close>. \<open>megaqueue_read_only_advance\<close> moves the first pending slot to the
  end of the retired ones, \<open>megaqueue_delete_advance\<close> drops the first retired slot, and both answer
  \<open>A_E_EMPTY\<close> when there is none. Well-formedness is kept, and no operation faults.
\<close>

theorem megaqueue_positions_refine_queue:
  assumes wf: "megaqueue_wf m q"
  shows "(if Suc (length (mq_retired m q) + length (mq_pending m q)) < mq_count q
          then \<exists>m'. megaqueue_advance m (Some q) = Some (A_OK, m') \<and> megaqueue_wf m' q \<and>
                    mq_pending m' q = mq_pending m q @ [mq_head m q] \<and> mq_retired m' q = mq_retired m q
          else megaqueue_advance m (Some q) = Some (A_E_NOSPC, m)) \<and>
         (case mq_pending m q of
            [] \<Rightarrow> megaqueue_read_only_advance m (Some q) = Some (A_E_EMPTY, m)
          | x # xs \<Rightarrow> \<exists>m'. megaqueue_read_only_advance m (Some q) = Some (A_OK, m') \<and> megaqueue_wf m' q \<and>
                    mq_pending m' q = xs \<and> mq_retired m' q = mq_retired m q @ [x]) \<and>
         (case mq_retired m q of
            [] \<Rightarrow> megaqueue_delete_advance m (Some q) = Some (A_E_EMPTY, m)
          | x # xs \<Rightarrow> \<exists>m'. megaqueue_delete_advance m (Some q) = Some (A_OK, m') \<and> megaqueue_wf m' q \<and>
                    mq_pending m' q = mq_pending m q \<and> mq_retired m' q = xs)"
proof (intro conjI)
  have "Suc (length (mq_retired m q) + length (mq_pending m q)) = mq_count q"
    if "\<not> Suc (length (mq_retired m q) + length (mq_pending m q)) < mq_count q"
    using that wf by (auto simp: megaqueue_wf_def)
  then show "if Suc (length (mq_retired m q) + length (mq_pending m q)) < mq_count q
          then \<exists>m'. megaqueue_advance m (Some q) = Some (A_OK, m') \<and> megaqueue_wf m' q \<and>
                    mq_pending m' q = mq_pending m q @ [mq_head m q] \<and> mq_retired m' q = mq_retired m q
          else megaqueue_advance m (Some q) = Some (A_E_NOSPC, m)"
    using advance_correct [OF wf] is_full_iff [OF wf] by (auto simp: megaqueue_advance_def)
  show "case mq_pending m q of
            [] \<Rightarrow> megaqueue_read_only_advance m (Some q) = Some (A_E_EMPTY, m)
          | x # xs \<Rightarrow> \<exists>m'. megaqueue_read_only_advance m (Some q) = Some (A_OK, m') \<and> megaqueue_wf m' q \<and>
                    mq_pending m' q = xs \<and> mq_retired m' q = mq_retired m q @ [x]"
    using read_only_advance_correct [OF wf] is_empty_iff [OF wf]
    by (cases "mq_pending m q") (auto simp: megaqueue_read_only_advance_def)
  show "case mq_retired m q of
            [] \<Rightarrow> megaqueue_delete_advance m (Some q) = Some (A_E_EMPTY, m)
          | x # xs \<Rightarrow> \<exists>m'. megaqueue_delete_advance m (Some q) = Some (A_OK, m') \<and> megaqueue_wf m' q \<and>
                    mq_pending m' q = mq_pending m q \<and> mq_retired m' q = xs"
    using delete_advance_correct [OF wf] can_delete_iff [OF wf]
    by (cases "mq_retired m q") (auto simp: megaqueue_delete_advance_def)
qed

definition sample_mq :: megaqueue where
  "sample_mq = \<lparr>mq_object_size = 64, mq_object_count = 3, writable_start = 0x2000, mq_region = 0x1000,
                region_size = 0x2000, rgn_name = Some ''/megaqueue_q'', mq_hdr = 0x1000, mq_fd = 3\<rparr>"

definition sample_mq_mem :: mq_mem where
  "sample_mq_mem = (\<lambda>_. \<lparr>mh_head = 0, mh_tail = 2, mh_delete = 2, producer_pid = 1, mh_object_size = 64,
                        mh_object_count = 3\<rparr>)"

lemma sample_mq_wf: "megaqueue_wf sample_mq_mem sample_mq" "mq_pending sample_mq_mem sample_mq = [2]"
  "mq_retired sample_mq_mem sample_mq = []" "mq_count sample_mq = 3"
  by (simp_all add: megaqueue_wf_def sample_mq_mem_def sample_mq_def mq_count_def mq_head_def mq_tail_def
      mq_delete_def mq_pending_def mq_retired_def ring_slots_def ring_dist_def)

theorem megaqueue_positions_refine_queue_witness:
  "\<exists>m'. megaqueue_advance sample_mq_mem (Some sample_mq) = Some (A_OK, m') \<and> mq_pending m' sample_mq = [2, 0]"
  using megaqueue_positions_refine_queue [OF sample_mq_wf(1)] sample_mq_wf
  by (auto simp: mq_head_def sample_mq_mem_def)

text \<open>
  The megaqueue is a bounded FIFO of \<open>object_count - 1\<close> values: any sequence of producing and consuming
  on a well-formed queue (with nothing waiting to be deleted and slots of positive size) returns, and
  gives the result codes and the values that the same sequence gives on a list.
\<close>

theorem megaqueue_is_fifo:
  assumes "mq_inv q s"
  shows "\<exists>s'. queue_run (mq_produce q) (mq_consume q) s cs =
                Some (fst (fifo_run (mq_count q - 1) A_E_NOSPC A_E_EMPTY (mq_values q s) cs), s') \<and>
              mq_inv q s' \<and>
              mq_values q s' = snd (fifo_run (mq_count q - 1) A_E_NOSPC A_E_EMPTY (mq_values q s) cs)"
  by (rule mqf.run_refines [OF assms subset_UNIV])

theorem megaqueue_is_fifo_witness:
  "\<exists>s'. queue_run (mq_produce sample_mq) (mq_consume sample_mq) (sample_mq_mem, \<lambda>_. 5 :: nat)
          [Enqueue 7, Enqueue 8, Dequeue, Dequeue, Dequeue] =
        Some ([(A_OK, None), (A_E_NOSPC, None), (A_OK, Some 5), (A_OK, Some 7), (A_E_EMPTY, None)], s')"
proof -
  have i: "mq_inv sample_mq (sample_mq_mem, \<lambda>_. 5 :: nat)"
    using sample_mq_wf by (simp add: mq_inv_def sample_mq_def)
  have "mq_values sample_mq (sample_mq_mem, \<lambda>_. 5 :: nat) = [5]"
    using sample_mq_wf by (simp add: mq_values_def)
  then show ?thesis
    using megaqueue_is_fifo [OF i, of "[Enqueue 7, Enqueue 8, Dequeue, Dequeue, Dequeue]"] sample_mq_wf
    by auto
qed

text \<open>
  A failing \<open>megaqueue_open\<close> leaves the queue descriptor and the header memory as they were, and closes
  the descriptor that it had obtained.
\<close>

theorem megaqueue_open_failure_releases:
  assumes "megaqueue_open os m (Some q) mode name obj_size obj_count = (r, queue', m', calls)" "AFAILED r"
  shows "queue' = Some q \<and> m' = m \<and>
         (name \<noteq> None \<and> name \<noteq> Some [] \<and> os_name_ok os \<and> 0 \<le> os_shm_open os \<longrightarrow>
            Close (os_shm_open os) \<in> set calls)"
  using assms
  by (auto simp: megaqueue_open_def Let_def open_cleanup_def split: option.splits if_splits prod.splits)

text \<open>An environment in which \<open>shm_open\<close> succeeds but \<open>ftruncate\<close> fails.\<close>

definition failing_os :: mq_os where
  "failing_os = \<lparr>os_page_size = 4096, os_pid = 42, os_name_ok = True, os_shm_open = 3,
                 os_ftruncate_ok = False, os_read = None, os_mmap = 0x1000\<rparr>"

theorem megaqueue_open_failure_releases_witness:
  "\<exists>r calls. megaqueue_open failing_os sample_mq_mem (Some sample_mq) (O_CREAT OR O_RDWR) (Some ''q'') 64 3 =
     (r, Some sample_mq, sample_mq_mem, calls) \<and> Close 3 \<in> set calls"
proof -
  obtain r q' m' calls where o: "megaqueue_open failing_os sample_mq_mem (Some sample_mq) (O_CREAT OR O_RDWR)
      (Some ''q'') 64 3 = (r, q', m', calls)"
    by (metis prod_cases4)
  then have "AFAILED r"
    by (auto simp: megaqueue_open_def Let_def failing_os_def O_CREAT_def O_RDWR_def)
  then show ?thesis
    using megaqueue_open_failure_releases [OF o] o by (auto simp: failing_os_def)
qed

text \<open>
  Creating a queue: when every system call succeeds, \<open>megaqueue_open\<close> answers \<open>A_OK\<close> and describes the
  mapping; it sets \<open>head\<close> to 0 and leaves \<open>tail\<close> and \<open>_delete\<close> as the shared memory had them. On fresh
  memory, where both are 0, the queue is well-formed and empty; on memory with another \<open>tail\<close> (an
  earlier queue of the same name) the reader finds a non-empty queue that nothing was written to.
\<close>

theorem megaqueue_open_creates:
  assumes os: "os_name_ok os" "0 \<le> os_shm_open os" "os_ftruncate_ok os" "os_mmap os \<noteq> MAP_FAILED"
      "os_mmap os \<noteq> NULL"
    and args: "name \<noteq> []" "mode AND O_CREAT \<noteq> 0" "0 < obj_count" "unat obj_count < 2 ^ 32"
  shows "\<exists>q' m'. megaqueue_open os m (Some q) mode (Some name) obj_size obj_count = (A_OK, Some q', m', []) \<and>
           mq_hdr q' = os_mmap os \<and> writable_start q' = os_mmap os + os_page_size os \<and>
           mq_count q' = unat obj_count \<and> mq_head m' q' = 0 \<and>
           mh_object_size (m' (os_mmap os)) = obj_size \<and> mh_object_count (m' (os_mmap os)) = obj_count \<and>
           (mh_tail (m (os_mmap os)) = 0 \<and> mh_delete (m (os_mmap os)) = 0 \<longrightarrow>
              megaqueue_wf m' q' \<and> mq_pending m' q' = [] \<and> mq_retired m' q' = []) \<and>
           (mh_tail (m (os_mmap os)) \<noteq> 0 \<longrightarrow> \<not> megaqueue_is_empty m' q')"
proof -
  obtain r touched where t: "megaqueue_prefault_range (os_mmap os)
      (prefetch_size (obj_size * obj_count + os_page_size os) (os_page_size os)) (os_page_size os) = (r, touched)"
    by (metis surj_pair)
  have cnt: "unat (ucast obj_count :: u32) = unat obj_count"
    using args(4) by (simp add: unsigned_ucast_eq take_bit_nat_eq_self)
  have pos: "0 < unat obj_count" using args(3) by (simp add: word_less_nat_alt)
  show ?thesis
    using os args t cnt pos
    by (auto simp: megaqueue_open_def Let_def megaqueue_prepare_superblock_def prefault_header_def
        mq_count_def mq_head_def mq_tail_def mq_delete_def megaqueue_wf_def mq_pending_def mq_retired_def
        megaqueue_is_empty_def)
qed

definition working_os :: mq_os where
  "working_os = failing_os\<lparr>os_ftruncate_ok := True\<rparr>"

theorem megaqueue_open_creates_witness:
  "\<exists>q' m'. megaqueue_open working_os sample_mq_mem (Some sample_mq) (O_CREAT OR O_RDWR) (Some ''q'') 64 5 =
     (A_OK, Some q', m', []) \<and> mq_count q' = 5 \<and> \<not> megaqueue_is_empty m' q'"
proof -
  have o: "os_name_ok working_os" "0 \<le> os_shm_open working_os" "os_ftruncate_ok working_os"
    "os_mmap working_os \<noteq> MAP_FAILED" "os_mmap working_os \<noteq> NULL" "(O_CREAT OR O_RDWR) AND O_CREAT \<noteq> 0"
    "mh_tail (sample_mq_mem (os_mmap working_os)) \<noteq> 0"
    by (simp_all add: working_os_def failing_os_def MAP_FAILED_def O_CREAT_def O_RDWR_def sample_mq_mem_def)
  show ?thesis
    using megaqueue_open_creates [OF o(1-5) _ o(6), of "''q''" 5 sample_mq_mem sample_mq 64] o(7) by auto
qed

lemma pred_div_multiple: "0 < n \<Longrightarrow> 0 < d \<Longrightarrow> (n * d - Suc 0) div d = n - Suc 0"
  by (rule div_nat_eqI) (auto simp: algebra_simps diff_mult_distrib2 Suc_leI)

lemma drop_push_drop_bit: "drop_bit k (push_bit k (drop_bit k x)) = drop_bit k (x :: u64)"
  by (rule bit_word_eqI) (auto simp: bit_simps dest: bit_imp_le_length)

text \<open>
  \<open>__megaqueue_prefault_range\<close> misses the last page: for a page size that is a power of two and a
  positive number of bytes that is a multiple of it, as its only caller passes, it touches the start
  of every page of the range but the last.
\<close>

theorem megaqueue_prefault_misses_last_page:
  assumes k: "k < 64" and bytes: "bytes = of_nat n * 2 ^ k" "0 < n" "n * 2 ^ k < 2 ^ 64"
    and base: "base \<noteq> NULL" "base AND (2 ^ k - 1) = 0"
  shows "megaqueue_prefault_range base bytes (2 ^ k) = (A_OK, map (\<lambda>i. base + of_nat i * 2 ^ k) [0..<n - 1])"
proof -
  have p: "unat (2 ^ k :: u64) = 2 ^ k"
    using unat_of_nat [of "2 ^ k", where 'a = 64] power_strict_increasing [OF k, of "2 :: nat"] by simp
  have n: "n < 2 ^ 64" using bytes(3) by (metis le_less_trans mult.right_neutral mult_le_mono2 one_le_numeral one_le_power)
  have b: "unat bytes = n * 2 ^ k"
    using bytes(1,3) n p by (simp add: unat_word_ariths unat_of_nat)
  have nz: "bytes \<noteq> 0" using b bytes(2) by (metis gr_implies_not_zero mult_eq_0_iff power_eq_0_iff unat_0 zero_neq_numeral)
  then have b1: "unat (bytes - 1) = n * 2 ^ k - 1" using b by (simp add: unat_minus_one)
  have "(bytes - 1) AND NOT (2 ^ k - 1) = push_bit k (drop_bit k (bytes - 1))"
    by (rule bit_word_eqI) (auto simp: bit_simps mask_eq_exp_minus_1 [symmetric])
  then have "((bytes - 1) AND NOT (2 ^ k - 1)) div 2 ^ k = drop_bit k (bytes - 1)"
    by (simp add: drop_bit_eq_div [symmetric] drop_push_drop_bit)
  moreover have "unat (drop_bit k (bytes - 1)) = n - 1"
    using b1 p bytes(2) by (simp add: drop_bit_eq_div unat_div_distrib pred_div_multiple)
  ultimately show ?thesis
    using base nz by (simp add: megaqueue_prefault_range_def Let_def word_neq_0_conv)
qed

theorem megaqueue_prefault_misses_last_page_witness:
  "megaqueue_prefault_range 0x10000 0x3000 0x1000 = (A_OK, [0x10000, 0x11000])"
  using megaqueue_prefault_misses_last_page [of 12 "0x3000" 3 "0x10000"] by (simp add: upt_rec)

end
