(* ===== verification/Megaqueue_Concurrent.thy ===== *)
theory Megaqueue_Concurrent
  imports Megaqueue
begin

section \<open>Megaqueues used by concurrent processes\<close>

text \<open>
  The processes that share a megaqueue run at the same time: a producer, a reader, and possibly a third process that
  deletes what the reader has read. Here their calls are interleaved, one shared-memory access (\<open>ck_pr_load_64\<close>,
  \<open>ck_pr_store_64\<close>, an access of the caller to a slot) per step. Each process has its own descriptor, with the
  address at which it mapped the shared memory.
\<close>

subsection \<open>The calls, one access at a time\<close>

text \<open>Between calls, a process is at \<open>Ready\<close> with the result of its last call and the slot that it holds. The other
  positions are named after the access that comes next; their arguments are the local variables of the C function.\<close>

datatype producer_pc =
    P_Ready aresult_t "addr option"
  | PN_Head "addr option"
  | PN_Full_Head "addr option" u64
  | PN_Full_Delete "addr option" u64 u64
  | PA_Full_Head "addr option"
  | PA_Full_Delete "addr option" u64
  | PA_Head "addr option"
  | PA_Store u64

datatype read_advance_kind = Read_Advance | Read_Only_Advance

datatype reader_pc =
    R_Ready aresult_t "addr option"
  | RN_Tail
  | RN_Empty_Head u64
  | RN_Empty_Tail u64 u64
  | RA_Empty_Head read_advance_kind "addr option"
  | RA_Empty_Tail read_advance_kind "addr option" u64
  | RA_Tail read_advance_kind "addr option"
  | RA_Store_Tail read_advance_kind u64
  | RA_Store_Delete u64

datatype deleter_pc =
    D_Ready aresult_t
  | DA_Can_Tail
  | DA_Can_Delete u64
  | DA_Delete
  | DA_Store u64

text \<open>The shared memory: the header, and the slots by their offset from the start of the writable part. The last four
  fields record the history: the values sent, the number of slots taken by the reader and deleted, and the
  reader's accesses, each with the number of the slot.\<close>

record 'v mq_sys =
  ms_hdr :: megaqueue_header
  ms_data :: "u64 \<Rightarrow> 'v"
  ms_prod :: producer_pc
  ms_reader :: reader_pc
  ms_deleter :: deleter_pc
  ms_sent :: "'v list"
  ms_taken :: nat
  ms_deleted :: nat
  ms_got :: "(nat \<times> 'v) list"

definition slot_offset :: "megaqueue \<Rightarrow> addr \<Rightarrow> u64" where
  "slot_offset q slot = slot - writable_start q"

text \<open>A step inside \<open>megaqueue_next_slot\<close> (\<open>PN\<close>) or \<open>megaqueue_advance\<close> (\<open>PA\<close>). A remainder by zero is \<open>None\<close>.\<close>

definition producer_step :: "megaqueue \<Rightarrow> 'v mq_sys \<Rightarrow> 'v mq_sys option" where
  "producer_step q s =
     (let h = ms_hdr s; go = (\<lambda>pc. Some (s\<lparr>ms_prod := pc\<rparr>)) in
      case ms_prod s of
        P_Ready r slot \<Rightarrow> Some s
      | PN_Head slot \<Rightarrow> go (PN_Full_Head slot (mh_head h))
      | PN_Full_Head slot head_offset \<Rightarrow> go (PN_Full_Delete slot head_offset (mh_head h))
      | PN_Full_Delete slot head_offset hv \<Rightarrow>
          do { n \<leftarrow> mod_checked (hv + 1) (count64 q);
               if mh_delete h = n then go (P_Ready A_E_NOSPC slot)
               else go (P_Ready A_OK (Some (slot_address q head_offset))) }
      | PA_Full_Head slot \<Rightarrow> go (PA_Full_Delete slot (mh_head h))
      | PA_Full_Delete slot hv \<Rightarrow>
          do { n \<leftarrow> mod_checked (hv + 1) (count64 q);
               if \<not> mh_delete h = n then go (PA_Head slot) else go (P_Ready A_E_NOSPC slot) }
      | PA_Head slot \<Rightarrow>
          do { offset \<leftarrow> mod_checked (mh_head h + 1) (count64 q);
               go (PA_Store offset) }
      | PA_Store offset \<Rightarrow>
          Some (s\<lparr>ms_hdr := h\<lparr>mh_head := offset\<rparr>, ms_prod := P_Ready A_OK None,
                  ms_sent := ms_sent s @ [ms_data s (slot_offset q (slot_address q (mh_head h)))]\<rparr>))"

text \<open>A step inside \<open>megaqueue_read_next_slot\<close> (\<open>RN\<close>), \<open>megaqueue_read_advance\<close> or \<open>megaqueue_read_only_advance\<close> (\<open>RA\<close>).\<close>

definition reader_step :: "megaqueue \<Rightarrow> 'v mq_sys \<Rightarrow> 'v mq_sys option" where
  "reader_step q s =
     (let h = ms_hdr s; go = (\<lambda>pc. Some (s\<lparr>ms_reader := pc\<rparr>)) in
      case ms_reader s of
        R_Ready r slot \<Rightarrow> Some s
      | RN_Tail \<Rightarrow> go (RN_Empty_Head (mh_tail h))
      | RN_Empty_Head tail_offset \<Rightarrow> go (RN_Empty_Tail tail_offset (mh_head h))
      | RN_Empty_Tail tail_offset hv \<Rightarrow>
          if \<not> mh_tail h = hv then go (R_Ready A_OK (Some (slot_address q tail_offset)))
          else go (R_Ready A_E_EMPTY None)
      | RA_Empty_Head kind slot \<Rightarrow> go (RA_Empty_Tail kind slot (mh_head h))
      | RA_Empty_Tail kind slot hv \<Rightarrow>
          if \<not> mh_tail h = hv then go (RA_Tail kind slot) else go (R_Ready A_E_EMPTY slot)
      | RA_Tail kind slot \<Rightarrow>
          do { offset \<leftarrow> mod_checked (mh_tail h + 1) (count64 q);
               go (RA_Store_Tail kind offset) }
      | RA_Store_Tail kind offset \<Rightarrow>
          Some (s\<lparr>ms_hdr := h\<lparr>mh_tail := offset\<rparr>, ms_taken := ms_taken s + 1,
                  ms_reader := (if kind = Read_Advance then RA_Store_Delete offset else R_Ready A_OK None)\<rparr>)
      | RA_Store_Delete offset \<Rightarrow>
          Some (s\<lparr>ms_hdr := h\<lparr>mh_delete := offset\<rparr>, ms_deleted := ms_deleted s + 1, ms_reader := R_Ready A_OK None\<rparr>))"

text \<open>A step inside \<open>megaqueue_delete_advance\<close>.\<close>

definition deleter_step :: "megaqueue \<Rightarrow> 'v mq_sys \<Rightarrow> 'v mq_sys option" where
  "deleter_step q s =
     (let h = ms_hdr s; go = (\<lambda>pc. Some (s\<lparr>ms_deleter := pc\<rparr>)) in
      case ms_deleter s of
        D_Ready r \<Rightarrow> Some s
      | DA_Can_Tail \<Rightarrow> go (DA_Can_Delete (mh_tail h))
      | DA_Can_Delete tail_offset \<Rightarrow>
          if \<not> tail_offset = mh_delete h then go DA_Delete else go (D_Ready A_E_EMPTY)
      | DA_Delete \<Rightarrow>
          do { offset \<leftarrow> mod_checked (mh_delete h + 1) (count64 q);
               go (DA_Store offset) }
      | DA_Store offset \<Rightarrow>
          Some (s\<lparr>ms_hdr := h\<lparr>mh_delete := offset\<rparr>, ms_deleted := ms_deleted s + 1, ms_deleter := D_Ready A_OK\<rparr>))"

text \<open>The system. The three processes have the descriptors \<open>qp\<close>, \<open>qr\<close> and \<open>qd\<close>. Whether the slots are deleted by the
  reader itself or by \<open>megaqueue_delete_advance\<close> is fixed (\<open>deferred\<close>), as the header demands. Between calls, the
  holder of a slot may access it any number of times.\<close>

inductive mq_step :: "bool \<Rightarrow> megaqueue \<Rightarrow> megaqueue \<Rightarrow> megaqueue \<Rightarrow> 'v mq_sys \<Rightarrow> 'v mq_sys \<Rightarrow> bool"
  for deferred qp qr qd where
  call_next: "ms_prod s = P_Ready r slot \<Longrightarrow> mq_step deferred qp qr qd s (s\<lparr>ms_prod := PN_Head slot\<rparr>)"
| call_advance: "ms_prod s = P_Ready r slot \<Longrightarrow> mq_step deferred qp qr qd s (s\<lparr>ms_prod := PA_Full_Head slot\<rparr>)"
| write_slot: "ms_prod s = P_Ready r (Some slot) \<Longrightarrow>
    mq_step deferred qp qr qd s (s\<lparr>ms_data := (ms_data s)(slot_offset qp slot := v)\<rparr>)"
| producer: "producer_step qp s = Some s' \<Longrightarrow> mq_step deferred qp qr qd s s'"
| call_read: "ms_reader s = R_Ready r slot \<Longrightarrow> mq_step deferred qp qr qd s (s\<lparr>ms_reader := RN_Tail\<rparr>)"
| call_read_advance: "ms_reader s = R_Ready r slot \<Longrightarrow> kind = (if deferred then Read_Only_Advance else Read_Advance) \<Longrightarrow>
    mq_step deferred qp qr qd s (s\<lparr>ms_reader := RA_Empty_Head kind slot\<rparr>)"
| read_slot: "ms_reader s = R_Ready r (Some slot) \<Longrightarrow>
    mq_step deferred qp qr qd s (s\<lparr>ms_got := ms_got s @ [(ms_taken s, ms_data s (slot_offset qr slot))]\<rparr>)"
| reader: "reader_step qr s = Some s' \<Longrightarrow> mq_step deferred qp qr qd s s'"
| call_delete: "ms_deleter s = D_Ready r \<Longrightarrow> deferred \<Longrightarrow> mq_step deferred qp qr qd s (s\<lparr>ms_deleter := DA_Can_Tail\<rparr>)"
| deleter: "deleter_step qd s = Some s' \<Longrightarrow> mq_step deferred qp qr qd s s'"

inductive mq_reachable :: "bool \<Rightarrow> megaqueue \<Rightarrow> megaqueue \<Rightarrow> megaqueue \<Rightarrow> 'v mq_sys \<Rightarrow> 'v mq_sys \<Rightarrow> bool"
  for deferred qp qr qd s0 where
  start: "mq_reachable deferred qp qr qd s0 s0"
| step: "mq_reachable deferred qp qr qd s0 s \<Longrightarrow> mq_step deferred qp qr qd s s' \<Longrightarrow> mq_reachable deferred qp qr qd s0 s'"

text \<open>A new queue, with the processes between calls.\<close>

definition mq_fresh :: "'v mq_sys \<Rightarrow> bool" where
  "mq_fresh s \<longleftrightarrow> mh_head (ms_hdr s) = 0 \<and> mh_tail (ms_hdr s) = 0 \<and> mh_delete (ms_hdr s) = 0 \<and>
     ms_prod s = P_Ready A_OK None \<and> ms_reader s = R_Ready A_OK None \<and> ms_deleter s = D_Ready A_OK \<and>
     ms_sent s = [] \<and> ms_taken s = 0 \<and> ms_deleted s = 0 \<and> ms_got s = []"

text \<open>Descriptors for the same queue.\<close>

definition same_queue :: "megaqueue \<Rightarrow> megaqueue \<Rightarrow> bool" where
  "same_queue q q' \<longleftrightarrow> mq_object_count q' = mq_object_count q \<and> mq_object_size q' = mq_object_size q"

subsection \<open>Invariant\<close>

definition stride :: "megaqueue \<Rightarrow> u64" where "stride q = ucast (mq_object_size q)"

lemma slot_offset_address [simp]: "slot_offset q (slot_address q i) = stride q * i"
  by (simp add: slot_offset_def slot_address_def stride_def)

text \<open>Sequence numbers: the \<open>k\<close>-th value is in slot \<open>k mod n\<close>.\<close>

definition pos :: "nat \<Rightarrow> nat \<Rightarrow> u64" where "pos n k = of_nat (k mod n)"

definition shared_ok :: "megaqueue \<Rightarrow> 'v mq_sys \<Rightarrow> bool" where
  "shared_ok q s \<longleftrightarrow> (let n = mq_count q in
     mh_head (ms_hdr s) = pos n (length (ms_sent s)) \<and> mh_tail (ms_hdr s) = pos n (ms_taken s) \<and>
     mh_delete (ms_hdr s) = pos n (ms_deleted s) \<and>
     ms_deleted s \<le> ms_taken s \<and> ms_taken s \<le> length (ms_sent s) \<and> length (ms_sent s) < ms_deleted s + n \<and>
     (\<forall>i. ms_deleted s \<le> i \<and> i < length (ms_sent s) \<longrightarrow> ms_data s (stride q * pos n i) = ms_sent s ! i) \<and>
     (\<forall>(k, v) \<in> set (ms_got s). k < length (ms_sent s) \<and> v = ms_sent s ! k))"

definition room :: "megaqueue \<Rightarrow> 'v mq_sys \<Rightarrow> bool" where
  "room q s \<longleftrightarrow> Suc (length (ms_sent s)) < ms_deleted s + mq_count q"

definition producer_holds :: "megaqueue \<Rightarrow> 'v mq_sys \<Rightarrow> addr option \<Rightarrow> bool" where
  "producer_holds q s slot \<longleftrightarrow> (slot \<noteq> None \<longrightarrow> slot = Some (slot_address q (mh_head (ms_hdr s))) \<and> room q s)"

fun producer_ok :: "megaqueue \<Rightarrow> 'v mq_sys \<Rightarrow> producer_pc \<Rightarrow> bool" where
  "producer_ok q s (P_Ready r slot) = producer_holds q s slot"
| "producer_ok q s (PN_Head slot) = producer_holds q s slot"
| "producer_ok q s (PN_Full_Head slot h) = (producer_holds q s slot \<and> h = mh_head (ms_hdr s))"
| "producer_ok q s (PN_Full_Delete slot h hv) = (producer_holds q s slot \<and> h = mh_head (ms_hdr s) \<and> hv = mh_head (ms_hdr s))"
| "producer_ok q s (PA_Full_Head slot) = producer_holds q s slot"
| "producer_ok q s (PA_Full_Delete slot hv) = (producer_holds q s slot \<and> hv = mh_head (ms_hdr s))"
| "producer_ok q s (PA_Head slot) = room q s"
| "producer_ok q s (PA_Store offset) = (room q s \<and> offset = pos (mq_count q) (Suc (length (ms_sent s))))"

text \<open>A value of \<open>head\<close> that was loaded earlier, or of \<open>tail\<close>.\<close>

definition seen_between :: "nat \<Rightarrow> nat \<Rightarrow> nat \<Rightarrow> u64 \<Rightarrow> bool" where
  "seen_between n lo hi w \<longleftrightarrow> (\<exists>k. lo \<le> k \<and> k \<le> hi \<and> w = pos n k)"

definition reader_holds :: "megaqueue \<Rightarrow> 'v mq_sys \<Rightarrow> addr option \<Rightarrow> bool" where
  "reader_holds q s slot \<longleftrightarrow>
     (slot \<noteq> None \<longrightarrow> slot = Some (slot_address q (mh_tail (ms_hdr s))) \<and> ms_taken s < length (ms_sent s))"

definition head_seen :: "megaqueue \<Rightarrow> 'v mq_sys \<Rightarrow> u64 \<Rightarrow> bool" where
  "head_seen q s w \<longleftrightarrow> seen_between (mq_count q) (ms_taken s) (length (ms_sent s)) w"

fun reader_ok :: "bool \<Rightarrow> megaqueue \<Rightarrow> 'v mq_sys \<Rightarrow> reader_pc \<Rightarrow> bool" where
  "reader_ok df q s (R_Ready r slot) = reader_holds q s slot"
| "reader_ok df q s RN_Tail = True"
| "reader_ok df q s (RN_Empty_Head t) = (t = mh_tail (ms_hdr s))"
| "reader_ok df q s (RN_Empty_Tail t hv) = (t = mh_tail (ms_hdr s) \<and> head_seen q s hv)"
| "reader_ok df q s (RA_Empty_Head kind slot) = (reader_holds q s slot \<and> (kind = Read_Only_Advance) = df)"
| "reader_ok df q s (RA_Empty_Tail kind slot hv) = (reader_holds q s slot \<and> (kind = Read_Only_Advance) = df \<and> head_seen q s hv \<and>
     (slot \<noteq> None \<longrightarrow> hv \<noteq> mh_tail (ms_hdr s)))"
| "reader_ok df q s (RA_Tail kind slot) = ((kind = Read_Only_Advance) = df \<and> ms_taken s < length (ms_sent s))"
| "reader_ok df q s (RA_Store_Tail kind offset) = ((kind = Read_Only_Advance) = df \<and> ms_taken s < length (ms_sent s) \<and>
     offset = pos (mq_count q) (Suc (ms_taken s)))"
| "reader_ok df q s (RA_Store_Delete offset) = (\<not> df \<and> offset = mh_tail (ms_hdr s))"

fun deleter_ok :: "megaqueue \<Rightarrow> 'v mq_sys \<Rightarrow> deleter_pc \<Rightarrow> bool" where
  "deleter_ok q s (D_Ready r) = True"
| "deleter_ok q s DA_Can_Tail = True"
| "deleter_ok q s (DA_Can_Delete t) = seen_between (mq_count q) (ms_deleted s) (ms_taken s) t"
| "deleter_ok q s DA_Delete = (ms_deleted s < ms_taken s)"
| "deleter_ok q s (DA_Store offset) = (ms_deleted s < ms_taken s \<and> offset = pos (mq_count q) (Suc (ms_deleted s)))"

text \<open>Without deferred deletion, at most the slot that the reader is giving back is taken and not deleted.\<close>

fun giving_back :: "reader_pc \<Rightarrow> nat" where
  "giving_back (RA_Store_Delete offset) = 1"
| "giving_back pc = 0"

definition mq_ok :: "bool \<Rightarrow> megaqueue \<Rightarrow> megaqueue \<Rightarrow> megaqueue \<Rightarrow> 'v mq_sys \<Rightarrow> bool" where
  "mq_ok df qp qr qd s \<longleftrightarrow> shared_ok qp s \<and> producer_ok qp s (ms_prod s) \<and> reader_ok df qr s (ms_reader s) \<and>
     deleter_ok qd s (ms_deleter s) \<and>
     (\<not> df \<longrightarrow> (\<exists>r. ms_deleter s = D_Ready r) \<and> ms_taken s = ms_deleted s + giving_back (ms_reader s))"


lemma unat_pos: "0 < mq_count q \<Longrightarrow> unat (pos (mq_count q) i) = i mod mq_count q"
  using unat_of_nat_count [of "i mod mq_count q" q] by (simp add: pos_def)

lemma pos_eq_iff: "0 < mq_count q \<Longrightarrow> pos (mq_count q) i = pos (mq_count q) j \<longleftrightarrow> i mod mq_count q = j mod mq_count q"
  using unat_pos [of q i] unat_pos [of q j] by (simp add: word_unat_eq_iff)

lemma mod_eq_window:
  assumes "i \<le> j" "j < i + n"
  shows "i mod n = j mod n \<longleftrightarrow> i = (j :: nat)"
proof
  assume "i mod n = j mod n"
  then have "n dvd j - i" using mod_eq_dvd_iff_nat [OF assms(1), of n] by simp
  moreover have "j - i < n" using assms by simp
  ultimately have "j - i = 0" using nat_dvd_not_less by blast
  then show "i = j" using assms(1) by simp
qed simp

lemma pos_window: "0 < mq_count q \<Longrightarrow> i \<le> j \<Longrightarrow> j < i + mq_count q \<Longrightarrow> pos (mq_count q) i = pos (mq_count q) j \<longleftrightarrow> i = j"
  by (simp add: pos_eq_iff mod_eq_window)

lemma pos_full:
  assumes "0 < mq_count q" "d \<le> h" "h < d + mq_count q"
  shows "pos (mq_count q) d = pos (mq_count q) (Suc h) \<longleftrightarrow> \<not> Suc h < d + mq_count q"
proof (cases "Suc h < d + mq_count q")
  case True
  then show ?thesis using assms pos_window [of q d "Suc h"] by simp
next
  case False
  then have "Suc h = d + mq_count q" using assms by simp
  then show ?thesis using assms(1) by (simp add: pos_eq_iff)
qed

lemma mod_checked_pos:
  assumes "0 < mq_count q"
  shows "mod_checked (pos (mq_count q) k + 1) (count64 q) = Some (pos (mq_count q) (Suc k))"
proof -
  obtain w where w: "mod_checked (pos (mq_count q) k + 1) (count64 q) = Some w"
    "unat w = ring_next (mq_count q) (k mod mq_count q)"
    using mod_checked_next [of "pos (mq_count q) k" q] assms unat_pos [OF assms, of k] by auto
  have "unat w = unat (pos (mq_count q) (Suc k))"
    using w(2) unat_pos [OF assms, of "Suc k"] by (simp add: ring_next_def mod_Suc_eq)
  then show ?thesis using w(1) by (simp add: word_unat_eq_iff)
qed

lemma stride_inj:
  assumes "0 < mq_count q" "mq_object_size q \<noteq> 0"
  shows "stride q * pos (mq_count q) i = stride q * pos (mq_count q) j \<longleftrightarrow> i mod mq_count q = j mod mq_count q"
proof -
  have "stride q * pos (mq_count q) i = stride q * pos (mq_count q) j \<longleftrightarrow>
      slot_address q (pos (mq_count q) i) = slot_address q (pos (mq_count q) j)"
    by (simp add: slot_address_def stride_def)
  also have "\<dots> \<longleftrightarrow> pos (mq_count q) i = pos (mq_count q) j"
    using slot_address_inj [of "pos (mq_count q) i" q "pos (mq_count q) j"] assms unat_pos [OF assms(1)] by auto
  finally show ?thesis using pos_eq_iff [OF assms(1)] by simp
qed

text \<open>The assertions do not mention the positions.\<close>

lemma pc_frame [simp]:
  "shared_ok q (s\<lparr>ms_prod := p\<rparr>) = shared_ok q s" "shared_ok q (s\<lparr>ms_reader := r\<rparr>) = shared_ok q s"
  "shared_ok q (s\<lparr>ms_deleter := d\<rparr>) = shared_ok q s"
  "producer_holds q (s\<lparr>ms_prod := p\<rparr>) slot = producer_holds q s slot" "room q (s\<lparr>ms_prod := p\<rparr>) = room q s"
  "reader_holds q (s\<lparr>ms_reader := r\<rparr>) slot = reader_holds q s slot" "head_seen q (s\<lparr>ms_reader := r\<rparr>) w = head_seen q s w"
  by (simp_all add: shared_ok_def producer_holds_def room_def reader_holds_def head_seen_def)

lemma ok_frame [simp]:
  "producer_ok q (s\<lparr>ms_prod := p\<rparr>) pc = producer_ok q s pc" "producer_ok q (s\<lparr>ms_reader := r\<rparr>) pc = producer_ok q s pc"
  "producer_ok q (s\<lparr>ms_deleter := d\<rparr>) pc = producer_ok q s pc"
  by (cases pc; simp add: producer_holds_def room_def)+

lemma ok_frame_reader [simp]:
  "reader_ok df q (s\<lparr>ms_prod := p\<rparr>) pc' = reader_ok df q s pc'" "reader_ok df q (s\<lparr>ms_reader := r\<rparr>) pc' = reader_ok df q s pc'"
  "reader_ok df q (s\<lparr>ms_deleter := d\<rparr>) pc' = reader_ok df q s pc'"
  by (cases pc'; simp add: reader_holds_def head_seen_def)+

lemma ok_frame_deleter [simp]:
  "deleter_ok q (s\<lparr>ms_prod := p\<rparr>) pc' = deleter_ok q s pc'" "deleter_ok q (s\<lparr>ms_reader := r\<rparr>) pc' = deleter_ok q s pc'"
  "deleter_ok q (s\<lparr>ms_deleter := d\<rparr>) pc' = deleter_ok q s pc'"
  by (cases pc'; simp)+

text \<open>The assertions of a process hold on when the others move.\<close>

lemma producer_ok_mono:
  "producer_ok q s pc \<Longrightarrow> mh_head (ms_hdr s') = mh_head (ms_hdr s) \<Longrightarrow> ms_sent s' = ms_sent s \<Longrightarrow> ms_deleted s \<le> ms_deleted s' \<Longrightarrow>
   producer_ok q s' pc"
  by (cases pc) (auto simp: producer_holds_def room_def)

lemma seen_between_mono: "seen_between n lo hi w \<Longrightarrow> hi \<le> hi' \<Longrightarrow> seen_between n lo hi' w"
  by (auto simp: seen_between_def)

lemma reader_ok_mono:
  "reader_ok df q s pc \<Longrightarrow> mh_tail (ms_hdr s') = mh_tail (ms_hdr s) \<Longrightarrow> ms_taken s' = ms_taken s \<Longrightarrow>
   length (ms_sent s) \<le> length (ms_sent s') \<Longrightarrow> reader_ok df q s' pc"
  by (cases pc) (auto simp: reader_holds_def head_seen_def intro: seen_between_mono)

lemma deleter_ok_mono:
  "deleter_ok q s pc \<Longrightarrow> ms_deleted s' = ms_deleted s \<Longrightarrow> ms_taken s \<le> ms_taken s' \<Longrightarrow> deleter_ok q s' pc"
  by (cases pc) (auto intro: seen_between_mono)

subsection \<open>Each step keeps the invariant\<close>

text \<open>Usable descriptors: the slots have a positive size, and there are some.\<close>

definition usable :: "megaqueue \<Rightarrow> bool" where
  "usable q \<longleftrightarrow> 0 < mq_count q \<and> mq_object_size q \<noteq> 0"

lemma same_queue_simps: "same_queue q q' \<Longrightarrow> mq_count q' = mq_count q \<and> stride q' = stride q \<and> count64 q' = count64 q"
  by (simp add: same_queue_def mq_count_def stride_def count64_def)

lemma write_slot_ok:
  assumes ok: "shared_ok q s" and u: "usable q" and holds: "producer_holds q s (Some slot)"
  shows "shared_ok q (s\<lparr>ms_data := (ms_data s)(slot_offset q slot := v)\<rparr>)"
proof -
  have "stride q * pos (mq_count q) i \<noteq> slot_offset q slot" if "ms_deleted s \<le> i" "i < length (ms_sent s)" for i
    using that ok holds u stride_inj [of q i "length (ms_sent s)"] mod_eq_window [of i "length (ms_sent s)" "mq_count q"]
    by (auto simp: shared_ok_def Let_def producer_holds_def usable_def)
  then show ?thesis using ok by (auto simp: shared_ok_def Let_def)
qed

lemma read_slot_ok:
  assumes ok: "shared_ok q s" and holds: "reader_holds q' s (Some slot)" and same: "same_queue q q'"
  shows "ms_data s (slot_offset q' slot) = ms_sent s ! ms_taken s" "ms_taken s < length (ms_sent s)"
  using ok holds same_queue_simps [OF same] by (auto simp: shared_ok_def Let_def reader_holds_def)

lemma producer_step_ok:
  assumes ok: "shared_ok q s" "producer_ok q s (ms_prod s)" and u: "usable q"
  shows "\<exists>s'. producer_step q s = Some s' \<and> shared_ok q s' \<and> producer_ok q s' (ms_prod s') \<and>
    mh_tail (ms_hdr s') = mh_tail (ms_hdr s) \<and> ms_taken s' = ms_taken s \<and> ms_deleted s' = ms_deleted s \<and>
    length (ms_sent s) \<le> length (ms_sent s') \<and> ms_reader s' = ms_reader s \<and> ms_deleter s' = ms_deleter s"
proof -
  note m = mod_checked_pos [of q "length (ms_sent s)"]
  note sh = ok(1) [unfolded shared_ok_def Let_def]
  have full: "pos (mq_count q) (ms_deleted s) = pos (mq_count q) (Suc (length (ms_sent s))) \<longleftrightarrow> \<not> room q s"
    using sh u pos_full [of q "ms_deleted s" "length (ms_sent s)"] by (auto simp: room_def usable_def)
  have head: "mh_head (ms_hdr s) = pos (mq_count q) (length (ms_sent s))" "mh_delete (ms_hdr s) = pos (mq_count q) (ms_deleted s)"
    using sh by simp_all
  have hold: "producer_holds q s slot \<Longrightarrow> \<not> room q s \<Longrightarrow> slot = None" for slot by (cases slot) (simp_all add: producer_holds_def)
  have new: "producer_holds q s (Some (slot_address q (pos (mq_count q) (length (ms_sent s))))) \<longleftrightarrow> room q s"
    using head by (simp add: producer_holds_def)
  have n: "0 < mq_count q" using u by (simp add: usable_def)
  show ?thesis
  proof (cases "ms_prod s")
    case (PA_Store offset)
    then show ?thesis using ok(2) sh
      by (auto simp: producer_step_def shared_ok_def Let_def producer_holds_def room_def nth_append less_Suc_eq)
  next
    case (PN_Full_Delete slot h hv)
    then show ?thesis using ok head m [OF n] full new hold [of slot] by (cases "room q s") (simp_all add: producer_step_def)
  next
    case (PA_Full_Delete slot hv)
    then show ?thesis using ok head m [OF n] full hold [of slot] by (cases "room q s") (simp_all add: producer_step_def)
  next
    case (PA_Head slot)
    then show ?thesis using ok head m [OF n] by (simp add: producer_step_def)
  qed (use ok in \<open>simp_all add: producer_step_def\<close>)
qed

lemma not_seen_low: "seen_between n lo hi w \<Longrightarrow> pos n lo \<noteq> w \<Longrightarrow> lo < hi"
  by (auto simp: seen_between_def le_less)

lemma reader_step_ok:
  assumes ok: "shared_ok q s" "reader_ok df q' s (ms_reader s)" and u: "usable q" and same: "same_queue q q'"
    and gb: "\<not> df \<longrightarrow> ms_taken s = ms_deleted s + giving_back (ms_reader s)"
  shows "\<exists>s'. reader_step q' s = Some s' \<and> shared_ok q s' \<and> reader_ok df q' s' (ms_reader s') \<and>
    (\<not> df \<longrightarrow> ms_taken s' = ms_deleted s' + giving_back (ms_reader s')) \<and>
    mh_head (ms_hdr s') = mh_head (ms_hdr s) \<and> ms_sent s' = ms_sent s \<and> ms_deleted s \<le> ms_deleted s' \<and> (df \<longrightarrow> ms_deleted s' = ms_deleted s) \<and>
    ms_taken s \<le> ms_taken s' \<and> ms_prod s' = ms_prod s \<and> ms_deleter s' = ms_deleter s"
proof -
  note m = mod_checked_pos [of q "ms_taken s"] and qq = same_queue_simps [OF same]
  note sh = ok(1) [unfolded shared_ok_def Let_def]
  have tail: "mh_tail (ms_hdr s) = pos (mq_count q) (ms_taken s)" using sh by simp
  have seen: "head_seen q' s (mh_head (ms_hdr s))"
    using sh qq by (auto simp: head_seen_def seen_between_def)
  have low: "ms_taken s < length (ms_sent s)" if "head_seen q' s w" "mh_tail (ms_hdr s) \<noteq> w" for w
    using that tail qq not_seen_low unfolding head_seen_def by simp
  have held: "mh_head (ms_hdr s) \<noteq> mh_tail (ms_hdr s)" if "reader_holds q' s (Some slot)" for slot
    using that sh u pos_window [of q "ms_taken s" "length (ms_sent s)"] by (auto simp: reader_holds_def usable_def)
  have none: "reader_holds q' s None" by (simp add: reader_holds_def)
  have new: "ms_taken s < length (ms_sent s) \<Longrightarrow> reader_holds q' s (Some (slot_address q' (mh_tail (ms_hdr s))))"
    by (simp add: reader_holds_def)
  have n: "0 < mq_count q" using u by (simp add: usable_def)
  show ?thesis
  proof (cases "ms_reader s")
    case (RA_Store_Tail kind offset)
    then have k: "(kind = Read_Only_Advance) = df" "ms_taken s < length (ms_sent s)" "offset = pos (mq_count q) (Suc (ms_taken s))"
      using ok(2) qq by simp_all
    then have "shared_ok q (s\<lparr>ms_hdr := (ms_hdr s)\<lparr>mh_tail := offset\<rparr>, ms_taken := ms_taken s + 1, ms_reader := pc\<rparr>)" for pc
      using sh unfolding shared_ok_def Let_def by simp
    moreover have "ms_taken s = ms_deleted s" if "\<not> df" using that gb RA_Store_Tail by simp
    ultimately show ?thesis
      unfolding reader_step_def Let_def RA_Store_Tail reader_pc.case using k(1)
      by (cases df; cases kind) (simp_all add: reader_holds_def)
  next
    case (RA_Store_Delete offset)
    then have k: "\<not> df" "offset = pos (mq_count q) (Suc (ms_deleted s))" "Suc (ms_deleted s) = ms_taken s"
      using ok(2) gb tail by simp_all
    then have "shared_ok q (s\<lparr>ms_hdr := (ms_hdr s)\<lparr>mh_delete := offset\<rparr>, ms_deleted := ms_deleted s + 1, ms_reader := R_Ready A_OK None\<rparr>)"
      using sh unfolding shared_ok_def Let_def by simp
    then show ?thesis using RA_Store_Delete k by (simp add: reader_step_def reader_holds_def)
  next
    case (RN_Empty_Tail t hv)
    then show ?thesis using ok gb low [of hv] none new by (cases "mh_tail (ms_hdr s) = hv") (simp_all add: reader_step_def)
  next
    case (RA_Empty_Tail kind slot hv)
    then show ?thesis using ok gb low [of hv] none by (cases "mh_tail (ms_hdr s) = hv") (simp_all add: reader_step_def)
  next
    case (RA_Empty_Head kind slot)
    then show ?thesis using ok gb seen held [of "the slot"] by (cases slot) (simp_all add: reader_step_def)
  next
    case (RA_Tail kind slot)
    then show ?thesis using ok gb m [OF n] tail qq by (simp add: reader_step_def)
  qed (use ok gb seen in \<open>simp_all add: reader_step_def\<close>)
qed

lemma deleter_step_ok:
  assumes ok: "shared_ok q s" "deleter_ok q' s (ms_deleter s)" and u: "usable q" and same: "same_queue q q'"
  shows "\<exists>s'. deleter_step q' s = Some s' \<and> shared_ok q s' \<and> deleter_ok q' s' (ms_deleter s') \<and>
    mh_head (ms_hdr s') = mh_head (ms_hdr s) \<and> mh_tail (ms_hdr s') = mh_tail (ms_hdr s) \<and> ms_sent s' = ms_sent s \<and>
    ms_taken s' = ms_taken s \<and> ms_deleted s \<le> ms_deleted s' \<and> ms_prod s' = ms_prod s \<and> ms_reader s' = ms_reader s \<and>
    ((\<exists>r. ms_deleter s = D_Ready r) \<longrightarrow> s' = s)"
proof -
  note m = mod_checked_pos [of q "ms_deleted s"] and qq = same_queue_simps [OF same]
  note sh = ok(1) [unfolded shared_ok_def Let_def]
  have del: "mh_delete (ms_hdr s) = pos (mq_count q) (ms_deleted s)" using sh by simp
  have seen: "seen_between (mq_count q') (ms_deleted s) (ms_taken s) (mh_tail (ms_hdr s))"
    using sh qq by (auto simp: seen_between_def)
  have low: "ms_deleted s < ms_taken s" if "seen_between (mq_count q') (ms_deleted s) (ms_taken s) w" "w \<noteq> mh_delete (ms_hdr s)" for w
    using that del qq not_seen_low by metis
  have n: "0 < mq_count q" using u by (simp add: usable_def)
  show ?thesis
  proof (cases "ms_deleter s")
    case (DA_Store offset)
    then show ?thesis using ok(2) sh qq by (auto simp: deleter_step_def shared_ok_def Let_def)
  next
    case (DA_Can_Delete t)
    then show ?thesis using ok low [of t] by (cases "t = mh_delete (ms_hdr s)") (simp_all add: deleter_step_def)
  next
    case DA_Delete
    then show ?thesis using ok m [OF n] del qq by (simp add: deleter_step_def)
  qed (use ok seen in \<open>simp_all add: deleter_step_def\<close>)
qed

inductive_cases mq_stepE: "mq_step df qp qr qd s s'"

lemma mq_step_ok:
  assumes "mq_step df qp qr qd s s'" "mq_ok df qp qr qd s" "usable qp" "same_queue qp qr" "same_queue qp qd"
  shows "mq_ok df qp qr qd s'"
  using assms(1)
proof (cases rule: mq_step.cases)
  case producer
  then show ?thesis
    using producer_step_ok [of qp s] reader_ok_mono [of df qr s "ms_reader s" s'] deleter_ok_mono [of qd s "ms_deleter s" s'] assms(2,3)
    by (auto simp: mq_ok_def)
next
  case reader
  then show ?thesis
    using reader_step_ok [of qp s df qr] producer_ok_mono [of qp s "ms_prod s" s'] deleter_ok_mono [of qd s "ms_deleter s" s'] assms(2-4)
    by (cases df) (auto simp: mq_ok_def)
next
  case deleter
  then show ?thesis
    using deleter_step_ok [of qp s qd] producer_ok_mono [of qp s "ms_prod s" s'] reader_ok_mono [of df qr s "ms_reader s" s'] assms(2,3,5)
    by (auto simp: mq_ok_def)
next
  case (write_slot r slot v)
  then have "producer_holds qp s (Some slot)" using assms(2) by (simp add: mq_ok_def)
  then have "shared_ok qp s'" using write_slot_ok [of qp s slot v] assms(2,3) write_slot(1) by (simp add: mq_ok_def)
  then show ?thesis
    using producer_ok_mono [of qp s "ms_prod s" s'] reader_ok_mono [of df qr s "ms_reader s" s'] deleter_ok_mono [of qd s "ms_deleter s" s']
      assms(2) write_slot(1) by (auto simp: mq_ok_def)
next
  case (read_slot r slot)
  then have "reader_holds qr s (Some slot)" using assms(2) by (simp add: mq_ok_def)
  then have "shared_ok qp s'" using read_slot_ok [of qp s qr slot] assms(2,4) read_slot(1) by (auto simp: mq_ok_def shared_ok_def)
  then show ?thesis
    using producer_ok_mono [of qp s "ms_prod s" s'] reader_ok_mono [of df qr s "ms_reader s" s'] deleter_ok_mono [of qd s "ms_deleter s" s']
      assms(2) read_slot(1) by (auto simp: mq_ok_def)
qed (use assms(2) in \<open>auto simp: mq_ok_def\<close>)

lemma mq_reachable_ok:
  assumes "mq_reachable df qp qr qd s0 s" "mq_fresh s0" "usable qp" "same_queue qp qr" "same_queue qp qd"
  shows "mq_ok df qp qr qd s"
  using assms(1)
proof induction
  case start
  then show ?case using assms(2,3)
    by (auto simp: mq_fresh_def mq_ok_def shared_ok_def Let_def pos_def producer_holds_def reader_holds_def usable_def)
next
  case (step s s')
  then show ?case using mq_step_ok assms(3-5) by blast
qed

subsection \<open>Calls that are not interrupted\<close>

definition run_steps :: "('s \<Rightarrow> 's option) \<Rightarrow> nat \<Rightarrow> 's \<Rightarrow> 's option" where
  "run_steps f n s = ((\<lambda>x. Option.bind x f) ^^ n) (Some s)"

lemma run_steps_simps [simp]:
  "run_steps f 0 s = Some s" "run_steps f (Suc n) s = Option.bind (f s) (run_steps f n)"
proof -
  have none: "((\<lambda>x. Option.bind x f) ^^ n) None = None" for n by (induction n) simp_all
  show "run_steps f 0 s = Some s" "run_steps f (Suc n) s = Option.bind (f s) (run_steps f n)"
    by (cases "f s"; simp add: run_steps_def funpow_Suc_right none del: funpow.simps(2))+
qed

lemma run_steps_numeral [simp]: "run_steps f (numeral k) s = Option.bind (f s) (run_steps f (pred_numeral k))"
  by (simp add: numeral_eq_Suc)

fun producer_answer :: "producer_pc \<Rightarrow> aresult_t \<times> addr option" where
  "producer_answer (P_Ready r slot) = (r, slot)"
| "producer_answer pc = (A_E_BUSY, None)"

fun reader_answer :: "reader_pc \<Rightarrow> aresult_t \<times> addr option" where
  "reader_answer (R_Ready r slot) = (r, slot)"
| "reader_answer pc = (A_E_BUSY, None)"

fun deleter_answer :: "deleter_pc \<Rightarrow> aresult_t" where
  "deleter_answer (D_Ready r) = r"
| "deleter_answer pc = A_E_BUSY"

text \<open>The number of accesses that a call still has to make.\<close>

fun producer_left :: "producer_pc \<Rightarrow> nat" where
  "producer_left (P_Ready r slot) = 0"
| "producer_left (PN_Head slot) = 3"
| "producer_left (PN_Full_Head slot h) = 2"
| "producer_left (PN_Full_Delete slot h hv) = 1"
| "producer_left (PA_Full_Head slot) = 4"
| "producer_left (PA_Full_Delete slot hv) = 3"
| "producer_left (PA_Head slot) = 2"
| "producer_left (PA_Store offset) = 1"

fun reader_left :: "reader_pc \<Rightarrow> nat" where
  "reader_left (R_Ready r slot) = 0"
| "reader_left RN_Tail = 3"
| "reader_left (RN_Empty_Head t) = 2"
| "reader_left (RN_Empty_Tail t hv) = 1"
| "reader_left (RA_Empty_Head kind slot) = 5"
| "reader_left (RA_Empty_Tail kind slot hv) = 4"
| "reader_left (RA_Tail kind slot) = 3"
| "reader_left (RA_Store_Tail kind offset) = 2"
| "reader_left (RA_Store_Delete offset) = 1"

fun deleter_left :: "deleter_pc \<Rightarrow> nat" where
  "deleter_left (D_Ready r) = 0"
| "deleter_left DA_Can_Tail = 4"
| "deleter_left (DA_Can_Delete t) = 3"
| "deleter_left DA_Delete = 2"
| "deleter_left (DA_Store offset) = 1"

lemma producer_closer: "producer_step q s = Some s' \<Longrightarrow> producer_left (ms_prod s') \<le> producer_left (ms_prod s) - 1"
  by (cases "ms_prod s") (auto simp: producer_step_def Let_def split: if_splits option.splits Option.bind_splits)

lemma reader_closer: "reader_step q s = Some s' \<Longrightarrow> reader_left (ms_reader s') \<le> reader_left (ms_reader s) - 1"
  by (cases "ms_reader s") (auto simp: reader_step_def Let_def split: if_splits option.splits Option.bind_splits)

lemma deleter_closer: "deleter_step q s = Some s' \<Longrightarrow> deleter_left (ms_deleter s') \<le> deleter_left (ms_deleter s) - 1"
  by (cases "ms_deleter s") (auto simp: deleter_step_def Let_def split: if_splits option.splits Option.bind_splits)

lemma left_bounds: "producer_left p \<le> 4" "reader_left r \<le> 5" "deleter_left d \<le> 4"
  subgoal by (cases p) simp_all
  subgoal by (cases r) simp_all
  subgoal by (cases d) simp_all
  done

text \<open>Steps of the other processes do not move a process.\<close>

lemma step_frame:
  "producer_step q s = Some s' \<Longrightarrow> ms_reader s' = ms_reader s \<and> ms_deleter s' = ms_deleter s"
  "reader_step q s = Some s' \<Longrightarrow> ms_prod s' = ms_prod s \<and> ms_deleter s' = ms_deleter s"
  "deleter_step q s = Some s' \<Longrightarrow> ms_prod s' = ms_prod s \<and> ms_reader s' = ms_reader s"
  by (auto simp: producer_step_def reader_step_def deleter_step_def Let_def split: producer_pc.splits reader_pc.splits deleter_pc.splits
    if_splits Option.bind_splits)

subsection \<open>Calls that are not interrupted\<close>

text \<open>A call that no other process interrupts is the function of the theory Megaqueue: the two translations of megaqueue_priv.h agree.\<close>

lemma calls_uninterrupted:
  assumes "m (mq_hdr q) = ms_hdr s"
  shows "megaqueue_next_slot m (Some q) (Some x) =
      map_option (\<lambda>s'. case producer_answer (ms_prod s') of (r, slot) \<Rightarrow> (r, Some (case slot of None \<Rightarrow> x | Some a \<Rightarrow> a)))
        (run_steps (producer_step q) 3 (s\<lparr>ms_prod := PN_Head None\<rparr>)) \<and>
    megaqueue_advance m (Some q) =
      map_option (\<lambda>s'. (fst (producer_answer (ms_prod s')), m(mq_hdr q := ms_hdr s')))
        (run_steps (producer_step q) 4 (s\<lparr>ms_prod := PA_Full_Head slot\<rparr>)) \<and>
    Some (megaqueue_read_next_slot m (Some q) (Some x)) =
      map_option (\<lambda>s'. case reader_answer (ms_reader s') of (r, slot) \<Rightarrow> (r, Some (case slot of None \<Rightarrow> NULL | Some a \<Rightarrow> a)))
        (run_steps (reader_step q) 3 (s\<lparr>ms_reader := RN_Tail\<rparr>)) \<and>
    megaqueue_read_advance m (Some q) =
      map_option (\<lambda>s'. (fst (reader_answer (ms_reader s')), m(mq_hdr q := ms_hdr s')))
        (run_steps (reader_step q) 5 (s\<lparr>ms_reader := RA_Empty_Head Read_Advance slot\<rparr>)) \<and>
    megaqueue_read_only_advance m (Some q) =
      map_option (\<lambda>s'. (fst (reader_answer (ms_reader s')), m(mq_hdr q := ms_hdr s')))
        (run_steps (reader_step q) 4 (s\<lparr>ms_reader := RA_Empty_Head Read_Only_Advance slot\<rparr>)) \<and>
    megaqueue_delete_advance m (Some q) =
      map_option (\<lambda>s'. (deleter_answer (ms_deleter s'), m(mq_hdr q := ms_hdr s')))
        (run_steps (deleter_step q) 4 (s\<lparr>ms_deleter := DA_Can_Tail\<rparr>))"
proof -
  have m: "m(mq_hdr q := ms_hdr s) = m" using assms by (metis fun_upd_triv)
  show ?thesis
    by (intro conjI; cases "count64 q = 0")
       (simp_all add: assms m Let_def mod_checked_def megaqueue_next_slot_def megaqueue_advance_def megaqueue_read_next_slot_def
         megaqueue_read_advance_def megaqueue_read_only_advance_def megaqueue_delete_advance_def megaqueue_is_full_def
         megaqueue_is_empty_def megaqueue_can_delete_def producer_step_def reader_step_def deleter_step_def)
qed

subsection \<open>Properties\<close>

definition demo_sys :: "nat mq_sys" where
  "demo_sys = \<lparr>ms_hdr = (sample_mq_mem 0)\<lparr>mh_tail := 0, mh_delete := 0\<rparr>, ms_data = (\<lambda>_. 0), ms_prod = P_Ready A_OK None,
     ms_reader = R_Ready A_OK None, ms_deleter = D_Ready A_OK, ms_sent = [], ms_taken = 0, ms_deleted = 0, ms_got = []\<rparr>"

lemma demo_sys_fresh: "mq_fresh demo_sys" "usable sample_mq" "same_queue sample_mq sample_mq"
  by (simp_all add: mq_fresh_def demo_sys_def sample_mq_mem_def usable_def sample_mq_def mq_count_def same_queue_def)

text \<open>Claim C6. For every interleaving of the processes of a new queue: whatever the reader reads from the \<open>k\<close>-th slot that it
  gets is the \<open>k\<close>-th value that the producer has sent, however often it reads and whatever the producer writes
  meanwhile; nothing is lost, duplicated or reordered, at most \<open>object_count - 1\<close> values are in the queue, those that
  are not deleted are still in their slots, and the slots that the processes hold are different. No step faults.\<close>

theorem megaqueue_concurrent_fifo:
  assumes "mq_reachable df qp qr qd s0 s" "mq_fresh s0" "usable qp" "same_queue qp qr" "same_queue qp qd"
  shows "(\<forall>(k, v) \<in> set (ms_got s). k < length (ms_sent s) \<and> v = ms_sent s ! k) \<and>
    ms_deleted s \<le> ms_taken s \<and> ms_taken s \<le> length (ms_sent s) \<and> length (ms_sent s) - ms_deleted s \<le> mq_count qp - 1 \<and>
    (\<forall>i. ms_deleted s \<le> i \<and> i < length (ms_sent s) \<longrightarrow> ms_data s (stride qp * pos (mq_count qp) i) = ms_sent s ! i) \<and>
    (\<forall>r r' a b. ms_prod s = P_Ready r (Some a) \<and> ms_reader s = R_Ready r' (Some b) \<longrightarrow> slot_offset qp a \<noteq> slot_offset qr b) \<and>
    producer_step qp s \<noteq> None \<and> reader_step qr s \<noteq> None \<and> deleter_step qd s \<noteq> None"
proof -
  have ok: "mq_ok df qp qr qd s" using mq_reachable_ok [OF assms] .
  have sh: "shared_ok qp s" using ok by (simp add: mq_ok_def)
  note parts = sh [unfolded shared_ok_def Let_def] and qq = same_queue_simps [OF assms(4)]
  have apart: "slot_offset qp a \<noteq> slot_offset qr b" if "ms_prod s = P_Ready r (Some a)" "ms_reader s = R_Ready r' (Some b)" for r r' a b
  proof -
    have "producer_holds qp s (Some a)" "reader_holds qr s (Some b)" using ok that by (simp_all add: mq_ok_def)
    then show ?thesis
      using parts qq assms(3) stride_inj [of qp "ms_taken s" "length (ms_sent s)"]
        mod_eq_window [of "ms_taken s" "length (ms_sent s)" "mq_count qp"]
      by (auto simp: producer_holds_def reader_holds_def usable_def)
  qed
  have "producer_step qp s \<noteq> None" "reader_step qr s \<noteq> None" "deleter_step qd s \<noteq> None"
    using ok producer_step_ok [of qp s] reader_step_ok [of qp s df qr] deleter_step_ok [of qp s qd] assms(3-5)
    by (auto simp: mq_ok_def)
  moreover have "length (ms_sent s) - ms_deleted s \<le> mq_count qp - 1" using parts by arith
  ultimately show ?thesis using parts apart by blast
qed

text \<open>A run for the witness: the producer sends 7, and writes into its next slot while the reader reads.\<close>

definition demo_run :: "nat mq_sys option" where
  "demo_run =
     do { s \<leftarrow> run_steps (producer_step sample_mq) 3 (demo_sys\<lparr>ms_prod := PN_Head None\<rparr>);
          s \<leftarrow> Some (s\<lparr>ms_data := (ms_data s)(slot_offset sample_mq 0x2000 := 7)\<rparr>);
          s \<leftarrow> run_steps (producer_step sample_mq) 4 (s\<lparr>ms_prod := PA_Full_Head (Some 0x2000)\<rparr>);
          s \<leftarrow> run_steps (reader_step sample_mq) 3 (s\<lparr>ms_reader := RN_Tail\<rparr>);
          Some (s\<lparr>ms_got := ms_got s @ [(ms_taken s, ms_data s (slot_offset sample_mq 0x2000))]\<rparr>) }"

lemma run_steps_producer:
  "run_steps (producer_step qp) n s = Some s' \<Longrightarrow> mq_reachable df qp qr qd s0 s \<Longrightarrow> mq_reachable df qp qr qd s0 s'"
proof (induction n arbitrary: s)
  case (Suc n)
  then obtain x where "producer_step qp s = Some x" "run_steps (producer_step qp) n x = Some s'" by (auto split: Option.bind_splits)
  then show ?case using Suc.IH [of x] mq_reachable.step [OF Suc.prems(2) mq_step.producer] by blast
qed simp

lemma run_steps_reader:
  "run_steps (reader_step qr) n s = Some s' \<Longrightarrow> mq_reachable df qp qr qd s0 s \<Longrightarrow> mq_reachable df qp qr qd s0 s'"
proof (induction n arbitrary: s)
  case (Suc n)
  then obtain x where "reader_step qr s = Some x" "run_steps (reader_step qr) n x = Some s'" by (auto split: Option.bind_splits)
  then show ?case using Suc.IH [of x] mq_reachable.step [OF Suc.prems(2) mq_step.reader] by blast
qed simp

theorem megaqueue_concurrent_fifo_witness:
  "\<exists>s. demo_run = Some s \<and> ms_got s = [(0, 7)] \<and> ms_sent s ! 0 = 7"
proof -
  let ?R = "mq_reachable False sample_mq sample_mq sample_mq demo_sys"
  obtain s1 where s1: "run_steps (producer_step sample_mq) 3 (demo_sys\<lparr>ms_prod := PN_Head None\<rparr>) = Some s1"
    "s1 = demo_sys\<lparr>ms_prod := P_Ready A_OK (Some 0x2000)\<rparr>"
    by (simp add: demo_sys_def sample_mq_def sample_mq_mem_def producer_step_def mod_checked_def count64_def Let_def slot_address_def)
  have "?R (demo_sys\<lparr>ms_prod := PN_Head None\<rparr>)"
    by (rule mq_reachable.step [OF mq_reachable.start mq_step.call_next]) (simp add: demo_sys_def)
  then have r1: "?R s1" using run_steps_producer s1(1) by blast
  let ?s2 = "s1\<lparr>ms_data := (ms_data s1)(slot_offset sample_mq 0x2000 := 7)\<rparr>"
  let ?s3 = "?s2\<lparr>ms_prod := PA_Full_Head (Some 0x2000)\<rparr>"
  have "?R ?s2" by (rule mq_reachable.step [OF r1 mq_step.write_slot]) (simp add: s1(2))
  then have r3: "?R ?s3" by (rule mq_reachable.step [OF _ mq_step.call_advance]) (simp add: s1(2))
  obtain s4 where s4: "run_steps (producer_step sample_mq) 4 ?s3 = Some s4" "ms_reader s4 = R_Ready A_OK None"
    "mh_tail (ms_hdr s4) = 0" "mh_head (ms_hdr s4) = 1" "ms_got s4 = []" "ms_taken s4 = 0" "ms_data s4 0 = 7"
    by (simp add: s1(2) demo_sys_def sample_mq_def sample_mq_mem_def producer_step_def mod_checked_def count64_def Let_def
      slot_address_def slot_offset_def)
  have "?R (s4\<lparr>ms_reader := RN_Tail\<rparr>)"
    using run_steps_producer [OF s4(1) r3] s4(2) mq_reachable.step mq_step.call_read by metis
  moreover obtain s5 where s5: "run_steps (reader_step sample_mq) 3 (s4\<lparr>ms_reader := RN_Tail\<rparr>) = Some s5"
    "ms_reader s5 = R_Ready A_OK (Some 0x2000)" "ms_got s5 = []" "ms_taken s5 = 0" "ms_data s5 0 = 7"
    using s4(3-7) by (simp add: sample_mq_def reader_step_def Let_def slot_address_def)
  ultimately have r5: "?R s5" using run_steps_reader by blast
  let ?s6 = "s5\<lparr>ms_got := ms_got s5 @ [(ms_taken s5, ms_data s5 (slot_offset sample_mq 0x2000))]\<rparr>"
  have r6: "?R ?s6" by (rule mq_reachable.step [OF r5 mq_step.read_slot [OF s5(2)]])
  have "demo_run = Some ?s6" by (simp only: demo_run_def s1(1) s4(1) s5(1) bind.bind_lunit)
  moreover have got: "ms_got ?s6 = [(0, 7)]" using s5 by (simp add: slot_offset_def sample_mq_def)
  ultimately show ?thesis
    using megaqueue_concurrent_fifo [OF r6 demo_sys_fresh(1-3,3)] by auto
qed

text \<open>The queue holds \<open>object_count - 1\<close> values that are not deleted.\<close>

definition mq_full :: "megaqueue \<Rightarrow> 'v mq_sys \<Rightarrow> bool" where
  "mq_full q s \<longleftrightarrow> length (ms_sent s) - ms_deleted s = mq_count q - 1"

lemma room_not_full:
  assumes "mq_ok df qp qr qd s"
  shows "room qp s \<longleftrightarrow> \<not> mq_full qp s"
  using assms by (auto simp: mq_ok_def shared_ok_def Let_def room_def mq_full_def)

text \<open>The accesses at which the producer decides whether the queue is full.\<close>

lemma producer_decides:
  assumes ok: "mq_ok df qp qr qd s" and u: "usable qp" and st: "producer_step qp s = Some p"
  shows "ms_prod s = PN_Full_Delete slot h hv \<Longrightarrow> ms_prod p =
      (if mq_full qp s then P_Ready A_E_NOSPC slot else P_Ready A_OK (Some (slot_address qp (mh_head (ms_hdr s)))))"
    "ms_prod s = PA_Full_Delete slot hv \<Longrightarrow> ms_prod p = (if mq_full qp s then P_Ready A_E_NOSPC slot else PA_Head slot)"
proof -
  note parts = ok [unfolded mq_ok_def shared_ok_def Let_def]
  have n: "0 < mq_count qp" using u by (simp add: usable_def)
  note m = mod_checked_pos [OF n, of "length (ms_sent s)"]
  have full: "pos (mq_count qp) (ms_deleted s) = pos (mq_count qp) (Suc (length (ms_sent s))) \<longleftrightarrow> mq_full qp s"
    using parts pos_full [OF n, of "ms_deleted s" "length (ms_sent s)"] room_not_full [OF ok] by (auto simp: room_def)
  have head: "mh_head (ms_hdr s) = pos (mq_count qp) (length (ms_sent s))" "mh_delete (ms_hdr s) = pos (mq_count qp) (ms_deleted s)"
    using parts by simp_all
  show "ms_prod s = PN_Full_Delete slot h hv \<Longrightarrow> ms_prod p =
      (if mq_full qp s then P_Ready A_E_NOSPC slot else P_Ready A_OK (Some (slot_address qp (mh_head (ms_hdr s)))))"
    "ms_prod s = PA_Full_Delete slot hv \<Longrightarrow> ms_prod p = (if mq_full qp s then P_Ready A_E_NOSPC slot else PA_Head slot)"
    using ok st m full head by (auto simp: mq_ok_def producer_step_def split: if_splits)
qed

text \<open>A process inside a call is moved by its own steps only.\<close>

lemma in_call_moves:
  assumes "mq_step df qp qr qd s s'" "producer_step qp s = Some p" "reader_step qr s = Some r" "deleter_step qd s = Some d"
  shows "0 < producer_left (ms_prod s) \<Longrightarrow> s' = p \<or> ms_prod s' = ms_prod s"
    "0 < reader_left (ms_reader s) \<Longrightarrow> s' = r \<or> ms_reader s' = ms_reader s"
    "0 < deleter_left (ms_deleter s) \<Longrightarrow> s' = d \<or> ms_deleter s' = ms_deleter s"
  using assms by (cases rule: mq_step.cases; auto dest: step_frame)+

text \<open>Claim C18. For every interleaving, at every point: each of the three processes can make its next access. At the access that
  decides, \<open>megaqueue_next_slot\<close> and \<open>megaqueue_advance\<close> answer \<open>A_E_NOSPC\<close> if and only if the queue is full at this
  moment, otherwise they go on. A producer that holds a slot can publish it, \<open>megaqueue_advance\<close> does not find the queue full,
  and a reader that holds a slot can give it back. A call never waits for another process: a process inside a call is moved
  by its own accesses only, each of which brings it closer to its return, at most 4 for the producer and the deleter and 5 for the reader.\<close>

theorem megaqueue_concurrent_calls:
  assumes "mq_reachable df qp qr qd s0 s" "mq_fresh s0" "usable qp" "same_queue qp qr" "same_queue qp qd"
  shows "\<exists>p r d. producer_step qp s = Some p \<and> reader_step qr s = Some r \<and> deleter_step qd s = Some d \<and>
    (\<forall>slot h hv. ms_prod s = PN_Full_Delete slot h hv \<longrightarrow> ms_prod p =
       (if mq_full qp s then P_Ready A_E_NOSPC slot else P_Ready A_OK (Some (slot_address qp (mh_head (ms_hdr s)))))) \<and>
    (\<forall>slot hv. ms_prod s = PA_Full_Delete slot hv \<longrightarrow> ms_prod p = (if mq_full qp s then P_Ready A_E_NOSPC slot else PA_Head slot)) \<and>
    (\<forall>slot hv. ms_prod s = PA_Full_Delete (Some slot) hv \<longrightarrow> ms_prod p = PA_Head (Some slot)) \<and>
    (\<forall>kind slot hv. ms_reader s = RA_Empty_Tail kind (Some slot) hv \<longrightarrow> ms_reader r = RA_Tail kind (Some slot)) \<and>
    producer_left (ms_prod s) \<le> 4 \<and> reader_left (ms_reader s) \<le> 5 \<and> deleter_left (ms_deleter s) \<le> 4 \<and>
    (0 < producer_left (ms_prod s) \<longrightarrow> producer_left (ms_prod p) < producer_left (ms_prod s) \<and>
       (\<forall>s'. mq_step df qp qr qd s s' \<longrightarrow> s' = p \<or> ms_prod s' = ms_prod s)) \<and>
    (0 < reader_left (ms_reader s) \<longrightarrow> reader_left (ms_reader r) < reader_left (ms_reader s) \<and>
       (\<forall>s'. mq_step df qp qr qd s s' \<longrightarrow> s' = r \<or> ms_reader s' = ms_reader s)) \<and>
    (0 < deleter_left (ms_deleter s) \<longrightarrow> deleter_left (ms_deleter d) < deleter_left (ms_deleter s) \<and>
       (\<forall>s'. mq_step df qp qr qd s s' \<longrightarrow> s' = d \<or> ms_deleter s' = ms_deleter s))"
proof -
  have ok: "mq_ok df qp qr qd s" using mq_reachable_ok [OF assms] .
  obtain p r d where st: "producer_step qp s = Some p" "reader_step qr s = Some r" "deleter_step qd s = Some d"
    using ok producer_step_ok [of qp s] reader_step_ok [of qp s df qr] deleter_step_ok [of qp s qd] assms(3-5)
    by (auto simp: mq_ok_def)
  have held: "ms_prod p = PA_Head (Some slot)" if "ms_prod s = PA_Full_Delete (Some slot) hv" for slot hv
  proof -
    have "room qp s" using ok that by (simp add: mq_ok_def producer_holds_def)
    then show ?thesis using producer_decides(2) [OF ok assms(3) st(1) that] room_not_full [OF ok] by simp
  qed
  have give_back: "ms_reader r = RA_Tail kind (Some slot)" if "ms_reader s = RA_Empty_Tail kind (Some slot) hv" for kind slot hv
  proof -
    have "hv \<noteq> mh_tail (ms_hdr s)" using ok that by (simp add: mq_ok_def)
    then show ?thesis using that st(2) by (auto simp: reader_step_def)
  qed
  have closer: "0 < producer_left (ms_prod s) \<longrightarrow> producer_left (ms_prod p) < producer_left (ms_prod s)"
    "0 < reader_left (ms_reader s) \<longrightarrow> reader_left (ms_reader r) < reader_left (ms_reader s)"
    "0 < deleter_left (ms_deleter s) \<longrightarrow> deleter_left (ms_deleter d) < deleter_left (ms_deleter s)"
    using producer_closer [OF st(1)] reader_closer [OF st(2)] deleter_closer [OF st(3)] by linarith+
  show ?thesis
    by (rule exI [of _ p], rule exI [of _ r], rule exI [of _ d])
       (use st producer_decides [OF ok assms(3) st(1)] held give_back left_bounds in_call_moves [OF _ st] closer in blast)
qed

text \<open>Two states of the queue with three slots: the producer is about to publish the slot it holds; and two values are in the queue and
  the producer asks for a third slot.\<close>

theorem megaqueue_concurrent_calls_witness:
  "(\<exists>s p. run_steps (producer_step sample_mq) 1 (demo_sys\<lparr>ms_prod := PA_Full_Head (Some 0x2000)\<rparr>) = Some s \<and>
     producer_step sample_mq s = Some p \<and> ms_prod p = PA_Head (Some 0x2000)) \<and>
   (\<exists>s1 s2 s p. run_steps (producer_step sample_mq) 4 (demo_sys\<lparr>ms_prod := PA_Full_Head None\<rparr>) = Some s1 \<and>
     run_steps (producer_step sample_mq) 4 (s1\<lparr>ms_prod := PA_Full_Head None\<rparr>) = Some s2 \<and>
     run_steps (producer_step sample_mq) 2 (s2\<lparr>ms_prod := PN_Head None\<rparr>) = Some s \<and>
     producer_step sample_mq s = Some p \<and> ms_prod p = P_Ready A_E_NOSPC None)"
proof
  let ?R = "mq_reachable False sample_mq sample_mq sample_mq demo_sys"
  let ?run = "run_steps (producer_step sample_mq)"
  note calls = megaqueue_concurrent_calls [OF _ demo_sys_fresh(1-3,3)]
  note eval = demo_sys_def sample_mq_def sample_mq_mem_def producer_step_def mod_checked_def count64_def Let_def slot_address_def
  have ready: "?R (demo_sys\<lparr>ms_prod := P_Ready A_OK (Some 0x2000)\<rparr>)"
  proof -
    have "?R (demo_sys\<lparr>ms_prod := PN_Head None\<rparr>)"
      by (rule mq_reachable.step [OF mq_reachable.start mq_step.call_next]) (simp add: demo_sys_def)
    moreover have "?run 3 (demo_sys\<lparr>ms_prod := PN_Head None\<rparr>) = Some (demo_sys\<lparr>ms_prod := P_Ready A_OK (Some 0x2000)\<rparr>)"
      by (simp add: eval)
    ultimately show ?thesis using run_steps_producer by blast
  qed
  have "?R (demo_sys\<lparr>ms_prod := PA_Full_Head (Some 0x2000)\<rparr>)"
    using mq_reachable.step [OF ready mq_step.call_advance [of _ A_OK "Some 0x2000"]] by simp
  moreover have s: "?run 1 (demo_sys\<lparr>ms_prod := PA_Full_Head (Some 0x2000)\<rparr>) = Some (demo_sys\<lparr>ms_prod := PA_Full_Delete (Some 0x2000) 0\<rparr>)"
    by (simp add: eval)
  ultimately have "?R (demo_sys\<lparr>ms_prod := PA_Full_Delete (Some 0x2000) 0\<rparr>)" using run_steps_producer by blast
  from calls [OF this] have "\<exists>p. producer_step sample_mq (demo_sys\<lparr>ms_prod := PA_Full_Delete (Some 0x2000) 0\<rparr>) = Some p \<and>
      ms_prod p = PA_Head (Some 0x2000)"
    by auto
  then show "\<exists>s p. ?run 1 (demo_sys\<lparr>ms_prod := PA_Full_Head (Some 0x2000)\<rparr>) = Some s \<and>
     producer_step sample_mq s = Some p \<and> ms_prod p = PA_Head (Some 0x2000)"
    using s by blast
next
  let ?R = "mq_reachable False sample_mq sample_mq sample_mq demo_sys"
  let ?run = "run_steps (producer_step sample_mq)"
  note calls = megaqueue_concurrent_calls [OF _ demo_sys_fresh(1-3,3)]
  note eval = demo_sys_def sample_mq_def sample_mq_mem_def producer_step_def mod_checked_def count64_def Let_def slot_address_def slot_offset_def
  have call: "?R u" if "?R t" "ms_prod t = P_Ready A_OK None" "?run n (t\<lparr>ms_prod := pc\<rparr>) = Some u" "pc = PA_Full_Head None \<or> pc = PN_Head None"
    for t u n pc
    using that mq_reachable.step [OF that(1) mq_step.call_advance] mq_reachable.step [OF that(1) mq_step.call_next] run_steps_producer by blast
  let ?s1 = "demo_sys\<lparr>ms_hdr := (ms_hdr demo_sys)\<lparr>mh_head := 1\<rparr>, ms_sent := [0]\<rparr>"
  let ?s2 = "demo_sys\<lparr>ms_hdr := (ms_hdr demo_sys)\<lparr>mh_head := 2\<rparr>, ms_sent := [0, 0]\<rparr>"
  have s1: "?run 4 (demo_sys\<lparr>ms_prod := PA_Full_Head None\<rparr>) = Some ?s1" by (simp add: eval)
  have s2: "?run 4 (?s1\<lparr>ms_prod := PA_Full_Head None\<rparr>) = Some ?s2" by (simp add: eval)
  let ?s = "?s2\<lparr>ms_prod := PN_Full_Delete None 2 2\<rparr>"
  have s: "?run 2 (?s2\<lparr>ms_prod := PN_Head None\<rparr>) = Some ?s" by (simp add: eval)
  have pc: "ms_prod demo_sys = P_Ready A_OK None" by (simp add: demo_sys_def)
  have "?R ?s" using call [OF call [OF call [OF mq_reachable.start pc s1] _ s2] _ s] pc by simp
  from calls [OF this] have "\<exists>p. producer_step sample_mq ?s = Some p \<and> ms_prod p = P_Ready A_E_NOSPC None"
    by (auto simp: mq_full_def demo_sys_def sample_mq_def mq_count_def)
  then show "\<exists>s1 s2 s p. ?run 4 (demo_sys\<lparr>ms_prod := PA_Full_Head None\<rparr>) = Some s1 \<and>
     ?run 4 (s1\<lparr>ms_prod := PA_Full_Head None\<rparr>) = Some s2 \<and> ?run 2 (s2\<lparr>ms_prod := PN_Head None\<rparr>) = Some s \<and>
     producer_step sample_mq s = Some p \<and> ms_prod p = P_Ready A_E_NOSPC None"
    using s1 s2 s by blast
qed

text \<open>The theorem needs equal object sizes: a reader that opens an existing queue with a smaller object size keeps its own
  size, although the code announces to take the queue's, and looks for the second object inside the first.\<close>

lemma open_existing_keeps_own_size:
  assumes "megaqueue_open os m (Some q) mode name obj_size obj_count = (A_OK, Some q', m', calls)" "mode AND O_CREAT = 0"
  shows "mq_object_size q' = ucast obj_size" "obj_size \<le> mh_object_size (m (os_mmap os))"
  using assms by (auto simp: megaqueue_open_def Let_def not_less split: option.splits if_splits prod.splits)

end
