(* ===== verification/Work_Queue.thy ===== *)
theory Work_Queue
  imports Bounded_Queue
begin

section \<open>Work queues (tsl/work_queue.h)\<close>

text \<open>
  A work queue wraps a ring of the concurrency kit (\<open>ck_ring\<close>), which is not part of this
  repository: its operations are the parameter \<open>ck\<close> of the definitions, a ring together with its buffer
  is a value of type \<open>'r\<close>, and what the documentation of \<open>ck_ring\<close> promises is the locale
  \<open>ck_ring_contract\<close>: a ring of size \<open>n\<close>, a power of two of at least 4, holds up to \<open>n - 1\<close> entries in FIFO order, the enqueue and dequeue
  operations return true if and only if they have stored or taken an entry.
\<close>

subsection \<open>The ring\<close>

record 'r ck_ring =
  ck_ring_init :: "u32 \<Rightarrow> 'r"
  ck_ring_enqueue_spsc :: "'r \<Rightarrow> addr \<Rightarrow> bool \<times> 'r"
  ck_ring_dequeue_spsc :: "'r \<Rightarrow> addr \<Rightarrow> bool \<times> addr \<times> 'r"
  ck_ring_enqueue_spmc :: "'r \<Rightarrow> addr \<Rightarrow> bool \<times> 'r"
  ck_ring_dequeue_spmc :: "'r \<Rightarrow> addr \<Rightarrow> bool \<times> addr \<times> 'r"
  ck_ring_size :: "'r \<Rightarrow> u32"
  ck_ring_capacity :: "'r \<Rightarrow> u32"

text \<open>The second argument of a dequeue is the content of the location that receives the entry.\<close>

subsection \<open>State and operations\<close>

record 'r work_queue =
  wq_fifo :: 'r
  wq_max_items :: u64
  wq_buffer :: addr

text \<open>\<open>struct work_queue_spmc\<close> has a work queue as its only member.\<close>

record 'r work_queue_spmc =
  spmc_q :: "'r work_queue"

text \<open>\<open>buf\<close> is the address of the new buffer, NULL if \<open>calloc\<close> fails. A zeroed ring is \<open>zero\<close>.
  \<open>ck_ring_init\<close> takes an \<open>unsigned int\<close>, so the \<open>size_t\<close> passed to it is cut to 32 bits.\<close>

definition work_queue_new ::
  "'r ck_ring \<Rightarrow> 'r \<Rightarrow> addr \<Rightarrow> 'r work_queue option \<Rightarrow> u64 \<Rightarrow> aresult_t \<times> 'r work_queue option" where
  "work_queue_new ck zero buf queue max_items =
     (case queue of
        None \<Rightarrow> (A_E_BADARGS, None)
      | Some q \<Rightarrow>
          if \<not> max_items > 4 then (A_E_BADARGS, Some q)
          else if \<not> max_items AND (max_items - 1) = 0 then (A_E_BADARGS, Some q)
          else if buf = NULL then (A_E_NOMEM, Some \<lparr>wq_fifo = zero, wq_max_items = 0, wq_buffer = NULL\<rparr>)
          else (A_OK, Some \<lparr>wq_fifo = ck_ring_init ck (ucast max_items), wq_max_items = max_items, wq_buffer = buf\<rparr>))"

definition work_queue_release :: "'r \<Rightarrow> 'r work_queue option \<Rightarrow> aresult_t \<times> 'r work_queue option" where
  "work_queue_release zero queue =
     (case queue of
        None \<Rightarrow> (A_E_BADARGS, None)
      | Some q \<Rightarrow> (A_OK, Some \<lparr>wq_fifo = zero, wq_max_items = 0, wq_buffer = NULL\<rparr>))"

definition work_queue_push ::
  "'r ck_ring \<Rightarrow> 'r work_queue option \<Rightarrow> addr \<Rightarrow> aresult_t \<times> 'r work_queue option" where
  "work_queue_push ck queue ptr =
     (case queue of
        None \<Rightarrow> (A_E_BADARGS, None)
      | Some q \<Rightarrow>
          if \<not> ptr \<noteq> NULL then (A_E_BADARGS, Some q)
          else if \<not> wq_buffer q \<noteq> NULL then (A_E_BADARGS, Some q)
          else case ck_ring_enqueue_spsc ck (wq_fifo q) ptr of
                 (ok, r) \<Rightarrow> (if ok = False then A_E_BUSY else A_OK, Some (q\<lparr>wq_fifo := r\<rparr>)))"

definition work_queue_pop ::
  "'r ck_ring \<Rightarrow> 'r work_queue option \<Rightarrow> addr option \<Rightarrow> aresult_t \<times> 'r work_queue option \<times> addr option" where
  "work_queue_pop ck queue ptr =
     (case (queue, ptr) of
        (None, _) \<Rightarrow> (A_E_BADARGS, None, ptr)
      | (Some q, None) \<Rightarrow> (A_E_BADARGS, Some q, ptr)
      | (Some q, Some p) \<Rightarrow>
          if \<not> wq_buffer q \<noteq> NULL then (A_E_BADARGS, Some q, ptr)
          else case ck_ring_dequeue_spsc ck (wq_fifo q) p of
                 (ok, p, r) \<Rightarrow> (A_OK, Some (q\<lparr>wq_fifo := r\<rparr>), Some (if ok = False then NULL else p)))"

definition work_queue_fill ::
  "'r ck_ring \<Rightarrow> 'r work_queue option \<Rightarrow> u32 option \<Rightarrow> aresult_t \<times> u32 option" where
  "work_queue_fill ck queue fill =
     (case (queue, fill) of
        (Some q, Some f) \<Rightarrow>
          if \<not> wq_buffer q \<noteq> NULL then (A_E_BADARGS, fill)
          else (A_OK, Some (ck_ring_size ck (wq_fifo q)))
      | _ \<Rightarrow> (A_E_BADARGS, fill))"

definition work_queue_size ::
  "'r ck_ring \<Rightarrow> 'r work_queue option \<Rightarrow> u32 option \<Rightarrow> aresult_t \<times> u32 option" where
  "work_queue_size ck queue sz =
     (case (queue, sz) of
        (Some q, Some f) \<Rightarrow>
          if \<not> wq_buffer q \<noteq> NULL then (A_E_BADARGS, sz)
          else (A_OK, Some (ck_ring_capacity ck (wq_fifo q)))
      | _ \<Rightarrow> (A_E_BADARGS, sz))"

text \<open>The SPMC variants. \<open>q\<close> is not checked against NULL: \<open>&q->q\<close> of a NULL pointer is NULL, since \<open>q\<close> is
  the first member, and other accesses fault.\<close>

definition work_queue_spmc_new ::
  "'r ck_ring \<Rightarrow> 'r \<Rightarrow> addr \<Rightarrow> 'r work_queue_spmc option \<Rightarrow> u64 \<Rightarrow> aresult_t \<times> 'r work_queue_spmc option" where
  "work_queue_spmc_new ck zero buf q nr_items =
     (case work_queue_new ck zero buf (map_option spmc_q q) nr_items of
        (r, q') \<Rightarrow> (r, map_option (\<lambda>w. \<lparr>spmc_q = w\<rparr>) q'))"

definition work_queue_spmc_push ::
  "'r ck_ring \<Rightarrow> 'r work_queue_spmc option \<Rightarrow> addr \<Rightarrow> (aresult_t \<times> 'r work_queue_spmc) option" where
  "work_queue_spmc_push ck q message =
     do { q \<leftarrow> q;
          let (ok, r) = ck_ring_enqueue_spmc ck (wq_fifo (spmc_q q)) message;
          Some (if ok then A_E_BUSY else A_OK, \<lparr>spmc_q = (spmc_q q)\<lparr>wq_fifo := r\<rparr>\<rparr>) }"

definition work_queue_spmc_pop ::
  "'r ck_ring \<Rightarrow> 'r work_queue_spmc option \<Rightarrow> addr option \<Rightarrow> (aresult_t \<times> addr \<times> 'r work_queue_spmc) option" where
  "work_queue_spmc_pop ck q message =
     do { q \<leftarrow> q;
          msg \<leftarrow> message;
          let (ok, p, r) = ck_ring_dequeue_spmc ck (wq_fifo (spmc_q q)) msg;
          Some (if ok then A_E_EMPTY else A_OK, p, \<lparr>spmc_q = (spmc_q q)\<lparr>wq_fifo := r\<rparr>\<rparr>) }"

definition work_queue_spmc_release ::
  "'r \<Rightarrow> 'r work_queue_spmc option \<Rightarrow> aresult_t \<times> 'r work_queue_spmc option" where
  "work_queue_spmc_release zero q =
     (case work_queue_release zero (map_option spmc_q q) of
        (r, q') \<Rightarrow> (r, map_option (\<lambda>w. \<lparr>spmc_q = w\<rparr>) q'))"

subsection \<open>The contract of the ring\<close>

locale ck_ring_contract =
  fixes ck :: "'r ck_ring" and contents :: "'r \<Rightarrow> addr list" and slots :: "'r \<Rightarrow> nat"
  assumes init: "4 \<le> n \<Longrightarrow> n AND (n - 1) = 0 \<Longrightarrow> contents (ck_ring_init ck n) = [] \<and> slots (ck_ring_init ck n) = unat n"
    and enqueue_spsc: "ck_ring_enqueue_spsc ck r x = (ok, r') \<Longrightarrow>
      (ok \<longleftrightarrow> length (contents r) + 1 < slots r) \<and> slots r' = slots r \<and>
      contents r' = (if ok then contents r @ [x] else contents r)"
    and dequeue_spsc: "ck_ring_dequeue_spsc ck r p = (ok, p', r') \<Longrightarrow>
      (ok \<longleftrightarrow> contents r \<noteq> []) \<and> slots r' = slots r \<and>
      (if ok then contents r = p' # contents r' else p' = p \<and> contents r' = contents r)"
    and enqueue_spmc: "ck_ring_enqueue_spmc ck r x = (ok, r') \<Longrightarrow>
      (ok \<longleftrightarrow> length (contents r) + 1 < slots r) \<and> slots r' = slots r \<and>
      contents r' = (if ok then contents r @ [x] else contents r)"
    and dequeue_spmc: "ck_ring_dequeue_spmc ck r p = (ok, p', r') \<Longrightarrow>
      (ok \<longleftrightarrow> contents r \<noteq> []) \<and> slots r' = slots r \<and>
      (if ok then contents r = p' # contents r' else p' = p \<and> contents r' = contents r)"
    and size: "length (contents r) < 2 ^ 32 \<Longrightarrow> unat (ck_ring_size ck r) = length (contents r)"
begin

text \<open>A work queue on the ring, with the calls that the offload pool makes: push, and a pop whose
  empty answer is a NULL pointer.\<close>

lemma push_result:
  assumes "wq_buffer q \<noteq> NULL" "x \<noteq> NULL"
  shows "\<exists>r'. work_queue_push ck (Some q) x =
      (if length (contents (wq_fifo q)) + 1 < slots (wq_fifo q) then A_OK else A_E_BUSY, Some (q\<lparr>wq_fifo := r'\<rparr>)) \<and>
    slots r' = slots (wq_fifo q) \<and>
    contents r' = (if length (contents (wq_fifo q)) + 1 < slots (wq_fifo q) then contents (wq_fifo q) @ [x]
                   else contents (wq_fifo q))"
  using assms enqueue_spsc [of "wq_fifo q" x]
  by (cases "ck_ring_enqueue_spsc ck (wq_fifo q) x") (auto simp: work_queue_push_def)

lemma pop_result:
  assumes "wq_buffer q \<noteq> NULL"
  shows "\<exists>r'. slots r' = slots (wq_fifo q) \<and>
    (case contents (wq_fifo q) of
       [] \<Rightarrow> work_queue_pop ck (Some q) (Some p) = (A_OK, Some (q\<lparr>wq_fifo := r'\<rparr>), Some NULL) \<and> contents r' = []
     | x # xs \<Rightarrow> work_queue_pop ck (Some q) (Some p) = (A_OK, Some (q\<lparr>wq_fifo := r'\<rparr>), Some x) \<and> contents r' = xs)"
  using assms dequeue_spsc [of "wq_fifo q" p]
  by (cases "ck_ring_dequeue_spsc ck (wq_fifo q) p"; cases "contents (wq_fifo q)")
     (auto simp: work_queue_pop_def split: if_splits)

lemma spmc_push_result:
  fixes q :: "'r work_queue_spmc"
  defines "r \<equiv> wq_fifo (spmc_q q)"
  shows "\<exists>q'. work_queue_spmc_push ck (Some q) x =
      Some (if length (contents r) + 1 < slots r then A_E_BUSY else A_OK, q') \<and>
    contents (wq_fifo (spmc_q q')) = (if length (contents r) + 1 < slots r then contents r @ [x] else contents r)"
proof -
  obtain ok r' where e: "ck_ring_enqueue_spmc ck r x = (ok, r')" by fastforce
  then show ?thesis
    using enqueue_spmc [OF e] by (simp add: work_queue_spmc_push_def r_def)
qed

lemma spmc_pop_result:
  fixes q :: "'r work_queue_spmc"
  defines "r \<equiv> wq_fifo (spmc_q q)"
  shows "\<exists>q'. work_queue_spmc_pop ck (Some q) (Some p) =
    (case contents r of [] \<Rightarrow> Some (A_OK, p, q') | y # ys \<Rightarrow> Some (A_E_EMPTY, y, q'))"
proof -
  obtain ok p' r' where e: "ck_ring_dequeue_spmc ck r p = (ok, p', r')" by (metis surj_pair)
  then show ?thesis
    using dequeue_spmc [OF e] by (cases "contents r") (auto simp: work_queue_spmc_pop_def r_def)
qed

end

definition wq_enq :: "'r ck_ring \<Rightarrow> 'r work_queue \<Rightarrow> addr \<Rightarrow> (aresult_t \<times> 'r work_queue) option" where
  "wq_enq ck q x = (case work_queue_push ck (Some q) x of (r, q') \<Rightarrow> map_option (Pair r) q')"

definition wq_deq :: "'r ck_ring \<Rightarrow> 'r work_queue \<Rightarrow> (aresult_t \<times> addr option \<times> 'r work_queue) option" where
  "wq_deq ck q =
     (case work_queue_pop ck (Some q) (Some NULL) of
        (r, Some q', Some p) \<Rightarrow> Some (r, if p = NULL then None else Some p, q')
      | _ \<Rightarrow> None)"

definition wq_inv :: "('r \<Rightarrow> addr list) \<Rightarrow> ('r \<Rightarrow> nat) \<Rightarrow> nat \<Rightarrow> 'r work_queue \<Rightarrow> bool" where
  "wq_inv contents slots n q \<longleftrightarrow>
     wq_buffer q \<noteq> NULL \<and> slots (wq_fifo q) = n \<and> NULL \<notin> set (contents (wq_fifo q))"

locale ring_work_queue = ck_ring_contract ck contents slots
  for ck :: "'r ck_ring" and contents :: "'r \<Rightarrow> addr list" and slots :: "'r \<Rightarrow> nat" +
  fixes n :: nat

sublocale ring_work_queue \<subseteq> wq: bounded_fifo "- {NULL}" "wq_inv contents slots n" "\<lambda>q. contents (wq_fifo q)" "n - 1"
  A_E_BUSY A_OK "wq_enq ck" "wq_deq ck"
proof unfold_locales
  fix q :: "'r work_queue" and x :: addr and xs
  assume inv: "wq_inv contents slots n q"
  then have q: "wq_buffer q \<noteq> NULL" "slots (wq_fifo q) = n" "NULL \<notin> set (contents (wq_fifo q))"
    by (auto simp: wq_inv_def)
  show "\<exists>q'. wq_enq ck q x = Some (A_OK, q') \<and> wq_inv contents slots n q' \<and> contents (wq_fifo q') = contents (wq_fifo q) @ [x]"
    if "x \<in> - {NULL}" "length (contents (wq_fifo q)) < n - 1"
    using push_result [OF q(1), of x] q that by (auto simp: wq_enq_def wq_inv_def)
  show "\<exists>q'. wq_enq ck q x = Some (A_E_BUSY, q') \<and> wq_inv contents slots n q' \<and> contents (wq_fifo q') = contents (wq_fifo q)"
    if "x \<in> - {NULL}" "\<not> length (contents (wq_fifo q)) < n - 1"
    using push_result [OF q(1), of x] q that by (auto simp: wq_enq_def wq_inv_def)
  show "\<exists>q'. wq_deq ck q = Some (A_OK, Some x, q') \<and> wq_inv contents slots n q' \<and> contents (wq_fifo q') = xs"
    if "contents (wq_fifo q) = x # xs"
    using pop_result [OF q(1), of NULL] q that by (auto simp: wq_deq_def wq_inv_def)
  show "\<exists>q'. wq_deq ck q = Some (A_OK, None, q') \<and> wq_inv contents slots n q' \<and> contents (wq_fifo q') = []"
    if "contents (wq_fifo q) = []"
    using pop_result [OF q(1), of NULL] q that by (auto simp: wq_deq_def wq_inv_def)
qed

context ring_work_queue
begin

lemmas work_queue_run = wq.run_refines

end

subsection \<open>Properties\<close>

text \<open>A ring as a size and a list of entries keeps the contract.\<close>

definition list_ring :: "(nat \<times> addr list) ck_ring" where
  "list_ring =
     \<lparr>ck_ring_init = (\<lambda>n. (unat n, [])),
      ck_ring_enqueue_spsc = (\<lambda>(n, xs) x. if length xs + 1 < n then (True, n, xs @ [x]) else (False, n, xs)),
      ck_ring_dequeue_spsc = (\<lambda>(n, xs) p. case xs of [] \<Rightarrow> (False, p, n, []) | y # ys \<Rightarrow> (True, y, n, ys)),
      ck_ring_enqueue_spmc = (\<lambda>(n, xs) x. if length xs + 1 < n then (True, n, xs @ [x]) else (False, n, xs)),
      ck_ring_dequeue_spmc = (\<lambda>(n, xs) p. case xs of [] \<Rightarrow> (False, p, n, []) | y # ys \<Rightarrow> (True, y, n, ys)),
      ck_ring_size = (\<lambda>(n, xs). of_nat (length xs)),
      ck_ring_capacity = (\<lambda>(n, xs). of_nat n)\<rparr>"

interpretation list_ring: ck_ring_contract list_ring snd fst
  by unfold_locales
     (auto simp: list_ring_def case_prod_unfold unat_of_nat split: if_splits list.splits)

text \<open>Powers of two cut to 32 bits.\<close>

lemma ucast_u32_pred: "(ucast (n :: u64) :: u32) - 1 = ucast (n - 1)"
proof -
  have "(m mod 0x10000000000000000 - 1) mod 0x100000000 = (m - 1) mod (0x100000000 :: int)" for m
    using mod_diff_left_eq [of "m mod 0x10000000000000000" "0x100000000" 1] mod_diff_left_eq [of m "0x100000000" 1]
      mod_mod_cancel [of "0x100000000" "0x10000000000000000" m] by simp
  then show ?thesis by transfer (simp add: take_bit_eq_mod mod_mod_cancel mod_diff_left_eq mod_simps)
qed

lemma ucast_mod_0: "unat (n :: u64) mod 2 ^ 32 = 0 \<Longrightarrow> (ucast n :: u32) = 0"
  by (simp add: word_unat_eq_iff unsigned_ucast_eq take_bit_eq_mod)

lemma div_pred_same: "(m :: nat) mod d \<noteq> 0 \<Longrightarrow> (m - 1) div d = m div d"
  by (cases m) (auto simp: div_Suc)

lemma ucast_power_of_two:
  fixes n :: u64
  assumes "n AND (n - 1) = 0" "n < 2 ^ 32"
  shows "(ucast n :: u32) AND (ucast n - 1) = 0" "unat (ucast n :: u32) = unat n"
proof -
  have "(ucast n :: u32) - 1 = ucast (n - 1)" by (rule ucast_u32_pred)
  then have "(ucast n :: u32) AND (ucast n - 1) = ucast (n AND (n - 1))" by (simp only: unsigned_and_eq)
  then show "(ucast n :: u32) AND (ucast n - 1) = 0" using assms(1) by simp
  have "unat n < 2 ^ 32" using assms(2) by (simp add: word_less_nat_alt)
  then show "unat (ucast n :: u32) = unat n" by (simp add: unsigned_ucast_eq take_bit_nat_eq_self)
qed

lemma ucast_large_power_of_two:
  fixes n :: u64
  assumes "n AND (n - 1) = 0" "\<not> n < 2 ^ 32"
  shows "(ucast n :: u32) = 0"
proof (rule ccontr)
  assume "(ucast n :: u32) \<noteq> 0"
  then have "unat n mod 2 ^ 32 \<noteq> 0" by (metis (no_types) ucast_mod_0)
  then have "(unat n - 1) div 2 ^ 32 = unat n div 2 ^ 32" by (rule div_pred_same)
  moreover have "n \<noteq> 0" using assms(2) by auto
  ultimately have "drop_bit 32 (n - 1) = drop_bit 32 n"
    by (simp add: word_unat_eq_iff unat_drop_bit_eq drop_bit_eq_div unat_minus_one unat_div)
  then have "drop_bit 32 (n AND (n - 1)) = drop_bit 32 n" by (simp add: drop_bit_and)
  then have "unat n div 2 ^ 32 = 0" using assms(1) by (simp add: word_unat_eq_iff unat_drop_bit_eq drop_bit_eq_div unat_div)
  then show False using assms(2) by (simp add: word_less_nat_alt div_eq_0_iff)
qed

text \<open>Claim C34. 
  A work queue is a bounded FIFO. \<open>work_queue_new\<close> accepts exactly the powers of two above 4; on the queue
  it makes for fewer than 2 to the 32 items, any sequence of pushes of non-NULL pointers and pops gives the results of a list that
  holds up to \<open>max_items - 1\<close> items: a push on a full queue answers \<open>A_E_BUSY\<close> and changes nothing, a pop
  of an empty queue answers \<open>A_OK\<close> with NULL. From 2 to the 32 items on \<open>work_queue_new\<close> answers \<open>A_OK\<close> as well, but has initialised the
  ring with the size 0. The hypothesis is the documented behaviour of \<open>ck_ring\<close>.
\<close>

theorem work_queue_is_fifo:
  assumes ring: "ck_ring_contract ck contents slots" and buf: "buf \<noteq> NULL" and cs: "NULL \<notin> cmd_values cs"
  shows "(max_items > 4 \<and> max_items AND (max_items - 1) = 0 \<longrightarrow>
           (\<exists>q. work_queue_new ck zero buf (Some q0) max_items = (A_OK, Some q) \<and>
             (if max_items < 2 ^ 32
              then \<exists>q'. queue_run (wq_enq ck) (wq_deq ck) q cs =
                     Some (fst (fifo_run (unat max_items - 1) A_E_BUSY A_OK [] cs), q') \<and>
                   contents (wq_fifo q') = snd (fifo_run (unat max_items - 1) A_E_BUSY A_OK [] cs)
              else wq_fifo q = ck_ring_init ck 0))) \<and>
         (\<not> (max_items > 4 \<and> max_items AND (max_items - 1) = 0) \<longrightarrow> work_queue_new ck zero buf (Some q0) max_items = (A_E_BADARGS, Some q0))"
proof (intro conjI impI)
  assume n: "max_items > 4 \<and> max_items AND (max_items - 1) = 0"
  have l: "ring_work_queue ck contents slots" using ring by (simp add: ring_work_queue_def)
  let ?q = "\<lparr>wq_fifo = ck_ring_init ck (ucast max_items), wq_max_items = max_items, wq_buffer = buf\<rparr>"
  have new: "work_queue_new ck zero buf (Some q0) max_items = (A_OK, Some ?q)"
    using n buf by (simp add: work_queue_new_def)
  show "\<exists>q. work_queue_new ck zero buf (Some q0) max_items = (A_OK, Some q) \<and>
             (if max_items < 2 ^ 32
              then \<exists>q'. queue_run (wq_enq ck) (wq_deq ck) q cs =
                     Some (fst (fifo_run (unat max_items - 1) A_E_BUSY A_OK [] cs), q') \<and>
                   contents (wq_fifo q') = snd (fifo_run (unat max_items - 1) A_E_BUSY A_OK [] cs)
              else wq_fifo q = ck_ring_init ck 0)"
  proof (cases "max_items < 2 ^ 32")
    case True
    note u = ucast_power_of_two [OF conjunct2 [OF n] True]
    have "(4 :: u32) \<le> ucast max_items" using n u(2) by (simp add: word_le_nat_alt word_less_nat_alt)
    then have "wq_inv contents slots (unat max_items) ?q" "contents (wq_fifo ?q) = []"
      using buf ck_ring_contract.init [OF ring _ u(1)] u(2) by (auto simp: wq_inv_def)
    then show ?thesis using new ring_work_queue.work_queue_run [OF l, of "unat max_items" ?q cs] cs True by auto
  next
    case False
    then show ?thesis using new ucast_large_power_of_two [OF conjunct2 [OF n]] by simp
  qed
next
  assume "\<not> (max_items > 4 \<and> max_items AND (max_items - 1) = 0)"
  then show "work_queue_new ck zero buf (Some q0) max_items = (A_E_BADARGS, Some q0)" by (auto simp: work_queue_new_def)
qed

theorem work_queue_is_fifo_witness:
  "(\<exists>q. work_queue_new list_ring (0, []) 0x500 (Some \<lparr>wq_fifo = (0, []), wq_max_items = 0, wq_buffer = 0\<rparr>) 8 =
         (A_OK, Some q) \<and>
       (\<exists>q'. queue_run (wq_enq list_ring) (wq_deq list_ring) q [Enqueue 5, Dequeue, Dequeue] =
               Some ([(A_OK, None), (A_OK, Some 5), (A_OK, None)], q'))) \<and>
   (\<exists>q. work_queue_new list_ring (0, []) 0x500 (Some \<lparr>wq_fifo = (0, []), wq_max_items = 0, wq_buffer = 0\<rparr>) 0x200000000 =
         (A_OK, Some q) \<and> wq_fifo q = (0, []))"
proof
  note fifo = work_queue_is_fifo [OF list_ring.ck_ring_contract_axioms, of "0x500" "[Enqueue 5, Dequeue, Dequeue]" _
      "(0, [])" "\<lparr>wq_fifo = (0, []), wq_max_items = 0, wq_buffer = 0\<rparr>"]
  show "\<exists>q. work_queue_new list_ring (0, []) 0x500 (Some \<lparr>wq_fifo = (0, []), wq_max_items = 0, wq_buffer = 0\<rparr>) 8 = (A_OK, Some q) \<and>
       (\<exists>q'. queue_run (wq_enq list_ring) (wq_deq list_ring) q [Enqueue 5, Dequeue, Dequeue] =
               Some ([(A_OK, None), (A_OK, Some 5), (A_OK, None)], q'))"
    using fifo [of 8] by auto
  have "ck_ring_init list_ring 0 = (0, [])" by (simp add: list_ring_def)
  then show "\<exists>q. work_queue_new list_ring (0, []) 0x500 (Some \<lparr>wq_fifo = (0, []), wq_max_items = 0, wq_buffer = 0\<rparr>) 0x200000000 =
         (A_OK, Some q) \<and> wq_fifo q = (0, [])"
    using fifo [of "0x200000000"] by auto
qed

text \<open>
  The SPMC operations have their result codes the wrong way round: \<open>work_queue_spmc_push\<close> answers
  \<open>A_E_BUSY\<close> when the message has been stored and \<open>A_OK\<close> when the queue is full and the message is lost;
  \<open>work_queue_spmc_pop\<close> answers \<open>A_E_EMPTY\<close> when it delivers a message and \<open>A_OK\<close> when there is none, and
  then leaves the message pointer as it was.
\<close>

theorem work_queue_spmc_codes_inverted:
  assumes ring: "ck_ring_contract ck contents slots"
  shows "(\<exists>q'. work_queue_spmc_push ck (Some q) x =
            Some (if length (contents (wq_fifo (spmc_q q))) + 1 < slots (wq_fifo (spmc_q q))
                  then A_E_BUSY else A_OK, q') \<and>
          contents (wq_fifo (spmc_q q')) =
            (if length (contents (wq_fifo (spmc_q q))) + 1 < slots (wq_fifo (spmc_q q))
             then contents (wq_fifo (spmc_q q)) @ [x] else contents (wq_fifo (spmc_q q)))) \<and>
         (\<exists>q'. work_queue_spmc_pop ck (Some q) (Some p) =
            (case contents (wq_fifo (spmc_q q)) of [] \<Rightarrow> Some (A_OK, p, q') | y # ys \<Rightarrow> Some (A_E_EMPTY, y, q')))"
  using ck_ring_contract.spmc_push_result [OF ring, of q x] ck_ring_contract.spmc_pop_result [OF ring, of q p]
  by blast

theorem work_queue_spmc_codes_inverted_witness:
  "\<exists>q'. work_queue_spmc_push list_ring
      (Some \<lparr>spmc_q = \<lparr>wq_fifo = (8, []), wq_max_items = 8, wq_buffer = 0x500\<rparr>\<rparr>) 5 = Some (A_E_BUSY, q') \<and>
    snd (wq_fifo (spmc_q q')) = [5]"
  using work_queue_spmc_codes_inverted [OF list_ring.ck_ring_contract_axioms,
      of "\<lparr>spmc_q = \<lparr>wq_fifo = (8, []), wq_max_items = 8, wq_buffer = 0x500\<rparr>\<rparr>" 5 0]
  by auto

end
