(* ===== verification/Refcnt.thy ===== *)
theory Refcnt
  imports TSL_Result
begin

section \<open>Reference counts (tsl/refcnt.h)\<close>

text \<open>
  The operations twice. First as functions, for one thread that runs alone. Then as the memory
  accesses that several threads interleave: \<open>refcnt_get\<close> checks the count, then reads it and tries a
  compare-and-swap in a loop; \<open>refcnt_release\<close> checks, decrements with a separate load and store, and
  tests the count again. \<open>ck_pr_cas_32_value\<close> of the concurrency kit is the parameter \<open>cas\<close>: given the
  content of the cell, the expected and the new value it gives the success flag, the value it found
  and the new content; \<open>cas_contract\<close> is its documented behaviour.
\<close>

type_synonym cas32 = "u32 \<Rightarrow> u32 \<Rightarrow> u32 \<Rightarrow> bool \<times> u32 \<times> u32"

locale cas_contract =
  fixes cas :: cas32
  assumes cas_spec: "cas cell old new = (cell = old, cell, if cell = old then new else cell)"

subsection \<open>Operations\<close>

record refcnt =
  rc_destructor :: addr
  rc_count :: u32

definition refcnt_init :: "refcnt option \<Rightarrow> addr \<Rightarrow> aresult_t \<times> refcnt option" where
  "refcnt_init ref destruct =
     (case ref of
        None \<Rightarrow> (A_E_BADARGS, None)
      | Some r \<Rightarrow> (A_OK, Some (r\<lparr>rc_count := 1, rc_destructor := destruct\<rparr>)))"

text \<open>The loop of \<open>refcnt_get\<close>: the value that the last compare-and-swap found, and the count.\<close>

partial_function (option) refcnt_get_loop :: "cas32 \<Rightarrow> u32 \<Rightarrow> (u32 \<times> u32) option" where
  "refcnt_get_loop cas cell =
     (case cas cell cell (cell + 1) of
        (result, val, cell') \<Rightarrow>
          if val = 0 then Some (val, cell')
          else if \<not> result then refcnt_get_loop cas cell'
          else Some (val, cell'))"

definition refcnt_get :: "cas32 \<Rightarrow> refcnt option \<Rightarrow> (aresult_t \<times> refcnt option) option" where
  "refcnt_get cas ref =
     (case ref of
        None \<Rightarrow> Some (A_E_BADARGS, None)
      | Some r \<Rightarrow>
          if rc_count r = 0 then Some (A_E_INVAL, Some r)
          else do { (val, cell) \<leftarrow> refcnt_get_loop cas (rc_count r);
                    Some (if val = 0 then A_E_INVAL else A_OK, Some (r\<lparr>rc_count := cell\<rparr>)) })"

text \<open>The last component is the destructor that is called, if any.\<close>

definition refcnt_release :: "refcnt option \<Rightarrow> aresult_t \<times> refcnt option \<times> addr option" where
  "refcnt_release ref =
     (case ref of
        None \<Rightarrow> (A_E_BADARGS, None, None)
      | Some r \<Rightarrow>
          if rc_count r = 0 then (A_E_INVAL, Some r, None)
          else let r = r\<lparr>rc_count := rc_count r - 1\<rparr>
               in (A_OK, Some r,
                   if rc_count r = 0 \<and> rc_destructor r \<noteq> NULL then Some (rc_destructor r) else None))"

definition refcnt_check :: "refcnt option \<Rightarrow> bool option \<Rightarrow> aresult_t \<times> bool option" where
  "refcnt_check ref valid =
     (case (ref, valid) of
        (Some r, Some v) \<Rightarrow> (A_OK, Some (rc_count r \<noteq> 0))
      | _ \<Rightarrow> (A_E_BADARGS, valid))"

subsection \<open>Interleaved threads\<close>

text \<open>Where a thread is inside \<open>refcnt_get\<close> or \<open>refcnt_release\<close>; \<open>G_cas i\<close> holds \<open>initial\<close>, \<open>R_store v\<close> the
  value loaded by the decrement.\<close>

datatype rc_pc =
    Idle
  | G_check | G_read | G_cas u32 | G_done aresult_t
  | R_check | R_load | R_store u32 | R_test | R_done aresult_t

record rc_sys =
  rs_count :: u32
  rs_pc :: "nat \<Rightarrow> rc_pc"
  rs_destroyed :: nat

text \<open>One memory access of thread \<open>t\<close>.\<close>

definition rc_step :: "cas32 \<Rightarrow> nat \<Rightarrow> rc_sys \<Rightarrow> rc_sys" where
  "rc_step cas t s =
     (let goto = (\<lambda>pc. s\<lparr>rs_pc := (rs_pc s)(t := pc)\<rparr>); c = rs_count s in
      case rs_pc s t of
        Idle \<Rightarrow> s
      | G_check \<Rightarrow> goto (if c = 0 then G_done A_E_INVAL else G_read)
      | G_read \<Rightarrow> goto (G_cas c)
      | G_cas initial \<Rightarrow>
          (case cas c initial (initial + 1) of
             (result, val, c') \<Rightarrow>
               (goto (if val = 0 then G_done A_E_INVAL else if \<not> result then G_read else G_done A_OK))
                 \<lparr>rs_count := c'\<rparr>)
      | G_done r \<Rightarrow> s
      | R_check \<Rightarrow> goto (if c = 0 then R_done A_E_INVAL else R_load)
      | R_load \<Rightarrow> goto (R_store c)
      | R_store v \<Rightarrow> (goto R_test)\<lparr>rs_count := v - 1\<rparr>
      | R_test \<Rightarrow> (goto (R_done A_OK))\<lparr>rs_destroyed := rs_destroyed s + (if c = 0 then 1 else 0)\<rparr>
      | R_done r \<Rightarrow> s)"

inductive rc_reachable :: "cas32 \<Rightarrow> rc_sys \<Rightarrow> rc_sys \<Rightarrow> bool" for cas s0 where
  start: "rc_reachable cas s0 s0"
| step: "rc_reachable cas s0 s \<Longrightarrow> rc_reachable cas s0 (rc_step cas t s)"

definition rc_run :: "cas32 \<Rightarrow> rc_sys \<Rightarrow> nat list \<Rightarrow> rc_sys" where
  "rc_run cas s ts = fold (rc_step cas) ts s"

lemma rc_run_reachable: "rc_reachable cas s0 s \<Longrightarrow> rc_reachable cas s0 (rc_run cas s ts)"
  by (induction ts arbitrary: s) (auto simp: rc_run_def intro: rc_reachable.step)

subsection \<open>Concurrent gets\<close>

definition gets_done :: "nat \<Rightarrow> rc_sys \<Rightarrow> nat" where
  "gets_done n s = card {t. t < n \<and> rs_pc s t = G_done A_OK}"

definition getting :: "rc_pc \<Rightarrow> bool" where
  "getting pc \<longleftrightarrow> pc = Idle \<or> pc = G_check \<or> pc = G_read \<or> (\<exists>v. v \<noteq> 0 \<and> pc = G_cas v) \<or> pc = G_done A_OK"

definition gets_inv :: "nat \<Rightarrow> u32 \<Rightarrow> rc_sys \<Rightarrow> bool" where
  "gets_inv n c0 s \<longleftrightarrow>
     (\<forall>t. getting (rs_pc s t)) \<and> (\<forall>t\<ge>n. rs_pc s t = Idle) \<and>
     unat (rs_count s) = unat c0 + gets_done n s \<and> rs_destroyed s = 0"

lemma getting_done: "getting (G_done r) \<Longrightarrow> r = A_OK"
  by (simp add: getting_def)

lemma gets_done_le: "gets_done n s \<le> n"
  using card_mono [of "{..<n}" "{t. t < n \<and> rs_pc s t = G_done A_OK}"]
  by (auto simp: gets_done_def)

lemma gets_done_Suc:
  assumes "t < n" "rs_pc s t \<noteq> G_done A_OK" "rs_pc s' = (rs_pc s)(t := G_done A_OK)"
  shows "gets_done n s' = Suc (gets_done n s)"
proof -
  have "{u. u < n \<and> rs_pc s' u = G_done A_OK} = insert t {u. u < n \<and> rs_pc s u = G_done A_OK}"
    using assms by auto
  then show ?thesis using assms by (simp add: gets_done_def)
qed

lemma gets_done_same:
  assumes "rs_pc s t \<noteq> G_done A_OK" "rs_pc s' = (rs_pc s)(t := pc)" "pc \<noteq> G_done A_OK"
  shows "gets_done n s' = gets_done n s"
proof -
  have "{u. u < n \<and> rs_pc s' u = G_done A_OK} = {u. u < n \<and> rs_pc s u = G_done A_OK}"
    using assms by auto
  then show ?thesis by (simp add: gets_done_def)
qed

context cas_contract
begin

lemma gets_inv_step:
  assumes inv: "gets_inv n c0 s" and c0: "c0 \<noteq> 0" "unat c0 + n < 2 ^ 32"
  shows "gets_inv n c0 (rc_step cas t s)"
proof -
  have pc: "getting (rs_pc s t)" and idle: "\<forall>t\<ge>n. rs_pc s t = Idle"
    and cnt: "unat (rs_count s) = unat c0 + gets_done n s"
    using inv by (auto simp: gets_inv_def)
  have nz: "rs_count s \<noteq> 0" using cnt c0(1) by (metis add_is_0 unat_0 unat_eq_0)
  have t: "t < n" if "rs_pc s t \<noteq> Idle" using idle that by (meson not_le)
  have goto: "gets_inv n c0 (s\<lparr>rs_pc := (rs_pc s)(t := pc')\<rparr>)"
    if "rs_pc s t \<noteq> Idle" "rs_pc s t \<noteq> G_done A_OK" "getting pc'" "pc' \<noteq> G_done A_OK" for pc'
    using inv that t gets_done_same [of s t "s\<lparr>rs_pc := (rs_pc s)(t := pc')\<rparr>" pc' n]
    by (auto simp: gets_inv_def)
  have fin: "gets_inv n c0 (s\<lparr>rs_pc := (rs_pc s)(t := G_done A_OK), rs_count := rs_count s + 1\<rparr>)"
    if "rs_pc s t \<noteq> Idle" "rs_pc s t \<noteq> G_done A_OK"
  proof -
    let ?s = "s\<lparr>rs_pc := (rs_pc s)(t := G_done A_OK), rs_count := rs_count s + 1\<rparr>"
    have d: "gets_done n ?s = Suc (gets_done n s)" using gets_done_Suc [of t n s ?s] that t by simp
    have "unat (rs_count s + 1) = unat (rs_count s) + 1"
      using cnt c0(2) d gets_done_le [of n ?s] by (simp add: unat_word_ariths)
    then show ?thesis using inv d cnt t that by (auto simp: gets_inv_def getting_def)
  qed
  from pc consider "rs_pc s t = Idle" | "rs_pc s t = G_check" | "rs_pc s t = G_read"
    | v where "v \<noteq> 0" "rs_pc s t = G_cas v" | "rs_pc s t = G_done A_OK"
    by (auto simp: getting_def)
  then show ?thesis
  proof cases
    case 4
    then show ?thesis
      using goto [of G_read] fin nz by (cases "rs_count s = v") (simp_all add: rc_step_def Let_def cas_spec getting_def)
  qed (use inv goto nz in \<open>auto simp: rc_step_def Let_def getting_def\<close>)
qed

lemma gets_inv_reachable:
  assumes "rc_reachable cas s0 s" "gets_inv n c0 s0" "c0 \<noteq> 0" "unat c0 + n < 2 ^ 32"
  shows "gets_inv n c0 s"
  using assms by (induction rule: rc_reachable.induct) (auto intro: gets_inv_step)

lemma get_alone:
  assumes "rc_count r \<noteq> 0"
  shows "refcnt_get cas (Some r) = Some (A_OK, Some (r\<lparr>rc_count := rc_count r + 1\<rparr>))"
  using assms by (simp add: refcnt_get_def refcnt_get_loop.simps cas_spec)

end

subsection \<open>Properties\<close>

definition hw_cas :: cas32 where
  "hw_cas cell old new = (cell = old, cell, if cell = old then new else cell)"

interpretation hw: cas_contract hw_cas
  by unfold_locales (simp add: hw_cas_def)

text \<open>Claim C36. 
  Concurrent \<open>refcnt_get\<close>s never fail and never lose a count: if \<open>n\<close> threads run \<open>refcnt_get\<close>, interleaved
  in any way, on an object with \<open>c0 > 0\<close> references (and \<open>c0 + n\<close> does not exceed 32 bits), then at every
  moment no thread has got an error and the count is \<open>c0\<close> plus the number of threads that are done.
\<close>

theorem refcnt_concurrent_gets:
  assumes "cas_contract cas" "c0 \<noteq> 0" "unat c0 + n < 2 ^ 32"
    and "rc_reachable cas \<lparr>rs_count = c0, rs_pc = (\<lambda>t. if t < n then G_check else Idle), rs_destroyed = 0\<rparr> s"
  shows "unat (rs_count s) = unat c0 + gets_done n s \<and> (\<forall>t r. rs_pc s t = G_done r \<longrightarrow> r = A_OK)"
proof -
  have "gets_inv n c0 \<lparr>rs_count = c0, rs_pc = (\<lambda>t. if t < n then G_check else Idle), rs_destroyed = 0\<rparr>"
    by (auto simp: gets_inv_def getting_def gets_done_def)
  then have "gets_inv n c0 s"
    using cas_contract.gets_inv_reachable [OF assms(1,4)] assms(2,3) by blast
  then show ?thesis
    unfolding gets_inv_def by (metis getting_done)
qed

theorem refcnt_concurrent_gets_witness:
  "unat (rs_count (rc_run hw_cas \<lparr>rs_count = 1, rs_pc = (\<lambda>t. if t < 2 then G_check else Idle), rs_destroyed = 0\<rparr>
       [0, 1, 0, 1, 0, 1, 1, 1])) = 3"
proof -
  let ?init = "\<lparr>rs_count = 1, rs_pc = (\<lambda>t. if t < 2 then G_check else Idle), rs_destroyed = 0\<rparr>"
  let ?s = "rc_run hw_cas ?init [0, 1, 0, 1, 0, 1, 1, 1]"
  have "rc_reachable hw_cas ?init ?s" by (intro rc_run_reachable rc_reachable.start)
  then have "unat (rs_count ?s) = unat (1 :: u32) + gets_done 2 ?s"
    using refcnt_concurrent_gets [OF hw.cas_contract_axioms, of 1 2 ?s] by simp
  moreover have "gets_done 2 ?s = card {0, 1 :: nat}"
    unfolding gets_done_def
    by (rule arg_cong [of _ _ card]) (auto simp: rc_run_def rc_step_def hw_cas_def less_2_cases_iff)
  ultimately show ?thesis by simp
qed

text \<open>
  Alone, the operations count: \<open>refcnt_init\<close> gives one reference; \<open>refcnt_get\<close> on a live object returns with
  one reference more (modulo \<open>2 ^ 32\<close>) and on a dead object with \<open>A_E_INVAL\<close> and no change; \<open>refcnt_release\<close>
  undoes a get, and calls the destructor exactly when it drops the last reference.
\<close>

theorem refcnt_get_release:
  assumes "cas_contract cas"
  shows "refcnt_init (Some r) d = (A_OK, Some (r\<lparr>rc_count := 1, rc_destructor := d\<rparr>)) \<and>
         refcnt_get cas (Some r) =
           (if rc_count r = 0 then Some (A_E_INVAL, Some r)
            else Some (A_OK, Some (r\<lparr>rc_count := rc_count r + 1\<rparr>))) \<and>
         (rc_count r \<noteq> 0 \<and> rc_count r + 1 \<noteq> 0 \<longrightarrow>
            refcnt_release (Some (r\<lparr>rc_count := rc_count r + 1\<rparr>)) = (A_OK, Some r, None)) \<and>
         (rc_count r = 1 \<and> rc_destructor r \<noteq> NULL \<longrightarrow>
            refcnt_release (Some r) = (A_OK, Some (r\<lparr>rc_count := 0\<rparr>), Some (rc_destructor r))) \<and>
         (rc_count r = 0 \<longrightarrow> refcnt_release (Some r) = (A_E_INVAL, Some r, None))"
  using cas_contract.get_alone [OF assms, of r]
  by (auto simp: refcnt_init_def refcnt_get_def refcnt_release_def Let_def)

theorem refcnt_get_release_witness:
  "refcnt_get hw_cas (Some \<lparr>rc_destructor = 4, rc_count = 1\<rparr>) = Some (A_OK, Some \<lparr>rc_destructor = 4, rc_count = 2\<rparr>) \<and>
   refcnt_release (Some \<lparr>rc_destructor = 4, rc_count = 1\<rparr>) = (A_OK, Some \<lparr>rc_destructor = 4, rc_count = 0\<rparr>, Some 4)"
  using refcnt_get_release [OF hw.cas_contract_axioms, of "\<lparr>rc_destructor = 4, rc_count = 1\<rparr>" 0] by simp

text \<open>
  Two threads that each release one of two references can both find the count at zero after their
  decrement: the destructor then runs twice. The decrement is not atomic either: the two loads can
  both precede the stores, and then the count stays at one with no reference left.
\<close>

theorem refcnt_release_race:
  assumes "cas_contract cas"
  shows "let s0 = \<lparr>rs_count = 2, rs_pc = (\<lambda>t. if t < 2 then R_check else Idle), rs_destroyed = 0\<rparr> in
    (\<exists>s. rc_reachable cas s0 s \<and> rs_pc s 0 = R_done A_OK \<and> rs_pc s 1 = R_done A_OK \<and> rs_destroyed s = 2) \<and>
    (\<exists>s. rc_reachable cas s0 s \<and> rs_pc s 0 = R_done A_OK \<and> rs_pc s 1 = R_done A_OK \<and>
         rs_count s = 1 \<and> rs_destroyed s = 0)"
proof -
  let ?init = "\<lparr>rs_count = 2, rs_pc = (\<lambda>t. if t < 2 then R_check else Idle), rs_destroyed = 0\<rparr>"
  let ?a = "rc_run cas ?init [0, 1, 0, 0, 1, 1, 0, 1]" and ?b = "rc_run cas ?init [0, 1, 0, 1, 0, 1, 0, 1]"
  have "rc_reachable cas ?init ?a" "rc_reachable cas ?init ?b"
    by (intro rc_run_reachable rc_reachable.start)+
  moreover have "rs_pc ?a 0 = R_done A_OK" "rs_pc ?a 1 = R_done A_OK" "rs_destroyed ?a = 2"
    by (simp_all add: rc_run_def rc_step_def)
  moreover have "rs_pc ?b 0 = R_done A_OK" "rs_pc ?b 1 = R_done A_OK" "rs_count ?b = 1" "rs_destroyed ?b = 0"
    by (simp_all add: rc_run_def rc_step_def)
  ultimately show ?thesis by (auto simp: Let_def)
qed

theorem refcnt_release_race_witness:
  "\<exists>s. rc_reachable hw_cas \<lparr>rs_count = 2, rs_pc = (\<lambda>t. if t < 2 then R_check else Idle), rs_destroyed = 0\<rparr> s \<and>
       rs_destroyed s = 2"
  using refcnt_release_race [OF hw.cas_contract_axioms] by (auto simp: Let_def)

text \<open>
  A get that overlaps the last release can bring a dead object back: when the count drops to zero
  between the check and the read of \<open>initial\<close>, the compare-and-swap replaces 0 by 1, and \<open>refcnt_get\<close>
  answers \<open>A_E_INVAL\<close>. The destructor has run, no thread holds a reference, and the count is 1.
\<close>

theorem refcnt_get_resurrects:
  assumes "cas_contract cas"
  shows "\<exists>s. rc_reachable cas
           \<lparr>rs_count = 1, rs_pc = (\<lambda>t. if t = 0 then G_check else if t = 1 then R_check else Idle), rs_destroyed = 0\<rparr> s \<and>
         rs_pc s 0 = G_done A_E_INVAL \<and> rs_pc s 1 = R_done A_OK \<and> rs_destroyed s = 1 \<and> rs_count s = 1"
proof -
  let ?init = "\<lparr>rs_count = 1, rs_pc = (\<lambda>t. if t = 0 then G_check else if t = 1 then R_check else Idle), rs_destroyed = 0\<rparr>"
  let ?s = "rc_run cas ?init [0, 1, 1, 1, 1, 0, 0]"
  have "rc_reachable cas ?init ?s" by (intro rc_run_reachable rc_reachable.start)
  moreover have "rs_pc ?s 0 = G_done A_E_INVAL" "rs_pc ?s 1 = R_done A_OK" "rs_destroyed ?s = 1" "rs_count ?s = 1"
    by (simp_all add: rc_run_def rc_step_def cas_contract.cas_spec [OF assms])
  ultimately show ?thesis by blast
qed

theorem refcnt_get_resurrects_witness:
  "\<exists>s. rc_reachable hw_cas
         \<lparr>rs_count = 1, rs_pc = (\<lambda>t. if t = 0 then G_check else if t = 1 then R_check else Idle), rs_destroyed = 0\<rparr> s \<and>
       rs_pc s 0 = G_done A_E_INVAL \<and> rs_count s = 1"
  using refcnt_get_resurrects [OF hw.cas_contract_axioms] by blast

end
