(* ===== verification/Hash_Table.thy ===== *)
theory Hash_Table
  imports TSL_List
begin

section \<open>Chained hash table (tsl/hash_table.h, tsl/hash_table.c)\<close>

text \<open>
  A table is an array of buckets, each the head of a list of the nodes that hash to it; nodes are
  caller-owned structs with the hash value and the list entry. \<open>ht_mem\<close> is the memory of list entries
  and of the nodes' hash fields; bucket \<open>i\<close> is the list head at \<open>buckets + 16 * i\<close>, a node's list entry is
  at offset 8 of the (packed) node. The hash and compare callbacks read caller memory \<open>'w\<close>; they
  return a result code and what they store through their last argument.
\<close>

subsection \<open>State\<close>

type_synonym 'w ht_hash_func = "'w \<Rightarrow> addr \<Rightarrow> u64 \<Rightarrow> aresult_t \<times> u64"
type_synonym 'w ht_compare_func = "'w \<Rightarrow> addr \<Rightarrow> addr \<Rightarrow> u64 \<Rightarrow> aresult_t \<times> bool"

record 'w hash_table =
  ht_buckets :: addr
  ht_nr_buckets :: u64
  ht_hfunc :: "'w ht_hash_func option"
  ht_compare :: "'w ht_compare_func option"

record ht_mem =
  hm_list :: list_mem
  hm_hash :: "addr \<Rightarrow> u64"

definition HASH_TABLE_INIT :: "'w hash_table" where
  "HASH_TABLE_INIT = \<lparr>ht_buckets = NULL, ht_nr_buckets = 0, ht_hfunc = None, ht_compare = None\<rparr>"

definition h_node :: "addr \<Rightarrow> addr" where "h_node node = node + 8"

text \<open>\<open>&table->buckets[i].entries\<close>\<close>

definition hash_bucket :: "addr \<Rightarrow> u64 \<Rightarrow> addr" where "hash_bucket buckets i = buckets + 16 * i"

subsection \<open>Operations\<close>

definition ht_node_init :: "ht_mem \<Rightarrow> addr \<Rightarrow> aresult_t \<times> ht_mem" where
  "ht_node_init m node =
     (if node = NULL then (A_E_BADARGS, m)
      else (A_OK, m\<lparr>hm_list := list_init (hm_list m) (h_node node), hm_hash := (hm_hash m)(node := 0)\<rparr>))"

text \<open>The initialisation loop of \<open>ht_init\<close>.\<close>

fun ht_init_buckets :: "addr \<Rightarrow> list_mem \<Rightarrow> nat \<Rightarrow> list_mem" where
  "ht_init_buckets buckets m 0 = m"
| "ht_init_buckets buckets m (Suc i) =
     list_init (ht_init_buckets buckets m i) (hash_bucket buckets (of_nat i))"

text \<open>\<open>buf\<close> is the address of the new bucket array, NULL if \<open>calloc\<close> fails.\<close>

definition ht_init ::
  "addr \<Rightarrow> ht_mem \<Rightarrow> 'w hash_table option \<Rightarrow> u64 \<Rightarrow> 'w ht_hash_func option \<Rightarrow> 'w ht_compare_func option \<Rightarrow>
   aresult_t \<times> ht_mem \<times> 'w hash_table option" where
  "ht_init buf m table nr_buckets hash_func compare =
     (case table of
        None \<Rightarrow> (A_E_BADARGS, m, None)
      | Some t \<Rightarrow>
          if \<not> 0 \<noteq> nr_buckets then (A_E_BADARGS, m, Some t)
          else if \<not> hash_func \<noteq> None then (A_E_BADARGS, m, Some t)
          else if \<not> compare \<noteq> None then (A_E_BADARGS, m, Some t)
          else if ht_buckets t \<noteq> NULL then (A_E_BUSY, m, Some t)
          else if buf = NULL then (A_E_INVAL, m, Some (t\<lparr>ht_buckets := NULL\<rparr>))
          else (A_OK, m\<lparr>hm_list := ht_init_buckets buf (hm_list m) (unat nr_buckets)\<rparr>,
                Some \<lparr>ht_buckets = buf, ht_nr_buckets = nr_buckets, ht_hfunc = hash_func, ht_compare = compare\<rparr>))"

definition ht_cleanup :: "'w hash_table option \<Rightarrow> aresult_t \<times> 'w hash_table option" where
  "ht_cleanup table =
     (case table of
        None \<Rightarrow> (A_E_BADARGS, None)
      | Some t \<Rightarrow> if \<not> ht_buckets t \<noteq> NULL then (A_E_BADARGS, Some t) else (A_OK, Some HASH_TABLE_INIT))"

text \<open>\<open>_ht_get_bucket\<close>: result code, bucket and hash; a failing \<open>assert\<close> is a fault.\<close>

definition ht_get_bucket ::
  "'w \<Rightarrow> 'w hash_table \<Rightarrow> addr \<Rightarrow> u64 \<Rightarrow> (aresult_t \<times> addr \<times> u64) option" where
  "ht_get_bucket w table key key_size =
     (if \<not> 0 \<noteq> key_size then Some (A_E_BADARGS, NULL, 0)
      else do { hfunc \<leftarrow> ht_hfunc table;
                let (ret, hash_val) = hfunc w key key_size;
                if AFAILED ret then Some (ret, NULL, 0)
                else let offset = hash_val AND (ht_nr_buckets table - 1) in
                     if offset < ht_nr_buckets table
                     then Some (ret, hash_bucket (ht_buckets table) offset, hash_val)
                     else None })"

definition ht_insert ::
  "'w \<Rightarrow> ht_mem \<Rightarrow> 'w hash_table option \<Rightarrow> addr \<Rightarrow> u64 \<Rightarrow> addr \<Rightarrow> (aresult_t \<times> ht_mem) option" where
  "ht_insert w m table key key_size entry =
     (case table of
        None \<Rightarrow> Some (A_E_BADARGS, m)
      | Some t \<Rightarrow>
          if \<not> 0 \<noteq> key_size then Some (A_E_BADARGS, m)
          else if \<not> entry \<noteq> NULL then Some (A_E_BADARGS, m)
          else do { (ret, bkt, hash_val) \<leftarrow> ht_get_bucket w t key key_size;
                    if AFAILED ret then Some (ret, m)
                    else let m = m\<lparr>hm_hash := (hm_hash m)(entry := hash_val)\<rparr>;
                             m = m\<lparr>hm_list := list_append (hm_list m) bkt (h_node entry)\<rparr>
                         in Some (ret, m) })"

text \<open>The search loop of \<open>ht_find\<close>, at list entry \<open>iter\<close>; the result is the node found, if any. A failing
  compare callback ends the loop.\<close>

partial_function (option) ht_find_loop ::
  "'w ht_compare_func \<Rightarrow> 'w \<Rightarrow> ht_mem \<Rightarrow> addr \<Rightarrow> addr \<Rightarrow> u64 \<Rightarrow> u64 \<Rightarrow> addr \<Rightarrow> addr option option" where
  "ht_find_loop cmp w m bkt key key_size hash_val iter =
     (if iter = bkt then Some None
      else let hnode = LIST_ITEM iter 8 in
           if hash_val = hm_hash m hnode then
             (case cmp w hnode key key_size of
                (ret, res) \<Rightarrow>
                  if AFAILED ret then Some None
                  else if res then Some (Some hnode)
                  else ht_find_loop cmp w m bkt key key_size hash_val (le_next (hm_list m iter)))
           else ht_find_loop cmp w m bkt key key_size hash_val (le_next (hm_list m iter)))"

definition ht_find ::
  "'w \<Rightarrow> ht_mem \<Rightarrow> 'w hash_table option \<Rightarrow> addr \<Rightarrow> u64 \<Rightarrow> addr option \<Rightarrow> (aresult_t \<times> addr option) option" where
  "ht_find w m table key key_size pfound =
     (case table of
        None \<Rightarrow> Some (A_E_BADARGS, pfound)
      | Some t \<Rightarrow>
          if \<not> 0 \<noteq> key_size then Some (A_E_BADARGS, pfound)
          else if \<not> pfound \<noteq> None then Some (A_E_BADARGS, pfound)
          else do { (ret, bkt, hash_val) \<leftarrow> ht_get_bucket w t key key_size;
                    if AFAILED ret then Some (ret, Some NULL)
                    else do { cmp \<leftarrow> ht_compare t;
                              found \<leftarrow> ht_find_loop cmp w m bkt key key_size hash_val (le_next (hm_list m bkt));
                              case found of
                                Some hnode \<Rightarrow> Some (A_OK, Some hnode)
                              | None \<Rightarrow> Some (A_E_NOTFOUND, Some NULL) } })"

definition ht_delete :: "ht_mem \<Rightarrow> addr \<Rightarrow> aresult_t \<times> ht_mem" where
  "ht_delete m node =
     (if \<not> node \<noteq> NULL then (A_E_BADARGS, m)
      else (A_OK, m\<lparr>hm_list := list_del (hm_list m) (h_node node), hm_hash := (hm_hash m)(node := 0)\<rparr>))"

subsection \<open>Hash functions\<close>

definition murmur_m :: u64 where "murmur_m = 0xc6a4a7935bd1e995"

text \<open>\<open>k *= m; k ^= k >> r; k *= m\<close>\<close>

definition murmur_mix :: "u64 \<Rightarrow> u64" where
  "murmur_mix k = (let k = k * murmur_m; k = k XOR drop_bit 47 k in k * murmur_m)"

text \<open>\<open>h ^= h >> r; h *= m; h ^= h >> r\<close>\<close>

definition murmur_final :: "u64 \<Rightarrow> u64" where
  "murmur_final h = (let h = h XOR drop_bit 47 h; h = h * murmur_m in h XOR drop_bit 47 h)"

text \<open>Eight bytes in memory order as a little-endian 64-bit value.\<close>

fun load_le :: "u8 list \<Rightarrow> u64" where
  "load_le [] = 0"
| "load_le (b # bs) = ucast b OR push_bit 8 (load_le bs)"

text \<open>The loop over the whole 64-bit words of the key.\<close>

fun murmur_words :: "u64 \<Rightarrow> u8 list \<Rightarrow> nat \<Rightarrow> u64" where
  "murmur_words h data 0 = h"
| "murmur_words h data (Suc n) =
     murmur_words ((h XOR murmur_mix (load_le (take 8 data))) * murmur_m) (drop 8 data) n"

text \<open>The \<open>switch\<close> over the remaining bytes: case \<open>n\<close> falls through to the cases below it.\<close>

fun murmur_tail :: "u64 \<Rightarrow> u8 list \<Rightarrow> nat \<Rightarrow> u64" where
  "murmur_tail h data2 0 = h"
| "murmur_tail h data2 (Suc 0) = (h XOR ucast (data2 ! 0)) * murmur_m"
| "murmur_tail h data2 (Suc (Suc n)) =
     murmur_tail (h XOR push_bit (8 * Suc n) (ucast (data2 ! Suc n))) data2 (Suc n)"

text \<open>\<open>bytes\<close> reads the key: \<open>bytes key n\<close> are the \<open>n\<close> bytes at \<open>key\<close>.\<close>

definition ht_murmur_hash_byte_string ::
  "(addr \<Rightarrow> nat \<Rightarrow> u8 list) \<Rightarrow> addr \<Rightarrow> u64 \<Rightarrow> u64 option \<Rightarrow> aresult_t \<times> u64 option" where
  "ht_murmur_hash_byte_string bytes key key_len hash_val =
     (if \<not> key \<noteq> NULL then (A_E_BADARGS, hash_val)
      else if \<not> 0 \<noteq> key_len then (A_E_BADARGS, hash_val)
      else if \<not> hash_val \<noteq> None then (A_E_BADARGS, hash_val)
      else let data = bytes key (unat key_len);
               h = 0xdeadbeef XOR (key_len * murmur_m);
               h = murmur_words h data (unat key_len div 8);
               h = murmur_tail h (drop (8 * (unat key_len div 8)) data) (unat (key_len AND 7))
           in (A_OK, Some (murmur_final h)))"

text \<open>The key is the pointer value itself.\<close>

definition ht_murmur_hash_word :: "addr \<Rightarrow> u64 \<Rightarrow> u64 option \<Rightarrow> aresult_t \<times> u64 option" where
  "ht_murmur_hash_word key key_len hash_val =
     (if \<not> 8 = key_len then (A_E_BADARGS, hash_val)
      else if \<not> hash_val \<noteq> None then (A_E_BADARGS, hash_val)
      else let h = 0xbebafeca XOR (8 * murmur_m);
               k = key * murmur_m;
               k = k XOR drop_bit 47 k;
               k = k * murmur_m;
               h = h XOR k;
               h = h * murmur_m
           in (A_OK, Some (murmur_final h)))"

subsection \<open>Invariant and contents\<close>

definition bucket_of :: "'w hash_table \<Rightarrow> u64 \<Rightarrow> addr" where
  "bucket_of t h = hash_bucket (ht_buckets t) (h AND (ht_nr_buckets t - 1))"

definition node_at :: "addr \<Rightarrow> addr" where "node_at e = LIST_ITEM e 8"

lemma node_at_h_node [simp]: "node_at (h_node n) = n" "h_node (node_at e) = e"
  by (simp_all add: node_at_def h_node_def LIST_ITEM_def)

text \<open>\<open>X\<close> gives for every bucket the list entries on its chain; \<open>key_of\<close> is the key of a node and \<open>hsh\<close> its
  hash. Every node is on the chain of its key's bucket and stores its key's hash.\<close>

definition ht_wf :: "('k \<Rightarrow> u64) \<Rightarrow> (addr \<Rightarrow> 'k) \<Rightarrow> 'w hash_table \<Rightarrow> ht_mem \<Rightarrow> (addr \<Rightarrow> addr list) \<Rightarrow> bool" where
  "ht_wf hsh key_of t m X \<longleftrightarrow>
     list_family is_list (hm_list m) (range (bucket_of t)) X \<and>
     (\<forall>b\<in>range (bucket_of t). \<forall>e\<in>set (X b). node_at e \<noteq> NULL \<and>
        hm_hash m (node_at e) = hsh (key_of (node_at e)) \<and> b = bucket_of t (hsh (key_of (node_at e))))"

definition ht_cells :: "'w hash_table \<Rightarrow> (addr \<Rightarrow> addr list) \<Rightarrow> addr set" where
  "ht_cells t X = family_cells (range (bucket_of t)) X"

definition ht_lookup :: "('k \<Rightarrow> u64) \<Rightarrow> (addr \<Rightarrow> 'k) \<Rightarrow> 'w hash_table \<Rightarrow> (addr \<Rightarrow> addr list) \<Rightarrow> 'k \<Rightarrow> addr option" where
  "ht_lookup hsh key_of t X k = find (\<lambda>n. key_of n = k) (map node_at (X (bucket_of t (hsh k))))"

definition ht_nodes :: "'w hash_table \<Rightarrow> (addr \<Rightarrow> addr list) \<Rightarrow> addr set" where
  "ht_nodes t X = (\<Union>b\<in>range (bucket_of t). node_at ` set (X b))"

lemma ht_lookup_None_iff:
  assumes "ht_wf hsh key_of t m X"
  shows "ht_lookup hsh key_of t X k = None \<longleftrightarrow> (\<forall>n\<in>ht_nodes t X. key_of n \<noteq> k)"
  using assms unfolding ht_lookup_def ht_nodes_def ht_wf_def find_None_iff by fastforce

lemma find_SomeD: "find P xs = Some x \<Longrightarrow> P x \<and> x \<in> set xs"
  by (induction xs) (auto split: if_splits)

lemma ht_lookup_Some:
  assumes "ht_lookup hsh key_of t X k = Some n"
  shows "n \<in> ht_nodes t X \<and> key_of n = k"
  using assms find_SomeD unfolding ht_lookup_def ht_nodes_def by fastforce

lemma and_pred_less: "(n :: u64) \<noteq> 0 \<Longrightarrow> h AND (n - 1) < n"
  using word_and_le1 [of h "n - 1"] unat_minus_one [of n] unat_eq_0 [of n]
  by (simp add: word_le_nat_alt word_less_nat_alt)

lemma init_buckets_self_linked:
  "i < n \<Longrightarrow> is_list (ht_init_buckets b m n) (hash_bucket b (of_nat i)) []"
proof (induction n)
  case (Suc n)
  show ?case
  proof (cases "hash_bucket b (of_nat i :: u64) = hash_bucket b (of_nat n)")
    case True
    then show ?thesis using is_list_init by simp
  next
    case False
    then have "is_list (ht_init_buckets b m n) (hash_bucket b (of_nat i)) []"
      using Suc by (cases "i = n") auto
    then show ?thesis
      using False by (simp add: is_list_def link_def list_init_def list_mem_simps)
  qed
qed simp

subsection \<open>The contract of the callbacks\<close>

text \<open>\<open>ok\<close> holds of the key arguments that the caller uses, \<open>deno\<close> is the key that they denote. The hash
  callback gives the hash of the key, the compare callback compares the node's key with it, and
  neither fails.\<close>

locale hash_callbacks =
  fixes t :: "'w hash_table" and w :: 'w and ok :: "addr \<Rightarrow> u64 \<Rightarrow> bool" and deno :: "addr \<Rightarrow> u64 \<Rightarrow> 'k"
    and hsh :: "'k \<Rightarrow> u64" and key_of :: "addr \<Rightarrow> 'k" and hf :: "'w ht_hash_func" and cf :: "'w ht_compare_func"
  assumes hfunc: "ht_hfunc t = Some hf" and compare: "ht_compare t = Some cf" and nr: "ht_nr_buckets t \<noteq> 0"
    and ok_size: "ok key n \<Longrightarrow> n \<noteq> 0"
    and hash_ok: "ok key n \<Longrightarrow> hf w key n = (A_OK, hsh (deno key n))"
    and compare_ok: "ok key n \<Longrightarrow> cf w node key n = (A_OK, key_of node = deno key n)"
begin

lemma get_bucket:
  "ok key n \<Longrightarrow> ht_get_bucket w t key n = Some (A_OK, bucket_of t (hsh (deno key n)), hsh (deno key n))"
  using hfunc hash_ok ok_size and_pred_less [OF nr] by (simp add: ht_get_bucket_def bucket_of_def Let_def)

lemma find_loop:
  assumes "ok key n" "successively (link (hm_list m)) (es @ [b])" "b \<notin> set es"
    and "\<And>e. e \<in> set es \<Longrightarrow> hm_hash m (node_at e) = hsh (key_of (node_at e))"
  shows "ht_find_loop cf w m b key n (hsh (deno key n)) (hd (es @ [b])) =
         Some (find (\<lambda>x. key_of x = deno key n) (map node_at es))"
  using assms
proof (induction es)
  case Nil
  then show ?case by (simp add: ht_find_loop.simps)
next
  case (Cons e es)
  then have "successively (link (hm_list m)) (es @ [b])" "le_next (hm_list m e) = hd (es @ [b])"
    by (auto simp: successively_Cons link_def)
  with Cons show ?case
    by (auto simp: ht_find_loop.simps [of cf w m b key n "hsh (deno key n)" e] Let_def compare_ok
        node_at_def [symmetric])
qed

lemma find_correct:
  assumes wf: "ht_wf hsh key_of t m X" and "ok key n"
  shows "ht_find w m (Some t) key n (Some p) =
    (case ht_lookup hsh key_of t X (deno key n) of
       Some x \<Rightarrow> Some (A_OK, Some x) | None \<Rightarrow> Some (A_E_NOTFOUND, Some NULL))"
proof -
  let ?b = "bucket_of t (hsh (deno key n))"
  have l: "is_list (hm_list m) ?b ([] @ X ?b)"
    and hs: "\<And>e. e \<in> set (X ?b) \<Longrightarrow> hm_hash m (node_at e) = hsh (key_of (node_at e))"
    using wf by (auto simp: ht_wf_def list_family_def)
  then have "ht_find_loop cf w m ?b key n (hsh (deno key n)) (le_next (hm_list m ?b)) =
      Some (ht_lookup hsh key_of t X (deno key n))"
    using find_loop [OF assms(2) _ _ hs, of "X ?b" ?b] is_list_ends(1) [of "hm_list m" ?b "X ?b"]
    unfolding is_list_split ht_lookup_def by (auto simp: link_def)
  then show ?thesis
    using get_bucket [OF assms(2)] compare ok_size [OF assms(2)]
    by (auto simp: ht_find_def split: option.splits)
qed

lemma insert_correct:
  assumes wf: "ht_wf hsh key_of t m X" and "ok key n" and e: "entry \<noteq> NULL" "h_node entry \<notin> ht_cells t X"
    and k: "key_of entry = deno key n"
  shows "\<exists>m'. ht_insert w m (Some t) key n entry = Some (A_OK, m') \<and>
    ht_wf hsh key_of t m' (X(bucket_of t (hsh (deno key n)) := X (bucket_of t (hsh (deno key n))) @ [h_node entry]))"
proof -
  let ?b = "bucket_of t (hsh (deno key n))"
  let ?m = "m\<lparr>hm_hash := (hm_hash m)(entry := hsh (deno key n)), hm_list := list_append (hm_list m) ?b (h_node entry)\<rparr>"
  have "list_family is_list (list_append (hm_list m) ?b (h_node entry)) (range (bucket_of t))
      (X(?b := X ?b @ [h_node entry]))"
    using wf e by (intro il.family_app) (auto simp: ht_wf_def ht_cells_def)
  moreover have "node_at e \<noteq> entry" if "b \<in> range (bucket_of t)" "e \<in> set (X b)" for b e
    using e(2) that by (auto simp: ht_cells_def family_cells_def)
  ultimately have "ht_wf hsh key_of t ?m (X(?b := X ?b @ [h_node entry]))"
    using wf e(1) k unfolding ht_wf_def by auto
  moreover have "ht_insert w m (Some t) key n entry = Some (A_OK, ?m)"
    using get_bucket [OF assms(2)] ok_size [OF assms(2)] e(1) by (simp add: ht_insert_def Let_def)
  ultimately show ?thesis by blast
qed

lemma delete_correct:
  assumes wf: "ht_wf hsh key_of t m X" and x: "x \<in> ht_nodes t X"
  shows "\<exists>m'. ht_delete m x = (A_OK, m') \<and>
    ht_wf hsh key_of t m' (X(bucket_of t (hsh (key_of x)) := remove1 (h_node x) (X (bucket_of t (hsh (key_of x))))))"
proof -
  let ?b = "bucket_of t (hsh (key_of x))"
  let ?m = "m\<lparr>hm_list := list_del (hm_list m) (h_node x), hm_hash := (hm_hash m)(x := 0)\<rparr>"
  let ?X = "X(?b := remove1 (h_node x) (X ?b))"
  have xb: "h_node x \<in> set (X ?b)" and nn: "x \<noteq> NULL"
    using x wf by (auto simp: ht_nodes_def ht_wf_def)
  have fam: "list_family is_list (hm_list m) (range (bucket_of t)) X" using wf by (simp add: ht_wf_def)
  have "list_family is_list (list_del (hm_list m) (h_node x)) (range (bucket_of t)) ?X"
    by (rule il.family_del [OF fam _ xb]) simp
  moreover have fresh: "h_node x \<notin> family_cells (range (bucket_of t)) ?X"
    by (rule il.family_del_fresh [OF fam _ xb]) simp
  have mem: "node_at e \<noteq> x \<and> e \<in> set (X b)" if "b \<in> range (bucket_of t)" "e \<in> set (?X b)" for b e
    using fresh that by (auto simp: family_cells_def split: if_splits
        dest: set_remove1_subset [THEN subsetD])
  have old: "node_at e \<noteq> NULL \<and> hm_hash m (node_at e) = hsh (key_of (node_at e)) \<and>
      b = bucket_of t (hsh (key_of (node_at e)))" if "b \<in> range (bucket_of t)" "e \<in> set (X b)" for b e
    using wf that unfolding ht_wf_def by blast
  have "node_at e \<noteq> NULL \<and> hm_hash ?m (node_at e) = hsh (key_of (node_at e)) \<and>
      b = bucket_of t (hsh (key_of (node_at e)))" if "b \<in> range (bucket_of t)" "e \<in> set (?X b)" for b e
    using mem [OF that] old [OF that(1), of e] by (simp del: bex_simps)
  ultimately have "ht_wf hsh key_of t ?m ?X"
    unfolding ht_wf_def by simp
  then show ?thesis using nn by (auto simp: ht_delete_def)
qed

end

subsection \<open>Contents as a map\<close>

lemma find_append: "find P (xs @ ys) = (case find P xs of None \<Rightarrow> find P ys | Some x \<Rightarrow> Some x)"
  by (induction xs) auto

lemma find_remove1: "(x \<in> set xs \<Longrightarrow> \<not> P x) \<Longrightarrow> find P (remove1 x xs) = find P xs"
  by (induction xs) auto

lemma ht_lookup_append:
  "ht_lookup hsh key_of t (X(bucket_of t (hsh (key_of e)) := X (bucket_of t (hsh (key_of e))) @ [h_node e])) k =
   (case ht_lookup hsh key_of t X k of Some x \<Rightarrow> Some x | None \<Rightarrow> if key_of e = k then Some e else None)"
proof (cases "k = key_of e")
  case True
  show ?thesis unfolding True by (simp add: ht_lookup_def find_append split: option.split)
next
  case False
  then show ?thesis
    by (cases "bucket_of t (hsh k) = bucket_of t (hsh (key_of e))")
       (simp_all add: ht_lookup_def find_append split: option.split)
qed

lemma map_node_at_remove1: "map node_at (remove1 (h_node x) es) = remove1 x (map node_at es)"
proof (induction es)
  case (Cons e es)
  have "e = h_node x \<longleftrightarrow> node_at e = x" by (metis node_at_h_node)
  then show ?case using Cons by auto
qed simp

lemma ht_lookup_remove:
  assumes "ht_wf hsh key_of t m X" "x \<in> ht_nodes t X" "inj_on key_of (ht_nodes t X)"
  shows "ht_lookup hsh key_of t (X(bucket_of t (hsh (key_of x)) := remove1 (h_node x) (X (bucket_of t (hsh (key_of x)))))) k =
    (if k = key_of x then None else ht_lookup hsh key_of t X k)"
proof -
  let ?b = "bucket_of t (hsh (key_of x))"
  have "node_at ` set (X ?b) \<subseteq> ht_nodes t X" by (auto simp: ht_nodes_def)
  then have uniq: "y = x" if "y \<in> set (map node_at (X ?b))" "key_of y = key_of x" for y
    using that assms(2,3) by (auto dest: inj_onD)
  have "distinct (X ?b)"
    using assms(1) is_list_distinct by (fastforce simp: ht_wf_def list_family_def)
  then have "x \<notin> set (map node_at (remove1 (h_node x) (X ?b)))"
    by (auto simp: image_iff)
  then have "find (\<lambda>n. key_of n = key_of x) (map node_at (remove1 (h_node x) (X ?b))) = None"
    using uniq set_remove1_subset [of "h_node x" "X ?b"] by (fastforce simp: find_None_iff)
  moreover have "find (\<lambda>n. key_of n = k) (map node_at (remove1 (h_node x) (X ?b))) = find (\<lambda>n. key_of n = k) (map node_at (X ?b))"
    if "k \<noteq> key_of x"
    using that by (simp add: map_node_at_remove1 find_remove1)
  ultimately show ?thesis by (simp add: ht_lookup_def)
qed

lemma init_empty:
  assumes "buf \<noteq> NULL" "nr \<noteq> 0" "ht_buckets t0 = NULL"
  shows "\<exists>m' t. ht_init buf m (Some t0) nr (Some hf) (Some cf) = (A_OK, m', Some t) \<and>
           ht_nr_buckets t = nr \<and> ht_wf hsh key_of t m' (\<lambda>_. []) \<and>
           ht_lookup hsh key_of t (\<lambda>_. []) k = None \<and>
           fst (ht_init buf m' (Some t) nr (Some hf) (Some cf)) = A_E_BUSY"
proof -
  let ?t = "\<lparr>ht_buckets = buf, ht_nr_buckets = nr, ht_hfunc = Some hf, ht_compare = Some cf\<rparr>"
  have "is_list (ht_init_buckets buf (hm_list m) (unat nr)) (bucket_of ?t h) []" for h
  proof -
    have "unat (h AND (nr - 1)) < unat nr" using and_pred_less [OF assms(2)] by (simp add: word_less_nat_alt)
    then show ?thesis
      using init_buckets_self_linked [of "unat (h AND (nr - 1))" "unat nr" buf] by (simp add: bucket_of_def)
  qed
  then have "ht_wf hsh key_of ?t (m\<lparr>hm_list := ht_init_buckets buf (hm_list m) (unat nr)\<rparr>) (\<lambda>_. [])"
    by (auto simp: ht_wf_def list_family_def)
  then show ?thesis
    using assms by (simp add: ht_init_def ht_lookup_def)
qed

subsection \<open>Properties\<close>

text \<open>
  \<open>ht_init\<close> on a zeroed table makes a well-formed empty table, for every positive number of buckets and
  whatever the memory held before; a table that already has buckets is refused with \<open>A_E_BUSY\<close>.
\<close>

theorem ht_init_empty:
  assumes "buf \<noteq> NULL" "nr \<noteq> 0" "ht_buckets t0 = NULL"
  shows "\<exists>m' t. ht_init buf m (Some t0) nr (Some hf) (Some cf) = (A_OK, m', Some t) \<and>
           ht_nr_buckets t = nr \<and> ht_wf hsh key_of t m' (\<lambda>_. []) \<and>
           ht_lookup hsh key_of t (\<lambda>_. []) k = None \<and>
           fst (ht_init buf m' (Some t) nr (Some hf) (Some cf)) = A_E_BUSY"
  using init_empty [OF assms] .

text \<open>
  The table is a map from keys to nodes. On a well-formed table, with callbacks that hash and compare
  keys without error: \<open>ht_find\<close> always returns, and gives the node of the key or \<open>A_E_NOTFOUND\<close>;
  \<open>ht_insert\<close> of a node that is on no chain keeps the table well-formed and binds its key, unless the
  key was bound before (then the older node stays the one that is found); \<open>ht_delete\<close> of a node keeps the
  table well-formed and, when keys are unique, unbinds exactly its key.
\<close>

theorem ht_refines_map:
  assumes cb: "hash_callbacks t w ok deno hsh key_of hf cf" and wf: "ht_wf hsh key_of t m X" and k: "ok key n"
  shows "ht_find w m (Some t) key n (Some p) =
           (case ht_lookup hsh key_of t X (deno key n) of
              Some x \<Rightarrow> Some (A_OK, Some x) | None \<Rightarrow> Some (A_E_NOTFOUND, Some NULL)) \<and>
         (e \<noteq> NULL \<and> h_node e \<notin> ht_cells t X \<and> key_of e = deno key n \<longrightarrow>
            (\<exists>m' X'. ht_insert w m (Some t) key n e = Some (A_OK, m') \<and> ht_wf hsh key_of t m' X' \<and>
               ht_lookup hsh key_of t X' =
                 (ht_lookup hsh key_of t X)(deno key n :=
                    case ht_lookup hsh key_of t X (deno key n) of Some x \<Rightarrow> Some x | None \<Rightarrow> Some e))) \<and>
         (d \<in> ht_nodes t X \<and> inj_on key_of (ht_nodes t X) \<longrightarrow>
            (\<exists>m' X'. ht_delete m d = (A_OK, m') \<and> ht_wf hsh key_of t m' X' \<and>
               ht_lookup hsh key_of t X' = (ht_lookup hsh key_of t X)(key_of d := None)))"
proof (intro conjI impI; (elim conjE)?)
  show "ht_find w m (Some t) key n (Some p) =
      (case ht_lookup hsh key_of t X (deno key n) of
         Some x \<Rightarrow> Some (A_OK, Some x) | None \<Rightarrow> Some (A_E_NOTFOUND, Some NULL))"
    by (rule hash_callbacks.find_correct [OF cb wf k])
next
  assume e: "e \<noteq> NULL" "h_node e \<notin> ht_cells t X" "key_of e = deno key n"
  then obtain m' where m': "ht_insert w m (Some t) key n e = Some (A_OK, m')"
    "ht_wf hsh key_of t m' (X(bucket_of t (hsh (key_of e)) := X (bucket_of t (hsh (key_of e))) @ [h_node e]))"
    using hash_callbacks.insert_correct [OF cb wf k] by metis
  have "ht_lookup hsh key_of t (X(bucket_of t (hsh (key_of e)) := X (bucket_of t (hsh (key_of e))) @ [h_node e])) =
      (ht_lookup hsh key_of t X)(deno key n :=
         case ht_lookup hsh key_of t X (deno key n) of Some x \<Rightarrow> Some x | None \<Rightarrow> Some e)"
    by (rule ext, subst ht_lookup_append) (auto simp: e(3) split: option.splits)
  then show "\<exists>m' X'. ht_insert w m (Some t) key n e = Some (A_OK, m') \<and> ht_wf hsh key_of t m' X' \<and>
      ht_lookup hsh key_of t X' = (ht_lookup hsh key_of t X)(deno key n :=
         case ht_lookup hsh key_of t X (deno key n) of Some x \<Rightarrow> Some x | None \<Rightarrow> Some e)"
    using m' by blast
next
  assume d: "d \<in> ht_nodes t X" "inj_on key_of (ht_nodes t X)"
  then obtain m' where m': "ht_delete m d = (A_OK, m')"
    "ht_wf hsh key_of t m' (X(bucket_of t (hsh (key_of d)) := remove1 (h_node d) (X (bucket_of t (hsh (key_of d))))))"
    using hash_callbacks.delete_correct [OF cb wf] by metis
  have "ht_lookup hsh key_of t (X(bucket_of t (hsh (key_of d)) := remove1 (h_node d) (X (bucket_of t (hsh (key_of d)))))) =
      (ht_lookup hsh key_of t X)(key_of d := None)"
    by (rule ext) (simp add: ht_lookup_remove [OF wf d])
  then show "\<exists>m' X'. ht_delete m d = (A_OK, m') \<and> ht_wf hsh key_of t m' X' \<and>
      ht_lookup hsh key_of t X' = (ht_lookup hsh key_of t X)(key_of d := None)"
    using m' by blast
qed

text \<open>A table of four buckets whose keys are 64-bit words, hashed with \<open>ht_murmur_hash_word\<close>; \<open>'w\<close> gives the
  key that is stored beside each node.\<close>

definition word_hash_func :: "(addr \<Rightarrow> u64) ht_hash_func" where
  "word_hash_func w key n = (case ht_murmur_hash_word key n (Some 0) of (r, h) \<Rightarrow> (r, the h))"

definition word_compare_func :: "(addr \<Rightarrow> u64) ht_compare_func" where
  "word_compare_func w node key n = (A_OK, w node = key)"

definition word_table :: "addr \<Rightarrow> (addr \<Rightarrow> u64) hash_table" where
  "word_table b = \<lparr>ht_buckets = b, ht_nr_buckets = 4, ht_hfunc = Some word_hash_func,
                   ht_compare = Some word_compare_func\<rparr>"

definition word_hash :: "u64 \<Rightarrow> u64" where
  "word_hash k = the (snd (ht_murmur_hash_word k 8 (Some 0)))"

interpretation wt: hash_callbacks "word_table b" w "\<lambda>key n. n = 8" "\<lambda>key n. key" word_hash w
  word_hash_func word_compare_func for b w
  by unfold_locales
     (auto simp: word_table_def word_hash_func_def word_compare_func_def word_hash_def
       ht_murmur_hash_word_def Let_def)

theorem ht_init_empty_witness:
  "\<exists>m' t. ht_init 0x1000 \<lparr>hm_list = (\<lambda>_. \<lparr>le_prev = 7, le_next = 7\<rparr>), hm_hash = (\<lambda>_. 0)\<rparr> (Some HASH_TABLE_INIT) 4
      (Some word_hash_func) (Some word_compare_func) = (A_OK, m', Some t) \<and> ht_wf word_hash (\<lambda>_. 5) t m' (\<lambda>_. [])"
  using ht_init_empty [of "0x1000" 4 HASH_TABLE_INIT _ word_hash_func word_compare_func word_hash "\<lambda>_. 5" 5]
  by (fastforce simp: HASH_TABLE_INIT_def)

definition sample_ht_mem :: ht_mem where
  "sample_ht_mem = \<lparr>hm_list = ht_init_buckets 0x1000 (\<lambda>_. \<lparr>le_prev = 0, le_next = 0\<rparr>) 4, hm_hash = (\<lambda>_. 0)\<rparr>"

lemma sample_ht_wf: "ht_wf word_hash w (word_table 0x1000) sample_ht_mem (\<lambda>_. [])"
proof -
  have "is_list (ht_init_buckets 0x1000 (\<lambda>_. \<lparr>le_prev = 0, le_next = 0\<rparr>) 4) (bucket_of (word_table 0x1000) h) []" for h
  proof -
    have "unat (h AND 3) < 4" using and_pred_less [of 4 h] by (simp add: word_less_nat_alt)
    then show ?thesis
      using init_buckets_self_linked [of "unat (h AND 3)" 4 "0x1000"] by (simp add: bucket_of_def word_table_def)
  qed
  then show ?thesis by (auto simp: ht_wf_def list_family_def sample_ht_mem_def)
qed

theorem ht_refines_map_witness:
  "\<exists>m' X'. ht_insert (\<lambda>_. 5) sample_ht_mem (Some (word_table 0x1000)) 5 8 0x2000 = Some (A_OK, m') \<and>
     ht_wf word_hash (\<lambda>_. 5) (word_table 0x1000) m' X' \<and>
     ht_lookup word_hash (\<lambda>_. 5) (word_table 0x1000) X' 5 = Some 0x2000"
proof -
  have "bucket_of (word_table 0x1000) h \<noteq> h_node 0x2000" for h
  proof
    assume eq: "bucket_of (word_table 0x1000) h = h_node 0x2000"
    have "16 * (h AND 3) = (0x1008 :: u64)"
      using eq by (simp add: bucket_of_def word_table_def hash_bucket_def h_node_def algebra_simps)
    moreover have "unat (h AND 3) < 4" using and_pred_less [of 4 h] by (simp add: word_less_nat_alt)
    then have "unat (16 * (h AND 3)) = 16 * unat (h AND 3)" by (simp add: unat_word_ariths)
    ultimately have "16 * unat (h AND 3) = 0x1008" by simp
    then show False using \<open>unat (h AND 3) < 4\<close> by linarith
  qed
  then have "h_node 0x2000 \<notin> ht_cells (word_table 0x1000) (\<lambda>_. [])"
    by (force simp: ht_cells_def family_cells_def)
  moreover have "ht_lookup word_hash (\<lambda>_. 5) (word_table 0x1000) (\<lambda>_. []) k = None" for k
    by (simp add: ht_lookup_def)
  ultimately show ?thesis
    using ht_refines_map [OF wt.hash_callbacks_axioms [where w = "\<lambda>_. 5"] sample_ht_wf,
        where n = 8 and key = 5 and e = "0x2000"]
    by fastforce
qed

lemma xorshift_inverse: "(let y = x XOR drop_bit 47 x in y XOR drop_bit 47 y) = (x :: u64)"
  by (rule bit_word_eqI) (auto simp: Let_def bit_simps dest: bit_imp_le_length)

lemma xorshift_inj: "x XOR drop_bit 47 x = y XOR drop_bit 47 y \<longleftrightarrow> x = (y :: u64)"
  by (metis xorshift_inverse)

lemma murmur_m_inverse: "murmur_m * 0x5f7a0ea7e59b19bd = 1"
  by (simp add: murmur_m_def)

lemma murmur_m_inj: "x * murmur_m = y * murmur_m \<longleftrightarrow> x = y"
proof
  assume "x * murmur_m = y * murmur_m"
  then have "x * (murmur_m * 0x5f7a0ea7e59b19bd) = y * (murmur_m * 0x5f7a0ea7e59b19bd)"
    by (simp only: mult.assoc [symmetric])
  then show "x = y" by (simp only: murmur_m_inverse mult_1_right)
qed simp

lemma xor_left_inj: "z XOR x = z XOR y \<longleftrightarrow> x = (y :: u64)"
proof
  assume "z XOR x = z XOR y"
  then have "z XOR (z XOR x) = z XOR (z XOR y)" by simp
  then show "x = y" by (simp add: xor.assoc [symmetric])
qed simp

text \<open>
  \<open>ht_murmur_hash_word\<close> is injective: two different words never have the same 64-bit hash, so that in a
  table with word keys equal hashes mean equal keys. (The multiplier is odd, and a shift by 47 is undone
  by repeating it.)
\<close>

theorem ht_murmur_hash_word_injective:
  "ht_murmur_hash_word a 8 (Some r) = ht_murmur_hash_word b 8 (Some s) \<longleftrightarrow> a = b"
  by (simp add: ht_murmur_hash_word_def murmur_final_def Let_def xorshift_inj murmur_m_inj xor_left_inj)

end
