(* ===== verification/Hash_Sequences.thy ===== *)
theory Hash_Sequences
  imports Call_Sequences Hash_Table
begin

section \<open>Hash tables under sequences of calls\<close>

text \<open>
  Any sequence of insertions, lookups and deletions on a table made by \<open>ht_init\<close> gives the answers of a map from keys to
  nodes. The call type and the specification describe a caller; the code is that of \<open>Hash_Table\<close>.
\<close>

subsection \<open>Calls and their specification\<close>

datatype ht_call = HC_Insert addr u64 addr | HC_Find addr u64 | HC_Delete addr

type_synonym ht_answer = "aresult_t \<times> addr option"

definition ht_call_run :: "'w \<Rightarrow> 'w hash_table \<Rightarrow> ht_mem \<Rightarrow> ht_call \<Rightarrow> (ht_answer \<times> ht_mem) option" where
  "ht_call_run w t m c = (case c of
     HC_Insert key n e \<Rightarrow> do { (r, m) \<leftarrow> ht_insert w m (Some t) key n e; Some ((r, None), m) }
   | HC_Find key n \<Rightarrow> do { (r, v) \<leftarrow> ht_find w m (Some t) key n (Some NULL); Some ((r, v), m) }
   | HC_Delete d \<Rightarrow> (case ht_delete m d of (r, m) \<Rightarrow> Some ((r, None), m)))"

definition ht_call_spec :: "(addr \<Rightarrow> u64 \<Rightarrow> 'k) \<Rightarrow> (addr \<Rightarrow> 'k) \<Rightarrow> ('k \<rightharpoonup> addr) \<Rightarrow> ht_call \<Rightarrow> ht_answer \<times> ('k \<rightharpoonup> addr)" where
  "ht_call_spec deno key_of M c = (case c of
     HC_Insert key n e \<Rightarrow> ((A_OK, None), M(deno key n \<mapsto> e))
   | HC_Find key n \<Rightarrow> (case M (deno key n) of Some e \<Rightarrow> ((A_OK, Some e), M) | None \<Rightarrow> ((A_E_NOTFOUND, Some NULL), M))
   | HC_Delete d \<Rightarrow> ((A_OK, None), M(key_of d := None)))"

text \<open>The caller inserts under a key that is not bound a node that is not in the table and no part of the bucket array, and
  deletes nodes that are in the table.\<close>

definition ht_call_legal :: "'w hash_table \<Rightarrow> (addr \<Rightarrow> u64 \<Rightarrow> bool) \<Rightarrow> (addr \<Rightarrow> u64 \<Rightarrow> 'k) \<Rightarrow> (addr \<Rightarrow> 'k) \<Rightarrow>
    ('k \<rightharpoonup> addr) \<Rightarrow> ht_call \<Rightarrow> bool" where
  "ht_call_legal t ok deno key_of M c \<longleftrightarrow> (case c of
     HC_Insert key n e \<Rightarrow> ok key n \<and> e \<noteq> NULL \<and> key_of e = deno key n \<and> M (deno key n) = None \<and> h_node e \<notin> range (bucket_of t)
   | HC_Find key n \<Rightarrow> ok key n
   | HC_Delete d \<Rightarrow> M (key_of d) = Some d)"

definition ht_rel :: "('k \<Rightarrow> u64) \<Rightarrow> (addr \<Rightarrow> 'k) \<Rightarrow> 'w hash_table \<Rightarrow> ht_mem \<Rightarrow> ('k \<rightharpoonup> addr) \<Rightarrow> bool" where
  "ht_rel hsh key_of t m M \<longleftrightarrow>
     (\<exists>X. ht_wf hsh key_of t m X \<and> inj_on key_of (ht_nodes t X) \<and> M = ht_lookup hsh key_of t X)"

subsection \<open>Each call\<close>

lemma node_at_image: "n \<in> node_at ` A \<longleftrightarrow> h_node n \<in> A"
  by (metis (no_types, lifting) image_iff node_at_h_node)

lemma ht_nodes_iff: "n \<in> ht_nodes t X \<longleftrightarrow> (\<exists>h. h_node n \<in> set (X (bucket_of t h)))"
  by (simp add: ht_nodes_def node_at_image)

lemma h_node_inj: "h_node a = h_node b \<longleftrightarrow> a = b"
  by (simp add: h_node_def)

lemma nodes_append:
  "ht_nodes t (X(bucket_of t h := X (bucket_of t h) @ [h_node e])) = insert e (ht_nodes t X)"
  by (rule set_eqI, auto simp: ht_nodes_iff h_node_inj split: if_splits) metis

lemma nodes_remove: "ht_nodes t (X(bucket_of t h := remove1 (h_node e) (X (bucket_of t h)))) \<subseteq> ht_nodes t X"
  by (rule subsetI) (auto simp: ht_nodes_iff split: if_splits dest: set_remove1_subset [THEN subsetD])

context hash_callbacks
begin

lemma insert_call:
  assumes wf: "ht_wf hsh key_of t m X" and inj: "inj_on key_of (ht_nodes t X)" and k: "ok key n" "key_of e = deno key n"
    and e: "e \<noteq> NULL" "h_node e \<notin> range (bucket_of t)" and new: "ht_lookup hsh key_of t X (deno key n) = None"
  shows "\<exists>m'. ht_insert w m (Some t) key n e = Some (A_OK, m') \<and> ht_rel hsh key_of t m' ((ht_lookup hsh key_of t X)(deno key n \<mapsto> e))"
proof -
  let ?X = "X(bucket_of t (hsh (key_of e)) := X (bucket_of t (hsh (key_of e))) @ [h_node e])"
  have nin: "e \<notin> ht_nodes t X" "key_of e \<notin> key_of ` ht_nodes t X"
    using new ht_lookup_None_iff [OF wf, of "deno key n"] k(2) by auto
  then have "h_node e \<notin> ht_cells t X" using e(2) by (force simp: ht_nodes_def ht_cells_def family_cells_def)
  then obtain m' where m': "ht_insert w m (Some t) key n e = Some (A_OK, m')" "ht_wf hsh key_of t m' ?X"
    using insert_correct [OF wf k(1) e(1) _ k(2)] k(2) by metis
  have "inj_on key_of (ht_nodes t ?X)" using inj nin by (simp add: nodes_append)
  moreover have "ht_lookup hsh key_of t ?X = (ht_lookup hsh key_of t X)(deno key n \<mapsto> e)"
    using new k(2) by (intro ext, subst ht_lookup_append) (auto split: option.splits)
  ultimately show ?thesis using m' by (metis ht_rel_def)
qed

lemma delete_call:
  assumes wf: "ht_wf hsh key_of t m X" and inj: "inj_on key_of (ht_nodes t X)" and d: "ht_lookup hsh key_of t X (key_of d) = Some d"
  shows "\<exists>m'. ht_delete m d = (A_OK, m') \<and> ht_rel hsh key_of t m' ((ht_lookup hsh key_of t X)(key_of d := None))"
proof -
  let ?X = "X(bucket_of t (hsh (key_of d)) := remove1 (h_node d) (X (bucket_of t (hsh (key_of d)))))"
  have x: "d \<in> ht_nodes t X" using ht_lookup_Some [OF d] by simp
  obtain m' where m': "ht_delete m d = (A_OK, m')" "ht_wf hsh key_of t m' ?X" using delete_correct [OF wf x] by metis
  have "inj_on key_of (ht_nodes t ?X)" using inj_on_subset [OF inj nodes_remove] .
  moreover have "ht_lookup hsh key_of t ?X = (ht_lookup hsh key_of t X)(key_of d := None)"
    by (rule ext) (simp add: ht_lookup_remove [OF wf x inj])
  ultimately show ?thesis using m' by (metis ht_rel_def)
qed

end

sublocale hash_callbacks \<subseteq> map_calls: data_refinement "ht_call_run w t" "ht_call_spec deno key_of" "ht_rel hsh key_of t"
  "ht_call_legal t ok deno key_of"
proof unfold_locales
  fix m M c
  assume rel: "ht_rel hsh key_of t m M" and legal: "ht_call_legal t ok deno key_of M c"
  obtain X where wf: "ht_wf hsh key_of t m X" and inj: "inj_on key_of (ht_nodes t X)" and M: "M = ht_lookup hsh key_of t X"
    using rel by (auto simp: ht_rel_def)
  show "\<exists>m'. ht_call_run w t m c = Some (fst (ht_call_spec deno key_of M c), m') \<and> ht_rel hsh key_of t m' (snd (ht_call_spec deno key_of M c))"
  proof (cases c)
    case (HC_Insert key n e)
    then show ?thesis
      using legal insert_call [OF wf inj, of key n e] M by (auto simp: ht_call_legal_def ht_call_run_def ht_call_spec_def)
  next
    case (HC_Find key n)
    then show ?thesis
      using legal find_correct [OF wf, of key n NULL] M rel by (auto simp: ht_call_legal_def ht_call_run_def ht_call_spec_def split: option.splits)
  next
    case (HC_Delete d)
    then show ?thesis using legal delete_call [OF wf inj, of d] M by (auto simp: ht_call_legal_def ht_call_run_def ht_call_spec_def)
  qed
qed

context hash_callbacks
begin

lemma calls_are_map_calls:
  assumes "ht_wf hsh key_of t m (\<lambda>_. [])" "legal_calls (ht_call_spec deno key_of) (ht_call_legal t ok deno key_of) Map.empty cs"
  shows "\<exists>m'. run_calls (ht_call_run w t) m cs = Some (fst (run_spec (ht_call_spec deno key_of) Map.empty cs), m') \<and>
    ht_rel hsh key_of t m' (snd (run_spec (ht_call_spec deno key_of) Map.empty cs))"
proof (rule map_calls.calls_refine [OF _ assms(2)])
  show "ht_rel hsh key_of t m Map.empty"
    unfolding ht_rel_def using assms(1) by (intro exI [of _ "\<lambda>_. []"]) (auto simp: ht_nodes_def ht_lookup_def)
qed

end

subsection \<open>Properties\<close>

text \<open>Claim C8. A table made by \<open>ht_init\<close>, whatever the memory holds, answers any sequence of insertions of new keys, lookups and deletions
  of its nodes like a map from keys to nodes, and is a well-formed table with the contents of this map at the end. The hash of the
  keys does not show.\<close>

theorem ht_sequences_correct:
  assumes init: "buf \<noteq> NULL" "nr \<noteq> 0" "ht_buckets t0 = NULL" "ht_init buf m (Some t0) nr (Some hf) (Some cf) = (r, m0, Some t)"
    and cb: "hash_callbacks t w ok deno hsh key_of hf cf"
    and legal: "legal_calls (ht_call_spec deno key_of) (ht_call_legal t ok deno key_of) Map.empty cs"
  shows "r = A_OK \<and> (\<exists>m' X. run_calls (ht_call_run w t) m0 cs = Some (fst (run_spec (ht_call_spec deno key_of) Map.empty cs), m') \<and>
    ht_wf hsh key_of t m' X \<and> ht_lookup hsh key_of t X = snd (run_spec (ht_call_spec deno key_of) Map.empty cs))"
proof -
  have "r = A_OK \<and> ht_wf hsh key_of t m0 (\<lambda>_. [])" using init_empty [OF init(1-3), of m hf cf hsh key_of] init(4) by force
  then show ?thesis
    using hash_callbacks.calls_are_map_calls [OF cb _ legal] unfolding ht_rel_def by metis
qed

text \<open>The table of four buckets at 0x1000 with word keys; the key of a node is its address.\<close>

lemma word_buckets: "unat (bucket_of (word_table 0x1000) h) < 0x1040"
proof -
  have "unat (h AND 3) < 4" using and_pred_less [of 4 h] by (simp add: word_less_nat_alt)
  then show ?thesis by (simp add: bucket_of_def word_table_def hash_bucket_def unat_word_ariths)
qed

lemma not_a_bucket: "0x1040 \<le> unat (h_node e) \<Longrightarrow> h_node e \<notin> range (bucket_of (word_table 0x1000))"
  using word_buckets by (metis imageE linorder_not_less)

theorem ht_sequences_correct_witness:
  "\<exists>m'. run_calls (ht_call_run id (word_table 0x1000)) sample_ht_mem
      [HC_Insert 0x2000 8 0x2000, HC_Insert 0x3000 8 0x3000, HC_Find 0x2000 8, HC_Delete 0x2000, HC_Find 0x2000 8, HC_Find 0x3000 8] =
    Some ([(A_OK, None), (A_OK, None), (A_OK, Some 0x2000), (A_OK, None), (A_E_NOTFOUND, Some 0), (A_OK, Some 0x3000)], m')"
proof -
  let ?cs = "[HC_Insert 0x2000 8 0x2000, HC_Insert 0x3000 8 0x3000, HC_Find 0x2000 8, HC_Delete 0x2000, HC_Find 0x2000 8, HC_Find 0x3000 8]"
  let ?spec = "ht_call_spec (\<lambda>key n. key) id"
  let ?m = "\<lparr>hm_list = (\<lambda>_. \<lparr>le_prev = 0, le_next = 0\<rparr>), hm_hash = (\<lambda>_. 0)\<rparr>"
  have init: "ht_init 0x1000 ?m (Some HASH_TABLE_INIT) 4 (Some word_hash_func) (Some word_compare_func) =
      (A_OK, sample_ht_mem, Some (word_table 0x1000))"
    by (simp add: ht_init_def HASH_TABLE_INIT_def sample_ht_mem_def word_table_def)
  have "h_node 0x2000 \<notin> range (bucket_of (word_table 0x1000))" "h_node 0x3000 \<notin> range (bucket_of (word_table 0x1000))"
    by (rule not_a_bucket; simp add: h_node_def)+
  then have "legal_calls ?spec (ht_call_legal (word_table 0x1000) (\<lambda>key n. n = 8) (\<lambda>key n. key) id) Map.empty ?cs"
    by (simp add: ht_call_spec_def ht_call_legal_def)
  moreover have "fst (run_spec ?spec Map.empty ?cs) =
      [(A_OK, None), (A_OK, None), (A_OK, Some 0x2000), (A_OK, None), (A_E_NOTFOUND, Some 0), (A_OK, Some 0x3000)]"
    by (simp add: ht_call_spec_def)
  ultimately show ?thesis
    using ht_sequences_correct [OF _ _ _ init wt.hash_callbacks_axioms [where w = id], of ?cs]
    by (auto simp: HASH_TABLE_INIT_def)
qed

end
