(* ===== verification/RBTree.thy ===== *)
theory RBTree
  imports Comparator "HOL-Library.Tree"
begin

section \<open>Intrusive red-black tree (tsl/rbtree.h, tsl/rbtree.c)\<close>

text \<open>
  Nodes are caller-owned structs with pointers to children and parent, a key pointer and a colour;
  \<open>rb_mem\<close> is their memory. The tree struct holds the root, the rightmost node, the comparison callback
  and its state argument of type \<open>'s\<close> (\<open>rb_tree_new\<close> passes the two-argument callback itself as the
  state). Every access through a pointer goes through \<open>rd_\<dots>\<close> and \<open>wr_\<dots>\<close>, which fault at NULL.
\<close>

subsection \<open>State\<close>

record rb_tree_node =
  rb_left :: addr
  rb_right :: addr
  rb_parent :: addr
  rb_key :: addr
  rb_color :: int

record 's rb_tree =
  rb_root :: addr
  rb_compare :: "('s \<Rightarrow> addr \<Rightarrow> addr \<Rightarrow> int) option"
  rb_rightmost :: addr
  rb_state :: 's

type_synonym rb_mem = "addr \<Rightarrow> rb_tree_node"

definition COLOR_BLACK :: int where "COLOR_BLACK = 0"
definition COLOR_RED :: int where "COLOR_RED = 1"

definition rd :: "(rb_tree_node \<Rightarrow> 'a) \<Rightarrow> rb_mem \<Rightarrow> addr \<Rightarrow> 'a option" where
  "rd f m a = (if a = NULL then None else Some (f (m a)))"

definition wr :: "(rb_tree_node \<Rightarrow> rb_tree_node) \<Rightarrow> rb_mem \<Rightarrow> addr \<Rightarrow> rb_mem option" where
  "wr f m a = (if a = NULL then None else Some (m(a := f (m a))))"

abbreviation "rd_left \<equiv> rd rb_left"
abbreviation "rd_right \<equiv> rd rb_right"
abbreviation "rd_parent \<equiv> rd rb_parent"
abbreviation "rd_key \<equiv> rd rb_key"
abbreviation "rd_color \<equiv> rd rb_color"
abbreviation "wr_left m a v \<equiv> wr (rb_left_update (\<lambda>_. v)) m a"
abbreviation "wr_right m a v \<equiv> wr (rb_right_update (\<lambda>_. v)) m a"
abbreviation "wr_parent m a v \<equiv> wr (rb_parent_update (\<lambda>_. v)) m a"
abbreviation "wr_key m a v \<equiv> wr (rb_key_update (\<lambda>_. v)) m a"
abbreviation "wr_color m a v \<equiv> wr (rb_color_update (\<lambda>_. v)) m a"

subsection \<open>Lifecycle\<close>

text \<open>\<open>__rb_tree_cmp_mapper\<close>\<close>

definition rb_tree_cmp_mapper :: "(addr \<Rightarrow> addr \<Rightarrow> int) \<Rightarrow> addr \<Rightarrow> addr \<Rightarrow> int" where
  "rb_tree_cmp_mapper state lhs rhs = state lhs rhs"

definition rb_tree_new_ex ::
  "'s rb_tree option \<Rightarrow> ('s \<Rightarrow> addr \<Rightarrow> addr \<Rightarrow> int) option \<Rightarrow> 's \<Rightarrow> aresult_t \<times> 's rb_tree option" where
  "rb_tree_new_ex tree compare state =
     (case tree of
        None \<Rightarrow> (A_E_BADARGS, None)
      | Some t \<Rightarrow>
          if \<not> compare \<noteq> None then (A_E_BADARGS, Some t)
          else (A_OK, Some (t\<lparr>rb_root := NULL, rb_compare := compare, rb_state := state\<rparr>)))"

definition rb_tree_new ::
  "(addr \<Rightarrow> addr \<Rightarrow> int) rb_tree option \<Rightarrow> (addr \<Rightarrow> addr \<Rightarrow> int) option \<Rightarrow>
   aresult_t \<times> (addr \<Rightarrow> addr \<Rightarrow> int) rb_tree option" where
  "rb_tree_new tree compare =
     (case (tree, compare) of
        (Some t, Some c) \<Rightarrow> rb_tree_new_ex tree (Some rb_tree_cmp_mapper) c
      | _ \<Rightarrow> (A_E_BADARGS, tree))"

text \<open>\<open>zero\<close> is the state pointer after \<open>memset\<close>.\<close>

definition rb_tree_destroy :: "'s \<Rightarrow> 's rb_tree option \<Rightarrow> aresult_t \<times> 's rb_tree option" where
  "rb_tree_destroy zero tree =
     (case tree of
        None \<Rightarrow> (A_E_BADARGS, None)
      | Some t \<Rightarrow> (A_OK, Some \<lparr>rb_root = NULL, rb_compare = None, rb_rightmost = NULL, rb_state = zero\<rparr>))"

definition rb_tree_empty :: "'s rb_tree option \<Rightarrow> bool option \<Rightarrow> aresult_t \<times> bool option" where
  "rb_tree_empty tree is_empty =
     (case (tree, is_empty) of
        (Some t, Some e) \<Rightarrow> (A_OK, Some (rb_root t = NULL))
      | _ \<Rightarrow> (A_E_BADARGS, is_empty))"

subsection \<open>Search\<close>

text \<open>The loop of \<open>rb_tree_find\<close>: the node it ends at, NULL if it runs off the tree.\<close>

partial_function (option) rb_find_loop :: "(addr \<Rightarrow> addr \<Rightarrow> int) \<Rightarrow> rb_mem \<Rightarrow> addr \<Rightarrow> addr \<Rightarrow> addr option" where
  "rb_find_loop cmp m key node =
     (if node \<noteq> NULL then
        let compare = cmp key (rb_key (m node)) in
        if compare < 0 then rb_find_loop cmp m key (rb_left (m node))
        else if compare = 0 then Some node
        else rb_find_loop cmp m key (rb_right (m node))
      else Some node)"

definition rb_tree_find ::
  "rb_mem \<Rightarrow> 's rb_tree option \<Rightarrow> addr \<Rightarrow> addr option \<Rightarrow> (aresult_t \<times> addr option) option" where
  "rb_tree_find m tree key pvalue =
     (case tree of
        None \<Rightarrow> Some (A_E_BADARGS, pvalue)
      | Some t \<Rightarrow>
          if \<not> key \<noteq> NULL then Some (A_E_BADARGS, pvalue)
          else if \<not> pvalue \<noteq> None then Some (A_E_BADARGS, pvalue)
          else if rb_root t = NULL then Some (A_E_NOTFOUND, Some NULL)
          else do { cmp \<leftarrow> rb_compare t;
                    node \<leftarrow> rb_find_loop (cmp (rb_state t)) m key (rb_root t);
                    if node = NULL then Some (A_E_NOTFOUND, Some NULL) else Some (A_OK, Some node) })"

subsection \<open>Helpers\<close>

text \<open>\<open>__helper_get_sibling\<close>, \<open>__helper_get_grandparent\<close>, \<open>__helper_get_uncle\<close>\<close>

definition helper_get_sibling :: "rb_mem \<Rightarrow> addr \<Rightarrow> addr option" where
  "helper_get_sibling m node =
     do { parent \<leftarrow> rd_parent m node;
          if parent = NULL then Some NULL
          else do { l \<leftarrow> rd_left m parent;
                    if node = l then rd_right m parent else rd_left m parent } }"

definition helper_get_grandparent :: "rb_mem \<Rightarrow> addr \<Rightarrow> addr option" where
  "helper_get_grandparent m node =
     do { parent \<leftarrow> rd_parent m node;
          if parent = NULL then Some NULL else rd_parent m parent }"

definition helper_get_uncle :: "rb_mem \<Rightarrow> addr \<Rightarrow> addr option" where
  "helper_get_uncle m node =
     do { grandparent \<leftarrow> helper_get_grandparent m node;
          if grandparent = NULL then Some NULL
          else do { p \<leftarrow> rd_parent m node;
                    l \<leftarrow> rd_left m grandparent;
                    if p = l then rd_right m grandparent else rd_left m grandparent } }"

text \<open>\<open>__helper_rotate_left\<close>, \<open>__helper_rotate_right\<close>: the memory and the root afterwards.\<close>

definition helper_rotate_left :: "rb_mem \<Rightarrow> addr \<Rightarrow> addr \<Rightarrow> (rb_mem \<times> addr) option" where
  "helper_rotate_left m root x =
     do { y \<leftarrow> rd_right m x;
          yl \<leftarrow> rd_left m y;
          m \<leftarrow> wr_right m x yl;
          yl \<leftarrow> rd_left m y;
          m \<leftarrow> (if yl \<noteq> NULL then wr_parent m yl x else Some m);
          xp \<leftarrow> rd_parent m x;
          m \<leftarrow> wr_parent m y xp;
          xp \<leftarrow> rd_parent m x;
          (m, root) \<leftarrow> (if xp = NULL then Some (m, y)
                          else do { l \<leftarrow> rd_left m xp;
                                    m \<leftarrow> (if x = l then wr_left m xp y else wr_right m xp y);
                                    Some (m, root) });
          m \<leftarrow> wr_left m y x;
          m \<leftarrow> wr_parent m x y;
          Some (m, root) }"

definition helper_rotate_right :: "rb_mem \<Rightarrow> addr \<Rightarrow> addr \<Rightarrow> (rb_mem \<times> addr) option" where
  "helper_rotate_right m root x =
     do { y \<leftarrow> rd_left m x;
          yr \<leftarrow> rd_right m y;
          m \<leftarrow> wr_left m x yr;
          yr \<leftarrow> rd_right m y;
          m \<leftarrow> (if yr \<noteq> NULL then wr_parent m yr x else Some m);
          xp \<leftarrow> rd_parent m x;
          m \<leftarrow> wr_parent m y xp;
          xp \<leftarrow> rd_parent m x;
          (m, root) \<leftarrow> (if xp = NULL then Some (m, y)
                          else do { l \<leftarrow> rd_left m xp;
                                    m \<leftarrow> (if x = l then wr_left m xp y else wr_right m xp y);
                                    Some (m, root) });
          m \<leftarrow> wr_right m y x;
          m \<leftarrow> wr_parent m x y;
          Some (m, root) }"

subsection \<open>Insertion\<close>

text \<open>The body of the loop of \<open>__helper_rb_tree_insert_rebalance\<close>: memory, root and the next \<open>pnode\<close>. The
  \<open>assert\<close> that \<open>pnode\<close> is red faults when it does not hold.\<close>

definition insert_rebalance_step :: "rb_mem \<Rightarrow> addr \<Rightarrow> addr \<Rightarrow> (rb_mem \<times> addr \<times> addr) option" where
  "insert_rebalance_step m root pnode =
     do { parent \<leftarrow> rd_parent m pnode;
          grandparent \<leftarrow> helper_get_grandparent m pnode;
          c \<leftarrow> rd_color m pnode;
          if c \<noteq> COLOR_RED then None
          else do {
            gl \<leftarrow> rd_left m grandparent;
            (uncle_is_left, uncle) \<leftarrow>
              (if parent = gl then do { u \<leftarrow> rd_right m grandparent; Some (False, u) }
               else do { u \<leftarrow> rd_left m grandparent; Some (True, u) });
            uncle_red \<leftarrow> (if uncle \<noteq> NULL then do { c \<leftarrow> rd_color m uncle; Some (c = COLOR_RED) } else Some False);
            if uncle_red then do {
              m \<leftarrow> wr_color m parent COLOR_BLACK;
              m \<leftarrow> wr_color m uncle COLOR_BLACK;
              m \<leftarrow> wr_color m grandparent COLOR_RED;
              Some (m, root, grandparent) }
            else do {
              pr \<leftarrow> rd_right m parent;
              pl \<leftarrow> rd_left m parent;
              (m, root, pnode) \<leftarrow>
                (if \<not> uncle_is_left \<and> pr = pnode then do {
                   pnode \<leftarrow> rd_parent m pnode;
                   (m, root) \<leftarrow> helper_rotate_left m root pnode;
                   Some (m, root, pnode) }
                 else if uncle_is_left \<and> pl = pnode then do {
                   pnode \<leftarrow> rd_parent m pnode;
                   (m, root) \<leftarrow> helper_rotate_right m root pnode;
                   Some (m, root, pnode) }
                 else Some (m, root, pnode));
              parent \<leftarrow> rd_parent m pnode;
              m \<leftarrow> wr_color m parent COLOR_BLACK;
              grandparent \<leftarrow> helper_get_grandparent m pnode;
              m \<leftarrow> wr_color m grandparent COLOR_RED;
              (m, root) \<leftarrow> (if \<not> uncle_is_left then helper_rotate_right m root grandparent
                              else helper_rotate_left m root grandparent);
              Some (m, root, pnode) } } }"

partial_function (option) insert_rebalance_loop :: "rb_mem \<Rightarrow> addr \<Rightarrow> addr \<Rightarrow> (rb_mem \<times> addr) option" where
  "insert_rebalance_loop m root pnode =
     do { go \<leftarrow> (if root \<noteq> pnode then
                   do { p \<leftarrow> rd_parent m pnode;
                        if p \<noteq> NULL then do { c \<leftarrow> rd_color m p; Some (c = COLOR_RED) } else Some False }
                 else Some False);
          if go then do { (m, root, pnode) \<leftarrow> insert_rebalance_step m root pnode;
                          insert_rebalance_loop m root pnode }
          else Some (m, root) }"

text \<open>\<open>__helper_rb_tree_insert_rebalance\<close>\<close>

definition helper_rb_tree_insert_rebalance :: "rb_mem \<Rightarrow> addr \<Rightarrow> addr \<Rightarrow> (rb_mem \<times> addr) option" where
  "helper_rb_tree_insert_rebalance m root node =
     do { new_node_parent \<leftarrow> rd_parent m node;
          not_black \<leftarrow> (if new_node_parent \<noteq> NULL
                          then do { c \<leftarrow> rd_color m new_node_parent; Some (c \<noteq> COLOR_BLACK) } else Some False);
          if not_black then
            do { (m, root) \<leftarrow> insert_rebalance_loop m root node;
                 m \<leftarrow> wr_color m root COLOR_BLACK;
                 Some (m, root) }
          else Some (m, root) }"

text \<open>The descent of \<open>rb_tree_insert\<close> from \<open>nd\<close>: \<open>None\<close> inside if the key is present, otherwise the memory, the
  node below which the new node is linked, and the \<open>rightmost\<close> flag.\<close>

partial_function (option) rb_insert_loop ::
  "(addr \<Rightarrow> addr \<Rightarrow> int) \<Rightarrow> rb_mem \<Rightarrow> addr \<Rightarrow> addr \<Rightarrow> bool \<Rightarrow> (rb_mem \<times> addr \<times> bool) option option" where
  "rb_insert_loop cmp m node nd rightmost =
     (if nd \<noteq> NULL then
        let compare = cmp (rb_key (m node)) (rb_key (m nd)) in
        if compare = 0 then Some None
        else if compare < 0 then
          (if rb_left (m nd) = NULL
           then do { m \<leftarrow> wr_left m nd node; Some (Some (m, nd, False)) }
           else rb_insert_loop cmp m node (rb_left (m nd)) False)
        else
          (if rb_right (m nd) = NULL
           then do { m \<leftarrow> wr_right m nd node; Some (Some (m, nd, rightmost)) }
           else rb_insert_loop cmp m node (rb_right (m nd)) rightmost)
      else Some (Some (m, nd, rightmost)))"

definition rb_tree_insert ::
  "rb_mem \<Rightarrow> 's rb_tree option \<Rightarrow> addr \<Rightarrow> addr \<Rightarrow> (aresult_t \<times> rb_mem \<times> 's rb_tree option) option" where
  "rb_tree_insert m tree key node =
     (case tree of
        None \<Rightarrow> Some (A_E_BADARGS, m, None)
      | Some t \<Rightarrow>
          if \<not> node \<noteq> NULL then Some (A_E_BADARGS, m, Some t)
          else do {
            m \<leftarrow> wr_key m node key;
            if rb_root t = NULL then do {
              m \<leftarrow> wr_color m node COLOR_BLACK;
              Some (A_OK, m, Some (t\<lparr>rb_root := node, rb_rightmost := node\<rparr>)) }
            else do {
              m \<leftarrow> wr_color m node COLOR_RED;
              cmp \<leftarrow> rb_compare t;
              res \<leftarrow> rb_insert_loop (cmp (rb_state t)) m node (rb_root t) True;
              case res of
                None \<Rightarrow> Some (A_E_BUSY, m, Some t)
              | Some (m, nd, rightmost) \<Rightarrow> do {
                  m \<leftarrow> wr_parent m node nd;
                  let t = (if rightmost then t\<lparr>rb_rightmost := node\<rparr> else t);
                  (m, root) \<leftarrow> helper_rb_tree_insert_rebalance m (rb_root t) node;
                  Some (A_OK, m, Some (t\<lparr>rb_root := root\<rparr>)) } } })"

text \<open>The descent of \<open>rb_tree_find_or_insert\<close>: the node found (or NULL), its would-be parent, the direction
  (False left) and the \<open>rightmost\<close> flag.\<close>

partial_function (option) rb_foi_loop ::
  "(addr \<Rightarrow> addr \<Rightarrow> int) \<Rightarrow> rb_mem \<Rightarrow> addr \<Rightarrow> addr \<Rightarrow> addr \<Rightarrow> bool \<Rightarrow> bool \<Rightarrow>
   (addr \<times> addr \<times> bool \<times> bool) option" where
  "rb_foi_loop cmp m key node node_prev dir rightmost =
     (if node \<noteq> NULL then
        let compare = cmp key (rb_key (m node)) in
        if compare < 0 then rb_foi_loop cmp m key (rb_left (m node)) node False False
        else if compare = 0 then Some (node, node_prev, dir, rightmost)
        else rb_foi_loop cmp m key (rb_right (m node)) node True rightmost
      else Some (node, node_prev, dir, rightmost))"

definition rb_tree_find_or_insert ::
  "rb_mem \<Rightarrow> 's rb_tree option \<Rightarrow> addr \<Rightarrow> addr \<Rightarrow> addr option \<Rightarrow>
   (aresult_t \<times> rb_mem \<times> 's rb_tree option \<times> addr option) option" where
  "rb_tree_find_or_insert m tree key new_candidate pvalue =
     (case tree of
        None \<Rightarrow> Some (A_E_BADARGS, m, None, pvalue)
      | Some t \<Rightarrow>
          if \<not> pvalue \<noteq> None then Some (A_E_BADARGS, m, Some t, pvalue)
          else if \<not> new_candidate \<noteq> NULL then Some (A_E_BADARGS, m, Some t, pvalue)
          else do {
            m \<leftarrow> wr_key m new_candidate key;
            if rb_root t = NULL then do {
              m \<leftarrow> wr_color m new_candidate COLOR_BLACK;
              Some (A_OK, m, Some (t\<lparr>rb_root := new_candidate, rb_rightmost := new_candidate\<rparr>), Some new_candidate) }
            else do {
              cmp \<leftarrow> rb_compare t;
              (node, node_prev, dir, rightmost) \<leftarrow>
                rb_foi_loop (cmp (rb_state t)) m key (rb_root t) NULL False True;
              if node = NULL then do {
                m \<leftarrow> (if \<not> dir then wr_left m node_prev new_candidate else wr_right m node_prev new_candidate);
                m \<leftarrow> wr_parent m new_candidate node_prev;
                m \<leftarrow> wr_color m new_candidate COLOR_RED;
                let t = (if rightmost then t\<lparr>rb_rightmost := new_candidate\<rparr> else t);
                (m, root) \<leftarrow> helper_rb_tree_insert_rebalance m (rb_root t) new_candidate;
                Some (A_OK, m, Some (t\<lparr>rb_root := root\<rparr>), Some new_candidate) }
              else Some (A_OK, m, Some t, Some node) } })"

subsection \<open>Order neighbours\<close>

text \<open>\<open>__helper_rb_tree_find_minimum\<close> and \<open>__helper_rb_tree_find_maximum\<close>; the header has copies of the two
  under the names \<open>__rb_tree_find_minimum\<close> and \<open>__rb_tree_find_maximum\<close>, which store the result through a
  pointer.\<close>

partial_function (option) helper_rb_tree_find_minimum :: "rb_mem \<Rightarrow> addr \<Rightarrow> addr option" where
  "helper_rb_tree_find_minimum m x =
     do { l \<leftarrow> rd_left m x; if l \<noteq> NULL then helper_rb_tree_find_minimum m l else Some x }"

partial_function (option) helper_rb_tree_find_maximum :: "rb_mem \<Rightarrow> addr \<Rightarrow> addr option" where
  "helper_rb_tree_find_maximum m x =
     do { r \<leftarrow> rd_right m x; if r \<noteq> NULL then helper_rb_tree_find_maximum m r else Some x }"

definition rb_tree_find_minimum :: "rb_mem \<Rightarrow> addr \<Rightarrow> (aresult_t \<times> addr) option" where
  "rb_tree_find_minimum m root = do { x \<leftarrow> helper_rb_tree_find_minimum m root; Some (A_OK, x) }"

definition rb_tree_find_maximum :: "rb_mem \<Rightarrow> addr \<Rightarrow> (aresult_t \<times> addr) option" where
  "rb_tree_find_maximum m root = do { x \<leftarrow> helper_rb_tree_find_maximum m root; Some (A_OK, x) }"

text \<open>The climbing loops of the successor and predecessor functions: \<open>y\<close> is the parent of \<open>x\<close>.\<close>

partial_function (option) rb_climb_right :: "rb_mem \<Rightarrow> addr \<Rightarrow> addr \<Rightarrow> addr option" where
  "rb_climb_right m x y =
     (if y \<noteq> NULL \<and> x = rb_right (m y) then rb_climb_right m y (rb_parent (m y)) else Some y)"

partial_function (option) rb_climb_left :: "rb_mem \<Rightarrow> addr \<Rightarrow> addr \<Rightarrow> addr option" where
  "rb_climb_left m x y =
     (if y \<noteq> NULL \<and> x = rb_left (m y) then rb_climb_left m y (rb_parent (m y)) else Some y)"

text \<open>\<open>__helper_rb_tree_find_successor\<close> and \<open>__helper_rb_tree_find_predecessor\<close>\<close>

definition helper_rb_tree_find_successor :: "rb_mem \<Rightarrow> addr \<Rightarrow> addr option" where
  "helper_rb_tree_find_successor m x =
     do { r \<leftarrow> rd_right m x;
          if r \<noteq> NULL then helper_rb_tree_find_minimum m r
          else do { y \<leftarrow> rd_parent m x; rb_climb_right m x y } }"

definition helper_rb_tree_find_predecessor :: "rb_mem \<Rightarrow> addr \<Rightarrow> addr option" where
  "helper_rb_tree_find_predecessor m x =
     do { l \<leftarrow> rd_left m x;
          if l \<noteq> NULL then helper_rb_tree_find_maximum m l
          else do { y \<leftarrow> rd_parent m x; rb_climb_left m x y } }"

text \<open>The public functions of the header.\<close>

definition rb_tree_find_successor ::
  "rb_mem \<Rightarrow> 's rb_tree option \<Rightarrow> addr \<Rightarrow> addr option \<Rightarrow> (aresult_t \<times> addr option) option" where
  "rb_tree_find_successor m tree node successor =
     (if \<not> tree \<noteq> None then Some (A_E_BADARGS, successor)
      else if \<not> node \<noteq> NULL then Some (A_E_BADARGS, successor)
      else if \<not> successor \<noteq> None then Some (A_E_BADARGS, successor)
      else do { r \<leftarrow> rd_right m node;
                if r \<noteq> NULL then do { (_, s) \<leftarrow> rb_tree_find_minimum m r; Some (A_OK, Some s) }
                else do { y \<leftarrow> rd_parent m node;
                          s \<leftarrow> rb_climb_right m node y;
                          Some (A_OK, Some s) } })"

definition rb_tree_find_predecessor ::
  "rb_mem \<Rightarrow> 's rb_tree option \<Rightarrow> addr \<Rightarrow> addr option \<Rightarrow> (aresult_t \<times> addr option) option" where
  "rb_tree_find_predecessor m tree node pred =
     (if \<not> tree \<noteq> None then Some (A_E_BADARGS, pred)
      else if \<not> node \<noteq> NULL then Some (A_E_BADARGS, pred)
      else if \<not> pred \<noteq> None then Some (A_E_BADARGS, pred)
      else do { l \<leftarrow> rd_left m node;
                if l \<noteq> NULL then do { (_, s) \<leftarrow> rb_tree_find_maximum m l; Some (A_OK, Some s) }
                else do { y \<leftarrow> rd_parent m node;
                          s \<leftarrow> rb_climb_left m node y;
                          Some (A_OK, Some s) } })"

definition rb_tree_get_rightmost :: "'s rb_tree option \<Rightarrow> addr option \<Rightarrow> aresult_t \<times> addr option" where
  "rb_tree_get_rightmost tree rightmost =
     (case (tree, rightmost) of
        (Some t, Some r) \<Rightarrow> (A_OK, Some (rb_rightmost t))
      | _ \<Rightarrow> (A_E_BADARGS, rightmost))"

datatype rb_control = RB_STOP | RB_CONTINUE

text \<open>\<open>__rb_tree_traverse_node\<close>: preorder; the callback changes its state and says whether to go on. It
  does not change the tree.\<close>

partial_function (option) rb_tree_traverse_node ::
  "rb_mem \<Rightarrow> addr \<Rightarrow> (addr \<Rightarrow> 'z \<Rightarrow> rb_control \<times> 'z) \<Rightarrow> 'z \<Rightarrow> (rb_control \<times> 'z) option" where
  "rb_tree_traverse_node m node cb state =
     (if node = NULL then Some (RB_CONTINUE, state)
      else let (ret, state) = cb node state in
           if ret \<noteq> RB_CONTINUE then Some (ret, state)
           else do { (ret, state) \<leftarrow> rb_tree_traverse_node m (rb_left (m node)) cb state;
                     if ret \<noteq> RB_CONTINUE then Some (ret, state)
                     else rb_tree_traverse_node m (rb_right (m node)) cb state })"

definition rb_tree_traverse ::
  "rb_mem \<Rightarrow> 's rb_tree \<Rightarrow> (addr \<Rightarrow> 'z \<Rightarrow> rb_control \<times> 'z) \<Rightarrow> 'z \<Rightarrow> (rb_control \<times> 'z) option" where
  "rb_tree_traverse m tree cb state = rb_tree_traverse_node m (rb_root tree) cb state"

subsection \<open>Removal\<close>

text \<open>\<open>__helper_rb_tree_swap_node\<close>: put \<open>y\<close> where \<open>x\<close> is.\<close>

definition helper_rb_tree_swap_node :: "rb_mem \<Rightarrow> addr \<Rightarrow> addr \<Rightarrow> addr \<Rightarrow> (rb_mem \<times> addr) option" where
  "helper_rb_tree_swap_node m root x y =
     do { left \<leftarrow> rd_left m x;
          right \<leftarrow> rd_right m x;
          parent \<leftarrow> rd_parent m x;
          m \<leftarrow> wr_parent m y parent;
          (m, root) \<leftarrow>
            (if parent \<noteq> NULL then
               do { l \<leftarrow> rd_left m parent;
                    m \<leftarrow> (if l = x then wr_left m parent y else wr_right m parent y);
                    Some (m, root) }
             else Some (m, if root = x then y else root));
          m \<leftarrow> wr_right m y right;
          m \<leftarrow> (if right \<noteq> NULL then wr_parent m right y else Some m);
          m \<leftarrow> wr_right m x NULL;
          m \<leftarrow> wr_left m y left;
          m \<leftarrow> (if left \<noteq> NULL then wr_parent m left y else Some m);
          m \<leftarrow> wr_left m x NULL;
          c \<leftarrow> rd_color m x;
          m \<leftarrow> wr_color m y c;
          m \<leftarrow> wr_parent m x NULL;
          Some (m, root) }"

definition is_black_or_null :: "rb_mem \<Rightarrow> addr \<Rightarrow> bool" where
  "is_black_or_null m a \<longleftrightarrow> a = NULL \<or> rb_color (m a) = COLOR_BLACK"

text \<open>The body of the loop of \<open>__helper_rb_tree_delete_rebalance\<close>: memory, root, and the next \<open>x\<close>, \<open>xp\<close>,
  \<open>is_left\<close>.\<close>

definition delete_rebalance_step ::
  "rb_mem \<Rightarrow> addr \<Rightarrow> addr \<Rightarrow> addr \<Rightarrow> bool \<Rightarrow> (rb_mem \<times> addr \<times> addr \<times> addr \<times> bool) option" where
  "delete_rebalance_step m root x xp is_left =
     do { w \<leftarrow> (if is_left then rd_right m xp else rd_left m xp);
          (m, root, w) \<leftarrow>
            (if w \<noteq> NULL \<and> rb_color (m w) = COLOR_RED then do {
               m \<leftarrow> wr_color m w COLOR_BLACK;
               m \<leftarrow> wr_color m xp COLOR_RED;
               (m, root) \<leftarrow> (if is_left then helper_rotate_left m root xp else helper_rotate_right m root xp);
               w \<leftarrow> (if is_left then rd_right m xp else rd_left m xp);
               Some (m, root, w) }
             else Some (m, root, w));
          let wleft = (if w \<noteq> NULL then rb_left (m w) else NULL);
          let wright = (if w \<noteq> NULL then rb_right (m w) else NULL);
          if is_black_or_null m wleft \<and> is_black_or_null m wright then do {
            m \<leftarrow> (if w \<noteq> NULL then wr_color m w COLOR_RED else Some m);
            let x = xp;
            xp \<leftarrow> rd_parent m x;
            Some (m, root, x, xp, xp \<noteq> NULL \<and> x = rb_left (m xp)) }
          else do {
            (m, root, w) \<leftarrow>
              (if is_left \<and> is_black_or_null m wright then do {
                 m \<leftarrow> wr_color m w COLOR_RED;
                 m \<leftarrow> (if wleft \<noteq> NULL then wr_color m wleft COLOR_BLACK else Some m);
                 (m, root) \<leftarrow> helper_rotate_right m root w;
                 w \<leftarrow> rd_right m xp;
                 Some (m, root, w) }
               else if \<not> is_left \<and> is_black_or_null m wleft then do {
                 m \<leftarrow> wr_color m w COLOR_RED;
                 m \<leftarrow> (if wright \<noteq> NULL then wr_color m wright COLOR_BLACK else Some m);
                 (m, root) \<leftarrow> helper_rotate_left m root w;
                 w \<leftarrow> rd_left m xp;
                 Some (m, root, w) }
               else Some (m, root, w));
            wleft \<leftarrow> rd_left m w;
            wright \<leftarrow> rd_right m w;
            c \<leftarrow> rd_color m xp;
            m \<leftarrow> wr_color m w c;
            m \<leftarrow> wr_color m xp COLOR_BLACK;
            (m, root) \<leftarrow>
              (if is_left \<and> wright \<noteq> NULL then
                 do { m \<leftarrow> wr_color m wright COLOR_BLACK; helper_rotate_left m root xp }
               else if \<not> is_left \<and> wleft \<noteq> NULL then
                 do { m \<leftarrow> wr_color m wleft COLOR_BLACK; helper_rotate_right m root xp }
               else Some (m, root));
            Some (m, root, root, xp, is_left) } }"

partial_function (option) delete_rebalance_loop ::
  "rb_mem \<Rightarrow> addr \<Rightarrow> addr \<Rightarrow> addr \<Rightarrow> bool \<Rightarrow> (rb_mem \<times> addr \<times> addr) option" where
  "delete_rebalance_loop m root x xp is_left =
     (if x \<noteq> root \<and> is_black_or_null m x
      then do { (m, root, x, xp, is_left) \<leftarrow> delete_rebalance_step m root x xp is_left;
                delete_rebalance_loop m root x xp is_left }
      else Some (m, root, x))"

text \<open>\<open>__helper_rb_tree_delete_rebalance\<close>\<close>

definition helper_rb_tree_delete_rebalance ::
  "rb_mem \<Rightarrow> addr \<Rightarrow> addr \<Rightarrow> addr \<Rightarrow> bool \<Rightarrow> (rb_mem \<times> addr) option" where
  "helper_rb_tree_delete_rebalance m root node parent node_is_left =
     do { (m, root, x) \<leftarrow> delete_rebalance_loop m root node parent node_is_left;
          m \<leftarrow> (if x \<noteq> NULL then wr_color m x COLOR_BLACK else Some m);
          Some (m, root) }"

definition rb_tree_remove ::
  "rb_mem \<Rightarrow> 's rb_tree option \<Rightarrow> addr \<Rightarrow> (aresult_t \<times> rb_mem \<times> 's rb_tree option) option" where
  "rb_tree_remove m tree node =
     (case tree of
        None \<Rightarrow> Some (A_E_BADARGS, m, None)
      | Some t \<Rightarrow>
          if \<not> node \<noteq> NULL then Some (A_E_BADARGS, m, Some t)
          else do {
            l \<leftarrow> rd_left m node;
            r \<leftarrow> rd_right m node;
            (t, y) \<leftarrow>
              (if l = NULL \<or> r = NULL then
                 (if node = rb_rightmost t
                  then do { p \<leftarrow> helper_rb_tree_find_predecessor m node; Some (t\<lparr>rb_rightmost := p\<rparr>, node) }
                  else Some (t, node))
               else do { y \<leftarrow> helper_rb_tree_find_successor m node; Some (t, y) });
            yl \<leftarrow> rd_left m y;
            x \<leftarrow> (if yl \<noteq> NULL then Some yl else rd_right m y);
            yp \<leftarrow> rd_parent m y;
            m \<leftarrow> (if x \<noteq> NULL then wr_parent m x yp else Some m);
            xp \<leftarrow> (if x \<noteq> NULL then rd_parent m x else rd_parent m y);
            yp \<leftarrow> rd_parent m y;
            (m, root, xp, is_left) \<leftarrow>
              (if yp = NULL then Some (m, x, NULL, False)
               else do { ypl \<leftarrow> rd_left m yp;
                         if y = ypl then do { m \<leftarrow> wr_left m yp x; Some (m, rb_root t, xp, True) }
                         else do { m \<leftarrow> wr_right m yp x; Some (m, rb_root t, xp, False) } });
            y_color \<leftarrow> rd_color m y;
            (m, root, xp) \<leftarrow>
              (if y \<noteq> node then do { (m, root) \<leftarrow> helper_rb_tree_swap_node m root node y;
                                       Some (m, root, if xp = node then y else xp) }
               else Some (m, root, xp));
            (m, root) \<leftarrow> (if y_color = COLOR_BLACK then helper_rb_tree_delete_rebalance m root x xp is_left
                            else Some (m, root));
            m \<leftarrow> wr_parent m node NULL;
            m \<leftarrow> wr_left m node NULL;
            m \<leftarrow> wr_right m node NULL;
            Some (A_OK, m, Some (t\<lparr>rb_root := root\<rparr>)) })"

end
