(* ===== verification/RBTree_Shape.thy ===== *)
theory RBTree_Shape
  imports RBTree
begin

section \<open>Trees in memory\<close>

text \<open>
  The shape of the nodes in memory is a binary tree of addresses. \<open>is_tree m p t\<close> says that the nodes of
  \<open>t\<close> are linked as \<open>t\<close>, with \<open>p\<close> as the parent pointer of its root. A position inside a tree is a
  context: the frames from the position up to the root, each with the sibling subtree. The rotations
  of the code are shown to be the rotations of trees, at any position.
\<close>

subsection \<open>Trees and contexts\<close>

fun ptr :: "addr tree \<Rightarrow> addr" where
  "ptr Leaf = NULL"
| "ptr (Node l a r) = a"

fun is_tree :: "rb_mem \<Rightarrow> addr \<Rightarrow> addr tree \<Rightarrow> bool" where
  "is_tree m p Leaf \<longleftrightarrow> True"
| "is_tree m p (Node l a r) \<longleftrightarrow>
     a \<noteq> NULL \<and> rb_parent (m a) = p \<and> rb_left (m a) = ptr l \<and> rb_right (m a) = ptr r \<and>
     is_tree m a l \<and> is_tree m a r"

datatype frame = InLeft addr "addr tree" | InRight "addr tree" addr

type_synonym ctx = "frame list"

fun top :: "ctx \<Rightarrow> addr" where
  "top [] = NULL"
| "top (InLeft a r # k) = a"
| "top (InRight l a # k) = a"

fun plug :: "addr tree \<Rightarrow> ctx \<Rightarrow> addr tree" where
  "plug t [] = t"
| "plug t (InLeft a r # k) = plug (Node t a r) k"
| "plug t (InRight l a # k) = plug (Node l a t) k"

text \<open>The nodes before and after the position, in order.\<close>

fun before :: "ctx \<Rightarrow> addr list" where
  "before [] = []"
| "before (InLeft a r # k) = before k"
| "before (InRight l a # k) = before k @ inorder l @ [a]"

fun after :: "ctx \<Rightarrow> addr list" where
  "after [] = []"
| "after (InLeft a r # k) = a # inorder r @ after k"
| "after (InRight l a # k) = after k"

fun is_ctx :: "rb_mem \<Rightarrow> addr \<Rightarrow> ctx \<Rightarrow> bool" where
  "is_ctx m f [] \<longleftrightarrow> True"
| "is_ctx m f (InLeft a r # k) \<longleftrightarrow>
     a \<noteq> NULL \<and> rb_parent (m a) = top k \<and> rb_left (m a) = f \<and> rb_right (m a) = ptr r \<and>
     is_tree m a r \<and> is_ctx m a k"
| "is_ctx m f (InRight l a # k) \<longleftrightarrow>
     a \<noteq> NULL \<and> rb_parent (m a) = top k \<and> rb_right (m a) = f \<and> rb_left (m a) = ptr l \<and>
     is_tree m a l \<and> is_ctx m a k"

lemma inorder_plug: "inorder (plug t k) = before k @ inorder t @ after k"
  by (induction t k rule: plug.induct) auto

lemma is_tree_plug: "is_tree m NULL (plug t k) \<longleftrightarrow> is_tree m (top k) t \<and> is_ctx m (ptr t) k"
  by (induction t k rule: plug.induct) auto

lemma plug_Leaf: "plug t k = Leaf \<longleftrightarrow> t = Leaf \<and> k = []"
  by (induction t k rule: plug.induct) auto

lemma ptr_NULL_iff: "is_tree m p t \<Longrightarrow> ptr t = NULL \<longleftrightarrow> t = Leaf"
  by (cases t) auto

lemma is_tree_nonnull: "is_tree m p t \<Longrightarrow> NULL \<notin> set (inorder t)"
  by (induction m p t rule: is_tree.induct) auto

text \<open>The root of the whole tree depends on the position only when the context is empty.\<close>

lemma ptr_plug: "k \<noteq> [] \<Longrightarrow> ptr (plug t k) = ptr (plug t' k)"
proof (induction k arbitrary: t t')
  case (Cons f k)
  then show ?case by (cases f; cases "k = []") auto
qed simp

text \<open>A tree depends on the links of its nodes only.\<close>

definition same_links :: "rb_mem \<Rightarrow> rb_mem \<Rightarrow> addr \<Rightarrow> bool" where
  "same_links m m' a \<longleftrightarrow>
     rb_left (m' a) = rb_left (m a) \<and> rb_right (m' a) = rb_right (m a) \<and> rb_parent (m' a) = rb_parent (m a)"

lemma is_tree_cong:
  "(\<And>a. a \<in> set_tree t \<Longrightarrow> same_links m m' a) \<Longrightarrow> is_tree m' p t = is_tree m p t"
  by (induction t arbitrary: p) (simp_all add: same_links_def)

lemma is_ctx_cong:
  "(\<And>a. a \<in> set (before k) \<union> set (after k) \<Longrightarrow> same_links m m' a) \<Longrightarrow> is_ctx m' f k = is_ctx m f k"
proof (induction k arbitrary: f)
  case (Cons fr k)
  have k: "is_ctx m' g k = is_ctx m g k" for g
    using Cons by (cases fr) auto
  show ?case
  proof (cases fr)
    case (InLeft a r)
    then have "is_tree m' a r = is_tree m a r"
      using Cons.prems by (intro is_tree_cong) simp
    moreover have "same_links m m' a" using Cons.prems InLeft by simp
    ultimately show ?thesis using InLeft k by (auto simp: same_links_def)
  next
    case (InRight l a)
    then have "is_tree m' a l = is_tree m a l"
      using Cons.prems by (intro is_tree_cong) simp
    moreover have "same_links m m' a" using Cons.prems InRight by simp
    ultimately show ?thesis using InRight k by (auto simp: same_links_def)
  qed
qed simp

lemma is_tree_upd [rb_mem_simps]: "a \<notin> set (inorder t) \<Longrightarrow> is_tree (m(a := v)) p t = is_tree m p t"
  by (rule is_tree_cong) (auto simp: same_links_def)

lemma is_ctx_upd [rb_mem_simps]:
  "a \<notin> set (before k) \<Longrightarrow> a \<notin> set (after k) \<Longrightarrow> is_ctx (m(a := v)) f k = is_ctx m f k"
  by (rule is_ctx_cong) (auto simp: same_links_def)

text \<open>Changing a colour or a key changes no shape.\<close>

lemma is_tree_data [rb_mem_simps]:
  "is_tree (m(a := (m a)\<lparr>rb_color := c\<rparr>)) p t = is_tree m p t"
  "is_tree (m(a := (m a)\<lparr>rb_key := c'\<rparr>)) p t = is_tree m p t"
  by (rule is_tree_cong, simp add: same_links_def)+

lemma is_ctx_data [rb_mem_simps]:
  "is_ctx (m(a := (m a)\<lparr>rb_color := c\<rparr>)) f k = is_ctx m f k"
  "is_ctx (m(a := (m a)\<lparr>rb_key := c'\<rparr>)) f k = is_ctx m f k"
  by (rule is_ctx_cong, simp add: same_links_def)+

lemma rd_nonnull [rb_mem_simps]: "a \<noteq> NULL \<Longrightarrow> rd f m a = Some (f (m a))"
  by (simp add: rd_def)

lemma wr_nonnull [rb_mem_simps]: "a \<noteq> NULL \<Longrightarrow> wr f m a = Some (m(a := f (m a)))"
  by (simp add: wr_def)

subsection \<open>Rotations\<close>

definition same_data :: "rb_mem \<Rightarrow> rb_mem \<Rightarrow> bool" where
  "same_data m m' \<longleftrightarrow> (\<forall>a. rb_key (m' a) = rb_key (m a) \<and> rb_color (m' a) = rb_color (m a))"

definition tree_at :: "rb_mem \<Rightarrow> addr \<Rightarrow> addr tree \<Rightarrow> ctx \<Rightarrow> bool" where
  "tree_at m root t k \<longleftrightarrow>
     root = ptr (plug t k) \<and> is_tree m (top k) t \<and> is_ctx m (ptr t) k \<and> distinct (inorder (plug t k))"

text \<open>What a left rotation at \<open>x\<close> with child \<open>y\<close>, inner grandchild \<open>yl\<close> and parent \<open>xp\<close> writes.\<close>

lemma rotate_left_fields:
  assumes "x \<noteq> NULL" "y \<noteq> NULL" "x \<noteq> y" "yl \<notin> {x, y}" "xp \<notin> {x, y}" "yl = xp \<longrightarrow> yl = NULL"
    and "rb_right (m x) = y" "rb_left (m y) = yl" "rb_parent (m x) = xp"
  obtains m' where "helper_rotate_left m root x = Some (m', if xp = NULL then y else root)" "same_data m m'"
    "\<And>a. a \<notin> {x, y, yl, xp} \<Longrightarrow> m' a = m a"
    "m' x = (m x)\<lparr>rb_right := yl, rb_parent := y\<rparr>" "m' y = (m y)\<lparr>rb_parent := xp, rb_left := x\<rparr>"
    "yl \<noteq> NULL \<Longrightarrow> m' yl = (m yl)\<lparr>rb_parent := x\<rparr>"
    "xp \<noteq> NULL \<Longrightarrow> m' xp = (if x = rb_left (m xp) then (m xp)\<lparr>rb_left := y\<rparr> else (m xp)\<lparr>rb_right := y\<rparr>)"
proof -
  define m1 where "m1 = m(x := (m x)\<lparr>rb_right := yl\<rparr>)"
  define m2 where "m2 = (if yl = NULL then m1 else m1(yl := (m1 yl)\<lparr>rb_parent := x\<rparr>))"
  define m3 where "m3 = m2(y := (m2 y)\<lparr>rb_parent := xp\<rparr>)"
  define m4 where "m4 = (if xp = NULL then m3
      else m3(xp := if x = rb_left (m xp) then (m xp)\<lparr>rb_left := y\<rparr> else (m xp)\<lparr>rb_right := y\<rparr>))"
  define m5 where "m5 = m4(y := (m4 y)\<lparr>rb_left := x\<rparr>)"
  define m6 where "m6 = m5(x := (m5 x)\<lparr>rb_parent := y\<rparr>)"
  note defs = m1_def m2_def m3_def m4_def m5_def m6_def
  have ne: "y \<noteq> x" "yl \<noteq> x" "yl \<noteq> y" "xp \<noteq> x" "xp \<noteq> y" "x \<noteq> yl" "y \<noteq> yl" "x \<noteq> xp" "y \<noteq> xp"
    using assms(3-5) by auto
  have ne2: "yl \<noteq> xp" "xp \<noteq> yl" if "yl \<noteq> NULL" using assms(6) that by auto
  have r: "rd_right m x = Some y" "rd_left m y = Some yl" "wr_right m x yl = Some m1" "rd_left m1 y = Some yl"
    using assms(1,2,7,8) ne by (simp_all add: rb_mem_simps m1_def)
  have r2: "(if yl \<noteq> NULL then wr_parent m1 yl x else Some m1) = Some m2" "rd_parent m2 x = Some xp"
    "wr_parent m2 y xp = Some m3" "rd_parent m3 x = Some xp"
    using assms(1,2,9) ne by (simp_all add: rb_mem_simps m2_def m3_def m1_def)
  have rest: "m4 a = m3 a" if "a \<noteq> xp" for a using that by (simp add: m4_def)
  have xp3: "m3 xp = m xp" if "xp \<noteq> NULL" using that ne ne2 by (auto simp: m3_def m2_def m1_def)
  have r3: "(if xp = NULL then Some (m3, y)
      else do { l \<leftarrow> rd_left m3 xp;
                m \<leftarrow> (if x = l then wr_left m3 xp y else wr_right m3 xp y);
                Some (m, root) }) = Some (m4, if xp = NULL then y else root)"
    using xp3 by (cases "xp = NULL"; cases "x = rb_left (m xp)") (simp_all add: rb_mem_simps m4_def)
  have r4: "wr_left m4 y x = Some m5" "wr_parent m5 x y = Some m6"
    using assms(1,2) by (simp_all add: rb_mem_simps m5_def m6_def)
  have x3: "m3 x = (m x)\<lparr>rb_right := yl\<rparr>" "m3 y = (m y)\<lparr>rb_parent := xp\<rparr>"
    using ne by (simp_all add: m3_def m2_def m1_def)
  have x6: "m6 x = (m x)\<lparr>rb_right := yl, rb_parent := y\<rparr>" "m6 y = (m y)\<lparr>rb_parent := xp, rb_left := x\<rparr>"
    using ne x3 rest by (simp_all add: m6_def m5_def)
  have x6a: "m6 a = m4 a" if "a \<noteq> x" "a \<noteq> y" for a
    using that by (simp add: m6_def m5_def)
  show ?thesis
  proof (rule that)
    show "helper_rotate_left m root x = Some (m6, if xp = NULL then y else root)"
      unfolding helper_rotate_left_def by (simp only: r r2 r3 r4 bind.bind_lunit prod.case)
    show out: "m6 a = m a" if "a \<notin> {x, y, yl, xp}" for a
      using that rest x6a by (simp add: m3_def m2_def m1_def)
    show "m6 x = (m x)\<lparr>rb_right := yl, rb_parent := y\<rparr>" "m6 y = (m y)\<lparr>rb_parent := xp, rb_left := x\<rparr>"
      by (rule x6)+
    show yl6: "m6 yl = (m yl)\<lparr>rb_parent := x\<rparr>" if "yl \<noteq> NULL"
      using that ne ne2 rest [of yl] x6a [of yl] by (simp add: m3_def m2_def m1_def)
    show xp6: "m6 xp = (if x = rb_left (m xp) then (m xp)\<lparr>rb_left := y\<rparr> else (m xp)\<lparr>rb_right := y\<rparr>)" if "xp \<noteq> NULL"
      using that ne x6a [of xp] by (simp add: m4_def)
    have n0: "m6 a = m a" if "a \<notin> {x, y}" "yl = a \<longrightarrow> yl = NULL" "xp = a \<longrightarrow> xp = NULL" for a
      using that rest x6a [of a] by (cases "a = xp") (auto simp: m4_def m3_def m2_def m1_def)
    show "same_data m m6"
      unfolding same_data_def
    proof
      fix a
      show "rb_key (m6 a) = rb_key (m a) \<and> rb_color (m6 a) = rb_color (m a)"
        using x6(1,2) yl6 xp6 n0 [of a] by (cases "a = NULL"; cases "a \<in> {x, y}"; cases "yl = a"; cases "xp = a"; auto)
    qed
  qed
qed

lemma rotate_left_shape:
  assumes at: "tree_at m root (Node A x (Node B y C)) k"
  shows "\<exists>m' root'. helper_rotate_left m root x = Some (m', root') \<and> tree_at m' root' (Node (Node A x B) y C) k \<and> same_data m m'"
proof -
  let ?t = "(Node A x (Node B y C))" and ?t' = "(Node (Node A x B) y C)"
  from at have t: "is_tree m (top k) ?t" "is_ctx m x k" and d: "distinct (before k @ inorder ?t @ after k)"
    and root: "root = ptr (plug ?t k)"
    by (auto simp: tree_at_def inorder_plug)
  have "is_tree m NULL (plug ?t k)" using t by (simp add: is_tree_plug)
  then have nn: "NULL \<notin> set (before k @ inorder ?t @ after k)"
    using is_tree_nonnull inorder_plug by metis
  have topk: "k \<noteq> [] \<Longrightarrow> top k \<in> set (before k) \<union> set (after k) \<and> top k \<noteq> NULL" "k = [] \<Longrightarrow> top k = NULL"
    using t(2) by (cases k rule: top.cases; auto)+
  have B: "B \<noteq> Leaf \<Longrightarrow> ptr B \<in> set_tree B" by (cases B) auto
  have "ptr B \<notin> {x, y}" "top k \<notin> {x, y}" "ptr B = top k \<longrightarrow> ptr B = NULL" "x \<noteq> y" "x \<noteq> NULL" "y \<noteq> NULL"
    using d nn topk B by (cases "B = Leaf"; cases "k = []"; auto)+
  then obtain m' where m': "helper_rotate_left m root x = Some (m', if top k = NULL then y else root)"
    "same_data m m'" "\<And>a. a \<notin> {x, y, ptr B, top k} \<Longrightarrow> m' a = m a"
    "m' x = (m x)\<lparr>rb_right := ptr B, rb_parent := y\<rparr>" "m' y = (m y)\<lparr>rb_parent := top k, rb_left := x\<rparr>"
    "ptr B \<noteq> NULL \<Longrightarrow> m' (ptr B) = (m (ptr B))\<lparr>rb_parent := x\<rparr>"
    "top k \<noteq> NULL \<Longrightarrow> m' (top k) =
       (if x = rb_left (m (top k)) then (m (top k))\<lparr>rb_left := y\<rparr> else (m (top k))\<lparr>rb_right := y\<rparr>)"
    using t(1) rotate_left_fields [of x y "ptr B" "top k" m root] by (auto simp: that)
  have keep: "is_tree m' p u = is_tree m p u" if "set_tree u \<inter> {x, y, ptr B, top k} = {}" for p u
  proof (rule is_tree_cong)
    fix a assume "a \<in> set_tree u"
    then have "m' a = m a" using that m'(3) by blast
    then show "same_links m m' a" by (simp add: same_links_def)
  qed
  have keepk: "is_ctx m' f u = is_ctx m f u" if "(set (before u) \<union> set (after u)) \<inter> {x, y, ptr B, top k} = {}" for f u
  proof (rule is_ctx_cong)
    fix a assume "a \<in> set (before u) \<union> set (after u)"
    then have "m' a = m a" using that m'(3) by blast
    then show "same_links m m' a" by (simp add: same_links_def)
  qed
  have AC: "is_tree m' x A = is_tree m x A" "is_tree m' y C = is_tree m y C"
    using d nn topk B by (intro keep; cases "B = Leaf"; cases "k = []"; auto)+
  have Bt: "is_tree m' x B"
  proof (cases B)
    case (Node B1 b B2)
    then have "is_tree m' b B1 = is_tree m b B1" "is_tree m' b B2 = is_tree m b B2"
      using d nn topk by (intro keep; cases "k = []"; auto)+
    then show ?thesis using Node t(1) m'(6) by auto
  qed simp
  have kt: "is_ctx m' y k"
  proof (cases k rule: top.cases)
    case (2 p r k2)
    then have "is_tree m' p r = is_tree m p r" "is_ctx m' p k2 = is_ctx m p k2"
      using d t B nn by (intro keep keepk; cases "B = Leaf"; auto)+
    then show ?thesis using 2 t(2) m'(7) by auto
  next
    case (3 l p k2)
    have "x \<noteq> ptr l" using d nn 3 by (cases l) auto
    moreover from 3 have "is_tree m' p l = is_tree m p l" "is_ctx m' p k2 = is_ctx m p k2"
      using d t B nn by (intro keep keepk; cases "B = Leaf"; auto)+
    ultimately show ?thesis using 3 t(2) m'(7) by auto
  qed simp
  have "(if top k = NULL then y else root) = ptr (plug ?t' k)"
    using topk root ptr_plug [of k ?t ?t'] by (cases "k = []") auto
  moreover have "distinct (inorder (plug ?t' k))" using d by (simp add: inorder_plug)
  ultimately have "tree_at m' (if top k = NULL then y else root) ?t' k"
    using m'(4,5) AC Bt kt t(1) by (auto simp: tree_at_def)
  then show ?thesis using m'(1,2) by blast
qed

text \<open>What a right rotation at \<open>x\<close> with child \<open>y\<close>, inner grandchild \<open>yl\<close> and parent \<open>xp\<close> writes.\<close>

lemma rotate_right_fields:
  assumes "x \<noteq> NULL" "y \<noteq> NULL" "x \<noteq> y" "yl \<notin> {x, y}" "xp \<notin> {x, y}" "yl = xp \<longrightarrow> yl = NULL"
    and "rb_left (m x) = y" "rb_right (m y) = yl" "rb_parent (m x) = xp"
  obtains m' where "helper_rotate_right m root x = Some (m', if xp = NULL then y else root)" "same_data m m'"
    "\<And>a. a \<notin> {x, y, yl, xp} \<Longrightarrow> m' a = m a"
    "m' x = (m x)\<lparr>rb_left := yl, rb_parent := y\<rparr>" "m' y = (m y)\<lparr>rb_parent := xp, rb_right := x\<rparr>"
    "yl \<noteq> NULL \<Longrightarrow> m' yl = (m yl)\<lparr>rb_parent := x\<rparr>"
    "xp \<noteq> NULL \<Longrightarrow> m' xp = (if x = rb_left (m xp) then (m xp)\<lparr>rb_left := y\<rparr> else (m xp)\<lparr>rb_right := y\<rparr>)"
proof -
  define m1 where "m1 = m(x := (m x)\<lparr>rb_left := yl\<rparr>)"
  define m2 where "m2 = (if yl = NULL then m1 else m1(yl := (m1 yl)\<lparr>rb_parent := x\<rparr>))"
  define m3 where "m3 = m2(y := (m2 y)\<lparr>rb_parent := xp\<rparr>)"
  define m4 where "m4 = (if xp = NULL then m3
      else m3(xp := if x = rb_left (m xp) then (m xp)\<lparr>rb_left := y\<rparr> else (m xp)\<lparr>rb_right := y\<rparr>))"
  define m5 where "m5 = m4(y := (m4 y)\<lparr>rb_right := x\<rparr>)"
  define m6 where "m6 = m5(x := (m5 x)\<lparr>rb_parent := y\<rparr>)"
  note defs = m1_def m2_def m3_def m4_def m5_def m6_def
  have ne: "y \<noteq> x" "yl \<noteq> x" "yl \<noteq> y" "xp \<noteq> x" "xp \<noteq> y" "x \<noteq> yl" "y \<noteq> yl" "x \<noteq> xp" "y \<noteq> xp"
    using assms(3-5) by auto
  have ne2: "yl \<noteq> xp" "xp \<noteq> yl" if "yl \<noteq> NULL" using assms(6) that by auto
  have r: "rd_left m x = Some y" "rd_right m y = Some yl" "wr_left m x yl = Some m1" "rd_right m1 y = Some yl"
    using assms(1,2,7,8) ne by (simp_all add: rb_mem_simps m1_def)
  have r2: "(if yl \<noteq> NULL then wr_parent m1 yl x else Some m1) = Some m2" "rd_parent m2 x = Some xp"
    "wr_parent m2 y xp = Some m3" "rd_parent m3 x = Some xp"
    using assms(1,2,9) ne by (simp_all add: rb_mem_simps m2_def m3_def m1_def)
  have rest: "m4 a = m3 a" if "a \<noteq> xp" for a using that by (simp add: m4_def)
  have xp3: "m3 xp = m xp" if "xp \<noteq> NULL" using that ne ne2 by (auto simp: m3_def m2_def m1_def)
  have r3: "(if xp = NULL then Some (m3, y)
      else do { l \<leftarrow> rd_left m3 xp;
                m \<leftarrow> (if x = l then wr_left m3 xp y else wr_right m3 xp y);
                Some (m, root) }) = Some (m4, if xp = NULL then y else root)"
    using xp3 by (cases "xp = NULL"; cases "x = rb_left (m xp)") (simp_all add: rb_mem_simps m4_def)
  have r4: "wr_right m4 y x = Some m5" "wr_parent m5 x y = Some m6"
    using assms(1,2) by (simp_all add: rb_mem_simps m5_def m6_def)
  have x3: "m3 x = (m x)\<lparr>rb_left := yl\<rparr>" "m3 y = (m y)\<lparr>rb_parent := xp\<rparr>"
    using ne by (simp_all add: m3_def m2_def m1_def)
  have x6: "m6 x = (m x)\<lparr>rb_left := yl, rb_parent := y\<rparr>" "m6 y = (m y)\<lparr>rb_parent := xp, rb_right := x\<rparr>"
    using ne x3 rest by (simp_all add: m6_def m5_def)
  have x6a: "m6 a = m4 a" if "a \<noteq> x" "a \<noteq> y" for a
    using that by (simp add: m6_def m5_def)
  show ?thesis
  proof (rule that)
    show "helper_rotate_right m root x = Some (m6, if xp = NULL then y else root)"
      unfolding helper_rotate_right_def by (simp only: r r2 r3 r4 bind.bind_lunit prod.case)
    show out: "m6 a = m a" if "a \<notin> {x, y, yl, xp}" for a
      using that rest x6a by (simp add: m3_def m2_def m1_def)
    show "m6 x = (m x)\<lparr>rb_left := yl, rb_parent := y\<rparr>" "m6 y = (m y)\<lparr>rb_parent := xp, rb_right := x\<rparr>"
      by (rule x6)+
    show yl6: "m6 yl = (m yl)\<lparr>rb_parent := x\<rparr>" if "yl \<noteq> NULL"
      using that ne ne2 rest [of yl] x6a [of yl] by (simp add: m3_def m2_def m1_def)
    show xp6: "m6 xp = (if x = rb_left (m xp) then (m xp)\<lparr>rb_left := y\<rparr> else (m xp)\<lparr>rb_right := y\<rparr>)" if "xp \<noteq> NULL"
      using that ne x6a [of xp] by (simp add: m4_def)
    have n0: "m6 a = m a" if "a \<notin> {x, y}" "yl = a \<longrightarrow> yl = NULL" "xp = a \<longrightarrow> xp = NULL" for a
      using that rest x6a [of a] by (cases "a = xp") (auto simp: m4_def m3_def m2_def m1_def)
    show "same_data m m6"
      unfolding same_data_def
    proof
      fix a
      show "rb_key (m6 a) = rb_key (m a) \<and> rb_color (m6 a) = rb_color (m a)"
        using x6(1,2) yl6 xp6 n0 [of a] by (cases "a = NULL"; cases "a \<in> {x, y}"; cases "yl = a"; cases "xp = a"; auto)
    qed
  qed
qed

lemma rotate_right_shape:
  assumes at: "tree_at m root (Node (Node C y B) x A) k"
  shows "\<exists>m' root'. helper_rotate_right m root x = Some (m', root') \<and> tree_at m' root' (Node C y (Node B x A)) k \<and> same_data m m'"
proof -
  let ?t = "(Node (Node C y B) x A)" and ?t' = "(Node C y (Node B x A))"
  from at have t: "is_tree m (top k) ?t" "is_ctx m x k" and d: "distinct (before k @ inorder ?t @ after k)"
    and root: "root = ptr (plug ?t k)"
    by (auto simp: tree_at_def inorder_plug)
  have "is_tree m NULL (plug ?t k)" using t by (simp add: is_tree_plug)
  then have nn: "NULL \<notin> set (before k @ inorder ?t @ after k)"
    using is_tree_nonnull inorder_plug by metis
  have topk: "k \<noteq> [] \<Longrightarrow> top k \<in> set (before k) \<union> set (after k) \<and> top k \<noteq> NULL" "k = [] \<Longrightarrow> top k = NULL"
    using t(2) by (cases k rule: top.cases; auto)+
  have B: "B \<noteq> Leaf \<Longrightarrow> ptr B \<in> set_tree B" by (cases B) auto
  have "ptr B \<notin> {x, y}" "top k \<notin> {x, y}" "ptr B = top k \<longrightarrow> ptr B = NULL" "x \<noteq> y" "x \<noteq> NULL" "y \<noteq> NULL"
    using d nn topk B by (cases "B = Leaf"; cases "k = []"; auto)+
  then obtain m' where m': "helper_rotate_right m root x = Some (m', if top k = NULL then y else root)"
    "same_data m m'" "\<And>a. a \<notin> {x, y, ptr B, top k} \<Longrightarrow> m' a = m a"
    "m' x = (m x)\<lparr>rb_left := ptr B, rb_parent := y\<rparr>" "m' y = (m y)\<lparr>rb_parent := top k, rb_right := x\<rparr>"
    "ptr B \<noteq> NULL \<Longrightarrow> m' (ptr B) = (m (ptr B))\<lparr>rb_parent := x\<rparr>"
    "top k \<noteq> NULL \<Longrightarrow> m' (top k) =
       (if x = rb_left (m (top k)) then (m (top k))\<lparr>rb_left := y\<rparr> else (m (top k))\<lparr>rb_right := y\<rparr>)"
    using t(1) rotate_right_fields [of x y "ptr B" "top k" m root] by (auto simp: that)
  have keep: "is_tree m' p u = is_tree m p u" if "set_tree u \<inter> {x, y, ptr B, top k} = {}" for p u
  proof (rule is_tree_cong)
    fix a assume "a \<in> set_tree u"
    then have "m' a = m a" using that m'(3) by blast
    then show "same_links m m' a" by (simp add: same_links_def)
  qed
  have keepk: "is_ctx m' f u = is_ctx m f u" if "(set (before u) \<union> set (after u)) \<inter> {x, y, ptr B, top k} = {}" for f u
  proof (rule is_ctx_cong)
    fix a assume "a \<in> set (before u) \<union> set (after u)"
    then have "m' a = m a" using that m'(3) by blast
    then show "same_links m m' a" by (simp add: same_links_def)
  qed
  have AC: "is_tree m' x A = is_tree m x A" "is_tree m' y C = is_tree m y C"
    using d nn topk B by (intro keep; cases "B = Leaf"; cases "k = []"; auto)+
  have Bt: "is_tree m' x B"
  proof (cases B)
    case (Node B1 b B2)
    then have "is_tree m' b B1 = is_tree m b B1" "is_tree m' b B2 = is_tree m b B2"
      using d nn topk by (intro keep; cases "k = []"; auto)+
    then show ?thesis using Node t(1) m'(6) by auto
  qed simp
  have kt: "is_ctx m' y k"
  proof (cases k rule: top.cases)
    case (2 p r k2)
    then have "is_tree m' p r = is_tree m p r" "is_ctx m' p k2 = is_ctx m p k2"
      using d t B nn by (intro keep keepk; cases "B = Leaf"; auto)+
    then show ?thesis using 2 t(2) m'(7) by auto
  next
    case (3 l p k2)
    have "x \<noteq> ptr l" using d nn 3 by (cases l) auto
    moreover from 3 have "is_tree m' p l = is_tree m p l" "is_ctx m' p k2 = is_ctx m p k2"
      using d t B nn by (intro keep keepk; cases "B = Leaf"; auto)+
    ultimately show ?thesis using 3 t(2) m'(7) by auto
  qed simp
  have "(if top k = NULL then y else root) = ptr (plug ?t' k)"
    using topk root ptr_plug [of k ?t ?t'] by (cases "k = []") auto
  moreover have "distinct (inorder (plug ?t' k))" using d by (simp add: inorder_plug)
  ultimately have "tree_at m' (if top k = NULL then y else root) ?t' k"
    using m'(4,5) AC Bt kt t(1) by (auto simp: tree_at_def)
  then show ?thesis using m'(1,2) by blast
qed

end
