(* ===== verification/RBTree_Insert.thy ===== *)
theory RBTree_Insert
  imports RBTree_Shape
begin

section \<open>Red-black trees: balance and insertion\<close>

text \<open>
  The colour invariants of trees and contexts, and the correctness of the insertion: the descent finds
  the place of the new node, and the rebalancing loop restores the invariants, keeping the order of
  the nodes.
\<close>

subsection \<open>Colour invariants\<close>

definition black :: "(addr \<Rightarrow> int) \<Rightarrow> addr tree \<Rightarrow> bool" where
  "black c t \<longleftrightarrow> t = Leaf \<or> c (ptr t) = COLOR_BLACK"

text \<open>\<open>rbt c t n\<close>: no red node has a red child, and every path from the root to a leaf has \<open>n\<close> black nodes.\<close>

fun rbt :: "(addr \<Rightarrow> int) \<Rightarrow> addr tree \<Rightarrow> nat \<Rightarrow> bool" where
  "rbt c Leaf n \<longleftrightarrow> n = 0"
| "rbt c (Node l a r) n \<longleftrightarrow>
     (if c a = COLOR_BLACK then \<exists>k. n = Suc k \<and> rbt c l k \<and> rbt c r k
      else c a = COLOR_RED \<and> black c l \<and> black c r \<and> rbt c l n \<and> rbt c r n)"

text \<open>\<open>rbk c k n\<close>: the context is valid around a tree of black height \<open>n\<close>, and its outermost node is black.\<close>

fun rbk :: "(addr \<Rightarrow> int) \<Rightarrow> ctx \<Rightarrow> nat \<Rightarrow> bool" where
  "rbk c [] n \<longleftrightarrow> True"
| "rbk c (InLeft a r # k) n \<longleftrightarrow> rbt c r n \<and>
     (if c a = COLOR_BLACK then rbk c k (Suc n)
      else c a = COLOR_RED \<and> black c r \<and> k \<noteq> [] \<and> c (top k) = COLOR_BLACK \<and> rbk c k n)"
| "rbk c (InRight l a # k) n \<longleftrightarrow> rbt c l n \<and>
     (if c a = COLOR_BLACK then rbk c k (Suc n)
      else c a = COLOR_RED \<and> black c l \<and> k \<noteq> [] \<and> c (top k) = COLOR_BLACK \<and> rbk c k n)"

lemma color_distinct [simp]: "COLOR_RED \<noteq> COLOR_BLACK" "COLOR_BLACK \<noteq> COLOR_RED"
  by (simp_all add: COLOR_RED_def COLOR_BLACK_def)

lemma black_cong: "(\<And>a. a \<in> set_tree t \<Longrightarrow> c a = c' a) \<Longrightarrow> black c t = black c' t"
  by (cases t) (auto simp: black_def)

lemma rbt_cong: "(\<And>a. a \<in> set_tree t \<Longrightarrow> c a = c' a) \<Longrightarrow> rbt c t n = rbt c' t n"
proof (induction t arbitrary: n)
  case (Node l a r)
  have "rbt c l i = rbt c' l i" "rbt c r i = rbt c' r i" for i using Node by auto
  moreover have "black c l = black c' l" "black c r = black c' r"
    using Node.prems by (intro black_cong; simp)+
  moreover have "c a = c' a" using Node.prems by simp
  ultimately show ?case by simp
qed simp

lemma top_in_ctx: "k \<noteq> [] \<Longrightarrow> top k \<in> set (before k) \<union> set (after k)"
  by (cases k rule: top.cases) auto

lemma rbk_cong: "(\<And>a. a \<in> set (before k) \<union> set (after k) \<Longrightarrow> c a = c' a) \<Longrightarrow> rbk c k n = rbk c' k n"
proof (induction k arbitrary: n)
  case (Cons f k)
  have k: "rbk c k i = rbk c' k i" for i using Cons by (cases f) auto
  have tk: "c (top k) = c' (top k)" if "k \<noteq> []" using Cons.prems top_in_ctx [OF that] by (cases f) auto
  show ?case
  proof (cases f)
    case (InLeft a r)
    then have "rbt c r i = rbt c' r i" "black c r = black c' r" for i
      using Cons.prems by (intro rbt_cong black_cong; simp)+
    moreover have "c a = c' a" using Cons.prems InLeft by simp
    ultimately show ?thesis using InLeft k tk by auto
  next
    case (InRight l a)
    then have "rbt c l i = rbt c' l i" "black c l = black c' l" for i
      using Cons.prems by (intro rbt_cong black_cong; simp)+
    moreover have "c a = c' a" using Cons.prems InRight by simp
    ultimately show ?thesis using InRight k tk by auto
  qed
qed simp

lemma rbt_plug:
  "rbt c t n \<Longrightarrow> rbk c k n \<Longrightarrow> black c t \<or> k = [] \<or> c (top k) = COLOR_BLACK \<Longrightarrow> \<exists>N. rbt c (plug t k) N"
proof (induction k arbitrary: t n)
  case (Cons f k)
  show ?case
  proof (cases f)
    case (InLeft a r)
    with Cons.prems Cons.IH [of "Node t a r" "if c a = COLOR_BLACK then Suc n else n"]
    show ?thesis by (auto simp: black_def split: if_splits)
  next
    case (InRight l a)
    with Cons.prems Cons.IH [of "Node l a t" "if c a = COLOR_BLACK then Suc n else n"]
    show ?thesis by (auto simp: black_def split: if_splits)
  qed
qed auto

lemma rbt_unplug:
  "rbt c (plug t k) N \<Longrightarrow> black c (plug t k) \<Longrightarrow>
   \<exists>n. rbt c t n \<and> rbk c k n \<and> (black c t \<or> k = [] \<or> c (top k) = COLOR_BLACK)"
proof (induction k arbitrary: t)
  case (Cons f k)
  show ?case
  proof (cases f)
    case (InLeft a r)
    then obtain n where "rbt c (Node t a r) n" "rbk c k n"
      "black c (Node t a r) \<or> k = [] \<or> c (top k) = COLOR_BLACK"
      using Cons.IH [of "Node t a r"] Cons.prems by auto
    moreover have "k = [] \<Longrightarrow> c a = COLOR_BLACK" using Cons.prems(2) InLeft by (auto simp: black_def)
    ultimately show ?thesis using InLeft by (auto simp: black_def split: if_splits)
  next
    case (InRight l a)
    then obtain n where "rbt c (Node l a t) n" "rbk c k n"
      "black c (Node l a t) \<or> k = [] \<or> c (top k) = COLOR_BLACK"
      using Cons.IH [of "Node l a t"] Cons.prems by auto
    moreover have "k = [] \<Longrightarrow> c a = COLOR_BLACK" using Cons.prems(2) InRight by (auto simp: black_def)
    ultimately show ?thesis using InRight by (auto simp: black_def split: if_splits)
  qed
qed auto

lemma rbk_root: "rbk c k n \<Longrightarrow> k \<noteq> [] \<Longrightarrow> c (ptr (plug t k)) = COLOR_BLACK"
proof (induction k arbitrary: t n)
  case (Cons f k)
  then show ?case
    by (cases f; cases "k = []") (auto split: if_splits)
qed simp

lemma rb_upd [rb_mem_simps]:
  "a \<notin> set_tree t \<Longrightarrow> rbt (c(a := v)) t n = rbt c t n"
  "a \<notin> set_tree t \<Longrightarrow> black (c(a := v)) t = black c t"
  "a \<notin> set (before k) \<Longrightarrow> a \<notin> set (after k) \<Longrightarrow> rbk (c(a := v)) k n = rbk c k n"
  by (intro rbt_cong black_cong rbk_cong; auto)+

subsection \<open>Positions in a tree\<close>

lemma tree_at_iff: "tree_at m root t k \<longleftrightarrow> root = ptr (plug t k) \<and> is_tree m NULL (plug t k) \<and> distinct (inorder (plug t k))"
  by (auto simp: tree_at_def is_tree_plug)

lemma tree_at_cong: "plug t k = plug t' k' \<Longrightarrow> tree_at m root t k = tree_at m root t' k'"
  by (simp add: tree_at_iff)

lemma tree_at_nonnull: "tree_at m root t k \<Longrightarrow> NULL \<notin> set (before k) \<union> set_tree t \<union> set (after k)"
  using is_tree_nonnull [of m NULL "plug t k"] by (auto simp: tree_at_iff inorder_plug)

lemma tree_at_distinct: "tree_at m root t k \<Longrightarrow> distinct (before k @ inorder t @ after k)"
  by (simp add: tree_at_iff inorder_plug)

text \<open>Recolouring a node.\<close>

definition recolor :: "rb_mem \<Rightarrow> addr \<Rightarrow> int \<Rightarrow> rb_mem" where
  "recolor m a v = m(a := (m a)\<lparr>rb_color := v\<rparr>)"

definition col :: "rb_mem \<Rightarrow> addr \<Rightarrow> int" where
  "col m a = rb_color (m a)"

definition same_keys :: "rb_mem \<Rightarrow> rb_mem \<Rightarrow> bool" where
  "same_keys m m' \<longleftrightarrow> (\<forall>a. rb_key (m' a) = rb_key (m a))"

lemma recolor_simps [rb_mem_simps]:
  "a \<noteq> NULL \<Longrightarrow> wr_color m a v = Some (recolor m a v)"
  "rb_left (recolor m a v b) = rb_left (m b)" "rb_right (recolor m a v b) = rb_right (m b)"
  "rb_parent (recolor m a v b) = rb_parent (m b)" "rb_key (recolor m a v b) = rb_key (m b)"
  "rb_color (recolor m a v b) = (if b = a then v else rb_color (m b))"
  "tree_at (recolor m a v) root t k = tree_at m root t k"
  "col (recolor m a v) = (col m)(a := v)"
  "same_keys m (recolor m' a v) = same_keys m m'"
  "helper_get_grandparent (recolor m a v) b = helper_get_grandparent m b"
  by (auto simp: recolor_def tree_at_iff rb_mem_simps col_def same_keys_def fun_eq_iff
      helper_get_grandparent_def rd_def)

lemma same_keys_refl [simp]: "same_keys m m"
  by (simp add: same_keys_def)

lemma same_keys_trans: "same_keys m m' \<Longrightarrow> same_keys m' m'' \<Longrightarrow> same_keys m m''"
  by (simp add: same_keys_def)

lemma same_dataD: "same_data m m' \<Longrightarrow> col m' = col m" "same_data m m' \<Longrightarrow> same_keys m m'"
  by (auto simp: same_data_def col_def same_keys_def)

subsection \<open>The rebalancing loop\<close>

text \<open>The tree is valid but for the possibility that the red node at the position has a red parent, or is
  the root.\<close>

definition ins_inv :: "rb_mem \<Rightarrow> addr \<Rightarrow> addr tree \<Rightarrow> ctx \<Rightarrow> nat \<Rightarrow> bool" where
  "ins_inv m root t k n \<longleftrightarrow>
     tree_at m root t k \<and> t \<noteq> Leaf \<and> col m (ptr t) = COLOR_RED \<and> rbt (col m) t n \<and> rbk (col m) k n"

text \<open>What one round of the loop keeps, and that it moves the position up.\<close>

definition ins_step :: "rb_mem \<Rightarrow> addr \<Rightarrow> addr tree \<Rightarrow> ctx \<Rightarrow> rb_mem \<Rightarrow> addr \<Rightarrow> addr \<Rightarrow> bool" where
  "ins_step m root t k m' root' pnode \<longleftrightarrow>
     (\<exists>t' k' n'. pnode = ptr t' \<and> ins_inv m' root' t' k' n' \<and> inorder (plug t' k') = inorder (plug t k) \<and>
        same_keys m m' \<and> length k' < length k)"

lemma step_red_uncle_eval:
  assumes "x \<noteq> NULL" "p \<noteq> NULL" "g \<noteq> NULL" "u \<noteq> NULL" "rb_parent (m x) = p" "rb_parent (m p) = g"
    "rb_color (m x) = COLOR_RED" "rb_color (m u) = COLOR_RED"
    "if p = rb_left (m g) then u = rb_right (m g) else u = rb_left (m g)"
  shows "insert_rebalance_step m root x =
    Some (recolor (recolor (recolor m p COLOR_BLACK) u COLOR_BLACK) g COLOR_RED, root, g)"
  using assms
  by (cases "p = rb_left (m g)")
    (simp_all add: insert_rebalance_step_def helper_get_grandparent_def rd_nonnull recolor_simps)

text \<open>Blackening the red parent of the position adds one to the black height.\<close>

lemma blacken_parent:
  assumes "rbk c (F # k) n" "rbt c t n" "distinct (before (F # k) @ inorder t @ after (F # k))"
    and "c (top [F]) = COLOR_RED"
  shows "rbt (c(top [F] := COLOR_BLACK)) (plug t [F]) (Suc n)" "rbk c k n" "k \<noteq> []" "c (top k) = COLOR_BLACK"
  using assms by (cases F; simp add: rb_mem_simps; fail)+

lemma step_red_uncle_left:
  assumes inv: "ins_inv m root t (F # InLeft g (Node ul ua ur) # k) n"
    and red: "col m (top [F]) = COLOR_RED" "col m ua = COLOR_RED"
  shows "\<exists>m' root' p. insert_rebalance_step m root (ptr t) = Some (m', root', p) \<and>
           ins_step m root t (F # InLeft g (Node ul ua ur) # k) m' root' p"
proof -
  define p P where "p = top [F]" and "P = plug t [F]"
  let ?m = "recolor (recolor (recolor m p COLOR_BLACK) ua COLOR_BLACK) g COLOR_RED"
  let ?k = "InLeft g (Node ul ua ur) # k"
  let ?t = "Node P g (Node ul ua ur)"
  have pt: "plug t (F # ?k) = plug ?t k" "ptr P = p" "P \<noteq> Leaf" by (cases F; simp add: P_def p_def)+
  have at: "tree_at m root t (F # ?k)" using inv by (simp add: ins_inv_def)
  then have at': "tree_at m root ?t k" using pt(1) tree_at_cong by blast
  note d = tree_at_distinct [OF at'] and nn = tree_at_nonnull [OF at']
  have "p \<in> set_tree P" using pt(2,3) by (cases P) auto
  then have sep: "g \<notin> set_tree P" "ua \<notin> set_tree P" "p \<notin> set_tree ul" "p \<notin> set_tree ur" "g \<noteq> p" "g \<noteq> ua" "p \<noteq> ua"
    "g \<notin> set_tree ul" "g \<notin> set_tree ur" "ua \<notin> set_tree ul" "ua \<notin> set_tree ur"
    using d by auto
  have sepk: "p \<notin> set (before k)" "p \<notin> set (after k)" "g \<notin> set (before k)" "g \<notin> set (after k)"
    "ua \<notin> set (before k)" "ua \<notin> set (after k)"
    using d \<open>p \<in> set_tree P\<close> by auto
  have c: "rbt (col m) t n" "rbk (col m) (F # ?k) n" "col m (ptr t) = COLOR_RED" "t \<noteq> Leaf"
    using inv by (auto simp: ins_inv_def)
  note b = blacken_parent [OF c(2,1) tree_at_distinct [OF at] red(1), folded p_def P_def]
  have g: "rbt (col m) (Node ul ua ur) n" "rbk (col m) k (Suc n)" using b(2,4) by auto
  have links: "rb_parent (m (ptr t)) = p" "rb_parent (m p) = g" "rb_left (m g) = p" "rb_right (m g) = ua"
    "ptr t \<noteq> NULL" "p \<noteq> NULL" "g \<noteq> NULL" "ua \<noteq> NULL"
    using at c(4) sep by (cases F; cases t; simp add: tree_at_def p_def)+
  have "insert_rebalance_step m root (ptr t) = Some (?m, root, g)"
    using links c(3) red(2) by (intro step_red_uncle_eval) (simp_all add: col_def)
  moreover have "ins_inv ?m root ?t k (Suc n)"
    using at' b(1) g sep sepk red(2) pt by (simp add: ins_inv_def rb_mem_simps black_def)
  ultimately show ?thesis
    unfolding ins_step_def using pt(1) by (auto simp: rb_mem_simps intro!: exI [of _ ?t] exI [of _ k])
qed

lemma step_red_uncle_right:
  assumes inv: "ins_inv m root t (F # InRight (Node ul ua ur) g # k) n"
    and red: "col m (top [F]) = COLOR_RED" "col m ua = COLOR_RED"
  shows "\<exists>m' root' p. insert_rebalance_step m root (ptr t) = Some (m', root', p) \<and>
           ins_step m root t (F # InRight (Node ul ua ur) g # k) m' root' p"
proof -
  define p P where "p = top [F]" and "P = plug t [F]"
  let ?m = "recolor (recolor (recolor m p COLOR_BLACK) ua COLOR_BLACK) g COLOR_RED"
  let ?k = "InRight (Node ul ua ur) g # k"
  let ?t = "Node (Node ul ua ur) g P"
  have pt: "plug t (F # ?k) = plug ?t k" "ptr P = p" "P \<noteq> Leaf" by (cases F; simp add: P_def p_def)+
  have at: "tree_at m root t (F # ?k)" using inv by (simp add: ins_inv_def)
  then have at': "tree_at m root ?t k" using pt(1) tree_at_cong by blast
  note d = tree_at_distinct [OF at'] and nn = tree_at_nonnull [OF at']
  have "p \<in> set_tree P" using pt(2,3) by (cases P) auto
  then have sep: "g \<notin> set_tree P" "ua \<notin> set_tree P" "p \<notin> set_tree ul" "p \<notin> set_tree ur" "g \<noteq> p" "g \<noteq> ua" "p \<noteq> ua"
    "g \<notin> set_tree ul" "g \<notin> set_tree ur" "ua \<notin> set_tree ul" "ua \<notin> set_tree ur"
    using d by auto
  have sepk: "p \<notin> set (before k)" "p \<notin> set (after k)" "g \<notin> set (before k)" "g \<notin> set (after k)"
    "ua \<notin> set (before k)" "ua \<notin> set (after k)"
    using d \<open>p \<in> set_tree P\<close> by auto
  have c: "rbt (col m) t n" "rbk (col m) (F # ?k) n" "col m (ptr t) = COLOR_RED" "t \<noteq> Leaf"
    using inv by (auto simp: ins_inv_def)
  note b = blacken_parent [OF c(2,1) tree_at_distinct [OF at] red(1), folded p_def P_def]
  have g: "rbt (col m) (Node ul ua ur) n" "rbk (col m) k (Suc n)" using b(2,4) by auto
  have links: "rb_parent (m (ptr t)) = p" "rb_parent (m p) = g" "rb_right (m g) = p" "rb_left (m g) = ua" "p \<noteq> ua"
    "ptr t \<noteq> NULL" "p \<noteq> NULL" "g \<noteq> NULL" "ua \<noteq> NULL"
    using at c(4) sep by (cases F; cases t; simp add: tree_at_def p_def)+
  have "insert_rebalance_step m root (ptr t) = Some (?m, root, g)"
    using links c(3) red(2) by (intro step_red_uncle_eval) (simp_all add: col_def)
  moreover have "ins_inv ?m root ?t k (Suc n)"
    using at' b(1) g sep sepk red(2) pt by (simp add: ins_inv_def rb_mem_simps black_def)
  ultimately show ?thesis
    unfolding ins_step_def using pt(1) by (auto simp: rb_mem_simps intro!: exI [of _ ?t] exI [of _ k])
qed

text \<open>The end of the body when the uncle is not red.\<close>

definition step_tail :: "bool \<Rightarrow> rb_mem \<Rightarrow> addr \<Rightarrow> addr \<Rightarrow> (rb_mem \<times> addr \<times> addr) option" where
  "step_tail uncle_is_left m root pnode =
     do { parent \<leftarrow> rd_parent m pnode;
          m \<leftarrow> wr_color m parent COLOR_BLACK;
          grandparent \<leftarrow> helper_get_grandparent m pnode;
          m \<leftarrow> wr_color m grandparent COLOR_RED;
          (m, root) \<leftarrow> (if \<not> uncle_is_left then helper_rotate_right m root grandparent
                          else helper_rotate_left m root grandparent);
          Some (m, root, pnode) }"

lemma step_unfold:
  "insert_rebalance_step m root pnode =
     do { parent \<leftarrow> rd_parent m pnode;
          grandparent \<leftarrow> helper_get_grandparent m pnode;
          c \<leftarrow> rd_color m pnode;
          if c \<noteq> COLOR_RED then None
          else do {
            gl \<leftarrow> rd_left m grandparent;
            (uncle_is_left, uncle) \<leftarrow>
              (if parent = gl then do { u \<leftarrow> rd_right m grandparent; Some (False, u) }
               else do { u \<leftarrow> rd_left m grandparent; Some (True, u) });
            uncle_red \<leftarrow> (if uncle \<noteq> NULL then do { c \<leftarrow> rd_color m uncle; Some (c = COLOR_RED) } else Some False);
            if uncle_red then do {
              m \<leftarrow> wr_color m parent COLOR_BLACK;
              m \<leftarrow> wr_color m uncle COLOR_BLACK;
              m \<leftarrow> wr_color m grandparent COLOR_RED;
              Some (m, root, grandparent) }
            else do {
              pr \<leftarrow> rd_right m parent;
              pl \<leftarrow> rd_left m parent;
              (m, root, pnode) \<leftarrow>
                (if \<not> uncle_is_left \<and> pr = pnode then do {
                   pnode \<leftarrow> rd_parent m pnode;
                   (m, root) \<leftarrow> helper_rotate_left m root pnode;
                   Some (m, root, pnode) }
                 else if uncle_is_left \<and> pl = pnode then do {
                   pnode \<leftarrow> rd_parent m pnode;
                   (m, root) \<leftarrow> helper_rotate_right m root pnode;
                   Some (m, root, pnode) }
                 else Some (m, root, pnode));
              step_tail uncle_is_left m root pnode } } }"
  by (simp only: insert_rebalance_step_def step_tail_def)

lemma step_black_uncle_eval:
  assumes "x \<noteq> NULL" "p \<noteq> NULL" "g \<noteq> NULL" "rb_parent (m x) = p" "rb_parent (m p) = g"
    "rb_color (m x) = COLOR_RED" "u = NULL \<or> rb_color (m u) \<noteq> COLOR_RED"
    "if p = rb_left (m g) then u = rb_right (m g) else u = rb_left (m g)"
  shows "insert_rebalance_step m root x =
    (if p = rb_left (m g) then
       if rb_right (m p) = x
       then do { (m, root) \<leftarrow> helper_rotate_left m root p; step_tail False m root p }
       else step_tail False m root x
     else
       if rb_left (m p) = x
       then do { (m, root) \<leftarrow> helper_rotate_right m root p; step_tail True m root p }
       else step_tail True m root x)"
proof -
  have u: "u \<noteq> NULL \<Longrightarrow> rb_color (m u) \<noteq> COLOR_RED" using assms(7) by auto
  show ?thesis
    using assms(1-6,8) u unfolding step_unfold
    by (cases "p = rb_left (m g)"; cases "rb_right (m p) = x"; cases "rb_left (m p) = x"; cases "u = NULL")
      (simp_all add: helper_get_grandparent_def rd_nonnull case_prod_unfold)
qed

lemma step_tail_left:
  assumes inv: "ins_inv m root t (InLeft p s # InLeft g u # k) n"
    and red: "col m p = COLOR_RED" "black (col m) u"
  shows "\<exists>m' root'. step_tail False m root (ptr t) = Some (m', root', ptr t) \<and>
           ins_step m root t (InLeft p s # InLeft g u # k) m' root' (ptr t)"
proof -
  let ?K = "InLeft p s # InLeft g u # k"
  let ?m = "recolor (recolor m p COLOR_BLACK) g COLOR_RED"
  let ?k = "InLeft p (Node s g u) # k"
  have at: "tree_at m root t ?K" and c: "rbt (col m) t n" "rbk (col m) ?K n" "col m (ptr t) = COLOR_RED" "t \<noteq> Leaf"
    using inv unfolding ins_inv_def by blast+
  then have "tree_at ?m root (Node (Node t p s) g u) k"
    using tree_at_cong [of t ?K "Node (Node t p s) g u" k] by (simp add: rb_mem_simps)
  then obtain m' root' where r: "helper_rotate_right ?m root g = Some (m', root')"
    "tree_at m' root' (Node t p (Node s g u)) k" "same_data ?m m'"
    using rotate_right_shape by blast
  have links: "rb_parent (m (ptr t)) = p" "rb_parent (m p) = g" "ptr t \<noteq> NULL" "p \<noteq> NULL" "g \<noteq> NULL"
    using at c(4) by (cases t; simp add: tree_at_def)+
  then have "step_tail False m root (ptr t) = Some (m', root', ptr t)"
    using r(1) by (simp add: step_tail_def helper_get_grandparent_def rd_nonnull recolor_simps)
  moreover have "ptr t \<in> set_tree t" using c(4) by (cases t) auto
  then have "ins_inv m' root' t ?k n"
    using c red r(2) tree_at_distinct [OF at]
    by (auto simp: ins_inv_def same_dataD [OF r(3)] rb_mem_simps tree_at_cong [of t ?k "Node t p (Node s g u)" k])
  moreover have "same_keys m m'" using same_dataD(2) [OF r(3)] by (simp add: same_keys_def rb_mem_simps)
  ultimately show ?thesis
    unfolding ins_step_def by (auto simp: inorder_plug intro!: exI [of _ t] exI [of _ ?k])
qed

lemma step_inner_left:
  assumes inv: "ins_inv m root (Node t1 x t2) (InRight s p # InLeft g u # k) n"
    and red: "col m p = COLOR_RED" "black (col m) u"
  obtains m' root' where "helper_rotate_left m root p = Some (m', root')" "same_keys m m'"
    "ins_inv m' root' (Node s p t1) (InLeft x t2 # InLeft g u # k) n" "col m' x = COLOR_RED" "black (col m') u"
proof -
  let ?K = "InRight s p # InLeft g u # k"
  let ?k = "InLeft x t2 # InLeft g u # k"
  have at: "tree_at m root (Node t1 x t2) ?K"
    and c: "rbt (col m) (Node t1 x t2) n" "rbk (col m) ?K n" "col m x = COLOR_RED"
    using inv unfolding ins_inv_def ptr.simps by blast+
  then have "tree_at m root (Node s p (Node t1 x t2)) (InLeft g u # k)"
    using tree_at_cong [of "Node t1 x t2" ?K "Node s p (Node t1 x t2)" "InLeft g u # k"] by simp
  then obtain m' root' where r: "helper_rotate_left m root p = Some (m', root')"
    "tree_at m' root' (Node (Node s p t1) x t2) (InLeft g u # k)" "same_data m m'"
    using rotate_left_shape by blast
  have "ins_inv m' root' (Node s p t1) ?k n"
    using c red r(2) by (simp add: ins_inv_def same_dataD [OF r(3)]
        tree_at_cong [of "Node s p t1" ?k "Node (Node s p t1) x t2" "InLeft g u # k"])
  then show ?thesis using that r c red same_dataD [OF r(3)] by auto
qed

lemma step_black_uncle_left:
  assumes inv: "ins_inv m root t (F # InLeft g u # k) n"
    and red: "col m (top [F]) = COLOR_RED" "black (col m) u"
  shows "\<exists>m' root' p. insert_rebalance_step m root (ptr t) = Some (m', root', p) \<and>
           ins_step m root t (F # InLeft g u # k) m' root' p"
proof -
  obtain t1 x t2 where t: "t = Node t1 x t2" using inv by (cases t) (auto simp: ins_inv_def)
  have at: "tree_at m root t (F # InLeft g u # k)" and c: "col m x = COLOR_RED"
    using inv t by (auto simp: ins_inv_def)
  note d = tree_at_distinct [OF at]
  have u: "ptr u = NULL \<or> rb_color (m (ptr u)) \<noteq> COLOR_RED" using red(2) by (auto simp: black_def col_def)
  note ev = step_black_uncle_eval [of x "top [F]" g m "ptr u" root]
  show ?thesis
  proof (cases F)
    case (InLeft p s)
    then have "rb_right (m p) \<noteq> x" using at t d by (cases s) (auto simp: tree_at_def)
    then have "insert_rebalance_step m root x = step_tail False m root x"
      using ev at t InLeft u c by (simp add: tree_at_def col_def)
    then show ?thesis using step_tail_left [of m root t p s g u k n] inv red InLeft t by auto
  next
    case (InRight s p)
    then have "insert_rebalance_step m root x =
        do { (m, root) \<leftarrow> helper_rotate_left m root p; step_tail False m root p }"
      using ev at t u c by (simp add: tree_at_def col_def)
    moreover obtain m' root' where r: "helper_rotate_left m root p = Some (m', root')" "same_keys m m'"
      "ins_inv m' root' (Node s p t1) (InLeft x t2 # InLeft g u # k) n" "col m' x = COLOR_RED" "black (col m') u"
      using step_inner_left inv red InRight t by (metis top.simps(3))
    moreover obtain m2 root2 where s2: "step_tail False m' root' p = Some (m2, root2, p)"
      "ins_step m' root' (Node s p t1) (InLeft x t2 # InLeft g u # k) m2 root2 p"
      using step_tail_left [OF r(3-5)] by auto
    ultimately show ?thesis
      using t InRight by (auto simp: ins_step_def inorder_plug intro: same_keys_trans)
  qed
qed

lemma step_tail_right:
  assumes inv: "ins_inv m root t (InRight s p # InRight u g # k) n"
    and red: "col m p = COLOR_RED" "black (col m) u"
  shows "\<exists>m' root'. step_tail True m root (ptr t) = Some (m', root', ptr t) \<and>
           ins_step m root t (InRight s p # InRight u g # k) m' root' (ptr t)"
proof -
  let ?K = "InRight s p # InRight u g # k"
  let ?m = "recolor (recolor m p COLOR_BLACK) g COLOR_RED"
  let ?k = "InRight (Node u g s) p # k"
  have at: "tree_at m root t ?K" and c: "rbt (col m) t n" "rbk (col m) ?K n" "col m (ptr t) = COLOR_RED" "t \<noteq> Leaf"
    using inv unfolding ins_inv_def by blast+
  then have "tree_at ?m root (Node u g (Node s p t)) k"
    using tree_at_cong [of t ?K "Node u g (Node s p t)" k] by (simp add: rb_mem_simps)
  then obtain m' root' where r: "helper_rotate_left ?m root g = Some (m', root')"
    "tree_at m' root' (Node (Node u g s) p t) k" "same_data ?m m'"
    using rotate_left_shape by blast
  have links: "rb_parent (m (ptr t)) = p" "rb_parent (m p) = g" "ptr t \<noteq> NULL" "p \<noteq> NULL" "g \<noteq> NULL"
    using at c(4) by (cases t; simp add: tree_at_def)+
  then have "step_tail True m root (ptr t) = Some (m', root', ptr t)"
    using r(1) by (simp add: step_tail_def helper_get_grandparent_def rd_nonnull recolor_simps)
  moreover have "ptr t \<in> set_tree t" using c(4) by (cases t) auto
  then have "ins_inv m' root' t ?k n"
    using c red r(2) tree_at_distinct [OF at]
    by (auto simp: ins_inv_def same_dataD [OF r(3)] rb_mem_simps tree_at_cong [of t ?k "Node (Node u g s) p t" k])
  moreover have "same_keys m m'" using same_dataD(2) [OF r(3)] by (simp add: same_keys_def rb_mem_simps)
  ultimately show ?thesis
    unfolding ins_step_def by (auto simp: inorder_plug intro!: exI [of _ t] exI [of _ ?k])
qed

lemma step_inner_right:
  assumes inv: "ins_inv m root (Node t2 x t1) (InLeft p s # InRight u g # k) n"
    and red: "col m p = COLOR_RED" "black (col m) u"
  obtains m' root' where "helper_rotate_right m root p = Some (m', root')" "same_keys m m'"
    "ins_inv m' root' (Node t1 p s) (InRight t2 x # InRight u g # k) n" "col m' x = COLOR_RED" "black (col m') u"
proof -
  let ?K = "InLeft p s # InRight u g # k"
  let ?k = "InRight t2 x # InRight u g # k"
  have at: "tree_at m root (Node t2 x t1) ?K"
    and c: "rbt (col m) (Node t2 x t1) n" "rbk (col m) ?K n" "col m x = COLOR_RED"
    using inv unfolding ins_inv_def ptr.simps by blast+
  then have "tree_at m root (Node (Node t2 x t1) p s) (InRight u g # k)"
    using tree_at_cong [of "Node t2 x t1" ?K "Node (Node t2 x t1) p s" "InRight u g # k"] by simp
  then obtain m' root' where r: "helper_rotate_right m root p = Some (m', root')"
    "tree_at m' root' (Node t2 x (Node t1 p s)) (InRight u g # k)" "same_data m m'"
    using rotate_right_shape by blast
  have "ins_inv m' root' (Node t1 p s) ?k n"
    using c red r(2) by (simp add: ins_inv_def same_dataD [OF r(3)]
        tree_at_cong [of "Node t1 p s" ?k "Node t2 x (Node t1 p s)" "InRight u g # k"])
  then show ?thesis using that r c red same_dataD [OF r(3)] by auto
qed

lemma step_black_uncle_right:
  assumes inv: "ins_inv m root t (F # InRight u g # k) n"
    and red: "col m (top [F]) = COLOR_RED" "black (col m) u"
  shows "\<exists>m' root' p. insert_rebalance_step m root (ptr t) = Some (m', root', p) \<and>
           ins_step m root t (F # InRight u g # k) m' root' p"
proof -
  obtain t1 x t2 where t: "t = Node t2 x t1" using inv by (cases t) (auto simp: ins_inv_def)
  have at: "tree_at m root t (F # InRight u g # k)" and c: "col m x = COLOR_RED"
    using inv t by (auto simp: ins_inv_def)
  note d = tree_at_distinct [OF at]
  have u: "ptr u = NULL \<or> rb_color (m (ptr u)) \<noteq> COLOR_RED" using red(2) by (auto simp: black_def col_def)
  note ev = step_black_uncle_eval [of x "top [F]" g m "ptr u" root]
  show ?thesis
  proof (cases F)
    case (InRight s p)
    then have "rb_right (m p) = x" "rb_left (m p) \<noteq> x" "p \<noteq> ptr u"
      using at t d by (cases s; cases u; auto simp: tree_at_def)+
    then have "insert_rebalance_step m root x = step_tail True m root x"
      using ev at t InRight u c by (simp add: tree_at_def col_def)
    then show ?thesis using step_tail_right [of m root t s p u g k n] inv red InRight t by auto
  next
    case (InLeft p s)
    then have "p \<noteq> ptr u" using at d t by (cases u) (auto simp: tree_at_def)
    with InLeft have "insert_rebalance_step m root x =
        do { (m, root) \<leftarrow> helper_rotate_right m root p; step_tail True m root p }"
      using ev at t u c by (simp add: tree_at_def col_def)
    moreover obtain m' root' where r: "helper_rotate_right m root p = Some (m', root')" "same_keys m m'"
      "ins_inv m' root' (Node t1 p s) (InRight t2 x # InRight u g # k) n" "col m' x = COLOR_RED" "black (col m') u"
      using step_inner_right inv red InLeft t by (metis top.simps(2))
    moreover obtain m2 root2 where s2: "step_tail True m' root' p = Some (m2, root2, p)"
      "ins_step m' root' (Node t1 p s) (InRight t2 x # InRight u g # k) m2 root2 p"
      using step_tail_right [OF r(3-5)] by auto
    ultimately show ?thesis
      using t InLeft by (auto simp: ins_step_def inorder_plug intro: same_keys_trans)
  qed
qed

lemma insert_step:
  assumes inv: "ins_inv m root t k n" and red: "k \<noteq> []" "col m (top k) = COLOR_RED"
  shows "\<exists>m' root' p. insert_rebalance_step m root (ptr t) = Some (m', root', p) \<and> ins_step m root t k m' root' p"
proof -
  have c: "rbt (col m) t n" "rbk (col m) k n" and at: "tree_at m root t k" using inv by (auto simp: ins_inv_def)
  obtain F k1 where k: "k = F # k1" using red(1) by (cases k) auto
  then have F: "col m (top [F]) = COLOR_RED" using red(2) by (cases F) auto
  have k1: "rbk (col m) k1 n" "k1 \<noteq> []" "col m (top k1) = COLOR_BLACK"
    using blacken_parent(2-4) [of "col m" F k1 n t] c F k tree_at_distinct [OF at] by auto
  then consider (L) g u k2 where "k1 = InLeft g u # k2" | (R) u g k2 where "k1 = InRight u g # k2"
    by (cases k1 rule: top.cases) auto
  then show ?thesis
  proof cases
    case L
    have "rbt (col m) u n" using k1 L by simp
    then consider "black (col m) u" | ul ua ur where "u = Node ul ua ur" "col m ua = COLOR_RED"
      by (cases u) (auto simp: black_def split: if_splits)
    then show ?thesis
    proof cases
      case 1
      then show ?thesis using step_black_uncle_left inv F k L by simp
    next
      case 2
      then show ?thesis using step_red_uncle_left [of m root t F _ _ _ _ k2 n] inv F k L by simp
    qed
  next
    case R
    have "rbt (col m) u n" using k1 R by simp
    then consider "black (col m) u" | ul ua ur where "u = Node ul ua ur" "col m ua = COLOR_RED"
      by (cases u) (auto simp: black_def split: if_splits)
    then show ?thesis
    proof cases
      case 1
      then show ?thesis using step_black_uncle_right inv F k R by simp
    next
      case 2
      then show ?thesis using step_red_uncle_right [of m root t F _ _ _ _ k2 n] inv F k R by simp
    qed
  qed
qed

lemma root_in_ctx: "k \<noteq> [] \<Longrightarrow> ptr (plug t k) \<in> set (before k) \<union> set (after k)"
proof (induction k arbitrary: t)
  case (Cons f k)
  then show ?case by (cases f; cases "k = []") auto
qed simp

lemma tree_at_root: "tree_at m root t k \<Longrightarrow> t \<noteq> Leaf \<Longrightarrow> root = ptr t \<longleftrightarrow> k = []"
proof -
  assume at: "tree_at m root t k" and "t \<noteq> Leaf"
  then have "ptr t \<in> set_tree t" by (cases t) auto
  then show ?thesis
    using at tree_at_distinct [OF at] root_in_ctx [of k t] by (cases "k = []") (auto simp: tree_at_def)
qed

lemma insert_loop:
  "ins_inv m root t k n \<Longrightarrow>
   \<exists>m' root' t' k' n'. insert_rebalance_loop m root (ptr t) = Some (m', root') \<and> ins_inv m' root' t' k' n' \<and>
     (k' = [] \<or> col m' (top k') = COLOR_BLACK) \<and> inorder (plug t' k') = inorder (plug t k) \<and> same_keys m m'"
proof (induction "length k" arbitrary: m root t k n rule: less_induct)
  case less
  note inv = less.prems
  then have at: "tree_at m root t k" and t: "t \<noteq> Leaf" by (auto simp: ins_inv_def)
  have nn: "ptr t \<noteq> NULL" using at t ptr_NULL_iff by (auto simp: tree_at_def)
  have p: "rb_parent (m (ptr t)) = top k" using at t by (cases t) (auto simp: tree_at_def)
  note root = tree_at_root [OF at t]
  show ?case
  proof (cases "k = []")
    case True
    then have "insert_rebalance_loop m root (ptr t) = Some (m, root)"
      using root by (subst insert_rebalance_loop.simps) simp
    then show ?thesis using inv True by (intro exI [of _ m] exI [of _ root] exI [of _ t] exI [of _ k]) auto
  next
    case False
    then have topn: "top k \<noteq> NULL" using at by (cases k rule: top.cases) (auto simp: tree_at_def)
    have go: "(if root \<noteq> ptr t then
                 do { p \<leftarrow> rd_parent m (ptr t);
                      if p \<noteq> NULL then do { c \<leftarrow> rd_color m p; Some (c = COLOR_RED) } else Some False }
               else Some False) = Some (col m (top k) = COLOR_RED)"
      using False root nn p topn by (simp add: rd_nonnull col_def)
    show ?thesis
    proof (cases "col m (top k) = COLOR_RED")
      case red: True
      obtain m1 root1 p1 where s: "insert_rebalance_step m root (ptr t) = Some (m1, root1, p1)"
        "ins_step m root t k m1 root1 p1"
        using insert_step [OF inv False red] by blast
      then obtain t1 k1 n1 where t1: "p1 = ptr t1" "ins_inv m1 root1 t1 k1 n1"
        "inorder (plug t1 k1) = inorder (plug t k)" "same_keys m m1" "length k1 < length k"
        by (auto simp: ins_step_def)
      have "insert_rebalance_loop m root (ptr t) = insert_rebalance_loop m1 root1 p1"
        using go s(1) red by (subst insert_rebalance_loop.simps) simp
      moreover obtain m' root' t' k' n' where "insert_rebalance_loop m1 root1 (ptr t1) = Some (m', root')"
        "ins_inv m' root' t' k' n'" "k' = [] \<or> col m' (top k') = COLOR_BLACK"
        "inorder (plug t' k') = inorder (plug t1 k1)" "same_keys m1 m'"
        using less.hyps [OF t1(5,2)] by blast
      ultimately show ?thesis using t1 same_keys_trans [OF t1(4)] by auto
    next
      case nred: False
      have "rbk (col m) k n" using inv by (simp add: ins_inv_def)
      then have b: "col m (top k) = COLOR_BLACK"
        using False nred by (cases k rule: top.cases) (auto split: if_splits)
      have "insert_rebalance_loop m root (ptr t) = Some (m, root)"
        using go nred by (subst insert_rebalance_loop.simps) simp
      then show ?thesis using inv b by (intro exI [of _ m] exI [of _ root] exI [of _ t] exI [of _ k]) auto
    qed
  qed
qed

text \<open>A valid tree: linked as \<open>T\<close>, balanced, with a black root.\<close>

definition rb_valid :: "rb_mem \<Rightarrow> addr \<Rightarrow> addr tree \<Rightarrow> bool" where
  "rb_valid m root T \<longleftrightarrow> tree_at m root T [] \<and> (\<exists>N. rbt (col m) T N) \<and> black (col m) T"

lemma ins_inv_finish:
  assumes inv: "ins_inv m root t k n" and k: "k = [] \<or> col m (top k) = COLOR_BLACK"
  shows "rb_valid (recolor m root COLOR_BLACK) root (plug t k)" "k \<noteq> [] \<Longrightarrow> rb_valid m root (plug t k)"
proof -
  have at: "tree_at m root t k" and c: "rbt (col m) t n" "rbk (col m) k n" "t \<noteq> Leaf" "col m (ptr t) = COLOR_RED"
    using inv by (auto simp: ins_inv_def)
  have at': "tree_at m root (plug t k) []" using at by (simp add: tree_at_iff)
  show *: "rb_valid m root (plug t k)" if "k \<noteq> []"
    using at' rbt_plug [OF c(1,2)] k that rbk_root [OF c(2) that] by (auto simp: rb_valid_def black_def)
  show "rb_valid (recolor m root COLOR_BLACK) root (plug t k)"
  proof (cases "k = []")
    case True
    obtain l a r where t: "t = Node l a r" using c(3) by (cases t) auto
    then have "root = a" "a \<notin> set_tree l" "a \<notin> set_tree r"
      using at True tree_at_distinct [OF at] by (auto simp: tree_at_def)
    then show ?thesis
      using at' c t True by (auto simp: rb_valid_def rb_mem_simps black_def)
  next
    case False
    have "(col m)(root := COLOR_BLACK) = col m"
      using at rbk_root [OF c(2) False, of t] by (simp add: tree_at_def fun_upd_idem)
    then show ?thesis using * [OF False] by (simp add: rb_valid_def rb_mem_simps)
  qed
qed

lemma insert_rebalance_valid:
  assumes inv: "ins_inv m root t k n" and k: "k \<noteq> []"
  shows "\<exists>m' root' T. helper_rb_tree_insert_rebalance m root (ptr t) = Some (m', root') \<and> rb_valid m' root' T \<and>
    inorder T = inorder (plug t k) \<and> same_keys m m'"
proof -
  have at: "tree_at m root t k" and t: "t \<noteq> Leaf" using inv by (auto simp: ins_inv_def)
  have nn: "ptr t \<noteq> NULL" using at t ptr_NULL_iff by (auto simp: tree_at_def)
  have p: "rb_parent (m (ptr t)) = top k" using at t by (cases t) (auto simp: tree_at_def)
  have topn: "top k \<noteq> NULL" using at k by (cases k rule: top.cases) (auto simp: tree_at_def)
  show ?thesis
  proof (cases "col m (top k) = COLOR_BLACK")
    case True
    then have "helper_rb_tree_insert_rebalance m root (ptr t) = Some (m, root)"
      using nn p topn by (simp add: helper_rb_tree_insert_rebalance_def rd_nonnull col_def)
    then show ?thesis using ins_inv_finish(2) [OF inv _ k] True by auto
  next
    case False
    obtain m1 root1 t1 k1 n1 where l: "insert_rebalance_loop m root (ptr t) = Some (m1, root1)"
      "ins_inv m1 root1 t1 k1 n1" "k1 = [] \<or> col m1 (top k1) = COLOR_BLACK"
      "inorder (plug t1 k1) = inorder (plug t k)" "same_keys m m1"
      using insert_loop [OF inv] by blast
    have "root1 \<noteq> NULL"
      using l(2) is_tree_plug ptr_NULL_iff plug_Leaf by (metis ins_inv_def tree_at_def)
    then have "helper_rb_tree_insert_rebalance m root (ptr t) = Some (recolor m1 root1 COLOR_BLACK, root1)"
      using nn p topn False l(1)
      by (simp add: helper_rb_tree_insert_rebalance_def rd_nonnull recolor_simps col_def)
    then show ?thesis
      using ins_inv_finish(1) [OF l(2,3)] l(4,5) by (auto simp: rb_mem_simps)
  qed
qed

end
