(* ===== verification/RBTree_Order.thy ===== *)
theory RBTree_Order
  imports RBTree_Insert
begin

section \<open>Red-black trees as ordered sets\<close>

text \<open>
  The search and insertion functions against their specification: a tree represents the list of its
  nodes in key order, \<open>rb_tree_find\<close> is a search in that list and \<open>rb_tree_insert\<close> an insertion into it.
\<close>

subsection \<open>Contexts\<close>

lemma plug_append: "plug t (k @ k') = plug (plug t k) k'"
  by (induction t k rule: plug.induct) auto

lemma before_append: "before (k @ k') = before k' @ before k"
  by (induction k rule: before.induct) auto

lemma after_append: "after (k @ k') = after k @ after k'"
  by (induction k rule: after.induct) auto

lemma top_append: "k \<noteq> [] \<Longrightarrow> top (k @ k') = top k"
  by (cases k rule: top.cases) auto

text \<open>Making \<open>node\<close> the child of the position's parent.\<close>

definition link :: "rb_mem \<Rightarrow> ctx \<Rightarrow> addr \<Rightarrow> rb_mem" where
  "link m k node = m(top k := (case hd k of
     InLeft _ _ \<Rightarrow> (m (top k))\<lparr>rb_left := node\<rparr> | InRight _ _ \<Rightarrow> (m (top k))\<lparr>rb_right := node\<rparr>))"

text \<open>The side of the position's parent on which the position is.\<close>

definition on_right :: "ctx \<Rightarrow> bool" where
  "on_right k \<longleftrightarrow> (case hd k of InLeft _ _ \<Rightarrow> False | InRight _ _ \<Rightarrow> True)"

lemma link_append: "k \<noteq> [] \<Longrightarrow> link m (k @ k') node = link m k node"
  by (simp add: link_def top_append split: frame.split)

lemma link_tree_at:
  assumes at: "tree_at m root Leaf k" and k: "k \<noteq> []"
    and node: "node \<noteq> NULL" "node \<notin> set (before k) \<union> set (after k)"
      "rb_left (m node) = NULL" "rb_right (m node) = NULL"
  shows "tree_at ((link m k node)(node := (m node)\<lparr>rb_parent := top k, rb_color := c\<rparr>)) root (Node Leaf node Leaf) k"
proof -
  let ?m = "(link m k node)(node := (m node)\<lparr>rb_parent := top k, rb_color := c\<rparr>)"
  note d = tree_at_distinct [OF at]
  have ctx: "is_ctx m NULL k" and root: "root = ptr (plug Leaf k)" using at by (auto simp: tree_at_def)
  have "is_ctx ?m node k"
  proof (cases k rule: top.cases)
    case (2 p r k2)
    then have "is_tree ?m p r = is_tree m p r" "is_ctx ?m p k2 = is_ctx m p k2"
      using d node by (auto simp: link_def rb_mem_simps)
    then show ?thesis using 2 ctx node by (auto simp: link_def)
  next
    case (3 l p k2)
    then have "is_tree ?m p l = is_tree m p l" "is_ctx ?m p k2 = is_ctx m p k2"
      using d node by (auto simp: link_def rb_mem_simps)
    then show ?thesis using 3 ctx node by (auto simp: link_def)
  qed (use k in simp)
  moreover have "distinct (inorder (plug (Node Leaf node Leaf) k))"
    using d node by (auto simp: inorder_plug)
  ultimately show ?thesis
    using node k root ptr_plug [OF k, of Leaf "Node Leaf node Leaf"] by (simp add: tree_at_def)
qed

subsection \<open>The descent\<close>

definition ordered :: "(addr \<Rightarrow> addr \<Rightarrow> int) \<Rightarrow> rb_mem \<Rightarrow> addr list \<Rightarrow> bool" where
  "ordered cmp m xs \<longleftrightarrow> sorted_wrt (\<lambda>a b. cmp (rb_key (m a)) (rb_key (m b)) < 0) xs"

text \<open>The position where \<open>key\<close> belongs.\<close>

definition gap :: "(addr \<Rightarrow> addr \<Rightarrow> int) \<Rightarrow> rb_mem \<Rightarrow> addr \<Rightarrow> ctx \<Rightarrow> bool" where
  "gap cmp m key k \<longleftrightarrow>
     (\<forall>a \<in> set (before k). 0 < cmp key (rb_key (m a))) \<and> (\<forall>a \<in> set (after k). cmp key (rb_key (m a)) < 0)"

text \<open>The contract of \<open>rb_cmp_func_t\<close>, whose keys are pointers.\<close>

locale rb_order = comparator_on K cmp for K :: "addr set" and cmp :: "addr \<Rightarrow> addr \<Rightarrow> int"
begin

lemma ordered_Node:
  assumes "ordered cmp m (inorder (Node l a r))" "\<forall>b \<in> set_tree (Node l a r). rb_key (m b) \<in> K" "key \<in> K"
  shows "ordered cmp m (inorder l)" "ordered cmp m (inorder r)"
    and "cmp key (rb_key (m a)) \<le> 0 \<Longrightarrow> \<forall>b \<in> set_tree r. cmp key (rb_key (m b)) < 0"
    and "0 \<le> cmp key (rb_key (m a)) \<Longrightarrow> \<forall>b \<in> set_tree l. 0 < cmp key (rb_key (m b))"
proof -
  show "ordered cmp m (inorder l)" "ordered cmp m (inorder r)"
    using assms(1) by (auto simp: ordered_def sorted_wrt_append)
  have r: "\<forall>b \<in> set_tree r. cmp (rb_key (m a)) (rb_key (m b)) < 0"
    and l: "\<forall>b \<in> set_tree l. cmp (rb_key (m b)) (rb_key (m a)) < 0"
    using assms(1) by (auto simp: ordered_def sorted_wrt_append)
  show "\<forall>b \<in> set_tree r. cmp key (rb_key (m b)) < 0" if "cmp key (rb_key (m a)) \<le> 0"
    using that r assms(2,3) cmp_le_less_trans [of key "rb_key (m a)"] by auto
  show "\<forall>b \<in> set_tree l. 0 < cmp key (rb_key (m b))" if "0 \<le> cmp key (rb_key (m a))"
  proof
    fix b assume b: "b \<in> set_tree l"
    then have "cmp (rb_key (m b)) key < 0"
      using that l assms(2,3) cmp_less_le_trans [of "rb_key (m b)" "rb_key (m a)" key] cmp_ge_iff by auto
    then show "0 < cmp key (rb_key (m b))" using b assms(2,3) cmp_flip by auto
  qed
qed

lemma find_descent:
  assumes "is_tree m p t" "ordered cmp m (inorder t)" "\<forall>b \<in> set_tree t. rb_key (m b) \<in> K" "key \<in> K"
  shows "\<exists>r. rb_find_loop cmp m key (ptr t) = Some r \<and>
    (if r = NULL then \<forall>b \<in> set_tree t. cmp key (rb_key (m b)) \<noteq> 0
     else r \<in> set_tree t \<and> cmp key (rb_key (m r)) = 0)"
  using assms
proof (induction t arbitrary: p)
  case Leaf
  then show ?case by (simp add: rb_find_loop.simps)
next
  case (Node l a r)
  note o = ordered_Node [OF Node.prems(2-4)]
  from Node.prems have t: "a \<noteq> NULL" "rb_left (m a) = ptr l" "rb_right (m a) = ptr r" "is_tree m a l" "is_tree m a r"
    and K: "\<forall>b \<in> set_tree l. rb_key (m b) \<in> K" "\<forall>b \<in> set_tree r. rb_key (m b) \<in> K" by auto
  consider "cmp key (rb_key (m a)) < 0" | "cmp key (rb_key (m a)) = 0" | "0 < cmp key (rb_key (m a))" by linarith
  then show ?case
  proof cases
    case 1
    then have "rb_find_loop cmp m key (ptr (Node l a r)) = rb_find_loop cmp m key (ptr l)"
      using t by (subst rb_find_loop.simps) simp
    then show ?thesis using Node.IH(1) [OF t(4) o(1) K(1) Node.prems(4)] 1 o(3) by fastforce
  next
    case 2
    then show ?thesis using t by (subst rb_find_loop.simps) simp
  next
    case 3
    then have "rb_find_loop cmp m key (ptr (Node l a r)) = rb_find_loop cmp m key (ptr r)"
      using t by (subst rb_find_loop.simps) simp
    then show ?thesis using Node.IH(2) [OF t(5) o(2) K(2) Node.prems(4)] 3 o(4) by fastforce
  qed
qed

lemma insert_descent:
  assumes "is_tree m p t" "t \<noteq> Leaf" "ordered cmp m (inorder t)" "\<forall>b \<in> set_tree t. rb_key (m b) \<in> K" "rb_key (m node) \<in> K"
  shows "if \<exists>b \<in> set_tree t. cmp (rb_key (m node)) (rb_key (m b)) = 0
         then rb_insert_loop cmp m node (ptr t) rm = Some None
         else \<exists>k. t = plug Leaf k \<and> k \<noteq> [] \<and> gap cmp m (rb_key (m node)) k \<and>
           rb_insert_loop cmp m node (ptr t) rm = Some (Some (link m k node, top k, rm \<and> after k = []))"
  using assms
proof (induction t arbitrary: p rm)
  case (Node l a r)
  let ?key = "rb_key (m node)"
  note o = ordered_Node [OF Node.prems(3-5)]
  from Node.prems have t: "a \<noteq> NULL" "rb_left (m a) = ptr l" "rb_right (m a) = ptr r" "is_tree m a l" "is_tree m a r"
    and K: "\<forall>b \<in> set_tree l. rb_key (m b) \<in> K" "\<forall>b \<in> set_tree r. rb_key (m b) \<in> K" by auto
  consider "cmp ?key (rb_key (m a)) < 0" | "cmp ?key (rb_key (m a)) = 0" | "0 < cmp ?key (rb_key (m a))" by linarith
  then show ?case
  proof cases
    case 1
    then have loop: "rb_insert_loop cmp m node (ptr (Node l a r)) rm =
        (if ptr l = NULL then Some (Some (link m [InLeft a r] node, a, False)) else rb_insert_loop cmp m node (ptr l) False)"
      using t by (subst rb_insert_loop.simps) (simp add: rb_mem_simps link_def)
    have r: "\<forall>b \<in> set_tree r. cmp ?key (rb_key (m b)) < 0" using o(3) 1 by simp
    show ?thesis
    proof (cases "l = Leaf")
      case True
      then show ?thesis using loop r 1 by (auto simp: gap_def intro!: exI [of _ "[InLeft a r]"])
    next
      case False
      then have l: "ptr l \<noteq> NULL" using t(4) ptr_NULL_iff by blast
      note IH = Node.IH(1) [OF t(4) False o(1) K(1) Node.prems(5), of False]
      show ?thesis
      proof (cases "\<exists>b \<in> set_tree l. cmp ?key (rb_key (m b)) = 0")
        case True
        then show ?thesis using IH loop l by auto
      next
        case nf: False
        then obtain k where k: "l = plug Leaf k" "k \<noteq> []" "gap cmp m ?key k"
          "rb_insert_loop cmp m node (ptr l) False = Some (Some (link m k node, top k, False))"
          using IH by auto
        have "gap cmp m ?key (k @ [InLeft a r])" using k(3) r 1 by (auto simp: gap_def before_append after_append)
        then show ?thesis
          using k nf loop l r 1 by (auto simp: plug_append link_append top_append after_append
              intro!: exI [of _ "k @ [InLeft a r]"])
      qed
    qed
  next
    case 2
    then show ?thesis using t by (subst rb_insert_loop.simps) auto
  next
    case 3
    then have loop: "rb_insert_loop cmp m node (ptr (Node l a r)) rm =
        (if ptr r = NULL then Some (Some (link m [InRight l a] node, a, rm)) else rb_insert_loop cmp m node (ptr r) rm)"
      using t by (subst rb_insert_loop.simps) (simp add: rb_mem_simps link_def)
    have l: "\<forall>b \<in> set_tree l. 0 < cmp ?key (rb_key (m b))" using o(4) 3 by simp
    show ?thesis
    proof (cases "r = Leaf")
      case True
      then show ?thesis using loop l 3 by (auto simp: gap_def intro!: exI [of _ "[InRight l a]"])
    next
      case False
      then have r: "ptr r \<noteq> NULL" using t(5) ptr_NULL_iff by blast
      note IH = Node.IH(2) [OF t(5) False o(2) K(2) Node.prems(5), of rm]
      show ?thesis
      proof (cases "\<exists>b \<in> set_tree r. cmp ?key (rb_key (m b)) = 0")
        case True
        then show ?thesis using IH loop r by auto
      next
        case nf: False
        then obtain k where k: "r = plug Leaf k" "k \<noteq> []" "gap cmp m ?key k"
          "rb_insert_loop cmp m node (ptr r) rm = Some (Some (link m k node, top k, rm \<and> after k = []))"
          using IH by auto
        have "gap cmp m ?key (k @ [InRight l a])" using k(3) l 3 by (auto simp: gap_def before_append after_append)
        then show ?thesis
          using k nf loop r l 3 by (auto simp: plug_append link_append top_append after_append
              intro!: exI [of _ "k @ [InRight l a]"])
      qed
    qed
  qed
qed simp

lemma foi_descent:
  assumes "is_tree m p t" "ordered cmp m (inorder t)" "\<forall>b \<in> set_tree t. rb_key (m b) \<in> K" "key \<in> K"
  shows "if \<exists>b \<in> set_tree t. cmp key (rb_key (m b)) = 0
         then \<exists>b x. rb_foi_loop cmp m key (ptr t) prev dir rm = Some (b, x) \<and> b \<in> set_tree t \<and> cmp key (rb_key (m b)) = 0
         else \<exists>k. t = plug Leaf k \<and> gap cmp m key k \<and> rb_foi_loop cmp m key (ptr t) prev dir rm =
             Some (NULL, if k = [] then prev else top k, if k = [] then dir else on_right k, rm \<and> after k = [])"
  using assms
proof (induction t arbitrary: p prev dir rm)
  case Leaf
  show ?case by (subst rb_foi_loop.simps) (auto simp: gap_def intro!: exI [of _ "[]"])
next
  case (Node l a r)
  note o = ordered_Node [OF Node.prems(2-4)]
  from Node.prems have t: "a \<noteq> NULL" "rb_left (m a) = ptr l" "rb_right (m a) = ptr r" "is_tree m a l" "is_tree m a r"
    and K: "\<forall>b \<in> set_tree l. rb_key (m b) \<in> K" "\<forall>b \<in> set_tree r. rb_key (m b) \<in> K" by auto
  consider "cmp key (rb_key (m a)) < 0" | "cmp key (rb_key (m a)) = 0" | "0 < cmp key (rb_key (m a))" by linarith
  then show ?case
  proof cases
    case 1
    then have loop: "rb_foi_loop cmp m key (ptr (Node l a r)) prev dir rm = rb_foi_loop cmp m key (ptr l) a False False"
      using t by (subst rb_foi_loop.simps) simp
    have r: "\<forall>b \<in> set_tree r. cmp key (rb_key (m b)) < 0" using o(3) 1 by simp
    note IH = Node.IH(1) [OF t(4) o(1) K(1) Node.prems(4), of a False False]
    show ?thesis
    proof (cases "\<exists>b \<in> set_tree l. cmp key (rb_key (m b)) = 0")
      case True
      then show ?thesis using IH loop by (metis UnCI tree.set(2) insertCI)
    next
      case nf: False
      then obtain k where k: "l = plug Leaf k" "gap cmp m key k" "rb_foi_loop cmp m key (ptr l) a False False =
             Some (NULL, if k = [] then a else top k, if k = [] then False else on_right k, False)"
        using IH by auto
      have "gap cmp m key (k @ [InLeft a r])" using k(2) r 1 by (auto simp: gap_def before_append after_append)
      then show ?thesis
        using k nf loop r 1 by (auto simp: plug_append top_append after_append on_right_def
            intro!: exI [of _ "k @ [InLeft a r]"])
    qed
  next
    case 2
    then show ?thesis using t by (subst rb_foi_loop.simps) auto
  next
    case 3
    then have loop: "rb_foi_loop cmp m key (ptr (Node l a r)) prev dir rm = rb_foi_loop cmp m key (ptr r) a True rm"
      using t by (subst rb_foi_loop.simps) simp
    have l: "\<forall>b \<in> set_tree l. 0 < cmp key (rb_key (m b))" using o(4) 3 by simp
    note IH = Node.IH(2) [OF t(5) o(2) K(2) Node.prems(4), of a True rm]
    show ?thesis
    proof (cases "\<exists>b \<in> set_tree r. cmp key (rb_key (m b)) = 0")
      case True
      then show ?thesis using IH loop by (metis UnCI tree.set(2) insertCI)
    next
      case nf: False
      then obtain k where k: "r = plug Leaf k" "gap cmp m key k" "rb_foi_loop cmp m key (ptr r) a True rm =
             Some (NULL, if k = [] then a else top k, if k = [] then True else on_right k, rm \<and> after k = [])"
        using IH by auto
      have "gap cmp m key (k @ [InRight l a])" using k(2) l 3 by (auto simp: gap_def before_append after_append)
      then show ?thesis
        using k nf loop l 3 by (auto simp: plug_append top_append after_append on_right_def
            intro!: exI [of _ "k @ [InRight l a]"])
    qed
  qed
qed

end

subsection \<open>The represented list\<close>

abbreviation rb_cmp :: "'s rb_tree \<Rightarrow> addr \<Rightarrow> addr \<Rightarrow> int" where
  "rb_cmp t \<equiv> the (rb_compare t) (rb_state t)"

text \<open>The tree holds exactly the nodes \<open>xs\<close>, in this order; their keys are in the set \<open>K\<close> on which the
  comparison callback is a total preorder.\<close>

definition rb_repr :: "addr set \<Rightarrow> rb_mem \<Rightarrow> 's rb_tree \<Rightarrow> addr list \<Rightarrow> bool" where
  "rb_repr K m t xs \<longleftrightarrow>
     (\<exists>T. rb_valid m (rb_root t) T \<and> inorder T = xs) \<and> (xs \<noteq> [] \<longrightarrow> rb_rightmost t = last xs) \<and>
     rb_compare t \<noteq> None \<and> rb_order K (rb_cmp t) \<and> (\<forall>a \<in> set xs. rb_key (m a) \<in> K) \<and> ordered (rb_cmp t) m xs"

text \<open>The specification of insertion: the new node goes before the first node with a greater key.\<close>

definition insert_node :: "(addr \<Rightarrow> addr \<Rightarrow> int) \<Rightarrow> rb_mem \<Rightarrow> addr \<Rightarrow> addr \<Rightarrow> addr list \<Rightarrow> addr list" where
  "insert_node cmp m key node xs =
     takeWhile (\<lambda>a. 0 < cmp key (rb_key (m a))) xs @ node # dropWhile (\<lambda>a. 0 < cmp key (rb_key (m a))) xs"

lemma rb_reprE:
  assumes "rb_repr K m t xs"
  obtains T cmp where "rb_compare t = Some cmp" "rb_cmp t = cmp (rb_state t)" "rb_order K (cmp (rb_state t))"
    "tree_at m (rb_root t) T []" "is_tree m NULL T" "ptr T = rb_root t" "(\<exists>N. rbt (col m) T N)" "black (col m) T"
    "inorder T = xs" "set_tree T = set xs" "\<forall>a \<in> set xs. rb_key (m a) \<in> K" "ordered (cmp (rb_state t)) m xs"
    "xs \<noteq> [] \<longrightarrow> rb_rightmost t = last xs"
proof -
  from assms obtain T where T: "rb_valid m (rb_root t) T" "inorder T = xs" unfolding rb_repr_def by blast
  from assms obtain cmp where c: "rb_compare t = Some cmp" by (auto simp: rb_repr_def)
  show ?thesis
  proof (rule that [of cmp T])
    show "rb_order K (cmp (rb_state t))" "\<forall>a \<in> set xs. rb_key (m a) \<in> K" "ordered (cmp (rb_state t)) m xs"
      "xs \<noteq> [] \<longrightarrow> rb_rightmost t = last xs"
      using assms c by (simp_all add: rb_repr_def)
    show "set_tree T = set xs" using T(2) set_inorder by metis
    show "tree_at m (rb_root t) T []" "is_tree m NULL T" "ptr T = rb_root t" "\<exists>N. rbt (col m) T N" "black (col m) T"
      using T(1) by (simp_all add: rb_valid_def tree_at_iff)
  qed (use c T in simp_all)
qed

lemma ordered_unique:
  assumes "rb_order K cmp" "ordered cmp m xs" "\<forall>a \<in> set xs. rb_key (m a) \<in> K" "key \<in> K"
    and "a \<in> set xs" "b \<in> set xs" "cmp key (rb_key (m a)) = 0" "cmp key (rb_key (m b)) = 0"
  shows "a = b"
proof -
  have "cmp (rb_key (m a)) (rb_key (m b)) = 0"
    using comparator_on.cmp_trans [OF assms(1) [unfolded rb_order_def], of "rb_key (m a)" key "rb_key (m b)"]
      comparator_on.cmp_trans [OF assms(1) [unfolded rb_order_def], of "rb_key (m b)" key "rb_key (m a)"]
      comparator_on.cmp_ge_iff [OF assms(1) [unfolded rb_order_def], of "rb_key (m a)" "rb_key (m b)"]
      comparator_on.cmp_zero_sym [OF assms(1) [unfolded rb_order_def], of key] assms(3-8) by auto
  moreover have "cmp (rb_key (m b)) (rb_key (m a)) = 0"
    using calculation comparator_on.cmp_zero_sym [OF assms(1) [unfolded rb_order_def]] assms(3,5,6) by auto
  moreover obtain i j where ij: "i < length xs" "j < length xs" "a = xs ! i" "b = xs ! j"
    using assms(5,6) by (auto simp: in_set_conv_nth)
  ultimately have "\<not> i < j" "\<not> j < i"
    using assms(2) sorted_wrt_nth_less [of _ xs] by (fastforce simp: ordered_def)+
  then show ?thesis using ij by simp
qed

lemma find_unique:
  assumes "x \<in> set xs" "P x" "\<And>y. y \<in> set xs \<Longrightarrow> P y \<Longrightarrow> y = x"
  shows "List.find P xs = Some x"
proof -
  obtain y where "List.find P xs = Some y" using assms(1,2) by (cases "List.find P xs") (auto simp: find_None_iff)
  then show ?thesis using assms(3) [of y] by (auto simp: find_Some_iff)
qed

lemma find_refines:
  assumes r: "rb_repr K m t xs" and key: "key \<in> K" "key \<noteq> NULL"
  shows "rb_tree_find m (Some t) key (Some v) =
    Some (case List.find (\<lambda>a. rb_cmp t key (rb_key (m a)) = 0) xs of
            None \<Rightarrow> (A_E_NOTFOUND, Some NULL) | Some a \<Rightarrow> (A_OK, Some a))"
proof -
  obtain T cmp where R: "rb_compare t = Some cmp" "rb_cmp t = cmp (rb_state t)" "rb_order K (cmp (rb_state t))"
    "is_tree m NULL T" "ptr T = rb_root t" "inorder T = xs" "set_tree T = set xs" "\<forall>a \<in> set xs. rb_key (m a) \<in> K"
    "ordered (cmp (rb_state t)) m xs"
    using r by (rule rb_reprE)
  let ?c = "cmp (rb_state t)"
  obtain n where n: "rb_find_loop ?c m key (rb_root t) = Some n"
    "if n = NULL then \<forall>b \<in> set xs. ?c key (rb_key (m b)) \<noteq> 0 else n \<in> set xs \<and> ?c key (rb_key (m n)) = 0"
    using rb_order.find_descent [OF R(3,4) _ _ key(1)] R(5-9) by metis
  show ?thesis
  proof (cases "n = NULL")
    case True
    then have "List.find (\<lambda>a. ?c key (rb_key (m a)) = 0) xs = None" using n(2) by (simp add: find_None_iff)
    then show ?thesis using R(1) n True key by (simp add: rb_tree_find_def)
  next
    case False
    then have "List.find (\<lambda>a. ?c key (rb_key (m a)) = 0) xs = Some n"
      using n(2) ordered_unique [OF R(3,9,8) key(1)] by (intro find_unique) auto
    moreover have "rb_root t \<noteq> NULL" using False n(2) R(4-7) ptr_NULL_iff [OF R(4)] by auto
    ultimately show ?thesis using R(1) n False key by (simp add: rb_tree_find_def)
  qed
qed

subsection \<open>Insertion\<close>

lemma rb_valid_cong:
  assumes "\<And>a. a \<in> set_tree T \<Longrightarrow> m' a = m a"
  shows "rb_valid m' root T = rb_valid m root T"
proof -
  have "is_tree m' NULL T = is_tree m NULL T"
    using assms by (intro is_tree_cong) (simp add: same_links_def)
  moreover have "rbt (col m') T N = rbt (col m) T N" for N
    using assms by (intro rbt_cong) (simp add: col_def)
  moreover have "black (col m') T = black (col m) T"
    using assms by (intro black_cong) (simp add: col_def)
  ultimately show ?thesis by (simp add: rb_valid_def tree_at_iff)
qed

lemma ordered_cong:
  "(\<And>a. a \<in> set xs \<Longrightarrow> rb_key (m' a) = rb_key (m a)) \<Longrightarrow> ordered cmp m' xs = ordered cmp m xs"
  unfolding ordered_def by (intro iffI; elim sorted_wrt_mono_rel [rotated]; simp)

lemma rb_repr_cong:
  assumes "\<And>a. a \<in> set xs \<Longrightarrow> m' a = m a"
  shows "rb_repr K m' t xs = rb_repr K m t xs"
proof -
  have "rb_valid m' (rb_root t) T = rb_valid m (rb_root t) T" if "inorder T = xs" for T
    using assms that set_inorder [of T] by (intro rb_valid_cong) simp
  moreover have "ordered (rb_cmp t) m' xs = ordered (rb_cmp t) m xs"
    using assms by (intro ordered_cong) simp
  moreover have "(\<forall>a \<in> set xs. rb_key (m' a) \<in> K) = (\<forall>a \<in> set xs. rb_key (m a) \<in> K)"
    using assms by simp
  ultimately show ?thesis unfolding rb_repr_def by blast
qed

lemma insert_node_gap:
  "gap cmp m key k \<Longrightarrow> insert_node cmp m key node (before k @ after k) = before k @ node # after k"
proof -
  assume g: "gap cmp m key k"
  have "takeWhile (\<lambda>a. 0 < cmp key (rb_key (m a))) (after k) = []"
    "dropWhile (\<lambda>a. 0 < cmp key (rb_key (m a))) (after k) = after k"
    using g by (cases "after k"; fastforce simp: gap_def)+
  then show ?thesis using g by (simp add: insert_node_def gap_def takeWhile_append2 dropWhile_append2)
qed

lemma ordered_insert:
  assumes c: "rb_order K cmp" and o: "ordered cmp m (before k @ after k)"
    and g: "gap cmp m key k" and key: "key \<in> K" "\<forall>a \<in> set (before k @ after k). rb_key (m a) \<in> K"
    and m': "rb_key (m' node) = key" "\<And>a. a \<in> set (before k @ after k) \<Longrightarrow> rb_key (m' a) = rb_key (m a)"
  shows "ordered cmp m' (before k @ node # after k)"
proof -
  have "\<forall>a \<in> set (before k). cmp (rb_key (m a)) key < 0"
    using g key comparator_on.cmp_flip [OF c [unfolded rb_order_def]] by (auto simp: gap_def)
  moreover have "ordered cmp m' (before k @ after k)" using o m'(2) ordered_cong by blast
  ultimately show ?thesis
    using g m' by (auto simp: ordered_def sorted_wrt_append gap_def)
qed

text \<open>The two insertion functions link the new node in the same way and rebalance.\<close>

lemma link_and_rebalance:
  assumes r: "rb_repr K m t xs" and T: "rb_valid m (rb_root t) (plug Leaf k)" "inorder (plug Leaf k) = xs" "k \<noteq> []"
    and g: "gap (rb_cmp t) m key k" and key: "key \<in> K"
    and node: "node \<noteq> NULL" "node \<notin> set xs" "rb_left (m node) = NULL" "rb_right (m node) = NULL"
    and M: "M = (link m k node)(node := (m node)\<lparr>rb_parent := top k, rb_color := COLOR_RED, rb_key := key\<rparr>)"
  shows "\<exists>m' root'. helper_rb_tree_insert_rebalance M (rb_root t) node = Some (m', root') \<and>
    rb_repr K m' (t\<lparr>rb_rightmost := (if after k = [] then node else rb_rightmost t), rb_root := root'\<rparr>)
      (insert_node (rb_cmp t) m key node xs) \<and>
    rb_key (m' node) = key \<and> (\<forall>a \<in> set xs. rb_key (m' a) = rb_key (m a))"
proof -
  have xs: "xs = before k @ after k" using T(2) by (simp add: inorder_plug)
  have at: "tree_at m (rb_root t) Leaf k" using T(1) by (simp add: rb_valid_def tree_at_iff)
  have nk: "node \<notin> set (before k) \<union> set (after k)" using node(2) xs by simp
  define M1 where "M1 = (link m k node)(node := (m node)\<lparr>rb_parent := top k, rb_color := COLOR_RED\<rparr>)"
  have "top k \<in> set (before k) \<union> set (after k)" using top_in_ctx T(3) by blast
  then have tn: "top k \<noteq> node" using nk by blast
  have M1: "M = M1(node := (M1 node)\<lparr>rb_key := key\<rparr>)" by (simp add: M M1_def)
  have "tree_at M1 (rb_root t) (Node Leaf node Leaf) k"
    unfolding M1_def using at T(3) node nk by (intro link_tree_at) auto
  then have tM: "tree_at M (rb_root t) (Node Leaf node Leaf) k" by (simp add: M1 tree_at_iff rb_mem_simps)
  have colM: "col M a = col m a" if "a \<noteq> node" for a
    using that by (auto simp: M link_def col_def split: frame.split)
  have keyM: "rb_key (M a) = rb_key (m a)" if "a \<noteq> node" for a
    using that by (auto simp: M link_def split: frame.split)
  obtain N where "rbt (col m) (plug Leaf k) N" "black (col m) (plug Leaf k)" using T(1) by (auto simp: rb_valid_def)
  then obtain n where "rbk (col m) k n" "n = 0" using rbt_unplug by fastforce
  moreover have "col M a = col m a" if "a \<in> set (before k) \<union> set (after k)" for a
    using colM [of a] nk that by metis
  ultimately have "rbk (col M) k 0" using rbk_cong [of k "col M" "col m" 0] by blast
  then have "ins_inv M (rb_root t) (Node Leaf node Leaf) k 0"
    using tM by (simp add: ins_inv_def M black_def col_def)
  from insert_rebalance_valid [OF this T(3)] obtain m' root' T'
    where s: "helper_rb_tree_insert_rebalance M (rb_root t) node = Some (m', root')" "rb_valid m' root' T'"
      "inorder T' = before k @ node # after k" "same_keys M m'"
    by (auto simp: inorder_plug)
  have k': "rb_key (m' node) = key" "\<forall>a \<in> set xs. rb_key (m' a) = rb_key (m a)"
    using s(4) keyM node(2) by (auto simp: same_keys_def M)
  obtain cmp where c: "rb_compare t = Some cmp" "rb_order K (cmp (rb_state t))" "\<forall>a \<in> set xs. rb_key (m a) \<in> K"
    "ordered (cmp (rb_state t)) m xs" "xs \<noteq> [] \<longrightarrow> rb_rightmost t = last xs"
    using r by (rule rb_reprE)
  have "ordered (cmp (rb_state t)) m' (before k @ node # after k)"
    using c g key k' xs by (intro ordered_insert [where m = m and K = K and key = key]) auto
  then have "rb_repr K m' (t\<lparr>rb_rightmost := (if after k = [] then node else rb_rightmost t), rb_root := root'\<rparr>)
      (before k @ node # after k)"
    using s(2,3) c key k' xs by (auto simp: rb_repr_def)
  then show ?thesis using s(1) k' insert_node_gap [OF g, of node] xs by auto
qed

lemma singleton_repr:
  assumes c: "rb_compare t = Some cmp" "rb_order K (cmp (rb_state t))" and key: "key \<in> K"
    and node: "node \<noteq> NULL" "rb_left (m node) = NULL" "rb_right (m node) = NULL" "rb_parent (m node) = NULL"
  shows "rb_repr K (m(node := (m node)\<lparr>rb_key := key, rb_color := COLOR_BLACK\<rparr>))
    (t\<lparr>rb_root := node, rb_rightmost := node\<rparr>) [node]"
proof -
  have "rb_valid (m(node := (m node)\<lparr>rb_key := key, rb_color := COLOR_BLACK\<rparr>)) node (Node Leaf node Leaf)"
    using node by (auto simp: rb_valid_def tree_at_def black_def col_def)
  then show ?thesis using c key by (auto simp: rb_repr_def ordered_def intro!: exI [of _ "Node Leaf node Leaf"])
qed

text \<open>What a node that is to be inserted must look like: the insertion functions write its key, its colour
  and, in a non-empty tree, its parent, but not its child pointers.\<close>

definition fresh_node :: "rb_mem \<Rightarrow> addr list \<Rightarrow> addr \<Rightarrow> bool" where
  "fresh_node m xs node \<longleftrightarrow> node \<noteq> NULL \<and> node \<notin> set xs \<and> rb_left (m node) = NULL \<and> rb_right (m node) = NULL \<and>
     (xs = [] \<longrightarrow> rb_parent (m node) = NULL)"

lemma insert_refines:
  assumes r: "rb_repr K m t xs" and key: "key \<in> K" and node: "fresh_node m xs node"
  shows "if \<exists>a \<in> set xs. rb_cmp t key (rb_key (m a)) = 0
         then \<exists>m'. rb_tree_insert m (Some t) key node = Some (A_E_BUSY, m', Some t) \<and> rb_repr K m' t xs
           \<and> (\<forall>a \<in> set xs. m' a = m a)
         else \<exists>m' t'. rb_tree_insert m (Some t) key node = Some (A_OK, m', Some t') \<and>
                rb_repr K m' t' (insert_node (rb_cmp t) m key node xs) \<and>
                rb_key (m' node) = key \<and> (\<forall>a \<in> set xs. rb_key (m' a) = rb_key (m a))"
proof -
  obtain T cmp where R: "rb_compare t = Some cmp" "rb_cmp t = cmp (rb_state t)" "rb_order K (cmp (rb_state t))"
    "tree_at m (rb_root t) T []" "is_tree m NULL T" "ptr T = rb_root t" "\<exists>N. rbt (col m) T N" "black (col m) T"
    "inorder T = xs" "set_tree T = set xs" "\<forall>a \<in> set xs. rb_key (m a) \<in> K"
    "ordered (cmp (rb_state t)) m xs" "xs \<noteq> [] \<longrightarrow> rb_rightmost t = last xs"
    using r by (rule rb_reprE)
  have n: "node \<noteq> NULL" "node \<notin> set xs" "rb_left (m node) = NULL" "rb_right (m node) = NULL"
    "xs = [] \<Longrightarrow> rb_parent (m node) = NULL" using node by (auto simp: fresh_node_def)
  show ?thesis
  proof (cases "xs = []")
    case True
    then have "rb_root t = NULL" using R(6,9) by (cases T) auto
    then have "rb_tree_insert m (Some t) key node = Some (A_OK, m(node := (m node)\<lparr>rb_key := key, rb_color := COLOR_BLACK\<rparr>),
        Some (t\<lparr>rb_root := node, rb_rightmost := node\<rparr>))"
      using n by (simp add: rb_tree_insert_def wr_nonnull)
    then show ?thesis
      using True n singleton_repr [of t cmp K key node m, OF R(1,3) key] by (simp add: insert_node_def)
  next
    case False
    then have T: "T \<noteq> Leaf" "rb_root t \<noteq> NULL" using R(5,6,9) ptr_NULL_iff [OF R(5)] by auto
    define m2 where "m2 = m(node := (m node)\<lparr>rb_key := key, rb_color := COLOR_RED\<rparr>)"
    have m2: "m2 a = m a" if "a \<in> set xs" for a using that n(2) by (auto simp: m2_def)
    have key2: "rb_key (m2 node) = key" by (simp add: m2_def)
    have r2: "rb_repr K m2 t xs" using r rb_repr_cong [of xs m2 m] m2 by blast
    have t2: "is_tree m2 NULL T" using R(5,10) m2 by (subst is_tree_cong [of T m m2]) (auto simp: same_links_def)
    have o2: "ordered (cmp (rb_state t)) m2 xs" using R(12) m2 ordered_cong [of xs m2 m] by auto
    let ?l = "rb_insert_loop (cmp (rb_state t)) m2 node (rb_root t) True"
    have start: "rb_tree_insert m (Some t) key node =
        do { res \<leftarrow> ?l;
             case res of
               None \<Rightarrow> Some (A_E_BUSY, m2, Some t)
             | Some (m, nd, rightmost) \<Rightarrow> do {
                 m \<leftarrow> wr_parent m node nd;
                 let t = (if rightmost then t\<lparr>rb_rightmost := node\<rparr> else t);
                 (m, root) \<leftarrow> helper_rb_tree_insert_rebalance m (rb_root t) node;
                 Some (A_OK, m, Some (t\<lparr>rb_root := root\<rparr>)) } }"
    proof -
      have "wr_key m node key = Some (m(node := (m node)\<lparr>rb_key := key\<rparr>))"
        "wr_color (m(node := (m node)\<lparr>rb_key := key\<rparr>)) node COLOR_RED = Some m2"
        using n(1) by (simp_all add: wr_nonnull m2_def)
      then show ?thesis using n(1) T R(1) by (simp add: rb_tree_insert_def)
    qed
    note desc = rb_order.insert_descent [OF R(3) t2 T(1), of node True, unfolded R(6,9,10) key2, OF o2]
    have K2: "\<forall>b \<in> set xs. rb_key (m2 b) \<in> K" using R(11) m2 by simp
    show ?thesis
    proof (cases "\<exists>a \<in> set xs. rb_cmp t key (rb_key (m a)) = 0")
      case True
      then have "?l = Some None" using desc K2 key m2 R(2) by auto
      then have "rb_tree_insert m (Some t) key node = Some (A_E_BUSY, m2, Some t)" using start by simp
      then show ?thesis using True r2 m2 by auto
    next
      case nf: False
      then obtain k where k: "T = plug Leaf k" "k \<noteq> []" "gap (cmp (rb_state t)) m2 key k"
        "?l = Some (Some (link m2 k node, top k, after k = []))"
        using desc K2 key m2 R(2) by auto
      have xs: "xs = before k @ after k" using k(1) R(9) by (simp add: inorder_plug)
      have tn: "top k \<noteq> node" using top_in_ctx [OF k(2)] n(2) xs by auto
      have gk: "gap (cmp (rb_state t)) m key k" using k(3) xs m2 by (auto simp: gap_def)
      define M where "M = (link m k node)(node := (m node)\<lparr>rb_parent := top k, rb_color := COLOR_RED, rb_key := key\<rparr>)"
      have M: "wr_parent (link m2 k node) node (top k) = Some M"
        using n(1) tn by (auto simp: wr_nonnull M_def link_def m2_def fun_eq_iff split: frame.split)
      have valid: "rb_valid m (rb_root t) (plug Leaf k)" using R(4,7,8) k(1) by (simp add: rb_valid_def)
      obtain m' root' where s: "helper_rb_tree_insert_rebalance M (rb_root t) node = Some (m', root')"
        "rb_repr K m' (t\<lparr>rb_rightmost := (if after k = [] then node else rb_rightmost t), rb_root := root'\<rparr>)
           (insert_node (rb_cmp t) m key node xs)"
        "rb_key (m' node) = key" "\<forall>a \<in> set xs. rb_key (m' a) = rb_key (m a)"
        using link_and_rebalance [OF r valid _ k(2) _ key n(1-4) M_def] R(2,9) k(1) gk by auto
      have "rb_tree_insert m (Some t) key node = Some (A_OK, m',
          Some (t\<lparr>rb_rightmost := (if after k = [] then node else rb_rightmost t), rb_root := root'\<rparr>))"
        using start k(4) M s(1) by (cases "after k = []") simp_all
      then show ?thesis using nf s(2-4) by auto
    qed
  qed
qed

lemma find_or_insert_refines:
  assumes r: "rb_repr K m t xs" and key: "key \<in> K" and node: "fresh_node m xs node"
  shows "case List.find (\<lambda>a. rb_cmp t key (rb_key (m a)) = 0) xs of
           Some a \<Rightarrow> \<exists>m'. rb_tree_find_or_insert m (Some t) key node (Some v) = Some (A_OK, m', Some t, Some a) \<and>
                         rb_repr K m' t xs \<and> (\<forall>a \<in> set xs. m' a = m a)
         | None \<Rightarrow> \<exists>m' t'. rb_tree_find_or_insert m (Some t) key node (Some v) = Some (A_OK, m', Some t', Some node) \<and>
                rb_repr K m' t' (insert_node (rb_cmp t) m key node xs) \<and>
                rb_key (m' node) = key \<and> (\<forall>a \<in> set xs. rb_key (m' a) = rb_key (m a))"
proof -
  obtain T cmp where R: "rb_compare t = Some cmp" "rb_cmp t = cmp (rb_state t)" "rb_order K (cmp (rb_state t))"
    "tree_at m (rb_root t) T []" "is_tree m NULL T" "ptr T = rb_root t" "\<exists>N. rbt (col m) T N" "black (col m) T"
    "inorder T = xs" "set_tree T = set xs" "\<forall>a \<in> set xs. rb_key (m a) \<in> K"
    "ordered (cmp (rb_state t)) m xs" "xs \<noteq> [] \<longrightarrow> rb_rightmost t = last xs"
    using r by (rule rb_reprE)
  have n: "node \<noteq> NULL" "node \<notin> set xs" "rb_left (m node) = NULL" "rb_right (m node) = NULL"
    "xs = [] \<Longrightarrow> rb_parent (m node) = NULL" using node by (auto simp: fresh_node_def)
  show ?thesis
  proof (cases "xs = []")
    case True
    then have "rb_root t = NULL" using R(6,9) by (cases T) auto
    then have "rb_tree_find_or_insert m (Some t) key node (Some v) =
        Some (A_OK, m(node := (m node)\<lparr>rb_key := key, rb_color := COLOR_BLACK\<rparr>),
          Some (t\<lparr>rb_root := node, rb_rightmost := node\<rparr>), Some node)"
      using n by (simp add: rb_tree_find_or_insert_def wr_nonnull)
    then show ?thesis
      using True n singleton_repr [of t cmp K key node m, OF R(1,3) key] by (simp add: insert_node_def)
  next
    case False
    then have T: "T \<noteq> Leaf" "rb_root t \<noteq> NULL" using R(5,6,9) ptr_NULL_iff [OF R(5)] by auto
    define m1 where "m1 = m(node := (m node)\<lparr>rb_key := key\<rparr>)"
    have m1: "m1 a = m a" if "a \<in> set xs" for a using that n(2) by (auto simp: m1_def)
    have r1: "rb_repr K m1 t xs" using r rb_repr_cong [of xs m1 m] m1 by blast
    have t1: "is_tree m1 NULL T" using R(5,10) m1 by (subst is_tree_cong [of T m m1]) (auto simp: same_links_def)
    have o1: "ordered (cmp (rb_state t)) m1 xs" using R(12) m1 ordered_cong [of xs m1 m] by auto
    have K1: "\<forall>b \<in> set xs. rb_key (m1 b) \<in> K" using R(11) m1 by simp
    have w: "wr_key m node key = Some m1" using n(1) by (simp add: wr_nonnull m1_def)
    let ?l = "rb_foi_loop (cmp (rb_state t)) m1 key (rb_root t) NULL False True"
    have desc: "if \<exists>b \<in> set xs. cmp (rb_state t) key (rb_key (m1 b)) = 0
         then \<exists>b x. ?l = Some (b, x) \<and> b \<in> set xs \<and> cmp (rb_state t) key (rb_key (m1 b)) = 0
         else \<exists>k. T = plug Leaf k \<and> gap (cmp (rb_state t)) m1 key k \<and> ?l =
             Some (NULL, if k = [] then NULL else top k, if k = [] then False else on_right k, True \<and> after k = [])"
      using rb_order.foi_descent [OF R(3) t1 _ _ key, of NULL False True, unfolded R(6,9,10), OF o1 K1] .
    show ?thesis
    proof (cases "\<exists>a \<in> set xs. cmp (rb_state t) key (rb_key (m a)) = 0")
      case True
      then obtain b x where b: "?l = Some (b, x)" "b \<in> set xs" "cmp (rb_state t) key (rb_key (m b)) = 0"
        using desc m1 by auto
      have "b \<noteq> NULL" using b(2) is_tree_nonnull [OF R(5)] R(9) by auto
      then have "rb_tree_find_or_insert m (Some t) key node (Some v) = Some (A_OK, m1, Some t, Some b)"
        using b(1) w n(1) T R(1) by (cases x) (simp add: rb_tree_find_or_insert_def)
      moreover have "List.find (\<lambda>a. rb_cmp t key (rb_key (m a)) = 0) xs = Some b"
        using b(2,3) R(2) ordered_unique [OF R(3,12,11) key] by (intro find_unique) auto
      ultimately show ?thesis using r1 m1 by simp
    next
      case nf: False
      then obtain k where k: "T = plug Leaf k" "gap (cmp (rb_state t)) m1 key k" "?l =
          Some (NULL, if k = [] then NULL else top k, if k = [] then False else on_right k, after k = [])"
        using desc m1 by auto
      have k0: "k \<noteq> []" using k(1) T(1) by auto
      have xs: "xs = before k @ after k" using k(1) R(9) by (simp add: inorder_plug)
      have tn: "top k \<noteq> node" "top k \<noteq> NULL"
        using top_in_ctx [OF k0] n(2) xs is_tree_nonnull [OF R(5)] R(9) by auto
      have gk: "gap (cmp (rb_state t)) m key k" using k(2) xs m1 by (auto simp: gap_def)
      define M where "M = (link m k node)(node := (m node)\<lparr>rb_parent := top k, rb_color := COLOR_RED, rb_key := key\<rparr>)"
      have lk: "(if \<not> on_right k then wr_left m1 (top k) node else wr_right m1 (top k) node) = Some (link m1 k node)"
        using tn by (auto simp: on_right_def link_def wr_nonnull split: frame.split)
      have M: "wr_parent (link m1 k node) node (top k) = Some ((link m1 k node)(node := (m1 node)\<lparr>rb_parent := top k\<rparr>))"
        "wr_color ((link m1 k node)(node := (m1 node)\<lparr>rb_parent := top k\<rparr>)) node COLOR_RED = Some M"
        using n(1) tn by (auto simp: wr_nonnull M_def link_def m1_def fun_eq_iff split: frame.split)
      have valid: "rb_valid m (rb_root t) (plug Leaf k)" using R(4,7,8) k(1) by (simp add: rb_valid_def)
      obtain m' root' where s: "helper_rb_tree_insert_rebalance M (rb_root t) node = Some (m', root')"
        "rb_repr K m' (t\<lparr>rb_rightmost := (if after k = [] then node else rb_rightmost t), rb_root := root'\<rparr>)
           (insert_node (rb_cmp t) m key node xs)"
        "rb_key (m' node) = key" "\<forall>a \<in> set xs. rb_key (m' a) = rb_key (m a)"
        using link_and_rebalance [OF r valid _ k0 _ key n(1-4) M_def] R(2,9) k(1) gk by auto
      have "rb_tree_find_or_insert m (Some t) key node (Some v) = Some (A_OK, m',
          Some (t\<lparr>rb_rightmost := (if after k = [] then node else rb_rightmost t), rb_root := root'\<rparr>), Some node)"
        using w n(1) T R(1) k(3) k0 lk M s(1)
        by (cases "after k = []") (simp_all add: rb_tree_find_or_insert_def)
      moreover have "List.find (\<lambda>a. rb_cmp t key (rb_key (m a)) = 0) xs = None"
        using nf R(2) by (simp add: find_None_iff)
      ultimately show ?thesis using s(2-4) by auto
    qed
  qed
qed

subsection \<open>Order neighbours, traversal, height\<close>

lemma find_minimum_hd: "is_tree m p t \<Longrightarrow> t \<noteq> Leaf \<Longrightarrow> helper_rb_tree_find_minimum m (ptr t) = Some (hd (inorder t))"
proof (induction t arbitrary: p)
  case (Node l a r)
  then show ?case
    by (subst helper_rb_tree_find_minimum.simps; cases l) (auto simp: rb_mem_simps hd_append)
qed simp

lemma find_maximum_last: "is_tree m p t \<Longrightarrow> t \<noteq> Leaf \<Longrightarrow> helper_rb_tree_find_maximum m (ptr t) = Some (last (inorder t))"
proof (induction t arbitrary: p)
  case (Node l a r)
  then show ?case
    by (subst helper_rb_tree_find_maximum.simps; cases r) (auto simp: rb_mem_simps)
qed simp

definition next_node :: "addr list \<Rightarrow> addr" where
  "next_node xs = (case xs of [] \<Rightarrow> NULL | a # _ \<Rightarrow> a)"

lemma climb_right_after:
  "is_ctx m x k \<Longrightarrow> x \<noteq> NULL \<Longrightarrow> x \<notin> set (before k) \<union> set (after k) \<Longrightarrow> distinct (before k @ after k) \<Longrightarrow>
   rb_climb_right m x (top k) = Some (next_node (after k))"
proof (induction k arbitrary: x)
  case Nil
  show ?case by (subst rb_climb_right.simps) (simp add: next_node_def)
next
  case (Cons f k)
  show ?case
  proof (cases f)
    case (InLeft a r)
    with Cons.prems have "x \<noteq> ptr r" by (cases r) auto
    with InLeft Cons.prems show ?thesis by (subst rb_climb_right.simps) (simp add: next_node_def)
  next
    case (InRight l a)
    with Cons have "rb_climb_right m a (top k) = Some (next_node (after k))" by auto
    with InRight Cons.prems show ?thesis by (subst rb_climb_right.simps) simp
  qed
qed

lemma climb_left_before:
  "is_ctx m x k \<Longrightarrow> x \<noteq> NULL \<Longrightarrow> x \<notin> set (before k) \<union> set (after k) \<Longrightarrow> distinct (before k @ after k) \<Longrightarrow>
   rb_climb_left m x (top k) = Some (next_node (rev (before k)))"
proof (induction k arbitrary: x)
  case Nil
  show ?case by (subst rb_climb_left.simps) (simp add: next_node_def)
next
  case (Cons f k)
  show ?case
  proof (cases f)
    case (InRight l a)
    with Cons.prems have "x \<noteq> ptr l" by (cases l) auto
    with InRight Cons.prems show ?thesis by (subst rb_climb_left.simps) (simp add: next_node_def)
  next
    case (InLeft a r)
    with Cons have "rb_climb_left m a (top k) = Some (next_node (rev (before k)))" by auto
    with InLeft Cons.prems show ?thesis by (subst rb_climb_left.simps) simp
  qed
qed

lemma next_node_append: "ys \<noteq> [] \<Longrightarrow> next_node (ys @ zs) = hd ys"
  by (cases ys) (auto simp: next_node_def)

lemma tree_at_parts:
  assumes "tree_at m root (Node l a r) k"
  shows "a \<noteq> NULL" "rb_parent (m a) = top k" "rb_left (m a) = ptr l" "rb_right (m a) = ptr r" "is_tree m a l" "is_tree m a r"
    "is_ctx m a k" "a \<notin> set (before k) \<union> set (after k)" "distinct (before k @ after k)"
  using assms by (auto simp: tree_at_def inorder_plug)

lemma successor_at:
  assumes at: "tree_at m root (Node l a r) k"
  shows "helper_rb_tree_find_successor m a = Some (next_node (inorder r @ after k))"
    and "rb_tree_find_successor m (Some t) a (Some v) = Some (A_OK, Some (next_node (inorder r @ after k)))"
proof -
  note p = tree_at_parts [OF at]
  have "helper_rb_tree_find_minimum m (ptr r) = Some (next_node (inorder r @ after k))" "ptr r \<noteq> NULL" if "r \<noteq> Leaf"
    using find_minimum_hd [OF p(6) that] next_node_append [of "inorder r"] that ptr_NULL_iff [OF p(6)]
    by (cases r; auto)+
  moreover have "rb_climb_right m a (top k) = Some (next_node (after k))"
    using climb_right_after [OF p(7,1,8,9)] .
  ultimately show "helper_rb_tree_find_successor m a = Some (next_node (inorder r @ after k))"
    "rb_tree_find_successor m (Some t) a (Some v) = Some (A_OK, Some (next_node (inorder r @ after k)))"
    using p by (cases "r = Leaf"; simp add: helper_rb_tree_find_successor_def rb_tree_find_successor_def
      rb_tree_find_minimum_def rb_mem_simps)+
qed

lemma predecessor_at:
  assumes at: "tree_at m root (Node l a r) k"
  shows "helper_rb_tree_find_predecessor m a = Some (next_node (rev (before k @ inorder l)))"
    and "rb_tree_find_predecessor m (Some t) a (Some v) = Some (A_OK, Some (next_node (rev (before k @ inorder l))))"
proof -
  note p = tree_at_parts [OF at]
  have "helper_rb_tree_find_maximum m (ptr l) = Some (next_node (rev (before k @ inorder l)))" "ptr l \<noteq> NULL" if "l \<noteq> Leaf"
    using find_maximum_last [OF p(5) that] next_node_append [of "rev (inorder l)"] that ptr_NULL_iff [OF p(5)]
    by (cases l; auto simp: hd_rev)+
  moreover have "rb_climb_left m a (top k) = Some (next_node (rev (before k)))"
    using climb_left_before [OF p(7,1,8,9)] .
  ultimately show "helper_rb_tree_find_predecessor m a = Some (next_node (rev (before k @ inorder l)))"
    "rb_tree_find_predecessor m (Some t) a (Some v) = Some (A_OK, Some (next_node (rev (before k @ inorder l))))"
    using p by (cases "l = Leaf"; simp add: helper_rb_tree_find_predecessor_def rb_tree_find_predecessor_def
      rb_tree_find_maximum_def rb_mem_simps)+
qed

text \<open>Every node of a tree is at some position.\<close>

lemma position_exists: "a \<in> set_tree t \<Longrightarrow> \<exists>l r k. t = plug (Node l a r) k"
proof (induction t)
  case (Node l b r)
  consider "a = b" | "a \<in> set_tree l" | "a \<in> set_tree r" using Node.prems by auto
  then show ?case
  proof cases
    case 1
    then show ?thesis by (metis plug.simps(1))
  next
    case 2
    then obtain l1 r1 k where "l = plug (Node l1 a r1) k" using Node.IH(1) by blast
    then have "Node l b r = plug (Node l1 a r1) (k @ [InLeft b r])" by (simp add: plug_append)
    then show ?thesis by blast
  next
    case 3
    then obtain l1 r1 k where "r = plug (Node l1 a r1) k" using Node.IH(2) by blast
    then have "Node l b r = plug (Node l1 a r1) (k @ [InRight l b])" by (simp add: plug_append)
    then show ?thesis by blast
  qed
qed simp

lemma split_at:
  assumes r: "rb_repr K m t (xs @ a # ys)"
  obtains T1 T2 k where "tree_at m (rb_root t) (Node T1 a T2) k" "rb_valid m (rb_root t) (plug (Node T1 a T2) k)"
    "xs = before k @ inorder T1" "ys = inorder T2 @ after k"
proof -
  obtain T where T: "rb_valid m (rb_root t) T" "inorder T = xs @ a # ys" using r by (auto simp: rb_repr_def)
  have "a \<in> set_tree T" unfolding set_inorder [symmetric] T(2) by simp
  then obtain l r k where k: "T = plug (Node l a r) k" using position_exists by blast
  have at: "tree_at m (rb_root t) (Node l a r) k" using T(1) k by (simp add: rb_valid_def tree_at_iff)
  have eq: "(before k @ inorder l) @ a # (inorder r @ after k) = xs @ a # ys"
    using T(2) k by (simp add: inorder_plug)
  have "a \<notin> set (before k @ inorder l)" "a \<notin> set (inorder r @ after k)"
    using tree_at_distinct [OF at] by simp_all
  then have "before k @ inorder l = xs" "inorder r @ after k = ys"
    using eq append_Cons_eq_iff [of a "before k @ inorder l" "inorder r @ after k" xs ys] by blast+
  then show ?thesis using that at T(1) k by blast
qed

text \<open>The specification of the traversal: the callback is applied to the nodes of a list until it does not
  answer \<open>RB_CONTINUE\<close>.\<close>

fun visit :: "(addr \<Rightarrow> 'z \<Rightarrow> rb_control \<times> 'z) \<Rightarrow> addr list \<Rightarrow> 'z \<Rightarrow> rb_control \<times> 'z" where
  "visit cb [] z = (RB_CONTINUE, z)"
| "visit cb (a # as) z = (let (ret, z) = cb a z in if ret \<noteq> RB_CONTINUE then (ret, z) else visit cb as z)"

lemma visit_append:
  "visit cb (as @ bs) z = (let (ret, z) = visit cb as z in if ret \<noteq> RB_CONTINUE then (ret, z) else visit cb bs z)"
  by (induction as arbitrary: z) (auto split: prod.split)

lemma traverse_node_visit: "is_tree m p t \<Longrightarrow> rb_tree_traverse_node m (ptr t) cb z = Some (visit cb (preorder t) z)"
proof (induction t arbitrary: p z)
  case (Node l a r)
  then show ?case
    by (subst rb_tree_traverse_node.simps) (auto simp: visit_append Let_def split: prod.split)
qed (simp add: rb_tree_traverse_node.simps)

text \<open>A tree of black height \<open>n\<close> has height at most \<open>2 n\<close> (one more below a red root) and at least \<open>2^n - 1\<close>
  nodes.\<close>

lemma rbt_height: "rbt c t n \<Longrightarrow> height t \<le> 2 * n + (if black c t then 0 else 1)"
proof (induction t arbitrary: n)
  case (Node l a r)
  show ?case
  proof (cases "c a = COLOR_BLACK")
    case True
    then obtain k where "n = Suc k" "rbt c l k" "rbt c r k" using Node.prems by auto
    then show ?thesis using Node.IH(1) [of k] Node.IH(2) [of k] True by (auto simp: black_def split: if_splits)
  next
    case False
    then show ?thesis using Node.IH(1) [of n] Node.IH(2) [of n] Node.prems by (auto simp: black_def)
  qed
qed simp

lemma rbt_size: "rbt c t n \<Longrightarrow> 2 ^ n \<le> size t + 1"
proof (induction t arbitrary: n)
  case (Node l a r)
  show ?case
  proof (cases "c a = COLOR_BLACK")
    case True
    then obtain k where "n = Suc k" "rbt c l k" "rbt c r k" using Node.prems by auto
    then show ?thesis using Node.IH(1) [of k] Node.IH(2) [of k] by simp
  next
    case False
    then show ?thesis using Node.IH(1) [of n] Node.IH(2) [of n] Node.prems by auto
  qed
qed simp

lemma length_insert_node: "length (insert_node cmp m key node xs) = length xs + 1"
proof -
  have "length xs = length (takeWhile P xs) + length (dropWhile P xs)" for P
    by (metis length_append takeWhile_dropWhile_id)
  then show ?thesis by (simp add: insert_node_def)
qed

lemma rb_repr_height:
  assumes "rb_repr K m t xs"
  obtains T where "rb_valid m (rb_root t) T" "inorder T = xs" "2 ^ (height T div 2) \<le> length xs + 1"
proof -
  obtain T where T: "tree_at m (rb_root t) T []" "\<exists>N. rbt (col m) T N" "black (col m) T" "inorder T = xs"
    using assms by (rule rb_reprE)
  then obtain N where N: "rbt (col m) T N" by blast
  have "height T div 2 \<le> N" using rbt_height [OF N] T(3) by simp
  then have "(2::nat) ^ (height T div 2) \<le> 2 ^ N" by (intro power_increasing) simp_all
  also have "\<dots> \<le> length xs + 1"
    using rbt_size [OF N] T(4) length_inorder [of T] by simp
  finally have "2 ^ (height T div 2) \<le> length xs + 1" .
  then show ?thesis using that T by (auto simp: rb_valid_def)
qed

subsection \<open>The ordered-set properties\<close>

text \<open>A tree of two nodes, for the witnesses: node 16 with key 5 and its red right child 32 with key 9.\<close>

definition rb_sample_cmp :: "unit \<Rightarrow> addr \<Rightarrow> addr \<Rightarrow> int" where
  "rb_sample_cmp s a b = uint a - uint b"

definition sample_mem :: rb_mem where
  "sample_mem = (\<lambda>_. \<lparr>rb_left = 0, rb_right = 0, rb_parent = 0, rb_key = 0, rb_color = 0\<rparr>)
     (16 := \<lparr>rb_left = 0, rb_right = 32, rb_parent = 0, rb_key = 5, rb_color = COLOR_BLACK\<rparr>,
      32 := \<lparr>rb_left = 0, rb_right = 0, rb_parent = 16, rb_key = 9, rb_color = COLOR_RED\<rparr>)"

definition sample_tree :: "unit rb_tree" where
  "sample_tree = \<lparr>rb_root = 16, rb_compare = Some rb_sample_cmp, rb_rightmost = 32, rb_state = ()\<rparr>"

lemma sample_order: "rb_order UNIV (rb_sample_cmp ())"
  by unfold_locales (auto simp: rb_sample_cmp_def)

lemma sample_repr: "rb_repr UNIV sample_mem sample_tree [16, 32]"
proof -
  have "rb_valid sample_mem 16 (Node Leaf 16 (Node Leaf 32 Leaf))"
    by (auto simp: rb_valid_def tree_at_def sample_mem_def col_def black_def)
  then have "\<exists>T. rb_valid sample_mem (rb_root sample_tree) T \<and> inorder T = [16, 32]"
    by (intro exI [of _ "Node Leaf 16 (Node Leaf 32 Leaf)"]) (simp add: sample_tree_def)
  then show ?thesis
    using sample_order by (simp add: rb_repr_def sample_tree_def ordered_def) (simp add: sample_mem_def rb_sample_cmp_def)
qed

text \<open>\<open>rb_tree_find\<close> on a tree with nodes \<open>xs\<close> is the search for the key in \<open>xs\<close>: it returns (the descent
  ends and never follows a NULL pointer), answers \<open>A_OK\<close> with the only node whose key compares equal, and
  \<open>A_E_NOTFOUND\<close> with NULL if there is none. A NULL key or result pointer is \<open>A_E_BADARGS\<close>.\<close>

theorem rb_tree_find_correct:
  assumes "rb_repr K m t xs" "key \<in> K"
  shows "rb_tree_find m (Some t) key pvalue =
    Some (if key = NULL \<or> pvalue = None then (A_E_BADARGS, pvalue)
          else case List.find (\<lambda>a. rb_cmp t key (rb_key (m a)) = 0) xs of
                 None \<Rightarrow> (A_E_NOTFOUND, Some NULL) | Some a \<Rightarrow> (A_OK, Some a))"
proof (cases "key = NULL \<or> pvalue = None")
  case True
  then show ?thesis by (auto simp: rb_tree_find_def)
next
  case False
  then show ?thesis using find_refines [OF assms] by auto
qed

theorem rb_tree_find_correct_witness:
  "rb_tree_find sample_mem (Some sample_tree) 9 (Some 0) = Some (A_OK, Some 32) \<and>
   rb_tree_find sample_mem (Some sample_tree) 7 (Some 0) = Some (A_E_NOTFOUND, Some NULL)"
  using rb_tree_find_correct [OF sample_repr, of 9 "Some 0"] rb_tree_find_correct [OF sample_repr, of 7 "Some 0"]
  by (simp add: sample_tree_def rb_sample_cmp_def sample_mem_def)

text \<open>Claim C1. \<open>rb_tree_insert\<close> on a tree with nodes \<open>xs\<close> refines insertion into the ordered list. If a node with an
  equal key exists the answer is \<open>A_E_BUSY\<close> and no node of the tree changes; otherwise it is \<open>A_OK\<close> and the tree
  holds \<open>xs\<close> with the new node at its place. The result is again a valid red-black tree (linked in both
  directions, no red node with a red child, equal black heights, black root) whose rightmost pointer is
  the greatest node; no key of another node changes. The call returns and dereferences no NULL pointer.\<close>

theorem rb_tree_insert_correct:
  assumes "rb_repr K m t xs" "key \<in> K" "fresh_node m xs node"
  shows "if \<exists>a \<in> set xs. rb_cmp t key (rb_key (m a)) = 0
         then \<exists>m'. rb_tree_insert m (Some t) key node = Some (A_E_BUSY, m', Some t) \<and> rb_repr K m' t xs
           \<and> (\<forall>a \<in> set xs. m' a = m a)
         else \<exists>m' t'. rb_tree_insert m (Some t) key node = Some (A_OK, m', Some t') \<and>
                rb_repr K m' t' (insert_node (rb_cmp t) m key node xs) \<and>
                rb_key (m' node) = key \<and> (\<forall>a \<in> set xs. rb_key (m' a) = rb_key (m a))"
  using insert_refines [OF assms] .

theorem rb_tree_insert_correct_witness:
  "\<exists>m' t'. rb_tree_insert sample_mem (Some sample_tree) 7 48 = Some (A_OK, m', Some t') \<and>
     rb_repr UNIV m' t' [16, 48, 32]"
proof -
  have "fresh_node sample_mem [16, 32] 48" by (simp add: fresh_node_def sample_mem_def)
  moreover have "\<not> (\<exists>a \<in> set [16, 32]. rb_cmp sample_tree 7 (rb_key (sample_mem a)) = 0)"
    "insert_node (rb_cmp sample_tree) sample_mem 7 48 [16, 32] = [16, 48, 32]"
    by (simp_all add: sample_tree_def rb_sample_cmp_def sample_mem_def insert_node_def)
  ultimately show ?thesis using rb_tree_insert_correct [OF sample_repr, of 7 48] by auto
qed

text \<open>Claim C19. \<open>rb_tree_find_or_insert\<close> returns the node with an equal key and keeps the tree if there is one, and
  otherwise inserts the candidate at its place and returns it. The links of the candidate have to be NULL, as for an insertion.\<close>

theorem rb_tree_find_or_insert_correct:
  assumes "rb_repr K m t xs" "key \<in> K" "fresh_node m xs node"
  shows "case List.find (\<lambda>a. rb_cmp t key (rb_key (m a)) = 0) xs of
           Some a \<Rightarrow> \<exists>m'. rb_tree_find_or_insert m (Some t) key node (Some v) = Some (A_OK, m', Some t, Some a) \<and>
                         rb_repr K m' t xs \<and> (\<forall>a \<in> set xs. m' a = m a)
         | None \<Rightarrow> \<exists>m' t'. rb_tree_find_or_insert m (Some t) key node (Some v) = Some (A_OK, m', Some t', Some node) \<and>
                rb_repr K m' t' (insert_node (rb_cmp t) m key node xs) \<and>
                rb_key (m' node) = key \<and> (\<forall>a \<in> set xs. rb_key (m' a) = rb_key (m a))"
  using find_or_insert_refines [OF assms] .

theorem rb_tree_find_or_insert_correct_witness:
  "\<exists>m'. rb_tree_find_or_insert sample_mem (Some sample_tree) 9 48 (Some 0) = Some (A_OK, m', Some sample_tree, Some 32) \<and>
     rb_repr UNIV m' sample_tree [16, 32]"
proof -
  have "fresh_node sample_mem [16, 32] 48" by (simp add: fresh_node_def sample_mem_def)
  moreover have "List.find (\<lambda>a. rb_cmp sample_tree 9 (rb_key (sample_mem a)) = 0) [16, 32] = Some 32"
    by (simp add: sample_tree_def rb_sample_cmp_def sample_mem_def)
  ultimately show ?thesis
    using rb_tree_find_or_insert_correct [OF sample_repr, of 9 48 0] by simp blast
qed

text \<open>\<open>rb_tree_find_successor\<close> and \<open>rb_tree_find_predecessor\<close> of a node of the tree give the next and the
  previous node in key order, and NULL at the ends.\<close>

theorem rb_tree_neighbours_correct:
  assumes "rb_repr K m t (xs @ a # ys)"
  shows "rb_tree_find_successor m (Some t) a (Some v) = Some (A_OK, Some (if ys = [] then NULL else hd ys)) \<and>
    rb_tree_find_predecessor m (Some t) a (Some v) = Some (A_OK, Some (if xs = [] then NULL else last xs))"
proof -
  obtain l r k where at: "tree_at m (rb_root t) (Node l a r) k" and xs: "xs = before k @ inorder l" "ys = inorder r @ after k"
    using split_at [OF assms] by blast
  have "next_node zs = (if zs = [] then NULL else hd zs)" for zs by (cases zs) (simp_all add: next_node_def)
  then show ?thesis
    using successor_at(2) [OF at] predecessor_at(2) [OF at] xs by (auto simp: hd_rev simp del: rev_append)
qed

theorem rb_tree_neighbours_correct_witness:
  "rb_tree_find_successor sample_mem (Some sample_tree) 16 (Some 0) = Some (A_OK, Some 32) \<and>
   rb_tree_find_predecessor sample_mem (Some sample_tree) 16 (Some 0) = Some (A_OK, Some NULL)"
  using rb_tree_neighbours_correct [of UNIV sample_mem sample_tree "[]" 16 "[32]" 0] sample_repr by simp

text \<open>After an insertion the tree is balanced: its height is at most twice the logarithm of the number of
  nodes plus one, so the descents of later calls visit at most so many nodes.\<close>

theorem rb_tree_insert_balanced:
  assumes "rb_repr K m t xs" "key \<in> K" "fresh_node m xs node"
    and "rb_tree_insert m (Some t) key node = Some (ret, m', Some t')"
  shows "\<exists>T. rb_valid m' (rb_root t') T \<and> 2 ^ (height T div 2) \<le> length xs + 2"
proof -
  have "\<exists>ys. rb_repr K m' t' ys \<and> length ys \<le> length xs + 1"
    using insert_refines [OF assms(1-3)] assms(4) length_insert_node [of "rb_cmp t" m key node xs]
    by (auto split: if_splits)
  then obtain ys where ys: "rb_repr K m' t' ys" "length ys \<le> length xs + 1" by blast
  obtain T where "rb_valid m' (rb_root t') T" "2 ^ (height T div 2) \<le> length ys + 1"
    using rb_repr_height [OF ys(1)] by blast
  then show ?thesis using ys(2) by (intro exI [of _ T]) simp
qed

theorem rb_tree_insert_balanced_witness:
  "\<exists>ret m' t' T. rb_tree_insert sample_mem (Some sample_tree) 7 48 = Some (ret, m', Some t') \<and>
     rb_valid m' (rb_root t') T \<and> 2 ^ (height T div 2) \<le> (4::nat)"
proof -
  have f: "fresh_node sample_mem [16, 32] 48" by (simp add: fresh_node_def sample_mem_def)
  then obtain ret m' t' where i: "rb_tree_insert sample_mem (Some sample_tree) 7 48 = Some (ret, m', Some t')"
    using insert_refines [OF sample_repr, of 7 48] by (auto split: if_splits)
  then show ?thesis using rb_tree_insert_balanced [OF sample_repr _ f i] by auto
qed

text \<open>\<open>rb_tree_traverse\<close> visits every node of the tree once, in preorder, until the callback stops it.\<close>

theorem rb_tree_traverse_correct:
  assumes "rb_repr K m t xs"
  shows "\<exists>as. mset as = mset xs \<and> (\<forall>cb z. rb_tree_traverse m t cb z = Some (visit cb as z))"
proof -
  obtain T where T: "is_tree m NULL T" "ptr T = rb_root t" "inorder T = xs" using assms by (rule rb_reprE)
  have "mset (preorder T) = mset (inorder T)" by (induction T) auto
  then show ?thesis using traverse_node_visit [OF T(1)] T(2,3) by (auto simp: rb_tree_traverse_def)
qed

theorem rb_tree_traverse_correct_witness:
  "\<exists>as. mset as = mset [16, 32] \<and>
     (\<forall>cb z. rb_tree_traverse sample_mem sample_tree (cb :: addr \<Rightarrow> nat \<Rightarrow> rb_control \<times> nat) z = Some (visit cb as z))"
  using rb_tree_traverse_correct [OF sample_repr] .

end
