(* ===== verification/RBTree_Delete.thy ===== *)
theory RBTree_Delete
  imports RBTree_Order
begin

section \<open>Red-black trees: removal\<close>

text \<open>
  Removal splices a node with at most one child out of the tree, puts it in the place of the removed node if that had two
  children, and rebalances if the spliced node was black. The loop of the rebalancing keeps a position whose subtree is
  one black node short; each round ends the loop with a valid tree or moves the position up.
\<close>

subsection \<open>The rebalancing loop\<close>

definition del_inv :: "rb_mem \<Rightarrow> addr \<Rightarrow> addr tree \<Rightarrow> ctx \<Rightarrow> nat \<Rightarrow> bool" where
  "del_inv m root t k n \<longleftrightarrow>
     tree_at m root t k \<and> black (col m) t \<and> rbt (col m) t n \<and> rbk (col m) k (Suc n)"

text \<open>The loop ends at \<open>x\<close>, and colouring \<open>x\<close> black gives a valid tree with the nodes \<open>xs\<close>.\<close>

definition del_done :: "rb_mem \<Rightarrow> addr \<Rightarrow> addr \<Rightarrow> addr list \<Rightarrow> bool" where
  "del_done m root x xs \<longleftrightarrow>
     (x = root \<or> x \<noteq> NULL \<and> col m x = COLOR_RED) \<and>
     (\<exists>T. inorder T = xs \<and> rb_valid (if x = NULL then m else recolor m x COLOR_BLACK) root T)"

definition on_left :: "ctx \<Rightarrow> bool" where
  "on_left k \<longleftrightarrow> (case k of InLeft _ _ # _ \<Rightarrow> True | _ \<Rightarrow> False)"

text \<open>The last part of a round: the rotation at the parent that ends the loop.\<close>

definition del_rotate :: "bool \<Rightarrow> rb_mem \<Rightarrow> addr \<Rightarrow> addr \<Rightarrow> addr \<Rightarrow> (rb_mem \<times> addr \<times> addr \<times> addr \<times> bool) option" where
  "del_rotate is_left m root xp w =
     do { wleft \<leftarrow> rd_left m w;
          wright \<leftarrow> rd_right m w;
          c \<leftarrow> rd_color m xp;
          m \<leftarrow> wr_color m w c;
          m \<leftarrow> wr_color m xp COLOR_BLACK;
          (m, root) \<leftarrow>
            (if is_left \<and> wright \<noteq> NULL then
               do { m \<leftarrow> wr_color m wright COLOR_BLACK; helper_rotate_left m root xp }
             else if \<not> is_left \<and> wleft \<noteq> NULL then
               do { m \<leftarrow> wr_color m wleft COLOR_BLACK; helper_rotate_right m root xp }
             else Some (m, root));
          Some (m, root, root, xp, is_left) }"

text \<open>The second half of a round, when the sibling \<open>w\<close> is black.\<close>

definition del_tail :: "bool \<Rightarrow> rb_mem \<Rightarrow> addr \<Rightarrow> addr \<Rightarrow> addr \<Rightarrow> (rb_mem \<times> addr \<times> addr \<times> addr \<times> bool) option" where
  "del_tail is_left m root xp w =
     (let wleft = (if w \<noteq> NULL then rb_left (m w) else NULL);
          wright = (if w \<noteq> NULL then rb_right (m w) else NULL)
      in if is_black_or_null m wleft \<and> is_black_or_null m wright then do {
            m \<leftarrow> (if w \<noteq> NULL then wr_color m w COLOR_RED else Some m);
            xp' \<leftarrow> rd_parent m xp;
            Some (m, root, xp, xp', xp' \<noteq> NULL \<and> xp = rb_left (m xp')) }
          else do {
            (m, root, w) \<leftarrow>
              (if is_left \<and> is_black_or_null m wright then do {
                 m \<leftarrow> wr_color m w COLOR_RED;
                 m \<leftarrow> (if wleft \<noteq> NULL then wr_color m wleft COLOR_BLACK else Some m);
                 (m, root) \<leftarrow> helper_rotate_right m root w;
                 w \<leftarrow> rd_right m xp;
                 Some (m, root, w) }
               else if \<not> is_left \<and> is_black_or_null m wleft then do {
                 m \<leftarrow> wr_color m w COLOR_RED;
                 m \<leftarrow> (if wright \<noteq> NULL then wr_color m wright COLOR_BLACK else Some m);
                 (m, root) \<leftarrow> helper_rotate_left m root w;
                 w \<leftarrow> rd_left m xp;
                 Some (m, root, w) }
               else Some (m, root, w));
            del_rotate is_left m root xp w })"

lemma delete_step_unfold:
  "delete_rebalance_step m root x xp is_left =
     do { w \<leftarrow> (if is_left then rd_right m xp else rd_left m xp);
          (m, root, w) \<leftarrow>
            (if w \<noteq> NULL \<and> rb_color (m w) = COLOR_RED then do {
               m \<leftarrow> wr_color m w COLOR_BLACK;
               m \<leftarrow> wr_color m xp COLOR_RED;
               (m, root) \<leftarrow> (if is_left then helper_rotate_left m root xp else helper_rotate_right m root xp);
               w \<leftarrow> (if is_left then rd_right m xp else rd_left m xp);
               Some (m, root, w) }
             else Some (m, root, w));
          del_tail is_left m root xp w }"
  unfolding delete_rebalance_step_def del_tail_def del_rotate_def Let_def by (rule refl)

text \<open>The outcome of a round at the context \<open>k\<close>, with the nodes \<open>xs\<close>: an end of the loop, or a position further up.\<close>

definition del_up :: "rb_mem \<Rightarrow> addr \<Rightarrow> addr \<Rightarrow> addr \<Rightarrow> bool \<Rightarrow> addr list \<Rightarrow> nat \<Rightarrow> bool" where
  "del_up m root x xp l xs len \<longleftrightarrow>
     (\<exists>t k n. x = ptr t \<and> xp = top k \<and> l = on_left k \<and> del_inv m root t k n \<and> inorder (plug t k) = xs \<and> length k < len)"

definition del_step :: "rb_mem \<Rightarrow> addr list \<Rightarrow> nat \<Rightarrow> rb_mem \<times> addr \<times> addr \<times> addr \<times> bool \<Rightarrow> bool" where
  "del_step m xs len res \<longleftrightarrow> (case res of (m', root', x', xp', l') \<Rightarrow>
     same_keys m m' \<and> (del_done m' root' x' xs \<or> del_up m' root' x' xp' l' xs len))"

lemma del_up_mono: "del_up m root x xp l xs len \<Longrightarrow> len \<le> len' \<Longrightarrow> del_up m root x xp l xs len'"
  unfolding del_up_def by (elim ex_forward conj_forward) simp_all

lemma del_step_mono: "del_step m xs len res \<Longrightarrow> len \<le> len' \<Longrightarrow> del_step m xs len' res"
  unfolding del_step_def by (cases res) (auto intro: del_up_mono)

lemma del_step_trans: "same_keys m m' \<Longrightarrow> del_step m' xs len res \<Longrightarrow> del_step m xs len res"
  unfolding del_step_def by (cases res) (auto intro: same_keys_trans)

lemma black_iff:
  assumes "is_tree m p t"
  shows "is_black_or_null m (ptr t) \<longleftrightarrow> black (col m) t"
  using ptr_NULL_iff [OF assms] by (cases t) (auto simp: is_black_or_null_def black_def col_def)

lemma black_simps [simp]: "black c Leaf" "black c (Node l a r) \<longleftrightarrow> c a = COLOR_BLACK"
  by (simp_all add: black_def)

lemma rbt_color: "rbt c (Node l a r) n \<Longrightarrow> c a = COLOR_BLACK \<or> c a = COLOR_RED"
  by (auto split: if_splits)

lemma del_done_valid:
  assumes "rb_valid m root T" "inorder T = xs" "T \<noteq> Leaf"
  shows "del_done m root root xs"
proof -
  have "col m root = COLOR_BLACK" "root \<noteq> NULL"
    using assms ptr_NULL_iff [of m NULL T] by (auto simp: rb_valid_def black_def tree_at_def)
  then have "(col m)(root := COLOR_BLACK) = col m" by (simp add: fun_upd_idem)
  then have "rb_valid (recolor m root COLOR_BLACK) root T" using assms(1) by (simp add: rb_valid_def rb_mem_simps)
  then show ?thesis using assms(2) \<open>root \<noteq> NULL\<close> by (auto simp: del_done_def)
qed

text \<open>A valid subtree in a valid context.\<close>

lemma valid_plug:
  assumes "tree_at m root t k" "rbt (col m) t n" "rbk (col m) k n" "black (col m) t \<or> k \<noteq> [] \<and> col m (top k) = COLOR_BLACK"
  shows "rb_valid m root (plug t k)"
proof -
  have "black (col m) (plug t k)"
    using assms(3,4) rbk_root [of "col m" k n t] by (cases "k = []") (auto simp: black_def)
  then show ?thesis using rbt_plug [OF assms(2,3)] assms(1,4) by (auto simp: rb_valid_def tree_at_iff)
qed

text \<open>The flag that a round computes for the next position.\<close>

lemma left_flag:
  assumes at: "tree_at m root (Node l a r) k"
  shows "top k \<noteq> NULL \<and> a = rb_left (m (top k)) \<longleftrightarrow> on_left k"
proof (cases k rule: top.cases)
  case (3 u p k2)
  have "a \<noteq> ptr u" using tree_at_distinct [OF at] tree_at_nonnull [OF at] 3 by (cases u) auto
  then show ?thesis using tree_at_parts(7) [OF at] 3 by (auto simp: on_left_def)
qed (use tree_at_parts(7) [OF at] in \<open>auto simp: on_left_def\<close>)

text \<open>The sibling is black and so are its children: it becomes red, and the shortage moves up or ends at a red parent.\<close>

lemma recolored_parent:
  assumes at: "tree_at m root (Node l a r) k" and lr: "rbt (col m) l n" "rbt (col m) r n" and k: "rbk (col m) k (Suc n)"
    and a: "col m a = COLOR_RED"
  shows "del_done m root a (inorder (plug (Node l a r) k))"
proof -
  have d: "distinct (before k @ inorder (Node l a r) @ after k)" using tree_at_distinct [OF at] .
  have "rb_valid (recolor m a COLOR_BLACK) root (plug (Node l a r) k)"
    using at lr k d by (intro valid_plug [where n = "Suc n"]) (simp_all add: rb_mem_simps black_def)
  then show ?thesis using a tree_at_parts(1) [OF at] by (auto simp: del_done_def)
qed

lemma tail_recolor_left:
  assumes inv: "del_inv m root t (InLeft xp (Node A w B) # k) n"
    and b: "col m w = COLOR_BLACK" "black (col m) A" "black (col m) B"
  shows "\<exists>res. del_tail True m root xp w = Some res \<and> del_step m (inorder (plug t (InLeft xp (Node A w B) # k)))
    (if col m xp = COLOR_BLACK then Suc (length k) else 0) res"
proof -
  let ?K = "InLeft xp (Node A w B) # k" let ?t = "Node t xp (Node A w B)" let ?m = "recolor m w COLOR_RED"
  have c: "black (col m) t" "rbt (col m) t n" "rbk (col m) ?K (Suc n)" using inv unfolding del_inv_def by blast+
  have at: "tree_at m root ?t k" using inv tree_at_cong [of t ?K ?t k] by (simp add: del_inv_def)
  note d = tree_at_distinct [OF at] and p = tree_at_parts [OF at]
  have at': "tree_at ?m root ?t k" using at by (simp add: rb_mem_simps)
  have "is_black_or_null m (rb_left (m w))" "is_black_or_null m (rb_right (m w))" "w \<noteq> NULL"
    using p(6) b(2,3) black_iff by auto
  then have ev: "del_tail True m root xp w = Some (?m, root, xp, top k, on_left k)"
    using p(1,2) left_flag [OF at] by (simp add: del_tail_def rd_nonnull recolor_simps)
  have h: "rbt (col ?m) t n" "rbt (col ?m) (Node A w B) n"
    using c b d by (auto simp: rb_mem_simps)
  show ?thesis
  proof (cases "col m xp = COLOR_BLACK")
    case True
    then have "del_inv ?m root ?t k (Suc n)"
      using at' c h d by (auto simp: del_inv_def rb_mem_simps black_def)
    then have "del_step m (inorder (plug t ?K)) (Suc (length k)) (?m, root, xp, top k, on_left k)"
      unfolding del_step_def del_up_def prod.case recolor_simps
      by (intro conjI disjI2 exI [of _ ?t] exI [of _ k] exI [of _ "Suc n"]) auto
    then show ?thesis using ev True by simp
  next
    case False
    then have "col m xp = COLOR_RED" "rbk (col m) k (Suc n)" using c(3) by (auto split: if_splits)
    then have "del_done ?m root xp (inorder (plug ?t k))"
      using h d by (intro recolored_parent [OF at']) (auto simp: rb_mem_simps)
    then show ?thesis using ev by (auto simp: del_step_def recolor_simps)
  qed
qed

text \<open>The outer child of the sibling is red: one rotation ends the loop.\<close>

lemma rotate_end_left:
  assumes inv: "del_inv m root t (InLeft xp (Node A w (Node B1 z B2)) # k) n"
    and b: "col m w = COLOR_BLACK" "col m z = COLOR_RED"
  shows "\<exists>res. del_rotate True m root xp w = Some res \<and>
    del_step m (inorder (plug t (InLeft xp (Node A w (Node B1 z B2)) # k))) 0 res"
proof -
  let ?K = "InLeft xp (Node A w (Node B1 z B2)) # k" let ?t = "Node t xp (Node A w (Node B1 z B2))"
  let ?m = "recolor (recolor (recolor m w (col m xp)) xp COLOR_BLACK) z COLOR_BLACK"
  let ?t' = "Node (Node t xp A) w (Node B1 z B2)"
  have c: "black (col m) t" "rbt (col m) t n" "rbk (col m) ?K (Suc n)" using inv unfolding del_inv_def by blast+
  have at: "tree_at m root ?t k" using inv tree_at_cong [of t ?K ?t k] by (simp add: del_inv_def)
  note d = tree_at_distinct [OF at] and p = tree_at_parts [OF at]
  have "tree_at ?m root ?t k" using at by (simp add: rb_mem_simps)
  then obtain m' root' where r: "helper_rotate_left ?m root xp = Some (m', root')" "tree_at m' root' ?t' k" "same_data ?m m'"
    using rotate_left_shape by blast
  have ev: "del_rotate True m root xp w = Some (m', root', root', xp, True)"
    using p(1,4,6) r(1) by (simp add: del_rotate_def rd_nonnull recolor_simps col_def)
  have cm: "col m' = (((col m)(w := col m xp))(xp := COLOR_BLACK))(z := COLOR_BLACK)"
    using same_dataD(1) [OF r(3)] by (simp add: rb_mem_simps)
  have "k \<noteq> [] \<Longrightarrow> top k \<notin> {w, xp, z}" using top_in_ctx [of k] d by auto
  then have "rb_valid m' root' (plug ?t' k)"
    using r(2) c b d unfolding cm
    by (intro valid_plug [where n = "if col m xp = COLOR_BLACK then Suc (Suc n) else Suc n"])
      (auto simp: cm rb_mem_simps black_def split: if_splits)
  then have "del_done m' root' root' (inorder (plug ?t k))"
    by (rule del_done_valid) (auto simp: inorder_plug plug_Leaf)
  moreover have "same_keys m m'" using same_dataD(2) [OF r(3)] by (simp add: same_keys_def rb_mem_simps)
  ultimately show ?thesis using ev by (auto simp: del_step_def)
qed

text \<open>The inner child of the sibling is red: a rotation at the sibling makes it the outer one.\<close>

lemma rotate_inner_left:
  assumes inv: "del_inv m root t (InLeft xp (Node (Node A1 z A2) w B) # k) n"
    and b: "col m w = COLOR_BLACK" "col m z = COLOR_RED" "black (col m) B"
  shows "\<exists>m' root'. helper_rotate_right (recolor (recolor m w COLOR_RED) z COLOR_BLACK) root w = Some (m', root') \<and>
    same_keys m m' \<and> rb_right (m' xp) = z \<and> col m' z = COLOR_BLACK \<and> col m' w = COLOR_RED \<and>
    del_inv m' root' t (InLeft xp (Node A1 z (Node A2 w B)) # k) n"
proof -
  let ?W = "Node (Node A1 z A2) w B" let ?W' = "Node A1 z (Node A2 w B)"
  let ?K = "InLeft xp ?W # k" let ?K' = "InLeft xp ?W' # k"
  let ?m = "recolor (recolor m w COLOR_RED) z COLOR_BLACK"
  have c: "black (col m) t" "rbt (col m) t n" "rbk (col m) ?K (Suc n)" using inv unfolding del_inv_def by blast+
  have at: "tree_at m root ?W (InRight t xp # k)"
    using inv tree_at_cong [of t ?K ?W "InRight t xp # k"] by (simp add: del_inv_def)
  note d = tree_at_distinct [OF at]
  have "tree_at ?m root ?W (InRight t xp # k)" using at by (simp add: rb_mem_simps)
  then obtain m' root' where r: "helper_rotate_right ?m root w = Some (m', root')"
    "tree_at m' root' ?W' (InRight t xp # k)" "same_data ?m m'"
    using rotate_right_shape by blast
  have cm: "col m' = ((col m)(w := COLOR_RED))(z := COLOR_BLACK)" using same_dataD(1) [OF r(3)] by (simp add: rb_mem_simps)
  have x: "rb_right (m' xp) = z" using r(2) by (simp add: tree_at_def)
  have at': "tree_at m' root' t ?K'" using r(2) tree_at_cong [of t ?K' ?W' "InRight t xp # k"] by simp
  have "k \<noteq> [] \<Longrightarrow> top k \<notin> {w, xp, z}" using top_in_ctx [of k] d by auto
  then have "rbk (col m') ?K' (Suc n)" "black (col m') t" "rbt (col m') t n"
    unfolding cm using c b d by (auto simp: rb_mem_simps split: if_splits)
  then have "del_inv m' root' t ?K' n" using at' by (simp add: del_inv_def)
  moreover have "same_keys m m'" using same_dataD(2) [OF r(3)] by (simp add: same_keys_def rb_mem_simps)
  moreover have "col m' z = COLOR_BLACK" "col m' w = COLOR_RED" using cm d by auto
  ultimately show ?thesis using r(1) x by blast
qed

lemma tail_left:
  assumes inv: "del_inv m root t (InLeft xp W # k) n" and b: "black (col m) W"
  shows "\<exists>res. del_tail True m root xp (ptr W) = Some res \<and>
    del_step m (inorder (plug t (InLeft xp W # k))) (if col m xp = COLOR_BLACK then Suc (length k) else 0) res"
proof -
  have W: "rbt (col m) W (Suc n)" "tree_at m root t (InLeft xp W # k)" using inv by (auto simp: del_inv_def)
  obtain A w B where w: "W = Node A w B" using W(1) by (cases W) auto
  have cw: "col m w = COLOR_BLACK" "rbt (col m) A n" "rbt (col m) B n"
    using W(1) b w by (auto simp: black_def)
  have l: "rb_left (m w) = ptr A" "rb_right (m w) = ptr B" "w \<noteq> NULL" "xp \<noteq> NULL" "is_tree m w A" "is_tree m w B"
    using W(2) w by (auto simp: tree_at_def)
  note bl = black_iff [OF l(5)] black_iff [OF l(6)]
  note tl = del_tail_def Let_def
  consider "black (col m) A" "black (col m) B" | B1 z B2 where "B = Node B1 z B2" "col m z = COLOR_RED"
    | A1 z A2 where "A = Node A1 z A2" "col m z = COLOR_RED" "black (col m) B"
    using cw(2,3) by (cases A; cases B) (auto simp: black_def split: if_splits)
  then show ?thesis
  proof cases
    case 1
    then show ?thesis using tail_recolor_left [OF inv [unfolded w] cw(1)] w by simp
  next
    case 2
    then have "del_tail True m root xp w = del_rotate True m root xp w"
      using l bl by (simp add: tl black_def)
    then show ?thesis
      using rotate_end_left [OF inv [unfolded w 2(1)] cw(1) 2(2)] w 2(1) del_step_mono [of m _ 0] by auto
  next
    case 3
    obtain m' root' where r: "helper_rotate_right (recolor (recolor m w COLOR_RED) z COLOR_BLACK) root w = Some (m', root')"
      "same_keys m m'" "rb_right (m' xp) = z" "col m' z = COLOR_BLACK" "col m' w = COLOR_RED"
      "del_inv m' root' t (InLeft xp (Node A1 z (Node A2 w B)) # k) n"
      using rotate_inner_left [OF inv [unfolded w 3(1)] cw(1) 3(2,3)] by blast
    have "z \<noteq> NULL" using l(5) 3(1) by auto
    then have "del_tail True m root xp w = del_rotate True m' root' xp z"
      using l bl 3 r(1,3) by (simp add: tl black_def rd_nonnull recolor_simps)
    moreover obtain res where "del_rotate True m' root' xp z = Some res"
      "del_step m' (inorder (plug t (InLeft xp (Node A1 z (Node A2 w B)) # k))) 0 res"
      using rotate_end_left [OF r(6,4,5)] by blast
    ultimately show ?thesis using w 3(1) del_step_trans [OF r(2)] del_step_mono [of m _ 0] by (auto simp: inorder_plug)
  qed
qed

text \<open>The sibling is red: a rotation gives the position a black sibling and a red parent.\<close>

lemma rotate_red_left:
  assumes inv: "del_inv m root t (InLeft xp (Node A w B) # k) n" and b: "col m w = COLOR_RED"
  shows "\<exists>m' root'. helper_rotate_left (recolor (recolor m w COLOR_BLACK) xp COLOR_RED) root xp = Some (m', root') \<and>
    same_keys m m' \<and> rb_right (m' xp) = ptr A \<and> col m' xp = COLOR_RED \<and> black (col m') A \<and>
    del_inv m' root' t (InLeft xp A # InLeft w B # k) n"
proof -
  let ?K = "InLeft xp (Node A w B) # k" let ?t = "Node t xp (Node A w B)"
  let ?K' = "InLeft xp A # InLeft w B # k" let ?t' = "Node (Node t xp A) w B"
  let ?m = "recolor (recolor m w COLOR_BLACK) xp COLOR_RED"
  have c: "black (col m) t" "rbt (col m) t n" "rbk (col m) ?K (Suc n)" using inv unfolding del_inv_def by blast+
  have at: "tree_at m root ?t k" using inv tree_at_cong [of t ?K ?t k] by (simp add: del_inv_def)
  note d = tree_at_distinct [OF at]
  have "tree_at ?m root ?t k" using at by (simp add: rb_mem_simps)
  then obtain m' root' where r: "helper_rotate_left ?m root xp = Some (m', root')" "tree_at m' root' ?t' k" "same_data ?m m'"
    using rotate_left_shape by blast
  have cm: "col m' = ((col m)(w := COLOR_BLACK))(xp := COLOR_RED)" using same_dataD(1) [OF r(3)] by (simp add: rb_mem_simps)
  have at': "tree_at m' root' t ?K'" using r(2) tree_at_cong [of t ?K' ?t' k] by simp
  have x: "rb_right (m' xp) = ptr A" using at' by (simp add: tree_at_def)
  have "rbk (col m') ?K' (Suc n)" "black (col m') t" "rbt (col m') t n" "black (col m') A" "col m' xp = COLOR_RED"
    unfolding cm using c b d by (auto simp: rb_mem_simps split: if_splits)
  moreover have "same_keys m m'" using same_dataD(2) [OF r(3)] by (simp add: same_keys_def rb_mem_simps)
  ultimately show ?thesis using r(1) x at' by (auto simp: del_inv_def)
qed

lemma step_left:
  assumes inv: "del_inv m root t (InLeft xp W # k) n"
  shows "\<exists>res. delete_rebalance_step m root x xp True = Some res \<and>
    del_step m (inorder (plug t (InLeft xp W # k))) (Suc (length k)) res"
proof -
  have W: "rbt (col m) W (Suc n)" "tree_at m root t (InLeft xp W # k)" using inv by (auto simp: del_inv_def)
  then have l: "xp \<noteq> NULL" "rb_right (m xp) = ptr W" "is_tree m xp W" by (auto simp: tree_at_def)
  show ?thesis
  proof (cases "black (col m) W")
    case True
    then have "delete_rebalance_step m root x xp True = del_tail True m root xp (ptr W)"
      using l by (simp add: delete_step_unfold rd_nonnull black_def col_def) (auto split: if_splits)
    moreover obtain res where "del_tail True m root xp (ptr W) = Some res"
      "del_step m (inorder (plug t (InLeft xp W # k))) (if col m xp = COLOR_BLACK then Suc (length k) else 0) res"
      using tail_left [OF inv True] by blast
    ultimately show ?thesis using del_step_mono [of m _ _ res "Suc (length k)"] by (auto split: if_splits)
  next
    case False
    then obtain A w B where w: "W = Node A w B" "col m w = COLOR_RED" "w \<noteq> NULL"
      using W(1) l(3) by (cases W) (auto simp: black_def split: if_splits)
    obtain m' root' where r: "helper_rotate_left (recolor (recolor m w COLOR_BLACK) xp COLOR_RED) root xp = Some (m', root')"
      "same_keys m m'" "rb_right (m' xp) = ptr A" "col m' xp = COLOR_RED" "black (col m') A"
      "del_inv m' root' t (InLeft xp A # InLeft w B # k) n"
      using rotate_red_left [OF inv [unfolded w(1)] w(2)] by blast
    have "delete_rebalance_step m root x xp True = del_tail True m' root' xp (ptr A)"
      using l w r(1,3) by (simp add: delete_step_unfold rd_nonnull recolor_simps col_def)
    moreover obtain res where "del_tail True m' root' xp (ptr A) = Some res"
      "del_step m' (inorder (plug t (InLeft xp A # InLeft w B # k))) 0 res"
      using tail_left [OF r(6,5)] r(4) by auto
    ultimately show ?thesis using w(1) del_step_trans [OF r(2)] del_step_mono [of m _ 0] by (auto simp: inorder_plug)
  qed
qed

text \<open>The same on the other side.\<close>

lemma tail_recolor_right:
  assumes inv: "del_inv m root t (InRight (Node B w A) xp # k) n"
    and b: "col m w = COLOR_BLACK" "black (col m) A" "black (col m) B"
  shows "\<exists>res. del_tail False m root xp w = Some res \<and> del_step m (inorder (plug t (InRight (Node B w A) xp # k)))
    (if col m xp = COLOR_BLACK then Suc (length k) else 0) res"
proof -
  let ?K = "InRight (Node B w A) xp # k" let ?t = "Node (Node B w A) xp t" let ?m = "recolor m w COLOR_RED"
  have c: "black (col m) t" "rbt (col m) t n" "rbk (col m) ?K (Suc n)" using inv unfolding del_inv_def by blast+
  have at: "tree_at m root ?t k" using inv tree_at_cong [of t ?K ?t k] by (simp add: del_inv_def)
  note d = tree_at_distinct [OF at] and p = tree_at_parts [OF at]
  have at': "tree_at ?m root ?t k" using at by (simp add: rb_mem_simps)
  have "is_black_or_null m (rb_right (m w))" "is_black_or_null m (rb_left (m w))" "w \<noteq> NULL"
    using p(5) b(2,3) black_iff by auto
  then have ev: "del_tail False m root xp w = Some (?m, root, xp, top k, on_left k)"
    using p(1,2) left_flag [OF at] by (simp add: del_tail_def rd_nonnull recolor_simps)
  have h: "rbt (col ?m) t n" "rbt (col ?m) (Node B w A) n"
    using c b d by (auto simp: rb_mem_simps)
  show ?thesis
  proof (cases "col m xp = COLOR_BLACK")
    case True
    then have "del_inv ?m root ?t k (Suc n)"
      using at' c h d by (auto simp: del_inv_def rb_mem_simps black_def)
    then have "del_step m (inorder (plug t ?K)) (Suc (length k)) (?m, root, xp, top k, on_left k)"
      unfolding del_step_def del_up_def prod.case recolor_simps
      by (intro conjI disjI2 exI [of _ ?t] exI [of _ k] exI [of _ "Suc n"]) auto
    then show ?thesis using ev True by simp
  next
    case False
    then have "col m xp = COLOR_RED" "rbk (col m) k (Suc n)" using c(3) by (auto split: if_splits)
    then have "del_done ?m root xp (inorder (plug ?t k))"
      using h d by (intro recolored_parent [OF at']) (auto simp: rb_mem_simps)
    then show ?thesis using ev by (auto simp: del_step_def recolor_simps)
  qed
qed

lemma rotate_end_right:
  assumes inv: "del_inv m root t (InRight (Node (Node B2 z B1) w A) xp # k) n"
    and b: "col m w = COLOR_BLACK" "col m z = COLOR_RED"
  shows "\<exists>res. del_rotate False m root xp w = Some res \<and>
    del_step m (inorder (plug t (InRight (Node (Node B2 z B1) w A) xp # k))) 0 res"
proof -
  let ?K = "InRight (Node (Node B2 z B1) w A) xp # k" let ?t = "Node (Node (Node B2 z B1) w A) xp t"
  let ?m = "recolor (recolor (recolor m w (col m xp)) xp COLOR_BLACK) z COLOR_BLACK"
  let ?t' = "Node (Node B2 z B1) w (Node A xp t)"
  have c: "black (col m) t" "rbt (col m) t n" "rbk (col m) ?K (Suc n)" using inv unfolding del_inv_def by blast+
  have at: "tree_at m root ?t k" using inv tree_at_cong [of t ?K ?t k] by (simp add: del_inv_def)
  note d = tree_at_distinct [OF at] and p = tree_at_parts [OF at]
  have "tree_at ?m root ?t k" using at by (simp add: rb_mem_simps)
  then obtain m' root' where r: "helper_rotate_right ?m root xp = Some (m', root')" "tree_at m' root' ?t' k" "same_data ?m m'"
    using rotate_right_shape by blast
  have ev: "del_rotate False m root xp w = Some (m', root', root', xp, False)"
    using p(1,3,5) r(1) by (simp add: del_rotate_def rd_nonnull recolor_simps col_def)
  have cm: "col m' = (((col m)(w := col m xp))(xp := COLOR_BLACK))(z := COLOR_BLACK)"
    using same_dataD(1) [OF r(3)] by (simp add: rb_mem_simps)
  have "k \<noteq> [] \<Longrightarrow> top k \<notin> {w, xp, z}" using top_in_ctx [of k] d by auto
  then have "rb_valid m' root' (plug ?t' k)"
    using r(2) c b d unfolding cm
    by (intro valid_plug [where n = "if col m xp = COLOR_BLACK then Suc (Suc n) else Suc n"])
      (auto simp: cm rb_mem_simps black_def split: if_splits)
  then have "del_done m' root' root' (inorder (plug ?t k))"
    by (rule del_done_valid) (auto simp: inorder_plug plug_Leaf)
  moreover have "same_keys m m'" using same_dataD(2) [OF r(3)] by (simp add: same_keys_def rb_mem_simps)
  ultimately show ?thesis using ev by (auto simp: del_step_def)
qed

lemma rotate_inner_right:
  assumes inv: "del_inv m root t (InRight (Node B w (Node A2 z A1)) xp # k) n"
    and b: "col m w = COLOR_BLACK" "col m z = COLOR_RED" "black (col m) B"
  shows "\<exists>m' root'. helper_rotate_left (recolor (recolor m w COLOR_RED) z COLOR_BLACK) root w = Some (m', root') \<and>
    same_keys m m' \<and> rb_left (m' xp) = z \<and> col m' z = COLOR_BLACK \<and> col m' w = COLOR_RED \<and>
    del_inv m' root' t (InRight (Node (Node B w A2) z A1) xp # k) n"
proof -
  let ?W = "Node B w (Node A2 z A1)" let ?W' = "Node (Node B w A2) z A1"
  let ?K = "InRight ?W xp # k" let ?K' = "InRight ?W' xp # k"
  let ?m = "recolor (recolor m w COLOR_RED) z COLOR_BLACK"
  have c: "black (col m) t" "rbt (col m) t n" "rbk (col m) ?K (Suc n)" using inv unfolding del_inv_def by blast+
  have at: "tree_at m root ?W (InLeft xp t # k)"
    using inv tree_at_cong [of t ?K ?W "InLeft xp t # k"] by (simp add: del_inv_def)
  note d = tree_at_distinct [OF at]
  have "tree_at ?m root ?W (InLeft xp t # k)" using at by (simp add: rb_mem_simps)
  then obtain m' root' where r: "helper_rotate_left ?m root w = Some (m', root')"
    "tree_at m' root' ?W' (InLeft xp t # k)" "same_data ?m m'"
    using rotate_left_shape by blast
  have cm: "col m' = ((col m)(w := COLOR_RED))(z := COLOR_BLACK)" using same_dataD(1) [OF r(3)] by (simp add: rb_mem_simps)
  have x: "rb_left (m' xp) = z" using r(2) by (simp add: tree_at_def)
  have at': "tree_at m' root' t ?K'" using r(2) tree_at_cong [of t ?K' ?W' "InLeft xp t # k"] by simp
  have "k \<noteq> [] \<Longrightarrow> top k \<notin> {w, xp, z}" using top_in_ctx [of k] d by auto
  then have "rbk (col m') ?K' (Suc n)" "black (col m') t" "rbt (col m') t n"
    unfolding cm using c b d by (auto simp: rb_mem_simps split: if_splits)
  then have "del_inv m' root' t ?K' n" using at' by (simp add: del_inv_def)
  moreover have "same_keys m m'" using same_dataD(2) [OF r(3)] by (simp add: same_keys_def rb_mem_simps)
  moreover have "col m' z = COLOR_BLACK" "col m' w = COLOR_RED" using cm d by auto
  ultimately show ?thesis using r(1) x by blast
qed

lemma tail_right:
  assumes inv: "del_inv m root t (InRight W xp # k) n" and b: "black (col m) W"
  shows "\<exists>res. del_tail False m root xp (ptr W) = Some res \<and>
    del_step m (inorder (plug t (InRight W xp # k))) (if col m xp = COLOR_BLACK then Suc (length k) else 0) res"
proof -
  have W: "rbt (col m) W (Suc n)" "tree_at m root t (InRight W xp # k)" using inv by (auto simp: del_inv_def)
  obtain A w B where w: "W = Node B w A" using W(1) by (cases W) auto
  have cw: "col m w = COLOR_BLACK" "rbt (col m) A n" "rbt (col m) B n"
    using W(1) b w by (auto simp: black_def)
  have l: "rb_right (m w) = ptr A" "rb_left (m w) = ptr B" "w \<noteq> NULL" "xp \<noteq> NULL" "is_tree m w A" "is_tree m w B"
    using W(2) w by (auto simp: tree_at_def)
  note bl = black_iff [OF l(5)] black_iff [OF l(6)]
  note tl = del_tail_def Let_def
  consider "black (col m) A" "black (col m) B" | B1 z B2 where "B = Node B2 z B1" "col m z = COLOR_RED"
    | A1 z A2 where "A = Node A2 z A1" "col m z = COLOR_RED" "black (col m) B"
    using cw(2,3) by (cases A; cases B) (auto simp: black_def split: if_splits)
  then show ?thesis
  proof cases
    case 1
    then show ?thesis using tail_recolor_right [OF inv [unfolded w] cw(1)] w by simp
  next
    case 2
    then have "del_tail False m root xp w = del_rotate False m root xp w"
      using l bl by (simp add: tl black_def)
    then show ?thesis
      using rotate_end_right [OF inv [unfolded w 2(1)] cw(1) 2(2)] w 2(1) del_step_mono [of m _ 0] by auto
  next
    case 3
    obtain m' root' where r: "helper_rotate_left (recolor (recolor m w COLOR_RED) z COLOR_BLACK) root w = Some (m', root')"
      "same_keys m m'" "rb_left (m' xp) = z" "col m' z = COLOR_BLACK" "col m' w = COLOR_RED"
      "del_inv m' root' t (InRight (Node (Node B w A2) z A1) xp # k) n"
      using rotate_inner_right [OF inv [unfolded w 3(1)] cw(1) 3(2,3)] by blast
    have "z \<noteq> NULL" using l(5) 3(1) by auto
    then have "del_tail False m root xp w = del_rotate False m' root' xp z"
      using l bl 3 r(1,3) by (simp add: tl black_def rd_nonnull recolor_simps)
    moreover obtain res where "del_rotate False m' root' xp z = Some res"
      "del_step m' (inorder (plug t (InRight (Node (Node B w A2) z A1) xp # k))) 0 res"
      using rotate_end_right [OF r(6,4,5)] by blast
    ultimately show ?thesis using w 3(1) del_step_trans [OF r(2)] del_step_mono [of m _ 0] by (auto simp: inorder_plug)
  qed
qed

lemma rotate_red_right:
  assumes inv: "del_inv m root t (InRight (Node B w A) xp # k) n" and b: "col m w = COLOR_RED"
  shows "\<exists>m' root'. helper_rotate_right (recolor (recolor m w COLOR_BLACK) xp COLOR_RED) root xp = Some (m', root') \<and>
    same_keys m m' \<and> rb_left (m' xp) = ptr A \<and> col m' xp = COLOR_RED \<and> black (col m') A \<and>
    del_inv m' root' t (InRight A xp # InRight B w # k) n"
proof -
  let ?K = "InRight (Node B w A) xp # k" let ?t = "Node (Node B w A) xp t"
  let ?K' = "InRight A xp # InRight B w # k" let ?t' = "Node B w (Node A xp t)"
  let ?m = "recolor (recolor m w COLOR_BLACK) xp COLOR_RED"
  have c: "black (col m) t" "rbt (col m) t n" "rbk (col m) ?K (Suc n)" using inv unfolding del_inv_def by blast+
  have at: "tree_at m root ?t k" using inv tree_at_cong [of t ?K ?t k] by (simp add: del_inv_def)
  note d = tree_at_distinct [OF at]
  have "tree_at ?m root ?t k" using at by (simp add: rb_mem_simps)
  then obtain m' root' where r: "helper_rotate_right ?m root xp = Some (m', root')" "tree_at m' root' ?t' k" "same_data ?m m'"
    using rotate_right_shape by blast
  have cm: "col m' = ((col m)(w := COLOR_BLACK))(xp := COLOR_RED)" using same_dataD(1) [OF r(3)] by (simp add: rb_mem_simps)
  have at': "tree_at m' root' t ?K'" using r(2) tree_at_cong [of t ?K' ?t' k] by simp
  have x: "rb_left (m' xp) = ptr A" using at' by (simp add: tree_at_def)
  have "rbk (col m') ?K' (Suc n)" "black (col m') t" "rbt (col m') t n" "black (col m') A" "col m' xp = COLOR_RED"
    unfolding cm using c b d by (auto simp: rb_mem_simps split: if_splits)
  moreover have "same_keys m m'" using same_dataD(2) [OF r(3)] by (simp add: same_keys_def rb_mem_simps)
  ultimately show ?thesis using r(1) x at' by (auto simp: del_inv_def)
qed

lemma step_right:
  assumes inv: "del_inv m root t (InRight W xp # k) n"
  shows "\<exists>res. delete_rebalance_step m root x xp False = Some res \<and>
    del_step m (inorder (plug t (InRight W xp # k))) (Suc (length k)) res"
proof -
  have W: "rbt (col m) W (Suc n)" "tree_at m root t (InRight W xp # k)" using inv by (auto simp: del_inv_def)
  then have l: "xp \<noteq> NULL" "rb_left (m xp) = ptr W" "is_tree m xp W" by (auto simp: tree_at_def)
  show ?thesis
  proof (cases "black (col m) W")
    case True
    then have "delete_rebalance_step m root x xp False = del_tail False m root xp (ptr W)"
      using l by (simp add: delete_step_unfold rd_nonnull black_def col_def) (auto split: if_splits)
    moreover obtain res where "del_tail False m root xp (ptr W) = Some res"
      "del_step m (inorder (plug t (InRight W xp # k))) (if col m xp = COLOR_BLACK then Suc (length k) else 0) res"
      using tail_right [OF inv True] by blast
    ultimately show ?thesis using del_step_mono [of m _ _ res "Suc (length k)"] by (auto split: if_splits)
  next
    case False
    then obtain A w B where w: "W = Node B w A" "col m w = COLOR_RED" "w \<noteq> NULL"
      using W(1) l(3) by (cases W) (auto simp: black_def split: if_splits)
    obtain m' root' where r: "helper_rotate_right (recolor (recolor m w COLOR_BLACK) xp COLOR_RED) root xp = Some (m', root')"
      "same_keys m m'" "rb_left (m' xp) = ptr A" "col m' xp = COLOR_RED" "black (col m') A"
      "del_inv m' root' t (InRight A xp # InRight B w # k) n"
      using rotate_red_right [OF inv [unfolded w(1)] w(2)] by blast
    have "delete_rebalance_step m root x xp False = del_tail False m' root' xp (ptr A)"
      using l w r(1,3) by (simp add: delete_step_unfold rd_nonnull recolor_simps col_def)
    moreover obtain res where "del_tail False m' root' xp (ptr A) = Some res"
      "del_step m' (inorder (plug t (InRight A xp # InRight B w # k))) 0 res"
      using tail_right [OF r(6,5)] r(4) by auto
    ultimately show ?thesis using w(1) del_step_trans [OF r(2)] del_step_mono [of m _ 0] by (auto simp: inorder_plug)
  qed
qed

subsection \<open>The loop\<close>

lemma delete_step:
  assumes inv: "del_inv m root t k n" and k: "k \<noteq> []"
  shows "\<exists>res. delete_rebalance_step m root x (top k) (on_left k) = Some res \<and>
    del_step m (inorder (plug t k)) (length k) res"
  using step_left [of m root t _ _ "tl k" n x] step_right [of m root t _ _ "tl k" n x] inv k
  by (cases k rule: top.cases) (auto simp: on_left_def)

lemma not_root: "tree_at m root t k \<Longrightarrow> k \<noteq> [] \<Longrightarrow> ptr t \<noteq> root"
proof -
  assume at: "tree_at m root t k" and k: "k \<noteq> []"
  show ?thesis
  proof (cases "t = Leaf")
    case True
    have "root \<noteq> NULL" using at k ptr_NULL_iff [of m NULL "plug t k"] plug_Leaf [of t k] by (auto simp: tree_at_iff)
    then show ?thesis using True by simp
  next
    case False
    then show ?thesis using tree_at_root [OF at False] k by auto
  qed
qed

lemma delete_loop_stop:
  "x = root \<or> x \<noteq> NULL \<and> col m x = COLOR_RED \<Longrightarrow> delete_rebalance_loop m root x xp l = Some (m, root, x)"
  by (subst delete_rebalance_loop.simps) (auto simp: is_black_or_null_def col_def)

lemma delete_loop:
  "del_inv m root t k n \<Longrightarrow>
   \<exists>m' root' x. delete_rebalance_loop m root (ptr t) (top k) (on_left k) = Some (m', root', x) \<and>
     del_done m' root' x (inorder (plug t k)) \<and> same_keys m m'"
proof (induction "length k" arbitrary: m root t k n rule: less_induct)
  case less
  have at: "tree_at m root t k" and c: "black (col m) t" "rbt (col m) t n" using less.prems by (auto simp: del_inv_def)
  show ?case
  proof (cases "k = []")
    case True
    then have root: "ptr t = root" and v: "rb_valid m root t"
      using at c by (auto simp: tree_at_def rb_valid_def)
    then have "del_done m root root (inorder t)"
      using del_done_valid [OF v refl] by (cases "t = Leaf") (auto simp: del_done_def intro!: exI [of _ Leaf])
    then show ?thesis using delete_loop_stop [of "ptr t" root m] True root by auto
  next
    case False
    obtain m1 root1 x1 xp1 l1 where s: "delete_rebalance_step m root (ptr t) (top k) (on_left k) = Some (m1, root1, x1, xp1, l1)"
      "same_keys m m1" "del_done m1 root1 x1 (inorder (plug t k)) \<or> del_up m1 root1 x1 xp1 l1 (inorder (plug t k)) (length k)"
      using delete_step [OF less.prems False, of "ptr t"] by (auto simp: del_step_def)
    have "is_black_or_null m (ptr t)" using black_iff [of m "top k" t] at c(1) by (simp add: tree_at_def)
    then have go: "delete_rebalance_loop m root (ptr t) (top k) (on_left k) = delete_rebalance_loop m1 root1 x1 xp1 l1"
      using s(1) not_root [OF at False] by (subst delete_rebalance_loop.simps) simp
    from s(3) show ?thesis
    proof
      assume d: "del_done m1 root1 x1 (inorder (plug t k))"
      then have "delete_rebalance_loop m1 root1 x1 xp1 l1 = Some (m1, root1, x1)"
        by (intro delete_loop_stop) (simp add: del_done_def)
      then show ?thesis using go d s(2) by auto
    next
      assume "del_up m1 root1 x1 xp1 l1 (inorder (plug t k)) (length k)"
      then obtain t1 k1 n1 where u: "x1 = ptr t1" "xp1 = top k1" "l1 = on_left k1" "del_inv m1 root1 t1 k1 n1"
        "inorder (plug t1 k1) = inorder (plug t k)" "length k1 < length k"
        unfolding del_up_def by blast
      then show ?thesis using less.hyps [OF u(6,4)] go same_keys_trans [OF s(2)] by auto
    qed
  qed
qed

text \<open>A subtree whose black height is one short, or would be, is repaired.\<close>

lemma delete_rebalance_valid:
  assumes at: "tree_at m root C k" and c: "rbt (col m) C n" "rbk (col m) k (Suc n)"
  shows "\<exists>m' root' T. helper_rb_tree_delete_rebalance m root (ptr C) (top k) (on_left k) = Some (m', root') \<and>
    rb_valid m' root' T \<and> inorder T = inorder (plug C k) \<and> same_keys m m'"
proof -
  obtain m1 root1 x where l: "delete_rebalance_loop m root (ptr C) (top k) (on_left k) = Some (m1, root1, x)"
    "del_done m1 root1 x (inorder (plug C k))" "same_keys m m1"
  proof (cases "black (col m) C")
    case True
    then show ?thesis using delete_loop [of m root C k n] at c that by (auto simp: del_inv_def)
  next
    case False
    then obtain l a r where C: "C = Node l a r" "col m a = COLOR_RED" "rbt (col m) l n" "rbt (col m) r n"
      using c(1) by (cases C) (auto split: if_splits)
    have "a \<noteq> NULL" using at C(1) by (simp add: tree_at_def)
    then show ?thesis
      using that [of m root a] recolored_parent [OF at [unfolded C(1)] C(3,4) c(2) C(2)] delete_loop_stop [of a root m] C(1,2) by simp
  qed
  then obtain T where T: "inorder T = inorder (plug C k)" "rb_valid (if x = NULL then m1 else recolor m1 x COLOR_BLACK) root1 T"
    by (auto simp: del_done_def)
  have "helper_rb_tree_delete_rebalance m root (ptr C) (top k) (on_left k) =
      Some (if x = NULL then m1 else recolor m1 x COLOR_BLACK, root1)"
    using l(1) by (simp add: helper_rb_tree_delete_rebalance_def recolor_simps)
  then show ?thesis using T l(3) by (auto simp: recolor_simps)
qed

subsection \<open>Splicing a node out\<close>

definition set_parent :: "rb_mem \<Rightarrow> addr \<Rightarrow> addr \<Rightarrow> rb_mem" where
  "set_parent m a p = (if a = NULL then m else m(a := (m a)\<lparr>rb_parent := p\<rparr>))"

definition spliced :: "rb_mem \<Rightarrow> ctx \<Rightarrow> addr \<Rightarrow> rb_mem" where
  "spliced m k a = (let m = set_parent m a (top k) in if k = [] then m else link m k a)"

lemma spliced_data: "col (spliced m k a) = col m" "same_keys m (spliced m k a)"
  by (auto simp: spliced_def set_parent_def Let_def link_def col_def same_keys_def fun_eq_iff split: frame.split)

lemma spliced_other: "b \<noteq> a \<Longrightarrow> b \<noteq> top k \<Longrightarrow> spliced m k a b = m b"
  by (simp add: spliced_def set_parent_def Let_def link_def)

lemma splice_shape:
  assumes at: "tree_at m root (Node l y r) k" and one: "l = Leaf \<or> r = Leaf"
  defines "C \<equiv> (if l \<noteq> Leaf then l else r)"
  shows "tree_at (spliced m k (ptr C)) (if k = [] then ptr C else root) C k" "spliced m k (ptr C) y = m y"
proof -
  let ?m = "spliced m k (ptr C)"
  note p = tree_at_parts [OF at] and d = tree_at_distinct [OF at] and nn = tree_at_nonnull [OF at]
  have tk: "k \<noteq> [] \<Longrightarrow> top k \<in> set (before k) \<union> set (after k)" by (rule top_in_ctx)
  have t0: "k = [] \<Longrightarrow> top k = NULL" by simp
  have C: "set_tree C = set_tree l \<union> set_tree r" "inorder C = inorder l @ inorder r" "is_tree m y C"
    using one p(5,6) by (auto simp: C_def)
  have dC: "distinct (inorder C)" using d by (auto simp: C(2))
  have pC: "C \<noteq> Leaf \<Longrightarrow> ptr C \<in> set_tree C \<and> ptr C \<noteq> NULL" using C(3) by (cases C) auto
  have sep: "y \<notin> set_tree C" "set_tree C \<inter> (set (before k) \<union> set (after k)) = {}" "y \<notin> set (before k) \<union> set (after k)"
    using d C(1) by auto
  have nC: "NULL \<notin> set (before k) \<union> set (after k)" using nn by auto
  have tC: "top k \<notin> set_tree C" using tk t0 sep nn C(1) by (cases "k = []") auto
  have "ptr C \<noteq> y" "top k \<noteq> y" using sep pC p(1) tk t0 by (cases "C = Leaf"; cases "k = []"; auto)+
  then show "?m y = m y" by (intro spliced_other) auto
  have keep: "is_tree ?m q u = is_tree m q u" if "set_tree u \<inter> {ptr C, top k} = {}" for q u
  proof (rule is_tree_cong)
    fix a assume "a \<in> set_tree u"
    then have "?m a = m a" using that by (intro spliced_other) auto
    then show "same_links m ?m a" by (simp add: same_links_def)
  qed
  have keepk: "is_ctx ?m f u = is_ctx m f u" if "(set (before u) \<union> set (after u)) \<inter> {ptr C, top k} = {}" for f u
  proof (rule is_ctx_cong)
    fix a assume "a \<in> set (before u) \<union> set (after u)"
    then have "?m a = m a" using that by (intro spliced_other) auto
    then show "same_links m ?m a" by (simp add: same_links_def)
  qed
  have tree: "is_tree ?m (top k) C"
  proof (cases C)
    case (Node C1 c C2)
    have "c \<noteq> top k" "k \<noteq> [] \<longrightarrow> top k \<noteq> c" using tC Node by auto
    then have "?m c = (m c)\<lparr>rb_parent := top k\<rparr>"
      using Node pC by (auto simp: spliced_def set_parent_def Let_def link_def)
    moreover have "is_tree ?m c C1 = is_tree m c C1" "is_tree ?m c C2 = is_tree m c C2"
      using Node tC dC by (intro keep; auto)+
    ultimately show ?thesis using Node C(3) by auto
  qed simp
  have ctx: "is_ctx ?m (ptr C) k"
  proof (cases k rule: top.cases)
    case (2 q u k2)
    have q: "q \<noteq> ptr C" "q \<noteq> NULL" using 2 sep pC nC by (cases "C = Leaf"; auto)+
    then have "?m q = (m q)\<lparr>rb_left := ptr C\<rparr>" using 2 by (simp add: spliced_def set_parent_def Let_def link_def)
    moreover have "is_tree ?m q u = is_tree m q u" "is_ctx ?m q k2 = is_ctx m q k2"
      using 2 d sep pC nC by (intro keep keepk; cases "C = Leaf"; auto)+
    ultimately show ?thesis using 2 p(7) by auto
  next
    case (3 u q k2)
    have q: "q \<noteq> ptr C" "q \<noteq> NULL" using 3 sep pC nC by (cases "C = Leaf"; auto)+
    then have "?m q = (m q)\<lparr>rb_right := ptr C\<rparr>" using 3 by (simp add: spliced_def set_parent_def Let_def link_def)
    moreover have "is_tree ?m q u = is_tree m q u" "is_ctx ?m q k2 = is_ctx m q k2"
      using 3 d sep pC nC by (intro keep keepk; cases "C = Leaf"; auto)+
    ultimately show ?thesis using 3 p(7) by auto
  qed simp
  have "root = ptr (plug (Node l y r) k)" using at by (simp add: tree_at_def)
  then have "(if k = [] then ptr C else root) = ptr (plug C k)" using ptr_plug [of k C "Node l y r"] by simp
  then show "tree_at ?m (if k = [] then ptr C else root) C k"
    using tree ctx d C(2) by (auto simp: tree_at_def inorder_plug)
qed

subsection \<open>Putting a node in the place of another one\<close>

definition set_child :: "rb_mem \<Rightarrow> addr \<Rightarrow> addr \<Rightarrow> addr \<Rightarrow> rb_mem" where
  "set_child m p x y = (if p = NULL then m
     else m(p := if rb_left (m p) = x then (m p)\<lparr>rb_left := y\<rparr> else (m p)\<lparr>rb_right := y\<rparr>))"

lemma set_parent_apply: "set_parent m a b c = (if c = a \<and> a \<noteq> NULL then (m c)\<lparr>rb_parent := b\<rparr> else m c)"
  by (simp add: set_parent_def)

lemma set_child_apply:
  "set_child m p x y c = (if c = p \<and> p \<noteq> NULL then if rb_left (m p) = x then (m p)\<lparr>rb_left := y\<rparr> else (m p)\<lparr>rb_right := y\<rparr> else m c)"
  by (simp add: set_child_def)

lemma swap_fields:
  assumes "x \<noteq> NULL" "y \<noteq> NULL" "x \<noteq> y" "rb_parent (m x) = p" "rb_left (m x) = l" "rb_right (m x) = r"
    and "p \<notin> {x, y}" "l \<notin> {x, y}" "r \<notin> {x, y}" "p = l \<longrightarrow> p = NULL" "p = r \<longrightarrow> p = NULL" "l = r \<longrightarrow> l = NULL"
  obtains m' where "helper_rb_tree_swap_node m root x y = Some (m', if p = NULL \<and> root = x then y else root)"
    "\<And>a. a \<notin> {x, y, p, l, r} \<Longrightarrow> m' a = m a"
    "rb_parent (m' y) = p" "rb_left (m' y) = l" "rb_right (m' y) = r"
    "l \<noteq> NULL \<Longrightarrow> m' l = (m l)\<lparr>rb_parent := y\<rparr>" "r \<noteq> NULL \<Longrightarrow> m' r = (m r)\<lparr>rb_parent := y\<rparr>"
    "p \<noteq> NULL \<Longrightarrow> m' p = (if rb_left (m p) = x then (m p)\<lparr>rb_left := y\<rparr> else (m p)\<lparr>rb_right := y\<rparr>)"
    "col m' = (col m)(y := col m x)" "same_keys m m'"
proof -
  define m1 where "m1 = m(y := (m y)\<lparr>rb_parent := p\<rparr>)"
  define m2 where "m2 = set_child m1 p x y"
  define m3 where "m3 = set_parent (m2(y := (m2 y)\<lparr>rb_right := r\<rparr>)) r y"
  define m4 where "m4 = m3(x := (m3 x)\<lparr>rb_right := NULL\<rparr>)"
  define m5 where "m5 = set_parent (m4(y := (m4 y)\<lparr>rb_left := l\<rparr>)) l y"
  define m6 where "m6 = m5(x := (m5 x)\<lparr>rb_left := NULL\<rparr>)"
  define m7 where "m7 = m6(y := (m6 y)\<lparr>rb_color := rb_color (m6 x)\<rparr>)"
  define m8 where "m8 = m7(x := (m7 x)\<lparr>rb_parent := NULL\<rparr>)"
  note defs = m8_def m7_def m6_def m5_def m4_def m3_def m2_def m1_def set_child_apply set_parent_apply
  have ne: "x \<noteq> y" "y \<noteq> x" "p \<noteq> x" "p \<noteq> y" "l \<noteq> x" "l \<noteq> y" "r \<noteq> x" "r \<noteq> y" "x \<noteq> p" "y \<noteq> p" "x \<noteq> l" "y \<noteq> l" "x \<noteq> r" "y \<noteq> r"
    using assms(3,7-9) by auto
  have nl: "p \<noteq> l" "l \<noteq> p" "l \<noteq> r" "r \<noteq> l" if "l \<noteq> NULL" using that assms(10,12) by auto
  have nr: "p \<noteq> r" "r \<noteq> p" if "r \<noteq> NULL" using that assms(11) by auto
  have np: "p \<noteq> l" "l \<noteq> p" "p \<noteq> r" "r \<noteq> p" if "p \<noteq> NULL" using that assms(10,11) by auto
  have sp: "(if a \<noteq> NULL then wr_parent n a b else Some n) = Some (set_parent n a b)" for n a b
    by (simp add: set_parent_def rb_mem_simps)
  have sc: "(if p \<noteq> NULL then do { l \<leftarrow> rd_left m1 p; m \<leftarrow> (if l = x then wr_left m1 p y else wr_right m1 p y); Some (m, root) }
      else Some (m1, if root = x then y else root)) = Some (m2, if p = NULL \<and> root = x then y else root)"
    by (auto simp: m2_def set_child_def rb_mem_simps)
  have r: "rd_left m x = Some l" "rd_right m x = Some r" "rd_parent m x = Some p" "wr_parent m y p = Some m1"
    "wr_right m2 y r = Some (m2(y := (m2 y)\<lparr>rb_right := r\<rparr>))" "wr_right m3 x NULL = Some m4"
    "wr_left m4 y l = Some (m4(y := (m4 y)\<lparr>rb_left := l\<rparr>))" "wr_left m5 x NULL = Some m6" "rd_color m6 x = Some (rb_color (m6 x))"
    "wr_color m6 y (rb_color (m6 x)) = Some m7" "wr_parent m7 x NULL = Some m8"
    using assms(1,2,4-6) by (simp_all add: rb_mem_simps m1_def m4_def m6_def m7_def m8_def)
  have run: "helper_rb_tree_swap_node m root x y = Some (m8, if p = NULL \<and> root = x then y else root)"
    unfolding helper_rb_tree_swap_node_def
    by (simp only: r sp sc bind.bind_lunit prod.case m3_def [symmetric] m5_def [symmetric])
  show ?thesis
  proof (rule that [OF run])
    show "m8 a = m a" if "a \<notin> {x, y, p, l, r}" for a using that by (simp add: defs)
    show "rb_parent (m8 y) = p" "rb_left (m8 y) = l" "rb_right (m8 y) = r" using ne by (simp_all add: defs)
    show "m8 l = (m l)\<lparr>rb_parent := y\<rparr>" if "l \<noteq> NULL" using that ne nl by (simp add: defs)
    show "m8 r = (m r)\<lparr>rb_parent := y\<rparr>" if "r \<noteq> NULL" using that ne nr nl by (cases "l = NULL") (simp_all add: defs)
    show "m8 p = (if rb_left (m p) = x then (m p)\<lparr>rb_left := y\<rparr> else (m p)\<lparr>rb_right := y\<rparr>)" if "p \<noteq> NULL"
      using that ne np by (simp add: defs)
    have sc1: "col (set_parent n a b) = col n" "same_keys n (set_parent n a b)" "col (set_child n q a b) = col n" "same_keys n (set_child n q a b)" for n a b q
      by (auto simp: set_parent_def set_child_def col_def same_keys_def fun_eq_iff)
    have "col m6 = col m" using sc1 by (simp add: m6_def m5_def m4_def m3_def m2_def m1_def col_def fun_eq_iff)
    then show "col m8 = (col m)(y := col m x)" by (auto simp: m8_def m7_def col_def fun_eq_iff)
    show "same_keys m m8" using sc1 by (simp add: m8_def m7_def m6_def m5_def m4_def m3_def m2_def m1_def same_keys_def)
  qed
qed

lemma swap_shape:
  assumes at: "tree_at m root (Node L x R) k" and y: "y \<noteq> NULL" "y \<notin> set (before k) \<union> set_tree (Node L x R) \<union> set (after k)"
  shows "\<exists>m' root'. helper_rb_tree_swap_node m root x y = Some (m', root') \<and> tree_at m' root' (Node L y R) k \<and>
    col m' = (col m)(y := col m x) \<and> same_keys m m'"
proof -
  note p = tree_at_parts [OF at] and d = tree_at_distinct [OF at] and nn = tree_at_nonnull [OF at]
  have tk: "k \<noteq> [] \<Longrightarrow> top k \<in> set (before k) \<union> set (after k)" "k = [] \<Longrightarrow> top k = NULL"
    using top_in_ctx by simp_all
  have L: "L \<noteq> Leaf \<Longrightarrow> ptr L \<in> set_tree L" and R: "R \<noteq> Leaf \<Longrightarrow> ptr R \<in> set_tree R" by (cases L; simp) (cases R; simp)
  have root: "root = ptr (plug (Node L x R) k)" using at by (simp add: tree_at_def)
  have t0: "top k = NULL \<longleftrightarrow> k = []" using tk nn by (cases "k = []") auto
  have ne: "top k \<notin> {x, y}" "ptr L \<notin> {x, y}" "ptr R \<notin> {x, y}" "top k = ptr L \<longrightarrow> top k = NULL"
    "top k = ptr R \<longrightarrow> top k = NULL" "ptr L = ptr R \<longrightarrow> ptr L = NULL" "x \<noteq> y" "x \<noteq> NULL"
    using d nn y tk L R p(1) by (cases "k = []"; cases "L = Leaf"; cases "R = Leaf"; auto)+
  obtain m' where m': "helper_rb_tree_swap_node m root x y = Some (m', if top k = NULL \<and> root = x then y else root)"
    "\<And>a. a \<notin> {x, y, top k, ptr L, ptr R} \<Longrightarrow> m' a = m a"
    "rb_parent (m' y) = top k" "rb_left (m' y) = ptr L" "rb_right (m' y) = ptr R"
    "ptr L \<noteq> NULL \<Longrightarrow> m' (ptr L) = (m (ptr L))\<lparr>rb_parent := y\<rparr>" "ptr R \<noteq> NULL \<Longrightarrow> m' (ptr R) = (m (ptr R))\<lparr>rb_parent := y\<rparr>"
    "top k \<noteq> NULL \<Longrightarrow> m' (top k) = (if rb_left (m (top k)) = x then (m (top k))\<lparr>rb_left := y\<rparr> else (m (top k))\<lparr>rb_right := y\<rparr>)"
    "col m' = (col m)(y := col m x)" "same_keys m m'"
    using swap_fields [of x y m "top k" "ptr L" "ptr R" root, OF ne(8) y(1) ne(7) p(2,3,4) ne(1-6)] by blast
  have keep: "is_tree m' q u = is_tree m q u" if "set_tree u \<inter> {x, y, top k, ptr L, ptr R} = {}" for q u
  proof (rule is_tree_cong)
    fix a assume "a \<in> set_tree u"
    then have "m' a = m a" using that by (intro m'(2)) auto
    then show "same_links m m' a" by (simp add: same_links_def)
  qed
  have keepk: "is_ctx m' f u = is_ctx m f u" if "(set (before u) \<union> set (after u)) \<inter> {x, y, top k, ptr L, ptr R} = {}" for f u
  proof (rule is_ctx_cong)
    fix a assume "a \<in> set (before u) \<union> set (after u)"
    then have "m' a = m a" using that by (intro m'(2)) auto
    then show "same_links m m' a" by (simp add: same_links_def)
  qed
  have sep: "top k \<notin> set_tree L" "top k \<notin> set_tree R" "ptr R \<notin> set_tree L" "ptr L \<notin> set_tree R" "distinct (inorder L)" "distinct (inorder R)"
    "x \<notin> set_tree L" "x \<notin> set_tree R" "y \<notin> set_tree L" "y \<notin> set_tree R"
    using d nn y tk L R by (cases "k = []"; cases "L = Leaf"; cases "R = Leaf"; auto)+
  have tL: "is_tree m' y L"
  proof (cases L)
    case (Node A a B)
    then have "is_tree m' a A = is_tree m a A" "is_tree m' a B = is_tree m a B" using sep by (intro keep; auto)+
    then show ?thesis using Node p(5) m'(6) by auto
  qed simp
  have tR: "is_tree m' y R"
  proof (cases R)
    case (Node A a B)
    then have "is_tree m' a A = is_tree m a A" "is_tree m' a B = is_tree m a B" using sep by (intro keep; auto)+
    then show ?thesis using Node p(6) m'(7) by auto
  qed simp
  have pk: "ptr L \<notin> set (before k) \<union> set (after k)" "ptr R \<notin> set (before k) \<union> set (after k)"
    using d nn L R by (cases "L = Leaf"; cases "R = Leaf"; auto)+
  have ctx: "is_ctx m' y k"
  proof (cases k rule: top.cases)
    case (2 q u k2)
    then have "is_tree m' q u = is_tree m q u" "is_ctx m' q k2 = is_ctx m q k2"
      using d y pk by (intro keep keepk; auto)+
    then show ?thesis using 2 p(7) m'(8) by auto
  next
    case (3 u q k2)
    then have "is_tree m' q u = is_tree m q u" "is_ctx m' q k2 = is_ctx m q k2"
      using d y pk by (intro keep keepk; auto)+
    moreover have "x \<noteq> ptr u" using 3 d nn by (cases u) auto
    ultimately show ?thesis using 3 p(7) m'(8) by auto
  qed simp
  have "(if top k = NULL \<and> root = x then y else root) = ptr (plug (Node L y R) k)"
    using root t0 ptr_plug [of k "Node L x R" "Node L y R"] by (cases "k = []") auto
  moreover have "distinct (inorder (plug (Node L y R) k))" using d y by (auto simp: inorder_plug)
  ultimately have "tree_at m' (if top k = NULL \<and> root = x then y else root) (Node L y R) k"
    using m'(3-5) tL tR ctx y(1) by (auto simp: tree_at_def)
  then show ?thesis using m'(1,9,10) by blast
qed

lemma rbk_rename:
  assumes "\<And>a. a \<in> set (before kr) \<union> set (after kr) \<union> set_tree l \<union> set (before k) \<union> set (after k) \<Longrightarrow> c' a = c a" "c' y = c x"
    and "rbk c (kr @ InRight l x # k) n"
  shows "rbk c' (kr @ InRight l y # k) n"
  using assms
proof (induction kr arbitrary: n)
  case Nil
  have "rbt c' l i = rbt c l i" "black c' l = black c l" "rbk c' k i = rbk c k i" for i
    using Nil.prems(1) by (intro rbt_cong black_cong rbk_cong; simp)+
  moreover have "k \<noteq> [] \<Longrightarrow> c' (top k) = c (top k)" using Nil.prems(1) top_in_ctx [of k] by auto
  ultimately show ?case using Nil.prems(2,3) by (auto split: if_splits)
next
  case (Cons f kr)
  have ih: "rbk c (kr @ InRight l x # k) i \<Longrightarrow> rbk c' (kr @ InRight l y # k) i" for i
    using Cons.prems(1,2) by (intro Cons.IH) (cases f; auto)+
  have tp: "c' (top (kr @ InRight l y # k)) = c (top (kr @ InRight l x # k))"
  proof (cases "kr = []")
    case False
    then show ?thesis using Cons.prems(1) top_in_ctx [OF False] by (cases f; auto simp: top_append)
  qed (use Cons.prems(2) in simp)
  show ?case
  proof (cases f)
    case (InLeft a r)
    then have "rbt c' r i = rbt c r i" "black c' r = black c r" for i
      using Cons.prems(1) by (intro rbt_cong black_cong; simp)+
    moreover have "c' a = c a" using Cons.prems(1) InLeft by simp
    ultimately show ?thesis using Cons.prems(3) ih tp InLeft by (auto split: if_splits)
  next
    case (InRight r a)
    then have "rbt c' r i = rbt c r i" "black c' r = black c r" for i
      using Cons.prems(1) by (intro rbt_cong black_cong; simp)+
    moreover have "c' a = c a" using Cons.prems(1) InRight by simp
    ultimately show ?thesis using Cons.prems(3) ih tp InRight by (auto split: if_splits)
  qed
qed

lemma leftmost:
  assumes "R \<noteq> Leaf"
  obtains y yr kr where "R = plug (Node Leaf y yr) kr" "before kr = []" "hd (inorder R) = y"
proof -
  have "\<exists>y yr kr. R = plug (Node Leaf y yr) kr \<and> before kr = [] \<and> hd (inorder R) = y"
    using assms
  proof (induction R)
    case (Node l a r)
    show ?case
    proof (cases "l = Leaf")
      case True
      then show ?thesis by (intro exI [of _ a] exI [of _ r] exI [of _ "[]"]) simp
    next
      case False
      then obtain y yr kr where "l = plug (Node Leaf y yr) kr" "before kr = []" "hd (inorder l) = y"
        using Node.IH(1) by blast
      then show ?thesis using False
        by (intro exI [of _ y] exI [of _ yr] exI [of _ "kr @ [InLeft a r]"]) (simp add: plug_append before_append)
    qed
  qed simp
  then show ?thesis using that by blast
qed

end
