(* ===== verification/RBTree_Remove.thy ===== *)
theory RBTree_Remove
  imports RBTree_Delete
begin

section \<open>Red-black trees: the removal operation\<close>

text \<open>
  \<open>rb_tree_remove\<close> removes the node from the ordered list that the tree represents, keeps the tree balanced, keeps the
  pointer to the last node, and clears the links of the removed node.
\<close>

subsection \<open>The code up to the rebalancing\<close>

definition only_child :: "addr tree \<Rightarrow> addr tree \<Rightarrow> addr tree" where
  "only_child l r = (if l \<noteq> Leaf then l else r)"

lemma splice_code:
  assumes at: "tree_at m root (Node l y r) k" and one: "l = Leaf \<or> r = Leaf"
  defines "x \<equiv> ptr (only_child l r)" and "m1 \<equiv> set_parent m (ptr (only_child l r)) (top k)"
  shows "rd_left m y = Some (ptr l)" "rd_right m y = Some (ptr r)" "rd_parent m y = Some (top k)"
    "(if ptr l \<noteq> NULL then Some (ptr l) else Some (ptr r)) = Some x"
    "(if x \<noteq> NULL then wr_parent m x (top k) else Some m) = Some m1"
    "(if x \<noteq> NULL then rd_parent m1 x else Some (top k)) = Some (top k)"
    "rd_parent m1 y = Some (top k)"
    "(if top k = NULL then Some (m1, x, NULL, False)
      else do { ypl \<leftarrow> rd_left m1 (top k);
                if y = ypl then do { m \<leftarrow> wr_left m1 (top k) x; Some (m, root, top k, True) }
                else do { m \<leftarrow> wr_right m1 (top k) x; Some (m, root, top k, False) } }) =
     Some (spliced m k x, if k = [] then x else root, top k, on_left k)"
    "rd_color (spliced m k x) y = Some (col m y)"
proof -
  note p = tree_at_parts [OF at] and d = tree_at_distinct [OF at] and nn = tree_at_nonnull [OF at]
  show "rd_left m y = Some (ptr l)" "rd_right m y = Some (ptr r)" "rd_parent m y = Some (top k)"
    using p by (simp_all add: rb_mem_simps)
  show "(if ptr l \<noteq> NULL then Some (ptr l) else Some (ptr r)) = Some x"
    using ptr_NULL_iff [OF p(5)] one by (auto simp: x_def only_child_def)
  show "(if x \<noteq> NULL then wr_parent m x (top k) else Some m) = Some m1"
    by (simp add: m1_def x_def set_parent_def rb_mem_simps)
  have C: "is_tree m y (only_child l r)" "set_tree (only_child l r) \<subseteq> set_tree l \<union> set_tree r"
    using p(5,6) by (auto simp: only_child_def)
  have xy: "x \<noteq> y" using C d p(1) by (cases "only_child l r") (auto simp: x_def)
  then have my: "m1 y = m y" by (simp add: m1_def x_def set_parent_def)
  then show "rd_parent m1 y = Some (top k)" using p by (simp add: rb_mem_simps)
  show "(if x \<noteq> NULL then rd_parent m1 x else Some (top k)) = Some (top k)"
    using p my by (simp add: rb_mem_simps m1_def x_def set_parent_def)
  have t0: "top k = NULL \<longleftrightarrow> k = []" using top_in_ctx [of k] nn by (cases "k = []") auto
  have l1: "rb_left (m1 b) = rb_left (m b)" for b by (simp add: m1_def set_parent_def)
  have flag: "top k \<noteq> NULL \<Longrightarrow> y = rb_left (m1 (top k)) \<longleftrightarrow> on_left k"
    using left_flag [OF at] l1 by simp
  have lk: "k \<noteq> [] \<Longrightarrow> spliced m k x = (if on_left k then m1(top k := (m1 (top k))\<lparr>rb_left := x\<rparr>) else m1(top k := (m1 (top k))\<lparr>rb_right := x\<rparr>))"
    by (cases k rule: top.cases) (simp_all add: spliced_def Let_def link_def on_left_def m1_def x_def)
  show "(if top k = NULL then Some (m1, x, NULL, False)
      else do { ypl \<leftarrow> rd_left m1 (top k);
                if y = ypl then do { m \<leftarrow> wr_left m1 (top k) x; Some (m, root, top k, True) }
                else do { m \<leftarrow> wr_right m1 (top k) x; Some (m, root, top k, False) } }) =
     Some (spliced m k x, if k = [] then x else root, top k, on_left k)"
    using t0 flag lk by (cases "k = []") (auto simp: rb_mem_simps spliced_def m1_def x_def on_left_def)
  show "rd_color (spliced m k x) y = Some (col m y)"
    using p(1) spliced_data(1) [of m k x] by (simp add: rb_mem_simps col_def fun_eq_iff)
qed

definition clear_links :: "rb_mem \<Rightarrow> addr \<Rightarrow> rb_mem" where
  "clear_links m a = m(a := (m a)\<lparr>rb_parent := NULL, rb_left := NULL, rb_right := NULL\<rparr>)"

lemma clear_code:
  "a \<noteq> NULL \<Longrightarrow> do { m \<leftarrow> wr_parent m a NULL; m \<leftarrow> wr_left m a NULL; m \<leftarrow> wr_right m a NULL; f m } = f (clear_links m a)"
  by (simp add: rb_mem_simps clear_links_def fun_upd_upd)

text \<open>A node with at most one child.\<close>

lemma remove_one_code:
  assumes at: "tree_at m (rb_root t) (Node l node r) k" and one: "l = Leaf \<or> r = Leaf"
  defines "x \<equiv> ptr (only_child l r)"
    and "t1 \<equiv> (if node = rb_rightmost t then t\<lparr>rb_rightmost := next_node (rev (before k @ inorder l))\<rparr> else t)"
  shows "rb_tree_remove m (Some t) node =
    do { (m, root) \<leftarrow> (if col m node = COLOR_BLACK
           then helper_rb_tree_delete_rebalance (spliced m k x) (if k = [] then x else rb_root t) x (top k) (on_left k)
           else Some (spliced m k x, if k = [] then x else rb_root t));
         Some (A_OK, clear_links m node, Some (t1\<lparr>rb_root := root\<rparr>)) }"
proof -
  note c = splice_code [OF at one, folded x_def]
  note p = tree_at_parts [OF at]
  have two: "ptr l = NULL \<or> ptr r = NULL" using one by auto
  have t1: "(if node = rb_rightmost t then do { p \<leftarrow> helper_rb_tree_find_predecessor m node; Some (t\<lparr>rb_rightmost := p\<rparr>, node) }
      else Some (t, node)) = Some (t1, node)" "rb_root t1 = rb_root t"
    using predecessor_at(1) [OF at] by (cases "node = rb_rightmost t"; simp add: t1_def)+
  show ?thesis
    unfolding rb_tree_remove_def option.case
    using p(1) two
    by (simp only: c t1 bind.bind_lunit prod.case if_True if_False simp_thms clear_code)
qed

text \<open>A node with two children: the successor takes its place.\<close>

lemma remove_two_code:
  assumes at: "tree_at m (rb_root t) (Node L node (plug (Node Leaf y yr) kr)) k" and L: "L \<noteq> Leaf"
    and first: "before kr = []" "hd (inorder (plug (Node Leaf y yr) kr)) = y"
  defines "K \<equiv> kr @ InRight L y # k"
  shows "\<exists>m3 root3. tree_at m3 root3 yr K \<and> col m3 = (col m)(y := col m node) \<and> same_keys m m3 \<and>
    rb_tree_remove m (Some t) node =
      do { (m, root) \<leftarrow> (if col m y = COLOR_BLACK then helper_rb_tree_delete_rebalance m3 root3 (ptr yr) (top K) (on_left K)
             else Some (m3, root3));
           Some (A_OK, clear_links m node, Some (t\<lparr>rb_root := root\<rparr>)) }"
proof -
  let ?R = "plug (Node Leaf y yr) kr" let ?K = "kr @ InRight L node # k"
  note p = tree_at_parts [OF at] and d = tree_at_distinct [OF at] and nn = tree_at_nonnull [OF at]
  have aty: "tree_at m (rb_root t) (Node Leaf y yr) ?K"
    using at tree_at_cong [of "Node Leaf y yr" ?K "Node L node ?R" k] by (simp add: plug_append)
  note c = splice_code [OF aty disjI1 [OF refl]] and sp = splice_shape [OF aty disjI1 [OF refl]]
  have x: "only_child Leaf yr = yr" by (simp add: only_child_def)
  have R: "?R \<noteq> Leaf" by (simp add: plug_Leaf)
  let ?m2 = "spliced m ?K (ptr yr)"
  have at2: "tree_at ?m2 (rb_root t) (Node L node (plug yr kr)) k"
    using sp(1) tree_at_cong [of yr ?K "Node L node (plug yr kr)" k] by (simp add: plug_append)
  have dy: "y \<notin> set (before k) \<union> set_tree (Node L node (plug yr kr)) \<union> set (after k)" "y \<noteq> node" "y \<noteq> NULL"
    using d nn by (auto simp: inorder_plug set_inorder [symmetric] simp del: set_inorder)
  obtain m3 root3 where s: "helper_rb_tree_swap_node ?m2 (rb_root t) node y = Some (m3, root3)"
    "tree_at m3 root3 (Node L y (plug yr kr)) k" "col m3 = (col ?m2)(y := col ?m2 node)" "same_keys ?m2 m3"
    using swap_shape [OF at2 dy(3,1)] by blast
  have tree: "tree_at m3 root3 yr K"
    using s(2) tree_at_cong [of yr K "Node L y (plug yr kr)" k] by (simp add: plug_append K_def)
  have two: "ptr L \<noteq> NULL" "ptr ?R \<noteq> NULL" using L R ptr_NULL_iff [OF p(5)] ptr_NULL_iff [OF p(6)] by auto
  have succ: "helper_rb_tree_find_successor m node = Some y"
    using successor_at(1) [OF at] next_node_append [of "inorder ?R" "after k"] R first(2) by (simp add: eq_commute)
  have "top kr \<noteq> node" if "kr \<noteq> []"
    using d top_in_ctx [OF that] by (auto simp: inorder_plug)
  then have xp: "(if top ?K = node then y else top ?K) = top K" and fl: "on_left ?K = on_left K"
    by (cases "kr = []"; simp add: K_def top_append) (cases kr rule: top.cases; simp add: K_def on_left_def)
  have links: "rd_left m node = Some (ptr L)" "rd_right m node = Some (ptr ?R)" using p by (simp_all add: rb_mem_simps)
  have nt: "(ptr L = NULL \<or> ptr ?R = NULL) = False" "(y \<noteq> node) = True" "(?K = []) = False" using two dy by simp_all
  have "rb_tree_remove m (Some t) node =
      do { (m, root) \<leftarrow> (if col m y = COLOR_BLACK then helper_rb_tree_delete_rebalance m3 root3 (ptr yr) (top K) (on_left K)
             else Some (m3, root3));
           Some (A_OK, clear_links m node, Some (t\<lparr>rb_root := root\<rparr>)) }"
    unfolding rb_tree_remove_def option.case
    using p(1)
    by (simp only: links nt succ c [unfolded x] s(1) xp fl bind.bind_lunit prod.case if_True if_False simp_thms clear_code)
  moreover have "col m3 = (col m)(y := col m node)" "same_keys m m3"
    using s(3,4) spliced_data [of m ?K "ptr yr"] same_keys_trans by auto
  ultimately show ?thesis using tree by blast
qed

subsection \<open>Removal keeps the tree valid\<close>

text \<open>\<open>valid_removal\<close>: the nodes \<open>xs\<close>, in a balanced tree, after the removal of \<open>node\<close>.\<close>

definition valid_removal :: "rb_mem \<Rightarrow> rb_mem \<Rightarrow> addr \<Rightarrow> addr list \<Rightarrow> bool" where
  "valid_removal m m' root xs \<longleftrightarrow> (\<exists>T. rb_valid m' root T \<and> inorder T = xs) \<and> same_keys m m'"

text \<open>After the splice: the rebalancing, or nothing if the spliced node was red.\<close>

lemma rebalance_if_black:
  assumes at: "tree_at m2 root2 C k" and c: "rbt (col m2) C n" "rbk (col m2) k (if b then Suc n else n)" "\<not> b \<longrightarrow> black (col m2) C"
    and keys: "same_keys m m2"
  shows "\<exists>m' root'. (if b then helper_rb_tree_delete_rebalance m2 root2 (ptr C) (top k) (on_left k) else Some (m2, root2)) =
      Some (m', root') \<and> valid_removal m m' root' (inorder (plug C k))"
proof (cases b)
  case True
  then show ?thesis
    using delete_rebalance_valid [OF at c(1)] c(2) same_keys_trans [OF keys] by (auto simp: valid_removal_def)
next
  case False
  then have "rb_valid m2 root2 (plug C k)" using c by (intro valid_plug [OF at]) auto
  then show ?thesis using False keys by (auto simp: valid_removal_def)
qed

lemma clear_links_valid:
  assumes "valid_removal m m' root xs" "a \<notin> set xs"
  shows "valid_removal m (clear_links m' a) root xs"
proof -
  obtain T where T: "rb_valid m' root T" "inorder T = xs" using assms(1) by (auto simp: valid_removal_def)
  have "a \<notin> set_tree T" using assms(2) T(2) set_inorder [of T] by simp
  then have "rb_valid (clear_links m' a) root T = rb_valid m' root T"
    by (intro rb_valid_cong) (auto simp: clear_links_def)
  then show ?thesis using T assms(1) by (auto simp: valid_removal_def same_keys_def clear_links_def)
qed

text \<open>\<open>unlinked\<close>: the three links of a node are NULL, as \<open>rb_tree_remove\<close> leaves the node that it takes out.\<close>

definition unlinked :: "rb_mem \<Rightarrow> addr \<Rightarrow> bool" where
  "unlinked m a \<longleftrightarrow> rb_parent (m a) = NULL \<and> rb_left (m a) = NULL \<and> rb_right (m a) = NULL"

lemma clear_links_unlinked: "unlinked (clear_links m a) a"
  by (simp add: unlinked_def clear_links_def)

lemma finish_removal:
  assumes at: "tree_at m2 root2 C k" and c: "rbt (col m2) C n" "rbk (col m2) k (if b then Suc n else n)" "\<not> b \<longrightarrow> black (col m2) C"
    and keys: "same_keys m m2" and a: "a \<notin> set (inorder (plug C k))"
    and code: "rb_tree_remove m (Some t) a =
      do { (m, root) \<leftarrow> (if b then helper_rb_tree_delete_rebalance m2 root2 (ptr C) (top k) (on_left k) else Some (m2, root2));
           Some (A_OK, clear_links m a, Some (t1\<lparr>rb_root := root\<rparr>)) }"
  shows "\<exists>m' root'. rb_tree_remove m (Some t) a = Some (A_OK, m', Some (t1\<lparr>rb_root := root'\<rparr>)) \<and>
    valid_removal m m' root' (inorder (plug C k)) \<and> unlinked m' a"
proof -
  obtain m' root' where "(if b then helper_rb_tree_delete_rebalance m2 root2 (ptr C) (top k) (on_left k) else Some (m2, root2)) = Some (m', root')"
    "valid_removal m m' root' (inorder (plug C k))"
    using rebalance_if_black [OF at c keys] by blast
  then show ?thesis
    unfolding code using clear_links_valid [OF _ a] clear_links_unlinked [of m' a] by simp blast
qed

lemma remove_one_valid:
  assumes at: "tree_at m (rb_root t) (Node l node r) k" and one: "l = Leaf \<or> r = Leaf"
    and c: "rbt (col m) (plug (Node l node r) k) N" "black (col m) (plug (Node l node r) k)"
  shows "\<exists>m' root'. rb_tree_remove m (Some t) node = Some (A_OK, m', Some ((if node = rb_rightmost t
        then t\<lparr>rb_rightmost := next_node (rev (before k @ inorder l))\<rparr> else t)\<lparr>rb_root := root'\<rparr>)) \<and>
    valid_removal m m' root' ((before k @ inorder l) @ inorder r @ after k) \<and> unlinked m' node"
proof -
  let ?C = "only_child l r" and ?b = "col m node = COLOR_BLACK"
  let ?m2 = "spliced m k (ptr ?C)"
  note sp = splice_shape [OF at one, folded only_child_def] and d = tree_at_distinct [OF at]
  obtain n where n: "rbt (col m) (Node l node r) n" "rbk (col m) k n" using rbt_unplug [OF c] by blast
  have "\<exists>i. rbt (col m) ?C i \<and> rbk (col m) k (if ?b then Suc i else i) \<and> (\<not> ?b \<longrightarrow> black (col m) ?C)"
  proof (cases ?b)
    case True
    then obtain i where "n = Suc i" "rbt (col m) l i" "rbt (col m) r i" using n(1) by auto
    then show ?thesis using True n(2) by (intro exI [of _ i]) (simp add: only_child_def)
  next
    case False
    then show ?thesis using n by (intro exI [of _ n]) (simp add: only_child_def)
  qed
  then obtain i where i: "rbt (col m) ?C i" "rbk (col m) k (if ?b then Suc i else i)" "\<not> ?b \<longrightarrow> black (col m) ?C"
    by blast
  have xs: "inorder ?C = inorder l @ inorder r" using one by (auto simp: only_child_def)
  then have out: "node \<notin> set (inorder (plug ?C k))" using d by (auto simp: inorder_plug)
  show ?thesis
    using finish_removal [OF sp(1), unfolded spliced_data, OF i spliced_data(2) out remove_one_code [OF at one]] xs
    by (simp add: inorder_plug)
qed

lemma remove_two_valid:
  assumes at: "tree_at m (rb_root t) (Node L node R) k" and two: "L \<noteq> Leaf" "R \<noteq> Leaf"
    and c: "rbt (col m) (plug (Node L node R) k) N" "black (col m) (plug (Node L node R) k)"
  shows "\<exists>m' root'. rb_tree_remove m (Some t) node = Some (A_OK, m', Some (t\<lparr>rb_root := root'\<rparr>)) \<and>
    valid_removal m m' root' (before k @ inorder L @ inorder R @ after k) \<and> unlinked m' node"
proof -
  obtain y yr kr where R: "R = plug (Node Leaf y yr) kr" "before kr = []" "hd (inorder R) = y"
    using leftmost [OF two(2)] .
  let ?K = "kr @ InRight L y # k" and ?J = "kr @ InRight L node # k"
  note d = tree_at_distinct [OF at]
  obtain m3 root3 where m3: "tree_at m3 root3 yr ?K" "col m3 = (col m)(y := col m node)" "same_keys m m3"
    and code: "rb_tree_remove m (Some t) node =
      do { (m, root) \<leftarrow> (if col m y = COLOR_BLACK then helper_rb_tree_delete_rebalance m3 root3 (ptr yr) (top ?K) (on_left ?K)
             else Some (m3, root3));
           Some (A_OK, clear_links m node, Some (t\<lparr>rb_root := root\<rparr>)) }"
    using remove_two_code [OF at [unfolded R(1)] two(1) R(2) R(3) [unfolded R(1)]] by blast
  have pl: "plug (Node L node R) k = plug (Node Leaf y yr) ?J" by (simp add: R(1) plug_append)
  obtain n where n: "rbt (col m) (Node Leaf y yr) n" "rbk (col m) ?J n"
    using rbt_unplug [OF c [unfolded pl]] by blast
  have xs: "inorder R = y # inorder yr @ after kr" using R(1,2) by (simp add: inorder_plug)
  have away: "y \<notin> set (before kr) \<union> set (after kr) \<union> set_tree L \<union> set (before k) \<union> set (after k)" "y \<notin> set_tree yr"
    using d xs R(2) by auto
  have K: "rbk (col m3) ?K j" if "rbk (col m) ?J j" for j
    using away(1) by (intro rbk_rename [OF _ _ that]) (auto simp: m3(2))
  have Y: "rbt (col m3) yr j = rbt (col m) yr j" "black (col m3) yr = black (col m) yr" for j
    using away(2) by (intro rbt_cong black_cong; auto simp: m3(2))+
  have "\<exists>i. rbt (col m3) yr i \<and> rbk (col m3) ?K (if col m y = COLOR_BLACK then Suc i else i) \<and>
      (col m y \<noteq> COLOR_BLACK \<longrightarrow> black (col m3) yr)"
    using n K unfolding Y by (auto split: if_splits)
  then obtain i where i: "rbt (col m3) yr i" "rbk (col m3) ?K (if col m y = COLOR_BLACK then Suc i else i)"
    "col m y \<noteq> COLOR_BLACK \<longrightarrow> black (col m3) yr" by blast
  have eq: "inorder (plug yr ?K) = before k @ inorder L @ inorder R @ after k"
    using xs R(2) by (simp add: inorder_plug before_append after_append)
  then have out: "node \<notin> set (inorder (plug yr ?K))" using d by auto
  show ?thesis using finish_removal [OF m3(1) i m3(3) out code] unfolding eq .
qed

subsection \<open>Removal from the represented list\<close>

lemma remove_refines:
  assumes r: "rb_repr K m t (xs @ node # ys)"
  shows "\<exists>m' t'. rb_tree_remove m (Some t) node = Some (A_OK, m', Some t') \<and> rb_repr K m' t' (xs @ ys) \<and>
    unlinked m' node \<and> same_keys m m' \<and> rb_compare t' = rb_compare t \<and> rb_state t' = rb_state t"
proof -
  obtain l r k where at: "tree_at m (rb_root t) (Node l node r) k" and v: "rb_valid m (rb_root t) (plug (Node l node r) k)"
    and xs: "xs = before k @ inorder l" and ys: "ys = inorder r @ after k"
    using split_at [OF r] .
  obtain N where c: "rbt (col m) (plug (Node l node r) k) N" "black (col m) (plug (Node l node r) k)"
    using v by (auto simp: rb_valid_def)
  have d: "distinct (xs @ node # ys)" using tree_at_distinct [OF at] xs ys by simp
  have last_t: "rb_rightmost t = (if ys = [] then node else last ys)"
    and cmp: "rb_compare t \<noteq> None" "rb_order K (rb_cmp t)" "\<forall>a \<in> set (xs @ node # ys). rb_key (m a) \<in> K"
      "ordered (rb_cmp t) m (xs @ node # ys)"
    using r by (auto simp: rb_repr_def)
  define t1 where "t1 = (if ys = [] then t\<lparr>rb_rightmost := next_node (rev xs)\<rparr> else t)"
  have "\<exists>m' root'. rb_tree_remove m (Some t) node = Some (A_OK, m', Some (t1\<lparr>rb_root := root'\<rparr>)) \<and>
    valid_removal m m' root' (xs @ ys) \<and> unlinked m' node"
  proof (cases "l = Leaf \<or> r = Leaf")
    case True
    have h: "node = rb_rightmost t \<longleftrightarrow> ys = []" using last_t d by (auto simp: last_in_set)
    show ?thesis
      using remove_one_valid [OF at True c] unfolding h xs [symmetric] ys [symmetric] t1_def .
  next
    case False
    then have "ys \<noteq> []" using ys by (cases r) auto
    then show ?thesis using remove_two_valid [OF at _ _ c] False by (simp add: xs ys t1_def)
  qed
  then obtain m' root' where run: "rb_tree_remove m (Some t) node = Some (A_OK, m', Some (t1\<lparr>rb_root := root'\<rparr>))"
    and valid: "valid_removal m m' root' (xs @ ys)" "unlinked m' node" by blast
  have keys: "rb_key (m' a) = rb_key (m a)" for a using valid(1) by (simp add: valid_removal_def same_keys_def)
  have "ordered (rb_cmp t) m (xs @ ys)" using cmp(4) by (simp add: ordered_def sorted_wrt_append)
  then have "ordered (rb_cmp t) m' (xs @ ys)" using ordered_cong [of "xs @ ys" m' m] keys by simp
  moreover have "xs @ ys \<noteq> [] \<longrightarrow> rb_rightmost t1 = last (xs @ ys)"
    using last_t by (cases xs rule: rev_cases) (auto simp: t1_def next_node_def)
  moreover have cb: "rb_compare t1 = rb_compare t" "rb_state t1 = rb_state t" "rb_cmp (t1\<lparr>rb_root := root'\<rparr>) = rb_cmp t" by (simp_all add: t1_def)
  ultimately have "rb_repr K m' (t1\<lparr>rb_root := root'\<rparr>) (xs @ ys)"
    using valid(1) cmp keys by (auto simp: rb_repr_def valid_removal_def)
  then show ?thesis using run valid cb by (auto simp: valid_removal_def)
qed


lemma remove1_refines:
  assumes r: "rb_repr K m t xs" and node: "node \<in> set xs"
  shows "\<exists>m' t'. rb_tree_remove m (Some t) node = Some (A_OK, m', Some t') \<and> rb_repr K m' t' (remove1 node xs) \<and>
    unlinked m' node \<and> same_keys m m' \<and> rb_compare t' = rb_compare t \<and> rb_state t' = rb_state t"
proof -
  obtain ys zs where "xs = ys @ node # zs" "node \<notin> set ys" using split_list_first [OF node] by blast
  then show ?thesis using remove_refines [of K m t ys node zs] r by (simp add: remove1_append)
qed

text \<open>Claim C2. \<open>rb_tree_remove\<close> of a node of the tree answers \<open>A_OK\<close> and refines the removal from the ordered list: the result
  is a valid red-black tree on the other nodes, in the same order, whose rightmost pointer is the greatest of
  them; the links of the removed node are NULL and no key changes. The call returns and dereferences no
  NULL pointer. Without a tree or a node it answers \<open>A_E_BADARGS\<close> and changes nothing.\<close>

theorem rb_tree_remove_correct:
  assumes "rb_repr K m t xs"
  shows "(if node \<in> set xs
          then \<exists>m' t'. rb_tree_remove m (Some t) node = Some (A_OK, m', Some t') \<and>
                 rb_repr K m' t' (remove1 node xs) \<and> unlinked m' node \<and> (\<forall>a. rb_key (m' a) = rb_key (m a))
          else node = NULL \<longrightarrow> rb_tree_remove m (Some t) node = Some (A_E_BADARGS, m, Some t)) \<and>
    rb_tree_remove m (None :: 's rb_tree option) node = Some (A_E_BADARGS, m, None)"
proof (cases "node \<in> set xs")
  case True
  then show ?thesis using remove1_refines [OF assms True] unfolding same_keys_def rb_tree_remove_def [of m None] by auto
qed (simp add: rb_tree_remove_def)

theorem rb_tree_remove_correct_witness:
  "\<exists>m' t'. rb_tree_remove sample_mem (Some sample_tree) 16 = Some (A_OK, m', Some t') \<and> rb_repr UNIV m' t' [32]"
  using rb_tree_remove_correct [OF sample_repr, of 16] by auto

text \<open>Inserting a new node and removing it gives back the tree's list of nodes, each with its key, and the node can
  be inserted again.\<close>

theorem rb_tree_insert_remove:
  assumes r: "rb_repr K m t xs" "key \<in> K" "fresh_node m xs node"
    and new: "\<forall>a \<in> set xs. rb_cmp t key (rb_key (m a)) \<noteq> 0"
  shows "\<exists>m1 t1 m2 t2. rb_tree_insert m (Some t) key node = Some (A_OK, m1, Some t1) \<and>
    rb_tree_remove m1 (Some t1) node = Some (A_OK, m2, Some t2) \<and>
    rb_repr K m2 t2 xs \<and> (\<forall>a \<in> set xs. rb_key (m2 a) = rb_key (m a)) \<and> fresh_node m2 xs node"
proof -
  obtain m1 t1 where i: "rb_tree_insert m (Some t) key node = Some (A_OK, m1, Some t1)"
    "rb_repr K m1 t1 (insert_node (rb_cmp t) m key node xs)" "\<forall>a \<in> set xs. rb_key (m1 a) = rb_key (m a)"
    using insert_refines [OF r] new by (auto split: if_splits)
  have node: "node \<in> set (insert_node (rb_cmp t) m key node xs)" by (simp add: insert_node_def)
  have xs: "remove1 node (insert_node (rb_cmp t) m key node xs) = xs"
    using r(3) set_takeWhileD by (fastforce simp: insert_node_def fresh_node_def remove1_append)
  obtain m2 t2 where "rb_tree_remove m1 (Some t1) node = Some (A_OK, m2, Some t2)" "rb_repr K m2 t2 xs"
    "unlinked m2 node" "same_keys m1 m2"
    using remove1_refines [OF i(2) node] unfolding xs by blast
  then show ?thesis using i r(3) by (auto simp: same_keys_def fresh_node_def unlinked_def)
qed

theorem rb_tree_insert_remove_witness:
  "\<exists>m1 t1 m2 t2. rb_tree_insert sample_mem (Some sample_tree) 7 48 = Some (A_OK, m1, Some t1) \<and>
     rb_tree_remove m1 (Some t1) 48 = Some (A_OK, m2, Some t2) \<and> rb_repr UNIV m2 t2 [16, 32]"
proof -
  have "fresh_node sample_mem [16, 32] 48" by (simp add: fresh_node_def sample_mem_def)
  moreover have "\<forall>a \<in> set [16, 32]. rb_cmp sample_tree 7 (rb_key (sample_mem a)) \<noteq> 0"
    by (simp add: sample_tree_def rb_sample_cmp_def sample_mem_def)
  ultimately show ?thesis using rb_tree_insert_remove [OF sample_repr, of 7 48] by auto
qed

end
