(* ===== verification/RBTree_Frame.thy ===== *)
theory RBTree_Frame
  imports RBTree_Remove
begin

section \<open>What the operations of a red-black tree leave alone\<close>

text \<open>
  Each operation writes only to nodes that it can reach: the nodes of the tree and the node it is given. The proof follows the
  code backwards. \<open>post x Q\<close> says that \<open>Q\<close> holds of the result of \<open>x\<close> unless \<open>x\<close> is a fault, and there is a rule for each
  construct of the code.
\<close>

subsection \<open>Results that are not faults\<close>

definition post :: "'a option \<Rightarrow> ('a \<Rightarrow> bool) \<Rightarrow> bool" where
  "post x Q \<longleftrightarrow> (\<forall>v. x = Some v \<longrightarrow> Q v)"

named_theorems post_rules

lemma post_construct [post_rules]:
  "Q v \<Longrightarrow> post (Some v) Q"
  "post None Q"
  "post w (\<lambda>v. post (f v) Q) \<Longrightarrow> post (Option.bind w f) Q"
  "(c \<Longrightarrow> post x Q) \<Longrightarrow> (\<not> c \<Longrightarrow> post y Q) \<Longrightarrow> post (if c then x else y) Q"
  "post (g a b) Q \<Longrightarrow> post (case (a, b) of (a, b) \<Rightarrow> g a b) Q"
  "post (h c1) Q \<Longrightarrow> post (let z = c1 in h z) Q"
  "post x Q \<Longrightarrow> post (case None of None \<Rightarrow> x | Some u \<Rightarrow> k u) Q"
  "post (k c2) Q \<Longrightarrow> post (case Some c2 of None \<Rightarrow> x | Some u \<Rightarrow> k u) Q"
  by (auto simp: post_def bind_eq_Some_iff)

lemma postD: "post x Q \<Longrightarrow> x = Some v \<Longrightarrow> Q v"
  by (simp add: post_def)

subsection \<open>Regions\<close>

text \<open>\<open>S\<close> has NULL and is closed under links; outside of it, the memory is \<open>m0\<close>.\<close>

definition region :: "addr set \<Rightarrow> rb_mem \<Rightarrow> rb_mem \<Rightarrow> bool" where
  "region S m0 m \<longleftrightarrow> NULL \<in> S \<and> (\<forall>a. a \<notin> S \<longrightarrow> m a = m0 a) \<and>
     (\<forall>a \<in> S - {NULL}. rb_left (m a) \<in> S \<and> rb_right (m a) \<in> S \<and> rb_parent (m a) \<in> S)"

lemma region_null: "region S m0 m \<Longrightarrow> NULL \<in> S"
  by (simp add: region_def)

lemma if_in [post_rules]: "(c \<Longrightarrow> a \<in> S) \<Longrightarrow> (\<not> c \<Longrightarrow> b \<in> S) \<Longrightarrow> (if c then a else b) \<in> S"
  by simp

lemma region_links [post_rules]:
  assumes "region S m0 m" "a \<in> S" "a \<noteq> NULL"
  shows "rb_left (m a) \<in> S" "rb_right (m a) \<in> S" "rb_parent (m a) \<in> S"
  using assms by (simp_all add: region_def)

lemma post_rd [post_rules]:
  "region S m0 m \<Longrightarrow> a \<in> S \<Longrightarrow> (\<And>v. v \<in> S \<Longrightarrow> Q v) \<Longrightarrow> post (rd_left m a) Q"
  "region S m0 m \<Longrightarrow> a \<in> S \<Longrightarrow> (\<And>v. v \<in> S \<Longrightarrow> Q v) \<Longrightarrow> post (rd_right m a) Q"
  "region S m0 m \<Longrightarrow> a \<in> S \<Longrightarrow> (\<And>v. v \<in> S \<Longrightarrow> Q v) \<Longrightarrow> post (rd_parent m a) Q"
  "(\<And>v. Q1 v) \<Longrightarrow> post (rd_color m a) Q1"
  by (auto simp: post_def rd_def region_def split: if_splits)

lemma post_wr [post_rules]:
  "region S m0 m \<Longrightarrow> a \<in> S \<Longrightarrow> v \<in> S \<Longrightarrow> (\<And>m'. region S m0 m' \<Longrightarrow> Q m') \<Longrightarrow> post (wr_left m a v) Q"
  "region S m0 m \<Longrightarrow> a \<in> S \<Longrightarrow> v \<in> S \<Longrightarrow> (\<And>m'. region S m0 m' \<Longrightarrow> Q m') \<Longrightarrow> post (wr_right m a v) Q"
  "region S m0 m \<Longrightarrow> a \<in> S \<Longrightarrow> v \<in> S \<Longrightarrow> (\<And>m'. region S m0 m' \<Longrightarrow> Q m') \<Longrightarrow> post (wr_parent m a v) Q"
  "region S m0 m \<Longrightarrow> a \<in> S \<Longrightarrow> (\<And>m'. region S m0 m' \<Longrightarrow> Q m') \<Longrightarrow> post (wr_color m a c) Q"
  "region S m0 m \<Longrightarrow> a \<in> S \<Longrightarrow> (\<And>m'. region S m0 m' \<Longrightarrow> Q m') \<Longrightarrow> post (wr_key m a k) Q"
  by (auto simp: post_def wr_def region_def split: if_splits)

subsection \<open>Insertion\<close>

lemma post_rotate [post_rules]:
  "region S m0 m \<Longrightarrow> root \<in> S \<Longrightarrow> x \<in> S \<Longrightarrow> (\<And>m' r. region S m0 m' \<Longrightarrow> r \<in> S \<Longrightarrow> Q (m', r)) \<Longrightarrow>
    post (helper_rotate_left m root x) Q"
  "region S m0 m \<Longrightarrow> root \<in> S \<Longrightarrow> x \<in> S \<Longrightarrow> (\<And>m' r. region S m0 m' \<Longrightarrow> r \<in> S \<Longrightarrow> Q (m', r)) \<Longrightarrow>
    post (helper_rotate_right m root x) Q"
  unfolding helper_rotate_left_def helper_rotate_right_def by (auto intro!: post_rules)

lemma post_grandparent [post_rules]:
  "region S m0 m \<Longrightarrow> a \<in> S \<Longrightarrow> (\<And>v. v \<in> S \<Longrightarrow> Q v) \<Longrightarrow> post (helper_get_grandparent m a) Q"
  unfolding helper_get_grandparent_def by (auto intro!: post_rules dest: region_null)

lemma post_insert_step [post_rules]:
  assumes "region S m0 m" "root \<in> S" "x \<in> S" "\<And>m' r y. region S m0 m' \<Longrightarrow> r \<in> S \<Longrightarrow> y \<in> S \<Longrightarrow> Q (m', r, y)"
  shows "post (insert_rebalance_step m root x) Q"
  unfolding insert_rebalance_step_def
  by (insert assms(1-3)) (assumption | rule assms(4) post_rules)+

lemma post_insert_loop [post_rules]:
  assumes "region S m0 m" "root \<in> S" "x \<in> S" "\<And>m' r. region S m0 m' \<Longrightarrow> r \<in> S \<Longrightarrow> Q (m', r)"
  shows "post (insert_rebalance_loop m root x) Q"
proof -
  let ?P = "\<lambda>m root x v. region S m0 m \<longrightarrow> root \<in> S \<longrightarrow> x \<in> S \<longrightarrow> region S m0 (fst v) \<and> snd v \<in> S"
  have "?P m root x v" if "insert_rebalance_loop m root x = Some v" for v
  proof (rule insert_rebalance_loop.raw_induct [where P = ?P, OF _ that])
    fix f m root x v
    assume IH: "\<And>m root x v. f m root x = Some v \<Longrightarrow> ?P m root x v"
    assume "(do { go \<leftarrow> (if root \<noteq> x then
                   do { p \<leftarrow> rd_parent m x;
                        if p \<noteq> NULL then do { c \<leftarrow> rd_color m p; Some (c = COLOR_RED) } else Some False }
                 else Some False);
          if go then do { (m, root, x) \<leftarrow> insert_rebalance_step m root x; f m root x }
          else Some (m, root) }) = Some v" (is "?body = _")
    show "?P m root x v"
    proof (intro impI)
      assume a: "region S m0 m" "root \<in> S" "x \<in> S"
      have f: "post (f m root x) (\<lambda>v. region S m0 (fst v) \<and> snd v \<in> S)" if "region S m0 m" "root \<in> S" "x \<in> S" for m root x
        using IH that by (auto simp: post_def)
      have "post ?body (\<lambda>v. region S m0 (fst v) \<and> snd v \<in> S)"
        by (insert a) (assumption | rule conjI f post_rules | simp only: fst_conv snd_conv)+
      then show "region S m0 (fst v) \<and> snd v \<in> S" using \<open>?body = Some v\<close> by (rule postD)
    qed
  qed
  then show ?thesis using assms by (auto simp: post_def)
qed

lemma post_insert_rebalance [post_rules]:
  assumes "region S m0 m" "root \<in> S" "x \<in> S" "\<And>m' r. region S m0 m' \<Longrightarrow> r \<in> S \<Longrightarrow> Q (m', r)"
  shows "post (helper_rb_tree_insert_rebalance m root x) Q"
  unfolding helper_rb_tree_insert_rebalance_def
  by (insert assms(1-3)) (assumption | rule assms(4) post_rules)+

text \<open>The descent of the insertion. In the region of the tree, its only writes link the new node.\<close>

lemma post_descent [post_rules]:
  assumes "region S m0 m" "node \<in> S" "nd \<in> S" "Q None" "\<And>m' a r. region S m0 m' \<Longrightarrow> a \<in> S \<Longrightarrow> Q (Some (m', a, r))"
  shows "post (rb_insert_loop cmp m node nd rightmost) Q"
proof -
  let ?P = "\<lambda>cmp m node nd rightmost v. region S m0 m \<longrightarrow> node \<in> S \<longrightarrow> nd \<in> S \<longrightarrow>
    (case v of None \<Rightarrow> True | Some (m', a, r) \<Rightarrow> region S m0 m' \<and> a \<in> S)"
  have "?P cmp m node nd rightmost v" if "rb_insert_loop cmp m node nd rightmost = Some v" for v
  proof (rule rb_insert_loop.raw_induct [where P = ?P, OF _ that], goal_cases)
    case (1 f cmp m node nd rightmost v)
    have w: "region S m0 m'" if "region S m0 m" "node \<in> S" "nd \<in> S" "wr_left m nd node = Some m' \<or> wr_right m nd node = Some m'" for m'
      using that postD [OF post_wr(1)] postD [OF post_wr(2)] by metis
    show ?case
      using 1(2) w by (auto simp: Let_def bind_eq_Some_iff region_links dest!: 1(1) split: if_splits)
  qed
  then have "case v of None \<Rightarrow> True | Some (m', a, r) \<Rightarrow> region S m0 m' \<and> a \<in> S" if "rb_insert_loop cmp m node nd rightmost = Some v" for v
    using that assms(1-3) by blast
  then show ?thesis using assms(4,5) unfolding post_def by (metis (no_types, lifting) option.case_eq_if option.collapse prod.case_eq_if prod.collapse)
qed

lemma post_compare [post_rules]: "(\<And>c. Q c) \<Longrightarrow> post (rb_compare t) Q"
  by (simp add: post_def)

lemma root_in [post_rules]:
  "rb_root t \<in> S \<Longrightarrow> rb_root (if c then t\<lparr>rb_rightmost := a\<rparr> else t) \<in> S"
  "rb_root t \<in> S \<Longrightarrow> rb_root (t\<lparr>rb_rightmost := a\<rparr>) \<in> S"
  by simp_all

lemma insert_region:
  assumes "rb_tree_insert m (Some t) key node = Some (r, m', t')" "region S m0 m" "rb_root t \<in> S" "node \<in> S"
  shows "region S m0 m'"
proof -
  have "post (rb_tree_insert m (Some t) key node) (\<lambda>(r, m', t'). region S m0 m')"
    unfolding rb_tree_insert_def
    by (insert assms(2-)) (assumption | rule post_rules | simp only: prod.case rb_tree.simps)+
  then show ?thesis using postD assms(1) by fastforce
qed

lemma post_foi_descent [post_rules]:
  assumes "region S m0 m" "node \<in> S" "prv \<in> S" "\<And>a b d r. a \<in> S \<Longrightarrow> b \<in> S \<Longrightarrow> Q (a, b, d, r)"
  shows "post (rb_foi_loop cmp m key node prv dir rightmost) Q"
proof -
  let ?P = "\<lambda>cmp m key node prv dir rightmost v. region S m0 m \<longrightarrow> node \<in> S \<longrightarrow> prv \<in> S \<longrightarrow> fst v \<in> S \<and> fst (snd v) \<in> S"
  have "?P cmp m key node prv dir rightmost v" if "rb_foi_loop cmp m key node prv dir rightmost = Some v" for v
  proof (rule rb_foi_loop.raw_induct [where P = ?P, OF _ that], goal_cases)
    case (1 f cmp m key node prv dir rightmost v)
    then show ?case by (auto simp: Let_def region_links dest!: 1(1) split: if_splits)
  qed
  then show ?thesis using assms unfolding post_def by (metis prod.collapse)
qed

lemma find_or_insert_region:
  assumes "rb_tree_find_or_insert m (Some t) key node (Some v) = Some (r, m', t', v')" "region S m0 m" "rb_root t \<in> S" "node \<in> S"
  shows "region S m0 m'"
proof -
  have "NULL \<in> S" using region_null [OF assms(2)] .
  have "post (rb_tree_find_or_insert m (Some t) key node (Some v)) (\<lambda>(r, m', t', v'). region S m0 m')"
    unfolding rb_tree_find_or_insert_def
    by (insert assms(2-) \<open>NULL \<in> S\<close>) (assumption | rule post_rules | simp only: prod.case rb_tree.simps)+
  then show ?thesis using postD assms(1) by fastforce
qed

subsection \<open>Removal\<close>

lemma post_minimum [post_rules]:
  assumes "region S m0 m" "x \<in> S" "\<And>v. v \<in> S \<Longrightarrow> Q v"
  shows "post (helper_rb_tree_find_minimum m x) Q"
proof -
  have "region S m0 m \<longrightarrow> x \<in> S \<longrightarrow> v \<in> S" if "helper_rb_tree_find_minimum m x = Some v" for v
  proof (rule helper_rb_tree_find_minimum.raw_induct [where P = "\<lambda>m x v. region S m0 m \<longrightarrow> x \<in> S \<longrightarrow> v \<in> S" and xa = "(m, x)", unfolded prod.case, OF _ that], goal_cases)
    case (1 f m x v)
    then show ?case by (auto simp: rd_def region_links(1) split: if_splits)
  qed
  then show ?thesis using assms by (auto simp: post_def)
qed

lemma post_maximum [post_rules]:
  assumes "region S m0 m" "x \<in> S" "\<And>v. v \<in> S \<Longrightarrow> Q v"
  shows "post (helper_rb_tree_find_maximum m x) Q"
proof -
  have "region S m0 m \<longrightarrow> x \<in> S \<longrightarrow> v \<in> S" if "helper_rb_tree_find_maximum m x = Some v" for v
  proof (rule helper_rb_tree_find_maximum.raw_induct [where P = "\<lambda>m x v. region S m0 m \<longrightarrow> x \<in> S \<longrightarrow> v \<in> S" and xa = "(m, x)", unfolded prod.case, OF _ that], goal_cases)
    case (1 f m x v)
    then show ?case by (auto simp: rd_def region_links(2) split: if_splits)
  qed
  then show ?thesis using assms by (auto simp: post_def)
qed

lemma post_climb [post_rules]:
  assumes "region S m0 m" "y \<in> S" "\<And>v. v \<in> S \<Longrightarrow> Q v"
  shows "post (rb_climb_right m x y) Q" "post (rb_climb_left m x y) Q"
proof -
  have "region S m0 m \<longrightarrow> y \<in> S \<longrightarrow> v \<in> S" if "rb_climb_right m x y = Some v" for v
  proof (rule rb_climb_right.raw_induct [where P = "\<lambda>m x y v. region S m0 m \<longrightarrow> y \<in> S \<longrightarrow> v \<in> S" and xa = "((m, x), y)", unfolded prod.case, OF _ that], goal_cases)
    case (1 f m x y v)
    then show ?case by (auto simp: region_links(3) split: if_splits)
  qed
  then show "post (rb_climb_right m x y) Q" using assms by (auto simp: post_def)
  have "region S m0 m \<longrightarrow> y \<in> S \<longrightarrow> v \<in> S" if "rb_climb_left m x y = Some v" for v
  proof (rule rb_climb_left.raw_induct [where P = "\<lambda>m x y v. region S m0 m \<longrightarrow> y \<in> S \<longrightarrow> v \<in> S" and xa = "((m, x), y)", unfolded prod.case, OF _ that], goal_cases)
    case (1 f m x y v)
    then show ?case by (auto simp: region_links(3) split: if_splits)
  qed
  then show "post (rb_climb_left m x y) Q" using assms by (auto simp: post_def)
qed

lemma post_neighbours [post_rules]:
  assumes "region S m0 m" "x \<in> S" "\<And>v. v \<in> S \<Longrightarrow> Q v"
  shows "post (helper_rb_tree_find_successor m x) Q" "post (helper_rb_tree_find_predecessor m x) Q"
  unfolding helper_rb_tree_find_successor_def helper_rb_tree_find_predecessor_def
  by (insert assms(1,2)) (assumption | rule assms(3) post_rules)+

lemma post_swap [post_rules]:
  assumes "region S m0 m" "root \<in> S" "x \<in> S" "y \<in> S" "\<And>m' r. region S m0 m' \<Longrightarrow> r \<in> S \<Longrightarrow> Q (m', r)"
  shows "post (helper_rb_tree_swap_node m root x y) Q"
  unfolding helper_rb_tree_swap_node_def
  by (insert assms(1-4) region_null [OF assms(1)]) (assumption | rule assms(5) post_rules)+

lemma post_delete_step [post_rules]:
  assumes "region S m0 m" "root \<in> S" "x \<in> S" "xp \<in> S"
    "\<And>m' r y yp l. region S m0 m' \<Longrightarrow> r \<in> S \<Longrightarrow> y \<in> S \<Longrightarrow> yp \<in> S \<Longrightarrow> Q (m', r, y, yp, l)"
  shows "post (delete_rebalance_step m root x xp is_left) Q"
  unfolding delete_rebalance_step_def
  by (insert assms(1-4) region_null [OF assms(1)]) (assumption | rule assms(5) post_rules)+

lemma post_delete_loop [post_rules]:
  assumes "region S m0 m" "root \<in> S" "x \<in> S" "xp \<in> S" "\<And>m' r y. region S m0 m' \<Longrightarrow> r \<in> S \<Longrightarrow> y \<in> S \<Longrightarrow> Q (m', r, y)"
  shows "post (delete_rebalance_loop m root x xp l) Q"
proof -
  let ?R = "\<lambda>v. region S m0 (fst v) \<and> fst (snd v) \<in> S \<and> snd (snd v) \<in> S"
  let ?P = "\<lambda>m root x xp (l :: bool) v. region S m0 m \<longrightarrow> root \<in> S \<longrightarrow> x \<in> S \<longrightarrow> xp \<in> S \<longrightarrow> ?R v"
  have "?P m root x xp l v" if "delete_rebalance_loop m root x xp l = Some v" for v
  proof (rule delete_rebalance_loop.raw_induct [where P = ?P and xa = "((((m, root), x), xp), l)", unfolded prod.case, OF _ that], goal_cases)
    case (1 f m root x xp l v)
    have f: "post (f m root x xp l) ?R" if "region S m0 m" "root \<in> S" "x \<in> S" "xp \<in> S" for m root x xp l
      using 1(1) that by (auto simp: post_def)
    show ?case
    proof (intro impI)
      assume a: "region S m0 m" "root \<in> S" "x \<in> S" "xp \<in> S"
      have "post (if x \<noteq> root \<and> is_black_or_null m x
        then do { (m, root, x, xp, l) \<leftarrow> delete_rebalance_step m root x xp l; f m root x xp l } else Some (m, root, x)) ?R"
        by (insert a) (assumption | rule conjI f post_rules | simp only: fst_conv snd_conv)+
      then show "?R v" using 1(2) by (rule postD)
    qed
  qed
  then show ?thesis using assms by (auto simp: post_def)
qed

lemma post_delete_rebalance [post_rules]:
  assumes "region S m0 m" "root \<in> S" "x \<in> S" "xp \<in> S" "\<And>m' r. region S m0 m' \<Longrightarrow> r \<in> S \<Longrightarrow> Q (m', r)"
  shows "post (helper_rb_tree_delete_rebalance m root x xp l) Q"
  unfolding helper_rb_tree_delete_rebalance_def
  by (insert assms(1-4)) (assumption | rule assms(5) post_rules)+

lemma remove_region:
  assumes "rb_tree_remove m (Some t) node = Some (r, m', t')" "region S m0 m" "rb_root t \<in> S" "node \<in> S"
  shows "region S m0 m'"
proof -
  have "post (rb_tree_remove m (Some t) node) (\<lambda>(r, m', t'). region S m0 m')"
    unfolding rb_tree_remove_def
    by (insert assms(2-) region_null [OF assms(2)]) (assumption | rule post_rules | simp only: prod.case)+
  then show ?thesis using postD assms(1) by fastforce
qed

subsection \<open>The region of a tree\<close>

lemma tree_links:
  assumes "is_tree m p T" "insert NULL (insert p (set_tree T)) \<subseteq> S" "a \<in> set_tree T"
  shows "rb_left (m a) \<in> S" "rb_right (m a) \<in> S" "rb_parent (m a) \<in> S"
proof -
  have "rb_left (m a) \<in> S \<and> rb_right (m a) \<in> S \<and> rb_parent (m a) \<in> S"
    using assms
  proof (induction T arbitrary: p)
    case (Node l x r)
    have "ptr t \<in> S" if "insert NULL (set_tree t) \<subseteq> S" for t using that by (cases t) auto
    then show ?case using Node by auto
  qed simp
  then show "rb_left (m a) \<in> S" "rb_right (m a) \<in> S" "rb_parent (m a) \<in> S" by auto
qed

lemma tree_region:
  assumes "rb_repr K m t xs" "\<And>a. a \<in> N \<Longrightarrow> unlinked m a"
  shows "region (insert NULL (N \<union> set xs)) m m" "rb_root t \<in> insert NULL (N \<union> set xs)"
proof -
  obtain T where T: "is_tree m NULL T" "ptr T = rb_root t" "set_tree T = set xs" using assms(1) by (rule rb_reprE)
  show "rb_root t \<in> insert NULL (N \<union> set xs)" using T(2,3) by (cases T) auto
  show "region (insert NULL (N \<union> set xs)) m m"
    using tree_links [OF T(1), of "insert NULL (N \<union> set xs)"] T(3) assms(2) by (auto simp: region_def unlinked_def)
qed

text \<open>What the calls leave alone: an insertion, all nodes outside of the tree but the new one, and of that one the links, if it is
  not inserted; a removal, all other nodes outside of the tree.\<close>

lemma insert_frame:
  assumes "rb_repr K m t xs" "unlinked m node" "rb_tree_insert m (Some t) key node = Some (r, m', t')"
    and "a \<notin> set xs" "a \<noteq> node" "a \<noteq> NULL"
  shows "m' a = m a"
  using insert_region [OF assms(3) tree_region(1,2) [OF assms(1), of "{node}"]] assms(2,4-6) by (simp add: region_def)

lemma find_or_insert_frame:
  assumes "rb_repr K m t xs" "unlinked m node" "rb_tree_find_or_insert m (Some t) key node (Some v) = Some (r, m', t', v')"
    and "a \<notin> set xs" "a \<noteq> node" "a \<noteq> NULL"
  shows "m' a = m a"
  using find_or_insert_region [OF assms(3) tree_region(1,2) [OF assms(1), of "{node}"]] assms(2,4-6) by (simp add: region_def)

lemma remove_frame:
  assumes "rb_repr K m t xs" "node \<in> set xs" "rb_tree_remove m (Some t) node = Some (r, m', t')" "a \<notin> set xs" "a \<noteq> NULL"
  shows "m' a = m a"
  using remove_region [OF assms(3) tree_region(1,2) [OF assms(1), of "{}"]] assms(2,4,5) by (simp add: region_def)

lemma busy_unlinked:
  "rb_tree_insert m (Some t) key node = Some (A_E_BUSY, m', t') \<Longrightarrow> unlinked m' node = unlinked m node"
  by (auto simp: rb_tree_insert_def wr_def unlinked_def Let_def split: if_splits Option.bind_splits option.splits)

lemma found_unlinked:
  "rb_tree_find_or_insert m (Some t) key node (Some v) = Some (A_OK, m', t', Some a) \<Longrightarrow> a \<noteq> node \<Longrightarrow>
    unlinked m' node = unlinked m node"
  by (auto simp: rb_tree_find_or_insert_def wr_def unlinked_def Let_def split: if_splits Option.bind_splits option.splits)

end
