(* ===== verification/RBTree_Sequences.thy ===== *)
theory RBTree_Sequences
  imports Call_Sequences RBTree_Frame
begin

section \<open>Red-black trees under sequences of calls\<close>

text \<open>
  The life of a tree: starting with \<open>rb_tree_new\<close>, any sequence of insertions, lookups and removals gives the answers
  that the same sequence gives on a list of keys and nodes in key order. The calls are those of \<open>rbtree.c\<close>, with nothing in between. The
  nodes that the caller inserts have NULL links before their first use, since no function of the library initialises them; a removed node
  has NULL links again, so it can be inserted again at once.
\<close>

subsection \<open>Calls and their specification\<close>

datatype rb_call =
    RB_Insert addr addr
  | RB_Find_Or_Insert addr addr
  | RB_Find addr
  | RB_Remove addr
  | RB_Next addr

type_synonym rb_answer = "aresult_t \<times> addr option"

definition rb_call_run :: "rb_mem \<times> 's rb_tree \<Rightarrow> rb_call \<Rightarrow> (rb_answer \<times> rb_mem \<times> 's rb_tree) option" where
  "rb_call_run s c = (case s of (m, t) \<Rightarrow> (case c of
     RB_Insert key node \<Rightarrow> do { (r, m, t') \<leftarrow> rb_tree_insert m (Some t) key node; t' \<leftarrow> t'; Some ((r, None), m, t') }
   | RB_Find_Or_Insert key node \<Rightarrow>
       do { (r, m, t', v) \<leftarrow> rb_tree_find_or_insert m (Some t) key node (Some NULL); t' \<leftarrow> t'; Some ((r, v), m, t') }
   | RB_Find key \<Rightarrow> do { (r, v) \<leftarrow> rb_tree_find m (Some t) key (Some NULL); Some ((r, v), m, t) }
   | RB_Remove node \<Rightarrow> do { (r, m, t') \<leftarrow> rb_tree_remove m (Some t) node; t' \<leftarrow> t'; Some ((r, None), m, t') }
   | RB_Next node \<Rightarrow> do { (r, v) \<leftarrow> rb_tree_find_successor m (Some t) node (Some NULL); Some ((r, v), m, t) }))"

text \<open>The specification: the list of the keys with their nodes.\<close>

definition lookup_key :: "(addr \<Rightarrow> addr \<Rightarrow> int) \<Rightarrow> (addr \<times> addr) list \<Rightarrow> addr \<Rightarrow> (addr \<times> addr) option" where
  "lookup_key cmp kvs key = List.find (\<lambda>(k, a). cmp key k = 0) kvs"

definition insert_key :: "(addr \<Rightarrow> addr \<Rightarrow> int) \<Rightarrow> (addr \<times> addr) list \<Rightarrow> addr \<Rightarrow> addr \<Rightarrow> (addr \<times> addr) list" where
  "insert_key cmp kvs key node =
     takeWhile (\<lambda>(k, a). 0 < cmp key k) kvs @ (key, node) # dropWhile (\<lambda>(k, a). 0 < cmp key k) kvs"

fun node_after :: "addr \<Rightarrow> (addr \<times> addr) list \<Rightarrow> addr" where
  "node_after node ((k, a) # (k', b) # kvs) = (if a = node then b else node_after node ((k', b) # kvs))"
| "node_after node kvs = NULL"

definition rb_call_spec :: "(addr \<Rightarrow> addr \<Rightarrow> int) \<Rightarrow> (addr \<times> addr) list \<Rightarrow> rb_call \<Rightarrow> rb_answer \<times> (addr \<times> addr) list" where
  "rb_call_spec cmp kvs c = (case c of
     RB_Insert key node \<Rightarrow> (case lookup_key cmp kvs key of
         Some _ \<Rightarrow> ((A_E_BUSY, None), kvs) | None \<Rightarrow> ((A_OK, None), insert_key cmp kvs key node))
   | RB_Find_Or_Insert key node \<Rightarrow> (case lookup_key cmp kvs key of
         Some (k, a) \<Rightarrow> ((A_OK, Some a), kvs) | None \<Rightarrow> ((A_OK, Some node), insert_key cmp kvs key node))
   | RB_Find key \<Rightarrow> (case lookup_key cmp kvs key of
         Some (k, a) \<Rightarrow> ((A_OK, Some a), kvs) | None \<Rightarrow> ((A_E_NOTFOUND, Some NULL), kvs))
   | RB_Remove node \<Rightarrow> ((A_OK, None), filter (\<lambda>(k, a). a \<noteq> node) kvs)
   | RB_Next node \<Rightarrow> ((A_OK, Some (node_after node kvs)), kvs))"

text \<open>The caller passes keys that the callback can compare, inserts nodes of a set \<open>N\<close> that are not in the tree, and removes
  nodes that are.\<close>

definition rb_call_legal :: "addr set \<Rightarrow> addr set \<Rightarrow> (addr \<times> addr) list \<Rightarrow> rb_call \<Rightarrow> bool" where
  "rb_call_legal K N kvs c \<longleftrightarrow> (case c of
     RB_Insert key node \<Rightarrow> key \<in> K \<and> node \<in> N \<and> node \<notin> snd ` set kvs
   | RB_Find_Or_Insert key node \<Rightarrow> key \<in> K \<and> node \<in> N \<and> node \<notin> snd ` set kvs
   | RB_Find key \<Rightarrow> key \<in> K \<and> key \<noteq> NULL
   | RB_Remove node \<Rightarrow> node \<in> snd ` set kvs
   | RB_Next node \<Rightarrow> node \<in> snd ` set kvs)"

subsection \<open>The relation\<close>

definition keyed :: "rb_mem \<Rightarrow> addr list \<Rightarrow> (addr \<times> addr) list" where
  "keyed m xs = map (\<lambda>a. (rb_key (m a), a)) xs"

text \<open>The nodes of \<open>N\<close> that are not in the tree have NULL links.\<close>

definition rb_rel :: "addr set \<Rightarrow> addr set \<Rightarrow> (addr \<Rightarrow> addr \<Rightarrow> int) \<Rightarrow> rb_mem \<times> 's rb_tree \<Rightarrow> (addr \<times> addr) list \<Rightarrow> bool" where
  "rb_rel K N cmp s kvs \<longleftrightarrow> (case s of (m, t) \<Rightarrow> rb_cmp t = cmp \<and> NULL \<notin> N \<and>
     (\<exists>xs. rb_repr K m t xs \<and> kvs = keyed m xs \<and> (\<forall>a \<in> N - set xs. unlinked m a)))"

lemma rb_relE:
  assumes "rb_rel K N cmp s kvs"
  obtains m t xs where "s = (m, t)" "rb_repr K m t xs" "kvs = keyed m xs" "rb_cmp t = cmp" "NULL \<notin> N" "\<forall>a \<in> N - set xs. unlinked m a"
  using assms by (cases s) (auto simp: rb_rel_def)

lemma keyed_simps [simp]: "snd ` set (keyed m xs) = set xs" "filter (\<lambda>(k, a). a \<noteq> node) (keyed m xs) = keyed m (filter (\<lambda>a. a \<noteq> node) xs)"
  by (force simp: keyed_def) (simp add: keyed_def filter_map comp_def)

lemma keyed_cong: "(\<And>a. a \<in> set xs \<Longrightarrow> rb_key (m' a) = rb_key (m a)) \<Longrightarrow> keyed m' xs = keyed m xs"
  by (simp add: keyed_def)

lemma lookup_keyed:
  "lookup_key cmp (keyed m xs) key = map_option (\<lambda>a. (rb_key (m a), a)) (List.find (\<lambda>a. cmp key (rb_key (m a)) = 0) xs)"
  by (induction xs) (simp_all add: lookup_key_def keyed_def)

lemma insert_keyed:
  assumes "rb_key (m' node) = key" "\<And>a. a \<in> set xs \<Longrightarrow> rb_key (m' a) = rb_key (m a)"
  shows "insert_key cmp (keyed m xs) key node = keyed m' (insert_node cmp m key node xs)"
proof -
  have "keyed m' (takeWhile P xs) = keyed m (takeWhile P xs)" "keyed m' (dropWhile P xs) = keyed m (dropWhile P xs)" for P
    using assms(2) by (intro keyed_cong; auto dest: set_takeWhileD set_dropWhileD)+
  then show ?thesis using assms(1)
    by (simp add: insert_key_def insert_node_def keyed_def takeWhile_map dropWhile_map comp_def)
qed

lemma node_after_keyed: "distinct (xs @ a # ys) \<Longrightarrow> node_after a (keyed m (xs @ a # ys)) = (if ys = [] then NULL else hd ys)"
proof (induction xs)
  case Nil
  then show ?case by (cases ys) (simp_all add: keyed_def)
next
  case (Cons x xs)
  then have "node_after a (keyed m (x # xs @ a # ys)) = node_after a (keyed m (xs @ a # ys))"
    by (cases xs) (auto simp: keyed_def)
  then show ?case using Cons by simp
qed

text \<open>No call changes the callback.\<close>

lemma insert_keeps_callback:
  "rb_tree_insert m (Some t) key node = Some (r, m', Some t') \<Longrightarrow> rb_compare t' = rb_compare t \<and> rb_state t' = rb_state t"
  by (auto simp: rb_tree_insert_def Let_def split: if_split_asm Option.bind_split_asm option.split_asm prod.split_asm)

lemma find_or_insert_keeps_callback:
  assumes "rb_tree_find_or_insert m (Some t) key node v = Some (r, m', Some t', v')"
  shows "rb_compare t' = rb_compare t \<and> rb_state t' = rb_state t"
  using assms unfolding rb_tree_find_or_insert_def
  by (auto simp: bind_eq_Some_conv Let_def case_prod_unfold split: if_splits option.splits)

subsection \<open>Each call\<close>

lemma repr_distinct: "rb_repr K m t xs \<Longrightarrow> distinct xs"
  by (auto simp: rb_repr_def rb_valid_def tree_at_def)

lemma unlinked_fresh: "unlinked m node \<Longrightarrow> node \<noteq> NULL \<Longrightarrow> node \<notin> set xs \<Longrightarrow> fresh_node m xs node"
  by (simp add: unlinked_def fresh_node_def)

lemma set_insert_node: "set (insert_node cmp m key node xs) = insert node (set xs)"
proof -
  have "set xs = set (takeWhile P xs) \<union> set (dropWhile P xs)" for P by (metis set_append takeWhile_dropWhile_id)
  then show ?thesis by (auto simp: insert_node_def)
qed

lemma unlinked_cong: "m' a = m a \<Longrightarrow> unlinked m' a = unlinked m a"
  by (simp add: unlinked_def)

lemma find_none_iff: "(\<exists>a \<in> set xs. P a) \<longleftrightarrow> List.find P xs \<noteq> None"
  by (auto simp: find_None_iff)

lemma run_insert:
  assumes r: "rb_repr K m t xs" and l: "key \<in> K" "node \<in> N" "node \<notin> set xs" and N: "NULL \<notin> N" "\<forall>a \<in> N - set xs. unlinked m a"
  shows "\<exists>m' t'. rb_call_run (m, t) (RB_Insert key node) = Some (fst (rb_call_spec (rb_cmp t) (keyed m xs) (RB_Insert key node)), m', t') \<and>
    rb_rel K N (rb_cmp t) (m', t') (snd (rb_call_spec (rb_cmp t) (keyed m xs) (RB_Insert key node)))"
proof -
  have n: "node \<noteq> NULL" "unlinked m node" using l(2,3) N by auto
  note i = insert_refines [OF r l(1) unlinked_fresh [OF n(2,1) l(3)], unfolded find_none_iff]
  have frame: "unlinked m' a" if "rb_tree_insert m (Some t) key node = Some (ret, m', t')" "a \<in> N - set xs" "a \<noteq> node" for ret m' t' a
    using insert_frame [OF r n(2) that(1), of a] that(2,3) N unlinked_cong [of m' a m] by auto
  show ?thesis
  proof (cases "List.find (\<lambda>a. rb_cmp t key (rb_key (m a)) = 0) xs")
    case None
    then obtain m' t' where m': "rb_tree_insert m (Some t) key node = Some (A_OK, m', Some t')"
      "rb_repr K m' t' (insert_node (rb_cmp t) m key node xs)" "rb_key (m' node) = key" "\<forall>a \<in> set xs. rb_key (m' a) = rb_key (m a)"
      using i by auto
    have "insert_key (rb_cmp t) (keyed m xs) key node = keyed m' (insert_node (rb_cmp t) m key node xs)"
      using insert_keyed [of m' node key xs m] m'(3,4) by blast
    then show ?thesis
      using None insert_keeps_callback [OF m'(1)] m'(1,2) frame [OF m'(1)] N(1)
      by (auto simp: rb_call_run_def rb_call_spec_def lookup_keyed rb_rel_def set_insert_node
          intro!: exI [of _ "insert_node (rb_cmp t) m key node xs"])
  next
    case (Some a)
    then obtain m' where m': "rb_tree_insert m (Some t) key node = Some (A_E_BUSY, m', Some t)" "rb_repr K m' t xs"
      "\<forall>a \<in> set xs. m' a = m a"
      using i by auto
    then have "keyed m' xs = keyed m xs" by (intro keyed_cong) simp
    then show ?thesis
      using Some m' frame [OF m'(1)] busy_unlinked [OF m'(1)] n(2) N(1)
      by (auto simp: rb_call_run_def rb_call_spec_def lookup_keyed rb_rel_def intro!: exI [of _ xs])
  qed
qed

lemma run_find_or_insert:
  assumes r: "rb_repr K m t xs" and l: "key \<in> K" "node \<in> N" "node \<notin> set xs" and N: "NULL \<notin> N" "\<forall>a \<in> N - set xs. unlinked m a"
  shows "\<exists>m' t'. rb_call_run (m, t) (RB_Find_Or_Insert key node) = Some (fst (rb_call_spec (rb_cmp t) (keyed m xs) (RB_Find_Or_Insert key node)), m', t') \<and>
    rb_rel K N (rb_cmp t) (m', t') (snd (rb_call_spec (rb_cmp t) (keyed m xs) (RB_Find_Or_Insert key node)))"
proof -
  have n: "node \<noteq> NULL" "unlinked m node" using l(2,3) N by auto
  note i = find_or_insert_refines [OF r l(1) unlinked_fresh [OF n(2,1) l(3)], of NULL]
  have frame: "unlinked m' a" if "rb_tree_find_or_insert m (Some t) key node (Some NULL) = Some (ret, m', t', v')"
      "a \<in> N - set xs" "a \<noteq> node" for ret m' t' v' a
    using find_or_insert_frame [OF r n(2) that(1), of a] that(2,3) N unlinked_cong [of m' a m] by auto
  show ?thesis
  proof (cases "List.find (\<lambda>a. rb_cmp t key (rb_key (m a)) = 0) xs")
    case None
    then obtain m' t' where m': "rb_tree_find_or_insert m (Some t) key node (Some NULL) = Some (A_OK, m', Some t', Some node)"
      "rb_repr K m' t' (insert_node (rb_cmp t) m key node xs)" "rb_key (m' node) = key" "\<forall>a \<in> set xs. rb_key (m' a) = rb_key (m a)"
      using i by auto
    have "insert_key (rb_cmp t) (keyed m xs) key node = keyed m' (insert_node (rb_cmp t) m key node xs)"
      using insert_keyed [of m' node key xs m] m'(3,4) by blast
    then show ?thesis
      using None find_or_insert_keeps_callback [OF m'(1)] m'(1,2) frame [OF m'(1)] N(1)
      by (auto simp: rb_call_run_def rb_call_spec_def lookup_keyed rb_rel_def set_insert_node
          intro!: exI [of _ "insert_node (rb_cmp t) m key node xs"])
  next
    case (Some a)
    then obtain m' where m': "rb_tree_find_or_insert m (Some t) key node (Some NULL) = Some (A_OK, m', Some t, Some a)"
      "rb_repr K m' t xs" "\<forall>a \<in> set xs. m' a = m a"
      using i by auto
    have "a \<in> set xs" using Some by (metis find_Some_iff nth_mem)
    then have "unlinked m' node" using found_unlinked [OF m'(1)] l(3) n(2) by auto
    moreover have "keyed m' xs = keyed m xs" using m'(3) by (intro keyed_cong) simp
    ultimately show ?thesis
      using Some m' frame [OF m'(1)] N(1)
      by (auto simp: rb_call_run_def rb_call_spec_def lookup_keyed rb_rel_def intro!: exI [of _ xs])
  qed
qed

lemma remove_refines_keyed:
  assumes r: "rb_repr K m t xs" and l: "node \<in> set xs" and N: "NULL \<notin> N" "\<forall>a \<in> N - set xs. unlinked m a"
  shows "\<exists>m' t'. rb_call_run (m, t) (RB_Remove node) = Some ((A_OK, None), m', t') \<and>
    rb_rel K N (rb_cmp t) (m', t') (filter (\<lambda>(k, a). a \<noteq> node) (keyed m xs))"
proof -
  obtain m' t' where m': "rb_tree_remove m (Some t) node = Some (A_OK, m', Some t')" "rb_repr K m' t' (remove1 node xs)"
    "unlinked m' node" "same_keys m m'" "rb_compare t' = rb_compare t" "rb_state t' = rb_state t"
    using remove1_refines [OF r l] by blast
  have xs: "remove1 node xs = filter (\<lambda>a. a \<noteq> node) xs"
    using distinct_remove1_removeAll [OF repr_distinct [OF r]] by (simp add: removeAll_filter_not_eq eq_commute)
  moreover have "keyed m' ys = keyed m ys" for ys using m'(4) by (simp add: keyed_def same_keys_def)
  moreover have "unlinked m' a" if "a \<in> N" "a \<notin> set xs" for a
    using remove_frame [OF r l m'(1) that(2)] that N unlinked_cong [of m' a m] by auto
  ultimately show ?thesis using m' N(1) by (auto simp: rb_call_run_def rb_rel_def intro!: exI [of _ "filter (\<lambda>a. a \<noteq> node) xs"])
qed

interpretation rb_calls: data_refinement rb_call_run "rb_call_spec cmp" "rb_rel K N cmp" "rb_call_legal K N"
  for cmp :: "addr \<Rightarrow> addr \<Rightarrow> int" and K N :: "addr set"
proof unfold_locales
  fix s :: "rb_mem \<times> 's rb_tree" and kvs c
  assume rel: "rb_rel K N cmp s kvs" and legal: "rb_call_legal K N kvs c"
  obtain m t xs where s: "s = (m, t)" and r: "rb_repr K m t xs" and kvs: "kvs = keyed m xs" and cmp: "rb_cmp t = cmp"
    and N: "NULL \<notin> N" "\<forall>a \<in> N - set xs. unlinked m a"
    using rel by (rule rb_relE)
  show "\<exists>s'. rb_call_run s c = Some (fst (rb_call_spec cmp kvs c), s') \<and> rb_rel K N cmp s' (snd (rb_call_spec cmp kvs c))"
  proof (cases c)
    case (RB_Insert key node)
    then show ?thesis using run_insert [OF r _ _ _ N, of key node] legal s kvs cmp by (auto simp: rb_call_legal_def)
  next
    case (RB_Find_Or_Insert key node)
    then show ?thesis using run_find_or_insert [OF r _ _ _ N, of key node] legal s kvs cmp by (auto simp: rb_call_legal_def)
  next
    case (RB_Find key)
    then show ?thesis
      using find_refines [OF r, of key NULL] legal s kvs cmp rel
      by (auto simp: rb_call_legal_def rb_call_run_def rb_call_spec_def lookup_keyed split: option.splits)
  next
    case (RB_Remove node)
    then show ?thesis using remove_refines_keyed [OF r _ N, of node] legal s kvs cmp by (auto simp: rb_call_legal_def rb_call_spec_def)
  next
    case (RB_Next node)
    then have "node \<in> set xs" using legal kvs by (simp add: rb_call_legal_def)
    then obtain ys zs where xs: "xs = ys @ node # zs" by (meson split_list)
    then have rr: "rb_repr K m t (ys @ node # zs)" and d: "distinct (ys @ node # zs)" using r repr_distinct [OF r] by simp_all
    obtain l rt k where at: "tree_at m (rb_root t) (Node l node rt) k" "zs = inorder rt @ after k"
      using split_at [OF rr] .
    have "rb_tree_find_successor m (Some t) node (Some NULL) = Some (A_OK, Some (node_after node kvs))"
      using successor_at(2) [OF at(1), folded at(2)] node_after_keyed [OF d, of m] kvs xs by (cases zs) (simp_all add: next_node_def)
    then show ?thesis using RB_Next s rel by (simp add: rb_call_run_def rb_call_spec_def)
  qed
qed

subsection \<open>Properties\<close>

lemma new_tree_rel:
  assumes "rb_order K (cmp st)" "rb_tree_new_ex (Some t0) (Some cmp) st = (r, Some t)" "NULL \<notin> N" "\<forall>a \<in> N. unlinked m a"
  shows "rb_rel K N (cmp st) (m, t) []" "r = A_OK"
proof -
  have t: "t = t0\<lparr>rb_root := NULL, rb_compare := Some cmp, rb_state := st\<rparr>" "r = A_OK"
    using assms(2) by (simp_all add: rb_tree_new_ex_def)
  have "rb_valid m NULL Leaf" by (simp add: rb_valid_def tree_at_def black_def)
  then have "rb_repr K m t []" using assms(1) by (auto simp: rb_repr_def t ordered_def)
  then show "rb_rel K N (cmp st) (m, t) []" using assms(3,4) by (auto simp: rb_rel_def t keyed_def)
  show "r = A_OK" by (rule t)
qed

text \<open>What happens to a node with stale links: the insertion into an empty tree keeps all of them, so the tree is not
  well-formed afterwards.\<close>

lemma insert_keeps_stale_links:
  assumes "rb_root t = NULL" "node \<noteq> NULL" "\<not> unlinked m node"
  shows "\<exists>m' t'. rb_tree_insert m (Some t) key node = Some (A_OK, m', Some t') \<and> rb_root t' = node \<and> \<not> unlinked m' node \<and>
    \<not> rb_repr K m' t' [node]"
proof -
  let ?m = "m(node := (m node)\<lparr>rb_key := key, rb_color := COLOR_BLACK\<rparr>)" let ?t = "t\<lparr>rb_root := node, rb_rightmost := node\<rparr>"
  have run: "rb_tree_insert m (Some t) key node = Some (A_OK, ?m, Some ?t)"
    using assms(1,2) by (simp add: rb_tree_insert_def wr_def)
  have u: "\<not> unlinked ?m node" using assms(3) by (simp add: unlinked_def)
  have "\<not> rb_repr K ?m ?t [node]"
  proof
    assume "rb_repr K ?m ?t [node]"
    then obtain T where T: "is_tree ?m NULL T" "ptr T = node" "inorder T = [node]" by (rule rb_reprE) simp
    obtain l a r where "T = Node l a r" using T(3) by (cases T) auto
    then have "l = Leaf" "r = Leaf" using T(3) by (cases l; cases r; simp)+
    then show False using T(1,2) u \<open>T = Node l a r\<close> by (simp add: unlinked_def)
  qed
  then show ?thesis using run u by auto
qed

text \<open>Claim C3. Any sequence of insertions, lookups, removals and steps to the next node on a new tree returns and gives
  the same answers as on a list of keys and nodes in key order; afterwards the tree is a valid red-black tree whose
  nodes, in order and with their keys, are this list. The caller has to pass keys in the domain of the callback, to insert nodes
  of a set \<open>N\<close> that are not in the tree, and to remove nodes that are. The nodes of \<open>N\<close> have NULL links at the start, which
  nothing in the library sees to; from then on the code keeps the links of all nodes outside the tree NULL, so that removed and refused
  nodes may be inserted again.\<close>

theorem rb_tree_sequences_correct:
  assumes "rb_order K (cmp st)" "rb_tree_new_ex (Some t0) (Some cmp) st = (r, Some t)"
    and "NULL \<notin> N" "\<forall>a \<in> N. unlinked m a"
    and "legal_calls (rb_call_spec (cmp st)) (rb_call_legal K N) [] cs"
  shows "\<exists>m' t' xs. run_calls rb_call_run (m, t) cs = Some (fst (run_spec (rb_call_spec (cmp st)) [] cs), (m', t')) \<and>
    rb_repr K m' t' xs \<and> map (\<lambda>a. (rb_key (m' a), a)) xs = snd (run_spec (rb_call_spec (cmp st)) [] cs) \<and>
    (\<forall>a \<in> N - set xs. unlinked m' a)"
proof -
  obtain s' where s': "run_calls rb_call_run (m, t) cs = Some (fst (run_spec (rb_call_spec (cmp st)) [] cs), s')"
    "rb_rel K N (cmp st) s' (snd (run_spec (rb_call_spec (cmp st)) [] cs))"
    using rb_calls.calls_refine [OF new_tree_rel(1) [OF assms(1-4)] assms(5)] by blast
  obtain m' t' xs where "s' = (m', t')" "rb_repr K m' t' xs" "snd (run_spec (rb_call_spec (cmp st)) [] cs) = keyed m' xs"
    "\<forall>a \<in> N - set xs. unlinked m' a"
    using s'(2) by (rule rb_relE)
  then show ?thesis using s'(1) by (auto simp: keyed_def)
qed

text \<open>Four nodes in zeroed memory; the node 48 is removed and inserted again.\<close>

definition zeroed_nodes :: rb_mem where
  "zeroed_nodes = (\<lambda>_. \<lparr>rb_left = 0, rb_right = 0, rb_parent = 0, rb_key = 0, rb_color = 0\<rparr>)"

theorem rb_tree_sequences_correct_witness:
  "\<exists>m' t'. run_calls rb_call_run (zeroed_nodes, sample_tree\<lparr>rb_root := NULL\<rparr>)
      [RB_Insert 7 48, RB_Insert 5 16, RB_Insert 9 32, RB_Insert 5 64, RB_Find 7, RB_Remove 48, RB_Find 7, RB_Next 16, RB_Insert 8 48] =
    Some ([(A_OK, None), (A_OK, None), (A_OK, None), (A_E_BUSY, None), (A_OK, Some 48), (A_OK, None), (A_E_NOTFOUND, Some 0), (A_OK, Some 32),
      (A_OK, None)], (m', t')) \<and> rb_repr UNIV m' t' [16, 48, 32] \<and> unlinked m' 64"
proof -
  let ?cs = "[RB_Insert 7 48, RB_Insert 5 16, RB_Insert 9 32, RB_Insert 5 64, RB_Find 7, RB_Remove 48, RB_Find 7, RB_Next 16, RB_Insert 8 48]"
  let ?N = "{16, 32, 48, 64}"
  let ?rs = "[(A_OK, None), (A_OK, None), (A_OK, None), (A_E_BUSY, None), (A_OK, Some 48), (A_OK, None), (A_E_NOTFOUND, Some 0), (A_OK, Some 32),
      (A_OK, None)]"
  have t: "rb_tree_new_ex (Some sample_tree) (Some rb_sample_cmp) () = (A_OK, Some (sample_tree\<lparr>rb_root := NULL\<rparr>))"
    by (simp add: rb_tree_new_ex_def sample_tree_def)
  have N: "NULL \<notin> ?N" "\<forall>a \<in> ?N. unlinked zeroed_nodes a" by (simp_all add: unlinked_def zeroed_nodes_def)
  note e = rb_call_spec_def rb_call_legal_def lookup_key_def insert_key_def rb_sample_cmp_def
  have "legal_calls (rb_call_spec (rb_sample_cmp ())) (rb_call_legal UNIV ?N) [] ?cs"
    "run_spec (rb_call_spec (rb_sample_cmp ())) [] ?cs = (?rs, [(5, 16), (8, 48), (9, 32)])"
    by (simp_all add: e)
  then obtain m' t' xs where "run_calls rb_call_run (zeroed_nodes, sample_tree\<lparr>rb_root := NULL\<rparr>) ?cs = Some (?rs, (m', t'))"
    "rb_repr UNIV m' t' xs" "map (\<lambda>a. (rb_key (m' a), a)) xs = [(5, 16), (8, 48), (9, 32)]" "\<forall>a \<in> ?N - set xs. unlinked m' a"
    using rb_tree_sequences_correct [of UNIV rb_sample_cmp, OF sample_order t N, of ?cs] by auto
  moreover from this(3) have "map snd (map (\<lambda>a. (rb_key (m' a), a)) xs) = [16, 48, 32]" by simp
  then have "xs = [16, 48, 32]" by (simp add: comp_def)
  ultimately show ?thesis by fastforce
qed

end
