(* ===== verification/Slab_Allocator.thy ===== *)
theory Slab_Allocator
  imports TSL_List
begin

section \<open>Slab allocator (tsl/alloc.h, tsl/alloc/alloc_priv.h, tsl/alloc/allocator.c)\<close>

text \<open>
  Pages of one size are kept on the free list of a slab class; an allocator takes pages from its class,
  puts a slab header at the start of each and hands out the rest as items of one size. The memory of
  list entries is that of \<open>TSL_List\<close> (a free page holds a list entry at its start, and so does a slab
  header); the other fields of slab headers and the links in free items have a memory of their own.
  The system calls (\<open>mmap\<close>, \<open>malloc\<close>, \<open>sysconf\<close>, \<open>getenv\<close>) are arguments: what they returned. A panic is
  the fault \<open>None\<close>. The spin lock of a class is not state here: every operation is one call. \<open>Slab_Concurrent\<close> interleaves the
  calls of many threads on one class.
\<close>

subsection \<open>State\<close>

definition ALLOC_FLAG_NO_GROW :: u32 where "ALLOC_FLAG_NO_GROW = 0x1"
definition ALLOC_FLAG_HUGE_PAGE :: u32 where "ALLOC_FLAG_HUGE_PAGE = 0x2"
definition ALLOC_SLAB_NEXT_LINK :: addr where "ALLOC_SLAB_NEXT_LINK = 0xfefef0f0f1f1f5f5"
definition NR_HUGE_SLABS :: int where "NR_HUGE_SLABS = 32"
definition NR_NORMAL_SLABS :: int where "NR_NORMAL_SLABS = 512"

record slab_class =
  avail_slabs :: addr
  slab_bytes :: u64
  nr_slabs :: u64
  slab_base_ptr :: addr
  free_slabs :: u64

record slab_manager =
  normal_slabs :: slab_class
  huge_slabs :: slab_class
  slab_manager_initialized :: bool

text \<open>A pointer to one of the two classes of the manager.\<close>

datatype class_ptr = Normal_Slabs | Huge_Slabs

record allocator =
  al_slabs :: addr
  al_item_size :: u64
  al_max_items :: u64
  al_free_mask :: u64
  al_alloc_state :: "class_ptr option"
  al_flags :: u32
  al_slabs_taken :: u32

record slab =
  sl_free_items :: addr
  sl_flags :: u32
  sl_max_items :: u32
  sl_free_item_count :: u32
  sl_slab_size :: u32

record slab_heap =
  hp_list :: list_mem
  hp_slab :: "addr \<Rightarrow> slab"
  hp_next :: "addr \<Rightarrow> addr"

fun class_of :: "slab_manager \<Rightarrow> class_ptr \<Rightarrow> slab_class" where
  "class_of mgr Normal_Slabs = normal_slabs mgr"
| "class_of mgr Huge_Slabs = huge_slabs mgr"

text \<open>\<open>INIT_SLAB_CLASS\<close> and the initial manager; the arguments are the addresses of the list heads.\<close>

definition INIT_SLAB_CLASS :: "addr \<Rightarrow> slab_class" where
  "INIT_SLAB_CLASS h = \<lparr>avail_slabs = h, slab_bytes = 0, nr_slabs = 0, slab_base_ptr = NULL, free_slabs = 0\<rparr>"

definition mgr_boot :: "addr \<Rightarrow> addr \<Rightarrow> slab_manager" where
  "mgr_boot h1 h2 = \<lparr>normal_slabs = INIT_SLAB_CLASS h1, huge_slabs = INIT_SLAB_CLASS h2, slab_manager_initialized = False\<rparr>"

definition ROUND_16 :: "u64 \<Rightarrow> u64" where
  "ROUND_16 x = push_bit 4 (drop_bit 4 (x + 15))"

text \<open>The build defines \<open>SYS_CACHE_LINE_LENGTH\<close> as 64; \<open>struct slab\<close> has 40 bytes.\<close>

definition SYS_CACHE_LINE_LENGTH :: u64 where "SYS_CACHE_LINE_LENGTH = 64"
definition sizeof_slab :: u64 where "sizeof_slab = 40"

definition ROUND_CACHE_LINE :: "u64 \<Rightarrow> u64" where
  "ROUND_CACHE_LINE x = ((x + (SYS_CACHE_LINE_LENGTH - 1)) div SYS_CACHE_LINE_LENGTH) * SYS_CACHE_LINE_LENGTH"

subsection \<open>Pages\<close>

fun init_page_loop :: "list_mem \<Rightarrow> addr \<Rightarrow> addr \<Rightarrow> u64 \<Rightarrow> u64 \<Rightarrow> nat \<Rightarrow> list_mem" where
  "init_page_loop m head pages bytes offset 0 = m"
| "init_page_loop m head pages bytes offset (Suc n) =
     (let page_start = pages + offset;
          m = list_init m page_start;
          m = list_append m head page_start
      in init_page_loop m head pages bytes (offset + bytes) n)"

text \<open>\<open>__allocator_subsystem_init_page_class\<close>; \<open>mmap_result\<close> is \<open>None\<close> for \<open>MAP_FAILED\<close>.\<close>

definition allocator_subsystem_init_page_class ::
  "slab_heap \<Rightarrow> slab_class \<Rightarrow> u64 \<Rightarrow> u64 \<Rightarrow> addr option \<Rightarrow> (aresult_t \<times> slab_heap \<times> slab_class) option" where
  "allocator_subsystem_init_page_class hp cls nr bytes mmap_result =
     (if nr = 0 then Some (A_OK, hp, cls)
      else case mmap_result of
        None \<Rightarrow> None
      | Some pages \<Rightarrow>
          Some (A_OK, hp\<lparr>hp_list := init_page_loop (hp_list hp) (avail_slabs cls) pages bytes 0 (unat nr)\<rparr>,
                cls\<lparr>slab_bytes := bytes, nr_slabs := nr, slab_base_ptr := pages, free_slabs := nr\<rparr>))"

text \<open>\<open>__allocator_release_page\<close>\<close>

definition allocator_release_page :: "slab_heap \<Rightarrow> slab_class option \<Rightarrow> addr \<Rightarrow> aresult_t \<times> slab_heap" where
  "allocator_release_page hp cls ptr =
     (case cls of
        None \<Rightarrow> (A_E_BADARGS, hp)
      | Some cls \<Rightarrow>
          if \<not> ptr \<noteq> NULL then (A_E_BADARGS, hp)
          else (A_OK, hp\<lparr>hp_list := list_append (hp_list hp) (avail_slabs cls) ptr\<rparr>))"

text \<open>\<open>__allocator_acquire_page\<close>\<close>

definition allocator_acquire_page ::
  "slab_heap \<Rightarrow> slab_class option \<Rightarrow> addr option \<Rightarrow> aresult_t \<times> slab_heap \<times> addr option" where
  "allocator_acquire_page hp cls ptr =
     (case (cls, ptr) of
        (Some cls, Some p) \<Rightarrow>
          if list_empty (hp_list hp) (avail_slabs cls) then (A_E_NOMEM, hp, Some p)
          else let item = le_next (hp_list hp (avail_slabs cls))
               in (A_OK, hp\<lparr>hp_list := list_del (hp_list hp) item\<rparr>, Some item)
      | _ \<Rightarrow> (A_E_BADARGS, hp, ptr))"

text \<open>\<open>page_size\<close> is the answer of \<open>sysconf\<close>, \<open>a_nr_pages\<close> and \<open>a_nr_huge_pages\<close> the environment variables as
  \<open>atoi\<close> reads them, \<open>mmap1\<close> and \<open>mmap2\<close> the results of the two \<open>mmap\<close> calls.\<close>

definition allocator_subsystem_init ::
  "slab_heap \<Rightarrow> slab_manager \<Rightarrow> int \<Rightarrow> int option \<Rightarrow> int option \<Rightarrow> addr option \<Rightarrow> addr option \<Rightarrow>
   (aresult_t \<times> slab_heap \<times> slab_manager) option" where
  "allocator_subsystem_init hp mgr page_size a_nr_pages a_nr_huge_pages mmap1 mmap2 =
     (let nr_pages = NR_NORMAL_SLABS;
          nr_huge_pages = NR_HUGE_SLABS;
          huge_page_size = 2 * 1024 * 1024
      in
      if slab_manager_initialized mgr then Some (A_OK, hp, mgr)
      else if page_size < 1 then None
      else let nr_pages = (case a_nr_pages of Some n \<Rightarrow> n | None \<Rightarrow> nr_pages) in
      if 0 \<ge> nr_pages then None
      else do {
        (ret, hp, cls) \<leftarrow>
          allocator_subsystem_init_page_class hp (normal_slabs mgr) (word_of_int nr_pages) (word_of_int page_size) mmap1;
        let mgr = mgr\<lparr>normal_slabs := cls\<rparr>;
        if AFAILED ret then Some (ret, hp, mgr)
        else do {
          let nr_huge_pages = (case a_nr_huge_pages of Some n \<Rightarrow> n | None \<Rightarrow> nr_huge_pages);
          if 0 < nr_huge_pages then do {
            (ret, hp, cls) \<leftarrow>
              allocator_subsystem_init_page_class hp (huge_slabs mgr) (word_of_int nr_huge_pages) huge_page_size mmap2;
            let mgr = mgr\<lparr>huge_slabs := cls\<rparr>;
            if AFAILED ret then Some (ret, hp, mgr)
            else Some (ret, hp, mgr\<lparr>slab_manager_initialized := True\<rparr>) }
          else Some (ret, hp, mgr\<lparr>slab_manager_initialized := True\<rparr>) } })"

subsection \<open>Slabs and allocators\<close>

text \<open>\<open>__helper_slab_init\<close>; the division by a zero object size faults.\<close>

definition helper_slab_init :: "slab_heap \<Rightarrow> addr \<Rightarrow> u64 \<Rightarrow> u64 \<Rightarrow> (slab_heap \<times> addr) option" where
  "helper_slab_init hp slab_base obj_size slab_size =
     (let first_obj_offset = ROUND_CACHE_LINE sizeof_slab;
          hp = hp\<lparr>hp_list := list_init (hp_list hp) slab_base\<rparr>
      in
      if obj_size = 0 then None
      else let item_count = (slab_size - first_obj_offset) div obj_size;
               first = slab_base + first_obj_offset
           in Some (hp\<lparr>hp_slab := (hp_slab hp)(slab_base :=
                          \<lparr>sl_free_items = first, sl_flags = 0, sl_max_items = ucast item_count,
                           sl_free_item_count = ucast item_count, sl_slab_size = ucast slab_size\<rparr>),
                       hp_next := (hp_next hp)(first := ALLOC_SLAB_NEXT_LINK)\<rparr>, slab_base))"

text \<open>\<open>__helper_allocator_new_init\<close>: \<open>fresh\<close> is the memory that \<open>malloc\<close> returned, with its address in \<open>al_slabs\<close>
  and arbitrary contents.\<close>

definition helper_allocator_new_init ::
  "slab_heap \<Rightarrow> allocator option \<Rightarrow> slab_heap \<times> allocator option" where
  "helper_allocator_new_init hp fresh =
     (case fresh of
        None \<Rightarrow> (hp, None)
      | Some a \<Rightarrow> (hp\<lparr>hp_list := list_init (hp_list hp) (al_slabs a)\<rparr>,
                   Some (a\<lparr>al_item_size := 0, al_max_items := 0, al_free_mask := 0\<rparr>)))"

text \<open>\<open>__helper_add_slab\<close>\<close>

definition helper_add_slab :: "slab_heap \<Rightarrow> allocator \<Rightarrow> addr \<Rightarrow> slab_heap \<times> allocator" where
  "helper_add_slab hp alloc slab =
     (hp\<lparr>hp_list := list_prepend (hp_list hp) (al_slabs alloc) slab\<rparr>,
      alloc\<lparr>al_max_items := al_max_items alloc + ucast (sl_free_item_count (hp_slab hp slab))\<rparr>)"

text \<open>The page loop of \<open>allocator_new\<close>.\<close>

fun allocator_new_loop ::
  "slab_heap \<Rightarrow> slab_class \<Rightarrow> u64 \<Rightarrow> allocator \<Rightarrow> nat \<Rightarrow> (aresult_t \<times> slab_heap \<times> allocator) option" where
  "allocator_new_loop hp cls page_size new_alloc 0 = Some (A_OK, hp, new_alloc)"
| "allocator_new_loop hp cls page_size new_alloc (Suc n) =
     (case allocator_acquire_page hp (Some cls) (Some NULL) of
        (page_result, hp, new_page) \<Rightarrow>
          if AFAILED page_result then Some (page_result, hp, new_alloc)
          else do {
            page \<leftarrow> new_page;
            (hp, new_slab) \<leftarrow> helper_slab_init hp page (al_item_size new_alloc) page_size;
            let (hp, new_alloc) = helper_add_slab hp new_alloc new_slab;
            allocator_new_loop hp cls page_size new_alloc n })"

definition allocator_new ::
  "slab_heap \<Rightarrow> slab_manager \<Rightarrow> allocator option \<Rightarrow> allocator option option \<Rightarrow> u64 \<Rightarrow> u64 \<Rightarrow> u32 \<Rightarrow>
   (aresult_t \<times> slab_heap \<times> allocator option option) option" where
  "allocator_new hp mgr fresh alloc item_size item_count flags =
     (if \<not> alloc \<noteq> None then Some (A_E_BADARGS, hp, alloc)
      else if \<not> item_size \<noteq> 0 then Some (A_E_BADARGS, hp, alloc)
      else if \<not> item_count \<noteq> 0 then Some (A_E_BADARGS, hp, alloc)
      else
        let real_size = ROUND_16 item_size;
            cls_ptr = (if ALLOC_FLAG_HUGE_PAGE AND flags \<noteq> 0 then Huge_Slabs else Normal_Slabs);
            cls = class_of mgr cls_ptr;
            page_size = slab_bytes cls
        in
        if real_size = 0 then None
        else let items_per_slab = page_size div real_size in
        if items_per_slab = 0 then Some (A_E_NOMEM, hp, Some None)
        else case helper_allocator_new_init hp fresh of
          (hp, None) \<Rightarrow> Some (A_E_NOMEM, hp, Some None)
        | (hp, Some new_alloc) \<Rightarrow>
            let new_alloc = new_alloc\<lparr>al_item_size := real_size, al_free_mask := NOT (page_size - 1),
                                      al_alloc_state := Some cls_ptr\<rparr>;
                num_pages = (item_count + items_per_slab - 1) div items_per_slab
            in do {
              (result, hp, new_alloc) \<leftarrow> allocator_new_loop hp cls page_size new_alloc (unat num_pages);
              if AFAILED result then Some (result, hp, Some None)
              else Some (A_OK, hp, Some (Some new_alloc)) })"

text \<open>\<open>__helper_allocator_grow\<close>, \<open>__helper_allocator_shrink\<close>; a NULL \<open>alloc_state\<close> faults.\<close>

definition helper_allocator_grow ::
  "slab_heap \<Rightarrow> slab_manager \<Rightarrow> allocator \<Rightarrow> (aresult_t \<times> slab_heap \<times> allocator) option" where
  "helper_allocator_grow hp mgr alloc =
     do { cp \<leftarrow> al_alloc_state alloc;
          let cls = class_of mgr cp;
          case allocator_acquire_page hp (Some cls) (Some NULL) of
            (result, hp, new_page) \<Rightarrow>
              if AFAILED result then Some (result, hp, alloc)
              else do {
                page \<leftarrow> new_page;
                (hp, new_slab) \<leftarrow> helper_slab_init hp page (al_item_size alloc) (slab_bytes cls);
                let alloc = alloc\<lparr>al_slabs_taken := al_slabs_taken alloc + 1\<rparr>;
                let (hp, alloc) = helper_add_slab hp alloc new_slab;
                Some (result, hp, alloc) } }"

definition helper_allocator_shrink ::
  "slab_heap \<Rightarrow> slab_manager \<Rightarrow> allocator \<Rightarrow> addr \<Rightarrow> aresult_t \<times> slab_heap" where
  "helper_allocator_shrink hp mgr alloc slab =
     (let cls = map_option (class_of mgr) (al_alloc_state alloc) in
      if sl_free_item_count (hp_slab hp slab) \<noteq> sl_max_items (hp_slab hp slab) then (A_E_BADARGS, hp)
      else let hp = hp\<lparr>hp_list := list_del (hp_list hp) slab\<rparr> in allocator_release_page hp cls slab)"

text \<open>The part of \<open>allocator_alloc\<close> that takes an item from the slab \<open>first\<close>.\<close>

definition take_item :: "slab_heap \<Rightarrow> allocator \<Rightarrow> addr \<Rightarrow> aresult_t \<times> slab_heap \<times> addr" where
  "take_item hp alloc first =
     (if sl_free_item_count (hp_slab hp first) = 0 then (A_E_NOMEM, hp, NULL)
      else let item = sl_free_items (hp_slab hp first) in
      if item = NULL then (A_E_NOMEM, hp, NULL)
      else
        let hp = (if hp_next hp item = ALLOC_SLAB_NEXT_LINK then
                    let next = item + al_item_size alloc in
                    if next + al_item_size alloc \<le> first + ucast (sl_slab_size (hp_slab hp first))
                    then hp\<lparr>hp_next := (hp_next hp)(next := ALLOC_SLAB_NEXT_LINK, item := next)\<rparr>
                    else hp\<lparr>hp_next := (hp_next hp)(item := NULL)\<rparr>
                  else hp);
            hp = hp\<lparr>hp_slab := (hp_slab hp)(first := (hp_slab hp first)\<lparr>sl_free_items := hp_next hp item\<rparr>)\<rparr>;
            hp = hp\<lparr>hp_next := (hp_next hp)(item := NULL)\<rparr>;
            hp = hp\<lparr>hp_slab := (hp_slab hp)(first := (hp_slab hp first)\<lparr>sl_free_item_count :=
                    sl_free_item_count (hp_slab hp first) - 1\<rparr>)\<rparr>;
            hp = (if sl_free_item_count (hp_slab hp first) = 0
                  then hp\<lparr>hp_list := list_append (list_del (hp_list hp) first) (al_slabs alloc) first\<rparr>
                  else hp)
        in (A_OK, hp, item))"

text \<open>If the slab list stays empty because the allocator could not grow, the code reads the allocator itself
  as a slab; this is a fault.\<close>

definition allocator_alloc ::
  "slab_heap \<Rightarrow> slab_manager \<Rightarrow> allocator option \<Rightarrow> addr option \<Rightarrow>
   (aresult_t \<times> slab_heap \<times> allocator option \<times> addr option) option" where
  "allocator_alloc hp mgr alloc item_ptr =
     (case (alloc, item_ptr) of
        (Some a, Some _) \<Rightarrow>
          let growable = (al_flags a AND ALLOC_FLAG_NO_GROW = 0);
              first = le_next (hp_list hp (al_slabs a))
          in
          if list_empty (hp_list hp) (al_slabs a) \<or> sl_free_item_count (hp_slab hp first) = 0 then
            if growable then do {
              (_, hp, a) \<leftarrow> helper_allocator_grow hp mgr a;
              let first = le_next (hp_list hp (al_slabs a));
              if first = al_slabs a then None
              else let (result, hp, item) = take_item hp a first in Some (result, hp, Some a, Some item) }
            else Some (A_E_NOMEM, hp, Some a, Some NULL)
          else let (result, hp, item) = take_item hp a first in Some (result, hp, Some a, Some item)
      | _ \<Rightarrow> Some (A_E_BADARGS, hp, alloc, item_ptr))"

definition allocator_free ::
  "slab_heap \<Rightarrow> slab_manager \<Rightarrow> allocator option \<Rightarrow> addr option \<Rightarrow> (aresult_t \<times> slab_heap \<times> addr option) option" where
  "allocator_free hp mgr alloc item_ptr =
     (case (alloc, item_ptr) of
        (Some a, Some item) \<Rightarrow>
          if \<not> item \<noteq> NULL then Some (A_E_BADARGS, hp, item_ptr)
          else
            let slab = item AND al_free_mask a in
            if slab = NULL then None
            else
              let hp = hp\<lparr>hp_next := (hp_next hp)(item := sl_free_items (hp_slab hp slab))\<rparr>;
                  hp = hp\<lparr>hp_slab := (hp_slab hp)(slab := (hp_slab hp slab)\<lparr>sl_free_items := item\<rparr>)\<rparr>;
                  hp = hp\<lparr>hp_slab := (hp_slab hp)(slab := (hp_slab hp slab)\<lparr>sl_free_item_count :=
                          sl_free_item_count (hp_slab hp slab) + 1\<rparr>)\<rparr>;
                  (result, hp) =
                    (if sl_free_item_count (hp_slab hp slab) = sl_max_items (hp_slab hp slab) then
                       (if le_next (hp_list hp (al_slabs a)) \<noteq> le_prev (hp_list hp (al_slabs a))
                        then helper_allocator_shrink hp mgr a slab
                        else (A_OK, hp))
                     else (A_OK, hp\<lparr>hp_list := list_prepend (list_del (hp_list hp) slab) (al_slabs a) slab\<rparr>))
              in Some (result, hp, Some NULL)
      | _ \<Rightarrow> Some (A_E_BADARGS, hp, item_ptr))"

definition allocator_squeeze :: "allocator option \<Rightarrow> aresult_t" where
  "allocator_squeeze alloc = A_OK"

text \<open>The loop of \<open>allocator_delete\<close>: \<open>True\<close> if it ran to the end.\<close>

partial_function (option) allocator_delete_loop ::
  "slab_heap \<Rightarrow> slab_class \<Rightarrow> allocator \<Rightarrow> addr \<Rightarrow> addr \<Rightarrow> (bool \<times> slab_heap \<times> allocator) option" where
  "allocator_delete_loop hp cls dalloc slab tmp =
     (if slab \<noteq> al_slabs dalloc then
        if sl_max_items (hp_slab hp slab) \<noteq> sl_free_item_count (hp_slab hp slab) then Some (False, hp, dalloc)
        else
          let hp = hp\<lparr>hp_list := list_del (hp_list hp) slab\<rparr>;
              dalloc = dalloc\<lparr>al_max_items := al_max_items dalloc - ucast (sl_max_items (hp_slab hp slab))\<rparr>;
              hp = snd (allocator_release_page hp (Some cls) slab)
          in allocator_delete_loop hp cls dalloc tmp (le_next (hp_list hp tmp))
      else Some (True, hp, dalloc))"

definition allocator_delete ::
  "slab_heap \<Rightarrow> slab_manager \<Rightarrow> allocator option option \<Rightarrow> (aresult_t \<times> slab_heap \<times> allocator option option) option" where
  "allocator_delete hp mgr alloc =
     (case alloc of
        Some (Some dalloc) \<Rightarrow>
          (case al_alloc_state dalloc of
             None \<Rightarrow> Some (A_E_BADARGS, hp, alloc)
           | Some cp \<Rightarrow>
               let cls = class_of mgr cp;
                   head = al_slabs dalloc
               in do {
                 (finished, hp, dalloc) \<leftarrow>
                   (if \<not> list_empty (hp_list hp) head
                    then let slab = le_next (hp_list hp head)
                         in allocator_delete_loop hp cls dalloc slab (le_next (hp_list hp slab))
                    else Some (True, hp, dalloc));
                 if \<not> finished then Some (A_E_BUSY, hp, Some (Some dalloc))
                 else if \<not> list_empty (hp_list hp) head then Some (A_E_BUSY, hp, Some (Some dalloc))
                 else Some (A_OK, hp, Some None) })
      | _ \<Rightarrow> Some (A_E_BADARGS, hp, alloc))"

end
