(* ===== verification/Slab_Invariant.thy ===== *)
theory Slab_Invariant
  imports Slab_Allocator
begin

section \<open>Correctness of the slab allocator\<close>

text \<open>
  The state of an allocator as a set of live items: which item addresses have been handed out and not
  been returned. The invariant relates the slab list, the free lists inside the slabs (with the part of
  a slab that was never handed out, which is linked lazily) and the list of free pages to that set.
\<close>

subsection \<open>Addresses\<close>

definition item_at :: "u64 \<Rightarrow> addr \<Rightarrow> nat \<Rightarrow> addr" where
  "item_at sz s i = s + 64 + of_nat i * sz"

text \<open>A page of \<open>2^k\<close> bytes at an aligned address, with another page's room above it.\<close>

definition page_ok :: "nat \<Rightarrow> addr \<Rightarrow> bool" where
  "page_ok k s \<longleftrightarrow> s \<noteq> NULL \<and> 2 ^ k dvd unat s \<and> unat s + 2 * 2 ^ k < 2 ^ 64"

definition items_per_page :: "nat \<Rightarrow> u64 \<Rightarrow> nat" where
  "items_per_page k sz = (2 ^ k - 64) div unat sz"

definition geometry :: "nat \<Rightarrow> u64 \<Rightarrow> bool" where
  "geometry k sz \<longleftrightarrow> 7 \<le> k \<and> k < 32 \<and> sz \<noteq> 0 \<and> 16 dvd unat sz \<and> 0 < items_per_page k sz"

lemma geometryD:
  assumes "geometry k sz"
  shows "i < items_per_page k sz \<Longrightarrow> 64 + Suc i * unat sz \<le> 2 ^ k" "unat sz \<le> 2 ^ k" "items_per_page k sz < 2 ^ 32"
    "64 \<le> (2::nat) ^ k" "0 < unat sz"
proof -
  have k: "64 \<le> (2::nat) ^ k"
    using assms power_increasing [of 6 k "2::nat"] by (simp add: geometry_def)
  have "unat sz > 0" using assms by (simp add: geometry_def unat_gt_0)
  then show "0 < unat sz" .
  show *: "64 + Suc i * unat sz \<le> 2 ^ k" if "i < items_per_page k sz" for i
  proof -
    have "Suc i * unat sz \<le> items_per_page k sz * unat sz" using that by (intro mult_le_mono1) simp
    also have "\<dots> \<le> 2 ^ k - 64" by (simp add: items_per_page_def)
    finally show ?thesis using k by linarith
  qed
  show "unat sz \<le> 2 ^ k" using * [of 0] assms by (simp add: geometry_def)
  have "items_per_page k sz \<le> 2 ^ k - 64" by (simp add: items_per_page_def)
  also have "\<dots> < 2 ^ k" using k by linarith
  also have "\<dots> \<le> 2 ^ 32" using assms by (intro power_increasing) (auto simp: geometry_def)
  finally show "items_per_page k sz < 2 ^ 32" .
  show "64 \<le> (2::nat) ^ k" by (rule k)
qed

lemma geometry_last:
  assumes "geometry k sz" "\<not> i < items_per_page k sz"
  shows "\<not> 64 + Suc i * unat sz \<le> 2 ^ k"
proof
  assume "64 + Suc i * unat sz \<le> 2 ^ k"
  then have "Suc i * unat sz div unat sz \<le> (2 ^ k - 64) div unat sz" by (intro div_le_mono) linarith
  then show False using assms geometryD(5) [OF assms(1)] by (simp add: items_per_page_def)
qed

lemma unat_add_small: "unat (a :: 64 word) + unat b < 2 ^ 64 \<Longrightarrow> unat (a + b) = unat a + unat b"
  by (subst unat_add_lem [symmetric]) simp

lemma unat_item_at:
  assumes g: "geometry k sz" and s: "page_ok k s" and i: "i \<le> items_per_page k sz"
  shows "unat (item_at sz s i) = unat s + 64 + i * unat sz"
    and "unat (item_at sz s i + sz) = unat s + 64 + Suc i * unat sz"
proof -
  have b: "64 + i * unat sz \<le> 2 ^ k"
    using geometryD(1,4) [OF g] i g by (cases i) (auto simp: geometry_def)
  have iz: "unat (of_nat i * sz) = i * unat sz"
  proof -
    have "i * unat sz < 2 ^ 64" using b s by (simp add: page_ok_def)
    moreover have "i < 2 ^ 64" using i geometryD(3) [OF g] by simp
    ultimately show ?thesis by (simp add: unat_word_ariths unat_of_nat)
  qed
  have 1: "unat (s + 64) = unat s + 64" using s geometryD(4) [OF g] by (intro trans [OF unat_add_small]) (auto simp: page_ok_def)
  show 2: "unat (item_at sz s i) = unat s + 64 + i * unat sz"
    unfolding item_at_def using 1 iz b s by (subst unat_add_small) (auto simp: page_ok_def)
  show "unat (item_at sz s i + sz) = unat s + 64 + Suc i * unat sz"
    using 2 b s geometryD(2) [OF g] by (subst unat_add_small) (auto simp: page_ok_def)
qed

lemma item_at_Suc: "item_at sz s i + sz = item_at sz s (Suc i)"
  by (simp add: item_at_def algebra_simps)

lemma mask_page:
  assumes g: "geometry k sz" and s: "page_ok k s" and i: "i < items_per_page k sz"
  shows "item_at sz s i AND NOT (2 ^ k - 1) = s"
proof -
  let ?o = "64 + i * unat sz"
  have o: "?o < 2 ^ k" using geometryD(1) [OF g i] geometryD(5) [OF g] by simp
  have "item_at sz s i AND NOT (mask k) = item_at sz s i AND NOT (take_bit k (item_at sz s i))"
    by (rule bit_word_eqI) (auto simp: bit_and_iff bit_not_iff bit_take_bit_iff bit_mask_iff)
  also have "\<dots> = item_at sz s i - take_bit k (item_at sz s i)"
    by (intro disjunctive_diff [symmetric]) (simp add: bit_take_bit_iff)
  finally have "item_at sz s i AND NOT (mask k) = item_at sz s i - take_bit k (item_at sz s i)" .
  moreover have "unat (take_bit k (item_at sz s i)) = ?o"
  proof -
    obtain q where q: "unat s = 2 ^ k * q" using s by (auto simp: page_ok_def)
    have "unat (take_bit k (item_at sz s i)) = take_bit k (unat s + ?o)"
      using unat_item_at(1) [OF g s, of i] i by (simp add: unsigned_take_bit_eq add.assoc)
    then show ?thesis using o q by (simp add: take_bit_eq_mod)
  qed
  ultimately have "unat (item_at sz s i AND NOT (mask k)) = unat s"
    using unat_item_at(1) [OF g s, of i] i by (simp add: unat_sub word_le_nat_alt)
  then show ?thesis by (simp add: mask_eq_exp_minus_1 word_unat_eq_iff)
qed

lemma item_at_inj:
  assumes "geometry k sz" "page_ok k s" "page_ok k s'" "i < items_per_page k sz" "j < items_per_page k sz"
  shows "item_at sz s i = item_at sz s' j \<longleftrightarrow> s = s' \<and> i = j"
proof
  assume eq: "item_at sz s i = item_at sz s' j"
  then have "s = s'" using mask_page assms by metis
  moreover have "i * unat sz = j * unat sz"
    using unat_item_at(1) [OF assms(1,2), of i] unat_item_at(1) [OF assms(1,3), of j] assms(4,5) eq \<open>s = s'\<close> by auto
  then have "i = j" using geometryD(5) [OF assms(1)] by simp
  ultimately show "s = s' \<and> i = j" by simp
qed simp

lemma item_at_special:
  assumes "geometry k sz" "page_ok k s" "i < items_per_page k sz"
  shows "item_at sz s i \<noteq> NULL" "item_at sz s i \<noteq> ALLOC_SLAB_NEXT_LINK"
proof -
  have u: "unat (item_at sz s i) = unat s + 64 + i * unat sz" using unat_item_at(1) assms by simp
  then show "item_at sz s i \<noteq> NULL" by auto
  have "(16::nat) dvd 2 ^ k" using assms(1) le_imp_power_dvd [of 4 k "2::nat"] by (simp add: geometry_def)
  then have "16 dvd unat s" using assms(2) dvd_trans by (auto simp: page_ok_def)
  then have "16 dvd unat (item_at sz s i)" using u assms(1) by (auto simp: geometry_def)
  then show "item_at sz s i \<noteq> ALLOC_SLAB_NEXT_LINK" by (auto simp: ALLOC_SLAB_NEXT_LINK_def)
qed

lemma unat_pow2_u64: "k < 64 \<Longrightarrow> unat (2 ^ k :: u64) = 2 ^ k"
  using unat_of_nat [where 'a = 64, of "2 ^ k"] power_strict_increasing [of k 64 "2::nat"] by simp

text \<open>The bound check of \<open>allocator_alloc\<close> finds out exactly whether there is a next item in the page.\<close>

lemma next_fits:
  assumes g: "geometry k sz" and s: "page_ok k s" and i: "i < items_per_page k sz"
  shows "item_at sz s (Suc i) + sz \<le> s + ucast (2 ^ k :: u32) \<longleftrightarrow> Suc i < items_per_page k sz"
proof -
  have k: "k < 32" using g by (simp add: geometry_def)
  have "(ucast (2 ^ k :: u32) :: u64) = 2 ^ k"
    using k by (intro bit_word_eqI) (auto simp: bit_ucast_iff bit_exp_iff)
  then have "unat (ucast (2 ^ k :: u32) :: u64) = 2 ^ k" using k unat_pow2_u64 by simp
  then have "unat (s + ucast (2 ^ k :: u32)) = unat s + 2 ^ k"
    using s by (subst unat_add_small) (auto simp: page_ok_def)
  moreover have "unat (item_at sz s (Suc i) + sz) = unat s + 64 + Suc (Suc i) * unat sz"
    using unat_item_at(2) [OF g s, of "Suc i"] i by simp
  ultimately have "item_at sz s (Suc i) + sz \<le> s + ucast (2 ^ k :: u32) \<longleftrightarrow> 64 + Suc (Suc i) * unat sz \<le> 2 ^ k"
    by (simp add: word_le_nat_alt)
  then show ?thesis using geometryD(1) [OF g, of "Suc i"] geometry_last [OF g, of "Suc i"] by blast
qed

subsection \<open>Free lists\<close>

text \<open>\<open>chain nx it n p is\<close>: from pointer \<open>p\<close> the free list holds the items with the indices \<open>is\<close>. An item whose
  link is \<open>ALLOC_SLAB_NEXT_LINK\<close> stands for itself and all items above it.\<close>

fun chain :: "(addr \<Rightarrow> addr) \<Rightarrow> (nat \<Rightarrow> addr) \<Rightarrow> nat \<Rightarrow> addr \<Rightarrow> nat list \<Rightarrow> bool" where
  "chain nx it n p [] \<longleftrightarrow> p = NULL"
| "chain nx it n p (i # is) \<longleftrightarrow> i < n \<and> p = it i \<and>
     (if nx p = ALLOC_SLAB_NEXT_LINK then is = [Suc i ..< n] else chain nx it n (nx p) is)"

lemma chain_cong:
  "(\<And>i. i \<in> set is \<Longrightarrow> nx' (it i) = nx (it i)) \<Longrightarrow> chain nx' it n p is = chain nx it n p is"
  by (induction "is" arbitrary: p) auto

definition slab_ok :: "slab_heap \<Rightarrow> nat \<Rightarrow> u64 \<Rightarrow> addr set \<Rightarrow> addr \<Rightarrow> bool" where
  "slab_ok hp k sz L s \<longleftrightarrow>
     sl_slab_size (hp_slab hp s) = 2 ^ k \<and> sl_max_items (hp_slab hp s) = of_nat (items_per_page k sz) \<and>
     (\<exists>is. chain (hp_next hp) (item_at sz s) (items_per_page k sz) (sl_free_items (hp_slab hp s)) is \<and>
        distinct is \<and> set is = {i. i < items_per_page k sz \<and> item_at sz s i \<notin> L} \<and>
        sl_free_item_count (hp_slab hp s) = of_nat (length is))"

text \<open>Some item of the slab is free.\<close>

definition has_free :: "nat \<Rightarrow> u64 \<Rightarrow> addr set \<Rightarrow> addr \<Rightarrow> bool" where
  "has_free k sz L s \<longleftrightarrow> (\<exists>i < items_per_page k sz. item_at sz s i \<notin> L)"

lemma of_nat_u32_eq: "a < 2 ^ 32 \<Longrightarrow> b < 2 ^ 32 \<Longrightarrow> (of_nat a :: u32) = of_nat b \<longleftrightarrow> a = b"
proof
  assume b: "a < 2 ^ 32" "b < 2 ^ 32" and "(of_nat a :: u32) = of_nat b"
  then have "unat (of_nat a :: u32) = unat (of_nat b :: u32)" by simp
  then show "a = b" using b by (simp add: unat_of_nat)
qed simp

lemma free_indices_bound:
  "distinct is \<Longrightarrow> set is = {i. i < n \<and> P i} \<Longrightarrow> length is \<le> n"
proof -
  assume "distinct is" "set is = {i. i < n \<and> P i}"
  then have "length is = card {i. i < n \<and> P i}" using distinct_card by metis
  also have "\<dots> \<le> card {..< n}" by (intro card_mono) auto
  finally show ?thesis by simp
qed

lemma slab_ok_count:
  assumes "geometry k sz" "slab_ok hp k sz L s"
  shows "sl_free_item_count (hp_slab hp s) = 0 \<longleftrightarrow> \<not> has_free k sz L s"
    "sl_free_item_count (hp_slab hp s) = sl_max_items (hp_slab hp s) \<longleftrightarrow> (\<forall>i < items_per_page k sz. item_at sz s i \<notin> L)"
proof -
  let ?n = "items_per_page k sz"
  obtain "is" where i: "distinct is" "set is = {i. i < ?n \<and> item_at sz s i \<notin> L}"
    "sl_free_item_count (hp_slab hp s) = of_nat (length is)" "sl_max_items (hp_slab hp s) = of_nat ?n"
    using assms(2) by (auto simp: slab_ok_def)
  have n: "?n < 2 ^ 32" using geometryD(3) [OF assms(1)] .
  have le: "length is \<le> ?n" using free_indices_bound [OF i(1,2)] .
  have "of_nat (length is) = (0 :: u32) \<longleftrightarrow> is = []"
    using of_nat_u32_eq [of "length is" 0] le n by simp
  moreover have "is = [] \<longleftrightarrow> set is = {}" by simp
  moreover have "set is = {} \<longleftrightarrow> \<not> has_free k sz L s" unfolding i(2) has_free_def by blast
  ultimately show "sl_free_item_count (hp_slab hp s) = 0 \<longleftrightarrow> \<not> has_free k sz L s" unfolding i(3) by blast
  have "length is = ?n \<longleftrightarrow> (\<forall>i < ?n. item_at sz s i \<notin> L)"
  proof
    assume "length is = ?n"
    then have "card (set is) = card {..< ?n}" using distinct_card [OF i(1)] by simp
    moreover have "set is \<subseteq> {..< ?n}" using i(2) by auto
    ultimately have "set is = {..< ?n}" using card_subset_eq by blast
    then show "\<forall>i < ?n. item_at sz s i \<notin> L" using i(2) by blast
  next
    assume "\<forall>i < ?n. item_at sz s i \<notin> L"
    then have "set is = {..< ?n}" using i(2) by auto
    then show "length is = ?n" using distinct_card [OF i(1)] by simp
  qed
  then show "sl_free_item_count (hp_slab hp s) = sl_max_items (hp_slab hp s) \<longleftrightarrow> (\<forall>i < ?n. item_at sz s i \<notin> L)"
    using i(3,4) of_nat_u32_eq [of "length is" ?n] le n by simp
qed

subsection \<open>Taking and returning an item\<close>

text \<open>What an operation on slab \<open>s\<close> may touch: its header and the links of its items.\<close>

definition only_slab :: "nat \<Rightarrow> u64 \<Rightarrow> addr \<Rightarrow> slab_heap \<Rightarrow> slab_heap \<Rightarrow> bool" where
  "only_slab k sz s hp hp' \<longleftrightarrow>
     (\<forall>p. p \<noteq> s \<longrightarrow> hp_slab hp' p = hp_slab hp p) \<and>
     (\<forall>p. (\<forall>i < items_per_page k sz. p \<noteq> item_at sz s i) \<longrightarrow> hp_next hp' p = hp_next hp p)"

lemma slab_ok_frame:
  assumes g: "geometry k sz" and p: "page_ok k s" "page_ok k s'" and ne: "s \<noteq> s'"
    and o: "only_slab k sz s hp hp'" and ok: "slab_ok hp k sz L s'"
    and L: "\<And>i. i < items_per_page k sz \<Longrightarrow> item_at sz s' i \<in> L' \<longleftrightarrow> item_at sz s' i \<in> L"
  shows "slab_ok hp' k sz L' s'"
proof -
  have s: "hp_slab hp' s' = hp_slab hp s'" using o ne by (simp add: only_slab_def)
  have n: "hp_next hp' (item_at sz s' i) = hp_next hp (item_at sz s' i)" if "i < items_per_page k sz" for i
    using o item_at_inj [OF g p(2,1) that] ne by (auto simp: only_slab_def)
  obtain "is" where i: "chain (hp_next hp) (item_at sz s') (items_per_page k sz) (sl_free_items (hp_slab hp s')) is"
    "distinct is" "set is = {i. i < items_per_page k sz \<and> item_at sz s' i \<notin> L}"
    "sl_free_item_count (hp_slab hp s') = of_nat (length is)"
    "sl_slab_size (hp_slab hp s') = 2 ^ k" "sl_max_items (hp_slab hp s') = of_nat (items_per_page k sz)"
    using ok by (auto simp: slab_ok_def)
  have "chain (hp_next hp') (item_at sz s') (items_per_page k sz) (sl_free_items (hp_slab hp s')) is"
    using i(1,3) n by (subst chain_cong [where nx = "hp_next hp"]) auto
  moreover have "set is = {i. i < items_per_page k sz \<and> item_at sz s' i \<notin> L'}" using i(3) L by blast
  ultimately show ?thesis unfolding slab_ok_def s using i(2,4-6) by blast
qed

lemma take_item_ok:
  assumes g: "geometry k sz" and p: "page_ok k s" and ok: "slab_ok hp k sz L s" and f: "has_free k sz L s"
    and a: "al_item_size a = sz"
  obtains hp' i where "take_item hp a s = (A_OK, hp', item_at sz s i)" "i < items_per_page k sz" "item_at sz s i \<notin> L"
    "slab_ok hp' k sz (insert (item_at sz s i) L) s" "only_slab k sz s hp hp'"
    "hp_list hp' = (if has_free k sz (insert (item_at sz s i) L) s then hp_list hp
                    else list_append (list_del (hp_list hp) s) (al_slabs a) s)"
proof -
  let ?n = "items_per_page k sz" and ?it = "item_at sz s"
  obtain js where j: "chain (hp_next hp) ?it ?n (sl_free_items (hp_slab hp s)) js" "distinct js"
    "set js = {i. i < ?n \<and> ?it i \<notin> L}" "sl_free_item_count (hp_slab hp s) = of_nat (length js)"
    "sl_slab_size (hp_slab hp s) = 2 ^ k" "sl_max_items (hp_slab hp s) = of_nat ?n"
    using ok by (auto simp: slab_ok_def)
  have "set js \<noteq> {}" unfolding j(3) using f by (auto simp: has_free_def)
  then have "js \<noteq> []" by simp
  then obtain i "is" where js: "js = i # is" by (cases js) auto
  have i: "i < ?n" "?it i \<notin> L" using j(3) js by auto
  have item: "sl_free_items (hp_slab hp s) = ?it i" using j(1) js by simp
  have c0: "sl_free_item_count (hp_slab hp s) \<noteq> 0" using slab_ok_count(1) [OF g ok] f by simp
  define nx where "nx = (if hp_next hp (?it i) = ALLOC_SLAB_NEXT_LINK
      then (if Suc i < ?n then (hp_next hp)(?it (Suc i) := ALLOC_SLAB_NEXT_LINK, ?it i := ?it (Suc i))
            else (hp_next hp)(?it i := NULL)) else hp_next hp)"
  have nxi: "chain nx ?it ?n (nx (?it i)) is"
  proof (cases "hp_next hp (?it i) = ALLOC_SLAB_NEXT_LINK")
    case True
    then have "is = [Suc i ..< ?n]" using j(1) js by simp
    moreover have "?it (Suc i) \<noteq> ?it i" if "Suc i < ?n" using item_at_inj [OF g p p that i(1)] by simp
    ultimately show ?thesis using True by (auto simp: nx_def upt_conv_Cons)
  next
    case False
    then show ?thesis using j(1) js item by (auto simp: nx_def)
  qed
  have ch: "chain (nx(?it i := NULL)) ?it ?n (nx (?it i)) is"
  proof (subst chain_cong [where nx = nx])
    fix l assume "l \<in> set is"
    then have "l < ?n" "l \<noteq> i" using j(2,3) js by auto
    then show "(nx(?it i := NULL)) (?it l) = nx (?it l)" using item_at_inj [OF g p p _ i(1)] by simp
  qed (rule nxi)
  define hp2 where "hp2 = hp\<lparr>hp_slab := (hp_slab hp)(s := (hp_slab hp s)\<lparr>sl_free_items := nx (?it i),
      sl_free_item_count := sl_free_item_count (hp_slab hp s) - 1\<rparr>), hp_next := nx(?it i := NULL)\<rparr>"
  define hp' where "hp' = (if sl_free_item_count (hp_slab hp s) - 1 = 0
      then hp2\<lparr>hp_list := list_append (list_del (hp_list hp) s) (al_slabs a) s\<rparr> else hp2)"
  have t: "take_item hp a s = (A_OK, hp', ?it i)"
  proof -
    have "next + sz \<le> s + ucast (sl_slab_size (hp_slab hp s)) \<longleftrightarrow> Suc i < ?n" if "next = ?it i + sz" for "next"
      using next_fits [OF g p i(1)] that j(5) by (simp add: item_at_Suc)
    then show ?thesis
      using c0 item item_at_special(1) [OF g p i(1)] a
      unfolding take_item_def hp'_def hp2_def nx_def by (simp add: item_at_Suc Let_def)
  qed
  have len: "sl_free_item_count (hp_slab hp s) - 1 = of_nat (length is)" using j(4) js by simp
  have idx: "set is = {l. l < ?n \<and> ?it l \<notin> insert (?it i) L}"
    using j(2,3) js item_at_inj [OF g p p _ i(1)] by auto
  have ok': "slab_ok hp' k sz (insert (?it i) L) s"
    unfolding slab_ok_def
  proof (intro conjI exI)
    show "chain (hp_next hp') ?it ?n (sl_free_items (hp_slab hp' s)) is" using ch by (simp add: hp'_def hp2_def)
    show "set is = {l. l < ?n \<and> ?it l \<notin> insert (?it i) L}" by (rule idx)
  qed (use j js len in \<open>simp_all add: hp'_def hp2_def\<close>)
  have "sl_free_item_count (hp_slab hp' s) = sl_free_item_count (hp_slab hp s) - 1" by (simp add: hp'_def hp2_def)
  then have l: "hp_list hp' = (if has_free k sz (insert (?it i) L) s then hp_list hp
      else list_append (list_del (hp_list hp) s) (al_slabs a) s)"
    using slab_ok_count(1) [OF g ok'] by (simp add: hp'_def hp2_def)
  have "only_slab k sz s hp hp'" using i(1) by (auto simp: only_slab_def hp'_def hp2_def nx_def)
  then show ?thesis using that t i ok' l by blast
qed

definition put_item :: "slab_heap \<Rightarrow> addr \<Rightarrow> addr \<Rightarrow> slab_heap" where
  "put_item hp s item = hp\<lparr>hp_next := (hp_next hp)(item := sl_free_items (hp_slab hp s)),
     hp_slab := (hp_slab hp)(s := (hp_slab hp s)\<lparr>sl_free_items := item,
       sl_free_item_count := sl_free_item_count (hp_slab hp s) + 1\<rparr>)\<rparr>"

lemma put_item_ok:
  assumes g: "geometry k sz" and p: "page_ok k s" and ok: "slab_ok hp k sz L s"
    and i: "i < items_per_page k sz" "item_at sz s i \<in> L"
  shows "slab_ok (put_item hp s (item_at sz s i)) k sz (L - {item_at sz s i}) s"
    "only_slab k sz s hp (put_item hp s (item_at sz s i))"
proof -
  let ?n = "items_per_page k sz" and ?it = "item_at sz s"
  let ?hp = "put_item hp s (?it i)"
  obtain js where j: "chain (hp_next hp) ?it ?n (sl_free_items (hp_slab hp s)) js" "distinct js"
    "set js = {i. i < ?n \<and> ?it i \<notin> L}" "sl_free_item_count (hp_slab hp s) = of_nat (length js)"
    "sl_slab_size (hp_slab hp s) = 2 ^ k" "sl_max_items (hp_slab hp s) = of_nat ?n"
    using ok by (auto simp: slab_ok_def)
  have ij: "i \<notin> set js" unfolding j(3) using i by simp
  have link: "sl_free_items (hp_slab hp s) \<noteq> ALLOC_SLAB_NEXT_LINK"
    using j(1) item_at_special(2) [OF g p] by (cases js) (auto simp: ALLOC_SLAB_NEXT_LINK_def)
  have "chain (hp_next ?hp) ?it ?n (sl_free_items (hp_slab hp s)) js"
  proof (subst chain_cong [where nx = "hp_next hp"])
    fix l assume "l \<in> set js"
    then have "l < ?n" "l \<noteq> i" using j(3) ij by auto
    then show "hp_next ?hp (?it l) = hp_next hp (?it l)" using item_at_inj [OF g p p _ i(1)] by (simp add: put_item_def)
  qed (rule j(1))
  then have ch: "chain (hp_next ?hp) ?it ?n (?it i) (i # js)" using i(1) link by (simp add: put_item_def)
  show "slab_ok ?hp k sz (L - {?it i}) s"
    unfolding slab_ok_def
  proof (intro conjI exI)
    have "sl_free_items (hp_slab ?hp s) = ?it i" by (simp add: put_item_def)
    then show "chain (hp_next ?hp) ?it ?n (sl_free_items (hp_slab ?hp s)) (i # js)" using ch by (simp only:)
    show "set (i # js) = {l. l < ?n \<and> ?it l \<notin> L - {?it i}}"
      using j(3) i item_at_inj [OF g p p _ i(1)] by auto
  qed (use j ij in \<open>simp_all add: put_item_def\<close>)
  show "only_slab k sz s hp ?hp" using i(1) by (auto simp: only_slab_def put_item_def)
qed

lemma slab_init_ok:
  assumes g: "geometry k sz" and p: "page_ok k s" and L: "\<And>i. i < items_per_page k sz \<Longrightarrow> item_at sz s i \<notin> L"
  obtains hp' where "helper_slab_init hp s sz (2 ^ k) = Some (hp', s)" "slab_ok hp' k sz L s" "only_slab k sz s hp hp'"
    "hp_list hp' = list_init (hp_list hp) s"
proof -
  let ?n = "items_per_page k sz"
  have k: "k < 32" "sz \<noteq> 0" "0 < ?n" using g by (auto simp: geometry_def)
  have off: "ROUND_CACHE_LINE sizeof_slab = 64" by code_simp
  have "unat ((2 ^ k - 64 :: u64) div sz) = ?n"
  proof -
    have "unat (2 ^ k - 64 :: u64) = 2 ^ k - 64"
      using unat_pow2_u64 [of k] k geometryD(4) [OF g] by (simp add: unat_sub word_le_nat_alt)
    then show ?thesis by (simp add: unat_div items_per_page_def)
  qed
  moreover have n: "?n < 2 ^ 32" using geometryD(3) [OF g] .
  ultimately have w: "(2 ^ k - 64 :: u64) div sz = of_nat ?n" by (simp add: word_unat_eq_iff unat_of_nat)
  have u: "(ucast (of_nat ?n :: u64) :: u32) = of_nat ?n"
    using n by (simp add: word_unat_eq_iff unat_of_nat unsigned_ucast_eq take_bit_eq_mod)
  have s32: "(ucast (2 ^ k :: u64) :: u32) = 2 ^ k"
    using k by (intro bit_word_eqI) (auto simp: bit_ucast_iff bit_exp_iff)
  define hp' where "hp' = hp\<lparr>hp_list := list_init (hp_list hp) s,
      hp_slab := (hp_slab hp)(s := \<lparr>sl_free_items = s + 64, sl_flags = 0, sl_max_items = of_nat ?n,
        sl_free_item_count = of_nat ?n, sl_slab_size = 2 ^ k\<rparr>),
      hp_next := (hp_next hp)(s + 64 := ALLOC_SLAB_NEXT_LINK)\<rparr>"
  have "helper_slab_init hp s sz (2 ^ k) = Some (hp', s)"
    using k(2) by (simp add: helper_slab_init_def off w u s32 hp'_def Let_def)
  moreover have "slab_ok hp' k sz L s"
    unfolding slab_ok_def
  proof (intro conjI exI)
    show "chain (hp_next hp') (item_at sz s) ?n (sl_free_items (hp_slab hp' s)) [0 ..< ?n]"
      using k(3) by (simp add: upt_conv_Cons hp'_def item_at_def)
    show "set [0 ..< ?n] = {i. i < ?n \<and> item_at sz s i \<notin> L}" using L by auto
  qed (simp_all add: hp'_def)
  moreover have "only_slab k sz s hp hp'"
    using k(3) by (auto simp: only_slab_def hp'_def item_at_def)
  ultimately show ?thesis using that by (simp add: hp'_def)
qed

subsection \<open>The invariant\<close>

definition alloc_inv ::
  "nat \<Rightarrow> slab_manager \<Rightarrow> slab_heap \<Rightarrow> allocator \<Rightarrow> addr list \<Rightarrow> addr list \<Rightarrow> addr set \<Rightarrow> bool" where
  "alloc_inv k mgr hp a xs fs L \<longleftrightarrow>
     (let sz = al_item_size a in
      geometry k sz \<and> al_free_mask a = NOT (2 ^ k - 1) \<and>
      (\<exists>cp. al_alloc_state a = Some cp \<and> slab_bytes (class_of mgr cp) = 2 ^ k \<and>
         is_list (hp_list hp) (avail_slabs (class_of mgr cp)) fs \<and>
         set (avail_slabs (class_of mgr cp) # fs) \<inter> set (al_slabs a # xs) = {}) \<and>
      is_list (hp_list hp) (al_slabs a) xs \<and> xs \<noteq> [] \<and>
      (\<forall>s \<in> set xs \<union> set fs. page_ok k s) \<and>
      (\<forall>s \<in> set xs. slab_ok hp k sz L s) \<and>
      L \<subseteq> (\<Union>s \<in> set xs. item_at sz s ` {..< items_per_page k sz}) \<and>
      (\<exists>ys zs. xs = ys @ zs \<and> (\<forall>s \<in> set ys. has_free k sz L s) \<and> (\<forall>s \<in> set zs. \<not> has_free k sz L s)))"

text \<open>The invariant as introduction and elimination rules, with the class made explicit.\<close>

lemma alloc_invE:
  assumes "alloc_inv k mgr hp a xs fs L"
  obtains cp ys zs where "geometry k (al_item_size a)" "al_free_mask a = NOT (2 ^ k - 1)" "al_alloc_state a = Some cp"
    "slab_bytes (class_of mgr cp) = 2 ^ k" "is_list (hp_list hp) (avail_slabs (class_of mgr cp)) fs"
    "set (avail_slabs (class_of mgr cp) # fs) \<inter> set (al_slabs a # xs) = {}"
    "is_list (hp_list hp) (al_slabs a) xs" "xs \<noteq> []" "\<forall>s \<in> set xs \<union> set fs. page_ok k s"
    "\<forall>s \<in> set xs. slab_ok hp k (al_item_size a) L s"
    "L \<subseteq> (\<Union>s \<in> set xs. item_at (al_item_size a) s ` {..< items_per_page k (al_item_size a)})"
    "xs = ys @ zs" "\<forall>s \<in> set ys. has_free k (al_item_size a) L s" "\<forall>s \<in> set zs. \<not> has_free k (al_item_size a) L s"
  using assms unfolding alloc_inv_def Let_def by blast

lemma alloc_invI:
  assumes "geometry k (al_item_size a)" "al_free_mask a = NOT (2 ^ k - 1)" "al_alloc_state a = Some cp"
    "slab_bytes (class_of mgr cp) = 2 ^ k" "is_list (hp_list hp) (avail_slabs (class_of mgr cp)) fs"
    "set (avail_slabs (class_of mgr cp) # fs) \<inter> set (al_slabs a # xs) = {}"
    "is_list (hp_list hp) (al_slabs a) xs" "xs \<noteq> []" "\<forall>s \<in> set xs \<union> set fs. page_ok k s"
    "\<forall>s \<in> set xs. slab_ok hp k (al_item_size a) L s"
    "L \<subseteq> (\<Union>s \<in> set xs. item_at (al_item_size a) s ` {..< items_per_page k (al_item_size a)})"
    "xs = ys @ zs" "\<forall>s \<in> set ys. has_free k (al_item_size a) L s" "\<forall>s \<in> set zs. \<not> has_free k (al_item_size a) L s"
  shows "alloc_inv k mgr hp a xs fs L"
  using assms unfolding alloc_inv_def Let_def by blast

text \<open>A list operation inside the family of the two lists leaves the other list alone.\<close>

lemma move_to_back:
  assumes "is_list m h (s # xs)" "is_list m g ys" "set (g # ys) \<inter> set (h # s # xs) = {}"
  shows "is_list (list_append (list_del m s) h s) h (xs @ [s])" "is_list (list_append (list_del m s) h s) g ys"
proof -
  have d: "distinct (h # s # xs)" using is_list_distinct [OF assms(1)] .
  have 1: "is_list (list_del m s) h xs" using is_list_del [OF assms(1), of s] by simp
  have 2: "is_list (list_del m s) g ys" using il.del_frame [OF assms(1) _ assms(2), of s] assms(3) by auto
  show "is_list (list_append (list_del m s) h s) h (xs @ [s])" using is_list_append [OF 1, of s] d by auto
  show "is_list (list_append (list_del m s) h s) g ys" using il.app_frame [OF 1 2, of s] assms(3) by auto
qed

lemma move_to_front:
  assumes "is_list m h xs" "s \<in> set xs" "is_list m g ys" "set (g # ys) \<inter> set (h # xs) = {}"
  shows "is_list (list_prepend (list_del m s) h s) h (s # remove1 s xs)" "is_list (list_prepend (list_del m s) h s) g ys"
proof -
  have d: "distinct (h # xs)" using is_list_distinct [OF assms(1)] .
  have 1: "is_list (list_del m s) h (remove1 s xs)" using is_list_del [OF assms(1,2)] .
  have 2: "is_list (list_del m s) g ys" using il.del_frame [OF assms(1,2,3,4)] .
  have r: "set (remove1 s xs) = set xs - {s}" using d by simp
  show "is_list (list_prepend (list_del m s) h s) h (s # remove1 s xs)"
    using is_list_prepend [OF 1, of s] d assms(2) r by auto
  show "is_list (list_prepend (list_del m s) h s) g ys" using il.pre_frame [OF 1 2, of s] assms(2,4) r by auto
qed

lemma give_back_lists:
  assumes "is_list m h xs" "s \<in> set xs" "is_list m g ys" "set (g # ys) \<inter> set (h # xs) = {}"
  shows "is_list (list_append (list_del m s) g s) g (ys @ [s])" "is_list (list_append (list_del m s) g s) h (remove1 s xs)"
proof -
  have d: "distinct (h # xs)" using is_list_distinct [OF assms(1)] .
  have 1: "is_list (list_del m s) h (remove1 s xs)" using is_list_del [OF assms(1,2)] .
  have 2: "is_list (list_del m s) g ys" using il.del_frame [OF assms(1,2,3,4)] .
  have r: "set (remove1 s xs) = set xs - {s}" using d by simp
  show "is_list (list_append (list_del m s) g s) g (ys @ [s])"
    using is_list_append [OF 2, of s] assms(2,4) by auto
  have "set (h # remove1 s xs) \<inter> set (s # g # ys) = {}" using assms(2,4) d r by auto
  then show "is_list (list_append (list_del m s) g s) h (remove1 s xs)" by (rule il.app_frame [OF 2 1])
qed

text \<open>Items of different slabs, or of different indices, are different.\<close>

lemma items_of_other_slab:
  assumes "geometry k sz" "page_ok k s" "page_ok k s'" "s \<noteq> s'" "i < items_per_page k sz" "j < items_per_page k sz"
  shows "item_at sz s i \<noteq> item_at sz s' j"
  using item_at_inj [OF assms(1-3,5,6)] assms(4) by simp

lemma take_keeps_inv:
  assumes inv: "alloc_inv k mgr hp a (s # xs) fs L" and f: "has_free k (al_item_size a) L s"
  obtains hp' item xs' where "take_item hp a s = (A_OK, hp', item)" "item \<notin> L" "alloc_inv k mgr hp' a xs' fs (insert item L)"
proof -
  let ?sz = "al_item_size a"
  obtain cp ys zs where I: "geometry k ?sz" "al_free_mask a = NOT (2 ^ k - 1)" "al_alloc_state a = Some cp"
    "slab_bytes (class_of mgr cp) = 2 ^ k" "is_list (hp_list hp) (avail_slabs (class_of mgr cp)) fs"
    "set (avail_slabs (class_of mgr cp) # fs) \<inter> set (al_slabs a # s # xs) = {}"
    "is_list (hp_list hp) (al_slabs a) (s # xs)" "s # xs \<noteq> []" "\<forall>s \<in> set (s # xs) \<union> set fs. page_ok k s"
    "\<forall>s \<in> set (s # xs). slab_ok hp k ?sz L s"
    "L \<subseteq> (\<Union>s \<in> set (s # xs). item_at ?sz s ` {..< items_per_page k ?sz})"
    "s # xs = ys @ zs" "\<forall>s \<in> set ys. has_free k ?sz L s" "\<forall>s \<in> set zs. \<not> has_free k ?sz L s"
    using inv by (rule alloc_invE)
  have pg: "page_ok k s" and ok: "slab_ok hp k ?sz L s" using I(9,10) by auto
  obtain hp' i where t: "take_item hp a s = (A_OK, hp', item_at ?sz s i)" "i < items_per_page k ?sz" "item_at ?sz s i \<notin> L"
    "slab_ok hp' k ?sz (insert (item_at ?sz s i) L) s" "only_slab k ?sz s hp hp'"
    "hp_list hp' = (if has_free k ?sz (insert (item_at ?sz s i) L) s then hp_list hp
                    else list_append (list_del (hp_list hp) s) (al_slabs a) s)"
    using take_item_ok [OF I(1) pg ok f refl] by blast
  let ?L = "insert (item_at ?sz s i) L"
  have d: "distinct (s # xs)" using is_list_distinct [OF I(7)] by simp
  have others: "slab_ok hp' k ?sz ?L r \<and> has_free k ?sz ?L r = has_free k ?sz L r" if "r \<in> set xs" for r
  proof -
    have r: "s \<noteq> r" "page_ok k r" "slab_ok hp k ?sz L r" using that d I(9,10) by auto
    have ne: "item_at ?sz r j \<in> ?L \<longleftrightarrow> item_at ?sz r j \<in> L" if "j < items_per_page k ?sz" for j
      using items_of_other_slab [OF I(1) pg r(2,1) t(2) that] by auto
    then show ?thesis using slab_ok_frame [OF I(1) pg r(2,1) t(5) r(3) ne] by (auto simp: has_free_def)
  qed
  define xs' where "xs' = (if has_free k ?sz ?L s then s # xs else xs @ [s])"
  have set': "set xs' = set (s # xs)" by (auto simp: xs'_def)
  have lists: "is_list (hp_list hp') (al_slabs a) xs'" "is_list (hp_list hp') (avail_slabs (class_of mgr cp)) fs"
    using t(6) I(5-7) move_to_back [OF I(7,5,6)] by (simp_all add: xs'_def)
  have "ys \<noteq> []" using f I(12,14) by (cases ys) auto
  then obtain ys' where ys': "ys = s # ys'" "xs = ys' @ zs" using I(12) by (cases ys) auto
  have "alloc_inv k mgr hp' a xs' fs ?L"
  proof (rule alloc_invI [OF I(1-4) lists(2)])
    show "set (avail_slabs (class_of mgr cp) # fs) \<inter> set (al_slabs a # xs') = {}" using I(6) set' by simp
    show "is_list (hp_list hp') (al_slabs a) xs'" by (rule lists(1))
    show "xs' \<noteq> []" by (simp add: xs'_def)
    show "\<forall>s \<in> set xs' \<union> set fs. page_ok k s" using I(9) set' by simp
    show "\<forall>s \<in> set xs'. slab_ok hp' k ?sz ?L s" using others t(4) set' by auto
    show "?L \<subseteq> (\<Union>s \<in> set xs'. item_at ?sz s ` {..< items_per_page k ?sz})" using I(11) t(2) set' by auto
    show "xs' = (if has_free k ?sz ?L s then ys else ys') @ (if has_free k ?sz ?L s then zs else zs @ [s])"
      using ys' by (simp add: xs'_def)
    show "\<forall>s \<in> set (if has_free k ?sz ?L s then ys else ys'). has_free k ?sz ?L s"
      using ys' others I(13) by auto
    show "\<forall>r \<in> set (if has_free k ?sz ?L s then zs else zs @ [s]). \<not> has_free k ?sz ?L r"
      using ys' others I(14) by auto
  qed
  then show ?thesis using that t by blast
qed

lemma acquire_page_ok:
  assumes "is_list (hp_list hp) (avail_slabs cls) fs"
  shows "allocator_acquire_page hp (Some cls) (Some q) =
    (case fs of [] \<Rightarrow> (A_E_NOMEM, hp, Some q) | p # _ \<Rightarrow> (A_OK, hp\<lparr>hp_list := list_del (hp_list hp) p\<rparr>, Some p))"
  using is_list_empty_iff [OF assms] is_list_ends(1) [OF assms]
  by (auto simp: allocator_acquire_page_def split: list.split)

text \<open>Taking a page and putting it in front of the allocator's list, on the level of the lists.\<close>

lemma take_page_lists:
  assumes "is_list m h xs" "is_list m g (p # fs)" "set (g # p # fs) \<inter> set (h # xs) = {}"
  shows "is_list (list_prepend (list_init (list_del m p) p) h p) h (p # xs)"
    "is_list (list_prepend (list_init (list_del m p) p) h p) g fs"
proof -
  have d: "distinct (g # p # fs)" using is_list_distinct [OF assms(2)] .
  have init: "is_list (list_init m' p) h' ys = is_list m' h' ys" if "p \<notin> set (h' # ys)" for m' h' ys
    using that by (intro is_list_cong) (auto simp: list_init_def set_next_def set_prev_def)
  have 1: "is_list (list_init (list_del m p) p) g fs"
    using is_list_del [OF assms(2), of p] d by (subst init) auto
  have 2: "is_list (list_init (list_del m p) p) h xs"
    using il.del_frame [OF assms(2) _ assms(1), of p] assms(3) by (subst init) auto
  show "is_list (list_prepend (list_init (list_del m p) p) h p) h (p # xs)"
    using is_list_prepend [OF 2, of p] assms(3) by auto
  show "is_list (list_prepend (list_init (list_del m p) p) h p) g fs"
    using il.pre_frame [OF 2 1, of p] assms(3) d by auto
qed

text \<open>Initialising a page and adding it keeps all slabs well-formed.\<close>

lemma add_page_ok:
  assumes g: "geometry k sz" and xs: "is_list m h xs" "is_list m g (p # fs)" "set (g # p # fs) \<inter> set (h # xs) = {}"
    and pg: "\<forall>s \<in> set xs \<union> set (p # fs). page_ok k s" and m: "m = hp_list hp" and a: "al_slabs a = h" "al_item_size a = sz"
    and ok: "\<forall>s \<in> set xs. slab_ok hp k sz L s"
    and L: "L \<subseteq> (\<Union>s \<in> set xs. item_at sz s ` {..< items_per_page k sz})"
  obtains hp1 hp' a' where "helper_slab_init (hp\<lparr>hp_list := list_del m p\<rparr>) p sz (2 ^ k) = Some (hp1, p)"
    "helper_add_slab hp1 a p = (hp', a')" "is_list (hp_list hp') h (p # xs)" "is_list (hp_list hp') g fs"
    "\<forall>s \<in> set (p # xs). slab_ok hp' k sz L s" "\<And>i. i < items_per_page k sz \<Longrightarrow> item_at sz p i \<notin> L"
    "al_item_size a' = sz" "al_free_mask a' = al_free_mask a" "al_alloc_state a' = al_alloc_state a" "al_slabs a' = h"
    "al_flags a' = al_flags a"
proof -
  let ?hp = "hp\<lparr>hp_list := list_del m p\<rparr>"
  have p: "page_ok k p" using pg by simp
  have px: "p \<notin> set xs" using xs(3) by auto
  have free: "item_at sz p i \<notin> L" if i: "i < items_per_page k sz" for i
  proof
    assume "item_at sz p i \<in> L"
    then obtain s j where "s \<in> set xs" "j < items_per_page k sz" "item_at sz p i = item_at sz s j" using L by blast
    then show False using item_at_inj [OF g p _ i, of s j] pg px by auto
  qed
  obtain hp1 where s: "helper_slab_init ?hp p sz (2 ^ k) = Some (hp1, p)" "slab_ok hp1 k sz L p"
    "only_slab k sz p ?hp hp1" "hp_list hp1 = list_init (list_del m p) p"
    using slab_init_ok [OF g p free, of ?hp] by auto
  have o: "only_slab k sz p hp hp1" using s(3) by (simp add: only_slab_def)
  obtain hp' a' where h: "helper_add_slab hp1 a p = (hp', a')" by fastforce
  then have h': "hp' = hp1\<lparr>hp_list := list_prepend (hp_list hp1) h p\<rparr>"
    "a' = a\<lparr>al_max_items := al_max_items a + ucast (sl_free_item_count (hp_slab hp1 p))\<rparr>"
    using a by (auto simp: helper_add_slab_def)
  have same: "slab_ok hp' k sz L r = slab_ok hp1 k sz L r" for r by (simp add: slab_ok_def h')
  have "slab_ok hp1 k sz L r" if "r \<in> set xs" for r
    using that pg px ok by (intro slab_ok_frame [OF g p _ _ o, where L = L]) auto
  then have "\<forall>s \<in> set (p # xs). slab_ok hp' k sz L s" using s(2) same by simp
  then show ?thesis
    using that [OF s(1) h] take_page_lists [OF xs] s(4) free h' a by simp
qed

lemma grow_ok:
  assumes inv: "alloc_inv k mgr hp a xs fs L"
  shows "case fs of
    [] \<Rightarrow> helper_allocator_grow hp mgr a = Some (A_E_NOMEM, hp, a)
  | p # fs' \<Rightarrow> \<exists>hp' a'. helper_allocator_grow hp mgr a = Some (A_OK, hp', a') \<and> alloc_inv k mgr hp' a' (p # xs) fs' L \<and>
      has_free k (al_item_size a') L p \<and> al_slabs a' = al_slabs a \<and> al_flags a' = al_flags a \<and> al_item_size a' = al_item_size a"
proof -
  let ?sz = "al_item_size a"
  obtain cp ys zs where I: "geometry k ?sz" "al_free_mask a = NOT (2 ^ k - 1)" "al_alloc_state a = Some cp"
    "slab_bytes (class_of mgr cp) = 2 ^ k" "is_list (hp_list hp) (avail_slabs (class_of mgr cp)) fs"
    "set (avail_slabs (class_of mgr cp) # fs) \<inter> set (al_slabs a # xs) = {}"
    "is_list (hp_list hp) (al_slabs a) xs" "xs \<noteq> []" "\<forall>s \<in> set xs \<union> set fs. page_ok k s"
    "\<forall>s \<in> set xs. slab_ok hp k ?sz L s"
    "L \<subseteq> (\<Union>s \<in> set xs. item_at ?sz s ` {..< items_per_page k ?sz})"
    "xs = ys @ zs" "\<forall>s \<in> set ys. has_free k ?sz L s" "\<forall>s \<in> set zs. \<not> has_free k ?sz L s"
    using inv by (rule alloc_invE)
  note acq = acquire_page_ok [OF I(5), of NULL]
  show ?thesis
  proof (cases fs)
    case Nil
    then show ?thesis using acq I(3) by (simp add: helper_allocator_grow_def)
  next
    case (Cons p fs')
    let ?a = "a\<lparr>al_slabs_taken := al_slabs_taken a + 1\<rparr>"
    obtain hp1 hp' a' where s: "helper_slab_init (hp\<lparr>hp_list := list_del (hp_list hp) p\<rparr>) p ?sz (2 ^ k) = Some (hp1, p)"
      "helper_add_slab hp1 ?a p = (hp', a')" "is_list (hp_list hp') (al_slabs a) (p # xs)"
      "is_list (hp_list hp') (avail_slabs (class_of mgr cp)) fs'"
      "\<forall>s \<in> set (p # xs). slab_ok hp' k ?sz L s" "\<And>i. i < items_per_page k ?sz \<Longrightarrow> item_at ?sz p i \<notin> L"
      "al_item_size a' = ?sz" "al_free_mask a' = al_free_mask ?a" "al_alloc_state a' = al_alloc_state ?a" "al_slabs a' = al_slabs a"
      "al_flags a' = al_flags ?a"
      using add_page_ok [OF I(1,7) I(5) [unfolded Cons] I(6) [unfolded Cons] I(9) [unfolded Cons] refl _ _ I(10,11), of ?a] by auto
    have free: "has_free k ?sz L p" using s(6) I(1) by (auto simp: has_free_def geometry_def)
    have "helper_allocator_grow hp mgr a = Some (A_OK, hp', a')"
      using acq I(3,4) Cons s(1,2) by (simp add: helper_allocator_grow_def)
    moreover have "alloc_inv k mgr hp' a' (p # xs) fs' L"
    proof (rule alloc_invI [where cp = cp and ys = "p # ys" and zs = zs])
      have "distinct (p # fs')" using is_list_distinct [OF I(5)] Cons by simp
      then show "set (avail_slabs (class_of mgr cp) # fs') \<inter> set (al_slabs a' # p # xs) = {}"
        using I(6) s(10) Cons is_list_distinct [OF I(5)] by auto
    qed (use I s free Cons in auto)
    ultimately show ?thesis using Cons free s by auto
  qed
qed

lemma alloc_step:
  assumes inv: "alloc_inv k mgr hp a xs fs L" and grow: "al_flags a AND ALLOC_FLAG_NO_GROW = 0"
  shows "if fs = [] \<and> (\<forall>s \<in> set xs. \<not> has_free k (al_item_size a) L s)
    then allocator_alloc hp mgr (Some a) (Some v) = Some (A_E_NOMEM, hp, Some a, Some NULL)
    else \<exists>hp' a' item xs' fs'. allocator_alloc hp mgr (Some a) (Some v) = Some (A_OK, hp', Some a', Some item) \<and>
      item \<notin> L \<and> alloc_inv k mgr hp' a' xs' fs' (insert item L) \<and> al_flags a' = al_flags a \<and> al_item_size a' = al_item_size a"
proof -
  let ?sz = "al_item_size a"
  obtain cp ys zs where I: "geometry k ?sz" "is_list (hp_list hp) (al_slabs a) xs" "xs \<noteq> []"
    "\<forall>s \<in> set xs. slab_ok hp k ?sz L s" "xs = ys @ zs" "\<forall>s \<in> set ys. has_free k ?sz L s" "\<forall>s \<in> set zs. \<not> has_free k ?sz L s"
    using inv by (rule alloc_invE)
  obtain s xs1 where xs: "xs = s # xs1" using I(3) by (cases xs) auto
  have first: "le_next (hp_list hp (al_slabs a)) = s" "\<not> list_empty (hp_list hp) (al_slabs a)"
    using is_list_ends(1) [OF I(2)] is_list_empty_iff [OF I(2)] xs by simp_all
  have cnt: "sl_free_item_count (hp_slab hp s) = 0 \<longleftrightarrow> \<not> has_free k ?sz L s"
    using slab_ok_count(1) [OF I(1)] I(4) xs by simp
  have none: "\<not> has_free k ?sz L s \<Longrightarrow> \<forall>r \<in> set xs. \<not> has_free k ?sz L r"
    using I(5-7) xs by (cases ys) auto
  show ?thesis
  proof (cases "has_free k ?sz L s")
    case True
    obtain hp' item xs' where t: "take_item hp a s = (A_OK, hp', item)" "item \<notin> L" "alloc_inv k mgr hp' a xs' fs (insert item L)"
      using take_keeps_inv [OF inv [unfolded xs] True] by blast
    then have "allocator_alloc hp mgr (Some a) (Some v) = Some (A_OK, hp', Some a, Some item)"
      using True cnt first by (simp add: allocator_alloc_def)
    then show ?thesis using t True xs by auto
  next
    case False
    show ?thesis
    proof (cases fs)
      case Nil
      have "helper_allocator_grow hp mgr a = Some (A_E_NOMEM, hp, a)" using grow_ok [OF inv] Nil by simp
      moreover have "s \<noteq> al_slabs a" using is_list_distinct [OF I(2)] xs by auto
      moreover have "take_item hp a s = (A_E_NOMEM, hp, NULL)" using cnt False by (simp add: take_item_def)
      ultimately have "allocator_alloc hp mgr (Some a) (Some v) = Some (A_E_NOMEM, hp, Some a, Some NULL)"
        using False cnt first grow by (simp add: allocator_alloc_def)
      then show ?thesis using Nil none [OF False] by simp
    next
      case (Cons p fs')
      obtain hp1 a1 where g: "helper_allocator_grow hp mgr a = Some (A_OK, hp1, a1)" "alloc_inv k mgr hp1 a1 (p # xs) fs' L"
        "has_free k (al_item_size a1) L p" "al_slabs a1 = al_slabs a" "al_flags a1 = al_flags a" "al_item_size a1 = ?sz"
        using grow_ok [OF inv] Cons by auto
      obtain hp' item xs' where t: "take_item hp1 a1 p = (A_OK, hp', item)" "item \<notin> L" "alloc_inv k mgr hp' a1 xs' fs' (insert item L)"
        using take_keeps_inv [OF g(2,3)] by blast
      have l1: "is_list (hp_list hp1) (al_slabs a1) (p # xs)" using g(2) by (rule alloc_invE)
      have "le_next (hp_list hp1 (al_slabs a1)) = p" "p \<noteq> al_slabs a1"
        using is_list_ends(1) [OF l1] is_list_distinct [OF l1] by auto
      then have "allocator_alloc hp mgr (Some a) (Some v) = Some (A_OK, hp', Some a1, Some item)"
        using False cnt first grow g(1) t(1) by (simp add: allocator_alloc_def)
      then show ?thesis using t g(5,6) Cons by auto
    qed
  qed
qed

lemma remove1_partition:
  assumes "distinct (ys @ zs)"
  shows "remove1 s (ys @ zs) = removeAll s ys @ removeAll s zs"
  using assms by (metis distinct_remove1_removeAll removeAll_append)

text \<open>Where the pages are after the release of \<open>item\<close>: its slab goes to the class if nothing on it is live any more, unless it is the
  only one.\<close>

definition pages_after_free ::
  "nat \<Rightarrow> u64 \<Rightarrow> addr set \<Rightarrow> addr \<Rightarrow> addr list \<Rightarrow> addr list \<Rightarrow> addr list \<Rightarrow> addr list \<Rightarrow> bool" where
  "pages_after_free k sz L item xs fs xs' fs' \<longleftrightarrow>
     (\<exists>s \<in> set xs. (\<exists>i < items_per_page k sz. item = item_at sz s i) \<and>
       (if xs \<noteq> [s] \<and> (\<forall>i < items_per_page k sz. item_at sz s i \<notin> L - {item}) then xs' = remove1 s xs \<and> fs' = fs @ [s]
        else mset xs' = mset xs \<and> fs' = fs))"

lemma free_step:
  assumes inv: "alloc_inv k mgr hp a xs fs L" and item: "item \<in> L"
  shows "\<exists>hp' xs' fs'. allocator_free hp mgr (Some a) (Some item) = Some (A_OK, hp', Some NULL) \<and>
    alloc_inv k mgr hp' a xs' fs' (L - {item}) \<and> pages_after_free k (al_item_size a) L item xs fs xs' fs'"
proof -
  let ?sz = "al_item_size a"
  obtain cp ys zs where I: "geometry k ?sz" "al_free_mask a = NOT (2 ^ k - 1)" "al_alloc_state a = Some cp"
    "slab_bytes (class_of mgr cp) = 2 ^ k" "is_list (hp_list hp) (avail_slabs (class_of mgr cp)) fs"
    "set (avail_slabs (class_of mgr cp) # fs) \<inter> set (al_slabs a # xs) = {}"
    "is_list (hp_list hp) (al_slabs a) xs" "xs \<noteq> []" "\<forall>s \<in> set xs \<union> set fs. page_ok k s"
    "\<forall>s \<in> set xs. slab_ok hp k ?sz L s"
    "L \<subseteq> (\<Union>s \<in> set xs. item_at ?sz s ` {..< items_per_page k ?sz})"
    "xs = ys @ zs" "\<forall>s \<in> set ys. has_free k ?sz L s" "\<forall>s \<in> set zs. \<not> has_free k ?sz L s"
    using inv by (rule alloc_invE)
  let ?n = "items_per_page k ?sz" and ?g = "avail_slabs (class_of mgr cp)" and ?h = "al_slabs a"
  obtain s i where s: "s \<in> set xs" "i < ?n" "item = item_at ?sz s i" using I(11) item by blast
  have pg: "page_ok k s" and ok: "slab_ok hp k ?sz L s" using s(1) I(9,10) by auto
  have mask: "item AND al_free_mask a = s" using mask_page [OF I(1) pg s(2)] I(2) s(3) by simp
  have nn: "item \<noteq> NULL" "s \<noteq> NULL" using item_at_special(1) [OF I(1) pg s(2)] s(3) pg by (auto simp: page_ok_def)
  let ?L = "L - {item}" and ?hp = "put_item hp s item"
  have okp: "slab_ok ?hp k ?sz ?L s" and o: "only_slab k ?sz s hp ?hp"
    using put_item_ok [OF I(1) pg ok s(2)] item s(3) by auto
  have hl: "hp_list ?hp = hp_list hp" by (simp add: put_item_def)
  have others: "slab_ok ?hp k ?sz ?L r \<and> has_free k ?sz ?L r = has_free k ?sz L r" if "r \<in> set xs" "r \<noteq> s" for r
  proof -
    have r: "page_ok k r" "slab_ok hp k ?sz L r" using that I(9,10) by auto
    have ne: "item_at ?sz r j \<in> ?L \<longleftrightarrow> item_at ?sz r j \<in> L" if "j < ?n" for j
      using items_of_other_slab [OF I(1) r(1) pg \<open>r \<noteq> s\<close> that s(2)] s(3) by auto
    then show ?thesis using slab_ok_frame [OF I(1) pg r(1) that(2) [symmetric] o r(2) ne] by (auto simp: has_free_def)
  qed
  have fr: "has_free k ?sz ?L s" using s(2,3) by (auto simp: has_free_def)
  have d: "distinct (?h # xs)" using is_list_distinct [OF I(7)] .
  have oks: "\<forall>r \<in> set xs. slab_ok ?hp k ?sz ?L r" using others okp by auto
  have free: "allocator_free hp mgr (Some a) (Some item) =
      (let (result, hp) =
         (if sl_free_item_count (hp_slab ?hp s) = sl_max_items (hp_slab ?hp s) then
            (if le_next (hp_list hp ?h) \<noteq> le_prev (hp_list hp ?h) then helper_allocator_shrink ?hp mgr a s else (A_OK, ?hp))
          else (A_OK, ?hp\<lparr>hp_list := list_prepend (list_del (hp_list hp) s) ?h s\<rparr>))
       in Some (result, hp, Some NULL))"
    using nn mask by (simp add: allocator_free_def put_item_def Let_def)
  have full: "sl_free_item_count (hp_slab ?hp s) = sl_max_items (hp_slab ?hp s) \<longleftrightarrow> (\<forall>i < ?n. item_at ?sz s i \<notin> ?L)"
    using slab_ok_count(2) [OF I(1) okp] .
  let ?ys = "removeAll s ys" and ?zs = "removeAll s zs"
  have part: "remove1 s xs = ?ys @ ?zs" using remove1_partition [of ys zs s] d I(12) by simp
  have py: "\<forall>r \<in> set ?ys. has_free k ?sz ?L r" "\<forall>r \<in> set ?zs. \<not> has_free k ?sz ?L r"
    using others I(12-14) by auto
  have Lsub: "?L \<subseteq> (\<Union>r \<in> set xs. item_at ?sz r ` {..< ?n})" using I(11) by blast
  show ?thesis
  proof (cases "sl_free_item_count (hp_slab ?hp s) = sl_max_items (hp_slab ?hp s)")
    case False
    let ?hp2 = "?hp\<lparr>hp_list := list_prepend (list_del (hp_list hp) s) ?h s\<rparr>"
    have l: "is_list (hp_list ?hp2) ?h (s # remove1 s xs)" "is_list (hp_list ?hp2) ?g fs"
      using move_to_front [OF I(7) s(1) I(5,6)] by simp_all
    have set': "set (s # remove1 s xs) = set xs" using s(1) d by auto
    have "alloc_inv k mgr ?hp2 a (s # remove1 s xs) fs ?L"
    proof (rule alloc_invI [OF I(1-4) l(2)])
      show "s # remove1 s xs = (s # ?ys) @ ?zs" using part by simp
      show "\<forall>r \<in> set (s # remove1 s xs). slab_ok ?hp2 k ?sz ?L r" unfolding set' using oks by (simp add: slab_ok_def)
      show "?L \<subseteq> (\<Union>r \<in> set (s # remove1 s xs). item_at ?sz r ` {..< ?n})" unfolding set' by (rule Lsub)
      show "\<forall>r \<in> set (s # remove1 s xs) \<union> set fs. page_ok k r" unfolding set' by (rule I(9))
    qed (use l I(6) set' py fr in auto)
    moreover have "pages_after_free k ?sz L item xs fs (s # remove1 s xs) fs"
      unfolding pages_after_free_def using s full False by (intro bexI [of _ s]) auto
    ultimately show ?thesis using free False by auto
  next
    case all: True
    then have noL: "\<forall>i < ?n. item_at ?sz s i \<notin> ?L" using full by simp
    show ?thesis
    proof (cases "xs = [s]")
      case True
      then have "le_next (hp_list hp ?h) = le_prev (hp_list hp ?h)" using is_list_ends [OF I(7)] by simp
      then have "allocator_free hp mgr (Some a) (Some item) = Some (A_OK, ?hp, Some NULL)" using free all by simp
      moreover have "alloc_inv k mgr ?hp a xs fs ?L"
        by (rule alloc_invI [OF I(1-4) _ I(6), where ys = "[s]" and zs = "[]"]) (use I(5,7-9) hl oks Lsub True fr in simp_all)
      moreover have "pages_after_free k ?sz L item xs fs xs fs"
        unfolding pages_after_free_def using s True by (intro bexI [of _ s]) auto
      ultimately show ?thesis by blast
    next
      case False
      have two: "le_next (hp_list hp ?h) \<noteq> le_prev (hp_list hp ?h)"
      proof -
        obtain x y xs2 where "xs = x # y # xs2" using False s(1) by (cases xs; cases "tl xs") auto
        moreover from this have "last xs \<noteq> x" using d by auto
        ultimately show ?thesis using is_list_ends [OF I(7)] by simp
      qed
      define m where "m = list_append (list_del (hp_list hp) s) ?g s"
      have "helper_allocator_shrink ?hp mgr a s = (A_OK, ?hp\<lparr>hp_list := m\<rparr>)"
        using all I(3) nn(2) by (simp add: helper_allocator_shrink_def allocator_release_page_def m_def hl)
      then have "allocator_free hp mgr (Some a) (Some item) = Some (A_OK, ?hp\<lparr>hp_list := m\<rparr>, Some NULL)"
        using free all two by simp
      moreover have "alloc_inv k mgr (?hp\<lparr>hp_list := m\<rparr>) a (remove1 s xs) (fs @ [s]) ?L"
      proof -
        have set': "set (remove1 s xs) = set xs - {s}" using d by simp
        have l: "is_list m ?g (fs @ [s])" "is_list m ?h (remove1 s xs)"
          using give_back_lists [OF I(7) s(1) I(5,6)] by (simp_all add: m_def)
        obtain x where "x \<in> set xs" "x \<noteq> s" using False s(1) d by (cases xs; cases "tl xs") auto
        then have "set (remove1 s xs) \<noteq> {}" unfolding set' by blast
        then have ne: "remove1 s xs \<noteq> []" by fastforce
        have sub: "?L \<subseteq> (\<Union>r \<in> set (remove1 s xs). item_at ?sz r ` {..< ?n})"
        proof
          fix x assume x: "x \<in> ?L"
          then obtain r j where r: "r \<in> set xs" "j < ?n" "x = item_at ?sz r j" using Lsub by blast
          then have "r \<noteq> s" using noL x by blast
          then show "x \<in> (\<Union>r \<in> set (remove1 s xs). item_at ?sz r ` {..< ?n})" unfolding set' using r by blast
        qed
        show ?thesis
        proof (rule alloc_invI [OF I(1-4), where ys = ?ys and zs = ?zs])
          show "\<forall>r \<in> set (remove1 s xs). slab_ok (?hp\<lparr>hp_list := m\<rparr>) k ?sz ?L r"
            using oks set' by (simp add: slab_ok_def)
          show "set (?g # fs @ [s]) \<inter> set (?h # remove1 s xs) = {}" using I(6) set' s(1) d by auto
          show "\<forall>r \<in> set (remove1 s xs) \<union> set (fs @ [s]). page_ok k r" using I(9) set' s(1) by auto
        qed (use l ne sub part py in simp_all)
      qed
      moreover have "pages_after_free k ?sz L item xs fs (remove1 s xs) (fs @ [s])"
        unfolding pages_after_free_def using s noL False by (intro bexI [of _ s]) auto
      ultimately show ?thesis by blast
    qed
  qed
qed

subsection \<open>Creation and deletion\<close>

text \<open>Two lists of pages, the allocator's and the class's, with all slabs unused.\<close>

definition fresh_lists :: "nat \<Rightarrow> u64 \<Rightarrow> slab_heap \<Rightarrow> addr \<Rightarrow> addr list \<Rightarrow> addr \<Rightarrow> addr list \<Rightarrow> bool" where
  "fresh_lists k sz hp h xs g fs \<longleftrightarrow>
     is_list (hp_list hp) h xs \<and> is_list (hp_list hp) g fs \<and> set (g # fs) \<inter> set (h # xs) = {} \<and>
     (\<forall>s \<in> set xs \<union> set fs. page_ok k s) \<and> (\<forall>s \<in> set xs. slab_ok hp k sz {} s)"

lemma new_loop_ok:
  assumes g: "geometry k sz" and f: "fresh_lists k sz hp (al_slabs a) xs (avail_slabs cls) fs" and a: "al_item_size a = sz"
  shows "if n \<le> length fs
    then \<exists>hp' a'. allocator_new_loop hp cls (2 ^ k) a n = Some (A_OK, hp', a') \<and>
           fresh_lists k sz hp' (al_slabs a) (rev (take n fs) @ xs) (avail_slabs cls) (drop n fs) \<and>
           al_slabs a' = al_slabs a \<and> al_item_size a' = sz \<and> al_free_mask a' = al_free_mask a \<and>
           al_alloc_state a' = al_alloc_state a \<and> al_flags a' = al_flags a
    else \<exists>hp' a'. allocator_new_loop hp cls (2 ^ k) a n = Some (A_E_NOMEM, hp', a')"
  using f a
proof (induction n arbitrary: hp a xs fs)
  case 0
  then show ?case by simp
next
  case (Suc n)
  have F: "is_list (hp_list hp) (al_slabs a) xs" "is_list (hp_list hp) (avail_slabs cls) fs"
    "set (avail_slabs cls # fs) \<inter> set (al_slabs a # xs) = {}" "\<forall>s \<in> set xs \<union> set fs. page_ok k s"
    "\<forall>s \<in> set xs. slab_ok hp k sz {} s"
    using Suc.prems(1) by (auto simp: fresh_lists_def)
  note acq = acquire_page_ok [OF F(2), of NULL]
  show ?case
  proof (cases fs)
    case Nil
    then show ?thesis using acq by simp
  next
    case (Cons p fs')
    obtain hp1 hp2 a2 where s: "helper_slab_init (hp\<lparr>hp_list := list_del (hp_list hp) p\<rparr>) p sz (2 ^ k) = Some (hp1, p)"
      "helper_add_slab hp1 a p = (hp2, a2)" "is_list (hp_list hp2) (al_slabs a) (p # xs)"
      "is_list (hp_list hp2) (avail_slabs cls) fs'" "\<forall>s \<in> set (p # xs). slab_ok hp2 k sz {} s"
      "al_item_size a2 = sz" "al_free_mask a2 = al_free_mask a" "al_alloc_state a2 = al_alloc_state a" "al_slabs a2 = al_slabs a"
      "al_flags a2 = al_flags a"
      using add_page_ok [OF g F(1) F(2) [unfolded Cons] F(3) [unfolded Cons] F(4) [unfolded Cons] refl refl Suc.prems(2) F(5)]
      by auto
    have "p \<notin> set (avail_slabs cls # fs')" using is_list_distinct [OF F(2)] Cons by auto
    then have "fresh_lists k sz hp2 (al_slabs a2) (p # xs) (avail_slabs cls) fs'"
      using s F(3,4) Cons by (auto simp: fresh_lists_def)
    note IH = Suc.IH [OF this s(6)]
    have step: "allocator_new_loop hp cls (2 ^ k) a (Suc n) = allocator_new_loop hp2 cls (2 ^ k) a2 n"
      using acq Cons s(1,2) Suc.prems(2) by simp
    show ?thesis
    proof (cases "n \<le> length fs'")
      case True
      then obtain hp' a' where "allocator_new_loop hp2 cls (2 ^ k) a2 n = Some (A_OK, hp', a')"
        "fresh_lists k sz hp' (al_slabs a2) (rev (take n fs') @ p # xs) (avail_slabs cls) (drop n fs')"
        "al_slabs a' = al_slabs a2" "al_item_size a' = sz" "al_free_mask a' = al_free_mask a2"
        "al_alloc_state a' = al_alloc_state a2" "al_flags a' = al_flags a2"
        using IH by auto
      then show ?thesis using step True Cons s by simp
    next
      case False
      then show ?thesis using IH step Cons by auto
    qed
  qed
qed

lemma fresh_lists_inv:
  assumes "fresh_lists k (al_item_size a) hp (al_slabs a) xs (avail_slabs (class_of mgr cp)) fs" "geometry k (al_item_size a)"
    "al_free_mask a = NOT (2 ^ k - 1)" "al_alloc_state a = Some cp" "slab_bytes (class_of mgr cp) = 2 ^ k" "xs \<noteq> []"
  shows "alloc_inv k mgr hp a xs fs {}"
  using assms by (intro alloc_invI [where cp = cp and ys = xs and zs = "[]"])
    (auto simp: fresh_lists_def has_free_def geometry_def)

lemma ROUND_16_spec:
  assumes "unat x + 15 < 2 ^ 64"
  shows "16 dvd unat (ROUND_16 x)" "unat x \<le> unat (ROUND_16 x)" "unat (ROUND_16 x) < unat x + 16"
proof -
  have u: "unat (x + 15) = unat x + 15" using assms by (subst unat_add_small) simp_all
  have "unat (ROUND_16 x) = (unat x + 15) div 16 * 16"
  proof -
    have d: "unat (drop_bit 4 (x + 15)) = (unat x + 15) div 16"
      using u by (simp add: drop_bit_eq_div unat_div)
    have "(unat x + 15) div 16 * 16 < 2 ^ 64" using assms by linarith
    then show ?thesis using d by (simp add: ROUND_16_def push_bit_eq_mult unat_word_ariths)
  qed
  then show "16 dvd unat (ROUND_16 x)" "unat x \<le> unat (ROUND_16 x)" "unat (ROUND_16 x) < unat x + 16" by simp_all
qed

text \<open>The loop of \<open>allocator_delete\<close> gives back slabs until it meets one in use.\<close>

lemma delete_loop_ok:
  assumes g: "geometry k sz" and "is_list (hp_list hp) (al_slabs a) xs" "is_list (hp_list hp) (avail_slabs cls) fs"
    "set (avail_slabs cls # fs) \<inter> set (al_slabs a # xs) = {}" "\<forall>s \<in> set xs. page_ok k s" "\<forall>s \<in> set xs. slab_ok hp k sz L s"
  shows "\<exists>us vs hp' a'. xs = us @ vs \<and>
    allocator_delete_loop hp cls a (hd (xs @ [al_slabs a])) (le_next (hp_list hp (hd (xs @ [al_slabs a])))) = Some (vs = [], hp', a') \<and>
    is_list (hp_list hp') (al_slabs a) vs \<and> is_list (hp_list hp') (avail_slabs cls) (fs @ us) \<and>
    hp_slab hp' = hp_slab hp \<and> hp_next hp' = hp_next hp \<and>
    al_slabs a' = al_slabs a \<and> al_item_size a' = al_item_size a \<and> al_free_mask a' = al_free_mask a \<and>
    al_alloc_state a' = al_alloc_state a \<and>
    (\<forall>s \<in> set us. \<forall>i < items_per_page k sz. item_at sz s i \<notin> L) \<and>
    (vs \<noteq> [] \<longrightarrow> (\<exists>i < items_per_page k sz. item_at sz (hd vs) i \<in> L))"
  using assms(2-)
proof (induction xs arbitrary: hp a fs)
  case Nil
  show ?case
    by (subst allocator_delete_loop.simps) (use Nil in \<open>auto intro!: exI [of _ "[]"]\<close>)
next
  case (Cons s xs)
  let ?h = "al_slabs a"
  have d: "distinct (?h # s # xs)" using is_list_distinct [OF Cons.prems(1)] .
  have ok: "slab_ok hp k sz L s" and pg: "s \<noteq> NULL" using Cons.prems(4,5) by (auto simp: page_ok_def)
  have eq: "sl_max_items (hp_slab hp s) = sl_free_item_count (hp_slab hp s) \<longleftrightarrow> (\<forall>i < items_per_page k sz. item_at sz s i \<notin> L)"
    using slab_ok_count(2) [OF g ok] by metis
  show ?case
  proof (cases "\<forall>i < items_per_page k sz. item_at sz s i \<notin> L")
    case False
    then have "allocator_delete_loop hp cls a s (le_next (hp_list hp s)) = Some (False, hp, a)"
      using eq d by (subst allocator_delete_loop.simps) auto
    then show ?thesis using False Cons.prems by (intro exI [of _ "[]"] exI [of _ "s # xs"]) auto
  next
    case True
    define hp1 where "hp1 = hp\<lparr>hp_list := list_append (list_del (hp_list hp) s) (avail_slabs cls) s\<rparr>"
    define a1 where "a1 = a\<lparr>al_max_items := al_max_items a - ucast (sl_max_items (hp_slab hp s))\<rparr>"
    have nx: "le_next (hp_list hp s) = hd (xs @ [?h])" using is_list_neighbours(2) [of "hp_list hp" ?h "[]" s xs] Cons.prems(1) by simp
    have step: "allocator_delete_loop hp cls a s (le_next (hp_list hp s)) =
        allocator_delete_loop hp1 cls a1 (hd (xs @ [?h])) (le_next (hp_list hp1 (hd (xs @ [?h]))))"
      using True eq d pg nx by (subst allocator_delete_loop.simps)
        (auto simp: hp1_def a1_def allocator_release_page_def)
    have l: "is_list (hp_list hp1) (avail_slabs cls) (fs @ [s])" "is_list (hp_list hp1) (al_slabs a1) xs"
      using give_back_lists [OF Cons.prems(1) _ Cons.prems(2,3), of s] by (auto simp: hp1_def a1_def)
    have oks: "\<forall>s \<in> set xs. slab_ok hp1 k sz L s" using Cons.prems(5) by (simp add: slab_ok_def hp1_def)
    have dj: "set (avail_slabs cls # fs @ [s]) \<inter> set (al_slabs a1 # xs) = {}" using Cons.prems(3) d by (auto simp: a1_def)
    have pgs: "\<forall>s \<in> set xs. page_ok k s" using Cons.prems(4) by simp
    obtain us vs hp' a' where r: "xs = us @ vs"
      "allocator_delete_loop hp1 cls a1 (hd (xs @ [al_slabs a1])) (le_next (hp_list hp1 (hd (xs @ [al_slabs a1])))) = Some (vs = [], hp', a')"
      "is_list (hp_list hp') (al_slabs a1) vs" "is_list (hp_list hp') (avail_slabs cls) ((fs @ [s]) @ us)"
      "hp_slab hp' = hp_slab hp1" "hp_next hp' = hp_next hp1" "al_slabs a' = al_slabs a1" "al_item_size a' = al_item_size a1"
      "al_free_mask a' = al_free_mask a1" "al_alloc_state a' = al_alloc_state a1"
      "\<forall>s \<in> set us. \<forall>i < items_per_page k sz. item_at sz s i \<notin> L"
      "vs \<noteq> [] \<longrightarrow> (\<exists>i < items_per_page k sz. item_at sz (hd vs) i \<in> L)"
      using Cons.IH [OF l(2,1) dj pgs oks] by blast
    then show ?thesis using step True by (intro exI [of _ "s # us"] exI [of _ vs] exI [of _ hp'] exI [of _ a'])
        (auto simp: hp1_def a1_def)
  qed
qed

end
