(* ===== verification/Slab_Pool.thy ===== *)
theory Slab_Pool
  imports Slab_Invariant
begin

section \<open>The slab allocator as an object pool\<close>

text \<open>
  What clients rely on: a pool hands out objects that nobody holds and takes them back. The locale
  \<open>object_pool\<close> states this contract and proves that it holds along every sequence of calls; it is
  interpreted on \<open>allocator_alloc\<close> and \<open>allocator_free\<close>.
\<close>

subsection \<open>The contract\<close>

datatype 'a pool_op = Get | Put 'a

text \<open>Running a sequence of calls: the final state, the live objects, and for every object handed out the set
  of objects that were live then. A client only returns objects it holds; other returns are skipped.\<close>

fun pool_run :: "('s \<Rightarrow> ('s \<times> 'a option) option) \<Rightarrow> ('s \<Rightarrow> 'a \<Rightarrow> 's option) \<Rightarrow> 's \<Rightarrow> 'a set \<Rightarrow> 'a pool_op list \<Rightarrow>
    ('s \<times> 'a set \<times> ('a set \<times> 'a) list) option" where
  "pool_run acquire release s L [] = Some (s, L, [])"
| "pool_run acquire release s L (Get # ops) =
     do { (s, r) \<leftarrow> acquire s;
          case r of
            None \<Rightarrow> pool_run acquire release s L ops
          | Some x \<Rightarrow> do { (s, L', tr) \<leftarrow> pool_run acquire release s (insert x L) ops; Some (s, L', (L, x) # tr) } }"
| "pool_run acquire release s L (Put x # ops) =
     (if x \<in> L then do { s \<leftarrow> release s x; pool_run acquire release s (L - {x}) ops }
      else pool_run acquire release s L ops)"

locale object_pool =
  fixes inv :: "'s \<Rightarrow> 'a set \<Rightarrow> bool"
    and acquire :: "'s \<Rightarrow> ('s \<times> 'a option) option"
    and release :: "'s \<Rightarrow> 'a \<Rightarrow> 's option"
  assumes acquire_law: "inv s L \<Longrightarrow> \<exists>s' r. acquire s = Some (s', r) \<and>
      (case r of None \<Rightarrow> inv s' L | Some x \<Rightarrow> x \<notin> L \<and> inv s' (insert x L))"
    and release_law: "inv s L \<Longrightarrow> x \<in> L \<Longrightarrow> \<exists>s'. release s x = Some s' \<and> inv s' (L - {x})"
begin

lemma run_safe:
  "inv s L \<Longrightarrow> \<exists>s' L' tr. pool_run acquire release s L ops = Some (s', L', tr) \<and> inv s' L' \<and> (\<forall>(M, x) \<in> set tr. x \<notin> M)"
proof (induction ops arbitrary: s L)
  case Nil
  then show ?case by simp
next
  case (Cons op ops)
  show ?case
  proof (cases op)
    case Get
    obtain s1 r where a: "acquire s = Some (s1, r)" "case r of None \<Rightarrow> inv s1 L | Some x \<Rightarrow> x \<notin> L \<and> inv s1 (insert x L)"
      using acquire_law [OF Cons.prems] by blast
    show ?thesis
    proof (cases r)
      case None
      then show ?thesis using a Cons.IH [of s1 L] Get by simp
    next
      case (Some x)
      then obtain s' L' tr where "pool_run acquire release s1 (insert x L) ops = Some (s', L', tr)" "inv s' L'"
        "\<forall>(M, x) \<in> set tr. x \<notin> M"
        using a(2) Cons.IH [of s1 "insert x L"] by auto
      then show ?thesis using a Some Get by simp
    qed
  next
    case (Put x)
    then show ?thesis using Cons.IH [of s L] release_law [OF Cons.prems, of x] Cons.IH [of _ "L - {x}"] Cons.prems by auto
  qed
qed

end

subsection \<open>The allocator as a pool\<close>

definition slab_inv :: "nat \<Rightarrow> slab_manager \<Rightarrow> slab_heap \<times> allocator \<Rightarrow> addr set \<Rightarrow> bool" where
  "slab_inv k mgr s L \<longleftrightarrow>
     (\<exists>xs fs. alloc_inv k mgr (fst s) (snd s) xs fs L) \<and> al_flags (snd s) AND ALLOC_FLAG_NO_GROW = 0"

definition slab_acquire :: "slab_manager \<Rightarrow> slab_heap \<times> allocator \<Rightarrow> ((slab_heap \<times> allocator) \<times> addr option) option" where
  "slab_acquire mgr s =
     do { (ret, hp, alloc, item) \<leftarrow> allocator_alloc (fst s) mgr (Some (snd s)) (Some NULL);
          a \<leftarrow> alloc;
          Some ((hp, a), if AFAILED ret then None else item) }"

definition slab_release :: "slab_manager \<Rightarrow> slab_heap \<times> allocator \<Rightarrow> addr \<Rightarrow> (slab_heap \<times> allocator) option" where
  "slab_release mgr s x =
     do { (ret, hp, _) \<leftarrow> allocator_free (fst s) mgr (Some (snd s)) (Some x);
          if AFAILED ret then None else Some (hp, snd s) }"

interpretation slab: object_pool "slab_inv k mgr" "slab_acquire mgr" "slab_release mgr" for k mgr
proof unfold_locales
  fix s L assume i: "slab_inv k mgr s L"
  obtain hp a where s: "s = (hp, a)" by fastforce
  obtain xs fs where inv: "alloc_inv k mgr hp a xs fs L" and g: "al_flags a AND ALLOC_FLAG_NO_GROW = 0"
    using i s by (auto simp: slab_inv_def)
  show "\<exists>s' r. slab_acquire mgr s = Some (s', r) \<and>
      (case r of None \<Rightarrow> slab_inv k mgr s' L | Some x \<Rightarrow> x \<notin> L \<and> slab_inv k mgr s' (insert x L))"
  proof (cases "fs = [] \<and> (\<forall>s \<in> set xs. \<not> has_free k (al_item_size a) L s)")
    case True
    then have "allocator_alloc hp mgr (Some a) (Some NULL) = Some (A_E_NOMEM, hp, Some a, Some NULL)"
      using alloc_step [OF inv g, of NULL] by simp
    then have "slab_acquire mgr s = Some ((hp, a), None)" by (simp add: slab_acquire_def s)
    then show ?thesis using i s by simp
  next
    case False
    then obtain hp' a' item xs' fs' where t: "allocator_alloc hp mgr (Some a) (Some NULL) = Some (A_OK, hp', Some a', Some item)"
      "item \<notin> L" "alloc_inv k mgr hp' a' xs' fs' (insert item L)" "al_flags a' = al_flags a"
      using alloc_step [OF inv g, of NULL] unfolding if_not_P [OF False] by blast
    then have "slab_acquire mgr s = Some ((hp', a'), Some item)" by (simp add: slab_acquire_def s)
    then show ?thesis using t g by (auto simp: slab_inv_def)
  qed
next
  fix s L x assume i: "slab_inv k mgr s L" and x: "x \<in> L"
  obtain hp a where s: "s = (hp, a)" by fastforce
  obtain xs fs where inv: "alloc_inv k mgr hp a xs fs L" and g: "al_flags a AND ALLOC_FLAG_NO_GROW = 0"
    using i s by (auto simp: slab_inv_def)
  obtain hp' xs' fs' where f: "allocator_free hp mgr (Some a) (Some x) = Some (A_OK, hp', Some NULL)"
    "alloc_inv k mgr hp' a xs' fs' (L - {x})"
    using free_step [OF inv x] by blast
  have "slab_inv k mgr (hp', a) (L - {x})" unfolding slab_inv_def fst_conv snd_conv using f(2) g by blast
  then show "\<exists>s'. slab_release mgr s x = Some s' \<and> slab_inv k mgr s' (L - {x})"
    using f(1) s by (simp add: slab_release_def)
qed

lemma pages_apart:
  assumes "page_ok k s" "page_ok k r" "unat s < unat r"
  shows "unat s + 2 ^ k \<le> unat r"
proof -
  have "2 ^ k dvd unat r - unat s" using assms(1,2) by (intro dvd_diff_nat) (simp_all add: page_ok_def)
  then have "2 ^ k \<le> unat r - unat s" using assms(3) by (intro dvd_imp_le) simp_all
  then show ?thesis using assms(3) by linarith
qed

text \<open>Live items are disjoint blocks of memory, aligned to 16 bytes.\<close>

lemma live_items_apart:
  assumes inv: "alloc_inv k mgr hp a xs fs L" and x: "x \<in> L" "y \<in> L" "x \<noteq> y"
  shows "unat x + unat (al_item_size a) \<le> unat y \<or> unat y + unat (al_item_size a) \<le> unat x"
proof -
  let ?sz = "al_item_size a"
  obtain cp ys zs where I: "geometry k ?sz" "\<forall>s \<in> set xs \<union> set fs. page_ok k s"
    "L \<subseteq> (\<Union>s \<in> set xs. item_at ?sz s ` {..< items_per_page k ?sz})"
    using inv by (rule alloc_invE)
  obtain s i where s: "s \<in> set xs" "i < items_per_page k ?sz" "x = item_at ?sz s i" using I(3) x(1) by blast
  obtain r j where r: "r \<in> set xs" "j < items_per_page k ?sz" "y = item_at ?sz r j" using I(3) x(2) by blast
  have ps: "page_ok k s" and pr: "page_ok k r" using I(2) s(1) r(1) by auto
  have ux: "unat x = unat s + 64 + i * unat ?sz" and uy: "unat y = unat r + 64 + j * unat ?sz"
    using unat_item_at(1) [OF I(1) ps] unat_item_at(1) [OF I(1) pr] s r by auto
  have bx: "64 + Suc i * unat ?sz \<le> 2 ^ k" and by': "64 + Suc j * unat ?sz \<le> 2 ^ k"
    using geometryD(1) [OF I(1)] s(2) r(2) by auto
  consider "s = r" | "unat s < unat r" | "unat r < unat s" using word_unat_eq_iff [of s r] by linarith
  then show ?thesis
  proof cases
    case 1
    then have "i \<noteq> j" using s r x(3) by auto
    then consider "Suc i \<le> j" | "Suc j \<le> i" by linarith
    then show ?thesis
    proof cases
      case 1
      then have "Suc i * unat ?sz \<le> j * unat ?sz" by (intro mult_le_mono1)
      then show ?thesis using ux uy \<open>s = r\<close> by simp
    next
      case 2
      then have "Suc j * unat ?sz \<le> i * unat ?sz" by (intro mult_le_mono1)
      then show ?thesis using ux uy \<open>s = r\<close> by simp
    qed
  next
    case 2
    then show ?thesis using ux uy bx pages_apart [OF ps pr] by simp
  next
    case 3
    then show ?thesis using ux uy by' pages_apart [OF pr ps] by simp
  qed
qed

subsection \<open>Properties\<close>

text \<open>A class with two free pages of 4096 bytes, for the witnesses, and memory for an allocator at 0x500.\<close>

definition sample_pages :: slab_heap where
  "sample_pages =
     \<lparr>hp_list = list_append (list_append (list_init (\<lambda>_. \<lparr>le_prev = 0, le_next = 0\<rparr>) 0x100) 0x100 0x10000) 0x100 0x20000,
      hp_slab = (\<lambda>_. \<lparr>sl_free_items = 0, sl_flags = 0, sl_max_items = 0, sl_free_item_count = 0, sl_slab_size = 0\<rparr>),
      hp_next = (\<lambda>_. 0)\<rparr>"

definition sample_mgr :: slab_manager where
  "sample_mgr = \<lparr>normal_slabs = \<lparr>avail_slabs = 0x100, slab_bytes = 4096, nr_slabs = 2, slab_base_ptr = 0x10000, free_slabs = 2\<rparr>,
     huge_slabs = INIT_SLAB_CLASS 0x200, slab_manager_initialized = True\<rparr>"

definition sample_fresh :: allocator where
  "sample_fresh = \<lparr>al_slabs = 0x500, al_item_size = 0, al_max_items = 0, al_free_mask = 0, al_alloc_state = None,
     al_flags = 0, al_slabs_taken = 0\<rparr>"

definition sample_alloc :: allocator where
  "sample_alloc = sample_fresh\<lparr>al_item_size := 112, al_free_mask := NOT 0xFFF, al_alloc_state := Some Normal_Slabs\<rparr>"

lemma sample_page_list: "is_list (hp_list sample_pages) 0x100 [0x10000, 0x20000]"
proof -
  let ?m = "list_append (list_init (\<lambda>_. \<lparr>le_prev = 0, le_next = 0\<rparr>) 0x100) 0x100 0x10000"
  have "is_list ?m 0x100 [0x10000]" using is_list_append [of "list_init (\<lambda>_. \<lparr>le_prev = 0, le_next = 0\<rparr>) 0x100" "0x100" "[]" "0x10000"] is_list_init by simp
  then have "is_list (list_append ?m 0x100 0x20000) 0x100 [0x10000, 0x20000]"
    using is_list_append [of ?m "0x100" "[0x10000]" "0x20000"] by simp
  then show ?thesis by (simp add: sample_pages_def)
qed

lemma sample_geometry: "geometry 12 112" "items_per_page 12 112 = 36"
  by (simp_all add: geometry_def items_per_page_def)

lemma sample_fresh_lists:
  "fresh_lists 12 112 (sample_pages\<lparr>hp_list := list_init (hp_list sample_pages) 0x500\<rparr>) 0x500 [] 0x100 [0x10000, 0x20000]"
proof -
  have "is_list (list_init (hp_list sample_pages) 0x500) 0x100 [0x10000, 0x20000]"
    using sample_page_list by (subst is_list_cong [where m' = "hp_list sample_pages"])
      (auto simp: list_init_def set_next_def set_prev_def)
  then show ?thesis using is_list_init by (simp add: fresh_lists_def page_ok_def)
qed

lemma sample_inv: "\<exists>hp a. alloc_inv 12 sample_mgr hp a [0x10000] [0x20000] {} \<and> al_flags a AND ALLOC_FLAG_NO_GROW = 0"
proof -
  have a: "al_slabs sample_alloc = 0x500" "al_item_size sample_alloc = 112" "al_free_mask sample_alloc = NOT 0xFFF"
    "al_alloc_state sample_alloc = Some Normal_Slabs" "al_flags sample_alloc = 0" "avail_slabs (normal_slabs sample_mgr) = 0x100"
    by (simp_all add: sample_alloc_def sample_fresh_def sample_mgr_def)
  let ?hp = "sample_pages\<lparr>hp_list := list_init (hp_list sample_pages) 0x500\<rparr>"
  have n: "(1::nat) \<le> length [0x10000 :: addr, 0x20000]" "rev (take 1 [0x10000, 0x20000]) @ [] = [0x10000 :: addr]"
    "drop 1 [0x10000, 0x20000] = [0x20000 :: addr]" by simp_all
  have "fresh_lists 12 112 ?hp (al_slabs sample_alloc) [] (avail_slabs (normal_slabs sample_mgr)) [0x10000, 0x20000]"
    unfolding a by (rule sample_fresh_lists)
  note new_loop_ok [OF sample_geometry(1) this a(2), of 1, unfolded if_P [OF n(1)] n(2,3) a]
  then obtain hp' :: slab_heap and a' :: allocator where l: "fresh_lists 12 112 hp' 0x500 [0x10000] 0x100 [0x20000]" "al_slabs a' = 0x500"
    "al_item_size a' = 112" "al_free_mask a' = NOT 0xFFF" "al_alloc_state a' = Some Normal_Slabs" "al_flags a' = 0"
    by blast
  have "alloc_inv 12 sample_mgr hp' a' [0x10000] [0x20000] {}"
    using l sample_geometry by (intro fresh_lists_inv [where cp = Normal_Slabs]) (simp_all add: sample_mgr_def)
  moreover have "al_flags a' AND ALLOC_FLAG_NO_GROW = 0" using l(6) by simp
  ultimately show ?thesis by blast
qed

text \<open>Claim C13. \<open>allocator_alloc\<close> on a growable allocator hands out an item that is not live, 16-byte aligned and disjoint
  from every live item, taking a page from its class if all slabs are in use; only if there is no free
  item and no free page it answers \<open>A_E_NOMEM\<close>, and then it changes nothing. The allocator stays well-formed.
  The call returns and reads no stray memory.\<close>

theorem allocator_alloc_correct:
  assumes inv: "alloc_inv k mgr hp a xs fs L" and grow: "al_flags a AND ALLOC_FLAG_NO_GROW = 0"
  shows "if fs = [] \<and> (\<forall>s \<in> set xs. \<not> has_free k (al_item_size a) L s)
    then allocator_alloc hp mgr (Some a) (Some v) = Some (A_E_NOMEM, hp, Some a, Some NULL)
    else \<exists>hp' a' item xs' fs'. allocator_alloc hp mgr (Some a) (Some v) = Some (A_OK, hp', Some a', Some item) \<and>
      item \<notin> L \<and> alloc_inv k mgr hp' a' xs' fs' (insert item L) \<and>
      (\<forall>x \<in> L. unat x + unat (al_item_size a) \<le> unat item \<or> unat item + unat (al_item_size a) \<le> unat x)"
proof (cases "fs = [] \<and> (\<forall>s \<in> set xs. \<not> has_free k (al_item_size a) L s)")
  case True
  then show ?thesis using alloc_step [OF assms, of v] by simp
next
  case False
  obtain hp' a' item xs' fs' where t: "allocator_alloc hp mgr (Some a) (Some v) = Some (A_OK, hp', Some a', Some item)"
    "item \<notin> L" "alloc_inv k mgr hp' a' xs' fs' (insert item L)" "al_item_size a' = al_item_size a"
    using alloc_step [OF assms, of v] unfolding if_not_P [OF False] by blast
  have "\<forall>x \<in> L. unat x + unat (al_item_size a) \<le> unat item \<or> unat item + unat (al_item_size a) \<le> unat x"
    using live_items_apart [OF t(3)] t(2,4) by (metis insertCI)
  then show ?thesis unfolding if_not_P [OF False] using t by blast
qed

theorem allocator_alloc_correct_witness:
  "\<exists>hp a hp' a' item xs' fs'. allocator_alloc hp sample_mgr (Some a) (Some 0) = Some (A_OK, hp', Some a', Some item) \<and>
     alloc_inv 12 sample_mgr hp' a' xs' fs' {item}"
proof -
  obtain hp a where "alloc_inv 12 sample_mgr hp a [0x10000] [0x20000] {}" "al_flags a AND ALLOC_FLAG_NO_GROW = 0"
    using sample_inv by blast
  note allocator_alloc_correct [OF this, of 0]
  then have "\<exists>hp' a' item xs' fs'. allocator_alloc hp sample_mgr (Some a) (Some 0) = Some (A_OK, hp', Some a', Some item) \<and>
     alloc_inv 12 sample_mgr hp' a' xs' fs' {item}" by simp
  then show ?thesis by blast
qed

text \<open>Claim C20. \<open>allocator_free\<close> of a live item puts it back: it finds the slab from the address, answers \<open>A_OK\<close>, sets the
  caller's pointer to NULL and leaves a well-formed allocator in which exactly this item is no longer
  live. A slab with nothing live left on it goes to the end of the list of the class, unless it is the only one of the allocator;
  otherwise the allocator and the class keep their pages.\<close>

theorem allocator_free_correct:
  assumes "alloc_inv k mgr hp a xs fs L" "item \<in> L"
  shows "\<exists>hp' xs' fs'. allocator_free hp mgr (Some a) (Some item) = Some (A_OK, hp', Some NULL) \<and>
    alloc_inv k mgr hp' a xs' fs' (L - {item}) \<and>
    (\<exists>s \<in> set xs. (\<exists>i < items_per_page k (al_item_size a). item = item_at (al_item_size a) s i) \<and>
       (if xs \<noteq> [s] \<and> (\<forall>i < items_per_page k (al_item_size a). item_at (al_item_size a) s i \<notin> L - {item})
        then xs' = remove1 s xs \<and> fs' = fs @ [s] else mset xs' = mset xs \<and> fs' = fs))"
  using free_step [OF assms] unfolding pages_after_free_def .

theorem allocator_free_correct_witness:
  "\<exists>hp a item hp' xs' fs'. allocator_free hp sample_mgr (Some a) (Some item) = Some (A_OK, hp', Some NULL) \<and>
     alloc_inv 12 sample_mgr hp' a xs' fs' {}"
proof -
  obtain hp a where i: "alloc_inv 12 sample_mgr hp a [0x10000] [0x20000] {}" "al_flags a AND ALLOC_FLAG_NO_GROW = 0"
    using sample_inv by blast
  obtain hp' a' item xs' fs' where "alloc_inv 12 sample_mgr hp' a' xs' fs' {item}"
    using alloc_step [OF i, of 0] by simp blast
  then have "\<exists>hp'' xs'' fs''. allocator_free hp' sample_mgr (Some a') (Some item) = Some (A_OK, hp'', Some NULL) \<and>
      alloc_inv 12 sample_mgr hp'' a' xs'' fs'' {}"
    using allocator_free_correct [of 12 sample_mgr hp' a' xs' fs' "{item}" item] by (metis Diff_insert_absorb empty_iff insertI1)
  then show ?thesis by blast
qed

text \<open>Claim C4. Along every sequence of calls of \<open>allocator_alloc\<close> and \<open>allocator_free\<close>, in any order, each call returns and no
  item is handed out while it is live.\<close>

theorem allocator_sequences_safe:
  assumes "alloc_inv k mgr hp a xs fs L" "al_flags a AND ALLOC_FLAG_NO_GROW = 0"
  shows "\<exists>hp' a' L' tr. pool_run (slab_acquire mgr) (slab_release mgr) (hp, a) L ops = Some ((hp', a'), L', tr) \<and>
    (\<exists>xs' fs'. alloc_inv k mgr hp' a' xs' fs' L') \<and> (\<forall>(M, x) \<in> set tr. x \<notin> M)"
proof -
  have "slab_inv k mgr (hp, a) L" using assms by (auto simp: slab_inv_def)
  from slab.run_safe [OF this, of ops] obtain s' L' tr where
    r: "pool_run (slab_acquire mgr) (slab_release mgr) (hp, a) L ops = Some (s', L', tr)" "slab_inv k mgr s' L'" "\<forall>(M, x) \<in> set tr. x \<notin> M"
    by blast
  moreover obtain hp' a' where "s' = (hp', a')" by fastforce
  ultimately show ?thesis unfolding slab_inv_def by auto
qed

theorem allocator_sequences_safe_witness:
  "\<exists>hp a hp' a' L' tr. pool_run (slab_acquire sample_mgr) (slab_release sample_mgr) (hp, a) {} [Get, Get, Put 0x10040, Get] =
      Some ((hp', a'), L', tr) \<and> (\<forall>(M, x) \<in> set tr. x \<notin> M)"
proof -
  obtain hp a where "alloc_inv 12 sample_mgr hp a [0x10000] [0x20000] {}" "al_flags a AND ALLOC_FLAG_NO_GROW = 0"
    using sample_inv by blast
  from allocator_sequences_safe [OF this, of "[Get, Get, Put 0x10040, Get]"] show ?thesis by blast
qed

text \<open>\<open>allocator_new\<close> with enough free pages in the class gives a well-formed allocator with no live items, whose
  slabs are exactly the pages taken; with too few pages it answers \<open>A_E_NOMEM\<close> and stores NULL.\<close>

theorem allocator_new_correct:
  assumes cls: "cls = class_of mgr (if ALLOC_FLAG_HUGE_PAGE AND flags \<noteq> 0 then Huge_Slabs else Normal_Slabs)"
    and fs: "is_list (hp_list hp) (avail_slabs cls) fs" "\<forall>p \<in> set fs. page_ok k p" "slab_bytes cls = 2 ^ k"
    and size: "geometry k (ROUND_16 item_size)" "item_size \<noteq> 0" "item_count \<noteq> 0"
    and fresh: "al_slabs raw \<notin> set (avail_slabs cls # fs)"
    and np: "np = unat ((item_count + 2 ^ k div ROUND_16 item_size - 1) div (2 ^ k div ROUND_16 item_size))" "0 < np"
  shows "if np \<le> length fs
    then \<exists>hp' a. allocator_new hp mgr (Some raw) (Some out) item_size item_count flags = Some (A_OK, hp', Some (Some a)) \<and>
           alloc_inv k mgr hp' a (rev (take np fs)) (drop np fs) {} \<and> al_item_size a = ROUND_16 item_size
    else \<exists>hp'. allocator_new hp mgr (Some raw) (Some out) item_size item_count flags = Some (A_E_NOMEM, hp', Some None)"
proof -
  let ?sz = "ROUND_16 item_size" and ?cp = "if ALLOC_FLAG_HUGE_PAGE AND flags \<noteq> 0 then Huge_Slabs else Normal_Slabs"
  let ?hp = "hp\<lparr>hp_list := list_init (hp_list hp) (al_slabs raw)\<rparr>"
  let ?a = "raw\<lparr>al_max_items := 0, al_item_size := ?sz, al_free_mask := NOT (2 ^ k - 1), al_alloc_state := Some ?cp\<rparr>"
  have sz: "?sz \<noteq> 0" "unat ?sz \<le> 2 ^ k" "k < 64" using size(1) geometryD(2) [OF size(1)] by (auto simp: geometry_def)
  have "unat ((2 ^ k :: u64) div ?sz) = 2 ^ k div unat ?sz" using unat_pow2_u64 [OF sz(3)] by (simp add: unat_div)
  moreover have "0 < (2 ^ k) div unat ?sz" using sz(2) geometryD(5) [OF size(1)] by (simp add: div_greater_zero_iff)
  ultimately have ips: "(2 ^ k :: u64) div ?sz \<noteq> 0" by auto
  have "is_list (list_init (hp_list hp) (al_slabs raw)) (avail_slabs cls) fs"
    using fs(1) fresh by (subst is_list_cong [where m' = "hp_list hp"]) (auto simp: list_init_def set_next_def set_prev_def)
  then have fl: "fresh_lists k ?sz ?hp (al_slabs ?a) [] (avail_slabs cls) fs"
    using is_list_init fresh fs(2) by (auto simp: fresh_lists_def)
  have start: "allocator_new hp mgr (Some raw) (Some out) item_size item_count flags =
      do { (result, hp, new_alloc) \<leftarrow> allocator_new_loop ?hp cls (2 ^ k) ?a np;
           if AFAILED result then Some (result, hp, Some None) else Some (A_OK, hp, Some (Some new_alloc)) }"
    using size sz ips fs(3) cls np(1) by (simp add: allocator_new_def helper_allocator_new_init_def Let_def)
  note loop = new_loop_ok [OF size(1) fl, of np]
  show ?thesis
  proof (cases "np \<le> length fs")
    case True
    obtain hp' :: slab_heap and a :: allocator where l: "allocator_new_loop ?hp cls (2 ^ k) ?a np = Some (A_OK, hp', a)"
      "fresh_lists k ?sz hp' (al_slabs raw) (rev (take np fs)) (avail_slabs cls) (drop np fs)" "al_slabs a = al_slabs raw"
      "al_item_size a = ?sz" "al_free_mask a = NOT (2 ^ k - 1)" "al_alloc_state a = Some ?cp"
      using loop True by auto
    have "rev (take np fs) \<noteq> []" using True np(2) by (cases fs) auto
    then have "alloc_inv k mgr hp' a (rev (take np fs)) (drop np fs) {}"
      using l size(1) fs(3) cls by (intro fresh_lists_inv [where cp = ?cp]) simp_all
    then show ?thesis using start l(1,4) True by auto
  next
    case False
    then show ?thesis using start loop by auto
  qed
qed

theorem allocator_new_correct_witness:
  "\<exists>hp' a. allocator_new sample_pages sample_mgr (Some sample_fresh) (Some None) 100 50 0 = Some (A_OK, hp', Some (Some a)) \<and>
     alloc_inv 12 sample_mgr hp' a [0x20000, 0x10000] [] {} \<and> al_item_size a = 112"
proof -
  have r: "ROUND_16 100 = 112" by code_simp
  have np: "2 = unat ((50 + 2 ^ 12 div ROUND_16 100 - 1) div (2 ^ 12 div ROUND_16 100 :: u64))" unfolding r by code_simp
  have c: "normal_slabs sample_mgr = class_of sample_mgr (if ALLOC_FLAG_HUGE_PAGE AND 0 \<noteq> 0 then Huge_Slabs else Normal_Slabs)"
    by simp
  have "is_list (hp_list sample_pages) (avail_slabs (normal_slabs sample_mgr)) [0x10000, 0x20000]"
    using sample_page_list by (simp add: sample_mgr_def)
  from allocator_new_correct [OF c this _ _ _ _ _ _ np, where raw = sample_fresh and out = None]
  show ?thesis using sample_geometry by (simp add: r sample_mgr_def sample_fresh_def page_ok_def)
qed

lemma partition_suffix:
  assumes "us @ vs = ys @ zs" "\<forall>x \<in> set ys. P x" "\<forall>x \<in> set zs. \<not> P x"
  shows "vs = filter P vs @ filter (\<lambda>x. \<not> P x) vs"
proof -
  obtain ws where "us = ys @ ws \<and> ws @ vs = zs \<or> us @ ws = ys \<and> vs = ws @ zs"
    using assms(1) append_eq_append_conv2 [of us vs ys zs] by blast
  then show ?thesis
  proof
    assume "us = ys @ ws \<and> ws @ vs = zs"
    then have "\<forall>x \<in> set vs. \<not> P x" using assms(3) by auto
    then show ?thesis by (simp add: filter_empty_conv)
  next
    assume "us @ ws = ys \<and> vs = ws @ zs"
    moreover from this have "\<forall>x \<in> set ws. P x" using assms(2) by auto
    ultimately show ?thesis using assms(3) by (simp add: filter_empty_conv)
  qed
qed

text \<open>Claim C21. \<open>allocator_delete\<close> of an allocator without live items gives all its pages back to the class and sets the
  caller's pointer to NULL. With live items it answers \<open>A_E_BUSY\<close>, and the allocator, perhaps with fewer empty
  slabs, still holds exactly these items.\<close>

theorem allocator_delete_correct:
  assumes inv: "alloc_inv k mgr hp a xs fs L" and cp: "al_alloc_state a = Some cp"
  shows "if L = {}
    then \<exists>hp'. allocator_delete hp mgr (Some (Some a)) = Some (A_OK, hp', Some None) \<and>
           is_list (hp_list hp') (avail_slabs (class_of mgr cp)) (fs @ xs)
    else \<exists>hp' a' xs' fs'. allocator_delete hp mgr (Some (Some a)) = Some (A_E_BUSY, hp', Some (Some a')) \<and>
           alloc_inv k mgr hp' a' xs' fs' L"
proof -
  let ?sz = "al_item_size a" and ?h = "al_slabs a" and ?c = "class_of mgr cp"
  obtain cp' ys zs where J: "geometry k ?sz" "al_free_mask a = NOT (2 ^ k - 1)" "al_alloc_state a = Some cp'"
    "slab_bytes (class_of mgr cp') = 2 ^ k" "is_list (hp_list hp) (avail_slabs (class_of mgr cp')) fs"
    "set (avail_slabs (class_of mgr cp') # fs) \<inter> set (?h # xs) = {}"
    "is_list (hp_list hp) ?h xs" "xs \<noteq> []" "\<forall>s \<in> set xs \<union> set fs. page_ok k s"
    "\<forall>s \<in> set xs. slab_ok hp k ?sz L s"
    "L \<subseteq> (\<Union>s \<in> set xs. item_at ?sz s ` {..< items_per_page k ?sz})"
    "xs = ys @ zs" "\<forall>s \<in> set ys. has_free k ?sz L s" "\<forall>s \<in> set zs. \<not> has_free k ?sz L s"
    using inv by (rule alloc_invE)
  have "cp' = cp" using cp J(3) by simp
  note I = J [unfolded this]
  have pgs: "\<forall>s \<in> set xs. page_ok k s" using I(9) by simp
  have hd: "hd (xs @ [?h]) = le_next (hp_list hp ?h)" using is_list_ends(1) [OF I(7)] by simp
  obtain us vs hp' a' where d: "xs = us @ vs"
    "allocator_delete_loop hp ?c a (le_next (hp_list hp ?h)) (le_next (hp_list hp (le_next (hp_list hp ?h)))) = Some (vs = [], hp', a')"
    "is_list (hp_list hp') ?h vs" "is_list (hp_list hp') (avail_slabs ?c) (fs @ us)" "hp_slab hp' = hp_slab hp" "hp_next hp' = hp_next hp"
    "al_slabs a' = ?h" "al_item_size a' = ?sz" "al_free_mask a' = al_free_mask a" "al_alloc_state a' = al_alloc_state a"
    "\<forall>s \<in> set us. \<forall>i < items_per_page k ?sz. item_at ?sz s i \<notin> L"
    "vs \<noteq> [] \<longrightarrow> (\<exists>i < items_per_page k ?sz. item_at ?sz (hd vs) i \<in> L)"
    using delete_loop_ok [OF I(1,7,5,6) pgs I(10), unfolded hd] by blast
  have ne: "\<not> list_empty (hp_list hp) ?h" using is_list_empty_iff [OF I(7)] I(8) by simp
  have L: "L = {} \<longleftrightarrow> vs = []"
  proof
    assume "vs = []"
    then show "L = {}" using d(1,11) I(11) by fastforce
  qed (use d(12) in auto)
  show ?thesis
  proof (cases "L = {}")
    case True
    then have "list_empty (hp_list hp') ?h" using L d(3) is_list_empty_iff by blast
    then have "allocator_delete hp mgr (Some (Some a)) = Some (A_OK, hp', Some None)"
      using d(2) ne True L cp by (simp add: allocator_delete_def)
    then show ?thesis using d(1,4) True L by auto
  next
    case False
    have "allocator_delete hp mgr (Some (Some a)) = Some (A_E_BUSY, hp', Some (Some a'))"
      using d(2) ne False L cp by (simp add: allocator_delete_def)
    moreover have "alloc_inv k mgr hp' a' vs (fs @ us) L"
    proof (rule alloc_invI [where cp = cp and ys = "filter (\<lambda>s. has_free k ?sz L s) vs" and zs = "filter (\<lambda>s. \<not> has_free k ?sz L s) vs"])
      show "vs = filter (\<lambda>s. has_free k ?sz L s) vs @ filter (\<lambda>s. \<not> has_free k ?sz L s) vs"
        using partition_suffix [of us vs ys zs "has_free k ?sz L"] d(1) I(12-14) by simp
      show "\<forall>s \<in> set vs \<union> set (fs @ us). page_ok k s" using I(9) d(1) by auto
      show "L \<subseteq> (\<Union>s \<in> set vs. item_at (al_item_size a') s ` {..< items_per_page k (al_item_size a')})"
        using I(11) d(1,8,11) by fastforce
      show "set (avail_slabs (class_of mgr cp) # fs @ us) \<inter> set (al_slabs a' # vs) = {}"
        using I(6) d(1,7) is_list_distinct [OF I(7)] by auto
      show "\<forall>s \<in> set vs. slab_ok hp' k (al_item_size a') L s" using I(10) d(1,5,6,8) by (simp add: slab_ok_def)
    qed (use I(1-4) d(3,4,7-10) False L in auto)
    ultimately show ?thesis using False by auto
  qed
qed

theorem allocator_delete_correct_witness:
  "\<exists>hp a hp'. allocator_delete hp sample_mgr (Some (Some a)) = Some (A_OK, hp', Some None) \<and>
     is_list (hp_list hp') 0x100 [0x20000, 0x10000]"
proof -
  obtain hp a where i: "alloc_inv 12 sample_mgr hp a [0x10000] [0x20000] {}" using sample_inv by blast
  then obtain cp where cp: "al_alloc_state a = Some cp" "slab_bytes (class_of sample_mgr cp) = 2 ^ 12" by (rule alloc_invE)
  then have "cp = Normal_Slabs" by (cases cp) (auto simp: sample_mgr_def INIT_SLAB_CLASS_def)
  then have "avail_slabs (class_of sample_mgr cp) = 0x100" by (simp add: sample_mgr_def)
  then show ?thesis using allocator_delete_correct [OF i cp(1)] by auto
qed

text \<open>The number of items per page that \<open>allocator_new\<close> computes does not count the slab header. With items of
  a page's size it answers \<open>A_OK\<close>, but every slab has room for zero items, and \<open>allocator_alloc\<close> answers
  \<open>A_E_NOMEM\<close> though the class still has free pages (each attempt takes another one).\<close>

theorem allocator_new_ignores_header:
  "case allocator_new sample_pages sample_mgr (Some sample_fresh) (Some None) 4096 1 0 of
     Some (ret, hp, Some (Some a)) \<Rightarrow>
       ret = A_OK \<and> \<not> list_empty (hp_list hp) 0x100 \<and>
       (case allocator_alloc hp sample_mgr (Some a) (Some 0) of
          Some (ret, hp, _, item) \<Rightarrow> ret = A_E_NOMEM \<and> item = Some NULL \<and> list_empty (hp_list hp) 0x100
        | None \<Rightarrow> False)
   | _ \<Rightarrow> False"
  by code_simp

end
