(* ===== verification/Slab_Concurrent.thy ===== *)
theory Slab_Concurrent
  imports Slab_Allocator
begin

section \<open>Slab classes shared by threads\<close>

text \<open>
  \<open>__allocator_acquire_page\<close> and \<open>__allocator_release_page\<close> run in any number of threads, on one slab class. The list of free
  pages is protected by the spin lock of the class. Here the calls are interleaved, one access to shared memory per step: also
  the reads and writes inside \<open>list_del\<close> and \<open>list_append\<close>. A thread that holds a page may write to it at any time, also where
  the list had its links. The spin lock of the concurrency kit is a parameter.
\<close>

subsection \<open>The spin lock\<close>

text \<open>An attempt to take the lock, which gives \<open>None\<close> while the thread has to spin; the release; and who holds the lock. The kit
  documents mutual exclusion, and that a free lock can be taken.\<close>

locale spin_lock =
  fixes lock :: "'l \<Rightarrow> nat \<Rightarrow> 'l option" and unlock :: "'l \<Rightarrow> nat \<Rightarrow> 'l" and holder :: "'l \<Rightarrow> nat option"
  assumes lock_excludes: "lock l t = Some l' \<Longrightarrow> holder l = None \<and> holder l' = Some t"
    and lock_free: "holder l = None \<Longrightarrow> lock l t \<noteq> None"
    and unlock_frees: "holder l = Some t \<Longrightarrow> holder (unlock l t) = None"

subsection \<open>Writes to links\<close>

datatype link_write = W_Next addr addr | W_Prev addr addr

fun do_write :: "link_write \<Rightarrow> list_mem \<Rightarrow> list_mem" where
  "do_write (W_Next p v) m = set_next m p v"
| "do_write (W_Prev p v) m = set_prev m p v"

text \<open>The writes of \<open>list_del\<close> and of \<open>__list_add\<close>, in their order, once the neighbours have been read.\<close>

definition list_del_writes :: "addr \<Rightarrow> addr \<Rightarrow> addr \<Rightarrow> link_write list" where
  "list_del_writes del prv nxt = [W_Next prv nxt, W_Prev nxt prv, W_Next del LIST_POISON_NEXT, W_Prev del LIST_POISON_PREV]"

definition list_add_writes :: "addr \<Rightarrow> addr \<Rightarrow> addr \<Rightarrow> link_write list" where
  "list_add_writes new prv nxt = [W_Next prv new, W_Prev new prv, W_Prev nxt new, W_Next new nxt]"

lemma del_writes: "fold do_write (list_del_writes d (le_prev (m d)) (le_next (m d))) m = list_del m d"
  by (simp add: list_del_writes_def list_del_def list_del_between_def)

lemma add_writes: "fold do_write (list_add_writes n (le_prev (m h)) h) m = list_append m h n"
  by (simp add: list_add_writes_def list_append_def list_add_def)

lemma write_moved: "\<exists>e'. do_write w (m(p := e)) = (do_write w m)(p := e')"
proof (cases "p = (case w of W_Next q v \<Rightarrow> q | W_Prev q v \<Rightarrow> q)")
  case True
  then show ?thesis by (cases w) (auto simp: set_next_def set_prev_def intro!: exI)
next
  case False
  then show ?thesis by (intro exI [of _ e], cases w) (auto simp: set_next_def set_prev_def fun_upd_twist)
qed

lemma writes_elsewhere: "q \<noteq> p \<Longrightarrow> fold do_write ws (m(p := e)) q = fold do_write ws m q"
proof (induction ws arbitrary: m e)
  case (Cons w ws)
  obtain e' where "do_write w (m(p := e)) = (do_write w m)(p := e')" using write_moved by blast
  then show ?case using Cons.IH [OF Cons.prems, of "do_write w m" e'] by (simp del: fun_upd_apply)
qed simp

subsection \<open>The calls, one access at a time\<close>

text \<open>Between calls, a thread is at \<open>PG_Ready\<close> with the answer of its last call. The other positions are named after the access
  that comes next; their arguments are local variables, and the writes that are left.\<close>

datatype page_pc =
    PG_Ready aresult_t "addr option"
  | PA_Lock
  | PA_Empty
  | PA_Next
  | PA_Del_Prev addr
  | PA_Del_Next addr addr
  | PA_Write addr "link_write list"
  | PA_Unlock aresult_t "addr option"
  | PR_Lock addr
  | PR_Tail addr
  | PR_Write "link_write list"
  | PR_Unlock

text \<open>\<open>ps_owner\<close> records which thread has a page: from the moment when \<open>list_del\<close> is about to unlink it until \<open>list_append\<close> is
  about to link it again.\<close>

record 'l page_sys =
  ps_mem :: list_mem
  ps_lock :: 'l
  ps_pc :: "nat \<Rightarrow> page_pc"
  ps_owner :: "addr \<rightharpoonup> nat"

text \<open>A step of thread \<open>t\<close> inside a call on the class whose list has the head \<open>head\<close>.\<close>

definition page_step ::
  "('l \<Rightarrow> nat \<Rightarrow> 'l option) \<Rightarrow> ('l \<Rightarrow> nat \<Rightarrow> 'l) \<Rightarrow> addr \<Rightarrow> nat \<Rightarrow> 'l page_sys \<Rightarrow> 'l page_sys" where
  "page_step lock unlock head t s =
     (let m = ps_mem s; go = (\<lambda>pc s. s\<lparr>ps_pc := (ps_pc s)(t := pc)\<rparr>) in
      case ps_pc s t of
        PG_Ready r pg \<Rightarrow> s
      | PA_Lock \<Rightarrow> (case lock (ps_lock s) t of None \<Rightarrow> s | Some l \<Rightarrow> go PA_Empty (s\<lparr>ps_lock := l\<rparr>))
      | PA_Empty \<Rightarrow> go (if list_empty m head then PA_Unlock A_E_NOMEM None else PA_Next) s
      | PA_Next \<Rightarrow> go (PA_Del_Prev (le_next (m head))) s
      | PA_Del_Prev item \<Rightarrow> go (PA_Del_Next item (le_prev (m item))) s
      | PA_Del_Next item prv \<Rightarrow>
          go (PA_Write item (list_del_writes item prv (le_next (m item)))) (s\<lparr>ps_owner := (ps_owner s)(item \<mapsto> t)\<rparr>)
      | PA_Write item (w # ws) \<Rightarrow> go (PA_Write item ws) (s\<lparr>ps_mem := do_write w m\<rparr>)
      | PA_Write item [] \<Rightarrow> go (PA_Unlock A_OK (Some item)) s
      | PA_Unlock r pg \<Rightarrow> go (PG_Ready r pg) (s\<lparr>ps_lock := unlock (ps_lock s) t\<rparr>)
      | PR_Lock p \<Rightarrow> (case lock (ps_lock s) t of None \<Rightarrow> s | Some l \<Rightarrow> go (PR_Tail p) (s\<lparr>ps_lock := l\<rparr>))
      | PR_Tail p \<Rightarrow>
          go (PR_Write (list_add_writes p (le_prev (m head)) head)) (s\<lparr>ps_owner := (ps_owner s)(p := None)\<rparr>)
      | PR_Write (w # ws) \<Rightarrow> go (PR_Write ws) (s\<lparr>ps_mem := do_write w m\<rparr>)
      | PR_Write [] \<Rightarrow> go PR_Unlock s
      | PR_Unlock \<Rightarrow> go (PG_Ready A_OK None) (s\<lparr>ps_lock := unlock (ps_lock s) t\<rparr>))"

text \<open>The system: threads call and run; a thread between calls uses and releases pages that it has.\<close>

inductive page_sys_step ::
  "('l \<Rightarrow> nat \<Rightarrow> 'l option) \<Rightarrow> ('l \<Rightarrow> nat \<Rightarrow> 'l) \<Rightarrow> addr \<Rightarrow> 'l page_sys \<Rightarrow> 'l page_sys \<Rightarrow> bool" for lock unlock head where
  call_acquire: "ps_pc s t = PG_Ready r pg \<Longrightarrow> page_sys_step lock unlock head s (s\<lparr>ps_pc := (ps_pc s)(t := PA_Lock)\<rparr>)"
| call_release: "ps_pc s t = PG_Ready r pg \<Longrightarrow> ps_owner s p = Some t \<Longrightarrow>
    page_sys_step lock unlock head s (s\<lparr>ps_pc := (ps_pc s)(t := PR_Lock p)\<rparr>)"
| use_page: "ps_pc s t = PG_Ready r pg \<Longrightarrow> ps_owner s p = Some t \<Longrightarrow>
    page_sys_step lock unlock head s (s\<lparr>ps_mem := (ps_mem s)(p := e)\<rparr>)"
| run_thread: "page_sys_step lock unlock head s (page_step lock unlock head t s)"

definition page_sys_reachable ::
  "('l \<Rightarrow> nat \<Rightarrow> 'l option) \<Rightarrow> ('l \<Rightarrow> nat \<Rightarrow> 'l) \<Rightarrow> addr \<Rightarrow> 'l page_sys \<Rightarrow> 'l page_sys \<Rightarrow> bool" where
  "page_sys_reachable lock unlock head = (page_sys_step lock unlock head)\<^sup>*\<^sup>*"

definition page_sys_init :: "list_mem \<Rightarrow> 'l \<Rightarrow> 'l page_sys" where
  "page_sys_init m l = \<lparr>ps_mem = m, ps_lock = l, ps_pc = (\<lambda>_. PG_Ready A_OK None), ps_owner = Map.empty\<rparr>"

subsection \<open>Invariant\<close>

fun in_section :: "page_pc \<Rightarrow> bool" where
  "in_section (PG_Ready r pg) = False"
| "in_section PA_Lock = False"
| "in_section (PR_Lock p) = False"
| "in_section pc = True"

fun writes_left :: "page_pc \<Rightarrow> link_write list" where
  "writes_left (PA_Write item ws) = ws"
| "writes_left (PR_Write ws) = ws"
| "writes_left pc = []"

text \<open>What a thread knows at its position, about the memory, the pages on the list and its own pages.\<close>

fun pc_ok :: "list_mem \<Rightarrow> addr set \<Rightarrow> (addr \<rightharpoonup> nat) \<Rightarrow> addr set \<Rightarrow> nat \<Rightarrow> page_pc \<Rightarrow> bool" where
  "pc_ok m free owner P t PA_Next = (free \<noteq> {})"
| "pc_ok m free owner P t (PA_Del_Prev item) = (item \<in> free)"
| "pc_ok m free owner P t (PA_Del_Next item prv) = (item \<in> free \<and> prv = le_prev (m item))"
| "pc_ok m free owner P t (PA_Write item ws) = (owner item = Some t)"
| "pc_ok m free owner P t (PA_Unlock r pg) = (case pg of Some p \<Rightarrow> r = A_OK \<and> owner p = Some t | None \<Rightarrow> r = A_E_NOMEM \<and> P \<subseteq> dom owner)"
| "pc_ok m free owner P t (PR_Lock p) = (owner p = Some t)"
| "pc_ok m free owner P t (PR_Tail p) = (owner p = Some t)"
| "pc_ok m free owner P t pc = True"

text \<open>The list that results when the thread in the critical section has done the writes that are left has exactly the pages
  without owner.\<close>

definition pending_writes :: "nat option \<Rightarrow> (nat \<Rightarrow> page_pc) \<Rightarrow> link_write list" where
  "pending_writes h pcs = (case h of Some t \<Rightarrow> writes_left (pcs t) | None \<Rightarrow> [])"

definition page_inv :: "('l \<Rightarrow> nat option) \<Rightarrow> addr \<Rightarrow> addr set \<Rightarrow> 'l page_sys \<Rightarrow> bool" where
  "page_inv holder head P s \<longleftrightarrow>
     (\<forall>t. in_section (ps_pc s t) \<longleftrightarrow> holder (ps_lock s) = Some t) \<and>
     head \<notin> P \<and> dom (ps_owner s) \<subseteq> P \<and>
     (\<exists>xs. is_list (fold do_write (pending_writes (holder (ps_lock s)) (ps_pc s)) (ps_mem s)) head xs \<and>
        set xs = P - dom (ps_owner s)) \<and>
     (\<forall>t. pc_ok (ps_mem s) (P - dom (ps_owner s)) (ps_owner s) P t (ps_pc s t))"

lemma page_invD:
  assumes "page_inv holder head P s"
  shows "in_section (ps_pc s t) \<longleftrightarrow> holder (ps_lock s) = Some t" "head \<notin> P" "dom (ps_owner s) \<subseteq> P"
    "pc_ok (ps_mem s) (P - dom (ps_owner s)) (ps_owner s) P t (ps_pc s t)"
  using assms by (auto simp: page_inv_def)

lemma writes_left_outside: "\<not> in_section pc \<Longrightarrow> writes_left pc = []"
  by (cases pc) simp_all

text \<open>The list as the thread sees it that is in the critical section or enters it.\<close>

lemma section_list:
  assumes "page_inv holder head P s" "holder (ps_lock s) \<in> {None, Some t}"
  obtains xs where "is_list (fold do_write (writes_left (ps_pc s t)) (ps_mem s)) head xs" "set xs = P - dom (ps_owner s)"
proof -
  have "writes_left (ps_pc s t) = []" if "holder (ps_lock s) = None"
    using page_invD(1) [OF assms(1), of t] that writes_left_outside by simp
  then have "pending_writes (holder (ps_lock s)) (ps_pc s) = writes_left (ps_pc s t)"
    using assms(2) by (auto simp: pending_writes_def)
  then show ?thesis using assms(1) that unfolding page_inv_def by auto
qed

text \<open>What a thread in the critical section does keeps the invariant if it keeps the list and touches no page of other threads.\<close>

lemma inv_in_section:
  assumes inv: "page_inv holder head P s" and l: "holder (ps_lock s) \<in> {None, Some t}"
    and l': "holder l' \<in> {None, Some t}" "in_section pc' \<longleftrightarrow> holder l' = Some t"
    and ow: "dom ow \<subseteq> P" "\<And>p u. u \<noteq> t \<Longrightarrow> ps_owner s p = Some u \<Longrightarrow> ow p = Some u"
    and lst: "is_list (fold do_write (writes_left pc') m) head xs" "set xs = P - dom ow"
    and ok: "pc_ok m (P - dom ow) ow P t pc'"
  shows "page_inv holder head P (s\<lparr>ps_mem := m, ps_lock := l', ps_owner := ow, ps_pc := (ps_pc s)(t := pc')\<rparr>)"
proof -
  have out: "\<not> in_section (ps_pc s u)" if "u \<noteq> t" for u
    using page_invD(1) [OF inv, of u] l that by auto
  have "in_section (((ps_pc s)(t := pc')) u) \<longleftrightarrow> holder l' = Some u" for u
    using out [of u] l' by auto
  moreover have "pc_ok m (P - dom ow) ow P u (((ps_pc s)(t := pc')) u)" for u
    using out [of u] page_invD(4) [OF inv, of u] ow(2) [of u] ok by (cases "ps_pc s u") auto
  moreover have "pending_writes (holder l') ((ps_pc s)(t := pc')) = writes_left pc'"
    using l' writes_left_outside [of pc'] by (auto simp: pending_writes_def)
  ultimately show ?thesis using page_invD(2) [OF inv] ow(1) lst unfolding page_inv_def by auto
qed

lemma inv_outside:
  assumes inv: "page_inv holder head P s" and pc: "\<not> in_section (ps_pc s t)" "\<not> in_section pc'"
    and ok: "pc_ok (ps_mem s) (P - dom (ps_owner s)) (ps_owner s) P t pc'"
  shows "page_inv holder head P (s\<lparr>ps_pc := (ps_pc s)(t := pc')\<rparr>)"
proof -
  have "holder (ps_lock s) \<noteq> Some t" using page_invD(1) [OF inv] pc(1) by blast
  then have "pending_writes (holder (ps_lock s)) ((ps_pc s)(t := pc')) = pending_writes (holder (ps_lock s)) (ps_pc s)"
    by (auto simp: pending_writes_def split: option.split)
  then show ?thesis using inv pc ok \<open>holder (ps_lock s) \<noteq> Some t\<close> unfolding page_inv_def by auto
qed

lemma inv_use_page:
  assumes inv: "page_inv holder head P s" and p: "ps_owner s p = Some t" and pc: "\<not> in_section (ps_pc s t)"
  shows "page_inv holder head P (s\<lparr>ps_mem := (ps_mem s)(p := e)\<rparr>)"
proof -
  let ?ws = "pending_writes (holder (ps_lock s)) (ps_pc s)"
  obtain xs where xs: "is_list (fold do_write ?ws (ps_mem s)) head xs" "set xs = P - dom (ps_owner s)"
    using inv by (auto simp: page_inv_def)
  have "p \<notin> set (head # xs)" using xs(2) p page_invD(2,3) [OF inv] by auto
  then have "fold do_write ?ws ((ps_mem s)(p := e)) x = fold do_write ?ws (ps_mem s) x" if "x \<in> set (head # xs)" for x
    using that by (intro writes_elsewhere) auto
  then have "is_list (fold do_write ?ws ((ps_mem s)(p := e))) head xs"
    using xs(1) is_list_cong by blast
  moreover have "pc_ok ((ps_mem s)(p := e)) (P - dom (ps_owner s)) (ps_owner s) P u (ps_pc s u)" for u
    using page_invD(4) [OF inv, of u] p by (cases "ps_pc s u") auto
  ultimately show ?thesis using inv xs(2) unfolding page_inv_def by auto
qed

lemma list_first:
  assumes "is_list m head xs" "xs \<noteq> []"
  shows "le_next (m head) \<in> set xs"
  using is_list_ends(1) [OF assms(1)] assms(2) by (cases xs) auto

context spin_lock
begin

lemma take_lock:
  assumes inv: "page_inv holder head P s" and pc: "\<not> in_section (ps_pc s t)" and l: "lock (ps_lock s) t = Some l"
    and pc': "in_section pc'" "writes_left pc' = []" "pc_ok (ps_mem s) (P - dom (ps_owner s)) (ps_owner s) P t pc'"
  shows "page_inv holder head P (s\<lparr>ps_lock := l, ps_pc := (ps_pc s)(t := pc')\<rparr>)"
proof -
  have h: "holder (ps_lock s) = None" "holder l = Some t" using lock_excludes [OF l] by auto
  obtain xs where xs: "is_list (fold do_write (writes_left (ps_pc s t)) (ps_mem s)) head xs" "set xs = P - dom (ps_owner s)"
    using section_list [OF inv, of t] h by blast
  show ?thesis
    using inv_in_section [OF inv, of t l pc' "ps_owner s" "ps_mem s" xs] h pc' xs page_invD(3) [OF inv] writes_left_outside [OF pc] by simp
qed

lemma step_in_section:
  assumes inv: "page_inv holder head P s" and pc: "in_section (ps_pc s t)"
  shows "page_inv holder head P (page_step lock unlock head t s)"
proof -
  have h: "holder (ps_lock s) = Some t" "holder (unlock (ps_lock s) t) = None"
    using page_invD(1) [OF inv] pc unlock_frees by blast+
  note own = page_invD(3) [OF inv] and ok = page_invD(4) [OF inv, of t]
  obtain xs where xs: "is_list (fold do_write (writes_left (ps_pc s t)) (ps_mem s)) head xs" "set xs = P - dom (ps_owner s)"
    using section_list [OF inv, of t] h by blast
  have ne: "xs = [] \<longleftrightarrow> P \<subseteq> dom (ps_owner s)" using xs(2) set_empty [of xs] by auto
  note keep = inv_in_section [OF inv, of t]
  show ?thesis
  proof (cases "ps_pc s t")
    case PA_Empty
    then show ?thesis
      using keep [of "ps_lock s" "if list_empty (ps_mem s) head then PA_Unlock A_E_NOMEM None else PA_Next" "ps_owner s" "ps_mem s" xs]
        ne h own xs is_list_empty_iff [of "ps_mem s" head xs] by (auto simp: page_step_def Let_def)
  next
    case PA_Next
    then have "le_next (ps_mem s head) \<in> set xs" using ok ne xs list_first [of "ps_mem s" head xs] by auto
    then show ?thesis
      using keep [of "ps_lock s" "PA_Del_Prev (le_next (ps_mem s head))" "ps_owner s" "ps_mem s" xs] PA_Next h own xs
      by (auto simp: page_step_def Let_def)
  next
    case (PA_Del_Prev item)
    then show ?thesis
      using keep [of "ps_lock s" "PA_Del_Next item (le_prev (ps_mem s item))" "ps_owner s" "ps_mem s" xs] h own xs ok
      by (auto simp: page_step_def Let_def)
  next
    case (PA_Del_Next item prv)
    have i: "item \<in> P" "ps_owner s item = None" "prv = le_prev (ps_mem s item)" "item \<in> set xs" using ok xs PA_Del_Next by auto
    have l: "is_list (ps_mem s) head xs" using xs PA_Del_Next by simp
    have "set (remove1 item xs) = P - dom ((ps_owner s)(item \<mapsto> t))"
      using set_remove1_eq [of xs item] is_list_distinct [OF l] xs(2) by auto
    moreover have "((ps_owner s)(item \<mapsto> t)) q = Some u" if "ps_owner s q = Some u" for q u
      using that i(2) by auto
    ultimately show ?thesis
      using keep [of "ps_lock s" "PA_Write item (list_del_writes item prv (le_next (ps_mem s item)))" "(ps_owner s)(item \<mapsto> t)"
          "ps_mem s" "remove1 item xs"] PA_Del_Next h own i is_list_del [OF l i(4)]
      by (auto simp: page_step_def Let_def del_writes)
  next
    case (PA_Write item ws)
    then show ?thesis
      using keep [of "ps_lock s" "PA_Unlock A_OK (Some item)" "ps_owner s" "ps_mem s" xs]
        keep [of "ps_lock s" "PA_Write item (tl ws)" "ps_owner s" "do_write (List.hd ws) (ps_mem s)" xs] h own xs ok
      by (cases ws) (auto simp: page_step_def Let_def)
  next
    case (PA_Unlock r pg)
    then show ?thesis
      using keep [of "unlock (ps_lock s) t" "PG_Ready r pg" "ps_owner s" "ps_mem s" xs] h own xs by (simp add: page_step_def Let_def)
  next
    case (PR_Tail p)
    have p: "ps_owner s p = Some t" "p \<in> P" using ok own PR_Tail by auto
    have l: "is_list (ps_mem s) head xs" using xs PR_Tail by simp
    have n: "p \<notin> set (head # xs)" using p xs(2) page_invD(2) [OF inv] by auto
    have "set (xs @ [p]) = P - dom ((ps_owner s)(p := None))" using p xs(2) by auto
    moreover have "((ps_owner s)(p := None)) q = Some u" if "ps_owner s q = Some u" "u \<noteq> t" for q u
      using that p(1) by auto
    moreover have "dom ((ps_owner s)(p := None)) \<subseteq> P" using own by auto
    ultimately show ?thesis
      using keep [of "ps_lock s" "PR_Write (list_add_writes p (le_prev (ps_mem s head)) head)" "(ps_owner s)(p := None)"
          "ps_mem s" "xs @ [p]"] PR_Tail h own p is_list_append [OF l n]
      by (auto simp: page_step_def Let_def add_writes)
  next
    case (PR_Write ws)
    then show ?thesis
      using keep [of "ps_lock s" PR_Unlock "ps_owner s" "ps_mem s" xs]
        keep [of "ps_lock s" "PR_Write (tl ws)" "ps_owner s" "do_write (List.hd ws) (ps_mem s)" xs] h own xs
      by (cases ws) (auto simp: page_step_def Let_def)
  next
    case PR_Unlock
    then show ?thesis
      using keep [of "unlock (ps_lock s) t" "PG_Ready A_OK None" "ps_owner s" "ps_mem s" xs] h own xs by (simp add: page_step_def Let_def)
  qed (use pc in simp_all)
qed

lemma step_outside:
  assumes inv: "page_inv holder head P s" and pc: "\<not> in_section (ps_pc s t)"
  shows "page_inv holder head P (page_step lock unlock head t s)"
proof (cases "ps_pc s t")
  case PA_Lock
  then show ?thesis
    using inv take_lock [OF inv pc, of _ PA_Empty] by (auto simp: page_step_def Let_def split: option.split)
next
  case (PR_Lock p)
  then show ?thesis
    using inv take_lock [OF inv pc, of _ "PR_Tail p"] page_invD(4) [OF inv, of t] by (auto simp: page_step_def Let_def split: option.split)
qed (use inv pc in \<open>simp_all add: page_step_def Let_def\<close>)

lemma inv_step:
  assumes "page_sys_step lock unlock head s s'" "page_inv holder head P s"
  shows "page_inv holder head P s'"
  using assms
proof cases
  case (call_acquire t r pg)
  then show ?thesis using inv_outside [OF assms(2), of t PA_Lock] by simp
next
  case (call_release t r pg p)
  then show ?thesis using inv_outside [OF assms(2), of t "PR_Lock p"] by simp
next
  case (use_page t r pg p e)
  then show ?thesis using inv_use_page [OF assms(2), of p t e] by simp
next
  case (run_thread t)
  then show ?thesis using step_in_section [OF assms(2)] step_outside [OF assms(2)] by blast
qed

lemma inv_init:
  assumes "is_list m head xs" "holder l = None"
  shows "page_inv holder head (set xs) (page_sys_init m l)"
  using assms is_list_distinct [OF assms(1)]
  by (auto simp: page_inv_def page_sys_init_def pending_writes_def intro!: exI [of _ xs])

lemma inv_reachable:
  assumes "page_sys_reachable lock unlock head (page_sys_init m l) s" "is_list m head xs" "holder l = None"
  shows "page_inv holder head (set xs) s"
  using assms(1) unfolding page_sys_reachable_def
  by (induction rule: rtranclp_induct) (use inv_init [OF assms(2,3)] inv_step in blast)+

text \<open>A page changes its owner only by a release of the owner.\<close>

lemma owner_kept:
  assumes "page_sys_step lock unlock head s s'" "page_inv holder head P s" "ps_owner s p = Some t" "ps_pc s t \<noteq> PR_Tail p"
  shows "ps_owner s' p = Some t"
  using assms(1)
proof cases
  case (run_thread u)
  then show ?thesis using assms(3,4) page_invD(4) [OF assms(2), of u]
    by (cases "ps_pc s u") (auto simp: page_step_def Let_def split: option.splits list.splits)
qed (use assms(3) in simp_all)

text \<open>A call that runs without the other threads.\<close>

lemma acquire_alone:
  assumes "holder (ps_lock s) = None" "ps_pc s t = PA_Lock" "ps_mem s = hp_list hp" "avail_slabs cls = head"
  shows "\<exists>k s'. (page_step lock unlock head t ^^ k) s = s' \<and> holder (ps_lock s') = None \<and>
    (case allocator_acquire_page hp (Some cls) (Some pg) of (r, hp', pg') \<Rightarrow>
       ps_mem s' = hp_list hp' \<and> ps_pc s' = (ps_pc s)(t := PG_Ready r (if r = A_OK then pg' else None)))"
proof -
  obtain l where l: "lock (ps_lock s) t = Some l" "holder (unlock l t) = None"
    using lock_free [OF assms(1), of t] lock_excludes unlock_frees by fastforce
  show ?thesis
  proof (cases "list_empty (hp_list hp) head")
    case True
    then show ?thesis
      using l assms by (intro exI [of _ 3] exI) (auto simp: numeral_eq_Suc funpow_Suc_right page_step_def Let_def allocator_acquire_page_def)
  next
    case False
    then show ?thesis
      using l assms by (intro exI [of _ 11] exI)
        (auto simp: numeral_eq_Suc funpow_Suc_right page_step_def Let_def allocator_acquire_page_def list_del_writes_def
          list_del_def list_del_between_def)
  qed
qed

lemma release_alone:
  assumes "holder (ps_lock s) = None" "ps_pc s t = PR_Lock p" "ps_mem s = hp_list hp" "avail_slabs cls = head" "p \<noteq> NULL"
  shows "\<exists>k s'. (page_step lock unlock head t ^^ k) s = s' \<and> holder (ps_lock s') = None \<and>
    (case allocator_release_page hp (Some cls) p of (r, hp') \<Rightarrow>
       ps_mem s' = hp_list hp' \<and> ps_pc s' = (ps_pc s)(t := PG_Ready r None))"
proof -
  obtain l where l: "lock (ps_lock s) t = Some l" "holder (unlock l t) = None"
    using lock_free [OF assms(1), of t] lock_excludes unlock_frees by fastforce
  show ?thesis
    using l assms by (intro exI [of _ 8] exI)
      (auto simp: numeral_eq_Suc funpow_Suc_right page_step_def Let_def allocator_release_page_def list_add_writes_def
        list_append_def list_add_def)
qed

end

text \<open>A lock that knows its holder, taken by an atomic exchange.\<close>

definition fas_lock :: "nat option \<Rightarrow> nat \<Rightarrow> nat option option" where
  "fas_lock l t = (if l = None then Some (Some t) else None)"

definition fas_unlock :: "nat option \<Rightarrow> nat \<Rightarrow> nat option" where
  "fas_unlock l t = None"

interpretation fas: spin_lock fas_lock fas_unlock id
  by unfold_locales (auto simp: fas_lock_def fas_unlock_def split: if_splits)

subsection \<open>Properties\<close>

text \<open>Claim C5. Any number of threads take pages from a slab class with the free pages \<open>xs\<close>, write to the pages they have and give
  them back, interleaved access by access. At every moment at most one thread is between taking and releasing the lock. A thread
  that is about to answer A_OK with a page is the only one that has it, whatever the others do next: only its own release ends
  that. A thread that is about to answer A_E_NOMEM does so because threads have all pages. And whenever the lock is free, the list in
  memory is well-formed and has exactly the pages that no thread has, so no page is lost.\<close>

theorem slab_pages_never_shared:
  assumes "\<And>l t l'. lock l t = Some l' \<Longrightarrow> holder l = None \<and> holder l' = Some t" "\<And>l t. holder l = None \<Longrightarrow> lock l t \<noteq> None"
    "\<And>l t. holder l = Some t \<Longrightarrow> holder (unlock l t) = None"
    and "page_sys_reachable lock unlock head (page_sys_init m l0) s" "is_list m head xs" "holder l0 = None"
  shows "(\<forall>t u. in_section (ps_pc s t) \<and> in_section (ps_pc s u) \<longrightarrow> t = u) \<and>
    (\<forall>t p. ps_pc s t = PA_Unlock A_OK (Some p) \<longrightarrow> p \<in> set xs \<and> ps_owner s p = Some t) \<and>
    (\<forall>t. ps_pc s t = PA_Unlock A_E_NOMEM None \<longrightarrow> set xs \<subseteq> dom (ps_owner s)) \<and>
    (\<forall>s' p t. page_sys_step lock unlock head s s' \<and> ps_owner s p = Some t \<and> ps_pc s t \<noteq> PR_Tail p \<longrightarrow> ps_owner s' p = Some t) \<and>
    (holder (ps_lock s) = None \<longrightarrow> (\<exists>ys. is_list (ps_mem s) head ys \<and> set ys = set xs - dom (ps_owner s)))"
proof -
  have l: "spin_lock lock unlock holder" using assms(1-3) by unfold_locales blast+
  have inv: "page_inv holder head (set xs) s" by (rule spin_lock.inv_reachable [OF l assms(4-6)])
  have ok: "pc_ok (ps_mem s) (set xs - dom (ps_owner s)) (ps_owner s) (set xs) t (ps_pc s t)" for t by (rule page_invD(4) [OF inv])
  show ?thesis
  proof (intro conjI allI impI)
    show "t = u" if "in_section (ps_pc s t) \<and> in_section (ps_pc s u)" for t u
      using that unfolding page_invD(1) [OF inv] by (metis option.inject)
    show "p \<in> set xs" if "ps_pc s t = PA_Unlock A_OK (Some p)" for t p
      using ok [of t] page_invD(3) [OF inv] that by auto
    show "ps_owner s p = Some t" if "ps_pc s t = PA_Unlock A_OK (Some p)" for t p
      using ok [of t] that by simp
    show "set xs \<subseteq> dom (ps_owner s)" if "ps_pc s t = PA_Unlock A_E_NOMEM None" for t
      using ok [of t] that by simp
    show "ps_owner s' p = Some t" if "page_sys_step lock unlock head s s' \<and> ps_owner s p = Some t \<and> ps_pc s t \<noteq> PR_Tail p" for s' p t
      using spin_lock.owner_kept [OF l _ inv] that by blast
    show "\<exists>ys. is_list (ps_mem s) head ys \<and> set ys = set xs - dom (ps_owner s)" if "holder (ps_lock s) = None"
      using inv that unfolding page_inv_def by (auto simp: pending_writes_def)
  qed
qed

text \<open>Two free pages and two threads: the first thread takes a page and overwrites its links, and then the second one takes
  the lock and reads the list.\<close>

definition two_pages :: list_mem where
  "two_pages = list_append (list_append (list_init (\<lambda>_. \<lparr>le_prev = 0, le_next = 0\<rparr>) 0x100) 0x100 0x1000) 0x100 0x2000"

lemma two_pages_list: "is_list two_pages 0x100 [0x1000, 0x2000]"
proof -
  have "is_list two_pages 0x100 (([] @ [0x1000]) @ [0x2000])"
    unfolding two_pages_def by (intro is_list_append is_list_init) simp_all
  then show ?thesis by simp
qed

definition page_run :: "nat \<Rightarrow> nat \<Rightarrow> nat option page_sys \<Rightarrow> nat option page_sys" where
  "page_run k t = page_step fas_lock fas_unlock 0x100 t ^^ k"

lemma page_run_reachable: "page_sys_reachable fas_lock fas_unlock 0x100 s0 s \<Longrightarrow> page_sys_reachable fas_lock fas_unlock 0x100 s0 (page_run k t s)"
  unfolding page_run_def page_sys_reachable_def
  by (induction k) (auto intro: rtranclp.rtrancl_into_rtrancl run_thread)

lemma ten_steps:
  assumes "ps_lock s = None" "ps_pc s t = PA_Lock" "le_next (ps_mem s 0x100) = item" "item \<noteq> 0x100"
  shows "page_run 10 t s = s\<lparr>ps_lock := Some t, ps_mem := list_del (ps_mem s) item, ps_owner := (ps_owner s)(item \<mapsto> t),
    ps_pc := (ps_pc s)(t := PA_Unlock A_OK (Some item))\<rparr>"
  using assms unfolding page_run_def
  by (simp add: numeral_eq_Suc funpow_Suc_right page_step_def Let_def fas_lock_def list_empty_def list_del_writes_def
      list_del_def list_del_between_def)

definition first_took :: "nat option page_sys" where
  "first_took = page_run 1 0 (page_run 10 0 ((page_sys_init two_pages None)\<lparr>ps_pc := (\<lambda>_. PG_Ready A_OK None)(0 := PA_Lock)\<rparr>))"

definition first_wrote :: "nat option page_sys" where
  "first_wrote = first_took\<lparr>ps_mem := (ps_mem first_took)(0x1000 := \<lparr>le_prev = 7, le_next = 7\<rparr>)\<rparr>"

definition second_takes :: "nat option page_sys" where
  "second_takes = page_run 10 1 (first_wrote\<lparr>ps_pc := (ps_pc first_wrote)(1 := PA_Lock)\<rparr>)"

lemma first_took_eq:
  "first_took = \<lparr>ps_mem = list_del two_pages 0x1000, ps_lock = None, ps_pc = (\<lambda>_. PG_Ready A_OK None)(0 := PG_Ready A_OK (Some 0x1000)),
     ps_owner = [0x1000 \<mapsto> 0]\<rparr>"
proof -
  have "le_next (two_pages 0x100) = 0x1000" using is_list_ends(1) [OF two_pages_list] by simp
  then show ?thesis
    unfolding first_took_def
    by (subst ten_steps [where item = "0x1000"]) (simp_all add: page_sys_init_def page_run_def page_step_def Let_def fas_unlock_def)
qed

lemma runs:
  "ps_pc first_took 0 = PG_Ready A_OK (Some 0x1000)" "ps_pc first_took 1 = PG_Ready A_OK None" "ps_owner first_took 0x1000 = Some 0"
  "ps_pc second_takes 1 = PA_Unlock A_OK (Some 0x2000)" "ps_owner second_takes 0x1000 = Some 0"
proof -
  have l: "is_list (list_del two_pages 0x1000) 0x100 [0x2000]" using is_list_del [OF two_pages_list, of "0x1000"] by simp
  have "le_next (list_del two_pages 0x1000 0x100) = 0x2000" using is_list_ends(1) [OF l] by simp
  then have s: "second_takes = first_wrote\<lparr>ps_lock := Some 1, ps_mem := list_del (ps_mem first_wrote) 0x2000,
      ps_owner := (ps_owner first_wrote)(0x2000 \<mapsto> 1), ps_pc := (ps_pc first_wrote)(1 := PA_Unlock A_OK (Some 0x2000))\<rparr>"
    unfolding second_takes_def by (subst ten_steps [where item = "0x2000"]) (simp_all add: first_wrote_def first_took_eq)
  show "ps_pc first_took 0 = PG_Ready A_OK (Some 0x1000)" "ps_pc first_took 1 = PG_Ready A_OK None" "ps_owner first_took 0x1000 = Some 0"
    by (simp_all add: first_took_eq)
  show "ps_pc second_takes 1 = PA_Unlock A_OK (Some 0x2000)" "ps_owner second_takes 0x1000 = Some 0"
    unfolding s by (simp_all add: first_wrote_def first_took_eq)
qed

lemma second_takes_reachable: "page_sys_reachable fas_lock fas_unlock 0x100 (page_sys_init two_pages None) second_takes"
proof -
  let ?s = "page_sys_init two_pages None :: nat option page_sys" and ?step = "page_sys_step fas_lock fas_unlock 0x100"
  let ?R = "page_sys_reachable fas_lock fas_unlock 0x100 ?s"
  have ext: "?R s \<Longrightarrow> ?step s s' \<Longrightarrow> ?R s'" for s s'
    unfolding page_sys_reachable_def by (rule rtranclp.rtrancl_into_rtrancl)
  have "ps_pc ?s 0 = PG_Ready A_OK None" by (simp add: page_sys_init_def)
  then have "?step ?s (?s\<lparr>ps_pc := (ps_pc ?s)(0 := PA_Lock)\<rparr>)" by (rule call_acquire)
  then have "?R (?s\<lparr>ps_pc := (ps_pc ?s)(0 := PA_Lock)\<rparr>)" by (rule ext [rotated]) (simp add: page_sys_reachable_def)
  then have "?R first_took" unfolding first_took_def by (intro page_run_reachable) (simp add: page_sys_init_def)
  then have 1: "?R first_wrote" unfolding first_wrote_def by (rule ext) (rule use_page [OF runs(1,3)])
  have "ps_pc first_wrote 1 = PG_Ready A_OK None" using runs(2) by (simp add: first_wrote_def)
  then have "?step first_wrote (first_wrote\<lparr>ps_pc := (ps_pc first_wrote)(1 := PA_Lock)\<rparr>)" by (rule call_acquire)
  then have "?R (first_wrote\<lparr>ps_pc := (ps_pc first_wrote)(1 := PA_Lock)\<rparr>)" by (rule ext [OF 1])
  then show ?thesis unfolding second_takes_def by (rule page_run_reachable)
qed

theorem slab_pages_never_shared_witness:
  "ps_pc second_takes 1 = PA_Unlock A_OK (Some 0x2000) \<and> ps_owner second_takes 0x2000 = Some 1 \<and> ps_owner second_takes 0x1000 = Some 0"
proof -
  have "\<forall>t p. ps_pc second_takes t = PA_Unlock A_OK (Some p) \<longrightarrow> p \<in> set [0x1000, 0x2000] \<and> ps_owner second_takes p = Some t"
    by (rule slab_pages_never_shared [where holder = id, OF _ _ _ second_takes_reachable two_pages_list id_apply, THEN conjunct2, THEN conjunct1])
      (use fas.lock_excludes fas.lock_free fas.unlock_frees in blast)+
  then show ?thesis using runs(4,5) by blast
qed

end
