(* ===== verification/Logalloc.thy ===== *)
theory Logalloc
  imports TSL_Result
begin

section \<open>Log-structured allocator (tsl/logalloc.h, tsl/alloc/logalloc.c)\<close>

text \<open>
  A region of cells of one size that is handed out from a moving log head. The memory is a partial function from
  addresses to bytes: a byte outside of every allocation is not mapped, and an access to it is the fault \<open>None\<close>. A cell
  header is packed into the first two bytes of a cell: the number of cells of the block at offset 0, the reference count
  at offset 1. Headers in the middle of a block are data of the owner. \<open>size_t\<close> is a 64-bit word.
\<close>

subsection \<open>State\<close>

type_synonym byte_mem = "addr \<rightharpoonup> u8"

definition load_u8 :: "byte_mem \<Rightarrow> addr \<Rightarrow> u8 option" where
  "load_u8 m p = m p"

definition store_u8 :: "byte_mem \<Rightarrow> addr \<Rightarrow> u8 \<Rightarrow> byte_mem option" where
  "store_u8 m p v = (if m p = None then None else Some (m(p \<mapsto> v)))"

text \<open>\<open>struct logalloc_cell_header\<close>: its fields at the header address \<open>ch\<close>.\<close>

definition sizeof_cell_header :: u64 where "sizeof_cell_header = 2"

definition ch_nr_cells :: "byte_mem \<Rightarrow> addr \<Rightarrow> u8 option" where
  "ch_nr_cells m ch = load_u8 m ch"

definition ch_refcnt :: "byte_mem \<Rightarrow> addr \<Rightarrow> u8 option" where
  "ch_refcnt m ch = load_u8 m (ch + 1)"

definition set_nr_cells :: "byte_mem \<Rightarrow> addr \<Rightarrow> u8 \<Rightarrow> byte_mem option" where
  "set_nr_cells m ch v = store_u8 m ch v"

definition set_refcnt :: "byte_mem \<Rightarrow> addr \<Rightarrow> u8 \<Rightarrow> byte_mem option" where
  "set_refcnt m ch v = store_u8 m (ch + 1) v"

text \<open>\<open>logalloc_alloc_func_t\<close> and \<open>logalloc_max_ref_cnt_func_t\<close>: the parameter struct is passed by its address, the second
  argument is the location of the region pointer.\<close>

type_synonym logalloc_alloc_func_t = "byte_mem \<Rightarrow> addr \<Rightarrow> addr option \<Rightarrow> u64 \<Rightarrow> aresult_t \<times> addr option \<times> byte_mem"
type_synonym logalloc_max_ref_cnt_func_t = "addr \<Rightarrow> addr \<Rightarrow> aresult_t option"

record logalloc_params =
  prm_addr :: addr
  prm_alloc :: logalloc_alloc_func_t
  prm_free :: logalloc_alloc_func_t
  prm_max_refcnt :: logalloc_max_ref_cnt_func_t
  prm_max_alloc :: u64

record logalloc =
  la_rgn :: addr
  la_log_head :: u64
  la_cell_size :: u64
  la_region_size :: u64
  la_params :: logalloc_params

subsection \<open>Regions from the heap and from huge pages\<close>

text \<open>The bytes \<open>p, \<dots>, p + len - 1\<close> become mapped and zero, or unmapped.\<close>

definition map_zero :: "byte_mem \<Rightarrow> addr \<Rightarrow> u64 \<Rightarrow> byte_mem" where
  "map_zero m p len = (\<lambda>q. if unat (q - p) < unat len then Some 0 else m q)"

definition unmap :: "byte_mem \<Rightarrow> addr \<Rightarrow> u64 \<Rightarrow> byte_mem" where
  "unmap m p len = (\<lambda>q. if unat (q - p) < unat len then None else m q)"

text \<open>\<open>calloc\<close> is the address of the zeroed memory that the C library returns, or NULL.\<close>

definition logalloc_default_alloc :: "addr \<Rightarrow> logalloc_alloc_func_t" where
  "logalloc_default_alloc calloc m prm prgn_ptr len =
     (if \<not> prm \<noteq> NULL \<or> \<not> prgn_ptr \<noteq> None \<or> \<not> len \<noteq> 0 then (A_E_BADARGS, prgn_ptr, m)
      else if calloc = NULL then (A_E_NOMEM, Some NULL, m)
      else (A_OK, Some calloc, map_zero m calloc len))"

definition logalloc_default_free :: logalloc_alloc_func_t where
  "logalloc_default_free m prm prgn_ptr len =
     (case prgn_ptr of
        None \<Rightarrow> (A_E_BADARGS, None, m)
      | Some rgn \<Rightarrow>
          if \<not> prm \<noteq> NULL \<or> \<not> rgn \<noteq> NULL \<or> \<not> len \<noteq> 0 then (A_E_BADARGS, Some rgn, m)
          else (A_OK, Some NULL, unmap m rgn len))"

definition logalloc_default_max_ref_cnt :: logalloc_max_ref_cnt_func_t where
  "logalloc_default_max_ref_cnt prm rgn = None"

definition logalloc_default_params :: "addr \<Rightarrow> addr \<Rightarrow> logalloc_params" where
  "logalloc_default_params self calloc =
     \<lparr>prm_addr = self, prm_alloc = logalloc_default_alloc calloc, prm_free = logalloc_default_free,
      prm_max_refcnt = logalloc_default_max_ref_cnt, prm_max_alloc = push_bit 32 1\<rparr>"

text \<open>\<open>mmap\<close>: the answer of \<open>mmap\<close>, with \<open>None\<close> for \<open>MAP_FAILED\<close>; \<open>mlock\<close> only causes a message. \<open>munmap_fails\<close>: the call
  answers a negative number.\<close>

definition logalloc_hugepage_alloc :: "addr option \<Rightarrow> logalloc_alloc_func_t" where
  "logalloc_hugepage_alloc mmap m prm prgn_ptr len =
     (if \<not> prm \<noteq> NULL \<or> \<not> prgn_ptr \<noteq> None \<or> \<not> len \<noteq> 0 then (A_E_BADARGS, prgn_ptr, m)
      else case mmap of
             None \<Rightarrow> (A_E_NOMEM, prgn_ptr, m)
           | Some rgn_ptr \<Rightarrow> (A_OK, Some rgn_ptr, map_zero m rgn_ptr len))"

definition logalloc_hugepage_free :: "bool \<Rightarrow> logalloc_alloc_func_t" where
  "logalloc_hugepage_free munmap_fails m prm prgn_ptr len =
     (case prgn_ptr of
        None \<Rightarrow> (A_E_BADARGS, None, m)
      | Some rgn \<Rightarrow>
          if \<not> prm \<noteq> NULL \<or> \<not> rgn \<noteq> NULL \<or> \<not> len \<noteq> 0 then (A_E_BADARGS, Some rgn, m)
          else if munmap_fails then (A_OK, Some rgn, m)
          else (A_OK, Some NULL, unmap m rgn len))"

definition logalloc_hugepage_allocator :: "addr \<Rightarrow> addr option \<Rightarrow> bool \<Rightarrow> logalloc_max_ref_cnt_func_t \<Rightarrow> logalloc_params" where
  "logalloc_hugepage_allocator self mmap munmap_fails null_func =
     \<lparr>prm_addr = self, prm_alloc = logalloc_hugepage_alloc mmap, prm_free = logalloc_hugepage_free munmap_fails,
      prm_max_refcnt = null_func, prm_max_alloc = - 1\<rparr>"

subsection \<open>Creation and destruction\<close>

text \<open>\<open>calloc_ok\<close>: the allocation of the struct succeeds; \<open>dflt\<close>: the static default parameters. The division in the
  diagnostic message faults for a cell size of 0.\<close>

definition logalloc_new ::
  "logalloc_params \<Rightarrow> bool \<Rightarrow> byte_mem \<Rightarrow> logalloc option option \<Rightarrow> u64 \<Rightarrow> u64 \<Rightarrow> logalloc_params option \<Rightarrow>
   (aresult_t \<times> byte_mem \<times> logalloc option option) option" where
  "logalloc_new dflt calloc_ok m palloc cell_size nr_cells params =
     (if \<not> palloc \<noteq> None \<or> \<not> cell_size \<noteq> 0 \<or> \<not> nr_cells \<noteq> 0 then Some (A_E_BADARGS, m, palloc)
      else
      let cel_size = tsl_round_up_2_64 (cell_size + sizeof_cell_header);
          rgn_size = cel_size * nr_cells
      in
      if \<not> calloc_ok then Some (A_E_NOMEM, m, palloc)
      else
      let prm = (case params of None \<Rightarrow> dflt | Some p \<Rightarrow> p);
          (ret, prgn, m) = prm_alloc prm m (prm_addr prm) (Some NULL) rgn_size
      in
      if AFAILED ret then Some (ret, m, palloc)
      else if cel_size = 0 then None
      else do { fh \<leftarrow> prgn;
                m \<leftarrow> set_nr_cells m fh 0;
                m \<leftarrow> set_refcnt m fh 0;
                Some (ret, m, Some (Some \<lparr>la_rgn = fh, la_log_head = 0, la_cell_size = cel_size,
                                         la_region_size = rgn_size, la_params = prm\<rparr>)) })"

definition logalloc_delete ::
  "byte_mem \<Rightarrow> logalloc option option \<Rightarrow> (aresult_t \<times> byte_mem \<times> logalloc option option) option" where
  "logalloc_delete m palloc =
     (case palloc of
        Some (Some alloc) \<Rightarrow>
          (let (ret, prgn, m) = prm_free (la_params alloc) m (prm_addr (la_params alloc)) (Some (la_rgn alloc)) (la_region_size alloc)
           in do { rgn \<leftarrow> prgn;
                   if AFAILED ret then Some (ret, m, Some (Some (alloc\<lparr>la_rgn := rgn\<rparr>)))
                   else Some (ret, m, Some None) })
      | _ \<Rightarrow> Some (A_E_BADARGS, m, palloc))"

subsection \<open>Allocation\<close>

definition cell_addr :: "logalloc \<Rightarrow> u64 \<Rightarrow> addr" where
  "cell_addr alloc k = la_rgn alloc + k * la_cell_size alloc"

text \<open>The loop that gathers free cells: \<open>i\<close> and \<open>last_cell_count\<close> at its end.\<close>

partial_function (option) gather_cells ::
  "byte_mem \<Rightarrow> logalloc \<Rightarrow> u64 \<Rightarrow> u64 \<Rightarrow> u64 \<Rightarrow> u64 \<Rightarrow> u64 \<Rightarrow> (u64 \<times> u64) option" where
  "gather_cells m alloc nr_cells working_log_head req_cells i last_cell_count =
     (if i < req_cells then
        do { refcnt \<leftarrow> ch_refcnt m (cell_addr alloc (working_log_head + i));
             if refcnt \<noteq> 0 then Some (i, last_cell_count)
             else do {
               n \<leftarrow> ch_nr_cells m (cell_addr alloc (working_log_head + i));
               if n = 0 then Some (nr_cells - working_log_head, ucast n)
               else gather_cells m alloc nr_cells working_log_head req_cells (i + ucast n) (ucast n) } }
      else Some (i, last_cell_count))"

text \<open>The loop that marks the free remainder; \<open>offs\<close> stays 0.\<close>

partial_function (option) mark_remainder :: "byte_mem \<Rightarrow> logalloc \<Rightarrow> u64 \<Rightarrow> u64 \<Rightarrow> byte_mem option" where
  "mark_remainder m alloc offs rem =
     (let val = (if rem > 255 then 255 else rem);
          ch = cell_addr alloc (la_log_head alloc + offs)
      in do { m \<leftarrow> set_refcnt m ch 0;
              m \<leftarrow> set_nr_cells m ch (ucast val);
              if rem - val > 0 then mark_remainder m alloc offs (rem - val) else Some m })"

declare gather_cells.simps [code] mark_remainder.simps [code]

text \<open>The part of \<open>logalloc_alloc\<close> after the cells were gathered.\<close>

definition logalloc_take ::
  "byte_mem \<Rightarrow> logalloc \<Rightarrow> u64 \<Rightarrow> u64 \<Rightarrow> u64 \<Rightarrow> u64 \<Rightarrow> u64 \<Rightarrow> (aresult_t \<times> byte_mem \<times> logalloc \<times> addr) option" where
  "logalloc_take m alloc nr_cells working_log_head req_cells i last_cell_count =
     (let ch = cell_addr alloc working_log_head
      in do { m \<leftarrow> set_refcnt m ch 1;
              m \<leftarrow> set_nr_cells m ch (ucast req_cells);
              if nr_cells = 0 then None
              else let alloc = alloc\<lparr>la_log_head := (working_log_head + req_cells) mod nr_cells\<rparr>;
                       rem = (if last_cell_count = 0 then 0 else i - req_cells)
                   in do { m \<leftarrow> (if req_cells < i then mark_remainder m alloc 0 rem else Some m);
                           Some (A_OK, m, alloc, ch + sizeof_cell_header) } })"

definition logalloc_alloc ::
  "byte_mem \<Rightarrow> logalloc option \<Rightarrow> u64 \<Rightarrow> addr option \<Rightarrow> (aresult_t \<times> byte_mem \<times> logalloc option \<times> addr option) option" where
  "logalloc_alloc m palloc sz pptr =
     (case palloc of
        None \<Rightarrow> Some (A_E_BADARGS, m, palloc, pptr)
      | Some alloc \<Rightarrow>
          if \<not> sz \<noteq> 0 \<or> \<not> pptr \<noteq> None then Some (A_E_BADARGS, m, palloc, pptr)
          else if la_cell_size alloc = 0 then None
          else
          let nr_cells = la_region_size alloc div la_cell_size alloc;
              req_cells = (sz + la_cell_size alloc - 1) div la_cell_size alloc;
              ch = cell_addr alloc (la_log_head alloc)
          in
          if req_cells > 255 \<or> req_cells > nr_cells then Some (A_E_NOMEM, m, palloc, Some NULL)
          else do {
            refcnt \<leftarrow> ch_refcnt m ch;
            if refcnt \<noteq> 0 then Some (A_E_NOMEM, m, palloc, Some NULL)
            else do {
              (m, working_log_head) \<leftarrow>
                (if req_cells > nr_cells - la_log_head alloc then
                   do { m \<leftarrow> set_refcnt m ch 0;
                        m \<leftarrow> set_nr_cells m ch (ucast (nr_cells - la_log_head alloc));
                        Some (m, 0) }
                 else Some (m, la_log_head alloc));
              (i, last_cell_count) \<leftarrow> gather_cells m alloc nr_cells working_log_head req_cells 0 0;
              if i < req_cells then Some (A_E_NOMEM, m, palloc, Some NULL)
              else do {
                (ret, m, alloc, ptr) \<leftarrow> logalloc_take m alloc nr_cells working_log_head req_cells i last_cell_count;
                Some (ret, m, Some alloc, Some ptr) } } })"

subsection \<open>References\<close>

definition logalloc_reference :: "byte_mem \<Rightarrow> addr \<Rightarrow> (aresult_t \<times> byte_mem) option" where
  "logalloc_reference m ptr =
     (if \<not> ptr \<noteq> NULL then Some (A_E_BADARGS, m)
      else let ch = ptr - sizeof_cell_header
           in do { refcnt \<leftarrow> ch_refcnt m ch;
                   if refcnt = 255 \<or> refcnt = 0 then Some (A_E_BUSY, m)
                   else do { m \<leftarrow> set_refcnt m ch (refcnt + 1); Some (A_OK, m) } })"

text \<open>\<open>*pptr\<close> is only read.\<close>

definition logalloc_free :: "byte_mem \<Rightarrow> addr option \<Rightarrow> (aresult_t \<times> byte_mem \<times> addr option) option" where
  "logalloc_free m pptr =
     (case pptr of
        None \<Rightarrow> Some (A_E_BADARGS, m, None)
      | Some ptr \<Rightarrow>
          if \<not> ptr \<noteq> NULL then Some (A_E_BADARGS, m, pptr)
          else let ch = ptr - sizeof_cell_header
               in do { refcnt \<leftarrow> ch_refcnt m ch;
                       if refcnt = 0 then Some (A_E_INVAL, m, pptr)
                       else do { m \<leftarrow> set_refcnt m ch (refcnt - 1); Some (A_OK, m, pptr) } })"

subsection \<open>Prepared regions\<close>

text \<open>The search loop of \<open>logalloc_prepare_region\<close>: \<open>found_cells\<close> and \<open>remainder\<close>.\<close>

partial_function (option) prepare_search ::
  "byte_mem \<Rightarrow> logalloc \<Rightarrow> u64 \<Rightarrow> u64 \<Rightarrow> u64 \<Rightarrow> u64 \<Rightarrow> (u64 \<times> bool) option" where
  "prepare_search m alloc avail_cells virt_log_head nr_cells found_cells =
     do { refcnt \<leftarrow> ch_refcnt m (cell_addr alloc (virt_log_head + found_cells));
          if refcnt \<noteq> 0 then Some (found_cells, False)
          else do {
            n \<leftarrow> ch_nr_cells m (cell_addr alloc (virt_log_head + found_cells));
            if n = 0 then Some (found_cells + (avail_cells - virt_log_head - found_cells), True)
            else let found_cells = found_cells + ucast n
                 in if nr_cells < found_cells
                    then prepare_search m alloc avail_cells virt_log_head nr_cells found_cells
                    else Some (found_cells, False) } }"

partial_function (option) prepare_split :: "byte_mem \<Rightarrow> logalloc \<Rightarrow> u64 \<Rightarrow> u64 \<Rightarrow> u64 \<Rightarrow> byte_mem option" where
  "prepare_split m alloc virt_log_head cur_cell rem_cells =
     (if rem_cells > 0 then
        let nr = (if rem_cells > 255 then 255 else rem_cells);
            chdr = cell_addr alloc (virt_log_head + cur_cell)
        in do { m \<leftarrow> set_nr_cells m chdr (ucast nr);
                m \<leftarrow> set_refcnt m chdr 0;
                prepare_split m alloc virt_log_head (cur_cell + nr) (rem_cells - nr) }
      else Some m)"

declare prepare_search.simps [code] prepare_split.simps [code]

definition logalloc_prepare_region ::
  "byte_mem \<Rightarrow> logalloc option \<Rightarrow> u64 \<Rightarrow> addr option \<Rightarrow> u64 option \<Rightarrow>
   (aresult_t \<times> byte_mem \<times> logalloc option \<times> addr option \<times> u64 option) option" where
  "logalloc_prepare_region m palloc size_hint pptr psize =
     (case palloc of
        None \<Rightarrow> Some (A_E_BADARGS, m, palloc, pptr, psize)
      | Some alloc \<Rightarrow>
          if \<not> size_hint \<noteq> 0 \<or> \<not> pptr \<noteq> None \<or> \<not> psize \<noteq> None then Some (A_E_BADARGS, m, palloc, pptr, psize)
          else if la_cell_size alloc = 0 then None
          else
          let nr_cells = (size_hint + la_cell_size alloc - 1) div la_cell_size alloc;
              nr_cells = (if 255 < nr_cells then 255 else nr_cells);
              avail_cells = (la_region_size alloc div la_cell_size alloc) - la_log_head alloc
          in
          if avail_cells < nr_cells then Some (A_E_NOMEM, m, palloc, pptr, psize)
          else do {
            refcnt \<leftarrow> ch_refcnt m (cell_addr alloc (la_log_head alloc));
            if refcnt \<noteq> 0 then Some (A_E_NOMEM, m, palloc, pptr, psize)
            else
            let virt_log_head = (if avail_cells < nr_cells then 0 else la_log_head alloc)
            in do {
              (found_cells, remainder) \<leftarrow> prepare_search m alloc avail_cells virt_log_head nr_cells 0;
              if found_cells < nr_cells then Some (A_E_NOMEM, m, palloc, pptr, psize)
              else
              let rem_cells = found_cells - nr_cells;
                  alloc = alloc\<lparr>la_log_head := virt_log_head\<rparr>;
                  ch = cell_addr alloc virt_log_head
              in do {
                m \<leftarrow> set_nr_cells m ch (ucast nr_cells);
                m \<leftarrow> set_refcnt m ch 0;
                m \<leftarrow> (if remainder then
                        do { m \<leftarrow> set_nr_cells m (cell_addr alloc (virt_log_head + nr_cells)) 0;
                             set_refcnt m (cell_addr alloc (virt_log_head + nr_cells)) 0 }
                      else prepare_split m alloc virt_log_head nr_cells rem_cells);
                Some (A_OK, m, Some alloc, Some (ch + sizeof_cell_header), Some (nr_cells * la_cell_size alloc)) } } })"

definition logalloc_finalize_region ::
  "byte_mem \<Rightarrow> logalloc option \<Rightarrow> u64 \<Rightarrow> (aresult_t \<times> byte_mem \<times> logalloc option) option" where
  "logalloc_finalize_region m palloc sz =
     (case palloc of
        None \<Rightarrow> Some (A_E_BADARGS, m, palloc)
      | Some alloc \<Rightarrow>
          if \<not> sz \<noteq> 0 then Some (A_E_BADARGS, m, palloc)
          else if la_cell_size alloc = 0 then None
          else
          let total_cells = la_region_size alloc div la_cell_size alloc;
              nr_cells_used = (sz + la_cell_size alloc - 1) div la_cell_size alloc;
              ch = cell_addr alloc (la_log_head alloc)
          in do {
            n \<leftarrow> ch_nr_cells m ch;
            if nr_cells_used > 255 \<or> nr_cells_used > ucast n then Some (A_E_INVAL, m, palloc)
            else if total_cells = 0 then None
            else
            let alloc = alloc\<lparr>la_log_head := (la_log_head alloc + nr_cells_used) mod total_cells\<rparr>
            in
            if ucast n = nr_cells_used then Some (A_OK, m, Some alloc)
            else
            let rem_cells = ucast n - nr_cells_used
            in do {
              m \<leftarrow> set_nr_cells m ch (ucast nr_cells_used);
              m \<leftarrow> set_refcnt m ch 1;
              let ch = cell_addr alloc (la_log_head alloc)
              in do {
                m \<leftarrow> set_refcnt m ch 0;
                m \<leftarrow> set_nr_cells m ch (ucast (rem_cells :: u64));
                Some (A_OK, m, Some alloc) } } })"

end
