(* ===== verification/Logalloc_Spec.thy ===== *)
theory Logalloc_Spec
  imports Logalloc
begin

section \<open>The log as a sequence of blocks\<close>

text \<open>
  The headers divide the region into blocks. A log is given by two sequences of blocks, those below the log head and those
  from it on; a block is a number of cells and a reference count. \<open>spec_alloc\<close> is the allocation on such sequences,
  \<open>logalloc_alloc\<close> implements it. Everything that the allocator promises about objects in use is then a statement about
  sequences.
\<close>

subsection \<open>Definitions\<close>

type_synonym blocks = "(nat \<times> nat) list"

definition cells :: "blocks \<Rightarrow> nat" where
  "cells bs = sum_list (map fst bs)"

definition total_cells :: "logalloc \<Rightarrow> nat" where
  "total_cells a = unat (la_region_size a) div unat (la_cell_size a)"

definition hdr :: "logalloc \<Rightarrow> nat \<Rightarrow> addr" where
  "hdr a k = la_rgn a + of_nat k * la_cell_size a"

definition region_ok :: "byte_mem \<Rightarrow> logalloc \<Rightarrow> bool" where
  "region_ok m a \<longleftrightarrow>
     4 \<le> unat (la_cell_size a) \<and> 0 < total_cells a \<and>
     unat (la_region_size a) = total_cells a * unat (la_cell_size a) \<and>
     0 < unat (la_rgn a) \<and> unat (la_rgn a) + unat (la_region_size a) \<le> 2 ^ 64 \<and>
     (\<forall>b < unat (la_region_size a). m (la_rgn a + of_nat b) \<noteq> None)"

definition proper :: "byte_mem \<Rightarrow> logalloc \<Rightarrow> nat \<Rightarrow> nat \<times> nat \<Rightarrow> bool" where
  "proper m a k b \<longleftrightarrow>
     0 < fst b \<and> fst b < 256 \<and> snd b < 256 \<and>
     ch_nr_cells m (hdr a k) = Some (of_nat (fst b)) \<and> ch_refcnt m (hdr a k) = Some (of_nat (snd b))"

definition sentinel :: "byte_mem \<Rightarrow> logalloc \<Rightarrow> nat \<Rightarrow> nat \<times> nat \<Rightarrow> bool" where
  "sentinel m a k b \<longleftrightarrow>
     0 < fst b \<and> snd b = 0 \<and> ch_nr_cells m (hdr a k) = Some 0 \<and> ch_refcnt m (hdr a k) = Some 0"

fun seg :: "byte_mem \<Rightarrow> logalloc \<Rightarrow> nat \<Rightarrow> blocks \<Rightarrow> bool" where
  "seg m a k [] \<longleftrightarrow> True"
| "seg m a k (b # bs) \<longleftrightarrow> proper m a k b \<and> seg m a (k + fst b) bs"

fun tiled :: "byte_mem \<Rightarrow> logalloc \<Rightarrow> nat \<Rightarrow> blocks \<Rightarrow> bool" where
  "tiled m a k [] \<longleftrightarrow> k = total_cells a"
| "tiled m a k (b # bs) \<longleftrightarrow> (proper m a k b \<or> bs = [] \<and> sentinel m a k b) \<and> tiled m a (k + fst b) bs"

definition log_state :: "byte_mem \<Rightarrow> logalloc \<Rightarrow> blocks \<Rightarrow> blocks \<Rightarrow> bool" where
  "log_state m a bs1 bs2 \<longleftrightarrow>
     region_ok m a \<and> bs2 \<noteq> [] \<and> tiled m a 0 (bs1 @ bs2) \<and> unat (la_log_head a) = cells bs1"

text \<open>The abstract allocation: free blocks from the head on are merged until they are enough.\<close>

fun gather :: "nat \<Rightarrow> nat \<Rightarrow> blocks \<Rightarrow> nat \<times> blocks" where
  "gather req i [] = (i, [])"
| "gather req i (b # bs) = (if i < req \<and> snd b = 0 then gather req (i + fst b) bs else (i, b # bs))"

definition wraps :: "blocks \<Rightarrow> nat \<Rightarrow> bool" where
  "wraps bs2 req \<longleftrightarrow> cells bs2 < req"

definition spec_alloc :: "blocks \<Rightarrow> blocks \<Rightarrow> nat \<Rightarrow> nat option \<times> blocks \<times> blocks" where
  "spec_alloc bs1 bs2 req =
     (if 255 < req \<or> cells (bs1 @ bs2) < req \<or> snd (hd bs2) \<noteq> 0 then (None, bs1, bs2)
      else
      let bs2 = (if wraps bs2 req then [(cells bs2, 0)] else bs2);
          (pre, suf) = (if wraps bs2 req then ([], bs1 @ bs2) else (bs1, bs2));
          (i, rest) = gather req 0 suf;
          tail = (if req < i then (i - req, 0) # rest else rest)
      in if i < req then (None, bs1, bs2)
         else (Some (cells pre), if tail = [] then ([], pre @ [(req, 1)]) else (pre @ [(req, 1)], tail)))"

definition cells_needed :: "logalloc \<Rightarrow> u64 \<Rightarrow> nat" where
  "cells_needed a sz = (unat sz + unat (la_cell_size a) - 1) div unat (la_cell_size a)"

definition user_ptr :: "logalloc \<Rightarrow> nat \<Rightarrow> addr" where
  "user_ptr a k = hdr a k + sizeof_cell_header"

text \<open>The blocks in use: first cell, number of cells, references.\<close>

fun live :: "nat \<Rightarrow> blocks \<Rightarrow> (nat \<times> nat \<times> nat) set" where
  "live k [] = {}"
| "live k (b # bs) = (if snd b = 0 then {} else {(k, fst b, snd b)}) \<union> live (k + fst b) bs"

subsection \<open>Addresses of headers\<close>

lemma unat_u64_less: "unat (x :: u64) < 2 ^ 64"
  using unsigned_less [of x, where 'a = nat] by simp

lemma unat_u64_of_nat: "n < 2 ^ 64 \<Longrightarrow> unat (of_nat n :: u64) = n"
  by (simp add: unsigned_of_nat take_bit_nat_eq_self)

lemma unat_u8_of_nat: "n < 256 \<Longrightarrow> unat (of_nat n :: u8) = n"
  by (simp add: unsigned_of_nat take_bit_nat_eq_self)

lemma cells_simps [simp]:
  "cells [] = 0" "cells (b # bs) = fst b + cells bs" "cells (xs @ ys) = cells xs + cells ys"
  by (simp_all add: cells_def)

lemma region_okD:
  assumes "region_ok m a"
  shows "2 \<le> unat (la_cell_size a)" "0 < total_cells a"
    "unat (la_region_size a) = total_cells a * unat (la_cell_size a)"
    "unat (la_rgn a) + total_cells a * unat (la_cell_size a) \<le> 2 ^ 64"
  using assms by (auto simp: region_ok_def)

lemma total_cells_bound:
  assumes "region_ok m a"
  shows "2 * total_cells a < 2 ^ 64"
proof -
  have "total_cells a * 2 \<le> total_cells a * unat (la_cell_size a)"
    using region_okD(1) [OF assms] by simp
  also have "\<dots> < 2 ^ 64"
    using region_okD(3) [OF assms] unat_u64_less [of "la_region_size a"] by simp
  finally show ?thesis by simp
qed

lemma cell_addr_hdr: "cell_addr a k = hdr a (unat k)"
  by (simp add: cell_addr_def hdr_def)

lemma cell_offset:
  assumes "region_ok m a" "k < total_cells a" "d < unat (la_cell_size a)"
  shows "k * unat (la_cell_size a) + d < unat (la_region_size a)"
proof -
  have "k * unat (la_cell_size a) + d < (k + 1) * unat (la_cell_size a)"
    using assms(3) by simp
  also have "\<dots> \<le> total_cells a * unat (la_cell_size a)"
    using assms(2) by (intro mult_le_mono1) simp
  finally show ?thesis using region_okD(3) [OF assms(1)] by simp
qed

lemma hdr_offset: "hdr a k + of_nat d = la_rgn a + of_nat (k * unat (la_cell_size a) + d)"
  by (simp add: hdr_def)

lemma unat_hdr_offset:
  assumes "region_ok m a" "k < total_cells a" "d < unat (la_cell_size a)"
  shows "unat (hdr a k + of_nat d) = unat (la_rgn a) + k * unat (la_cell_size a) + d"
proof -
  have lt: "unat (la_rgn a) + (k * unat (la_cell_size a) + d) < 2 ^ 64"
    using cell_offset [OF assms] region_okD(3,4) [OF assms(1)] by simp
  then have "unat (of_nat (k * unat (la_cell_size a) + d) :: u64) = k * unat (la_cell_size a) + d"
    by (intro unat_u64_of_nat) simp
  then show ?thesis unfolding hdr_offset using lt by (subst unat_word_ariths(1)) (simp del: of_nat_add of_nat_mult)
qed

lemma hdr_mapped:
  assumes "region_ok m a" "k < total_cells a" "d < unat (la_cell_size a)"
  shows "m (hdr a k + of_nat d) \<noteq> None"
  using cell_offset [OF assms] assms(1) unfolding hdr_offset region_ok_def by blast

lemma hdr_distinct:
  assumes "region_ok m a" "j < total_cells a" "k < total_cells a"
    "d < unat (la_cell_size a)" "e < unat (la_cell_size a)"
  shows "hdr a j + of_nat d = hdr a k + of_nat e \<longleftrightarrow> j = k \<and> d = e"
proof
  assume eq: "hdr a j + of_nat d = hdr a k + of_nat e"
  have "j * unat (la_cell_size a) + d = k * unat (la_cell_size a) + e"
    using arg_cong [OF eq, of unat] unat_hdr_offset [OF assms(1,2,4)] unat_hdr_offset [OF assms(1,3,5)] by simp
  then have "(j * unat (la_cell_size a) + d) div unat (la_cell_size a) = (k * unat (la_cell_size a) + e) div unat (la_cell_size a)"
    "(j * unat (la_cell_size a) + d) mod unat (la_cell_size a) = (k * unat (la_cell_size a) + e) mod unat (la_cell_size a)"
    by simp_all
  then show "j = k \<and> d = e" using assms(4,5) by simp
qed simp

lemma hdr_fields:
  assumes "region_ok m a" "j < total_cells a" "k < total_cells a"
  shows "hdr a j = hdr a k \<longleftrightarrow> j = k" "hdr a j + 1 = hdr a k + 1 \<longleftrightarrow> j = k"
    "hdr a j + 1 \<noteq> hdr a k" "hdr a k \<noteq> hdr a j + 1"
    "m (hdr a k) \<noteq> None" "m (hdr a k + 1) \<noteq> None"
  using hdr_distinct [OF assms, of 0 0] hdr_distinct [OF assms, of 1 1] hdr_distinct [OF assms, of 1 0]
    hdr_mapped [OF assms(1,3), of 0] hdr_mapped [OF assms(1,3), of 1] region_okD(1) [OF assms(1)]
  by auto

subsection \<open>Writing a header\<close>

definition put_hdr :: "byte_mem \<Rightarrow> logalloc \<Rightarrow> nat \<Rightarrow> u8 \<Rightarrow> u8 \<Rightarrow> byte_mem" where
  "put_hdr m a k n r = m(hdr a k \<mapsto> n, hdr a k + 1 \<mapsto> r)"

lemma store_header:
  assumes "region_ok m a" "k < total_cells a"
  shows "Option.bind (set_refcnt m (hdr a k) r) (\<lambda>m. Option.bind (set_nr_cells m (hdr a k) n) f) = f (put_hdr m a k n r)"
    "Option.bind (set_nr_cells m (hdr a k) n) (\<lambda>m. Option.bind (set_refcnt m (hdr a k) r) f) = f (put_hdr m a k n r)"
  using hdr_fields [OF assms(1) assms(2) assms(2)]
  by (auto simp: set_refcnt_def set_nr_cells_def store_u8_def put_hdr_def fun_upd_twist)

lemma region_ok_put_hdr [simp]: "region_ok m a \<Longrightarrow> region_ok (put_hdr m a k n r) a"
  by (auto simp: region_ok_def put_hdr_def)

lemma read_put_hdr:
  assumes "region_ok m a" "j < total_cells a" "k < total_cells a"
  shows "ch_nr_cells (put_hdr m a j n r) (hdr a k) = (if j = k then Some n else ch_nr_cells m (hdr a k))"
    "ch_refcnt (put_hdr m a j n r) (hdr a k) = (if j = k then Some r else ch_refcnt m (hdr a k))"
  using hdr_fields [OF assms] hdr_fields [OF assms(1,3,2)] by (auto simp: ch_nr_cells_def ch_refcnt_def load_u8_def put_hdr_def)

text \<open>What is outside of the region keeps its content.\<close>

lemma proper_put_hdr:
  assumes "region_ok m a" "j < total_cells a" "k < total_cells a" "j \<noteq> k"
  shows "proper (put_hdr m a j n r) a k b \<longleftrightarrow> proper m a k b" "sentinel (put_hdr m a j n r) a k b \<longleftrightarrow> sentinel m a k b"
  using read_put_hdr [OF assms(1-3)] assms(4) by (simp_all add: proper_def sentinel_def)

lemma proper_pos: "proper m a k b \<Longrightarrow> 0 < fst b" "sentinel m a k b \<Longrightarrow> 0 < fst b"
  by (simp_all add: proper_def sentinel_def)

lemma tiled_cells: "tiled m a k bs \<Longrightarrow> k + cells bs = total_cells a"
  by (induction bs arbitrary: k) (fastforce simp: add.assoc)+

lemma tiled_empty_iff: "tiled m a k bs \<Longrightarrow> bs = [] \<longleftrightarrow> k = total_cells a"
  using tiled_cells [of m a k bs] by (cases bs) (auto dest: proper_pos)

lemma tiled_append:
  "bs2 \<noteq> [] \<Longrightarrow> tiled m a k (bs1 @ bs2) \<longleftrightarrow> seg m a k bs1 \<and> tiled m a (k + cells bs1) bs2"
  by (induction bs1 arbitrary: k) (auto simp: add.assoc)

lemma seg_append: "seg m a k (bs1 @ bs2) \<longleftrightarrow> seg m a k bs1 \<and> seg m a (k + cells bs1) bs2"
  by (induction bs1 arbitrary: k) (auto simp: add.assoc)

lemma seg_tiled: "seg m a k bs \<Longrightarrow> k + cells bs = total_cells a \<Longrightarrow> tiled m a k bs"
  by (induction bs arbitrary: k) (auto simp: add.assoc)

lemma seg_put_hdr:
  assumes "region_ok m a" "j < total_cells a" "k + cells bs \<le> total_cells a" "k + cells bs \<le> j \<or> j < k"
  shows "seg (put_hdr m a j n r) a k bs \<longleftrightarrow> seg m a k bs"
  using assms(3,4)
proof (induction bs arbitrary: k)
  case (Cons b bs)
  show ?case
  proof (cases "fst b = 0")
    case True
    then show ?thesis by (auto dest: proper_pos)
  next
    case False
    then have "proper (put_hdr m a j n r) a k b \<longleftrightarrow> proper m a k b"
      using Cons.prems by (intro proper_put_hdr [OF assms(1,2)]) auto
    moreover have "seg (put_hdr m a j n r) a (k + fst b) bs \<longleftrightarrow> seg m a (k + fst b) bs"
      using Cons.prems by (intro Cons.IH) auto
    ultimately show ?thesis by simp
  qed
qed simp

lemma tiled_put_hdr:
  assumes "region_ok m a" "j < k" "k \<le> total_cells a" "tiled m a k bs"
  shows "tiled (put_hdr m a j n r) a k bs"
  using assms(2-)
proof (induction bs arbitrary: k)
  case (Cons b bs)
  have "k < total_cells a" using Cons.prems(3) tiled_cells [OF Cons.prems(3)] by (auto dest: proper_pos)
  with Cons.prems(1) have "proper (put_hdr m a j n r) a k b \<longleftrightarrow> proper m a k b"
    "sentinel (put_hdr m a j n r) a k b \<longleftrightarrow> sentinel m a k b"
    by (simp_all add: proper_put_hdr [OF assms(1)])
  then show ?case
    using Cons.prems Cons.IH [of "k + fst b"] tiled_cells [of m a "k + fst b" bs] by auto
qed simp


subsection \<open>The log head is not part of the layout\<close>

lemma layout_log_head [simp]:
  "total_cells (a\<lparr>la_log_head := h\<rparr>) = total_cells a" "hdr (a\<lparr>la_log_head := h\<rparr>) = hdr a"
  "cell_addr (a\<lparr>la_log_head := h\<rparr>) = cell_addr a" "region_ok m (a\<lparr>la_log_head := h\<rparr>) = region_ok m a"
  "proper m (a\<lparr>la_log_head := h\<rparr>) = proper m a" "sentinel m (a\<lparr>la_log_head := h\<rparr>) = sentinel m a"
  "put_hdr m (a\<lparr>la_log_head := h\<rparr>) = put_hdr m a"
  by (simp_all add: fun_eq_iff total_cells_def hdr_def cell_addr_def region_ok_def proper_def sentinel_def put_hdr_def)

lemma tiled_log_head [simp]: "tiled m (a\<lparr>la_log_head := h\<rparr>) k bs = tiled m a k bs"
  by (induction bs arbitrary: k) simp_all

subsection \<open>Gathering free cells\<close>

lemma ucast_of_nat_u8: "n < 256 \<Longrightarrow> ucast (of_nat n :: u8) = (of_nat n :: u64)"
  by (rule word_unat_eq_iff [THEN iffD2]) (simp add: unat_u64_of_nat unsigned_ucast_eq unat_u8_of_nat take_bit_nat_eq_self)

lemma ucast_of_nat_u64: "n < 256 \<Longrightarrow> ucast (of_nat n :: u64) = (of_nat n :: u8)"
  by (rule word_unat_eq_iff [THEN iffD2]) (simp add: unat_u64_of_nat unsigned_ucast_eq unat_u8_of_nat take_bit_nat_eq_self)

lemma of_nat_u8_0: "n < 256 \<Longrightarrow> (of_nat n :: u8) = 0 \<longleftrightarrow> n = 0"
  using unat_u8_of_nat [of n] by auto

lemma of_nat_u64_0: "n < 2 ^ 64 \<Longrightarrow> (of_nat n :: u64) = 0 \<longleftrightarrow> n = 0"
  using unat_u64_of_nat [of n] by auto

lemma of_nat_u64_less: "m < 2 ^ 64 \<Longrightarrow> n < 2 ^ 64 \<Longrightarrow> (of_nat m :: u64) < of_nat n \<longleftrightarrow> m < n"
  by (simp add: word_less_nat_alt unat_u64_of_nat)

lemma of_nat_u64_diff: "n \<le> m \<Longrightarrow> (of_nat m :: u64) - of_nat n = of_nat (m - n)"
  by simp

lemma hdr_read:
  assumes "region_ok m a" "tiled m a k (b # bs)"
  shows "k < total_cells a" "snd b < 256" "ch_refcnt m (hdr a k) = Some (of_nat (snd b))" "0 < fst b"
  using tiled_cells [OF assms(2)] assms(2) by (auto simp: proper_def sentinel_def)

lemma cell_addr_add: "cell_addr a (of_nat w + of_nat i) = hdr a (w + i)"
  by (simp add: cell_addr_def hdr_def)

text \<open>What \<open>last_cell_count\<close> says of the cells that were gathered too many.\<close>

definition surplus_ok :: "nat \<Rightarrow> nat \<Rightarrow> blocks \<Rightarrow> u64 \<Rightarrow> bool" where
  "surplus_ok req i rest lcc \<longleftrightarrow> (req < i \<longrightarrow> (if lcc = 0 then rest = [] else i - req < 256))"

lemma gather_cells_step:
  assumes "region_ok m a" "req < 256" "tiled m a (w + i) (b # bs)" "i < req" "w + req \<le> total_cells a"
  shows "gather_cells m a (of_nat (total_cells a)) (of_nat w) (of_nat req) (of_nat i) l =
     (if snd b \<noteq> 0 then Some (of_nat i, l)
      else if sentinel m a (w + i) b then Some (of_nat (i + fst b), 0)
      else gather_cells m a (of_nat (total_cells a)) (of_nat w) (of_nat req) (of_nat (i + fst b)) (of_nat (fst b)))"
proof -
  note h = hdr_read [OF assms(1,3)]
  have lt: "(of_nat i :: u64) < of_nat req" using assms(2,4) by (simp add: of_nat_u64_less)
  have 1: ?thesis if "proper m a (w + i) b"
  proof -
    from that have "fst b < 256" "0 < fst b" "ch_nr_cells m (hdr a (w + i)) = Some (of_nat (fst b))" "\<not> sentinel m a (w + i) b"
      by (auto simp: proper_def sentinel_def of_nat_u8_0)
    then show ?thesis
      by (subst gather_cells.simps) (use lt h in \<open>simp add: cell_addr_add of_nat_u8_0 ucast_of_nat_u8\<close>)
  qed
  have 2: ?thesis if s: "bs = []" "sentinel m a (w + i) b"
  proof -
    have t: "w + i + fst b = total_cells a" using tiled_cells [OF assms(3)] s(1) by simp
    then have "(of_nat (total_cells a) :: u64) - of_nat w = of_nat (i + fst b)"
      by (metis add.assoc add_diff_cancel_left' of_nat_add)
    then show ?thesis
      by (subst gather_cells.simps) (use lt h s in \<open>simp add: cell_addr_add sentinel_def\<close>)
  qed
  show ?thesis using assms(3) 1 2 by auto
qed

lemma gather_cells_tiled:
  assumes "region_ok m a" "req < 256" "w + req \<le> total_cells a" "tiled m a (w + i) bs" "surplus_ok req i bs l"
    "gather req i bs = (i', rest)"
  shows "\<exists>l'. gather_cells m a (of_nat (total_cells a)) (of_nat w) (of_nat req) (of_nat i) l = Some (of_nat i', l') \<and>
    tiled m a (w + i') rest \<and> surplus_ok req i' rest l'"
  using assms(4-)
proof (induction bs arbitrary: i l)
  case Nil
  have "\<not> (of_nat i :: u64) < of_nat req"
    using Nil.prems(1) assms(2,3) total_cells_bound [OF assms(1)] by (simp add: of_nat_u64_less)
  then show ?case using Nil.prems by (subst gather_cells.simps) auto
next
  case (Cons b bs)
  note step = gather_cells_step [OF assms(1,2) Cons.prems(1) _ assms(3)]
  have i: "i < 2 ^ 64" using tiled_cells [OF Cons.prems(1)] total_cells_bound [OF assms(1)] by simp
  show ?case
  proof (cases "i < req \<and> snd b = 0")
    case False
    then have "gather_cells m a (of_nat (total_cells a)) (of_nat w) (of_nat req) (of_nat i) l = Some (of_nat i, l)"
      using step [of l] i assms(2)
      by (cases "i < req") (auto simp: gather_cells.simps [of _ _ _ _ _ "of_nat i"] of_nat_u64_less)
    then show ?thesis using Cons.prems False by auto
  next
    case True
    show ?thesis
    proof (cases "sentinel m a (w + i) b")
      case s: True
      then have "bs = []" using Cons.prems(1) by (auto simp: proper_def sentinel_def of_nat_u8_0)
      then show ?thesis using step [of l] True s Cons.prems by (auto simp: surplus_ok_def add.assoc)
    next
      case False
      then have p: "proper m a (w + i) b" and t: "tiled m a (w + (i + fst b)) bs"
        using Cons.prems(1) by (auto simp: add.assoc)
      then have "surplus_ok req (i + fst b) bs (of_nat (fst b))"
        using True by (auto simp: surplus_ok_def proper_def of_nat_u64_0)
      from Cons.IH [OF t this] show ?thesis using step [of l] True False Cons.prems(3) by simp
    qed
  qed
qed


lemma gather_sum: "gather req i bs = (i', rest) \<Longrightarrow> i' + cells rest = i + cells bs"
  by (induction bs arbitrary: i) (fastforce split: if_splits)+

subsection \<open>Blocks in use\<close>

lemma live_append: "live k (xs @ ys) = live k xs \<union> live (k + cells xs) ys"
  by (induction xs arbitrary: k) (auto simp: add.assoc)

lemma live_range: "(k', l, r) \<in> live k bs \<Longrightarrow> k \<le> k' \<and> k' + l \<le> k + cells bs"
  by (induction bs arbitrary: k) (fastforce split: if_splits)+

lemma live_free: "(\<forall>b \<in> set bs. snd b = 0) \<Longrightarrow> live k bs = {}"
  by (induction bs arbitrary: k) auto

lemma gather_live: "gather req i bs = (i', rest) \<Longrightarrow> live (k + i') rest = live (k + i) bs"
  by (induction bs arbitrary: i) (auto simp: add.assoc split: if_splits)

definition disjoint_cells :: "nat \<Rightarrow> nat \<Rightarrow> (nat \<times> nat \<times> nat) set \<Rightarrow> bool" where
  "disjoint_cells k n L \<longleftrightarrow> (\<forall>(k', l, r) \<in> L. k' + l \<le> k \<or> k + n \<le> k')"

text \<open>What an allocation leaves in use: everything, unless it wraps around; then the log head is the end of what is kept.\<close>

definition kept :: "blocks \<Rightarrow> blocks \<Rightarrow> nat \<Rightarrow> (nat \<times> nat \<times> nat) set" where
  "kept bs1 bs2 req =
     (if \<not> (255 < req \<or> cells (bs1 @ bs2) < req \<or> snd (hd bs2) \<noteq> 0) \<and> wraps bs2 req then live 0 bs1 else live 0 (bs1 @ bs2))"

subsection \<open>What is written\<close>

definition outside_of :: "(nat \<times> nat \<times> nat) set \<Rightarrow> nat \<Rightarrow> bool" where
  "outside_of L j \<longleftrightarrow> (\<forall>(k, l, r) \<in> L. j < k \<or> k + l \<le> j)"

text \<open>Only headers of cells outside of the blocks in \<open>L\<close> are written.\<close>

definition only_headers :: "logalloc \<Rightarrow> (nat \<times> nat \<times> nat) set \<Rightarrow> byte_mem \<Rightarrow> byte_mem \<Rightarrow> bool" where
  "only_headers a L m m' \<longleftrightarrow>
     (\<forall>q. m' q \<noteq> m q \<longrightarrow> (\<exists>j. j < total_cells a \<and> outside_of L j \<and> (q = hdr a j \<or> q = hdr a j + 1)))"

lemma only_headers_refl: "only_headers a L m m"
  by (simp add: only_headers_def)

lemma only_headers_trans: "only_headers a L m m1 \<Longrightarrow> only_headers a L m1 m2 \<Longrightarrow> only_headers a L m m2"
  unfolding only_headers_def by metis

lemma only_headers_put:
  "j < total_cells a \<Longrightarrow> outside_of L j \<Longrightarrow> only_headers a L m m1 \<Longrightarrow> only_headers a L m (put_hdr m1 a j n r)"
  unfolding only_headers_def put_hdr_def by (auto split: if_splits)

lemma outside_of_live: "k + cells bs \<le> j \<or> j < k \<Longrightarrow> outside_of (live k bs) j"
  unfolding outside_of_def by (fastforce dest: live_range)

lemma outside_of_Un: "outside_of (A \<union> B) j \<longleftrightarrow> outside_of A j \<and> outside_of B j"
  by (auto simp: outside_of_def)

text \<open>The bytes of a block in \<open>L\<close>, header and payload, are then not changed.\<close>

lemma only_headers_same_bytes:
  assumes ok: "region_ok m a" and "only_headers a L m m'" "(k, l, r) \<in> L" "k + l \<le> total_cells a" "b < l * unat (la_cell_size a)"
  shows "m' (hdr a k + of_nat b) = m (hdr a k + of_nat b)"
proof (rule ccontr)
  let ?c = "unat (la_cell_size a)"
  assume "m' (hdr a k + of_nat b) \<noteq> m (hdr a k + of_nat b)"
  then obtain j where "j < total_cells a" "outside_of L j" "hdr a k + of_nat b = hdr a j \<or> hdr a k + of_nat b = hdr a j + 1"
    using assms(2) unfolding only_headers_def by blast
  then obtain d :: nat where j: "j < total_cells a" "outside_of L j" "hdr a k + of_nat b = hdr a j + of_nat d" "d < 2"
    using that [of 0] that [of 1] by auto
  have c: "0 < ?c" "d < ?c" using region_okD(1) [OF ok] j(4) by auto
  let ?i = "k + b div ?c"
  have i: "?i < k + l" using assms(5) by (simp add: less_mult_imp_div_less)
  have "hdr a k + of_nat b = hdr a ?i + of_nat (b mod ?c)"
  proof -
    have "k * ?c + b = ?i * ?c + b mod ?c" by (simp only: add_mult_distrib add.assoc div_mult_mod_eq)
    then show ?thesis unfolding hdr_offset by (simp only:)
  qed
  then have eq: "hdr a ?i + of_nat (b mod ?c) = hdr a j + of_nat d" using j(3) by (simp only:)
  have "?i < total_cells a" "b mod ?c < ?c" using i assms(4) c(1) by simp_all
  then have "?i = j" using hdr_distinct [OF ok _ j(1) _ c(2)] eq by blast
  then show False using j(2) assms(3) i unfolding outside_of_def by force
qed

subsection \<open>Taking the gathered cells\<close>

lemma mark_remainder_short:
  assumes "region_ok m a" "h < total_cells a" "rem < 256" "la_log_head a = of_nat h"
  shows "mark_remainder m a 0 (of_nat rem) = Some (put_hdr m a h (of_nat rem) 0)"
proof -
  have "\<not> (255 :: u64) < of_nat rem"
    using of_nat_u64_less [of 255 rem] assms(3) by simp
  then show ?thesis
    using assms by (subst mark_remainder.simps) (simp add: cell_addr_def hdr_def [symmetric] store_header ucast_of_nat_u64)
qed

lemma head_mod:
  assumes "w + req < 2 ^ 64" "0 < n" "n < 2 ^ 64"
  shows "(of_nat w + of_nat req :: u64) mod of_nat n = of_nat ((w + req) mod n)"
proof -
  have "(w + req) mod n < 2 ^ 64" using mod_less_divisor [OF assms(2), of "w + req"] assms(3) by linarith
  then show ?thesis
    unfolding of_nat_add [symmetric] word_unat_eq_iff unat_mod
    using assms by (simp only: unat_u64_of_nat)
qed

lemma seg_put_block:
  assumes "region_ok m a" "seg m a 0 pre" "0 < req" "req < 256" "r < 256" "cells pre + req \<le> total_cells a"
  shows "seg (put_hdr m a (cells pre) (of_nat req) (of_nat r)) a 0 (pre @ [(req, r)])"
  using assms seg_put_hdr [OF assms(1), of "cells pre" 0 pre]
  by (auto simp: seg_append proper_def read_put_hdr)

lemma tiled_put_tail:
  assumes "region_ok m a" "k < total_cells a" "0 < s" "s < 256" "tiled m a (k + s) rest"
  shows "tiled (put_hdr m a k (of_nat s) 0) a k ((s, 0) # rest)"
  using assms tiled_put_hdr [OF assms(1) _ _ assms(5), of k] tiled_cells [OF assms(5)]
  by (auto simp: proper_def read_put_hdr)

lemma tiled_put_sentinel:
  assumes "region_ok m a" "k < total_cells a" "k + s = total_cells a"
  shows "tiled (put_hdr m a k 0 0) a k [(s, 0)]"
  using assms by (auto simp: sentinel_def read_put_hdr)

lemma logalloc_take_tiled:
  assumes ok: "region_ok m a" and pre: "seg m a 0 pre" and req: "0 < req" "req < 256" "req \<le> i"
    and rest: "tiled m a (cells pre + i) rest" "surplus_ok req i rest l"
    and L: "\<And>j. cells pre \<le> j \<Longrightarrow> j < cells pre + i \<Longrightarrow> outside_of L j"
  defines "tail \<equiv> (if req < i then (i - req, 0) # rest else rest)"
    and "h \<equiv> (cells pre + req) mod total_cells a"
  shows "\<exists>m'. logalloc_take m a (of_nat (total_cells a)) (of_nat (cells pre)) (of_nat req) (of_nat i) l =
           Some (A_OK, m', a\<lparr>la_log_head := of_nat h\<rparr>, user_ptr a (cells pre)) \<and>
         region_ok m' a \<and> tiled m' a 0 (pre @ (req, 1) # tail) \<and> only_headers a L m m'"
proof -
  let ?w = "cells pre" let ?a = "a\<lparr>la_log_head := of_nat h\<rparr>"
  let ?m = "put_hdr m a ?w (of_nat req) 1"
  have le: "?w + i + cells rest = total_cells a" using tiled_cells [OF rest(1)] .
  have w: "?w < total_cells a" and b: "total_cells a < 2 ^ 64" using le req total_cells_bound [OF ok] by auto
  have sg: "seg ?m a 0 (pre @ [(req, 1)])"
    using seg_put_block [OF ok pre req(1,2), of 1] le req(3) by simp
  have ok': "region_ok ?m a" using ok by simp
  have oh: "only_headers a L m ?m" using L [of ?w] req w by (intro only_headers_put only_headers_refl) auto
  have rest': "tiled ?m a (?w + i) rest" using tiled_put_hdr [OF ok _ _ rest(1), of ?w] req le by simp
  have mod: "(of_nat ?w + of_nat req :: u64) mod of_nat (total_cells a) = of_nat h"
    unfolding h_def using le b w req(3) by (intro head_mod) auto
  have nz: "(of_nat (total_cells a) :: u64) \<noteq> 0" using w b by (simp add: of_nat_u64_0)
  define rem :: u64 where "rem = (if l = 0 then 0 else of_nat i - of_nat req)"
  have take: "logalloc_take m a (of_nat (total_cells a)) (of_nat ?w) (of_nat req) (of_nat i) l =
     Option.bind (if req < i then mark_remainder ?m ?a 0 rem else Some ?m)
       (\<lambda>m. Some (A_OK, m, ?a, user_ptr a ?w))"
    using le b req nz unfolding logalloc_take_def Let_def mod
    by (simp add: cell_addr_def hdr_def [symmetric] store_header [OF ok w] user_ptr_def ucast_of_nat_u64 of_nat_u64_less rem_def)
  show ?thesis
  proof (cases "req < i")
    case False
    then have "i = req" using req(3) by simp
    then have "tiled ?m a 0 ((pre @ [(req, 1)]) @ rest)"
      using sg rest' le tiled_append [of rest ?m a 0 "pre @ [(req, 1)]"] seg_tiled [OF sg] by (cases "rest = []") auto
    with take False ok' oh show ?thesis by (simp add: tail_def)
  next
    case True
    have h: "h = ?w + req" and lt: "?w + req < total_cells a" using True le by (simp_all add: h_def)
    define v where "v = (if l = 0 then 0 else i - req)"
    have v: "v < 256" "rem = of_nat v" using rest(2) True by (auto simp: v_def rem_def surplus_ok_def)
    let ?m' = "put_hdr ?m a (?w + req) (of_nat v) 0"
    have "mark_remainder ?m ?a 0 rem = Some ?m'"
      using mark_remainder_short [of ?m ?a "?w + req" v] ok' lt v by (simp add: h)
    moreover have "tiled ?m' a (?w + req) tail"
      using True rest(2) rest' tiled_put_tail [OF ok' lt, of "i - req" rest] tiled_put_sentinel [OF ok' lt, of "i - req"] le
      by (auto simp: tail_def v_def surplus_ok_def split: if_splits)
    moreover have "seg ?m' a 0 (pre @ [(req, 1)])"
      using seg_put_hdr [OF ok' lt, of 0 "pre @ [(req, 1)]"] sg lt by simp
    moreover have "only_headers a L m ?m'" by (rule only_headers_put [OF lt _ oh]) (use L [of "?w + req"] True in simp)
    ultimately show ?thesis
      using take True ok' tiled_append [of tail ?m' a 0 "pre @ [(req, 1)]"] by (simp add: tail_def)
  qed
qed


subsection \<open>Allocation implements its specification\<close>

lemma cells_needed_word:
  assumes "la_cell_size a \<noteq> 0" "sz \<noteq> 0" "unat sz + unat (la_cell_size a) - 1 < 2 ^ 64"
  shows "unat ((sz + la_cell_size a - 1) div la_cell_size a) = cells_needed a sz" "0 < cells_needed a sz"
proof -
  have p: "0 < unat (la_cell_size a)" "0 < unat sz" using assms(1,2) by (simp_all add: unat_gt_0)
  have "sz + la_cell_size a - 1 = of_nat (unat sz + unat (la_cell_size a) - 1)"
    using p by (simp add: of_nat_diff)
  then have "unat (sz + la_cell_size a - 1) = unat sz + unat (la_cell_size a) - 1"
    using assms(3) unat_u64_of_nat by metis
  then show "unat ((sz + la_cell_size a - 1) div la_cell_size a) = cells_needed a sz"
    by (simp add: unat_div cells_needed_def)
  have "unat (la_cell_size a) div unat (la_cell_size a) \<le> cells_needed a sz"
    unfolding cells_needed_def using p by (intro div_le_mono) simp
  then show "0 < cells_needed a sz" using p by simp
qed

lemma log_stateD:
  assumes "log_state m a bs1 bs2"
  shows "region_ok m a" "bs2 \<noteq> []" "seg m a 0 bs1" "tiled m a (cells bs1) bs2" "la_log_head a = of_nat (cells bs1)"
    "cells bs1 + cells bs2 = total_cells a" "cells bs1 < total_cells a" "total_cells a < 2 ^ 63"
    "ch_refcnt m (hdr a (cells bs1)) = Some (of_nat (snd (hd bs2)))" "snd (hd bs2) < 256"
proof -
  from assms show r: "region_ok m a" and n: "bs2 \<noteq> []" by (auto simp: log_state_def)
  have "of_nat (unat (la_log_head a)) = (of_nat (cells bs1) :: u64)" using assms by (simp only: log_state_def)
  then show "la_log_head a = of_nat (cells bs1)" by simp
  from assms show s: "seg m a 0 bs1" and t: "tiled m a (cells bs1) bs2"
    using tiled_append [of bs2 m a 0 bs1] by (auto simp: log_state_def)
  show "cells bs1 + cells bs2 = total_cells a" using tiled_cells [OF t] .
  show "total_cells a < 2 ^ 63" using total_cells_bound [OF r] by simp
  obtain b bs where b: "bs2 = b # bs" using n by (cases bs2) auto
  show "cells bs1 < total_cells a" "ch_refcnt m (hdr a (cells bs1)) = Some (of_nat (snd (hd bs2)))" "snd (hd bs2) < 256"
    using hdr_read [OF r t [unfolded b]] b by auto
qed

lemma log_stateI:
  assumes "region_ok m a" "bs2 \<noteq> []" "tiled m a 0 (bs1 @ bs2)" "la_log_head a = of_nat (cells bs1)"
  shows "log_state m a bs1 bs2"
proof -
  have "cells bs1 < 2 ^ 64" using tiled_cells [OF assms(3)] total_cells_bound [OF assms(1)] by simp
  then show ?thesis using assms by (simp add: log_state_def unat_u64_of_nat)
qed

text \<open>The two parts of an allocation that does not fail at once: from a working log head at the end of \<open>pre\<close>.\<close>

lemma alloc_from_tiled:
  assumes "region_ok m a" "tiled m a 0 (pre @ suf)" "suf \<noteq> []" "0 < req" "req < 256" "req \<le> cells suf"
    "gather req 0 suf = (i, rest)"
  defines "tail \<equiv> (if req < i then (i - req, 0) # rest else rest)"
  obtains l where
    "gather_cells m a (of_nat (total_cells a)) (of_nat (cells pre)) (of_nat req) 0 0 = Some (of_nat i, l)"
    "i < 2 ^ 64"
    "req \<le> i \<Longrightarrow> \<exists>m' h. logalloc_take m a (of_nat (total_cells a)) (of_nat (cells pre)) (of_nat req) (of_nat i) l =
        Some (A_OK, m', a\<lparr>la_log_head := h\<rparr>, user_ptr a (cells pre)) \<and> only_headers a (live 0 (pre @ suf)) m m' \<and>
        (if tail = [] then log_state m' (a\<lparr>la_log_head := h\<rparr>) [] (pre @ [(req, 1)])
         else log_state m' (a\<lparr>la_log_head := h\<rparr>) (pre @ [(req, 1)]) tail)"
proof -
  have sg: "seg m a 0 pre" and t: "tiled m a (cells pre) suf" using assms(2) tiled_append [OF assms(3), of m a 0 pre] by auto
  have le: "cells pre + req \<le> total_cells a" using tiled_cells [OF t] assms(6) by simp
  have "\<exists>l. gather_cells m a (of_nat (total_cells a)) (of_nat (cells pre)) (of_nat req) (of_nat 0) 0 = Some (of_nat i, l) \<and>
      tiled m a (cells pre + i) rest \<and> surplus_ok req i rest l"
    using t by (intro gather_cells_tiled [OF assms(1,5) le _ _ assms(7)]) (simp_all add: surplus_ok_def)
  then obtain l where l: "gather_cells m a (of_nat (total_cells a)) (of_nat (cells pre)) (of_nat req) 0 0 = Some (of_nat i, l)"
    "tiled m a (cells pre + i) rest" "surplus_ok req i rest l" by auto
  have c: "cells pre + i + cells rest = total_cells a" using tiled_cells [OF l(2)] .
  have "live (cells pre) suf = live (cells pre + i) rest" using gather_live [OF assms(7), of "cells pre"] by simp
  then have out: "outside_of (live 0 (pre @ suf)) j" if "cells pre \<le> j" "j < cells pre + i" for j
    using that outside_of_live [of 0 pre j] outside_of_live [of "cells pre + i" rest j] by (simp add: live_append outside_of_Un)
  show thesis
  proof (rule that [OF l(1)])
    show "i < 2 ^ 64" using c total_cells_bound [OF assms(1)] by simp
    assume r: "req \<le> i"
    let ?h = "(cells pre + req) mod total_cells a"
    obtain m' where m': "logalloc_take m a (of_nat (total_cells a)) (of_nat (cells pre)) (of_nat req) (of_nat i) l =
        Some (A_OK, m', a\<lparr>la_log_head := of_nat ?h\<rparr>, user_ptr a (cells pre))"
      "region_ok m' a" "tiled m' a 0 (pre @ (req, 1) # tail)" and oh: "only_headers a (live 0 (pre @ suf)) m m'"
      using logalloc_take_tiled [OF assms(1) sg assms(4,5) r l(2,3) out] unfolding tail_def by blast
    have "tail = [] \<Longrightarrow> cells pre + req = total_cells a" using c r by (auto simp: tail_def split: if_splits)
    moreover have "cells tail = total_cells a - (cells pre + req)" using c r by (auto simp: tail_def)
    ultimately have h: "?h = (if tail = [] then 0 else cells pre + req)"
      using tiled_empty_iff [of m' a "cells pre + req" tail] tiled_append [of tail m' a 0 "pre @ [(req, 1)]"] m'(3) c r
      by (cases "tail = []") (auto simp: less_le)
    have "if tail = [] then log_state m' (a\<lparr>la_log_head := of_nat ?h\<rparr>) [] (pre @ [(req, 1)])
      else log_state m' (a\<lparr>la_log_head := of_nat ?h\<rparr>) (pre @ [(req, 1)]) tail"
      using m'(2,3) h by (auto intro!: log_stateI)
    with m'(1) oh show "\<exists>m' h. logalloc_take m a (of_nat (total_cells a)) (of_nat (cells pre)) (of_nat req) (of_nat i) l =
        Some (A_OK, m', a\<lparr>la_log_head := h\<rparr>, user_ptr a (cells pre)) \<and> only_headers a (live 0 (pre @ suf)) m m' \<and>
        (if tail = [] then log_state m' (a\<lparr>la_log_head := h\<rparr>) [] (pre @ [(req, 1)])
         else log_state m' (a\<lparr>la_log_head := h\<rparr>) (pre @ [(req, 1)]) tail)"
      by blast
  qed
qed


lemma alloc_words:
  assumes "log_state m a bs1 bs2" "sz \<noteq> 0" "unat sz + unat (la_cell_size a) - 1 < 2 ^ 64"
  shows "la_cell_size a \<noteq> 0" "(sz + la_cell_size a - 1) div la_cell_size a = of_nat (cells_needed a sz)"
    "cells_needed a sz < 2 ^ 64" "0 < cells_needed a sz"
    "la_region_size a div la_cell_size a = of_nat (total_cells a)"
    "cell_addr a (of_nat (cells bs1)) = hdr a (cells bs1)"
proof -
  show cs: "la_cell_size a \<noteq> 0" using region_okD(1) [OF log_stateD(1) [OF assms(1)]] by auto
  note u = cells_needed_word [OF cs assms(2,3)]
  show "0 < cells_needed a sz" by (rule u(2))
  show "cells_needed a sz < 2 ^ 64" unfolding u(1) [symmetric] by (rule unat_u64_less)
  show "(sz + la_cell_size a - 1) div la_cell_size a = of_nat (cells_needed a sz)" unfolding u(1) [symmetric] by simp
  show "la_region_size a div la_cell_size a = of_nat (total_cells a)"
    unfolding total_cells_def unat_div [symmetric] by simp
  show "cell_addr a (of_nat (cells bs1)) = hdr a (cells bs1)" by (simp add: cell_addr_def hdr_def)
qed

definition alloc_answer :: "logalloc \<Rightarrow> byte_mem \<Rightarrow> logalloc \<Rightarrow> nat option \<Rightarrow> aresult_t \<times> byte_mem \<times> logalloc option \<times> addr option" where
  "alloc_answer a m' a' res =
     (case res of None \<Rightarrow> (A_E_NOMEM, m', Some a', Some NULL) | Some k \<Rightarrow> (A_OK, m', Some a', Some (user_ptr a k)))"

lemma alloc_unfold:
  assumes st: "log_state m a bs1 bs2" and sz: "sz \<noteq> 0" "unat sz + unat (la_cell_size a) - 1 < 2 ^ 64"
  defines "req \<equiv> cells_needed a sz"
    and "m1 \<equiv> (if wraps bs2 (cells_needed a sz) then put_hdr m a (cells bs1) (of_nat (cells bs2)) 0 else m)"
    and "w \<equiv> (if wraps bs2 (cells_needed a sz) then 0 else of_nat (cells bs1) :: u64)"
  shows "logalloc_alloc m (Some a) sz (Some p) =
    (if 255 < req \<or> cells (bs1 @ bs2) < req \<or> snd (hd bs2) \<noteq> 0 then Some (alloc_answer a m a None)
     else do { (i, l) \<leftarrow> gather_cells m1 a (of_nat (total_cells a)) w (of_nat req) 0 0;
               if i < of_nat req then Some (alloc_answer a m1 a None)
               else do { (ret, m, a, ptr) \<leftarrow> logalloc_take m1 a (of_nat (total_cells a)) w (of_nat req) i l;
                         Some (ret, m, Some a, Some ptr) } })"
proof -
  note words = alloc_words [OF st sz, folded req_def]
  note st = log_stateD [OF st]
  have d: "(of_nat (total_cells a) :: u64) - of_nat (cells bs1) = of_nat (cells bs2)"
    unfolding st(6) [symmetric] by simp
  have guards: "(255 :: u64) < of_nat req \<longleftrightarrow> 255 < req" "(of_nat (total_cells a) :: u64) < of_nat req \<longleftrightarrow> total_cells a < req"
    "(of_nat (cells bs2) :: u64) < of_nat req \<longleftrightarrow> cells bs2 < req"
    using of_nat_u64_less [of 255 req] of_nat_u64_less [of _ req] words(3) st(6,8) by auto
  note unf = logalloc_alloc_def option.case Let_def words(2,5) st(5) words(6) d guards
  have m1: "m1 = (if cells bs2 < req then put_hdr m a (cells bs1) (of_nat (cells bs2)) 0 else m)" "w = (if cells bs2 < req then 0 else of_nat (cells bs1))"
    by (simp_all add: m1_def w_def wraps_def req_def)
  show ?thesis
  proof (cases "cells bs2 < req")
    case True
    then have "m1 = put_hdr m a (cells bs1) (of_nat (cells bs2)) 0" "w = 0" by (simp_all add: m1)
    then show ?thesis
      unfolding unf alloc_answer_def using True sz(1) words(1) st(6,9,10)
      by (auto simp: alloc_answer_def of_nat_u8_0 store_header [OF st(1,7)] ucast_of_nat_u64)
  next
    case False
    then have "m1 = m" "w = of_nat (cells bs1)" by (simp_all add: m1)
    then show ?thesis
      unfolding unf alloc_answer_def using False sz(1) words(1) st(6,9,10) by (auto simp: alloc_answer_def of_nat_u8_0)
  qed
qed


lemma alloc_refines:
  assumes st: "log_state m a bs1 bs2" and sz: "sz \<noteq> 0" "unat sz + unat (la_cell_size a) - 1 < 2 ^ 64"
    and spec: "spec_alloc bs1 bs2 (cells_needed a sz) = (res, bs1', bs2')"
  shows "\<exists>m' h. logalloc_alloc m (Some a) sz (Some p) = Some (alloc_answer a m' (a\<lparr>la_log_head := h\<rparr>) res) \<and>
    log_state m' (a\<lparr>la_log_head := h\<rparr>) bs1' bs2' \<and> only_headers a (kept bs1 bs2 (cells_needed a sz)) m m'"
proof -
  note D = log_stateD [OF st]
  let ?req = "cells_needed a sz" let ?wr = "wraps bs2 (cells_needed a sz)"
  let ?m = "if ?wr then put_hdr m a (cells bs1) (of_nat (cells bs2)) 0 else m"
  let ?w = "if ?wr then 0 else of_nat (cells bs1) :: u64"
  note unfold = alloc_unfold [OF st sz, of p]
  have cs: "la_cell_size a \<noteq> 0" using region_okD(1) [OF D(1)] by auto
  show ?thesis
  proof (cases "255 < ?req \<or> cells (bs1 @ bs2) < ?req \<or> snd (hd bs2) \<noteq> 0")
    case True
    then show ?thesis
      using unfold spec st by (intro exI [of _ m] exI [of _ "la_log_head a"]) (auto simp: spec_alloc_def only_headers_refl)
  next
    case False
    define bs where "bs = (if ?wr then [(cells bs2, 0)] else bs2)"
    define pre where "pre = (if ?wr then [] else bs1)"
    define suf where "suf = (if ?wr then bs1 @ bs else bs)"
    obtain i rest where g: "gather ?req 0 suf = (i, rest)" by force
    have req: "0 < ?req" "?req < 256" "?req \<le> cells suf"
      using cells_needed_word(2) [OF cs sz] False by (auto simp: suf_def bs_def wraps_def)
    have b2: "0 < cells bs2" using D(6,7) by simp
    have ok: "region_ok ?m a" using D(1) by simp
    have "seg (put_hdr m a (cells bs1) (of_nat (cells bs2)) 0) a 0 (bs1 @ [(cells bs2, 0)])" if ?wr
      using seg_put_block [OF D(1,3) b2, of 0] that False D(6) by (simp add: wraps_def)
    then have t: "tiled ?m a 0 (bs1 @ bs)"
      using st D(6) by (auto simp: bs_def log_state_def intro!: seg_tiled)
    have kp: "live 0 (bs1 @ bs) = kept bs1 bs2 ?req"
      using False by (auto simp: bs_def kept_def live_append)
    have "outside_of (kept bs1 bs2 ?req) (cells bs1)" if ?wr
      using that False outside_of_live [of 0 bs1 "cells bs1"] by (simp add: kept_def)
    then have oh: "only_headers a (kept bs1 bs2 ?req) m ?m"
      using D(7) by (auto intro: only_headers_put only_headers_refl)
    have same: "pre @ suf = bs1 @ bs" "suf \<noteq> []" "?w = of_nat (cells pre)" "bs \<noteq> []"
      using D(2) by (auto simp: pre_def suf_def bs_def)
    obtain l where l: "gather_cells ?m a (of_nat (total_cells a)) (of_nat (cells pre)) (of_nat ?req) 0 0 = Some (of_nat i, l)" "i < 2 ^ 64"
      "?req \<le> i \<Longrightarrow> \<exists>m' h. logalloc_take ?m a (of_nat (total_cells a)) (of_nat (cells pre)) (of_nat ?req) (of_nat i) l =
        Some (A_OK, m', a\<lparr>la_log_head := h\<rparr>, user_ptr a (cells pre)) \<and> only_headers a (live 0 (pre @ suf)) ?m m' \<and>
        (if (if ?req < i then (i - ?req, 0) # rest else rest) = [] then log_state m' (a\<lparr>la_log_head := h\<rparr>) [] (pre @ [(?req, 1)])
         else log_state m' (a\<lparr>la_log_head := h\<rparr>) (pre @ [(?req, 1)]) (if ?req < i then (i - ?req, 0) # rest else rest))"
      using alloc_from_tiled [OF ok t [folded same(1)] same(2) req g] by metis
    have spec': "(res, bs1', bs2') = (if i < ?req then (None, bs1, bs)
        else (Some (cells pre), if (if ?req < i then (i - ?req, 0) # rest else rest) = [] then ([], pre @ [(?req, 1)])
              else (pre @ [(?req, 1)], if ?req < i then (i - ?req, 0) # rest else rest)))"
      using spec g False by (auto simp: spec_alloc_def Let_def bs_def pre_def suf_def wraps_def split: if_splits)
    show ?thesis
    proof (cases "i < ?req")
      case True
      have "log_state ?m a bs1 bs" using ok t same(4) D(5) by (intro log_stateI) auto
      moreover have "logalloc_alloc m (Some a) sz (Some p) = Some (alloc_answer a ?m a None)"
        using unfold False l(1,2) True req(2) same(3) by (simp add: of_nat_u64_less)
      ultimately show ?thesis using spec' True oh by (intro exI [of _ ?m] exI [of _ "la_log_head a"]) simp
    next
      case F: False
      obtain m' h where m': "logalloc_take ?m a (of_nat (total_cells a)) (of_nat (cells pre)) (of_nat ?req) (of_nat i) l =
          Some (A_OK, m', a\<lparr>la_log_head := h\<rparr>, user_ptr a (cells pre))" "only_headers a (kept bs1 bs2 ?req) ?m m'"
        "log_state m' (a\<lparr>la_log_head := h\<rparr>) bs1' bs2'"
        using l(3) F spec' unfolding same(1) kp by (auto split: if_splits)
      have "logalloc_alloc m (Some a) sz (Some p) = Some (alloc_answer a m' (a\<lparr>la_log_head := h\<rparr>) res)"
        using unfold False l(1,2) m'(1) F req(2) spec' same(3) by (simp add: of_nat_u64_less alloc_answer_def)
      then show ?thesis using m'(3) only_headers_trans [OF oh m'(2)] by blast
    qed
  qed
qed


subsection \<open>Blocks that survive an allocation\<close>

lemma spec_alloc_live:
  assumes "spec_alloc bs1 bs2 req = (res, bs1', bs2')"
  shows "case res of
      None \<Rightarrow> live 0 (bs1' @ bs2') = kept bs1 bs2 req
    | Some k \<Rightarrow> live 0 (bs1' @ bs2') = insert (k, req, 1) (kept bs1 bs2 req) \<and>
                k + req \<le> cells (bs1 @ bs2) \<and> disjoint_cells k req (kept bs1 bs2 req)"
proof (cases "255 < req \<or> cells (bs1 @ bs2) < req \<or> snd (hd bs2) \<noteq> 0")
  case True
  then show ?thesis using assms(1) by (auto simp: spec_alloc_def kept_def)
next
  case False
  define bs where "bs = (if wraps bs2 req then [(cells bs2, 0)] else bs2)"
  define pre where "pre = (if wraps bs2 req then [] else bs1)"
  define suf where "suf = (if wraps bs2 req then bs1 @ bs else bs)"
  obtain i rest where g: "gather req 0 suf = (i, rest)" by force
  define tail where "tail = (if req < i then (i - req, 0) # rest else rest)"
  have sp: "(res, bs1', bs2') = (if i < req then (None, bs1, bs)
      else (Some (cells pre), if tail = [] then ([], pre @ [(req, 1)]) else (pre @ [(req, 1)], tail)))"
    using assms(1) g False by (auto simp: spec_alloc_def Let_def bs_def pre_def suf_def wraps_def tail_def split: if_splits)
  have same: "pre @ suf = bs1 @ bs" by (simp add: pre_def suf_def)
  have lv: "live 0 (bs1 @ bs) = kept bs1 bs2 req"
    using False by (auto simp: bs_def kept_def live_append)
  have sum: "i + cells rest = cells suf" "cells (pre @ suf) = cells (bs1 @ bs2)"
    using gather_sum [OF g] by (simp_all add: same) (simp add: bs_def)
  have lrest: "live (cells pre + i) rest = live (cells pre) suf" using gather_live [OF g, of "cells pre"] by simp
  show ?thesis
  proof (cases "i < req")
    case True
    then show ?thesis using sp lv by simp
  next
    case F: False
    then have ltail: "live (cells pre + req) tail = live (cells pre) suf"
      using lrest by (auto simp: tail_def)
    have all: "kept bs1 bs2 req = live 0 pre \<union> live (cells pre + i) rest"
      using lv lrest by (simp add: same [symmetric] live_append)
    have "disjoint_cells (cells pre) req (kept bs1 bs2 req)"
      unfolding all disjoint_cells_def using F by (fastforce dest!: live_range)
    moreover have "live 0 (bs1' @ bs2') = insert (cells pre, req, 1) (kept bs1 bs2 req)"
    proof -
      have "bs1' @ bs2' = pre @ [(req, 1)] @ tail" using sp F by (auto split: if_splits)
      then show ?thesis using ltail lrest unfolding all by (auto simp: live_append)
    qed
    ultimately show ?thesis using sp F sum by auto
  qed
qed

subsection \<open>References and releases\<close>

definition put_refcnt :: "byte_mem \<Rightarrow> logalloc \<Rightarrow> nat \<Rightarrow> u8 \<Rightarrow> byte_mem" where
  "put_refcnt m a k r = m(hdr a k + 1 \<mapsto> r)"

lemma put_refcnt_put_hdr:
  "ch_nr_cells m (hdr a k) = Some n \<Longrightarrow> put_refcnt m a k r = put_hdr m a k n r"
  by (auto simp: put_refcnt_def put_hdr_def ch_nr_cells_def load_u8_def fun_upd_idem)

lemma tiled_set_refcnt:
  assumes "region_ok m a" "tiled m a k (xs @ (l, r) # ys)" "r \<noteq> 0" "r' < 256"
  shows "tiled (put_refcnt m a (k + cells xs) (of_nat r')) a k (xs @ (l, r') # ys)"
proof -
  let ?k = "k + cells xs"
  have sg: "seg m a k xs" and t: "tiled m a ?k ((l, r) # ys)" using assms(2) tiled_append [of "(l, r) # ys" m a k xs] by auto
  have p: "proper m a ?k (l, r)" using t assms(3) by (auto simp: sentinel_def)
  have k: "?k < total_cells a" and c: "?k + l + cells ys = total_cells a"
    using hdr_read [OF assms(1) t] tiled_cells [OF t] by auto
  have m: "put_refcnt m a ?k (of_nat r') = put_hdr m a ?k (of_nat l) (of_nat r')" (is "_ = ?m")
    using p by (intro put_refcnt_put_hdr) (simp add: proper_def)
  have "seg ?m a k xs" using seg_put_hdr [OF assms(1) k, of k xs] sg k by simp
  moreover have "proper ?m a ?k (l, r')" using p assms(1,4) k by (simp add: proper_def read_put_hdr)
  moreover have "tiled ?m a (?k + l) ys"
    using tiled_put_hdr [OF assms(1) _ _ , of ?k "?k + l" ys] t c p by (auto simp: proper_def)
  ultimately show ?thesis unfolding m by (simp add: tiled_append)
qed


lemma cells_map_fst: "map fst xs = map fst ys \<Longrightarrow> cells xs = cells ys"
  by (simp add: cells_def)

lemma log_state_set_refcnt:
  assumes "log_state m a bs1 bs2" "bs1 @ bs2 = xs @ (l, r) # ys" "r \<noteq> 0" "r' < 256"
  shows "\<exists>ys1 ys2. log_state (put_refcnt m a (cells xs) (of_nat r')) a ys1 ys2 \<and> ys1 @ ys2 = xs @ (l, r') # ys"
proof -
  note D = log_stateD [OF assms(1)]
  define bs where "bs = xs @ (l, r') # ys"
  have t: "tiled (put_refcnt m a (cells xs) (of_nat r')) a 0 bs"
    using tiled_set_refcnt [OF D(1) _ assms(3,4), of 0 xs l ys] assms(1,2) by (simp add: log_state_def bs_def)
  have mf: "map fst bs = map fst (bs1 @ bs2)" by (simp add: bs_def assms(2))
  then have "map fst (take (length bs1) bs) = map fst bs1" by (simp add: take_map [symmetric])
  then have "la_log_head a = of_nat (cells (take (length bs1) bs))" using D(5) cells_map_fst by metis
  moreover have "drop (length bs1) bs \<noteq> []" using arg_cong [OF mf, of length] D(2) by simp
  moreover have "region_ok (put_refcnt m a (cells xs) (of_nat r')) a"
    using D(1) by (auto simp: region_ok_def put_refcnt_def)
  ultimately have "log_state (put_refcnt m a (cells xs) (of_nat r')) a (take (length bs1) bs) (drop (length bs1) bs)"
    using t by (intro log_stateI) simp_all
  then show ?thesis unfolding bs_def [symmetric] by (metis append_take_drop_id)
qed

lemma user_ptr_facts:
  assumes "log_state m a bs1 bs2" "bs1 @ bs2 = xs @ (l, r) # ys"
  shows "user_ptr a (cells xs) \<noteq> NULL" "user_ptr a (cells xs) - sizeof_cell_header = hdr a (cells xs)"
    "ch_refcnt m (hdr a (cells xs)) = Some (of_nat r)" "r < 256"
    "set_refcnt m (hdr a (cells xs)) v = Some (put_refcnt m a (cells xs) v)"
proof -
  note ok = log_stateD(1) [OF assms(1)]
  have t: "tiled m a (cells xs) ((l, r) # ys)"
    using assms tiled_append [of "(l, r) # ys" m a 0 xs] by (simp add: log_state_def)
  note h = hdr_read [OF ok t]
  show "ch_refcnt m (hdr a (cells xs)) = Some (of_nat r)" "r < 256" using h by auto
  have "2 < unat (la_cell_size a)" "0 < unat (la_rgn a)" using ok by (auto simp: region_ok_def)
  then have "unat (user_ptr a (cells xs)) \<noteq> 0"
    using unat_hdr_offset [OF ok h(1), of 2] by (simp add: user_ptr_def sizeof_cell_header_def)
  then show "user_ptr a (cells xs) \<noteq> NULL" by auto
  show "user_ptr a (cells xs) - sizeof_cell_header = hdr a (cells xs)" by (simp add: user_ptr_def)
  show "set_refcnt m (hdr a (cells xs)) v = Some (put_refcnt m a (cells xs) v)"
    using hdr_fields(6) [OF ok h(1) h(1)] by (simp add: set_refcnt_def store_u8_def put_refcnt_def)
qed

lemma u8_max: "r < 256 \<Longrightarrow> (of_nat r :: u8) = 255 \<longleftrightarrow> r = 255"
proof
  assume r: "r < 256" and eq: "(of_nat r :: u8) = 255"
  show "r = 255" using arg_cong [OF eq, of unat] unat_u8_of_nat [OF r] by simp
qed simp

subsection \<open>Creation\<close>

lemma cell_size_bound:
  assumes "cell_size \<noteq> 0" "unat cell_size + 2 \<le> 2 ^ 63"
  shows "4 \<le> unat (tsl_round_up_2_64 (cell_size + sizeof_cell_header))"
proof -
  let ?v = "cell_size + sizeof_cell_header"
  have "0 < unat cell_size" using assms(1) by (simp add: unat_gt_0)
  moreover have v: "unat ?v = unat cell_size + 2"
    using assms(2) by (simp add: sizeof_cell_header_def unat_word_ariths)
  ultimately obtain k where k: "unat (tsl_round_up_2_64 ?v) = 2 ^ k" "unat ?v \<le> 2 ^ k"
    using round_up_2_64_power [of ?v] assms(2) by auto
  moreover have "(2 :: nat) ^ k \<le> 2 ^ 1" if "k < 2" using that by (intro power_increasing) auto
  ultimately have "\<not> k < 2" using v \<open>0 < unat cell_size\<close> by force
  then have "(2 :: nat) ^ 2 \<le> 2 ^ k" by (intro power_increasing) auto
  then show ?thesis using k by simp
qed

lemma map_zero_range: "b < unat len \<Longrightarrow> map_zero m p len (p + of_nat b) = Some 0"
  using unat_u64_less [of len] by (simp add: map_zero_def unat_u64_of_nat)

lemma fresh_log:
  fixes prm :: logalloc_params
  assumes "4 \<le> unat cs" "p \<noteq> NULL" "nr \<noteq> 0" "unat p + unat cs * unat nr \<le> 2 ^ 64"
    "unat cs * unat nr < 2 ^ 64"
  defines "a \<equiv> \<lparr>la_rgn = p, la_log_head = 0, la_cell_size = cs, la_region_size = cs * nr, la_params = prm\<rparr>"
  shows "log_state (map_zero m p (cs * nr)) a [] [(unat nr, 0)]" "sentinel (map_zero m p (cs * nr)) a 0 (unat nr, 0)"
    "total_cells a = unat nr"
proof -
  let ?m = "map_zero m p (cs * nr)"
  have sz: "unat (cs * nr) = unat cs * unat nr" using assms(5) by (simp add: unat_word_ariths)
  then show tc: "total_cells a = unat nr" using assms(1) by (simp add: total_cells_def a_def)
  have nz: "0 < unat nr" "0 < unat p" using assms(2,3) by (simp_all add: unat_gt_0)
  have ok: "region_ok ?m a"
    using assms(1,4) nz tc sz by (auto simp: region_ok_def a_def map_zero_range mult.commute)
  have "4 \<le> unat (cs * nr)" using assms(1) nz sz mult_le_mono [OF assms(1), of 1 "unat nr"] by simp
  then show st: "sentinel ?m a 0 (unat nr, 0)"
    using nz map_zero_range [of 0 "cs * nr" m p] map_zero_range [of 1 "cs * nr" m p]
    by (simp add: sentinel_def ch_nr_cells_def ch_refcnt_def load_u8_def hdr_def a_def)
  then show "log_state ?m a [] [(unat nr, 0)]"
    using ok tc by (intro log_stateI) (auto simp: a_def)
qed

lemma logalloc_new_default:
  assumes "self \<noteq> NULL" "p \<noteq> NULL" "cell_size \<noteq> 0" "unat cell_size + 2 \<le> 2 ^ 63" "nr \<noteq> 0"
  defines "cs \<equiv> tsl_round_up_2_64 (cell_size + sizeof_cell_header)"
    and "prm \<equiv> logalloc_default_params self p"
  assumes "unat p + unat cs * unat nr \<le> 2 ^ 64" "unat cs * unat nr < 2 ^ 64"
  shows "logalloc_new prm True m (Some q) cell_size nr None =
    Some (A_OK, map_zero m p (cs * nr),
          Some (Some \<lparr>la_rgn = p, la_log_head = 0, la_cell_size = cs, la_region_size = cs * nr, la_params = prm\<rparr>))"
proof -
  have cs: "4 \<le> unat cs" unfolding cs_def by (rule cell_size_bound [OF assms(3,4)])
  have sz: "unat (cs * nr) = unat cs * unat nr" using assms(9) by (simp add: unat_word_ariths)
  have "4 \<le> unat (cs * nr)" using assms(5) cs sz mult_le_mono [OF cs, of 1 "unat nr"] by (simp add: unat_gt_0 Suc_leI)
  then have nz: "cs * nr \<noteq> 0" "cs \<noteq> 0" and z: "map_zero m p (cs * nr) p = Some 0" "map_zero m p (cs * nr) (p + 1) = Some 0"
    using cs map_zero_range [of 0 "cs * nr" m p] map_zero_range [of 1 "cs * nr" m p] by auto
  show ?thesis
    unfolding logalloc_new_def Let_def cs_def [symmetric]
    using assms(1-3,5) nz z
    by (auto simp: prm_def logalloc_default_params_def logalloc_default_alloc_def set_nr_cells_def set_refcnt_def store_u8_def
        fun_upd_idem)
qed

text \<open>Claim C31. A block of \<open>l\<close> cells with \<open>r\<close> references, and the pointer to its payload. \<open>logalloc_reference\<close> adds one reference if there is
  one already, up to 255, and answers A_E_BUSY otherwise; \<open>logalloc_free\<close> takes one away, and answers A_E_INVAL if there is
  none, so that a second release does not wrap the count around. Both write at most the byte of the reference count of this
  block, and the log stays well formed. NULL is refused. The pointer of the caller is not reset by \<open>logalloc_free\<close>.\<close>

theorem logalloc_references_correct:
  assumes "log_state m a bs1 bs2" "bs1 @ bs2 = xs @ (l, r) # ys"
  defines "ptr \<equiv> user_ptr a (cells xs)"
  shows "(\<exists>m1 ys1 ys2. logalloc_reference m ptr = Some (if r = 0 \<or> r = 255 then A_E_BUSY else A_OK, m1) \<and>
      log_state m1 a ys1 ys2 \<and> ys1 @ ys2 = xs @ (l, if r = 0 \<or> r = 255 then r else r + 1) # ys \<and>
      (\<forall>q. q \<noteq> hdr a (cells xs) + 1 \<longrightarrow> m1 q = m q)) \<and>
    (\<exists>m2 zs1 zs2. logalloc_free m (Some ptr) = Some (if r = 0 then A_E_INVAL else A_OK, m2, Some ptr) \<and>
      log_state m2 a zs1 zs2 \<and> zs1 @ zs2 = xs @ (l, r - 1) # ys \<and>
      (\<forall>q. q \<noteq> hdr a (cells xs) + 1 \<longrightarrow> m2 q = m q)) \<and>
    logalloc_reference m NULL = Some (A_E_BADARGS, m) \<and> logalloc_free m (Some NULL) = Some (A_E_BADARGS, m, Some NULL) \<and>
    logalloc_free m None = Some (A_E_BADARGS, m, None)"
proof (intro conjI)
  note f = user_ptr_facts [OF assms(1,2), folded ptr_def]
  let ?put = "\<lambda>r. put_refcnt m a (cells xs) (of_nat r)"
  have put: "?put r' q = m q" if "q \<noteq> hdr a (cells xs) + 1" for r' q using that by (simp add: put_refcnt_def)
  show "\<exists>m1 ys1 ys2. logalloc_reference m ptr = Some (if r = 0 \<or> r = 255 then A_E_BUSY else A_OK, m1) \<and>
      log_state m1 a ys1 ys2 \<and> ys1 @ ys2 = xs @ (l, if r = 0 \<or> r = 255 then r else r + 1) # ys \<and>
      (\<forall>q. q \<noteq> hdr a (cells xs) + 1 \<longrightarrow> m1 q = m q)"
  proof (cases "r = 0 \<or> r = 255")
    case True
    then show ?thesis using assms(1,2) f(1-4) by (auto simp: logalloc_reference_def)
  next
    case False
    then have "logalloc_reference m ptr = Some (A_OK, ?put (r + 1))"
      using f by (simp add: logalloc_reference_def u8_max of_nat_u8_0 add.commute)
    moreover have "r + 1 < 256" "r \<noteq> 0" using False f(4) by simp_all
    ultimately show ?thesis using log_state_set_refcnt [OF assms(1,2), of "r + 1"] False put [of _ "r + 1"] by auto
  qed
  show "\<exists>m2 zs1 zs2. logalloc_free m (Some ptr) = Some (if r = 0 then A_E_INVAL else A_OK, m2, Some ptr) \<and>
      log_state m2 a zs1 zs2 \<and> zs1 @ zs2 = xs @ (l, r - 1) # ys \<and> (\<forall>q. q \<noteq> hdr a (cells xs) + 1 \<longrightarrow> m2 q = m q)"
  proof (cases "r = 0")
    case True
    then show ?thesis using assms(1,2) f(1-4) by (auto simp: logalloc_free_def)
  next
    case False
    then have "logalloc_free m (Some ptr) = Some (A_OK, ?put (r - 1), Some ptr)"
      using f by (simp add: logalloc_free_def of_nat_u8_0)
    then show ?thesis using log_state_set_refcnt [OF assms(1,2) False, of "r - 1"] f(4) put [of _ "r - 1"] False by auto
  qed
qed (simp_all add: logalloc_reference_def logalloc_free_def)

text \<open>Claim C15. \<open>logalloc_alloc\<close> implements \<open>spec_alloc\<close> on the blocks of the log, in success and in failure, and the log stays well
  formed. What is in use afterwards is a new object of one reference and the blocks that are \<open>kept\<close>. The new object lies in the
  region, in cells of its own, apart from all that are kept, and no byte of the kept blocks changes, header or
  payload. Without a wrap-around every block in use is kept. An allocation that wraps around keeps only the blocks below the log head:
  objects in use behind it are lost, even when the request then fails. (The hypothesis on the size excludes an overflow
  of \<open>size + cell_size - 1\<close>.)\<close>

theorem logalloc_alloc_correct:
  assumes "log_state m a bs1 bs2" "sz \<noteq> 0" "unat sz + unat (la_cell_size a) - 1 < 2 ^ 64"
    and "spec_alloc bs1 bs2 (cells_needed a sz) = (res, bs1', bs2')"
  defines "use \<equiv> kept bs1 bs2 (cells_needed a sz)"
  shows "\<exists>m' a' h. a' = a\<lparr>la_log_head := h\<rparr> \<and> log_state m' a' bs1' bs2' \<and>
    (\<forall>(k, l, r) \<in> use. \<forall>b < l * unat (la_cell_size a). m' (hdr a k + of_nat b) = m (hdr a k + of_nat b)) \<and>
    (case res of
       None \<Rightarrow> logalloc_alloc m (Some a) sz (Some p) = Some (A_E_NOMEM, m', Some a', Some NULL) \<and> live 0 (bs1' @ bs2') = use
     | Some k \<Rightarrow> logalloc_alloc m (Some a) sz (Some p) = Some (A_OK, m', Some a', Some (user_ptr a k)) \<and>
               live 0 (bs1' @ bs2') = insert (k, cells_needed a sz, 1) use \<and>
               k + cells_needed a sz \<le> total_cells a \<and> disjoint_cells k (cells_needed a sz) use)"
proof -
  obtain m' h where m': "logalloc_alloc m (Some a) sz (Some p) = Some (alloc_answer a m' (a\<lparr>la_log_head := h\<rparr>) res)"
    "log_state m' (a\<lparr>la_log_head := h\<rparr>) bs1' bs2'" "only_headers a use m m'"
    using alloc_refines [OF assms(1-4), of p] unfolding use_def by blast
  note D = log_stateD [OF assms(1)]
  have "k + l \<le> total_cells a" if "(k, l, r) \<in> use" for k l r
    using that D(6) live_range [of k l r 0 bs1] live_range [of k l r 0 "bs1 @ bs2"]
    by (auto simp: use_def kept_def split: if_splits)
  then have "\<forall>(k, l, r) \<in> use. \<forall>b < l * unat (la_cell_size a). m' (hdr a k + of_nat b) = m (hdr a k + of_nat b)"
    using only_headers_same_bytes [OF D(1) m'(3)] by blast
  with m'(1,2) show ?thesis
    using spec_alloc_live [OF assms(4), folded use_def] D(6) by (cases res) (fastforce simp: alloc_answer_def)+
qed

end
