(* ===== verification/Logalloc_Region.thy ===== *)
theory Logalloc_Region
  imports Logalloc_Spec
begin

section \<open>Prepared regions of the log-structured allocator\<close>

text \<open>
  \<open>logalloc_prepare_region\<close> puts a placeholder at the log head, \<open>logalloc_finalize_region\<close> turns the used part of it into an
  object. The theorems say when this works, and what the code does in the cases it gets wrong.
\<close>

subsection \<open>Closing a region\<close>

lemma finalize_unfold:
  assumes st: "log_state m a bs1 ((l, 0) # bs)" and l: "proper m a (cells bs1) (l, 0)"
    and sz: "sz \<noteq> 0" "unat sz + unat (la_cell_size a) - 1 < 2 ^ 64"
  defines "u \<equiv> cells_needed a sz"
    and "h \<equiv> (cells bs1 + cells_needed a sz) mod total_cells a"
  shows "logalloc_finalize_region m (Some a) sz =
    (if l < u then Some (A_E_INVAL, m, Some a)
     else if u = l then Some (A_OK, m, Some (a\<lparr>la_log_head := of_nat h\<rparr>))
     else Some (A_OK, put_hdr (put_hdr m a (cells bs1) (of_nat u) 1) a (cells bs1 + u) (of_nat (l - u)) 0,
                Some (a\<lparr>la_log_head := of_nat h\<rparr>)))"
proof -
  note words = alloc_words [OF st sz, folded u_def]
  note D = log_stateD [OF st]
  have l': "l < 256" "ch_nr_cells m (hdr a (cells bs1)) = Some (of_nat l)" "ucast (of_nat l :: u8) = (of_nat l :: u64)"
    using l by (simp_all add: proper_def ucast_of_nat_u8)
  have guard: "(255 :: u64) < of_nat u \<or> (of_nat l :: u64) < of_nat u \<longleftrightarrow> l < u"
    and eq: "(of_nat l :: u64) = of_nat u \<longleftrightarrow> u = l"
    and tz: "(of_nat (total_cells a) :: u64) \<noteq> 0"
    using of_nat_u64_less [of 255 u] of_nat_u64_less [of l u] of_nat_u64_less [of u l] of_nat_u64_0 [of "total_cells a"]
      words(3) l'(1) D(7,8) by auto
  have le: "cells bs1 + l + cells bs = total_cells a" using D(6) by simp
  have mod: "(of_nat (cells bs1) + of_nat u :: u64) mod of_nat (total_cells a) = of_nat h" if "u \<le> l"
    unfolding h_def u_def [symmetric] using that le D(7,8) by (intro head_mod) auto
  have unf: "logalloc_finalize_region m (Some a) sz =
    (if l < u then Some (A_E_INVAL, m, Some a)
     else if u = l then Some (A_OK, m, Some (a\<lparr>la_log_head := (of_nat (cells bs1) + of_nat u) mod of_nat (total_cells a)\<rparr>))
     else Option.bind (set_nr_cells m (hdr a (cells bs1)) (ucast (of_nat u :: u64)))
       (\<lambda>m. Option.bind (set_refcnt m (hdr a (cells bs1)) 1)
       (\<lambda>m. Option.bind (set_refcnt m (cell_addr a ((of_nat (cells bs1) + of_nat u) mod of_nat (total_cells a))) 0)
       (\<lambda>m. Option.bind (set_nr_cells m (cell_addr a ((of_nat (cells bs1) + of_nat u) mod of_nat (total_cells a)))
                (ucast (of_nat l - of_nat u :: u64)))
       (\<lambda>m. Some (A_OK, m, Some (a\<lparr>la_log_head := (of_nat (cells bs1) + of_nat u) mod of_nat (total_cells a)\<rparr>)))))))"
    unfolding logalloc_finalize_region_def option.case Let_def words(2,5) D(5) words(6)
    using sz(1) words(1) l' guard eq tz by auto
  show ?thesis
  proof (cases "u < l")
    case True
    have h: "h = cells bs1 + u" using True le by (simp add: h_def u_def [symmetric])
    have lt: "cells bs1 + u < total_cells a" using True le by simp
    have ca: "cell_addr a (of_nat h) = hdr a (cells bs1 + u)" unfolding h by (simp add: cell_addr_def hdr_def)
    have d: "(of_nat l - of_nat u :: u64) = of_nat (l - u)" using True by (simp add: of_nat_diff)
    have uc: "ucast (of_nat (l - u) :: u64) = (of_nat (l - u) :: u8)" using l'(1) by (simp add: ucast_of_nat_u64 del: of_nat_diff)
    show ?thesis
      using True l'(1) unfolding unf mod [OF less_imp_le [OF True]] ca d uc
      by (simp add: store_header [OF D(1,7)] store_header [OF region_ok_put_hdr [OF D(1)] lt] ucast_of_nat_u64)
  next
    case False
    then show ?thesis using unf mod by auto
  qed
qed

text \<open>Claim C32. Closing a placeholder of \<open>l\<close> cells. A size of more than \<open>l\<close> cells is refused. A smaller size gives an object of exactly
  the cells used with one reference, and the rest of the placeholder stays free. But if the size needs all \<open>l\<close> cells, the
  reference count stays 0: the object counts as free, and \<open>logalloc_free\<close> of it fails.\<close>

theorem logalloc_finalize_region_correct:
  assumes "log_state m a bs1 ((l, 0) # bs)" "proper m a (cells bs1) (l, 0)"
    and "sz \<noteq> 0" "unat sz + unat (la_cell_size a) - 1 < 2 ^ 64"
  defines "u \<equiv> cells_needed a sz"
  shows "\<exists>m' h. let a' = a\<lparr>la_log_head := h\<rparr>; ptr = user_ptr a (cells bs1) in
    logalloc_finalize_region m (Some a) sz = Some (if l < u then A_E_INVAL else A_OK, m', Some a') \<and>
    (if l < u then m' = m \<and> a' = a
     else if u < l then log_state m' a' (bs1 @ [(u, 1)]) ((l - u, 0) # bs)
     else m' = m \<and> (if bs = [] then log_state m' a' [] (bs1 @ [(l, 0)]) else log_state m' a' (bs1 @ [(l, 0)]) bs) \<and>
          logalloc_free m' (Some ptr) = Some (A_E_INVAL, m', Some ptr))"
proof -
  note unf = finalize_unfold [OF assms(1-4), folded u_def]
  note D = log_stateD [OF assms(1)]
  note words = alloc_words [OF assms(1,3,4), folded u_def]
  have t: "tiled m a (cells bs1 + l) bs" using D(4) by simp
  have le: "cells bs1 + l + cells bs = total_cells a" using D(6) by simp
  have l: "l < 256" "0 < l" using assms(2) by (simp_all add: proper_def)
  let ?h = "(cells bs1 + u) mod total_cells a" let ?a = "a\<lparr>la_log_head := of_nat ?h\<rparr>"
  consider "l < u" | "u < l" | "u = l" by linarith
  then show ?thesis
  proof cases
    case 1
    then show ?thesis using unf by (intro exI [of _ m] exI [of _ "la_log_head a"]) (simp add: Let_def)
  next
    case 2
    let ?m = "put_hdr m a (cells bs1) (of_nat u) 1"
    let ?m' = "put_hdr ?m a (cells bs1 + u) (of_nat (l - u)) 0"
    have lt: "cells bs1 + u < total_cells a" and ok: "region_ok ?m a" using 2 le D(1) by simp_all
    have "seg ?m a 0 (bs1 @ [(u, 1)])"
      using seg_put_block [OF D(1,3) words(4), of 1] 2 l le by simp
    then have "seg ?m' a 0 (bs1 @ [(u, 1)])" using seg_put_hdr [OF ok lt, of 0 "bs1 @ [(u, 1)]"] lt by simp
    moreover have "tiled ?m a (cells bs1 + l) bs" using tiled_put_hdr [OF D(1) _ _ t, of "cells bs1"] l le by simp
    then have "tiled ?m' a (cells bs1 + u) ((l - u, 0) # bs)"
      using tiled_put_tail [OF ok lt, of "l - u" bs] 2 l by simp
    ultimately have "tiled ?m' a 0 ((bs1 @ [(u, 1)]) @ (l - u, 0) # bs)"
      using tiled_append [of "(l - u, 0) # bs" ?m' a 0 "bs1 @ [(u, 1)]"] by simp
    then have "log_state ?m' ?a (bs1 @ [(u, 1)]) ((l - u, 0) # bs)"
      using ok lt by (intro log_stateI) simp_all
    then show ?thesis
      using unf 2 by (intro exI [of _ ?m'] exI [of _ "of_nat ?h"]) (simp add: Let_def)
  next
    case 3
    have "?h = (if bs = [] then 0 else cells bs1 + l)"
      using 3 le tiled_empty_iff [OF t] by (auto simp: less_le)
    moreover have "tiled m a 0 (bs1 @ (l, 0) # bs)" using assms(1) by (simp add: log_state_def)
    ultimately have "if bs = [] then log_state m ?a [] (bs1 @ [(l, 0)]) else log_state m ?a (bs1 @ [(l, 0)]) bs"
      using D(1) by (auto intro!: log_stateI)
    moreover have "logalloc_free m (Some (user_ptr a (cells bs1))) = Some (A_E_INVAL, m, Some (user_ptr a (cells bs1)))"
      using user_ptr_facts [OF assms(1) refl] by (simp add: logalloc_free_def)
    ultimately show ?thesis
      using unf 3 by (intro exI [of _ m] exI [of _ "of_nat ?h"]) (auto simp: Let_def split: if_splits)
  qed
qed

subsection \<open>Preparing a region at the end of the log\<close>

text \<open>\<open>nr\<close> cells are refused with the log head at cell \<open>h\<close> and \<open>s\<close> free cells from there to the end. In the first half of the log the
  code subtracts the log head twice. In the second half the second subtraction wraps around to a huge number.\<close>

definition prepare_refuses :: "nat \<Rightarrow> nat \<Rightarrow> nat \<Rightarrow> bool" where
  "prepare_refuses h s nr \<longleftrightarrow> s < nr \<or> h \<le> s \<and> s < h + nr"

lemma of_nat_u64_wrap:
  assumes "c + k = s + 2 ^ 64"
  shows "(of_nat s - of_nat c :: u64) = of_nat k"
proof -
  have z: "(of_nat (2 ^ 64) :: u64) = 0" by (subst word_of_nat_eq_0_iff) simp
  have "(of_nat c + of_nat k :: u64) = of_nat s + of_nat (2 ^ 64)" unfolding of_nat_add [symmetric] assms ..
  then have "of_nat c + of_nat k = (of_nat s :: u64)" unfolding z by simp
  then show ?thesis by (simp add: algebra_simps flip: \<open>of_nat c + of_nat k = (of_nat s :: u64)\<close>)
qed

lemma prepare_unfold:
  assumes st: "log_state m a bs1 [(s, 0)]" and sn: "sentinel m a (cells bs1) (s, 0)"
    and hint: "hint \<noteq> 0" "unat hint + unat (la_cell_size a) - 1 < 2 ^ 64"
  defines "nr \<equiv> min 255 (cells_needed a hint)"
  shows "logalloc_prepare_region m (Some a) hint (Some p) (Some q) =
    (if prepare_refuses (cells bs1) s nr then Some (A_E_NOMEM, m, Some a, Some p, Some q)
     else Option.bind (set_nr_cells (put_hdr m a (cells bs1) (of_nat nr) 0) (hdr a (cells bs1 + nr)) 0)
       (\<lambda>m. Option.bind (set_refcnt m (hdr a (cells bs1 + nr)) 0)
       (\<lambda>m. Some (A_OK, m, Some a, Some (user_ptr a (cells bs1)), Some (of_nat nr * la_cell_size a)))))"
proof -
  note words = alloc_words [OF st hint]
  note D = log_stateD [OF st]
  let ?found = "of_nat s - of_nat (cells bs1) :: u64"
  have nr: "(if (255 :: u64) < of_nat (cells_needed a hint) then 255 else of_nat (cells_needed a hint) :: u64) = of_nat nr"
    using of_nat_u64_less [of 255 "cells_needed a hint"] words(3) by (simp add: nr_def min_def)
  have av: "(of_nat (total_cells a) :: u64) - of_nat (cells bs1) = of_nat s" using D(6) by (metis add_diff_cancel_left' cells_simps(1,2) fst_conv add.right_neutral of_nat_add)
  have b: "s < 2 ^ 64" "nr < 256" using D(6,8) by (simp_all add: nr_def)
  have "?found < of_nat nr \<longleftrightarrow> cells bs1 \<le> s \<and> s < cells bs1 + nr"
  proof (cases "cells bs1 \<le> s")
    case True
    then have "?found = of_nat (s - cells bs1)" by (simp add: of_nat_diff)
    then show ?thesis using True b of_nat_u64_less [of "s - cells bs1" nr] by auto
  next
    case False
    then have "cells bs1 + (2 ^ 64 - (cells bs1 - s)) = s + 2 ^ 64" using D(6,8) by simp
    then have "?found = of_nat (2 ^ 64 - (cells bs1 - s))" by (rule of_nat_u64_wrap)
    moreover have small: "0 < cells bs1 - s" "cells bs1 - s < 2 ^ 63" using False D(6,8) by auto
    moreover have "2 ^ 64 - (cells bs1 - s) < (2 ^ 64 :: nat)" using small(1) by (intro diff_less) simp_all
    ultimately have u: "unat ?found = 2 ^ 64 - (cells bs1 - s)" using unat_u64_of_nat by presburger
    have n: "unat (of_nat nr :: u64) = nr" using unat_u64_of_nat [of nr] b(2) by simp
    have "nr \<le> 2 ^ 64 - (cells bs1 - s)" using b(2) small(2) by simp
    then have "\<not> ?found < of_nat nr"
      unfolding word_less_nat_alt u n not_less .
    then show ?thesis using False by simp
  qed
  then have g: "(of_nat s :: u64) < of_nat nr \<or> ?found < of_nat nr \<longleftrightarrow> prepare_refuses (cells bs1) s nr"
    using of_nat_u64_less [of s nr] b by (simp add: prepare_refuses_def)
  have sr: "prepare_search m a (of_nat s) (of_nat (cells bs1)) (of_nat nr) 0 = Some (?found, True)"
    using sn words(6) by (subst prepare_search.simps) (simp add: sentinel_def)
  have ca: "cell_addr a (of_nat (cells bs1) + of_nat nr) = hdr a (cells bs1 + nr)" by (rule cell_addr_add)
  have hd: "a\<lparr>la_log_head := of_nat (cells bs1)\<rparr> = a" using D(5) by simp
  have uc: "ucast (of_nat nr :: u64) = (of_nat nr :: u8)" using b(2) by (rule ucast_of_nat_u64)
  have rc: "ch_refcnt m (hdr a (cells bs1)) = Some 0" using sn by (simp add: sentinel_def)
  show ?thesis
    unfolding logalloc_prepare_region_def option.case Let_def words(2,5) D(5) nr av g [symmetric] words(6)
    using hint(1) words(1) rc
    by (auto simp: sr hd words(6) uc store_header [OF D(1,7)] ca user_ptr_def)
qed

lemma prepare_fits:
  assumes "log_state m a bs1 [(s, 0)]" "sentinel m a (cells bs1) (s, 0)"
    and "hint \<noteq> 0" "unat hint + unat (la_cell_size a) - 1 < 2 ^ 64"
  defines "nr \<equiv> min 255 (cells_needed a hint)"
  assumes fit: "\<not> prepare_refuses (cells bs1) s nr" "nr < s"
  shows "\<exists>m'. logalloc_prepare_region m (Some a) hint (Some p) (Some q) =
              Some (A_OK, m', Some a, Some (user_ptr a (cells bs1)), Some (of_nat nr * la_cell_size a)) \<and>
            log_state m' a bs1 [(nr, 0), (s - nr, 0)] \<and> proper m' a (cells bs1) (nr, 0)"
proof -
  note unf = prepare_unfold [OF assms(1-4), of p q, folded nr_def]
  note D = log_stateD [OF assms(1)]
  have nr: "0 < nr" "nr < 256" using alloc_words(4) [OF assms(1,3,4)] by (simp_all add: nr_def)
  have tot: "cells bs1 + s = total_cells a" using D(6) by simp
  let ?m = "put_hdr m a (cells bs1) (of_nat nr) 0" let ?m' = "put_hdr ?m a (cells bs1 + nr) 0 0"
  have ok: "region_ok ?m a" and lt: "cells bs1 + nr < total_cells a" using D(1) fit tot by simp_all
  have sg: "seg ?m' a 0 (bs1 @ [(nr, 0)])"
    using seg_put_block [OF D(1,3) nr, of 0] seg_put_hdr [OF ok lt, of 0 "bs1 @ [(nr, 0)]"] lt by simp
  have "tiled ?m' a (cells bs1 + nr) [(s - nr, 0)]" using tiled_put_sentinel [OF ok lt, of "s - nr"] fit tot by simp
  then have "tiled ?m' a 0 ((bs1 @ [(nr, 0)]) @ [(s - nr, 0)])"
    using sg tiled_append [of "[(s - nr, 0)]" ?m' a 0 "bs1 @ [(nr, 0)]"] by simp
  then have "log_state ?m' a bs1 [(nr, 0), (s - nr, 0)]" using ok D(5) by (intro log_stateI) simp_all
  moreover have "proper ?m' a (cells bs1) (nr, 0)" using sg by (simp add: seg_append)
  moreover have "logalloc_prepare_region m (Some a) hint (Some p) (Some q) =
              Some (A_OK, ?m', Some a, Some (user_ptr a (cells bs1)), Some (of_nat nr * la_cell_size a))"
    using fit(1) unfolding unf by (simp add: store_header [OF ok lt])
  ultimately show ?thesis by blast
qed

lemma prepare_overruns:
  assumes "log_state m a bs1 [(s, 0)]" "sentinel m a (cells bs1) (s, 0)"
    and "hint \<noteq> 0" "unat hint + unat (la_cell_size a) - 1 < 2 ^ 64"
    and "m (la_rgn a + la_region_size a) = None" "min 255 (cells_needed a hint) = s" "\<not> prepare_refuses (cells bs1) s s"
  shows "logalloc_prepare_region m (Some a) hint (Some p) (Some q) = None"
proof -
  note D = log_stateD [OF assms(1)]
  have tot: "cells bs1 + s = total_cells a" using D(6) by simp
  have "la_region_size a = of_nat (unat (la_region_size a))" by simp
  then have e: "la_rgn a + la_region_size a = hdr a (cells bs1 + s)"
    unfolding region_okD(3) [OF D(1)] by (simp add: hdr_def tot)
  have "hdr a (cells bs1 + s) \<noteq> hdr a (cells bs1)" "hdr a (cells bs1 + s) \<noteq> hdr a (cells bs1) + 1"
    using assms(5) hdr_fields(5,6) [OF D(1) D(7) D(7)] unfolding e by auto
  then have "put_hdr m a (cells bs1) (of_nat s) 0 (hdr a (cells bs1 + s)) = None" using assms(5) unfolding e by (simp add: put_hdr_def)
  then show ?thesis
    unfolding prepare_unfold [OF assms(1-4)] assms(6) using assms(7) by (simp add: set_nr_cells_def store_u8_def)
qed

text \<open>Claim C39. Preparing a region when everything from the log head (at cell \<open>cells bs1\<close>) to the end, \<open>s\<close> cells, is one free rest with
  a zero header. The request is cut to 255 cells. With the log head in the first half of the log it is refused unless it fits
  into \<open>s - cells bs1\<close> cells, since the code subtracts the log head twice; in the second half the second subtraction
  wraps around and only \<open>s\<close> limits the request. A request that is not refused leaves a placeholder of the cells
  requested at the log head, and the rest free, if there is a rest; if it takes all \<open>s\<close> cells, the next header is written behind the region.\<close>

theorem logalloc_prepare_region_correct:
  assumes "log_state m a bs1 [(s, 0)]" "sentinel m a (cells bs1) (s, 0)"
    and "hint \<noteq> 0" "unat hint + unat (la_cell_size a) - 1 < 2 ^ 64"
    and "m (la_rgn a + la_region_size a) = None"
  defines "nr \<equiv> min 255 (cells_needed a hint)"
  defines "refused \<equiv> s < nr \<or> cells bs1 \<le> s \<and> s < cells bs1 + nr"
  shows "(refused \<longrightarrow>
           logalloc_prepare_region m (Some a) hint (Some p) (Some q) = Some (A_E_NOMEM, m, Some a, Some p, Some q)) \<and>
    (\<not> refused \<and> nr = s \<longrightarrow> logalloc_prepare_region m (Some a) hint (Some p) (Some q) = None) \<and>
    (\<not> refused \<and> nr \<noteq> s \<longrightarrow>
      (\<exists>m'. logalloc_prepare_region m (Some a) hint (Some p) (Some q) =
              Some (A_OK, m', Some a, Some (user_ptr a (cells bs1)), Some (of_nat nr * la_cell_size a)) \<and>
            log_state m' a bs1 [(nr, 0), (s - nr, 0)] \<and> proper m' a (cells bs1) (nr, 0)))"
proof -
  have r: "refused \<longleftrightarrow> prepare_refuses (cells bs1) s nr" by (simp add: refused_def prepare_refuses_def)
  show ?thesis
  proof (intro conjI impI)
    assume "refused"
    then show "logalloc_prepare_region m (Some a) hint (Some p) (Some q) = Some (A_E_NOMEM, m, Some a, Some p, Some q)"
      unfolding prepare_unfold [OF assms(1-4), folded nr_def] r by (rule if_P)
  next
    assume "\<not> refused \<and> nr = s"
    then show "logalloc_prepare_region m (Some a) hint (Some p) (Some q) = None"
      using prepare_overruns [OF assms(1-5)] by (auto simp: nr_def r)
  next
    assume n: "\<not> refused \<and> nr \<noteq> s"
    then have "nr < s" by (auto simp: refused_def)
    then show "\<exists>m'. logalloc_prepare_region m (Some a) hint (Some p) (Some q) =
              Some (A_OK, m', Some a, Some (user_ptr a (cells bs1)), Some (of_nat nr * la_cell_size a)) \<and>
            log_state m' a bs1 [(nr, 0), (s - nr, 0)] \<and> proper m' a (cells bs1) (nr, 0)"
      using n prepare_fits [OF assms(1-4)] by (auto simp: nr_def r)
  qed
qed

subsection \<open>A log of eight cells\<close>

text \<open>Cells of 4 bytes at the address \<open>0x1000\<close>, as \<open>logalloc_new\<close> creates them.\<close>

definition demo_log :: logalloc where
  "demo_log = \<lparr>la_rgn = 0x1000, la_log_head = 0, la_cell_size = 4, la_region_size = 32,
     la_params = logalloc_default_params 0x100 0x1000\<rparr>"

definition demo_mem :: byte_mem where
  "demo_mem = map_zero Map.empty 0x1000 32"

lemma demo_new:
  "logalloc_new (logalloc_default_params 0x100 0x1000) True Map.empty (Some q) 2 8 None = Some (A_OK, demo_mem, Some (Some demo_log))"
proof -
  have "tsl_round_up_2_64 (2 + sizeof_cell_header) = 4" by code_simp
  then show ?thesis
    using logalloc_new_default [of "0x100" "0x1000" 2 8 Map.empty q] by (simp add: demo_mem_def demo_log_def)
qed

lemma demo_fresh: "log_state demo_mem demo_log [] [(8, 0)]" "sentinel demo_mem demo_log 0 (8, 0)" "total_cells demo_log = 8"
  using fresh_log [where cs = 4 and p = "0x1000" and nr = 8 and prm = "logalloc_default_params 0x100 0x1000"]
  by (simp_all add: demo_mem_def demo_log_def)

lemma demo_end: "demo_mem (la_rgn demo_log + la_region_size demo_log) = None"
  by (simp add: demo_mem_def map_zero_def demo_log_def)

lemma demo_cells: "la_cell_size demo_log = 4" "cells_needed demo_log 24 = 6" "cells_needed demo_log 12 = 3" "cells_needed demo_log 8 = 2"
  by (simp_all add: cells_needed_def demo_log_def)

theorem logalloc_alloc_correct_witness:
  "log_state demo_mem demo_log [] [(8, 0)] \<and>
   (\<exists>m' a'. log_state m' a' [(6, 1)] [(2, 0)] \<and>
      logalloc_alloc demo_mem (Some demo_log) 24 (Some NULL) = Some (A_OK, m', Some a', Some (user_ptr demo_log 0)) \<and>
      live 0 [(6, 1), (2, 0)] = insert (0, 6, 1) (kept [] [(8, 0)] 6))"
proof -
  have "spec_alloc [] [(8, 0)] 6 = (Some 0, [(6, 1)], [(2, 0)])" by (simp add: spec_alloc_def wraps_def)
  then show ?thesis
    using logalloc_alloc_correct [OF demo_fresh(1), of 24 "Some 0" "[(6, 1)]" "[(2, 0)]" NULL] demo_fresh(1)
    by (auto simp: demo_cells)
qed

lemma demo_allocated: "\<exists>m a. log_state m a [(6, 1)] [(2, 0)]"
  using alloc_refines [OF demo_fresh(1), of 24 "Some 0" "[(6, 1)]" "[(2, 0)]" NULL]
  by (auto simp: demo_cells spec_alloc_def wraps_def)

theorem logalloc_references_correct_witness:
  "\<exists>m a m1 m2 zs1 zs2. log_state m a [(6, 1)] [(2, 0)] \<and> logalloc_reference m (user_ptr a 0) = Some (A_OK, m1) \<and>
     logalloc_free m (Some (user_ptr a 0)) = Some (A_OK, m2, Some (user_ptr a 0)) \<and>
     log_state m2 a zs1 zs2 \<and> zs1 @ zs2 = [(6, 0), (2, 0)] \<and>
     logalloc_free m2 (Some (user_ptr a 0)) = Some (A_E_INVAL, m2, Some (user_ptr a 0))"
proof -
  obtain m a where m: "log_state m a [(6, 1)] [(2, 0)]" using demo_allocated by blast
  from logalloc_references_correct [OF this, of "[]" 6 1 "[(2, 0)]"]
  obtain m1 m2 zs1 zs2 where c: "logalloc_reference m (user_ptr a 0) = Some (A_OK, m1)"
    "logalloc_free m (Some (user_ptr a 0)) = Some (A_OK, m2, Some (user_ptr a 0))" "log_state m2 a zs1 zs2" "zs1 @ zs2 = [(6, 0), (2, 0)]"
    by auto
  obtain m3 where m3: "logalloc_free m2 (Some (user_ptr a 0)) = Some (A_E_INVAL, m3, Some (user_ptr a 0))"
    using logalloc_references_correct [OF c(3), of "[]" 6 0 "[(2, 0)]"] c(4) by auto
  then have "m3 = m2" by (auto simp: logalloc_free_def Let_def split: if_splits bind_splits)
  then show ?thesis using m c m3 by blast
qed

text \<open>The empty log, and the log with one object of six cells: with the log head in the second half a request of two cells
  is written behind the region, one of a single cell succeeds.\<close>

lemma demo_second_half:
  "\<exists>m h. log_state m (demo_log\<lparr>la_log_head := h\<rparr>) [(6, 1)] [(2, 0)] \<and> sentinel m (demo_log\<lparr>la_log_head := h\<rparr>) 6 (2, 0) \<and>
     m (la_rgn demo_log + la_region_size demo_log) = None"
proof -
  let ?r = "logalloc_alloc demo_mem (Some demo_log) 24 (Some NULL)"
  have "spec_alloc [] [(8, 0)] 6 = (Some 0, [(6, 1)], [(2, 0)])" by (simp add: spec_alloc_def wraps_def)
  then obtain m h where m: "?r = Some (alloc_answer demo_log m (demo_log\<lparr>la_log_head := h\<rparr>) (Some 0))"
    "log_state m (demo_log\<lparr>la_log_head := h\<rparr>) [(6, 1)] [(2, 0)]"
    using alloc_refines [OF demo_fresh(1), of 24 "Some 0" "[(6, 1)]" "[(2, 0)]" NULL] by (auto simp: demo_cells)
  have "map_option (\<lambda>(_, m, _). (m 0x1018, m 0x1019, m 0x1020)) ?r = Some (Some 0, Some 0, None)" by code_simp
  then have "m 0x1018 = Some 0" "m 0x1019 = Some 0" "m 0x1020 = None" using m(1) by (simp_all add: alloc_answer_def)
  then have "sentinel m (demo_log\<lparr>la_log_head := h\<rparr>) 6 (2, 0)" "m (la_rgn demo_log + la_region_size demo_log) = None"
    by (simp_all add: sentinel_def hdr_def ch_nr_cells_def ch_refcnt_def load_u8_def demo_log_def)
  then show ?thesis using m(2) by blast
qed

theorem logalloc_prepare_region_correct_witness:
  "(\<exists>m'. logalloc_prepare_region demo_mem (Some demo_log) 12 (Some NULL) (Some 0) =
      Some (A_OK, m', Some demo_log, Some (user_ptr demo_log 0), Some 12) \<and> log_state m' demo_log [] [(3, 0), (5, 0)]) \<and>
   (\<exists>m h. let a = demo_log\<lparr>la_log_head := h\<rparr> in log_state m a [(6, 1)] [(2, 0)] \<and>
      logalloc_prepare_region m (Some a) 8 (Some NULL) (Some 0) = None \<and>
      (\<exists>m'. logalloc_prepare_region m (Some a) 4 (Some NULL) (Some 0) = Some (A_OK, m', Some a, Some (user_ptr a 6), Some 4) \<and>
         log_state m' a [(6, 1)] [(1, 0), (1, 0)]))"
proof
  show "\<exists>m'. logalloc_prepare_region demo_mem (Some demo_log) 12 (Some NULL) (Some 0) =
      Some (A_OK, m', Some demo_log, Some (user_ptr demo_log 0), Some 12) \<and> log_state m' demo_log [] [(3, 0), (5, 0)]"
    using logalloc_prepare_region_correct [of demo_mem demo_log "[]" 8 12 NULL 0] demo_fresh demo_end
    by (simp add: demo_cells) blast
  obtain m h where m: "log_state m (demo_log\<lparr>la_log_head := h\<rparr>) [(6, 1)] [(2, 0)]"
    "sentinel m (demo_log\<lparr>la_log_head := h\<rparr>) 6 (2, 0)" "m (la_rgn demo_log + la_region_size demo_log) = None"
    using demo_second_half by blast
  let ?a = "demo_log\<lparr>la_log_head := h\<rparr>"
  have n: "cells_needed ?a 8 = 2" "cells_needed ?a 4 = 1" "la_cell_size ?a = 4"
    by (simp_all add: cells_needed_def demo_log_def)
  have "logalloc_prepare_region m (Some ?a) 8 (Some NULL) (Some 0) = None"
    using logalloc_prepare_region_correct [of m ?a "[(6, 1)]" 2 8 NULL 0] m by (simp add: n)
  moreover have "\<exists>m'. logalloc_prepare_region m (Some ?a) 4 (Some NULL) (Some 0) = Some (A_OK, m', Some ?a, Some (user_ptr ?a 6), Some 4) \<and>
      log_state m' ?a [(6, 1)] [(1, 0), (1, 0)]"
    using logalloc_prepare_region_correct [of m ?a "[(6, 1)]" 2 4 NULL 0] m by (simp add: n) blast
  ultimately show "\<exists>m h. let a = demo_log\<lparr>la_log_head := h\<rparr> in log_state m a [(6, 1)] [(2, 0)] \<and>
      logalloc_prepare_region m (Some a) 8 (Some NULL) (Some 0) = None \<and>
      (\<exists>m'. logalloc_prepare_region m (Some a) 4 (Some NULL) (Some 0) = Some (A_OK, m', Some a, Some (user_ptr a 6), Some 4) \<and>
         log_state m' a [(6, 1)] [(1, 0), (1, 0)])"
    using m(1) unfolding Let_def by blast
qed

theorem logalloc_finalize_region_correct_witness:
  "\<exists>m m' h. log_state m demo_log [] [(3, 0), (5, 0)] \<and>
     logalloc_finalize_region m (Some demo_log) 8 = Some (A_OK, m', Some (demo_log\<lparr>la_log_head := h\<rparr>)) \<and>
     log_state m' (demo_log\<lparr>la_log_head := h\<rparr>) [(2, 1)] [(1, 0), (5, 0)]"
proof -
  obtain m where m: "log_state m demo_log [] [(3, 0), (5, 0)]" "proper m demo_log 0 (3, 0)"
    using prepare_fits [OF demo_fresh(1), of 12] demo_fresh(2) by (auto simp: demo_cells prepare_refuses_def)
  then show ?thesis
    using logalloc_finalize_region_correct [of m demo_log "[]" 3 "[(5, 0)]" 8] by (fastforce simp: demo_cells Let_def)
qed

subsection \<open>Defects of the allocation\<close>

text \<open>An object whose size is a multiple of the cell size reaches into the header of the next block: the two bytes of its own
  header are not counted.\<close>

lemma object_reaches_next_header:
  assumes "cells_needed a sz * unat (la_cell_size a) = unat sz"
  shows "user_ptr a k + (sz - 2) = hdr a (k + cells_needed a sz)"
proof -
  have "sz = of_nat (cells_needed a sz * unat (la_cell_size a))" unfolding assms by simp
  then have "sz = of_nat (cells_needed a sz) * la_cell_size a" by simp
  then show ?thesis by (simp add: user_ptr_def hdr_def sizeof_cell_header_def algebra_simps)
qed

text \<open>A size near the end of the range of \<open>size_t\<close> overflows to a request of 0 cells, which succeeds.\<close>

lemma alloc_size_overflow:
  "map_option (\<lambda>(ret, m, a, ptr). (ret, ptr, map_option la_log_head a, ch_refcnt m 0x1000, ch_nr_cells m 0x1000))
     (logalloc_alloc demo_mem (Some demo_log) (- 1) (Some NULL)) = Some (A_OK, Some 0x1002, Some 0, Some 1, Some 0)"
  by code_simp

text \<open>Six calls on the log of eight cells: two objects, the first one released; an object in its place; a request that is too
  large for what is left; a smaller one. The run gives the result codes, the pointers to the second and to the
  last object, and the reference count of the second object at the end.\<close>

definition wrap_run :: "(aresult_t list \<times> addr option \<times> addr option \<times> u8 option) option" where
  "wrap_run =
     do { (r1, m, a, p1) \<leftarrow> logalloc_alloc demo_mem (Some demo_log) 24 (Some NULL);
          (r2, m, a, p2) \<leftarrow> logalloc_alloc m a 4 (Some NULL);
          (r3, m, _) \<leftarrow> logalloc_free m p1;
          (r4, m, a, p4) \<leftarrow> logalloc_alloc m a 16 (Some NULL);
          (r5, m, a, p5) \<leftarrow> logalloc_alloc m a 20 (Some NULL);
          (r6, m, a, p6) \<leftarrow> logalloc_alloc m a 12 (Some NULL);
          Some ([r1, r2, r3, r4, r5, r6], p2, p6, ch_refcnt m (the p2 - sizeof_cell_header)) }"

text \<open>The wrap-around of \<open>logalloc_alloc\<close> writes a free header over everything from the log head to the end of the region,
  also over objects in use, and leaves it there when the request then fails. After this, an allocation hands out the memory of
  an object in use: the last of six legal calls returns 12 bytes at \<open>0x1012\<close>, and the second object, still with one
  reference, is at \<open>0x101a\<close>.\<close>

theorem logalloc_wrap_overlaps:
  "wrap_run = Some ([A_OK, A_OK, A_OK, A_OK, A_E_NOMEM, A_OK], Some 0x101a, Some 0x1012, Some 1) \<and>
   (0x101a :: addr) \<in> {0x1012 ..< 0x1012 + 12}"
proof
  show "wrap_run = Some ([A_OK, A_OK, A_OK, A_OK, A_E_NOMEM, A_OK], Some 0x101a, Some 0x1012, Some 1)" by code_simp
  show "(0x101a :: addr) \<in> {0x1012 ..< 0x1012 + 12}" by simp
qed

end
