(* ===== verification/Logalloc_Prepare.thy ===== *)
theory Logalloc_Prepare
  imports Logalloc_Region
begin

section \<open>Preparing a region among blocks\<close>

text \<open>
  \<open>logalloc_prepare_region\<close> when the log head is at a block with a size of its own. The blocks ahead are merged and cut
  again: a placeholder of the cells requested, then free blocks of at most 255 cells.
\<close>

subsection \<open>Specification\<close>

text \<open>The search as the code does it: the first block, and then further blocks only while more than enough cells were found.\<close>

fun search_free :: "nat \<Rightarrow> nat \<Rightarrow> blocks \<Rightarrow> nat \<times> blocks" where
  "search_free nr f [] = (f, [])"
| "search_free nr f (b # bs) =
     (if snd b \<noteq> 0 then (f, b # bs)
      else if nr < f + fst b then search_free nr (f + fst b) bs
      else (f + fst b, bs))"

function chunks :: "nat \<Rightarrow> blocks" where
  "chunks n = (if n = 0 then [] else if n \<le> 255 then [(n, 0)] else (255, 0) # chunks (n - 255))"
  by pat_completeness auto
termination
  by (relation "measure id") auto

declare chunks.simps [simp del]

lemma cells_chunks [simp]: "cells (chunks n) = n"
  by (induction n rule: chunks.induct) (simp add: chunks.simps)

lemma search_sum: "search_free nr f bs = (f', rest) \<Longrightarrow> f' + cells rest = f + cells bs"
  by (induction bs arbitrary: f) (fastforce split: if_splits)+

lemma search_seg: "search_free nr f bs = (f', rest) \<Longrightarrow> seg m a (w + f) bs \<Longrightarrow> seg m a (w + f') rest"
  by (induction bs arbitrary: f) (auto simp: add.assoc split: if_splits)

subsection \<open>The two loops\<close>

lemma hdr_end:
  assumes "region_ok m a"
  shows "hdr a (total_cells a) = la_rgn a + la_region_size a"
proof -
  have "la_region_size a = of_nat (unat (la_region_size a))" by simp
  then show ?thesis unfolding region_okD(3) [OF assms] by (simp add: hdr_def)
qed

lemma search_tiled:
  assumes "region_ok m a" "nr < 2 ^ 63" "ch_refcnt m (la_rgn a + la_region_size a) = None"
    "w + f + cells bs = total_cells a" "seg m a (w + f) bs" "bs \<noteq> [] \<or> nr < f" "search_free nr f bs = (f', rest)"
  shows "prepare_search m a av (of_nat w) (of_nat nr) (of_nat f) =
      (if rest = [] \<and> nr < f' then None else Some (of_nat f', False))"
  using assms(4-)
proof (induction bs arbitrary: f)
  case Nil
  then have "ch_refcnt m (cell_addr a (of_nat w + of_nat f)) = None"
    using hdr_end [OF assms(1)] assms(3) by (simp add: cell_addr_add)
  then show ?case using Nil by (subst prepare_search.simps) auto
next
  case (Cons b bs)
  have p: "0 < fst b" "fst b < 256" "snd b < 256" "ch_nr_cells m (hdr a (w + f)) = Some (of_nat (fst b))"
    "ch_refcnt m (hdr a (w + f)) = Some (of_nat (snd b))" and s: "seg m a (w + (f + fst b)) bs"
    using Cons.prems(2) by (auto simp: proper_def add.assoc)
  have le: "w + (f + fst b) + cells bs = total_cells a" using Cons.prems(1) by simp
  have lt: "(of_nat nr :: u64) < of_nat f + of_nat (fst b) \<longleftrightarrow> nr < f + fst b"
    using of_nat_u64_less [of nr "f + fst b"] le assms(2) total_cells_bound [OF assms(1)] by simp
  have step: "prepare_search m a av (of_nat w) (of_nat nr) (of_nat f) =
      (if snd b \<noteq> 0 then Some (of_nat f, False)
       else if nr < f + fst b then prepare_search m a av (of_nat w) (of_nat nr) (of_nat (f + fst b))
       else Some (of_nat (f + fst b), False))"
    using p by (subst prepare_search.simps) (simp add: cell_addr_add of_nat_u8_0 ucast_of_nat_u8 lt)
  consider "snd b \<noteq> 0" | "snd b = 0" "\<not> nr < f + fst b" | "snd b = 0" "nr < f + fst b" by blast
  then show ?case
  proof cases
    case 3
    then have e: "search_free nr (f + fst b) bs = (f', rest)" using Cons.prems(4) by simp
    show ?thesis using Cons.IH [OF le s _ e] step 3 by simp
  qed (use step Cons.prems s in \<open>auto simp: add.assoc\<close>)
qed

lemma split_tiled:
  assumes "region_ok m a" "seg m a 0 pre" "cells pre = w + c" "w + c + r + cells rest = total_cells a" "tiled m a (w + c + r) rest"
  shows "\<exists>m'. prepare_split m a (of_nat w) (of_nat c) (of_nat r) = Some m' \<and> region_ok m' a \<and>
    seg m' a 0 (pre @ chunks r) \<and> tiled m' a (w + c + r) rest"
  using assms
proof (induction r arbitrary: m pre c rule: chunks.induct)
  case (1 r)
  show ?case
  proof (cases "r = 0")
    case True
    then show ?thesis using "1.prems" by (subst prepare_split.simps) (simp add: chunks.simps)
  next
    case False
    define n where "n = min 255 r"
    have b: "r < 2 ^ 64" "w + c < total_cells a" using "1.prems"(4) total_cells_bound [OF "1.prems"(1)] False by auto
    have n: "0 < n" "n < 256" "n \<le> r" using False by (auto simp: n_def)
    have nw: "(if (of_nat r :: u64) > 255 then 255 else of_nat r) = (of_nat n :: u64)"
      using of_nat_u64_less [of 255 r] b by (simp add: n_def min_def)
    have gt: "(0 :: u64) < of_nat r" using of_nat_u64_less [of 0 r] b False by simp
    let ?m = "put_hdr m a (w + c) (of_nat n) 0"
    have step: "prepare_split m a (of_nat w) (of_nat c) (of_nat r) = prepare_split ?m a (of_nat w) (of_nat (c + n)) (of_nat (r - n))"
      using n gt of_nat_u64_diff [OF n(3)]
      by (subst prepare_split.simps)
        (simp add: nw cell_addr_add store_header [OF "1.prems"(1) b(2)] ucast_of_nat_u64 Let_def del: of_nat_diff)
    have sg: "seg ?m a 0 (pre @ [(n, 0)])"
      using seg_put_block [OF "1.prems"(1,2) n(1,2), of 0] "1.prems"(3,4) n(3) by simp
    have t: "tiled ?m a (w + (c + n) + (r - n)) rest"
      using tiled_put_hdr [OF "1.prems"(1) _ _ "1.prems"(5), of "w + c"] "1.prems"(4) n by (simp add: add.assoc)
    have ch: "chunks r = (n, 0) # chunks (r - n)"
      using False by (subst chunks.simps) (auto simp: n_def chunks.simps [of 0])
    show ?thesis
    proof (cases "r \<le> 255")
      case True
      then have "r - n = 0" by (simp add: n_def)
      then have "prepare_split ?m a (of_nat w) (of_nat (c + n)) (of_nat (r - n)) = Some ?m" "chunks (r - n) = []"
        by (simp_all add: prepare_split.simps [of ?m] chunks.simps)
      then show ?thesis using step sg t ch n(3) "1.prems"(1) \<open>r - n = 0\<close> by (auto simp: add.assoc)
    next
      case big: False
      then have r: "r - n = r - 255" by (simp add: n_def)
      have "w + (c + n) + (r - n) + cells rest = total_cells a" "cells (pre @ [(n, 0)]) = w + (c + n)"
        using "1.prems"(3,4) n(3) by simp_all
      from "1.IH" [OF False big, of ?m "pre @ [(n, 0)]" "c + n", folded r, OF _ sg this(2,1) t] show ?thesis
        using step ch n(3) "1.prems"(1) by (simp add: add.assoc)
    qed
  qed
qed

subsection \<open>The operation\<close>

lemma prepare_blocks_unfold:
  assumes st: "log_state m a bs1 bs2" and sg: "seg m a (cells bs1) bs2"
    and hint: "hint \<noteq> 0" "unat hint + unat (la_cell_size a) - 1 < 2 ^ 64"
    and past: "ch_refcnt m (la_rgn a + la_region_size a) = None"
  defines "nr \<equiv> min 255 (cells_needed a hint)"
  assumes sf: "search_free nr 0 bs2 = (f, rest)"
  shows "logalloc_prepare_region m (Some a) hint (Some p) (Some q) =
    (if cells bs2 < nr \<or> snd (hd bs2) \<noteq> 0 \<or> f < nr then Some (A_E_NOMEM, m, Some a, Some p, Some q)
     else if rest = [] \<and> nr < f then None
     else Option.bind (prepare_split (put_hdr m a (cells bs1) (of_nat nr) 0) a (of_nat (cells bs1)) (of_nat nr) (of_nat f - of_nat nr))
       (\<lambda>m. Some (A_OK, m, Some a, Some (user_ptr a (cells bs1)), Some (of_nat nr * la_cell_size a))))"
proof -
  note words = alloc_words [OF st hint]
  note D = log_stateD [OF st]
  have nr: "(if (255 :: u64) < of_nat (cells_needed a hint) then 255 else of_nat (cells_needed a hint) :: u64) = of_nat nr"
    using of_nat_u64_less [of 255 "cells_needed a hint"] words(3) by (simp add: nr_def min_def)
  have n: "nr < 256" by (simp add: nr_def)
  have av: "(of_nat (total_cells a) :: u64) - of_nat (cells bs1) = of_nat (cells bs2)"
    unfolding D(6) [symmetric] by simp
  have b: "cells bs2 < 2 ^ 64" "f < 2 ^ 64" using D(6,8) search_sum [OF sf] by simp_all
  have g: "(of_nat (cells bs2) :: u64) < of_nat nr \<longleftrightarrow> cells bs2 < nr" "(of_nat f :: u64) < of_nat nr \<longleftrightarrow> f < nr"
    using b n by (intro of_nat_u64_less; simp)+
  have rc: "ch_refcnt m (hdr a (cells bs1)) = Some (of_nat (snd (hd bs2)))" "(of_nat (snd (hd bs2)) :: u8) = 0 \<longleftrightarrow> snd (hd bs2) = 0"
    using D(9) of_nat_u8_0 [OF D(10)] by simp_all
  have sr: "prepare_search m a (of_nat (cells bs2)) (of_nat (cells bs1)) (of_nat nr) 0 =
      (if rest = [] \<and> nr < f then None else Some (of_nat f, False))"
    using search_tiled [OF D(1) _ past _ _ _ sf, of "cells bs1" "of_nat (cells bs2)"] sg n D(2,6) by auto
  have hd: "a\<lparr>la_log_head := of_nat (cells bs1)\<rparr> = a" using D(5) by simp
  have uc: "ucast (of_nat nr :: u64) = (of_nat nr :: u8)" using n by (rule ucast_of_nat_u64)
  show ?thesis
    unfolding logalloc_prepare_region_def option.case Let_def words(2,5) D(5) nr av g words(6)
    using hint(1) words(1) rc
    by (auto simp: sr g hd words(6) uc store_header [OF D(1,7)] user_ptr_def)
qed

text \<open>The cells that were found, from the log head on, become the placeholder and chunks.\<close>

lemma cut_blocks:
  assumes st: "log_state m a bs1 bs2" and sg: "seg m a (cells bs1) bs2"
    and sf: "search_free nr 0 bs2 = (f, rest)" and n: "0 < nr" "nr < 256" "nr \<le> f"
  shows "\<exists>m'. prepare_split (put_hdr m a (cells bs1) (of_nat nr) 0) a (of_nat (cells bs1)) (of_nat nr) (of_nat (f - nr)) = Some m' \<and>
    log_state m' a bs1 ((nr, 0) # chunks (f - nr) @ rest)"
proof -
  note D = log_stateD [OF st]
  have fs: "f + cells rest = cells bs2" using search_sum [OF sf] by simp
  let ?m = "put_hdr m a (cells bs1) (of_nat nr) 0" and ?pre = "bs1 @ [(nr, 0)]"
  have ok: "region_ok ?m a" using D(1) by simp
  have sg1: "seg ?m a 0 ?pre" using seg_put_block [OF D(1,3) n(1,2), of 0] n(3) fs D(6) by simp
  have "tiled m a (cells bs1 + f) rest" using seg_tiled [OF search_seg [OF sf, of m a "cells bs1"]] sg fs D(6) by simp
  then have t: "tiled ?m a (cells bs1 + nr + (f - nr)) rest"
    using tiled_put_hdr [OF D(1), of "cells bs1" "cells bs1 + f" rest] n fs D(6) by simp
  have c: "cells ?pre = cells bs1 + nr" "cells bs1 + nr + (f - nr) + cells rest = total_cells a"
    using n(3) fs D(6) by simp_all
  obtain m' where m': "prepare_split ?m a (of_nat (cells bs1)) (of_nat nr) (of_nat (f - nr)) = Some m'" "region_ok m' a"
    "seg m' a 0 (?pre @ chunks (f - nr))" "tiled m' a (cells bs1 + nr + (f - nr)) rest"
    using split_tiled [OF ok sg1 c t] by blast
  have "tiled m' a 0 ((?pre @ chunks (f - nr)) @ rest)"
  proof (cases "rest = []")
    case True
    then show ?thesis using seg_tiled [OF m'(3)] c by simp
  next
    case False
    then show ?thesis
      using tiled_append [OF False, of m' a 0 "?pre @ chunks (f - nr)"] m'(3,4) by (simp add: add.assoc)
  qed
  then have "log_state m' a bs1 ((nr, 0) # chunks (f - nr) @ rest)"
    using m'(2) D(5) by (intro log_stateI) simp_all
  then show ?thesis using m'(1) by blast
qed

text \<open>Claim C38. Preparing a region when the log head is at blocks with a size of their own. The code merges free blocks only
  while it has found more cells than requested. So a first block that is too small is refused although the next ones may be
  free, and a first block that is larger is merged with all the free blocks behind it; if these reach the end of the region,
  the code reads a header behind it. Otherwise the request, cut to 255 cells, becomes a placeholder, the
  other cells found become free blocks of at most 255 cells, and all other blocks stay.\<close>

theorem logalloc_prepare_region_blocks:
  assumes "log_state m a bs1 bs2" "seg m a (cells bs1) bs2"
    and "hint \<noteq> 0" "unat hint + unat (la_cell_size a) - 1 < 2 ^ 64"
    and "ch_refcnt m (la_rgn a + la_region_size a) = None"
  defines "nr \<equiv> min 255 (cells_needed a hint)"
  assumes "search_free nr 0 bs2 = (f, rest)"
  shows "if cells bs2 < nr \<or> snd (hd bs2) \<noteq> 0 \<or> f < nr
    then logalloc_prepare_region m (Some a) hint (Some p) (Some q) = Some (A_E_NOMEM, m, Some a, Some p, Some q)
    else if rest = [] \<and> nr < f then logalloc_prepare_region m (Some a) hint (Some p) (Some q) = None
    else \<exists>m'. logalloc_prepare_region m (Some a) hint (Some p) (Some q) =
        Some (A_OK, m', Some a, Some (user_ptr a (cells bs1)), Some (of_nat nr * la_cell_size a)) \<and>
      log_state m' a bs1 ((nr, 0) # chunks (f - nr) @ rest)"
proof -
  note unf = prepare_blocks_unfold [OF assms(1-5) assms(7) [unfolded nr_def], folded nr_def, of p q]
  have n: "0 < nr" "nr < 256" using alloc_words(4) [OF assms(1,3,4)] by (simp_all add: nr_def)
  consider "cells bs2 < nr \<or> snd (hd bs2) \<noteq> 0 \<or> f < nr"
    | "\<not> (cells bs2 < nr \<or> snd (hd bs2) \<noteq> 0 \<or> f < nr)" "rest = [] \<and> nr < f"
    | "\<not> (cells bs2 < nr \<or> snd (hd bs2) \<noteq> 0 \<or> f < nr)" "\<not> (rest = [] \<and> nr < f)" by blast
  then show ?thesis
  proof cases
    case 1
    then show ?thesis unfolding unf by (simp only: if_True)
  next
    case 2
    then show ?thesis unfolding unf by (elim conjE) simp
  next
    case 3
    then have le: "nr \<le> f" by simp
    show ?thesis using cut_blocks [OF assms(1,2,7) n le] 3
      unfolding unf of_nat_u64_diff [OF le] by (simp only: if_False) (elim exE conjE, simp)
  qed
qed

text \<open>A log of free blocks of three and two cells and an object of three cells: a request for one cell succeeds and takes
  both blocks apart, a request for four cells is refused.\<close>

definition demo_blocks :: byte_mem where
  "demo_blocks = put_hdr (put_hdr (put_hdr demo_mem demo_log 0 3 0) demo_log 3 2 0) demo_log 5 3 1"

lemma demo_blocks_seg: "region_ok demo_blocks demo_log" "seg demo_blocks demo_log 0 [(3, 0), (2, 0), (3, 1)]"
proof -
  have ok: "region_ok demo_mem demo_log" using log_stateD(1) [OF demo_fresh(1)] .
  then show "region_ok demo_blocks demo_log" by (simp add: demo_blocks_def demo_fresh(3))
  have "seg (put_hdr demo_mem demo_log 0 3 0) demo_log 0 [(3, 0)]"
    using seg_put_block [OF ok, of "[]" 3 0] by (simp add: demo_fresh(3))
  then have "seg (put_hdr (put_hdr demo_mem demo_log 0 3 0) demo_log 3 2 0) demo_log 0 [(3, 0), (2, 0)]"
    using seg_put_block [of "put_hdr demo_mem demo_log 0 3 0" demo_log "[(3, 0)]" 2 0] ok by (simp add: demo_fresh(3))
  then show "seg demo_blocks demo_log 0 [(3, 0), (2, 0), (3, 1)]"
    using seg_put_block [of "put_hdr (put_hdr demo_mem demo_log 0 3 0) demo_log 3 2 0" demo_log "[(3, 0), (2, 0)]" 3 1] ok
    by (simp add: demo_fresh(3) demo_blocks_def)
qed

lemma demo_blocks_log: "log_state demo_blocks demo_log [] [(3, 0), (2, 0), (3, 1)]"
  using demo_blocks_seg seg_tiled [OF demo_blocks_seg(2)] log_stateD(5) [OF demo_fresh(1)]
  by (intro log_stateI) (simp_all add: demo_fresh(3))

lemma demo_blocks_end: "ch_refcnt demo_blocks (la_rgn demo_log + la_region_size demo_log) = None"
  by (simp add: demo_blocks_def put_hdr_def hdr_def ch_refcnt_def load_u8_def demo_mem_def map_zero_def demo_log_def)

theorem logalloc_prepare_region_blocks_witness:
  "(\<exists>m'. logalloc_prepare_region demo_blocks (Some demo_log) 4 (Some NULL) (Some 0) =
       Some (A_OK, m', Some demo_log, Some (user_ptr demo_log 0), Some 4) \<and>
     log_state m' demo_log [] [(1, 0), (4, 0), (3, 1)]) \<and>
   logalloc_prepare_region demo_blocks (Some demo_log) 16 (Some NULL) (Some 0) =
     Some (A_E_NOMEM, demo_blocks, Some demo_log, Some NULL, Some 0)"
proof -
  have c: "cells_needed demo_log 4 = 1" "cells_needed demo_log 16 = 4" "chunks 4 = [(4, 0)]"
    by (simp_all add: cells_needed_def demo_log_def chunks.simps)
  note p = logalloc_prepare_region_blocks [OF demo_blocks_log _ _ _ demo_blocks_end]
  show ?thesis
    using p [of 4 5 "[(3, 1)]" NULL 0] p [of 16 3 "[(2, 0), (3, 1)]" NULL 0] demo_blocks_seg(2) by (simp add: c demo_cells)
qed

end
