(* ===== verification/Config_Engine.thy ===== *)
theory Config_Engine
  imports TSL_Result
begin

section \<open>Configuration engine (tsl/config/engine.h, tsl/config/engine.c)\<close>

text \<open>
  A configuration is a JSON object; items are addressed by paths with dots. The JSON library (jansson) is
  third-party code: a record of its operations is an argument of the definitions, over a type \<open>'j\<close> of JSON
  values and a type \<open>'r\<close> of floating-point numbers. The laws of its documentation that the code relies on are
  the locale \<open>jansson_docs\<close>. A JSON value is a value of the model, not a shared object: \<open>config_add\<close> changes
  the configuration it is given.
\<close>

subsection \<open>The JSON library\<close>

datatype json_type = JSON_OBJECT | JSON_ARRAY | JSON_STRING | JSON_INTEGER | JSON_REAL | JSON_TRUE | JSON_FALSE | JSON_NULL

record ('j, 'r) jansson =
  json_typeof :: "'j \<Rightarrow> json_type"
  json_integer_value :: "'j \<Rightarrow> int"
  json_string_value :: "'j \<Rightarrow> string"
  json_real_value :: "'j \<Rightarrow> 'r"
  json_object_get :: "'j \<Rightarrow> string \<Rightarrow> 'j option"
  json_object_update :: "'j \<Rightarrow> 'j \<Rightarrow> bool \<times> 'j"
  json_array_size :: "'j \<Rightarrow> nat"
  json_array_get :: "'j \<Rightarrow> nat \<Rightarrow> 'j option"
  json_load_file :: "string \<Rightarrow> 'j option"
  json_loads :: "string \<Rightarrow> 'j option"
  json_dumps :: "'j \<Rightarrow> string option"

text \<open>\<open>json_object_update\<close> gives its verdict and the object afterwards (a failed merge may have changed it);
  \<open>json_real_value\<close> is already rounded to the member's type.

  The library functions accept a NULL value.\<close>

definition object_get :: "('j, 'r) jansson \<Rightarrow> 'j option \<Rightarrow> string \<Rightarrow> 'j option" where
  "object_get J item key = (case item of None \<Rightarrow> None | Some j \<Rightarrow> json_object_get J j key)"

definition json_is_array :: "('j, 'r) jansson \<Rightarrow> 'j option \<Rightarrow> bool" where
  "json_is_array J item \<longleftrightarrow> (case item of None \<Rightarrow> False | Some j \<Rightarrow> json_typeof J j = JSON_ARRAY)"

subsection \<open>Atoms\<close>

datatype config_atom_type =
  CONFIG_ATOM_INTEGER | CONFIG_ATOM_STRING | CONFIG_ATOM_ARRAY | CONFIG_ATOM_NESTED
| CONFIG_ATOM_BOOLEAN | CONFIG_ATOM_FLOAT | CONFIG_ATOM_NULL

text \<open>The union of \<open>struct config\<close>: the member that was stored last. Reading another member is a fault, also reading
  \<open>atom_nested\<close> when \<open>atom_array\<close> was stored: both are pointers, but C does not say that one may be read as the other.\<close>

datatype ('j, 'r) atom_value =
  Atom_String string | Atom_Array "'j option" | Atom_Nested "'j option" | Atom_Integer int | Atom_Bool bool
| Atom_Float 'r | Atom_Unset

record ('j, 'r) config =
  atom_type :: config_atom_type
  atom_value :: "('j, 'r) atom_value"

definition atom_nested :: "('j, 'r) config \<Rightarrow> 'j option option" where
  "atom_nested cfg = (case atom_value cfg of Atom_Nested j \<Rightarrow> Some j | _ \<Rightarrow> None)"

definition atom_array :: "('j, 'r) config \<Rightarrow> 'j option option" where
  "atom_array cfg = (case atom_value cfg of Atom_Array j \<Rightarrow> Some j | _ \<Rightarrow> None)"

text \<open>The conversion of a 64-bit JSON integer to \<open>int\<close>.\<close>

definition to_int :: "int \<Rightarrow> int" where
  "to_int v = sint (word_of_int v :: 32 word)"

text \<open>\<open>__config_from_json\<close>\<close>

definition config_from_json ::
  "('j, 'r) jansson \<Rightarrow> ('j, 'r) config option \<Rightarrow> 'j option \<Rightarrow> aresult_t \<times> ('j, 'r) config option" where
  "config_from_json J atom json =
     (case (atom, json) of
        (Some a, Some j) \<Rightarrow>
          (A_OK, Some
            (case json_typeof J j of
               JSON_ARRAY \<Rightarrow> a\<lparr>atom_type := CONFIG_ATOM_ARRAY, atom_value := Atom_Array (Some j)\<rparr>
             | JSON_INTEGER \<Rightarrow> a\<lparr>atom_type := CONFIG_ATOM_INTEGER, atom_value := Atom_Integer (to_int (json_integer_value J j))\<rparr>
             | JSON_STRING \<Rightarrow> a\<lparr>atom_type := CONFIG_ATOM_STRING, atom_value := Atom_String (json_string_value J j)\<rparr>
             | JSON_TRUE \<Rightarrow> a\<lparr>atom_type := CONFIG_ATOM_BOOLEAN, atom_value := Atom_Bool True\<rparr>
             | JSON_FALSE \<Rightarrow> a\<lparr>atom_type := CONFIG_ATOM_BOOLEAN, atom_value := Atom_Bool False\<rparr>
             | JSON_REAL \<Rightarrow> a\<lparr>atom_type := CONFIG_ATOM_FLOAT, atom_value := Atom_Float (json_real_value J j)\<rparr>
             | JSON_NULL \<Rightarrow> a\<lparr>atom_type := CONFIG_ATOM_NULL\<rparr>
             | JSON_OBJECT \<Rightarrow> a\<lparr>atom_type := CONFIG_ATOM_NESTED, atom_value := Atom_Nested (Some j)\<rparr>))
      | _ \<Rightarrow> (A_E_BADARGS, atom))"

subsection \<open>Lifecycle\<close>

text \<open>\<open>alloc_ok\<close>: whether \<open>calloc\<close> succeeds; \<open>obj\<close>: the result of \<open>json_object\<close>.\<close>

definition config_new ::
  "bool \<Rightarrow> 'j option \<Rightarrow> ('j, 'r) config option option \<Rightarrow> aresult_t \<times> ('j, 'r) config option option" where
  "config_new alloc_ok obj pcfg =
     (case pcfg of
        None \<Rightarrow> (A_E_BADARGS, None)
      | Some _ \<Rightarrow>
          if \<not> alloc_ok then (A_E_NOMEM, Some None)
          else case obj of
            None \<Rightarrow> (A_E_NOMEM, Some None)
          | Some j \<Rightarrow> (A_OK, Some (Some \<lparr>atom_type = CONFIG_ATOM_NESTED, atom_value = Atom_Nested (Some j)\<rparr>)))"

text \<open>The common part of \<open>config_add\<close> and \<open>config_add_string\<close>: merge the parsed document into the object.\<close>

definition config_merge ::
  "('j, 'r) jansson \<Rightarrow> ('j, 'r) config \<Rightarrow> 'j \<Rightarrow> 'j option \<Rightarrow> aresult_t \<times> ('j, 'r) config" where
  "config_merge J c root doc =
     (case doc of
        None \<Rightarrow> (A_E_INVAL, c)
      | Some d \<Rightarrow>
          let (ok, root) = json_object_update J root d
          in (if ok then A_OK else A_E_INVAL, c\<lparr>atom_value := Atom_Nested (Some root)\<rparr>))"

definition config_add ::
  "('j, 'r) jansson \<Rightarrow> ('j, 'r) config option \<Rightarrow> string option \<Rightarrow> (aresult_t \<times> ('j, 'r) config option) option" where
  "config_add J cfg filename =
     (case (cfg, filename) of
        (Some c, Some fn) \<Rightarrow>
          if fn = [] then Some (A_E_BADARGS, cfg)
          else if atom_type c \<noteq> CONFIG_ATOM_NESTED then Some (A_E_INVAL, cfg)
          else do {
            nested \<leftarrow> atom_nested c;
            case nested of
              None \<Rightarrow> Some (A_E_BADARGS, cfg)
            | Some root \<Rightarrow> let (ret, c) = config_merge J c root (json_load_file J fn) in Some (ret, Some c) }
      | _ \<Rightarrow> Some (A_E_BADARGS, cfg))"

definition config_add_string ::
  "('j, 'r) jansson \<Rightarrow> ('j, 'r) config option \<Rightarrow> string option \<Rightarrow> (aresult_t \<times> ('j, 'r) config option) option" where
  "config_add_string J cfg json_string =
     (case (cfg, json_string) of
        (Some c, Some s) \<Rightarrow>
          if s = [] then Some (A_E_BADARGS, cfg)
          else if atom_type c \<noteq> CONFIG_ATOM_NESTED then Some (A_E_INVAL, cfg)
          else do {
            nested \<leftarrow> atom_nested c;
            case nested of
              None \<Rightarrow> Some (A_E_BADARGS, cfg)
            | Some root \<Rightarrow> let (ret, c) = config_merge J c root (json_loads J s) in Some (ret, Some c) }
      | _ \<Rightarrow> Some (A_E_BADARGS, cfg))"

definition config_delete :: "('j, 'r) config option option \<Rightarrow> aresult_t \<times> ('j, 'r) config option option" where
  "config_delete pcfg =
     (case pcfg of
        Some (Some cfg) \<Rightarrow> if atom_type cfg \<noteq> CONFIG_ATOM_NESTED then (A_E_BADARGS, pcfg) else (A_OK, Some None)
      | _ \<Rightarrow> (A_E_BADARGS, pcfg))"

definition config_serialize ::
  "('j, 'r) jansson \<Rightarrow> ('j, 'r) config option \<Rightarrow> string option option \<Rightarrow> (aresult_t \<times> string option option) option" where
  "config_serialize J cfg out =
     (case (cfg, out) of
        (Some c, Some _) \<Rightarrow>
          do { nested \<leftarrow> atom_nested c;
               case Option.bind nested (json_dumps J) of
                 None \<Rightarrow> Some (A_E_NOMEM, Some None)
               | Some ser \<Rightarrow> Some (A_OK, Some (Some ser)) }
      | _ \<Rightarrow> Some (A_E_BADARGS, out))"

subsection \<open>Lookup\<close>

text \<open>The loop of \<open>config_get\<close>. The C string from \<open>current_pos\<close> is \<open>pos\<close>; \<open>strchr\<close> and the NUL it is overwritten
  with cut off the part up to the first dot. The loop ends when nothing is left.\<close>

function config_walk :: "('j, 'r) jansson \<Rightarrow> 'j option \<Rightarrow> string \<Rightarrow> 'j option" where
  "config_walk J item pos =
     (let key = takeWhile (\<lambda>c. c \<noteq> CHR ''.'') pos;
          next_pos = drop (Suc (length key)) pos
      in if pos = [] then item
         else case object_get J item key of
           None \<Rightarrow> None
         | Some i \<Rightarrow> config_walk J (Some i) next_pos)"
  by pat_completeness auto
termination
  by (relation "measure (\<lambda>(J, item, pos). length pos)") auto

declare config_walk.simps [simp del]

text \<open>\<open>dup_ok\<close>: whether \<open>strdup\<close> succeeds.\<close>

definition config_get ::
  "('j, 'r) jansson \<Rightarrow> bool \<Rightarrow> ('j, 'r) config option \<Rightarrow> ('j, 'r) config option \<Rightarrow> string option \<Rightarrow>
   (aresult_t \<times> ('j, 'r) config option) option" where
  "config_get J dup_ok cfg atm item_id =
     (case (cfg, atm, item_id) of
        (Some c, Some a, Some path) \<Rightarrow>
          if path = [] then Some (A_E_BADARGS, atm)
          else if \<not> dup_ok then Some (A_E_NOMEM, atm)
          else do {
            item \<leftarrow> atom_nested c;
            case config_walk J item path of
              None \<Rightarrow> Some (A_E_NOTFOUND, atm)
            | Some j \<Rightarrow> Some (config_from_json J atm (Some j)) }
      | _ \<Rightarrow> Some (A_E_BADARGS, atm))"

text \<open>An uninitialised local \<open>struct config\<close>.\<close>

definition config_local :: "('j, 'r) config" where
  "config_local = \<lparr>atom_type = CONFIG_ATOM_NULL, atom_value = Atom_Unset\<rparr>"

text \<open>The typed getters: \<open>val\<close> is the content of the out-parameter. An item of another type leaves it unchanged.\<close>

definition config_get_integer ::
  "('j, 'r) jansson \<Rightarrow> bool \<Rightarrow> ('j, 'r) config option \<Rightarrow> int option \<Rightarrow> string option \<Rightarrow> (aresult_t \<times> int option) option" where
  "config_get_integer J dup_ok cfg val item_id =
     (case (cfg, val) of
        (Some c, Some v) \<Rightarrow>
          do { (ret, atm) \<leftarrow> config_get J dup_ok cfg (Some config_local) item_id;
               if AFAILED ret then Some (ret, val)
               else case map_option (\<lambda>a. (atom_type a, atom_value a)) atm of
                 Some (CONFIG_ATOM_INTEGER, Atom_Integer i) \<Rightarrow> Some (ret, Some i)
               | _ \<Rightarrow> Some (ret, val) }
      | _ \<Rightarrow> Some (A_E_BADARGS, val))"

definition config_get_boolean ::
  "('j, 'r) jansson \<Rightarrow> bool \<Rightarrow> ('j, 'r) config option \<Rightarrow> bool option \<Rightarrow> string option \<Rightarrow> (aresult_t \<times> bool option) option" where
  "config_get_boolean J dup_ok cfg val item_id =
     (case (cfg, val) of
        (Some c, Some v) \<Rightarrow>
          do { (ret, atm) \<leftarrow> config_get J dup_ok cfg (Some config_local) item_id;
               if AFAILED ret then Some (ret, val)
               else case map_option (\<lambda>a. (atom_type a, atom_value a)) atm of
                 Some (CONFIG_ATOM_BOOLEAN, Atom_Bool b) \<Rightarrow> Some (ret, Some b)
               | _ \<Rightarrow> Some (ret, val) }
      | _ \<Rightarrow> Some (A_E_BADARGS, val))"

definition config_get_string ::
  "('j, 'r) jansson \<Rightarrow> bool \<Rightarrow> ('j, 'r) config option \<Rightarrow> string option option \<Rightarrow> string option \<Rightarrow>
   (aresult_t \<times> string option option) option" where
  "config_get_string J dup_ok cfg val item_id =
     (case (cfg, val, item_id) of
        (Some c, Some v, Some path) \<Rightarrow>
          do { (ret, atm) \<leftarrow> config_get J dup_ok cfg (Some config_local) item_id;
               if AFAILED ret then Some (ret, val)
               else case map_option (\<lambda>a. (atom_type a, atom_value a)) atm of
                 Some (CONFIG_ATOM_STRING, Atom_String s) \<Rightarrow> Some (ret, Some (Some s))
               | _ \<Rightarrow> Some (ret, val) }
      | _ \<Rightarrow> Some (A_E_BADARGS, val))"

subsection \<open>Arrays\<close>

definition config_array_length ::
  "('j, 'r) jansson \<Rightarrow> ('j, 'r) config option \<Rightarrow> nat option \<Rightarrow> (aresult_t \<times> nat option) option" where
  "config_array_length J atm len =
     (case (atm, len) of
        (Some a, Some _) \<Rightarrow>
          if CONFIG_ATOM_ARRAY \<noteq> atom_type a then Some (A_E_INVAL, len)
          else do {
            arr \<leftarrow> atom_array a;
            if \<not> json_is_array J arr then Some (A_E_INVAL, len)
            else case arr of Some j \<Rightarrow> Some (A_OK, Some (json_array_size J j)) | None \<Rightarrow> None }
      | _ \<Rightarrow> Some (A_E_BADARGS, len))"

definition config_array_at ::
  "('j, 'r) jansson \<Rightarrow> ('j, 'r) config option \<Rightarrow> ('j, 'r) config option \<Rightarrow> nat \<Rightarrow>
   (aresult_t \<times> ('j, 'r) config option) option" where
  "config_array_at J array item index =
     (case (array, item) of
        (Some a, Some _) \<Rightarrow>
          if CONFIG_ATOM_ARRAY \<noteq> atom_type a then Some (A_E_INVAL, item)
          else do {
            arr \<leftarrow> atom_array a;
            if \<not> json_is_array J arr then Some (A_E_INVAL, item)
            else do {
              j \<leftarrow> arr;
              if json_array_size J j \<le> index then Some (A_E_INVAL, item)
              else case json_array_get J j index of
                None \<Rightarrow> Some (A_E_INVAL, item)
              | Some arr_item \<Rightarrow> Some (config_from_json J item (Some arr_item)) } }
      | _ \<Rightarrow> Some (A_E_BADARGS, item))"

definition config_array_at_integer ::
  "('j, 'r) jansson \<Rightarrow> ('j, 'r) config option \<Rightarrow> int option \<Rightarrow> nat \<Rightarrow> (aresult_t \<times> int option) option" where
  "config_array_at_integer J array item index =
     (case (array, item) of
        (Some a, Some _) \<Rightarrow>
          do { (ret, atm) \<leftarrow> config_array_at J array (Some config_local) index;
               if AFAILED ret then Some (ret, Some 0)
               else case map_option (\<lambda>a. (atom_type a, atom_value a)) atm of
                 Some (CONFIG_ATOM_INTEGER, Atom_Integer i) \<Rightarrow> Some (ret, Some i)
               | _ \<Rightarrow> Some (ret, Some 0) }
      | _ \<Rightarrow> Some (A_E_BADARGS, item))"

definition config_array_at_string ::
  "('j, 'r) jansson \<Rightarrow> ('j, 'r) config option \<Rightarrow> string option option \<Rightarrow> nat \<Rightarrow> (aresult_t \<times> string option option) option" where
  "config_array_at_string J array item index =
     (case (array, item) of
        (Some a, Some _) \<Rightarrow>
          do { (ret, atm) \<leftarrow> config_array_at J array (Some config_local) index;
               if AFAILED ret then Some (ret, Some None)
               else case map_option (\<lambda>a. (atom_type a, atom_value a)) atm of
                 Some (CONFIG_ATOM_STRING, Atom_String s) \<Rightarrow> Some (ret, Some (Some s))
               | _ \<Rightarrow> Some (ret, Some None) }
      | _ \<Rightarrow> Some (A_E_BADARGS, item))"

text \<open>\<open>__CONFIG_GET_PREFIX\<close>: a getter \<open>which\<close> applied to the path \<open>prefix.item_id\<close>; \<open>alloc_ok\<close> says whether the path
  could be allocated.\<close>

definition CONFIG_GET_PREFIX ::
  "(string \<Rightarrow> (aresult_t \<times> 'v) option) \<Rightarrow> bool \<Rightarrow> 'v \<Rightarrow> string option \<Rightarrow> string \<Rightarrow> (aresult_t \<times> 'v) option" where
  "CONFIG_GET_PREFIX which alloc_ok tgt prefix item_id =
     (let xpath = (case prefix of Some p \<Rightarrow> p @ ''.'' @ item_id | None \<Rightarrow> item_id)
      in if \<not> alloc_ok then Some (A_E_NOMEM, tgt) else which xpath)"

subsection \<open>Paths\<close>

text \<open>The specification of lookup: one step per component of the path.\<close>

fun lookup_path :: "('j, 'r) jansson \<Rightarrow> 'j option \<Rightarrow> string list \<Rightarrow> 'j option" where
  "lookup_path J item [] = item"
| "lookup_path J item (k # ks) = (case object_get J item k of None \<Rightarrow> None | Some i \<Rightarrow> lookup_path J (Some i) ks)"

fun join_path :: "string list \<Rightarrow> string" where
  "join_path [] = []"
| "join_path [k] = k"
| "join_path (k # ks) = k @ CHR ''.'' # join_path ks"

definition path_components :: "string list \<Rightarrow> bool" where
  "path_components ks \<longleftrightarrow> ks \<noteq> [] \<and> (\<forall>k \<in> set ks. CHR ''.'' \<notin> set k) \<and> last ks \<noteq> []"

lemma takeWhile_dot: "CHR ''.'' \<notin> set k \<Longrightarrow> takeWhile (\<lambda>c. c \<noteq> CHR ''.'') (k @ CHR ''.'' # r) = k"
  by (subst takeWhile_append2) auto

lemma takeWhile_no_dot: "CHR ''.'' \<notin> set k \<Longrightarrow> takeWhile (\<lambda>c. c \<noteq> CHR ''.'') k = k"
  by (auto simp: takeWhile_eq_all_conv)

lemma join_path_nonempty: "path_components ks \<Longrightarrow> join_path ks \<noteq> []"
  by (cases ks rule: join_path.cases) (auto simp: path_components_def)

lemma config_walk_path:
  "path_components ks \<Longrightarrow> config_walk J item (join_path ks) = lookup_path J item ks"
proof (induction ks arbitrary: item rule: join_path.induct)
  case 1
  then show ?case by (simp add: path_components_def)
next
  case (2 k)
  then have k: "CHR ''.'' \<notin> set k" "k \<noteq> []" by (auto simp: path_components_def)
  have "config_walk J i [] = i" for i by (simp add: config_walk.simps)
  then show ?case
    using k by (subst config_walk.simps) (auto simp: takeWhile_no_dot split: option.split)
next
  case (3 k k' ks)
  then have k: "CHR ''.'' \<notin> set k" "path_components (k' # ks)" by (auto simp: path_components_def)
  have "drop (Suc (length k)) (k @ CHR ''.'' # join_path (k' # ks)) = join_path (k' # ks)" by simp
  then show ?case
    using 3(1) [OF k(2)] k(1) by (subst config_walk.simps) (auto simp: takeWhile_dot Let_def split: option.split)
qed

text \<open>A path with a prefix is the path of the prefix followed by the path of the item.\<close>

lemma join_path_append: "ks \<noteq> [] \<Longrightarrow> ls \<noteq> [] \<Longrightarrow> join_path (ks @ ls) = join_path ks @ ''.'' @ join_path ls"
proof (induction ks rule: join_path.induct)
  case (2 k)
  then show ?case by (cases ls) simp_all
qed simp_all

lemma lookup_path_append:
  "lookup_path J item (ks @ ls) = (case lookup_path J item ks of None \<Rightarrow> lookup_path J None ls | Some i \<Rightarrow> lookup_path J (Some i) ls)"
  by (induction ks arbitrary: item) (auto split: option.split simp: object_get_def; cases ls; simp add: object_get_def)+

subsection \<open>What the JSON library documents\<close>

locale jansson_docs =
  fixes J :: "('j, 'r) jansson"
  assumes get_non_object: "json_typeof J j \<noteq> JSON_OBJECT \<Longrightarrow> json_object_get J j k = None"
    and update_object: "json_object_update J root doc = (True, j) \<Longrightarrow> json_typeof J j = JSON_OBJECT"
    and update_get: "json_object_update J root doc = (True, j) \<Longrightarrow>
      json_object_get J j k = (case json_object_get J doc k of None \<Rightarrow> json_object_get J root k | Some v \<Rightarrow> Some v)"
    and array_get: "json_typeof J j = JSON_ARRAY \<Longrightarrow> i < json_array_size J j \<Longrightarrow> json_array_get J j i \<noteq> None"
begin

text \<open>After a merge, a path whose first component the new document has leads into the document, every other
  path leads where it led before.\<close>

lemma lookup_after_update:
  assumes "json_object_update J root doc = (True, j)" "ks \<noteq> []"
  shows "lookup_path J (Some j) ks =
    (if json_object_get J doc (hd ks) = None then lookup_path J (Some root) ks else lookup_path J (Some doc) ks)"
  using assms(2) update_get [OF assms(1)] by (cases ks) (auto simp: object_get_def split: option.split)

text \<open>Looking below an item that is not an object finds nothing.\<close>

lemma lookup_below_leaf:
  assumes "lookup_path J item ks = Some j" "json_typeof J j \<noteq> JSON_OBJECT" "ls \<noteq> []"
  shows "lookup_path J item (ks @ ls) = None"
  using assms get_non_object by (cases ls) (simp_all add: lookup_path_append object_get_def)

end

text \<open>JSON values as trees: the values the documentation of the library describes. Reading text is not part
  of it: the two loaders know the documents of a given association list.\<close>

datatype json =
  JObject "(string \<times> json) list" | JArray "json list" | JString string | JInteger int | JReal int | JTrue | JFalse | JNull

fun tree_typeof :: "json \<Rightarrow> json_type" where
  "tree_typeof (JObject _) = JSON_OBJECT" | "tree_typeof (JArray _) = JSON_ARRAY" | "tree_typeof (JString _) = JSON_STRING"
| "tree_typeof (JInteger _) = JSON_INTEGER" | "tree_typeof (JReal _) = JSON_REAL" | "tree_typeof JTrue = JSON_TRUE"
| "tree_typeof JFalse = JSON_FALSE" | "tree_typeof JNull = JSON_NULL"

fun tree_object_get :: "json \<Rightarrow> string \<Rightarrow> json option" where
  "tree_object_get (JObject kvs) k = map_of kvs k"
| "tree_object_get _ k = None"

fun tree_object_update :: "json \<Rightarrow> json \<Rightarrow> bool \<times> json" where
  "tree_object_update (JObject kvs) (JObject new) = (True, JObject (new @ kvs))"
| "tree_object_update root _ = (False, root)"

definition json_trees :: "(string \<times> json) list \<Rightarrow> (json, int) jansson" where
  "json_trees docs =
     \<lparr>json_typeof = tree_typeof,
      json_integer_value = (\<lambda>j. case j of JInteger i \<Rightarrow> i | _ \<Rightarrow> 0),
      json_string_value = (\<lambda>j. case j of JString s \<Rightarrow> s | _ \<Rightarrow> []),
      json_real_value = (\<lambda>j. case j of JReal r \<Rightarrow> r | _ \<Rightarrow> 0),
      json_object_get = tree_object_get,
      json_object_update = tree_object_update,
      json_array_size = (\<lambda>j. case j of JArray js \<Rightarrow> length js | _ \<Rightarrow> 0),
      json_array_get = (\<lambda>j i. case j of JArray js \<Rightarrow> if i < length js then Some (js ! i) else None | _ \<Rightarrow> None),
      json_load_file = map_of docs,
      json_loads = map_of docs,
      json_dumps = (\<lambda>j. None)\<rparr>"

interpretation trees: jansson_docs "json_trees docs" for docs
proof unfold_locales
  fix j k assume "json_typeof (json_trees docs) j \<noteq> JSON_OBJECT"
  then show "json_object_get (json_trees docs) j k = None" by (cases j) (simp_all add: json_trees_def)
next
  fix root doc j assume "json_object_update (json_trees docs) root doc = (True, j)"
  then show "json_typeof (json_trees docs) j = JSON_OBJECT"
    by (cases root; cases doc) (auto simp: json_trees_def)
next
  fix root doc j k assume "json_object_update (json_trees docs) root doc = (True, j)"
  then show "json_object_get (json_trees docs) j k = (case json_object_get (json_trees docs) doc k of
      None \<Rightarrow> json_object_get (json_trees docs) root k | Some v \<Rightarrow> Some v)"
    by (cases root; cases doc) (auto simp: json_trees_def map_add_def split: option.split)
next
  fix j i assume "json_typeof (json_trees docs) j = JSON_ARRAY" "i < json_array_size (json_trees docs) j"
  then show "json_array_get (json_trees docs) j i \<noteq> None" by (cases j) (simp_all add: json_trees_def)
qed

subsection \<open>Properties\<close>

text \<open>A configuration object with a given JSON root.\<close>

definition config_root :: "'j \<Rightarrow> ('j, 'r) config" where
  "config_root root = \<lparr>atom_type = CONFIG_ATOM_NESTED, atom_value = Atom_Nested (Some root)\<rparr>"

lemma atom_nested_root [simp]: "atom_nested (config_root root) = Some (Some root)"
  by (simp add: config_root_def atom_nested_def)

lemma atom_type_root [simp]: "atom_type (config_root root) = CONFIG_ATOM_NESTED"
  by (simp add: config_root_def)

lemma config_get_root:
  assumes "path_components ks"
  shows "config_get J True (Some (config_root root)) (Some a) (Some (join_path ks)) =
    Some (case lookup_path J (Some root) ks of None \<Rightarrow> (A_E_NOTFOUND, Some a) | Some j \<Rightarrow> config_from_json J (Some a) (Some j))"
  using join_path_nonempty [OF assms]
  by (auto simp: config_get_def config_walk_path [OF assms] split: option.split)

lemma config_from_json_ok: "fst (config_from_json J (Some a) (Some j)) = A_OK"
  by (simp add: config_from_json_def)

lemma config_get_integer_root:
  assumes "path_components ks"
  shows "config_get_integer J True (Some (config_root root)) (Some v) (Some (join_path ks)) =
    Some (case lookup_path J (Some root) ks of
            None \<Rightarrow> (A_E_NOTFOUND, Some v)
          | Some j \<Rightarrow> (A_OK, Some (if json_typeof J j = JSON_INTEGER then to_int (json_integer_value J j) else v)))"
proof (cases "lookup_path J (Some root) ks")
  case None
  then show ?thesis by (simp add: config_get_integer_def config_get_root [OF assms])
next
  case (Some j)
  then show ?thesis
    by (cases "json_typeof J j")
      (simp_all add: config_get_integer_def config_get_root [OF assms] config_from_json_def config_local_def)
qed

lemma to_int_range: "- (2 ^ 31) \<le> to_int v" "to_int v < 2 ^ 31"
  unfolding to_int_def using sint_range_size [of "word_of_int v :: 32 word"] by (simp_all add: word_size)

text \<open>Claim C27. Looking up the path that joins a list of components with dots walks the JSON tree one component
  at a time: \<open>config_get\<close> reports A_E_NOTFOUND and leaves the atom alone when a component is missing, and otherwise
  fills the atom from the value that was reached. The in-place cutting of the path at dots is equivalent to the list walk.\<close>

theorem config_get_walks_path:
  assumes "path_components ks"
  shows "config_get J True (Some (config_root root)) (Some a) (Some (join_path ks)) =
    Some (case lookup_path J (Some root) ks of None \<Rightarrow> (A_E_NOTFOUND, Some a) | Some j \<Rightarrow> config_from_json J (Some a) (Some j))"
  using assms by (rule config_get_root)

theorem config_get_walks_path_witness:
  "config_get (json_trees []) True
     (Some (config_root (JObject [(''net'', JObject [(''port'', JInteger 80)])]))) (Some config_local) (Some ''net.port'') =
   Some (A_OK, Some \<lparr>atom_type = CONFIG_ATOM_INTEGER, atom_value = Atom_Integer 80\<rparr>)"
  using config_get_walks_path [of "[''net'', ''port'']" "json_trees []" "JObject [(''net'', JObject [(''port'', JInteger 80)])]" config_local]
  by (simp add: path_components_def json_trees_def object_get_def config_from_json_def config_local_def to_int_def)

text \<open>Claim C28. Adding a document to a configuration overrides by top-level key: afterwards a path whose first
  component is a key of the document is answered from the document alone, and every other path is answered as before.\<close>

theorem config_add_string_overrides:
  assumes jansson: "jansson_docs J" and parsed: "s \<noteq> []" "json_loads J s = Some doc"
    and merged: "fst (json_object_update J root doc)" and path: "path_components ks"
  shows "\<exists>root'. config_add_string J (Some (config_root root)) (Some s) = Some (A_OK, Some (config_root root')) \<and>
    config_get J True (Some (config_root root')) (Some a) (Some (join_path ks)) =
    config_get J True (Some (config_root (if json_object_get J doc (hd ks) = None then root else doc))) (Some a) (Some (join_path ks))"
proof (intro exI conjI)
  let ?r = "snd (json_object_update J root doc)"
  have upd: "json_object_update J root doc = (True, ?r)" using merged by (cases "json_object_update J root doc") simp
  show "config_add_string J (Some (config_root root)) (Some s) = Some (A_OK, Some (config_root ?r))"
    using parsed upd
    by (cases "json_object_update J root doc") (simp add: config_add_string_def config_merge_def config_root_def atom_nested_def)
  have "ks \<noteq> []" using path by (simp add: path_components_def)
  then show "config_get J True (Some (config_root ?r)) (Some a) (Some (join_path ks)) =
    config_get J True (Some (config_root (if json_object_get J doc (hd ks) = None then root else doc))) (Some a) (Some (join_path ks))"
    using jansson_docs.lookup_after_update [OF jansson upd] path by (simp add: config_get_root)
qed

theorem config_add_string_overrides_witness:
  "let J = json_trees [(''new'', JObject [(''a'', JTrue)])]
   in \<exists>root'. config_add_string J (Some (config_root (JObject [(''a'', JNull)]))) (Some ''new'') = Some (A_OK, Some (config_root root')) \<and>
      config_get J True (Some (config_root root')) (Some config_local) (Some ''a'') =
      config_get J True (Some (config_root (JObject [(''a'', JTrue)]))) (Some config_local) (Some ''a'')"
  using config_add_string_overrides
    [OF trees.jansson_docs_axioms, of "''new''" "[(''new'', JObject [(''a'', JTrue)])]" "JObject [(''a'', JTrue)]"
        "JObject [(''a'', JNull)]" "[''a'']" config_local]
  by (simp add: json_trees_def path_components_def)

text \<open>\<open>config_get_integer\<close> on every item: a missing item is A_E_NOTFOUND, an integer is delivered reduced to
  32 bits, and an item of any other type is answered with A_OK and the caller's variable untouched.\<close>

theorem config_get_integer_by_type:
  assumes "path_components ks"
  shows "config_get_integer J True (Some (config_root root)) (Some v) (Some (join_path ks)) =
    Some (case lookup_path J (Some root) ks of
            None \<Rightarrow> (A_E_NOTFOUND, Some v)
          | Some j \<Rightarrow> (A_OK, Some (if json_typeof J j = JSON_INTEGER then to_int (json_integer_value J j) else v)))"
  using assms by (rule config_get_integer_root)

theorem config_get_integer_by_type_witness:
  "config_get_integer (json_trees []) True (Some (config_root (JObject [(''a'', JString ''7'')]))) (Some 5) (Some ''a'') = Some (A_OK, Some 5)"
  using config_get_integer_by_type [of "[''a'']" "json_trees []" "JObject [(''a'', JString ''7'')]" 5]
  by (simp add: path_components_def json_trees_def object_get_def)

end
