(* ===== verification/Config_Types.thy ===== *)
theory Config_Types
  imports Config_Engine
begin

section \<open>Configuration atoms are tagged unions\<close>

text \<open>
  \<open>struct config\<close> is a tag and a union; reading the member that was not stored is a type error, which the model counts as
  a fault. Here the tag always says which member is stored, so that the faults happen only where a function does not look
  at the tag.
\<close>

definition int_range :: "int \<Rightarrow> bool" where
  "int_range i \<longleftrightarrow> - (2 ^ 31) \<le> i \<and> i < 2 ^ 31"

definition atom_typed :: "('j, 'r) jansson \<Rightarrow> ('j, 'r) config \<Rightarrow> bool" where
  "atom_typed J a \<longleftrightarrow>
     (case atom_type a of
        CONFIG_ATOM_INTEGER \<Rightarrow> \<exists>i. atom_value a = Atom_Integer i \<and> int_range i
      | CONFIG_ATOM_STRING \<Rightarrow> \<exists>s. atom_value a = Atom_String s
      | CONFIG_ATOM_ARRAY \<Rightarrow> \<exists>j. atom_value a = Atom_Array (Some j) \<and> json_typeof J j = JSON_ARRAY
      | CONFIG_ATOM_NESTED \<Rightarrow> \<exists>j. atom_value a = Atom_Nested (Some j) \<and> json_typeof J j = JSON_OBJECT
      | CONFIG_ATOM_BOOLEAN \<Rightarrow> \<exists>b. atom_value a = Atom_Bool b
      | CONFIG_ATOM_FLOAT \<Rightarrow> \<exists>r. atom_value a = Atom_Float r
      | CONFIG_ATOM_NULL \<Rightarrow> True)"

lemma from_json_typed: "atom_typed J a \<Longrightarrow> config_from_json J (Some a) json = (r, Some a') \<Longrightarrow> atom_typed J a'"
  using to_int_range
  by (auto simp: config_from_json_def atom_typed_def int_range_def split: option.splits json_type.splits)

lemma from_json_atom: "config_from_json J (Some a) (Some j) = (r, b) \<Longrightarrow> r = A_OK \<and> (\<exists>a'. b = Some a')"
  by (auto simp: config_from_json_def)

lemma typed_local [simp]: "atom_typed J config_local"
  by (simp add: atom_typed_def config_local_def)

lemma get_typed:
  "atom_typed J a \<Longrightarrow> config_get J dup_ok cfg (Some a) path = Some (r, Some a') \<Longrightarrow> atom_typed J a'"
  by (auto simp: config_get_def from_json_typed split: option.splits if_splits Option.bind_splits)

lemma array_at_typed:
  "atom_typed J a \<Longrightarrow> config_array_at J array (Some a) index = Some (r, Some a') \<Longrightarrow> atom_typed J a'"
  by (auto simp: config_array_at_def from_json_typed split: option.splits if_splits Option.bind_splits)

lemma container_json:
  "atom_typed J c \<Longrightarrow> atom_type c = CONFIG_ATOM_NESTED \<Longrightarrow> \<exists>j. atom_nested c = Some (Some j) \<and> json_typeof J j = JSON_OBJECT"
  "atom_typed J c \<Longrightarrow> atom_type c = CONFIG_ATOM_ARRAY \<Longrightarrow> \<exists>j. atom_array c = Some (Some j) \<and> json_typeof J j = JSON_ARRAY"
  by (auto simp: atom_typed_def atom_nested_def atom_array_def)

text \<open>\<open>config_get\<close> and \<open>config_serialize\<close> do not look at the tag.\<close>

lemma not_nested: "atom_typed J c \<Longrightarrow> atom_type c \<notin> {CONFIG_ATOM_NESTED, CONFIG_ATOM_NULL} \<Longrightarrow> atom_nested c = None"
  by (auto simp: atom_typed_def atom_nested_def split: config_atom_type.splits)

lemma get_returns:
  assumes "atom_typed J c" "atom_type c = CONFIG_ATOM_NESTED"
  shows "\<exists>r a'. config_get J dup_ok (Some c) (Some a) path = Some (r, Some a')" "config_serialize J (Some c) out \<noteq> None"
proof -
  obtain j where "atom_nested c = Some (Some j)" using assms container_json by blast
  then show "\<exists>r a'. config_get J dup_ok (Some c) (Some a) path = Some (r, Some a')" "config_serialize J (Some c) out \<noteq> None"
    by (auto simp: config_get_def config_from_json_def config_serialize_def split: option.split)
qed

lemma get_faults:
  assumes "atom_typed J c" "atom_type c \<notin> {CONFIG_ATOM_NESTED, CONFIG_ATOM_NULL}"
  shows "key \<noteq> [] \<Longrightarrow> config_get J True (Some c) (Some a) (Some key) = None" "config_serialize J (Some c) (Some ser) = None"
  using not_nested [OF assms] by (simp_all add: config_get_def config_serialize_def)

lemma array_at_returns:
  assumes "atom_typed J c"
  shows "\<exists>r a'. config_array_at J (Some c) (Some a) index = Some (r, Some a')"
  using container_json(2) [OF assms] by (auto simp: config_array_at_def json_is_array_def config_from_json_def split: option.split)

lemma merge_typed:
  assumes "jansson_docs J" "config_merge J c root doc = (A_OK, c')" "atom_type c = CONFIG_ATOM_NESTED"
  shows "atom_typed J c' \<and> atom_type c' = CONFIG_ATOM_NESTED"
  using assms jansson_docs.update_object [OF assms(1)]
  by (auto simp: config_merge_def atom_typed_def Let_def split: option.splits prod.splits if_splits)

lemma add_typed:
  assumes "jansson_docs J" "config_add J (Some c) file = Some (A_OK, Some c') \<or> config_add_string J (Some c) txt = Some (A_OK, Some c')"
  shows "atom_typed J c' \<and> atom_type c' = CONFIG_ATOM_NESTED"
  using assms(2) merge_typed [OF assms(1)]
  by (auto simp: config_add_def config_add_string_def split: option.splits if_splits Option.bind_splits prod.splits)

lemma add_returns:
  assumes "atom_typed J c"
  shows "config_add J (Some c) file \<noteq> None \<and> config_add_string J (Some c) txt \<noteq> None"
  using container_json(1) [OF assms]
  by (auto simp: config_add_def config_add_string_def split: option.split prod.split)

lemma get_integer_range:
  assumes "int_range v" "config_get_integer J dup_ok cfg (Some v) path = Some (r, Some v')"
  shows "int_range v'"
proof -
  have "int_range i" if "config_get J dup_ok cfg (Some config_local) path = Some (r', Some a')" "atom_type a' = CONFIG_ATOM_INTEGER"
    "atom_value a' = Atom_Integer i" for r' a' i
    using get_typed [OF typed_local that(1)] that(2,3) by (simp add: atom_typed_def)
  then show ?thesis using assms
    by (auto simp: config_get_integer_def split: option.splits if_splits Option.bind_splits config_atom_type.splits atom_value.splits)
qed

lemma array_at_integer_range:
  assumes "config_array_at_integer J (Some c) (Some v) index = Some (r, Some v')"
  shows "int_range v'"
proof -
  have "int_range i" if "config_array_at J (Some c) (Some config_local) index = Some (r', Some a')" "atom_type a' = CONFIG_ATOM_INTEGER"
    "atom_value a' = Atom_Integer i" for r' a' i
    using array_at_typed [OF typed_local that(1)] that(2,3) by (simp add: atom_typed_def)
  moreover have "int_range 0" by (simp add: int_range_def)
  ultimately show ?thesis using assms
    by (auto simp: config_array_at_integer_def split: option.splits if_splits Option.bind_splits config_atom_type.splits atom_value.splits)
qed

text \<open>Claim C26. The tag of every atom says which member of its union is stored: \<open>config_get\<close> and \<open>config_array_at\<close> write well-typed atoms
  only, adding a document keeps a configuration a well-typed object, and integers are in the range of \<open>int\<close>. On a well-typed
  atom of any tag the array functions, \<open>config_add\<close> and \<open>config_add_string\<close> never read a member that is not
  stored. \<open>config_get\<close> and \<open>config_serialize\<close> do not look at the tag: they are safe on objects, and on every other tag but NULL
  they read \<open>atom_nested\<close> although another member is stored (for NULL it is not known what is stored).\<close>

theorem config_atoms_typed:
  assumes "jansson_docs J" "atom_typed J c" "atom_typed J a"
  shows "(\<forall>r a'. config_get J dup_ok (Some c) (Some a) path = Some (r, Some a') \<longrightarrow> atom_typed J a') \<and>
    (\<forall>r a'. config_array_at J (Some c) (Some a) index = Some (r, Some a') \<longrightarrow> atom_typed J a') \<and>
    (\<forall>c'. config_add J (Some c) file = Some (A_OK, Some c') \<or> config_add_string J (Some c) txt = Some (A_OK, Some c') \<longrightarrow>
       atom_typed J c' \<and> atom_type c' = CONFIG_ATOM_NESTED) \<and>
    (\<forall>r v v'. int_range v \<and> config_get_integer J dup_ok (Some c) (Some v) path = Some (r, Some v') \<longrightarrow> int_range v') \<and>
    (\<forall>r v v'. config_array_at_integer J (Some c) (Some v) index = Some (r, Some v') \<longrightarrow> int_range v') \<and>
    config_array_at J (Some c) (Some a) index \<noteq> None \<and> config_array_length J (Some c) len \<noteq> None \<and>
    config_add J (Some c) file \<noteq> None \<and> config_add_string J (Some c) txt \<noteq> None \<and>
    (atom_type c = CONFIG_ATOM_NESTED \<longrightarrow>
       config_get J dup_ok (Some c) (Some a) path \<noteq> None \<and> config_serialize J (Some c) out \<noteq> None) \<and>
    (atom_type c \<notin> {CONFIG_ATOM_NESTED, CONFIG_ATOM_NULL} \<longrightarrow>
       (\<forall>key. key \<noteq> [] \<longrightarrow> config_get J True (Some c) (Some a) (Some key) = None) \<and> (\<forall>ser. config_serialize J (Some c) (Some ser) = None))"
proof -
  have "config_array_length J (Some c) len \<noteq> None"
    using container_json(2) [OF assms(2)] by (auto simp: config_array_length_def split: option.split)
  moreover have "config_array_at J (Some c) (Some a) index \<noteq> None" using array_at_returns [OF assms(2)] by (metis option.distinct(1))
  moreover have "atom_type c = CONFIG_ATOM_NESTED \<longrightarrow>
      config_get J dup_ok (Some c) (Some a) path \<noteq> None \<and> config_serialize J (Some c) out \<noteq> None"
    using get_returns [OF assms(2)] by (metis option.distinct(1))
  moreover have "atom_type c \<notin> {CONFIG_ATOM_NESTED, CONFIG_ATOM_NULL} \<longrightarrow> (\<forall>key. key \<noteq> [] \<longrightarrow> config_get J True (Some c) (Some a) (Some key) = None) \<and> (\<forall>ser. config_serialize J (Some c) (Some ser) = None)"
    using get_faults [OF assms(2)] by blast
  moreover have "\<forall>r a'. config_get J dup_ok (Some c) (Some a) path = Some (r, Some a') \<longrightarrow> atom_typed J a'"
    by (intro allI impI) (rule get_typed [OF assms(3)])
  moreover have "\<forall>r a'. config_array_at J (Some c) (Some a) index = Some (r, Some a') \<longrightarrow> atom_typed J a'"
    by (intro allI impI) (rule array_at_typed [OF assms(3)])
  moreover have "\<forall>r v v'. int_range v \<and> config_get_integer J dup_ok (Some c) (Some v) path = Some (r, Some v') \<longrightarrow> int_range v'"
    by (intro allI impI) (elim conjE, rule get_integer_range)
  moreover have "\<forall>r v v'. config_array_at_integer J (Some c) (Some v) index = Some (r, Some v') \<longrightarrow> int_range v'"
    by (intro allI impI) (rule array_at_integer_range)
  moreover have "\<forall>c'. config_add J (Some c) file = Some (A_OK, Some c') \<or> config_add_string J (Some c) txt = Some (A_OK, Some c') \<longrightarrow>
       atom_typed J c' \<and> atom_type c' = CONFIG_ATOM_NESTED"
    by (intro allI impI) (rule add_typed [OF assms(1)])
  ultimately show ?thesis
    using add_returns [OF assms(2), of "file" "txt"] by (elim conjE) (intro conjI; assumption)
qed

text \<open>An array with a number beyond the range of \<open>int\<close>; a lookup in the array faults.\<close>

theorem config_atoms_typed_witness:
  "let J = json_trees []; c = \<lparr>atom_type = CONFIG_ATOM_ARRAY, atom_value = Atom_Array (Some (JArray [JTrue, JInteger (2 ^ 31)]))\<rparr>
   in (\<exists>r v'. config_array_at_integer J (Some c) (Some 5) 1 = Some (r, Some v') \<and> int_range v') \<and>
      config_get J True (Some c) (Some config_local) (Some ''a'') = None"
proof -
  let ?c = "\<lparr>atom_type = CONFIG_ATOM_ARRAY, atom_value = Atom_Array (Some (JArray [JTrue, JInteger (2 ^ 31)]))\<rparr>"
  have "atom_typed (json_trees []) ?c" by (simp add: atom_typed_def json_trees_def)
  note c = config_atoms_typed [OF trees.jansson_docs_axioms this typed_local, of True None 1 None None None None]
  from c have "\<forall>r v v'. config_array_at_integer (json_trees []) (Some ?c) (Some v) 1 = Some (r, Some v') \<longrightarrow> int_range v'"
    by (elim conjE) assumption
  moreover have "\<exists>r v'. config_array_at_integer (json_trees []) (Some ?c) (Some 5) 1 = Some (r, Some v')"
    by (simp add: config_array_at_integer_def config_array_at_def json_trees_def atom_array_def json_is_array_def config_from_json_def)
  moreover have "config_get (json_trees []) True (Some ?c) (Some config_local) (Some ''a'') = None"
    using c by simp
  ultimately show ?thesis unfolding Let_def by blast
qed

end
