(* ===== verification/Cpu_Mask.thy ===== *)
theory Cpu_Mask
  imports Config_Engine
begin

section \<open>CPU masks (tsl/cpumask.h, tsl/cpumask.c)\<close>

text \<open>
  A mask wraps the dynamically sized \<open>cpu_set_t\<close> of the C library: a bit array of \<open>size\<close> bytes. The bits are a
  Boolean list; the \<open>_S\<close> macros ignore a CPU number beyond the array, as the C library defines them. The number of
  processors, the outcome of allocations and the verdict of the kernel are arguments.
\<close>

record cpu_mask =
  mask_bits :: "bool list"
  num_cpus :: int
  mask_size :: u64

subsection \<open>The macros of the C library\<close>

definition CPU_ALLOC_SIZE :: "int \<Rightarrow> u64" where
  "CPU_ALLOC_SIZE n = ((word_of_int n + 64 - 1) div 64) * 8"

definition CPU_ZERO_S :: "u64 \<Rightarrow> bool list" where
  "CPU_ZERO_S setsize = replicate (8 * unat setsize) False"

definition CPU_SET_S :: "u64 \<Rightarrow> u64 \<Rightarrow> bool list \<Rightarrow> bool list" where
  "CPU_SET_S cpu setsize bits = (if cpu div 8 < setsize then bits[unat cpu := True] else bits)"

definition CPU_CLR_S :: "u64 \<Rightarrow> u64 \<Rightarrow> bool list \<Rightarrow> bool list" where
  "CPU_CLR_S cpu setsize bits = (if cpu div 8 < setsize then bits[unat cpu := False] else bits)"

definition CPU_ISSET_S :: "u64 \<Rightarrow> u64 \<Rightarrow> bool list \<Rightarrow> int" where
  "CPU_ISSET_S cpu setsize bits = (if cpu div 8 < setsize then of_bool (bits ! unat cpu) else 0)"

subsection \<open>Operations\<close>

definition cpu_mask_create :: "bool \<Rightarrow> bool \<Rightarrow> int \<Rightarrow> cpu_mask option option \<Rightarrow> aresult_t \<times> cpu_mask option option" where
  "cpu_mask_create calloc_ok cpu_alloc_ok nprocs msk =
     (if msk = None then (A_E_BADARGS, None)
      else if \<not> calloc_ok then (A_E_NOMEM, Some None)
      else if \<not> cpu_alloc_ok then (A_E_NOMEM, Some None)
      else let size = CPU_ALLOC_SIZE nprocs
           in (A_OK, Some (Some \<lparr>mask_bits = CPU_ZERO_S size, num_cpus = nprocs, mask_size = size\<rparr>)))"

definition cpu_mask_clear :: "cpu_mask option \<Rightarrow> u64 \<Rightarrow> aresult_t \<times> cpu_mask option" where
  "cpu_mask_clear msk cpu_id =
     (case msk of
        None \<Rightarrow> (A_E_BADARGS, None)
      | Some m \<Rightarrow> (A_OK, Some (m\<lparr>mask_bits := CPU_CLR_S cpu_id (mask_size m) (mask_bits m)\<rparr>)))"

definition cpu_mask_set :: "cpu_mask option \<Rightarrow> u64 \<Rightarrow> aresult_t \<times> cpu_mask option" where
  "cpu_mask_set msk cpu_id =
     (case msk of
        None \<Rightarrow> (A_E_BADARGS, None)
      | Some m \<Rightarrow> (A_OK, Some (m\<lparr>mask_bits := CPU_SET_S cpu_id (mask_size m) (mask_bits m)\<rparr>)))"

definition cpu_mask_clear_all :: "cpu_mask option \<Rightarrow> aresult_t \<times> cpu_mask option" where
  "cpu_mask_clear_all msk =
     (case msk of
        None \<Rightarrow> (A_E_BADARGS, None)
      | Some m \<Rightarrow> (A_OK, Some (m\<lparr>mask_bits := CPU_ZERO_S (mask_size m)\<rparr>)))"

definition cpu_mask_set_all :: "cpu_mask option \<Rightarrow> aresult_t \<times> cpu_mask option" where
  "cpu_mask_set_all msk = (case msk of None \<Rightarrow> (A_E_BADARGS, None) | Some m \<Rightarrow> (A_E_INVAL, Some m))"

definition cpu_mask_clone :: "cpu_mask option option \<Rightarrow> cpu_mask option \<Rightarrow> aresult_t \<times> cpu_mask option option" where
  "cpu_mask_clone new orig =
     (if new = None then (A_E_BADARGS, None)
      else if orig = None then (A_E_BADARGS, Some None)
      else (A_OK, Some None))"

definition cpu_mask_destroy :: "cpu_mask option option \<Rightarrow> aresult_t \<times> cpu_mask option option" where
  "cpu_mask_destroy msk = (case msk of Some (Some m) \<Rightarrow> (A_OK, Some None) | _ \<Rightarrow> (A_E_BADARGS, msk))"

definition cpu_mask_test :: "cpu_mask option \<Rightarrow> u64 \<Rightarrow> int option \<Rightarrow> aresult_t \<times> int option" where
  "cpu_mask_test msk cpu_id val =
     (case (msk, val) of
        (Some m, Some _) \<Rightarrow> (A_OK, Some (CPU_ISSET_S cpu_id (mask_size m) (mask_bits m)))
      | _ \<Rightarrow> (A_E_BADARGS, val))"

text \<open>\<open>setaffinity\<close>: the answer of \<open>sched_setaffinity\<close> to a set of bits.\<close>

definition cpu_mask_apply :: "(u64 \<Rightarrow> bool list \<Rightarrow> int) \<Rightarrow> cpu_mask option \<Rightarrow> aresult_t" where
  "cpu_mask_apply setaffinity msk =
     (case msk of
        None \<Rightarrow> A_E_BADARGS
      | Some m \<Rightarrow> if setaffinity (mask_size m) (mask_bits m) \<noteq> 0 then A_E_INVAL else A_OK)"

subsection \<open>Masks from a configuration\<close>

text \<open>The loop over an array of core numbers: the mask, the last result, \<open>failed\<close> and \<open>num_set\<close>.\<close>

fun core_array_loop ::
  "('j, 'r) jansson \<Rightarrow> ('j, 'r) config \<Rightarrow> nat list \<Rightarrow> cpu_mask option \<times> aresult_t \<times> bool \<times> nat \<Rightarrow>
   (cpu_mask option \<times> aresult_t \<times> bool \<times> nat) option" where
  "core_array_loop J core_arr [] st = Some st"
| "core_array_loop J core_arr (i # is) (msk, ret, failed, num_set) =
     do { (ret, core_id) \<leftarrow> config_array_at_integer J (Some core_arr) (Some (-1)) i;
          core_id \<leftarrow> core_id;
          if AFAILED ret then core_array_loop J core_arr is (msk, ret, True, num_set)
          else if core_id < 0 then core_array_loop J core_arr is (msk, ret, True, num_set)
          else let (ret, msk) = cpu_mask_set msk (word_of_int core_id)
               in if AFAILED ret then core_array_loop J core_arr is (msk, ret, True, num_set)
                  else core_array_loop J core_arr is (msk, ret, failed, num_set + 1) }"

text \<open>The two lookups of the function allocate a copy of the path each: \<open>dup1\<close> and \<open>dup2\<close> say whether that succeeds.
  The pair is the result and the new mask: what is written to \<open>*pmask\<close> if the result is no failure.\<close>

definition from_config_body ::
  "('j, 'r) jansson \<Rightarrow> bool \<Rightarrow> bool \<Rightarrow> cpu_mask option \<Rightarrow> ('j, 'r) config option \<Rightarrow> string option \<Rightarrow>
   (aresult_t \<times> cpu_mask option) option" where
  "from_config_body J dup1 dup2 msk cfg field_name =
     do { (ret, core_id) \<leftarrow> config_get_integer J dup1 cfg (Some (-1)) field_name;
          core_id \<leftarrow> core_id;
          if \<not> AFAILED ret then
            if core_id < 0 then Some (ret, msk)
            else Some (cpu_mask_set msk (word_of_int core_id))
          else do {
            (ret, core_arr) \<leftarrow> config_get J dup2 cfg (Some config_local) field_name;
            core_arr \<leftarrow> core_arr;
            if \<not> AFAILED ret then do {
              (ret, nr_entries) \<leftarrow> config_array_length J (Some core_arr) (Some 0);
              nr_entries \<leftarrow> nr_entries;
              if AFAILED ret then Some (ret, msk)
              else if nr_entries = 0 then Some (ret, msk)
              else do {
                (msk, ret, failed, num_set) \<leftarrow> core_array_loop J core_arr [0..<nr_entries] (msk, ret, False, 0);
                if failed \<or> num_set = 0 then Some (A_E_INVAL, msk) else Some (ret, msk) } }
            else Some (A_E_NOENT, msk) } }"

definition cpu_mask_from_config ::
  "('j, 'r) jansson \<Rightarrow> bool \<Rightarrow> bool \<Rightarrow> bool \<Rightarrow> bool \<Rightarrow> int \<Rightarrow> cpu_mask option option \<Rightarrow> ('j, 'r) config option \<Rightarrow>
   string option \<Rightarrow> (aresult_t \<times> cpu_mask option option) option" where
  "cpu_mask_from_config J calloc_ok cpu_alloc_ok dup1 dup2 nprocs pmask cfg field_name =
     (if pmask = None \<or> cfg = None \<or> field_name = None then Some (A_E_BADARGS, pmask)
      else let (ret, msk) = cpu_mask_create calloc_ok cpu_alloc_ok nprocs (Some None)
           in if AFAILED ret then Some (ret, pmask)
              else do {
                msk \<leftarrow> msk;
                (ret, msk) \<leftarrow> from_config_body J dup1 dup2 msk cfg field_name;
                if AFAILED ret then Some (ret, pmask) else Some (ret, Some msk) })"

subsection \<open>A mask is a set of CPU numbers\<close>

definition true_bits :: "bool list \<Rightarrow> nat set" where
  "true_bits bits = {i. i < length bits \<and> bits ! i}"

abbreviation cpus :: "cpu_mask \<Rightarrow> nat set" where
  "cpus m \<equiv> true_bits (mask_bits m)"

definition cpu_mask_ok :: "cpu_mask \<Rightarrow> bool" where
  "cpu_mask_ok m \<longleftrightarrow> length (mask_bits m) = 8 * unat (mask_size m)"

lemma cpu_in_set: "cpu div 8 < (n :: u64) \<longleftrightarrow> unat cpu < 8 * unat n"
proof -
  have "unat (cpu div 8) = unat cpu div 8" by (simp add: unat_div)
  then show ?thesis by (auto simp: word_less_nat_alt)
qed

lemma true_bits_replicate [simp]: "true_bits (replicate n False) = {}"
  by (auto simp: true_bits_def)

lemma true_bits_update:
  "true_bits (bits[i := b]) = (if i < length bits then if b then insert i (true_bits bits) else true_bits bits - {i} else true_bits bits)"
  by (auto simp: true_bits_def nth_list_update split: if_splits)

lemma cpu_mask_set_eq:
  assumes "cpu_mask_ok m"
  shows "cpu_mask_set (Some m) cpu = (A_OK, Some (m\<lparr>mask_bits := (mask_bits m)[unat cpu := True]\<rparr>))"
  using assms by (simp add: cpu_mask_set_def CPU_SET_S_def cpu_in_set cpu_mask_ok_def list_update_beyond)

lemma cpu_mask_clear_eq:
  assumes "cpu_mask_ok m"
  shows "cpu_mask_clear (Some m) cpu = (A_OK, Some (m\<lparr>mask_bits := (mask_bits m)[unat cpu := False]\<rparr>))"
  using assms by (simp add: cpu_mask_clear_def CPU_CLR_S_def cpu_in_set cpu_mask_ok_def list_update_beyond)

lemma cpu_mask_test_eq:
  assumes "cpu_mask_ok m"
  shows "cpu_mask_test (Some m) cpu (Some v) = (A_OK, Some (of_bool (unat cpu \<in> cpus m)))"
  using assms by (simp add: cpu_mask_test_def CPU_ISSET_S_def cpu_in_set cpu_mask_ok_def true_bits_def)

definition new_cpu_mask :: "int \<Rightarrow> cpu_mask" where
  "new_cpu_mask nprocs =
     \<lparr>mask_bits = CPU_ZERO_S (CPU_ALLOC_SIZE nprocs), num_cpus = nprocs, mask_size = CPU_ALLOC_SIZE nprocs\<rparr>"

lemma new_cpu_mask [simp]: "cpu_mask_ok (new_cpu_mask n)" "cpus (new_cpu_mask n) = {}"
  by (simp_all add: new_cpu_mask_def cpu_mask_ok_def CPU_ZERO_S_def)

lemma length_new_cpu_mask: "length (mask_bits (new_cpu_mask n)) = 8 * unat (CPU_ALLOC_SIZE n)"
  by (simp add: new_cpu_mask_def CPU_ZERO_S_def)

lemma CPU_ALLOC_SIZE_covers:
  assumes "0 < n" "n < 2 ^ 63"
  shows "n \<le> 8 * uint (CPU_ALLOC_SIZE n)" "8 * uint (CPU_ALLOC_SIZE n) < n + 64"
proof -
  have u: "uint (63 + word_of_int n :: u64) = n + 63"
    using assms by (simp add: uint_word_ariths uint_word_of_int take_bit_eq_mod)
  have "uint ((63 + word_of_int n :: u64) div 64) = (n + 63) div 64" by (simp add: uint_div u)
  moreover have "(n + 63) div 64 * 8 < 2 ^ 64" "0 \<le> (n + 63) div 64" using assms by simp_all
  ultimately have "uint (CPU_ALLOC_SIZE n) = (n + 63) div 64 * 8"
    by (simp add: CPU_ALLOC_SIZE_def uint_word_ariths)
  then show "n \<le> 8 * uint (CPU_ALLOC_SIZE n)" "8 * uint (CPU_ALLOC_SIZE n) < n + 64" by simp_all
qed

lemma cpu_mask_create_eq: "cpu_mask_create True True nprocs (Some p) = (A_OK, Some (Some (new_cpu_mask nprocs)))"
  by (simp add: cpu_mask_create_def new_cpu_mask_def Let_def)

subsection \<open>Properties\<close>

text \<open>Claim C35. A CPU mask is a set of CPU numbers: a new mask is empty and has room for every configured CPU,
  set, clear, clear_all and test are insertion, removal, emptying and membership for the CPUs the mask has room for,
  and set and clear of any other CPU number succeed without an effect. The size of the bit array never changes.\<close>

theorem cpu_mask_refines_set:
  assumes "0 < nprocs" "nprocs < 2 ^ 63" "cpu_mask_ok m"
  shows "(\<exists>m0. cpu_mask_create True True nprocs (Some p) = (A_OK, Some (Some m0)) \<and> cpu_mask_ok m0 \<and> cpus m0 = {} \<and>
      (\<forall>i. int i < nprocs \<longrightarrow> i < length (mask_bits m0))) \<and>
    (\<exists>m'. cpu_mask_set (Some m) cpu = (A_OK, Some m') \<and> cpu_mask_ok m' \<and> mask_size m' = mask_size m \<and>
      cpus m' = cpus m \<union> ({unat cpu} \<inter> {..<length (mask_bits m)})) \<and>
    (\<exists>m'. cpu_mask_clear (Some m) cpu = (A_OK, Some m') \<and> cpu_mask_ok m' \<and> mask_size m' = mask_size m \<and>
      cpus m' = cpus m - {unat cpu}) \<and>
    (\<exists>m'. cpu_mask_clear_all (Some m) = (A_OK, Some m') \<and> cpu_mask_ok m' \<and> mask_size m' = mask_size m \<and> cpus m' = {}) \<and>
    cpu_mask_test (Some m) cpu (Some v) = (A_OK, Some (of_bool (unat cpu \<in> cpus m)))"
    (is "?create \<and> ?set \<and> ?clear \<and> ?clear_all \<and> ?test")
proof (intro conjI)
  have "int (unat (CPU_ALLOC_SIZE nprocs)) = uint (CPU_ALLOC_SIZE nprocs)" by simp
  then have "int i < nprocs \<Longrightarrow> i < length (mask_bits (new_cpu_mask nprocs))" for i
    using CPU_ALLOC_SIZE_covers(1) [OF assms(1,2)] length_new_cpu_mask [of nprocs] by linarith
  then show ?create
    using new_cpu_mask [of nprocs] by (auto simp: cpu_mask_create_eq)
  show ?set using assms(3) by (auto simp: cpu_mask_set_eq true_bits_update cpu_mask_ok_def)
  have "unat cpu \<notin> cpus m" if "\<not> unat cpu < length (mask_bits m)" using that by (simp add: true_bits_def)
  then show ?clear using assms(3) by (auto simp: cpu_mask_clear_eq true_bits_update cpu_mask_ok_def)
  show ?clear_all by (simp add: cpu_mask_clear_all_def CPU_ZERO_S_def cpu_mask_ok_def)
  show ?test by (rule cpu_mask_test_eq [OF assms(3)])
qed

theorem cpu_mask_refines_set_witness:
  "\<exists>m'. cpu_mask_set (Some (new_cpu_mask 8)) 5 = (A_OK, Some m') \<and> cpus m' = {5}"
proof -
  have "CPU_ALLOC_SIZE 8 = 8" by code_simp
  then have "length (mask_bits (new_cpu_mask 8)) = 64" by (simp add: new_cpu_mask_def CPU_ZERO_S_def)
  then show ?thesis using cpu_mask_refines_set [of 8 "new_cpu_mask 8" None 5 0] by auto
qed

text \<open>The mask made from a configuration item, by the type of the item: a non-negative core number within the
  mask gives exactly that CPU. Any other integer, and an item of any other type -- an array of core numbers included --
  is answered with A_OK and a mask with no CPU at all. Only a missing item is an error, and then the caller's pointer
  keeps its value.\<close>

theorem cpu_mask_from_config_by_type:
  assumes "path_components ks"
  shows "case lookup_path J (Some root) ks of
      None \<Rightarrow> cpu_mask_from_config J True True True True nprocs (Some p) (Some (config_root root)) (Some (join_path ks)) =
        Some (A_E_NOENT, Some p)
    | Some j \<Rightarrow> \<exists>m. cpu_mask_from_config J True True True True nprocs (Some p) (Some (config_root root)) (Some (join_path ks)) =
        Some (A_OK, Some (Some m)) \<and>
        cpus m = (if json_typeof J j = JSON_INTEGER \<and> 0 \<le> to_int (json_integer_value J j)
                  then {nat (to_int (json_integer_value J j))} \<inter> {..<8 * unat (CPU_ALLOC_SIZE nprocs)} else {})"
proof (cases "lookup_path J (Some root) ks")
  case None
  then show ?thesis
    by (simp add: cpu_mask_from_config_def cpu_mask_create_eq from_config_body_def config_get_integer_root [OF assms]
        config_get_root [OF assms])
next
  case (Some j)
  let ?c = "to_int (json_integer_value J j)"
  have c: "0 \<le> ?c \<Longrightarrow> unat (word_of_int ?c :: u64) = nat ?c"
    using to_int_range [of "json_integer_value J j"] by (simp add: unat_eq_nat_uint uint_word_of_int take_bit_eq_mod)
  show ?thesis
    using Some c
    by (auto simp: cpu_mask_from_config_def cpu_mask_create_eq from_config_body_def config_get_integer_root [OF assms]
        cpu_mask_set_eq true_bits_update length_new_cpu_mask)
qed

theorem cpu_mask_from_config_by_type_witness:
  "\<exists>m. cpu_mask_from_config (json_trees []) True True True True 8 (Some None)
     (Some (config_root (JObject [(''cores'', JArray [JInteger 1, JInteger 2])]))) (Some ''cores'') = Some (A_OK, Some (Some m)) \<and>
   cpus m = {}"
  using cpu_mask_from_config_by_type
    [where ks = "[''cores'']" and J = "json_trees []" and root = "JObject [(''cores'', JArray [JInteger 1, JInteger 2])]"
      and nprocs = 8 and p = None]
  by (simp add: path_components_def json_trees_def object_get_def)

end
