(* ===== verification/Sections.thy ===== *)
theory Sections
  imports TSL_Prelude
begin

section \<open>Loadable sections (tsl/sections.h)\<close>

text \<open>
  \<open>CR_LOADABLE\<close> puts pointers to objects into a named section of the program; the linker gives its first address and the
  one behind its end, \<open>__start_\<close> and \<open>__stop_\<close>. \<open>sec\<close> is the memory around the section, a partial function from addresses to
  pointers: reading where it has no value is the fault \<open>None\<close>.
\<close>

type_synonym section_mem = "addr \<rightharpoonup> addr"

definition sizeof_ptr :: u64 where "sizeof_ptr = 8"

subsection \<open>Iteration\<close>

text \<open>The loop of \<open>CR_FOR_EACH_LOADABLE\<close>. The body gets the reference and a state; it may end the program (\<open>None\<close>), and its
  \<open>continue\<close> is its return. The reference is read in the initialisation, and again after each increment of the cursor.\<close>

partial_function (option) loadables_loop ::
  "section_mem \<Rightarrow> addr \<Rightarrow> (addr \<Rightarrow> 'w \<Rightarrow> 'w option) \<Rightarrow> addr \<Rightarrow> addr \<Rightarrow> 'w \<Rightarrow> 'w option" where
  "loadables_loop sec stop body cursor reference w =
     (if cursor \<noteq> stop then
        do { w \<leftarrow> body reference w;
             reference \<leftarrow> sec (cursor + sizeof_ptr);
             loadables_loop sec stop body (cursor + sizeof_ptr) reference w }
      else Some w)"

definition CR_FOR_EACH_LOADABLE ::
  "section_mem \<Rightarrow> addr \<Rightarrow> addr \<Rightarrow> (addr \<Rightarrow> 'w \<Rightarrow> 'w option) \<Rightarrow> 'w \<Rightarrow> 'w option" where
  "CR_FOR_EACH_LOADABLE sec start stop body w =
     do { reference \<leftarrow> sec start; loadables_loop sec stop body start reference w }"

text \<open>The difference of the two pointers, as \<open>size_t\<close>: the number of pointers between them.\<close>

definition CR_GET_LOADABLE_SIZE :: "addr \<Rightarrow> addr \<Rightarrow> u64" where
  "CR_GET_LOADABLE_SIZE start stop = word_of_int (sint (stop - start) div sint sizeof_ptr)"

declare loadables_loop.simps [code]

subsection \<open>The section as a list\<close>

text \<open>The section holds the pointers \<open>ps\<close>, in this order.\<close>

definition section_holds :: "section_mem \<Rightarrow> addr \<Rightarrow> addr \<Rightarrow> addr list \<Rightarrow> bool" where
  "section_holds sec start stop ps \<longleftrightarrow>
     length ps < 2 ^ 60 \<and> stop = start + sizeof_ptr * of_nat (length ps) \<and>
     (\<forall>i < length ps. sec (start + sizeof_ptr * of_nat i) = Some (ps ! i))"

fun for_each :: "('a \<Rightarrow> 'w \<Rightarrow> 'w option) \<Rightarrow> 'a list \<Rightarrow> 'w \<Rightarrow> 'w option" where
  "for_each body [] w = Some w"
| "for_each body (p # ps) w = Option.bind (body p w) (for_each body ps)"

lemma section_distance:
  assumes "n < 2 ^ 60"
  shows "a = a + sizeof_ptr * of_nat n \<longleftrightarrow> n = 0" "unat (sizeof_ptr * of_nat n :: u64) = 8 * n"
proof -
  have e: "sizeof_ptr * of_nat n = (of_nat (8 * n) :: u64)" by (simp add: sizeof_ptr_def)
  show u: "unat (sizeof_ptr * of_nat n :: u64) = 8 * n"
    unfolding e using assms by (simp add: unsigned_of_nat take_bit_nat_eq_self del: of_nat_mult)
  have "a = a + sizeof_ptr * of_nat n \<longleftrightarrow> sizeof_ptr * of_nat n = (0 :: u64)" by simp
  also have "\<dots> \<longleftrightarrow> n = 0" using u by (metis unat_0 mult_eq_0_iff unat_eq_zero zero_neq_numeral)
  finally show "a = a + sizeof_ptr * of_nat n \<longleftrightarrow> n = 0" .
qed

lemma section_holds_Nil: "section_holds sec start stop [] \<longleftrightarrow> stop = start"
  by (simp add: section_holds_def)

lemma section_holds_Cons:
  "section_holds sec start stop (p # ps) \<longleftrightarrow>
     length (p # ps) < 2 ^ 60 \<and> sec start = Some p \<and> section_holds sec (start + sizeof_ptr) stop ps"
  unfolding section_holds_def by (auto simp: All_less_Suc2 algebra_simps)

text \<open>The loop calls the body with every pointer, in order; then it needs a value behind the end.\<close>

lemma loop_visits:
  assumes "section_holds sec start stop ps" "sec start = Some r"
  shows "loadables_loop sec stop body start r w =
    (if ps = [] then Some w else Option.bind (for_each body ps w) (\<lambda>w. map_option (\<lambda>_. w) (sec stop)))"
  using assms
proof (induction ps arbitrary: start r w)
  case Nil
  then show ?case by (subst loadables_loop.simps) (simp add: section_holds_def)
next
  case (Cons p ps)
  have holds: "section_holds sec (start + sizeof_ptr) stop ps" and p: "r = p" and len: "length (p # ps) < 2 ^ 60"
    using Cons.prems section_holds_Cons by auto
  have "stop = start + sizeof_ptr * of_nat (length (p # ps))" using Cons.prems(1) by (simp only: section_holds_def)
  then have ne: "start \<noteq> stop" using section_distance(1) [OF len, of start] by simp
  have step: "loadables_loop sec stop body start r w =
      Option.bind (body p w) (\<lambda>w. Option.bind (sec (start + sizeof_ptr)) (\<lambda>r. loadables_loop sec stop body (start + sizeof_ptr) r w))"
    using ne by (subst loadables_loop.simps) (simp add: p)
  show ?case
  proof (cases ps)
    case Nil
    then have "start + sizeof_ptr = stop" using holds by (simp add: section_holds_def)
    then show ?thesis
      using Nil unfolding step by (cases "body p w"; cases "sec stop") (simp_all add: loadables_loop.simps [of sec stop body stop])
  next
    case (Cons q qs)
    then have "sec (start + sizeof_ptr) = Some q" using holds section_holds_Cons by metis
    then show ?thesis using Cons.IH [OF holds] Cons unfolding step by (cases "body p w") simp_all
  qed
qed

lemma for_each_loadable:
  assumes "section_holds sec start stop ps"
  shows "CR_FOR_EACH_LOADABLE sec start stop body w = Option.bind (for_each body ps w) (\<lambda>w. map_option (\<lambda>_. w) (sec stop))"
proof (cases ps)
  case Nil
  then have "start = stop" using assms by (simp add: section_holds_def)
  then show ?thesis using Nil by (cases "sec stop") (simp_all add: CR_FOR_EACH_LOADABLE_def loadables_loop.simps [of sec stop body stop])
next
  case (Cons p qs)
  then have "sec start = Some p" using assms section_holds_Cons by metis
  then show ?thesis using loop_visits [OF assms, of p] Cons by (simp add: CR_FOR_EACH_LOADABLE_def)
qed

lemma loadable_size:
  assumes "section_holds sec start stop ps"
  shows "unat (CR_GET_LOADABLE_SIZE start stop) = length ps"
proof -
  have n: "length ps < 2 ^ 60" "stop - start = sizeof_ptr * of_nat (length ps)" using assms by (simp_all add: section_holds_def)
  then have u: "unat (stop - start) = 8 * length ps" using section_distance(2) by simp
  then have "uint (stop - start) = 8 * int (length ps)" by (metis of_nat_mult of_nat_numeral uint_nat)
  then have "sint (stop - start) = 8 * int (length ps)"
    using n(1) by (simp add: sint_uint signed_take_bit_int_eq_self)
  then show ?thesis using n(1) by (simp add: CR_GET_LOADABLE_SIZE_def sizeof_ptr_def unsigned_of_nat take_bit_nat_eq_self)
qed

end
