(* ===== verification/Application.thy ===== *)
theory Application
  imports Cpu_Mask Sections
begin

section \<open>Application framework (tsl/app.h, tsl/app.c)\<close>

text \<open>
  The state of a process that the framework keeps: a counter of interrupts, the name, the handler. What the system calls answer is an
  argument. Initialisation functions of subsystems act on a state of their own, of arbitrary type. A panic is the fault \<open>None\<close>.
\<close>

definition APP_STATE_RUNNING :: int where "APP_STATE_RUNNING = 0"
definition APP_STATE_SHUTDOWN_REQUESTED :: int where "APP_STATE_SHUTDOWN_REQUESTED = 1"
definition APP_STATE_SHUTDOWN_FORCED :: int where "APP_STATE_SHUTDOWN_FORCED = 2"

record app =
  app_state :: int
  app_name_str :: "string option"
  app_sigint_delegate :: addr

definition app_boot :: app where
  "app_boot = \<lparr>app_state = APP_STATE_RUNNING, app_name_str = None, app_sigint_delegate = NULL\<rparr>"

subsection \<open>Signals\<close>

text \<open>The second component is the function that the handler calls, if any.\<close>

definition app_sigint_handler :: "app \<Rightarrow> (app \<times> addr option) option" where
  "app_sigint_handler st =
     (let st = st\<lparr>app_state := app_state st + 1\<rparr>
      in if app_state st \<ge> APP_STATE_SHUTDOWN_FORCED then None
         else Some (st, if NULL \<noteq> app_sigint_delegate st then Some (app_sigint_delegate st) else None))"

definition segv_handler_install :: "int \<Rightarrow> aresult_t" where
  "segv_handler_install sigaction = (if 0 > sigaction then A_E_INVAL else A_OK)"

definition app_running :: "app \<Rightarrow> int" where
  "app_running st = of_bool (app_state st = APP_STATE_RUNNING)"

definition app_sigint_catch :: "int \<Rightarrow> app \<Rightarrow> addr \<Rightarrow> aresult_t \<times> app" where
  "app_sigint_catch sigaction st hdlr =
     (let st = st\<lparr>app_sigint_delegate := hdlr\<rparr>
      in if 0 > sigaction then (A_E_INVAL, st) else (A_OK, st))"

subsection \<open>Process set-up\<close>

datatype daemon_outcome =
    Exits int
  | Returns aresult_t "daemon_effect list"
and daemon_effect = Chdir string | Close nat

definition app_daemonize :: "int \<Rightarrow> int \<Rightarrow> daemon_outcome" where
  "app_daemonize fork setsid =
     (if fork < 0 then Returns A_E_UNKNOWN []
      else if fork > 0 then Exits 0
      else if setsid < 0 then Returns A_E_INVAL []
      else Returns A_OK [Chdir ''/'', Close 0, Close 1, Close 2])"

text \<open>The mask that is left at the end, after the clean-up that the compiler adds for it, is part of the result; so are the
  masks that were given to the kernel.\<close>

definition bind_cpu_core_body ::
  "bool \<Rightarrow> bool \<Rightarrow> int \<Rightarrow> (u64 \<Rightarrow> bool list \<Rightarrow> int) \<Rightarrow> int \<Rightarrow> aresult_t \<times> cpu_mask option option \<times> cpu_mask list" where
  "bind_cpu_core_body calloc_ok cpu_alloc_ok nprocs setaffinity core_id =
     (let (ret, msk) = cpu_mask_create calloc_ok cpu_alloc_ok nprocs (Some None)
      in if AFAILED ret then (ret, msk, [])
         else let (ret, m) = cpu_mask_set (Option.bind msk id) (word_of_int core_id)
              in if AFAILED ret then (ret, Some m, [])
                 else let ret = cpu_mask_apply setaffinity m
                      in if AFAILED ret then (ret, Some m, [the m])
                         else let (ret, msk) = cpu_mask_destroy (Some m)
                              in (ret, msk, [the m]))"

definition app_bind_cpu_core ::
  "bool \<Rightarrow> bool \<Rightarrow> int \<Rightarrow> (u64 \<Rightarrow> bool list \<Rightarrow> int) \<Rightarrow> int \<Rightarrow> aresult_t \<times> cpu_mask option option \<times> cpu_mask list" where
  "app_bind_cpu_core calloc_ok cpu_alloc_ok nprocs setaffinity core_id =
     (if \<not> core_id \<ge> 0 then (A_E_BADARGS, snd (cpu_mask_destroy (Some None)), [])
      else let (ret, msk, applied) = bind_cpu_core_body calloc_ok cpu_alloc_ok nprocs setaffinity core_id
           in (ret, snd (cpu_mask_destroy msk), applied))"

definition app_set_diag_output :: "bool \<Rightarrow> string option \<Rightarrow> aresult_t" where
  "app_set_diag_output freopen_ok file_name =
     (if file_name = None then A_E_BADARGS else if \<not> freopen_ok then A_E_INVAL else A_OK)"

subsection \<open>Subsystems\<close>

record 'w app_subsystem =
  subsys_name :: string
  subsys_init :: "('w \<Rightarrow> aresult_t \<times> 'w) option"
  subsys_shutdown :: "('w \<Rightarrow> aresult_t \<times> 'w) option"

text \<open>The declarations that \<open>APP_SUBSYSTEM\<close> makes; each goes into the section \<open>__dynamic_subsystems\<close>. The declarations
  of \<open>app.c\<close> are \<open>sigsegv\<close> and \<open>default_subsystem\<close>.\<close>

definition APP_SUBSYSTEM :: "string \<Rightarrow> ('w \<Rightarrow> aresult_t \<times> 'w) option \<Rightarrow> ('w \<Rightarrow> aresult_t \<times> 'w) option \<Rightarrow> 'w app_subsystem" where
  "APP_SUBSYSTEM name init_func shutdown_func =
     \<lparr>subsys_name = name, subsys_init = init_func, subsys_shutdown = shutdown_func\<rparr>"

definition sigsegv_subsystem :: "int \<Rightarrow> 'w app_subsystem" where
  "sigsegv_subsystem sigaction = APP_SUBSYSTEM ''sigsegv'' (Some (\<lambda>w. (segv_handler_install sigaction, w))) None"

definition default_subsystem :: "'w app_subsystem" where
  "default_subsystem = APP_SUBSYSTEM ''default_subsystem'' None None"

type_synonym 'w subsystem_mem = "addr \<rightharpoonup> 'w app_subsystem"

text \<open>The body of the loop of \<open>app_init\<close>.\<close>

definition init_subsystem :: "'w subsystem_mem \<Rightarrow> addr \<Rightarrow> 'w \<Rightarrow> 'w option" where
  "init_subsystem decls subsys w =
     do { s \<leftarrow> decls subsys;
          case subsys_init s of
            None \<Rightarrow> Some w
          | Some init \<Rightarrow> (let (ret, w) = init w in if AFAILED ret then None else Some w) }"

definition app_init ::
  "section_mem \<Rightarrow> addr \<Rightarrow> addr \<Rightarrow> 'w subsystem_mem \<Rightarrow> app \<Rightarrow> string option \<Rightarrow> 'w \<Rightarrow> (aresult_t \<times> app \<times> 'w) option" where
  "app_init sec start stop decls st app_name w =
     (if \<not> app_name \<noteq> None then Some (A_E_BADARGS, st, w)
      else
        let st = st\<lparr>app_name_str := app_name\<rparr>
        in do { w \<leftarrow> CR_FOR_EACH_LOADABLE sec start stop (init_subsystem decls) w;
                Some (A_OK, st, w) })"

subsection \<open>Properties\<close>

text \<open>The initialisation functions that exist, in the order of the subsystems.\<close>

definition inits :: "'w app_subsystem list \<Rightarrow> ('w \<Rightarrow> aresult_t \<times> 'w) list" where
  "inits ss = List.map_filter subsys_init ss"

lemma inits_simps [simp]:
  "inits [] = []" "inits (s # ss) = (case subsys_init s of None \<Rightarrow> inits ss | Some f \<Rightarrow> f # inits ss)"
  by (simp_all add: inits_def List.map_filter_simps split: option.split)

lemma init_all_Some:
  "for_each (init_subsystem decls) ps w = Some w' \<and> (\<forall>p \<in> set ps. decls p \<noteq> None) \<longleftrightarrow>
     (\<forall>p \<in> set ps. decls p \<noteq> None) \<and>
     (let fs = inits (map (\<lambda>p. the (decls p)) ps)
      in w' = fold (\<lambda>f w. snd (f w)) fs w \<and>
         (\<forall>k < length fs. \<not> AFAILED (fst ((fs ! k) (fold (\<lambda>f w. snd (f w)) (take k fs) w)))))"
proof (induction ps arbitrary: w)
  case (Cons p ps)
  show ?case
  proof (cases "decls p")
    case (Some s)
    then show ?thesis
      using Cons.IH
      by (cases "subsys_init s") (auto simp: init_subsystem_def Let_def All_less_Suc2 split: prod.splits if_splits)
  qed auto
qed (auto simp: Let_def)

text \<open>Claim C37. \<open>app_init\<close> runs the initialisation functions of all subsystems in the section, each once, in order, and on the state that
  its predecessors left. It returns exactly if none of them fails and there is a value to read behind the section, which
  the iteration needs. With no name nothing is run.\<close>

theorem app_init_runs_all:
  assumes "section_holds sec start stop ps" "\<forall>p \<in> set ps. decls p \<noteq> None"
  defines "fs \<equiv> inits (map (\<lambda>p. the (decls p)) ps)"
  shows "app_init sec start stop decls st None w = Some (A_E_BADARGS, st, w) \<and>
    (app_init sec start stop decls st (Some nme) w = Some (ret, st', w') \<longleftrightarrow>
     sec stop \<noteq> None \<and> ret = A_OK \<and> st' = st\<lparr>app_name_str := Some nme\<rparr> \<and>
     w' = fold (\<lambda>f w. snd (f w)) fs w \<and>
     (\<forall>k < length fs. \<not> AFAILED (fst ((fs ! k) (fold (\<lambda>f w. snd (f w)) (take k fs) w)))))"
proof -
  have "for_each (init_subsystem decls) ps w = Some w1 \<longleftrightarrow>
      w1 = fold (\<lambda>f w. snd (f w)) fs w \<and>
      (\<forall>k < length fs. \<not> AFAILED (fst ((fs ! k) (fold (\<lambda>f w. snd (f w)) (take k fs) w))))" for w1
    using init_all_Some [of decls ps w w1] assms(2) by (simp add: fs_def Let_def)
  then show ?thesis
    by (auto simp: app_init_def for_each_loadable [OF assms(1)] bind_eq_Some_iff)
qed

text \<open>The two subsystems of \<open>app.c\<close>, when the handler can be installed and when it cannot, and without a value behind the
  section.\<close>

definition app_section :: section_mem where
  "app_section = [0x1000 \<mapsto> 0x500, 0x1008 \<mapsto> 0x600]"

definition app_decls :: "unit subsystem_mem" where
  "app_decls = [0x500 \<mapsto> sigsegv_subsystem 0, 0x600 \<mapsto> default_subsystem]"

theorem app_init_runs_all_witness:
  "app_init (app_section(0x1010 \<mapsto> 0)) 0x1000 0x1010 app_decls app_boot (Some ''x'') () =
     Some (A_OK, app_boot\<lparr>app_name_str := Some ''x''\<rparr>, ()) \<and>
   app_init app_section 0x1000 0x1010 app_decls app_boot (Some ''x'') () = None"
proof -
  have s: "section_holds (app_section(0x1010 \<mapsto> 0)) 0x1000 0x1010 [0x500, 0x600]" "section_holds app_section 0x1000 0x1010 [0x500, 0x600]"
    by (simp_all add: section_holds_Cons section_holds_Nil app_section_def sizeof_ptr_def)
  have d: "\<forall>p \<in> set [0x500, 0x600]. app_decls p \<noteq> None" by (simp add: app_decls_def)
  have ok: "inits (map (\<lambda>p. the (app_decls p)) [0x500, 0x600]) = [\<lambda>w. (A_OK, w)]" "\<not> AFAILED A_OK"
    by (simp_all add: app_decls_def sigsegv_subsystem_def default_subsystem_def APP_SUBSYSTEM_def segv_handler_install_def)
  have n: "app_section 0x1010 = None" by (simp add: app_section_def)
  have "app_init (app_section(0x1010 \<mapsto> 0)) 0x1000 0x1010 app_decls app_boot (Some ''x'') () =
      Some (A_OK, app_boot\<lparr>app_name_str := Some ''x''\<rparr>, ())"
    using app_init_runs_all [OF s(1) d, of app_boot "()" "''x''"] unfolding ok(1) by (simp add: ok(2))
  moreover have "app_init app_section 0x1000 0x1010 app_decls app_boot (Some ''x'') () = None"
    using app_init_runs_all [OF s(2) d, of app_boot "()" "''x''"] n
    by (cases "app_init app_section 0x1000 0x1010 app_decls app_boot (Some ''x'') ()") auto
  ultimately show ?thesis by simp
qed

text \<open>One interrupt asks for a shutdown: \<open>app_running\<close> answers 0, and the delegate is called once. The second one ends the
  process.\<close>

theorem app_sigint_twice:
  assumes "app_state st = APP_STATE_RUNNING"
  shows "\<exists>st'. app_running st = 1 \<and>
    app_sigint_handler st = Some (st', if app_sigint_delegate st = NULL then None else Some (app_sigint_delegate st)) \<and>
    app_running st' = 0 \<and> app_sigint_handler st' = None"
  using assms
  by (auto simp: app_sigint_handler_def app_running_def Let_def APP_STATE_RUNNING_def APP_STATE_SHUTDOWN_FORCED_def)

theorem app_sigint_twice_witness:
  "app_state app_boot = APP_STATE_RUNNING \<and> app_running app_boot = 1"
  using app_sigint_twice [of app_boot] by (auto simp: app_boot_def)

text \<open>Binding to a core. If the process has its memory, the kernel gets one mask, with exactly that core if the mask has room for it and no
  core otherwise, and its refusal is \<open>A_E_INVAL\<close>. In every case no mask is left behind.\<close>

theorem app_bind_cpu_core_correct:
  assumes "0 \<le> core_id" "core_id < 2 ^ 31"
  shows "case app_bind_cpu_core calloc_ok cpu_alloc_ok nprocs setaffinity core_id of (ret, msk, applied) \<Rightarrow>
    msk = Some None \<and>
    (if calloc_ok \<and> cpu_alloc_ok
     then \<exists>m. applied = [m] \<and> mask_size m = CPU_ALLOC_SIZE nprocs \<and>
              cpus m = {c. c = nat core_id \<and> c < 8 * unat (CPU_ALLOC_SIZE nprocs)} \<and>
              ret = (if setaffinity (mask_size m) (mask_bits m) \<noteq> 0 then A_E_INVAL else A_OK)
     else ret = A_E_NOMEM \<and> applied = [])"
proof (cases "calloc_ok \<and> cpu_alloc_ok")
  case False
  then show ?thesis
    using assms(1) by (auto simp: app_bind_cpu_core_def bind_cpu_core_body_def cpu_mask_create_def cpu_mask_destroy_def)
next
  case True
  let ?m = "(new_cpu_mask nprocs)\<lparr>mask_bits := (mask_bits (new_cpu_mask nprocs))[nat core_id := True]\<rparr>"
  have c: "unat (word_of_int core_id :: u64) = nat core_id"
    using assms by (simp add: unsigned_of_int take_bit_int_eq_self nat_eq_iff)
  have set: "cpu_mask_set (Some (new_cpu_mask nprocs)) (word_of_int core_id) = (A_OK, Some ?m)"
    by (simp add: cpu_mask_set_eq c)
  have "mask_size ?m = CPU_ALLOC_SIZE nprocs" "cpus ?m = {c. c = nat core_id \<and> c < 8 * unat (CPU_ALLOC_SIZE nprocs)}"
    by (auto simp: true_bits_update length_new_cpu_mask) (simp_all add: new_cpu_mask_def)
  moreover have "app_bind_cpu_core calloc_ok cpu_alloc_ok nprocs setaffinity core_id =
      (if setaffinity (mask_size ?m) (mask_bits ?m) \<noteq> 0 then A_E_INVAL else A_OK, Some None, [?m])"
    using True assms(1)
    by (simp add: app_bind_cpu_core_def bind_cpu_core_body_def cpu_mask_create_eq set cpu_mask_destroy_def cpu_mask_apply_def)
  ultimately show ?thesis using True by auto
qed

theorem app_bind_cpu_core_correct_witness:
  "\<exists>m. app_bind_cpu_core True True 8 (\<lambda>size bits. 0) 3 = (A_OK, Some None, [m]) \<and> cpus m = {3}"
proof -
  have size: "unat (CPU_ALLOC_SIZE 8) = 8" by code_simp
  obtain ret msk ms where r: "app_bind_cpu_core True True 8 (\<lambda>size bits. 0) 3 = (ret, msk, ms)" by (metis prod_cases3)
  show ?thesis
    using app_bind_cpu_core_correct [where core_id = 3 and calloc_ok = True and cpu_alloc_ok = True and nprocs = 8
        and setaffinity = "\<lambda>size bits. 0"] r size by auto
qed

end
