(* ===== verification/Threading.thy ===== *)
theory Threading
  imports Cpu_Mask
begin

section \<open>Threads (tsl/threading.h, tsl/threading.c)\<close>

text \<open>
  \<open>struct thread\<close> wraps a POSIX thread. A pointer to it is an optional value: each struct has one owner. What POSIX
  answers is an argument: the new handle of \<open>pthread_create\<close>, the exit value that \<open>pthread_join\<close> delivers (\<open>None\<close>: the
  call failed). The body of a thread is run by \<open>__thread_wrapper_func\<close>; its memory accesses interleave with those of
  the thread that controls it, so the wrapper is given here as one step per access.
\<close>

datatype thread_state = THREAD_STATE_IDLE | THREAD_STATE_RUNNING | THREAD_STATE_TERMINATED

record 'f thread =
  th_hdl :: nat
  th_state :: thread_state
  th_func :: "'f option"
  th_mask :: "cpu_mask option"
  th_params :: addr

text \<open>\<open>__helper_thread_alloc\<close>: \<open>alloc_ok\<close> tells whether \<open>calloc\<close> succeeds.\<close>

definition helper_thread_alloc :: "bool \<Rightarrow> 'f thread option" where
  "helper_thread_alloc alloc_ok =
     (if \<not> alloc_ok then None
      else Some \<lparr>th_hdl = 0, th_state = THREAD_STATE_IDLE, th_func = None, th_mask = None, th_params = NULL\<rparr>)"

definition thread_create ::
  "bool \<Rightarrow> 'f thread option option \<Rightarrow> 'f option \<Rightarrow> cpu_mask option \<Rightarrow> aresult_t \<times> 'f thread option option" where
  "thread_create alloc_ok thread func msk =
     (if thread = None \<or> func = None then (A_E_BADARGS, thread)
      else case helper_thread_alloc alloc_ok of
        None \<Rightarrow> (A_E_NOMEM, Some None)
      | Some thr \<Rightarrow> (A_OK, Some (Some (thr\<lparr>th_mask := msk, th_func := func\<rparr>))))"

definition thread_running :: "'f thread option \<Rightarrow> int option \<Rightarrow> aresult_t \<times> int option" where
  "thread_running thread val =
     (case (thread, val) of
        (Some thr, Some _) \<Rightarrow> (A_OK, Some (of_bool (th_state thr = THREAD_STATE_RUNNING)))
      | _ \<Rightarrow> (A_E_BADARGS, val))"

text \<open>The last component of the result: a thread was started.\<close>

definition thread_start :: "nat option \<Rightarrow> 'f thread option \<Rightarrow> addr \<Rightarrow> aresult_t \<times> 'f thread option \<times> bool" where
  "thread_start pcreate thread params =
     (case thread of
        None \<Rightarrow> (A_E_BADARGS, thread, False)
      | Some thr \<Rightarrow>
          if params = NULL then (A_E_BADARGS, thread, False)
          else let thr = thr\<lparr>th_params := params\<rparr>
               in case pcreate of
                    None \<Rightarrow> (A_E_NOTHREAD, Some thr, False)
                  | Some h \<Rightarrow> (A_OK, Some (thr\<lparr>th_hdl := h\<rparr>), True))"

text \<open>The conversions between the thread's result, a signed 32-bit number, and its exit value, a pointer.\<close>

definition exit_value :: "aresult_t \<Rightarrow> addr" where
  "exit_value ret = scast ret"

definition join_value :: "addr \<Rightarrow> aresult_t" where
  "join_value res = ucast res"

lemma join_exit_value [simp]: "join_value (exit_value r) = r"
  by (rule bit_word_eqI) (simp add: join_value_def exit_value_def bit_simps)

text \<open>A NULL \<open>result\<close> faults after the join.\<close>

definition thread_join ::
  "addr option \<Rightarrow> 'f thread option \<Rightarrow> aresult_t option \<Rightarrow> (aresult_t \<times> 'f thread option \<times> aresult_t option) option" where
  "thread_join joined thread res =
     (case thread of
        None \<Rightarrow> Some (A_E_BADARGS, thread, res)
      | Some thr \<Rightarrow>
          (case joined of
             None \<Rightarrow> Some (A_E_NOTHREAD, thread, res)
           | Some v \<Rightarrow>
               do { _ \<leftarrow> res;
                    Some (A_OK, Some (thr\<lparr>th_state := THREAD_STATE_IDLE, th_params := NULL\<rparr>), Some (join_value v)) }))"

definition thread_destroy :: "'f thread option option \<Rightarrow> aresult_t \<times> 'f thread option option" where
  "thread_destroy thread =
     (case thread of
        Some (Some thr) \<Rightarrow> if th_state thr \<noteq> THREAD_STATE_IDLE then (A_E_BUSY, thread) else (A_OK, Some None)
      | _ \<Rightarrow> (A_E_BADARGS, thread))"

subsection \<open>The thread wrapper\<close>

text \<open>The positions in \<open>__thread_wrapper_func\<close>; \<open>TP_Func\<close> is inside the thread function, whose own positions have type \<open>'p\<close>.\<close>

datatype 'p thread_pc =
  TP_Apply | TP_Mark_Running | TP_Func 'p | TP_Terminate aresult_t | TP_Exited addr

text \<open>One step of the wrapper outside the thread function. \<open>None\<close>: the struct is gone (a NULL pointer stands for freed
  memory) or the step belongs to the function. \<open>entry\<close> is the position where the function starts.\<close>

definition thread_wrapper_step ::
  "(u64 \<Rightarrow> bool list \<Rightarrow> int) \<Rightarrow> 'p \<Rightarrow> 'p thread_pc \<Rightarrow> 'f thread option \<Rightarrow> ('p thread_pc \<times> 'f thread option) option" where
  "thread_wrapper_step setaffinity entry pc thread =
     (case (pc, thread) of
        (TP_Apply, Some thr) \<Rightarrow>
          let ret = cpu_mask_apply setaffinity (th_mask thr)
          in Some (if ret \<noteq> A_OK then TP_Terminate ret else TP_Mark_Running, thread)
      | (TP_Mark_Running, Some thr) \<Rightarrow> Some (TP_Func entry, Some (thr\<lparr>th_state := THREAD_STATE_RUNNING\<rparr>))
      | (TP_Terminate ret, Some thr) \<Rightarrow> Some (TP_Exited (exit_value ret), Some (thr\<lparr>th_state := THREAD_STATE_TERMINATED\<rparr>))
      | _ \<Rightarrow> None)"

end
