(* ===== verification/Worker_Thread.thy ===== *)
theory Worker_Thread
  imports Threading
begin

section \<open>Worker threads (tsl/worker_thread.h, tsl/worker_thread.c)\<close>

text \<open>
  A worker thread runs a caller's function until the controlling thread asks it to stop; the two share the state
  word \<open>st\<close>. The operations of the controlling thread and the body \<open>__worker_thread_function\<close> are steps on a common
  system state, one per access to shared memory; \<open>wt_step\<close> interleaves them arbitrarily. The compare-and-swap of the
  concurrency kit is the parameter \<open>cas\<close>, with the contract \<open>ck_cas\<close>.
\<close>

subsection \<open>State\<close>

datatype worker_thread_state =
  WORKER_THREAD_STATE_IDLE | WORKER_THREAD_STATE_STARTING_UP | WORKER_THREAD_STATE_RUNNING
| WORKER_THREAD_STATE_SHUTDOWN_REQUESTED | WORKER_THREAD_STATE_SHUTDOWN

text \<open>The thread function of a worker is always \<open>__worker_thread_function\<close>; \<open>'f\<close> is the type of work functions.\<close>

datatype worker_function = worker_thread_function

record 'f worker_thread =
  wt_st :: worker_thread_state
  wt_thr :: "worker_function thread option"
  wt_work_func :: "'f option"

definition worker_thread_is_running :: "'f worker_thread \<Rightarrow> int" where
  "worker_thread_is_running thr = of_bool (wt_st thr = WORKER_THREAD_STATE_RUNNING)"

subsection \<open>Creation\<close>

text \<open>\<open>params\<close> is the address of the caller's struct. The last component: the thread was started; from then on it runs
  concurrently.\<close>

definition worker_thread_new_mask ::
  "bool \<Rightarrow> nat option \<Rightarrow> addr \<Rightarrow> 'f worker_thread option \<Rightarrow> 'f option \<Rightarrow> cpu_mask option option \<Rightarrow>
   aresult_t \<times> 'f worker_thread option \<times> cpu_mask option option \<times> bool" where
  "worker_thread_new_mask alloc_ok pcreate params thr work_func pmsk =
     (if thr = None \<or> work_func = None \<or> pmsk = None \<or> pmsk = Some None then (A_E_BADARGS, thr, pmsk, False)
      else let wt = \<lparr>wt_st = WORKER_THREAD_STATE_STARTING_UP, wt_thr = None, wt_work_func = work_func\<rparr>;
               (ret, t) = thread_create alloc_ok (Some None) (Some worker_thread_function) (the pmsk)
           in if AFAILED ret then (ret, Some wt, pmsk, False)
              else let (ret, t, started) = thread_start pcreate (the t) params
                   in if AFAILED ret
                      then (ret, Some (wt\<lparr>wt_thr := if t \<noteq> None then the (snd (thread_destroy (Some t))) else t\<rparr>), pmsk, started)
                      else (ret, Some (wt\<lparr>wt_thr := t\<rparr>), Some None, started))"

definition worker_thread_new ::
  "bool \<Rightarrow> bool \<Rightarrow> int \<Rightarrow> bool \<Rightarrow> nat option \<Rightarrow> addr \<Rightarrow> 'f worker_thread option \<Rightarrow> 'f option \<Rightarrow> u32 \<Rightarrow>
   aresult_t \<times> 'f worker_thread option \<times> bool" where
  "worker_thread_new calloc_ok cpu_alloc_ok nprocs alloc_ok pcreate params thr work_func cpu_core =
     (if thr = None \<or> work_func = None then (A_E_BADARGS, thr, False)
      else let (ret, msk) = cpu_mask_create calloc_ok cpu_alloc_ok nprocs (Some None)
           in if AFAILED ret then (ret, thr, False)
              else let (ret, msk) = cpu_mask_set (the msk) (ucast cpu_core)
                   in if AFAILED ret then (ret, thr, False)
                      else let (ret, thr, msk, started) = worker_thread_new_mask alloc_ok pcreate params thr work_func (Some msk)
                           in (ret, thr, started))"

subsection \<open>Steps\<close>

text \<open>The positions in \<open>__worker_thread_function\<close>.\<close>

datatype worker_pc = WP_Cas | WP_Work | WP_Store aresult_t

text \<open>The positions of the controlling thread: between calls (with the result of the last call), in
  \<open>worker_thread_request_shutdown\<close> before its store, in \<open>worker_thread_delete\<close> before the join.\<close>

datatype ctl_pc = CP_Ready aresult_t | CP_Request_Store | CP_Join

text \<open>\<open>ws_ran\<close> records that the work function was entered.\<close>

record 'f wt_sys =
  ws_wt :: "'f worker_thread"
  ws_pc :: "worker_pc thread_pc"
  ws_ctl :: ctl_pc
  ws_ran :: bool

type_synonym cas_state = "worker_thread_state \<Rightarrow> worker_thread_state \<Rightarrow> worker_thread_state \<Rightarrow> bool \<times> worker_thread_state"

text \<open>A step of the worker. \<open>work\<close> is what the work function does next: \<open>None\<close> if it goes on, \<open>Some r\<close> if it returns \<open>r\<close>.
  The result \<open>None\<close> is an access to freed memory, or no step: the thread has exited.\<close>

definition worker_step ::
  "(u64 \<Rightarrow> bool list \<Rightarrow> int) \<Rightarrow> cas_state \<Rightarrow> aresult_t option \<Rightarrow> 'f wt_sys \<Rightarrow> 'f wt_sys option" where
  "worker_step setaffinity cas work s =
     (let wt = ws_wt s in
      case ws_pc s of
        TP_Func WP_Cas \<Rightarrow>
          let (swapped, st) = cas (wt_st wt) WORKER_THREAD_STATE_STARTING_UP WORKER_THREAD_STATE_RUNNING
          in Some (if swapped then s\<lparr>ws_wt := wt\<lparr>wt_st := st\<rparr>, ws_pc := TP_Func WP_Work, ws_ran := True\<rparr>
                   else s\<lparr>ws_wt := wt\<lparr>wt_st := st\<rparr>, ws_pc := TP_Func (WP_Store A_OK)\<rparr>)
      | TP_Func WP_Work \<Rightarrow> Some (case work of None \<Rightarrow> s | Some r \<Rightarrow> s\<lparr>ws_pc := TP_Func (WP_Store r)\<rparr>)
      | TP_Func (WP_Store r) \<Rightarrow>
          Some (s\<lparr>ws_wt := wt\<lparr>wt_st := WORKER_THREAD_STATE_SHUTDOWN\<rparr>, ws_pc := TP_Terminate r\<rparr>)
      | pc \<Rightarrow>
          do { (pc, thr) \<leftarrow> thread_wrapper_step setaffinity WP_Cas pc (wt_thr wt);
               Some (s\<lparr>ws_wt := wt\<lparr>wt_thr := thr\<rparr>, ws_pc := pc\<rparr>) })"

text \<open>The controlling thread.\<close>

definition worker_thread_request_shutdown :: "'f wt_sys \<Rightarrow> 'f wt_sys" where
  "worker_thread_request_shutdown s =
     (if wt_st (ws_wt s) = WORKER_THREAD_STATE_RUNNING \<or> wt_st (ws_wt s) = WORKER_THREAD_STATE_STARTING_UP
      then s\<lparr>ws_ctl := CP_Request_Store\<rparr> else s\<lparr>ws_ctl := CP_Ready A_OK\<rparr>)"

definition request_store :: "'f wt_sys \<Rightarrow> 'f wt_sys" where
  "request_store s =
     s\<lparr>ws_wt := (ws_wt s)\<lparr>wt_st := WORKER_THREAD_STATE_SHUTDOWN_REQUESTED\<rparr>, ws_ctl := CP_Ready A_OK\<rparr>"

definition worker_thread_delete :: "'f wt_sys \<Rightarrow> 'f wt_sys" where
  "worker_thread_delete s =
     (if \<not> (wt_st (ws_wt s) = WORKER_THREAD_STATE_SHUTDOWN \<or> wt_st (ws_wt s) = WORKER_THREAD_STATE_SHUTDOWN_REQUESTED)
      then s\<lparr>ws_ctl := CP_Ready A_E_BUSY\<rparr>
      else if wt_thr (ws_wt s) \<noteq> None then s\<lparr>ws_ctl := CP_Join\<rparr>
      else s\<lparr>ws_ctl := CP_Ready A_OK\<rparr>)"

text \<open>The join and what follows it, once the thread has exited with the value \<open>v\<close>; \<open>join_ok\<close> tells whether
  \<open>pthread_join\<close> succeeds.\<close>

definition delete_join :: "bool \<Rightarrow> addr \<Rightarrow> 'f wt_sys \<Rightarrow> 'f wt_sys option" where
  "delete_join join_ok v s =
     do { (ret, thr, thr_ret) \<leftarrow> thread_join (if join_ok then Some v else None) (wt_thr (ws_wt s)) (Some A_OK);
          if AFAILED ret then Some (s\<lparr>ws_wt := (ws_wt s)\<lparr>wt_thr := thr\<rparr>, ws_ctl := CP_Ready ret\<rparr>)
          else Some (s\<lparr>ws_wt := (ws_wt s)\<lparr>wt_thr := the (snd (thread_destroy (Some thr)))\<rparr>, ws_ctl := CP_Ready ret\<rparr>) }"

text \<open>A failing \<open>pthread_join\<close> returns at once, a successful one waits for the exit.\<close>

inductive wt_step :: "(u64 \<Rightarrow> bool list \<Rightarrow> int) \<Rightarrow> cas_state \<Rightarrow> 'f wt_sys \<Rightarrow> 'f wt_sys \<Rightarrow> bool" for setaffinity cas where
  worker: "worker_step setaffinity cas work s = Some s' \<Longrightarrow> wt_step setaffinity cas s s'"
| request: "ws_ctl s = CP_Ready r \<Longrightarrow> wt_step setaffinity cas s (worker_thread_request_shutdown s)"
| request_store: "ws_ctl s = CP_Request_Store \<Longrightarrow> wt_step setaffinity cas s (request_store s)"
| delete: "ws_ctl s = CP_Ready r \<Longrightarrow> wt_step setaffinity cas s (worker_thread_delete s)"
| join: "ws_ctl s = CP_Join \<Longrightarrow> ws_pc s = TP_Exited v \<Longrightarrow> delete_join True v s = Some s' \<Longrightarrow> wt_step setaffinity cas s s'"
| join_fails: "ws_ctl s = CP_Join \<Longrightarrow> delete_join False 0 s = Some s' \<Longrightarrow> wt_step setaffinity cas s s'"

text \<open>The states that can follow a successful \<open>worker_thread_new\<close>.\<close>

definition wt_initial :: "'f worker_thread \<Rightarrow> 'f wt_sys" where
  "wt_initial wt = \<lparr>ws_wt = wt, ws_pc = TP_Apply, ws_ctl = CP_Ready A_OK, ws_ran = False\<rparr>"

inductive wt_reachable ::
  "(u64 \<Rightarrow> bool list \<Rightarrow> int) \<Rightarrow> cas_state \<Rightarrow> 'f wt_sys \<Rightarrow> 'f wt_sys \<Rightarrow> bool" for setaffinity cas s0 where
  start: "wt_reachable setaffinity cas s0 s0"
| step: "wt_reachable setaffinity cas s0 s \<Longrightarrow> wt_step setaffinity cas s s' \<Longrightarrow> wt_reachable setaffinity cas s0 s'"

inductive_cases wt_stepE: "wt_step setaffinity cas s s'"

subsection \<open>The compare-and-swap of the concurrency kit\<close>

locale ck_cas =
  fixes cas :: cas_state
  assumes cas: "cas old expected new = (old = expected, if old = expected then new else old)"

definition cas_st :: cas_state where
  "cas_st old expected new = (if old = expected then (True, new) else (False, old))"

interpretation cas_st: ck_cas cas_st
  by unfold_locales (simp add: cas_st_def)

subsection \<open>The invariant\<close>

abbreviation shutting_down :: "worker_thread_state \<Rightarrow> bool" where
  "shutting_down st \<equiv> st = WORKER_THREAD_STATE_SHUTDOWN_REQUESTED \<or> st = WORKER_THREAD_STATE_SHUTDOWN"

text \<open>What holds at each position of the worker.\<close>

definition pc_ok :: "worker_pc thread_pc \<Rightarrow> worker_thread_state \<Rightarrow> worker_function thread option \<Rightarrow> bool \<Rightarrow> bool" where
  "pc_ok pc st thr entered \<longleftrightarrow>
     (let before_cas = (thr \<noteq> None \<and> (st = WORKER_THREAD_STATE_STARTING_UP \<or> st = WORKER_THREAD_STATE_SHUTDOWN_REQUESTED) \<and> \<not> entered)
      in case pc of
           TP_Apply \<Rightarrow> before_cas
         | TP_Mark_Running \<Rightarrow> before_cas
         | TP_Func WP_Cas \<Rightarrow> before_cas
         | TP_Func WP_Work \<Rightarrow> thr \<noteq> None \<and> entered \<and> (st = WORKER_THREAD_STATE_RUNNING \<or> st = WORKER_THREAD_STATE_SHUTDOWN_REQUESTED)
         | TP_Func (WP_Store r) \<Rightarrow> thr \<noteq> None \<and> (st = WORKER_THREAD_STATE_RUNNING \<or> st = WORKER_THREAD_STATE_SHUTDOWN_REQUESTED)
         | TP_Terminate r \<Rightarrow> thr \<noteq> None \<and> st \<noteq> WORKER_THREAD_STATE_IDLE
         | TP_Exited v \<Rightarrow> st \<noteq> WORKER_THREAD_STATE_IDLE)"

definition wt_ok :: "'f wt_sys \<Rightarrow> bool" where
  "wt_ok s \<longleftrightarrow> pc_ok (ws_pc s) (wt_st (ws_wt s)) (wt_thr (ws_wt s)) (ws_ran s) \<and>
     (ws_ctl s = CP_Join \<longrightarrow> wt_thr (ws_wt s) \<noteq> None \<and> shutting_down (wt_st (ws_wt s)))"

text \<open>The transitions that the comments of worker_thread.h allow.\<close>

definition documented_transition :: "worker_thread_state \<Rightarrow> worker_thread_state \<Rightarrow> bool" where
  "documented_transition st st' \<longleftrightarrow>
     (case st of
        WORKER_THREAD_STATE_IDLE \<Rightarrow> True
      | WORKER_THREAD_STATE_STARTING_UP \<Rightarrow> st' = WORKER_THREAD_STATE_RUNNING \<or> shutting_down st'
      | WORKER_THREAD_STATE_RUNNING \<Rightarrow> shutting_down st'
      | WORKER_THREAD_STATE_SHUTDOWN_REQUESTED \<Rightarrow> st' = WORKER_THREAD_STATE_SHUTDOWN
      | WORKER_THREAD_STATE_SHUTDOWN \<Rightarrow> False)"

text \<open>The worker alone, its work function returning \<open>r\<close>.\<close>

fun worker_run :: "(u64 \<Rightarrow> bool list \<Rightarrow> int) \<Rightarrow> cas_state \<Rightarrow> aresult_t \<Rightarrow> nat \<Rightarrow> 'f wt_sys \<Rightarrow> 'f wt_sys option" where
  "worker_run setaffinity cas r 0 s = Some s"
| "worker_run setaffinity cas r (Suc k) s = do { s \<leftarrow> worker_step setaffinity cas (Some r) s; worker_run setaffinity cas r k s }"

text \<open>The worker's steps to its exit.\<close>

fun pc_distance :: "worker_pc thread_pc \<Rightarrow> nat" where
  "pc_distance TP_Apply = 6"
| "pc_distance TP_Mark_Running = 5"
| "pc_distance (TP_Func WP_Cas) = 4"
| "pc_distance (TP_Func WP_Work) = 3"
| "pc_distance (TP_Func (WP_Store r)) = 2"
| "pc_distance (TP_Terminate r) = 1"
| "pc_distance (TP_Exited v) = 0"

lemma pc_distance_le: "pc_distance pc \<le> 6"
  by (cases pc rule: pc_distance.cases) simp_all

lemma worker_step_closer:
  assumes "wt_thr (ws_wt s) = Some thr" "\<forall>v. ws_pc s \<noteq> TP_Exited v"
  shows "\<exists>s' thr'. worker_step setaffinity cas (Some r) s = Some s' \<and> pc_distance (ws_pc s') < pc_distance (ws_pc s) \<and>
    wt_thr (ws_wt s') = Some thr'"
  using assms
  by (cases "ws_pc s" rule: pc_distance.cases)
    (auto simp: worker_step_def thread_wrapper_step_def Let_def split: prod.split)

text \<open>A work function that returns when its time comes brings the worker to its exit in at most six steps.\<close>

lemma worker_run_exits:
  assumes "wt_thr (ws_wt s) = Some thr"
  shows "\<exists>k \<le> 6. \<exists>s' v thr'. worker_run setaffinity cas r k s = Some s' \<and> ws_pc s' = TP_Exited v \<and> wt_thr (ws_wt s') = Some thr'"
proof -
  have "\<exists>k \<le> pc_distance (ws_pc s). \<exists>s' v thr'. worker_run setaffinity cas r k s = Some s' \<and> ws_pc s' = TP_Exited v \<and>
      wt_thr (ws_wt s') = Some thr'"
    using assms
  proof (induction "pc_distance (ws_pc s)" arbitrary: s thr rule: less_induct)
    case less
    show ?case
    proof (cases "\<exists>v. ws_pc s = TP_Exited v")
      case True
      then show ?thesis using less.prems by (intro exI [of _ "0::nat"]) auto
    next
      case False
      obtain s1 thr1 where s1: "worker_step setaffinity cas (Some r) s = Some s1" "pc_distance (ws_pc s1) < pc_distance (ws_pc s)"
          "wt_thr (ws_wt s1) = Some thr1"
        using worker_step_closer [OF less.prems] False by metis
      then obtain k s' v thr' where "k \<le> pc_distance (ws_pc s1)" "worker_run setaffinity cas r k s1 = Some s'"
          "ws_pc s' = TP_Exited v" "wt_thr (ws_wt s') = Some thr'"
        using less.hyps by blast
      then show ?thesis using s1 by (intro exI [of _ "Suc k"]) auto
    qed
  qed
  then show ?thesis using pc_distance_le [of "ws_pc s"] by (meson le_trans)
qed

lemma worker_run_reachable: "worker_run setaffinity cas r k s = Some s' \<Longrightarrow> wt_reachable setaffinity cas s0 s \<Longrightarrow> wt_reachable setaffinity cas s0 s'"
proof (induction k arbitrary: s)
  case (Suc k)
  then obtain s1 where "worker_step setaffinity cas (Some r) s = Some s1" "worker_run setaffinity cas r k s1 = Some s'"
    by (auto split: bind_splits)
  then show ?case using Suc.IH Suc.prems(2) by (meson wt_step.worker wt_reachable.step)
qed simp

text \<open>The two steps of \<open>worker_thread_request_shutdown\<close> in a row.\<close>

definition request_shutdown_call :: "'f wt_sys \<Rightarrow> 'f wt_sys" where
  "request_shutdown_call s =
     (let s = worker_thread_request_shutdown s in if ws_ctl s = CP_Request_Store then request_store s else s)"

lemma worker_thread_new_mask_started:
  assumes "worker_thread_new_mask al p params thr f pmsk = (ret, Some wt, pmsk', True)"
  shows "ret = A_OK" "wt_st wt = WORKER_THREAD_STATE_STARTING_UP" "wt_thr wt \<noteq> None"
  using assms
  by (cases al; cases p; auto simp: worker_thread_new_mask_def thread_create_def thread_start_def helper_thread_alloc_def
      split: if_splits)+

lemma worker_thread_new_state:
  assumes "worker_thread_new c a n al p params thr f cpu = (ret, Some wt, True)"
  shows "ret = A_OK" "wt_st wt = WORKER_THREAD_STATE_STARTING_UP" "\<exists>t. wt_thr wt = Some t"
proof -
  obtain msk pmsk' where "worker_thread_new_mask al p params thr f (Some msk) = (ret, Some wt, pmsk', True)"
    using assms by (auto simp: worker_thread_new_def split: if_splits prod.splits)
  note started = worker_thread_new_mask_started [OF this]
  show "ret = A_OK" "wt_st wt = WORKER_THREAD_STATE_STARTING_UP" "\<exists>t. wt_thr wt = Some t" using started by auto
qed

lemma worker_thread_new_started:
  "worker_thread_new c a n al p params thr f cpu = (ret, Some wt, True) \<Longrightarrow> wt_ok (wt_initial wt)"
  using worker_thread_new_state by (fastforce simp: wt_ok_def wt_initial_def pc_ok_def)

context ck_cas
begin

lemma worker_step_ok:
  assumes "wt_ok s" "worker_step setaffinity cas work s = Some s'"
  shows "wt_ok s'"
proof (cases "ws_pc s")
  case (TP_Func p)
  then show ?thesis
    using assms by (cases p) (auto simp: wt_ok_def pc_ok_def worker_step_def cas split: option.splits if_splits)
next
  case (TP_Exited v)
  then show ?thesis using assms by (simp add: worker_step_def thread_wrapper_step_def)
qed (use assms in \<open>auto simp: wt_ok_def pc_ok_def worker_step_def thread_wrapper_step_def Let_def split: if_splits\<close>)

lemma pc_ok_request: "pc_ok pc st thr entered \<Longrightarrow> pc_ok pc WORKER_THREAD_STATE_SHUTDOWN_REQUESTED thr entered"
  by (auto simp: pc_ok_def Let_def split: thread_pc.splits worker_pc.splits)

lemma pc_ok_exited: "pc_ok (TP_Exited v) st thr entered \<longleftrightarrow> st \<noteq> WORKER_THREAD_STATE_IDLE"
  by (simp add: pc_ok_def)

lemma control_step_ok:
  assumes "wt_ok s"
  shows "wt_ok (worker_thread_request_shutdown s)" "wt_ok (request_store s)" "wt_ok (worker_thread_delete s)"
  using assms pc_ok_request
  by (auto simp: wt_ok_def worker_thread_request_shutdown_def request_store_def worker_thread_delete_def)

lemma delete_join_ok:
  assumes "wt_ok s" "delete_join ok v s = Some s'" "ok \<Longrightarrow> ws_pc s = TP_Exited v" "ws_ctl s = CP_Join"
  shows "wt_ok s'"
proof -
  obtain thr where thr: "wt_thr (ws_wt s) = Some thr" using assms(1,4) by (auto simp: wt_ok_def)
  show ?thesis
    using assms thr by (cases ok) (auto simp: wt_ok_def pc_ok_exited delete_join_def thread_join_def thread_destroy_def)
qed

lemma wt_step_ok: "wt_step setaffinity cas s s' \<Longrightarrow> wt_ok s \<Longrightarrow> wt_ok s'"
  by (erule wt_stepE) (auto intro: worker_step_ok control_step_ok delete_join_ok)

lemma wt_reachable_ok: "wt_reachable setaffinity cas s0 s \<Longrightarrow> wt_ok s0 \<Longrightarrow> wt_ok s"
  by (induction rule: wt_reachable.induct) (auto intro: wt_step_ok)

text \<open>The worker always has its next step until it exits: the struct it uses is still there.\<close>

lemma worker_step_defined:
  assumes "wt_ok s" "\<forall>v. ws_pc s \<noteq> TP_Exited v"
  shows "worker_step setaffinity cas work s \<noteq> None"
  using assms
  by (auto simp: wt_ok_def pc_ok_def worker_step_def cas thread_wrapper_step_def Let_def
      split: thread_pc.splits worker_pc.splits)

text \<open>A request to shut down is never undone, and it keeps a work function that has not been entered from being entered.\<close>

lemma worker_step_shutting_down:
  assumes "worker_step setaffinity cas work s = Some s'" "shutting_down (wt_st (ws_wt s))"
  shows "shutting_down (wt_st (ws_wt s'))" "ws_ran s' = ws_ran s"
  using assms
  by (auto simp: worker_step_def cas Let_def split: thread_pc.splits worker_pc.splits option.splits bind_splits)

lemma delete_join_frame:
  assumes "delete_join ok v s = Some s'"
  shows "wt_st (ws_wt s') = wt_st (ws_wt s)" "ws_ran s' = ws_ran s" "ws_pc s' = ws_pc s"
  using assms by (auto simp: delete_join_def split: bind_splits if_splits)

lemma wt_step_shutting_down:
  assumes "wt_step setaffinity cas s s'" "shutting_down (wt_st (ws_wt s))"
  shows "shutting_down (wt_st (ws_wt s')) \<and> ws_ran s' = ws_ran s"
  using assms(1)
proof cases
  case (worker work)
  then show ?thesis using worker_step_shutting_down assms(2) by blast
next
  case (join v)
  then show ?thesis using delete_join_frame assms(2) by metis
next
  case join_fails
  then show ?thesis using delete_join_frame assms(2) by metis
qed (use assms(2) in \<open>auto simp: worker_thread_request_shutdown_def request_store_def worker_thread_delete_def\<close>)

lemma wt_reachable_shutting_down:
  "wt_reachable setaffinity cas s0 s \<Longrightarrow> shutting_down (wt_st (ws_wt s0)) \<Longrightarrow>
   shutting_down (wt_st (ws_wt s)) \<and> ws_ran s = ws_ran s0"
  by (induction rule: wt_reachable.induct) (use wt_step_shutting_down in blast)+

text \<open>The transitions of \<open>st\<close> that the steps make.\<close>

lemma worker_step_transition:
  assumes "wt_ok s" "worker_step setaffinity cas work s = Some s'"
  shows "wt_st (ws_wt s') = wt_st (ws_wt s) \<or> documented_transition (wt_st (ws_wt s)) (wt_st (ws_wt s'))"
proof (cases "ws_pc s")
  case (TP_Func p)
  then show ?thesis
    using assms
    by (cases p) (auto simp: wt_ok_def pc_ok_def worker_step_def cas documented_transition_def split: option.splits if_splits)
qed (use assms in \<open>auto simp: worker_step_def thread_wrapper_step_def Let_def split: option.splits\<close>)

lemma wt_step_transition:
  assumes "wt_step setaffinity cas s s'" "wt_ok s"
  shows "wt_st (ws_wt s') = wt_st (ws_wt s) \<or> documented_transition (wt_st (ws_wt s)) (wt_st (ws_wt s')) \<or>
    wt_st (ws_wt s) = WORKER_THREAD_STATE_SHUTDOWN \<and> wt_st (ws_wt s') = WORKER_THREAD_STATE_SHUTDOWN_REQUESTED"
  using assms(1)
proof cases
  case (worker work)
  then show ?thesis using worker_step_transition assms(2) by blast
next
  case request_store
  then show ?thesis
    by (cases "wt_st (ws_wt s)") (simp_all add: request_store_def documented_transition_def)
next
  case (join v)
  then show ?thesis using delete_join_frame(1) by blast
next
  case join_fails
  then show ?thesis using delete_join_frame(1) by blast
qed (simp_all add: worker_thread_request_shutdown_def worker_thread_delete_def)

end

subsection \<open>Properties\<close>

text \<open>A worker that was started, for the witnesses.\<close>

definition sample_worker :: "nat worker_thread" where
  "sample_worker = the (fst (snd (worker_thread_new True True 4 True (Some 7) 0x100
     (Some \<lparr>wt_st = WORKER_THREAD_STATE_IDLE, wt_thr = None, wt_work_func = None\<rparr>) (Some 1) 2)))"

lemma sample_worker_started:
  "worker_thread_new True True 4 True (Some 7) 0x100
     (Some \<lparr>wt_st = WORKER_THREAD_STATE_IDLE, wt_thr = None, wt_work_func = None\<rparr>) (Some 1) 2 = (A_OK, Some sample_worker, True)"
  unfolding sample_worker_def by code_simp

text \<open>Claim C9. In every interleaving of a started worker with any sequence of request and delete calls of its
  controlling thread, the worker never uses a freed \<open>struct thread\<close>: until it has exited the struct exists and its next step
  is defined. The struct is freed only after the exit.\<close>

theorem worker_thread_never_freed_in_use:
  assumes "ck_cas cas" and "worker_thread_new c a n al p params thr f cpu = (ret, Some wt, True)"
    and "wt_reachable setaffinity cas (wt_initial wt) s"
  shows "(\<exists>v. ws_pc s = TP_Exited v) \<or> wt_thr (ws_wt s) \<noteq> None \<and> worker_step setaffinity cas work s \<noteq> None"
proof -
  have ok: "wt_ok s" using ck_cas.wt_reachable_ok [OF assms(1,3)] worker_thread_new_started [OF assms(2)] by blast
  then show ?thesis
    using ck_cas.worker_step_defined [OF assms(1) ok]
    by (auto simp: wt_ok_def pc_ok_def Let_def split: thread_pc.splits worker_pc.splits)
qed

theorem worker_thread_never_freed_in_use_witness:
  "wt_thr (ws_wt (worker_thread_request_shutdown (wt_initial sample_worker))) \<noteq> None \<and>
   worker_step (\<lambda>sz bits. 0) cas_st None (worker_thread_request_shutdown (wt_initial sample_worker)) \<noteq> None"
proof -
  have "wt_step (\<lambda>sz bits. 0) cas_st (wt_initial sample_worker) (worker_thread_request_shutdown (wt_initial sample_worker))"
    by (rule wt_step.request [of _ A_OK]) (simp add: wt_initial_def)
  then have "wt_reachable (\<lambda>sz bits. 0) cas_st (wt_initial sample_worker) (worker_thread_request_shutdown (wt_initial sample_worker))"
    by (rule wt_reachable.step [OF wt_reachable.start])
  from worker_thread_never_freed_in_use [OF cas_st.ck_cas_axioms sample_worker_started this]
  have "(\<exists>v. ws_pc (worker_thread_request_shutdown (wt_initial sample_worker)) = TP_Exited v) \<or> ?thesis" .
  moreover have "ws_pc (worker_thread_request_shutdown (wt_initial sample_worker)) = TP_Apply"
    by (simp add: wt_initial_def worker_thread_request_shutdown_def)
  ultimately show ?thesis by simp
qed

text \<open>Claim C24. A shutdown request that is stored before the worker has entered its work function keeps it out for good:
  from a state with a request (or a completed shutdown) in which the function was not entered, no interleaving enters it, and
  the state word never goes back to running.\<close>

theorem worker_thread_no_late_start:
  assumes "ck_cas cas" and "wt_reachable setaffinity cas s s'"
    and "wt_st (ws_wt s) = WORKER_THREAD_STATE_SHUTDOWN_REQUESTED \<or> wt_st (ws_wt s) = WORKER_THREAD_STATE_SHUTDOWN" "\<not> ws_ran s"
  shows "\<not> ws_ran s' \<and> worker_thread_is_running (ws_wt s') = 0"
  using ck_cas.wt_reachable_shutting_down [OF assms(1,2)] assms(3,4) by (auto simp: worker_thread_is_running_def)

theorem worker_thread_no_late_start_witness:
  "\<exists>s'. worker_run (\<lambda>sz bits. 0) cas_st 5 3 (request_shutdown_call (wt_initial sample_worker)) = Some s' \<and>
     ws_pc s' = TP_Func (WP_Store A_OK) \<and> \<not> ws_ran s' \<and> worker_thread_is_running (ws_wt s') = 0"
proof -
  let ?s = "request_shutdown_call (wt_initial sample_worker)"
  have "map_option ws_pc (worker_run (\<lambda>sz bits. 0) cas_st 5 3 ?s) = Some (TP_Func (WP_Store A_OK))" by code_simp
  then obtain s' where s': "worker_run (\<lambda>sz bits. 0) cas_st 5 3 ?s = Some s'" "ws_pc s' = TP_Func (WP_Store A_OK)" by auto
  have "wt_st (ws_wt ?s) = WORKER_THREAD_STATE_SHUTDOWN_REQUESTED" "\<not> ws_ran ?s" by code_simp+
  then show ?thesis
    using worker_thread_no_late_start [OF cas_st.ck_cas_axioms worker_run_reachable [OF s'(1) wt_reachable.start]] s' by auto
qed

text \<open>Claim C23. Shutdown completes: from every reachable state in which the controlling thread is between calls and the thread
  has not been reaped, a request followed by at most six steps of the worker (its work function returning) brings the worker to
  its exit, and then \<open>worker_thread_delete\<close> goes through the join, answers A_OK and frees the thread.\<close>

theorem worker_thread_shutdown_completes:
  assumes "ck_cas cas" and "worker_thread_new c a n al p params thr f cpu = (ret, Some wt, True)"
    and "wt_reachable setaffinity cas (wt_initial wt) s" "ws_ctl s = CP_Ready q" "wt_thr (ws_wt s) \<noteq> None"
  shows "\<exists>k \<le> 6. \<exists>s1 v s2. worker_run setaffinity cas r k (request_shutdown_call s) = Some s1 \<and> ws_pc s1 = TP_Exited v \<and>
    ws_ctl (worker_thread_delete s1) = CP_Join \<and> delete_join True v (worker_thread_delete s1) = Some s2 \<and>
    ws_ctl s2 = CP_Ready A_OK \<and> wt_thr (ws_wt s2) = None"
proof -
  let ?q = "request_shutdown_call s"
  have "wt_ok s" using ck_cas.wt_reachable_ok [OF assms(1,3)] worker_thread_new_started [OF assms(2)] by blast
  then have "wt_st (ws_wt s) \<noteq> WORKER_THREAD_STATE_IDLE"
    by (auto simp: wt_ok_def pc_ok_def Let_def split: thread_pc.splits worker_pc.splits)
  then have q: "shutting_down (wt_st (ws_wt ?q))"
    by (cases "wt_st (ws_wt s)")
      (simp_all add: request_shutdown_call_def worker_thread_request_shutdown_def request_store_def)
  have "wt_thr (ws_wt ?q) = wt_thr (ws_wt s)"
    by (simp add: request_shutdown_call_def worker_thread_request_shutdown_def request_store_def Let_def)
  then obtain thr where "wt_thr (ws_wt ?q) = Some thr" using assms(5) by auto
  from worker_run_exits [OF this] obtain k s1 v thr1 where k: "k \<le> 6" "worker_run setaffinity cas r k ?q = Some s1"
    "ws_pc s1 = TP_Exited v" "wt_thr (ws_wt s1) = Some thr1" by blast
  have "shutting_down (wt_st (ws_wt s1))"
    using ck_cas.wt_reachable_shutting_down [OF assms(1) worker_run_reachable [OF k(2) wt_reachable.start] q] by blast
  then have "worker_thread_delete s1 = s1\<lparr>ws_ctl := CP_Join\<rparr>" using k(4) by (auto simp: worker_thread_delete_def)
  then show ?thesis
    using k by (intro exI [of _ k]) (auto simp: delete_join_def thread_join_def thread_destroy_def)
qed

theorem worker_thread_shutdown_completes_witness:
  "\<exists>k \<le> 6. \<exists>s1 v s2. worker_run (\<lambda>sz bits. 0) cas_st 9 k (request_shutdown_call (wt_initial sample_worker)) = Some s1 \<and>
     ws_pc s1 = TP_Exited v \<and> delete_join True v (worker_thread_delete s1) = Some s2 \<and> wt_thr (ws_wt s2) = None"
proof -
  have "ws_ctl (wt_initial sample_worker) = CP_Ready A_OK" "wt_thr (ws_wt (wt_initial sample_worker)) \<noteq> None" by code_simp+
  then show ?thesis
    using worker_thread_shutdown_completes [OF cas_st.ck_cas_axioms sample_worker_started wt_reachable.start, of A_OK "\<lambda>sz bits. 0" 9]
    by blast
qed

text \<open>Every change of the state word along an interleaving is one that the comments of the enumeration allow, with
  one exception: a request that has read the state before the worker finished overwrites the terminal state SHUTDOWN with
  SHUTDOWN_REQUESTED.\<close>

theorem worker_thread_transitions:
  assumes "ck_cas cas" and "worker_thread_new c a n al p params thr f cpu = (ret, Some wt, True)"
    and "wt_reachable setaffinity cas (wt_initial wt) s" "wt_step setaffinity cas s s'"
  shows "wt_st (ws_wt s') = wt_st (ws_wt s) \<or> documented_transition (wt_st (ws_wt s)) (wt_st (ws_wt s')) \<or>
    wt_st (ws_wt s) = WORKER_THREAD_STATE_SHUTDOWN \<and> wt_st (ws_wt s') = WORKER_THREAD_STATE_SHUTDOWN_REQUESTED"
  using ck_cas.wt_step_transition [OF assms(1,4)] ck_cas.wt_reachable_ok [OF assms(1,3)] worker_thread_new_started [OF assms(2)]
  by blast

text \<open>The exception occurs: the controlling thread reads STARTING_UP, the worker runs to its end, then the request is stored.\<close>

theorem worker_thread_transitions_witness:
  "\<exists>s s'. wt_reachable (\<lambda>sz bits. 0) cas_st (wt_initial sample_worker) s \<and> wt_step (\<lambda>sz bits. 0) cas_st s s' \<and>
     wt_st (ws_wt s) = WORKER_THREAD_STATE_SHUTDOWN \<and> wt_st (ws_wt s') = WORKER_THREAD_STATE_SHUTDOWN_REQUESTED"
proof -
  let ?q = "worker_thread_request_shutdown (wt_initial sample_worker)"
  have "wt_step (\<lambda>sz bits. 0) cas_st (wt_initial sample_worker) ?q"
    by (rule wt_step.request [of _ A_OK]) (simp add: wt_initial_def)
  then have q: "wt_reachable (\<lambda>sz bits. 0) cas_st (wt_initial sample_worker) ?q"
    by (rule wt_reachable.step [OF wt_reachable.start])
  have "map_option (\<lambda>s. (wt_st (ws_wt s), ws_ctl s)) (worker_run (\<lambda>sz bits. 0) cas_st A_OK 6 ?q) =
      Some (WORKER_THREAD_STATE_SHUTDOWN, CP_Request_Store)" by code_simp
  then obtain s where s: "worker_run (\<lambda>sz bits. 0) cas_st A_OK 6 ?q = Some s" "wt_st (ws_wt s) = WORKER_THREAD_STATE_SHUTDOWN"
    "ws_ctl s = CP_Request_Store" by auto
  have r: "wt_reachable (\<lambda>sz bits. 0) cas_st (wt_initial sample_worker) s" by (rule worker_run_reachable [OF s(1) q])
  have st: "wt_step (\<lambda>sz bits. 0) cas_st s (request_store s)" by (rule wt_step.request_store [OF s(3)])
  have "wt_st (ws_wt (request_store s)) = WORKER_THREAD_STATE_SHUTDOWN_REQUESTED" by (simp add: request_store_def)
  with worker_thread_transitions [OF cas_st.ck_cas_axioms sample_worker_started r st] s(2) r st show ?thesis
    by (auto simp: documented_transition_def)
qed

text \<open>A worker whose CPU mask the kernel refuses ends without entering its work function and without any trace in the
  state word: it stays at STARTING_UP, and \<open>worker_thread_delete\<close> answers A_E_BUSY for a thread that has already exited.\<close>

theorem worker_thread_affinity_failure:
  assumes "worker_thread_new c a n al p params thr f cpu = (ret, Some wt, True)" and "\<forall>sz bits. setaffinity sz bits \<noteq> 0"
  shows "\<exists>s v. worker_run setaffinity cas r 2 (wt_initial wt) = Some s \<and> ws_pc s = TP_Exited v \<and> \<not> ws_ran s \<and>
    wt_st (ws_wt s) = WORKER_THREAD_STATE_STARTING_UP \<and> ws_ctl (worker_thread_delete s) = CP_Ready A_E_BUSY"
proof -
  obtain thr where t: "wt_thr wt = Some thr" "wt_st wt = WORKER_THREAD_STATE_STARTING_UP"
    using worker_thread_new_state [OF assms(1)] by blast
  have "cpu_mask_apply setaffinity (th_mask thr) \<noteq> A_OK"
    using assms(2) by (auto simp: cpu_mask_apply_def aresult_vals split: option.split)
  then show ?thesis
    using t by (auto simp: numeral_2_eq_2 worker_step_def thread_wrapper_step_def wt_initial_def Let_def worker_thread_delete_def)
qed

theorem worker_thread_affinity_failure_witness:
  "\<exists>s v. worker_run (\<lambda>sz bits. -1) cas_st A_OK 2 (wt_initial sample_worker) = Some s \<and> ws_pc s = TP_Exited v \<and>
     ws_ctl (worker_thread_delete s) = CP_Ready A_E_BUSY"
  using worker_thread_affinity_failure [OF sample_worker_started, of "\<lambda>sz bits. -1" cas_st A_OK] by auto

end
