(* ===== verification/Work_Thread.thy ===== *)
theory Work_Thread
  imports TSL_List Work_Queue Threading
begin

section \<open>Offload threads and their endpoints (tsl/offload/endpoint.c, tsl/offload/thread.c)\<close>

text \<open>
  A work thread polls a list of work endpoints. The callbacks of an endpoint are arbitrary functions on a world of
  type \<open>'w\<close>, which stands for everything but the endpoints and the list entries; \<open>time_get_time\<close> (\<open>clock\<close>) and \<open>usleep\<close>
  also act on it. Endpoints are structs in the memory \<open>eps\<close>; the entries \<open>wnode\<close> that link them lie in the list
  memory \<open>nodes\<close>, 16 bytes into the endpoint (after two pointers).
\<close>

subsection \<open>Endpoints\<close>

record 'w work_endpoint_ops =
  op_poll :: "(addr \<Rightarrow> u32 \<Rightarrow> 'w \<Rightarrow> aresult_t \<times> u32 \<times> 'w) option"
  op_startup :: "(addr \<Rightarrow> 'w \<Rightarrow> aresult_t \<times> 'w) option"
  op_shutdown :: "(addr \<Rightarrow> 'w \<Rightarrow> aresult_t \<times> 'w) option"

record 'w work_endpoint =
  we_ops :: "'w work_endpoint_ops option"
  we_priv :: addr
  we_next_poll :: u64
  we_mode :: u32

record 'w ep_state =
  eps :: "addr \<Rightarrow> 'w work_endpoint"
  nodes :: list_mem
  world :: 'w

definition wnode :: "addr \<Rightarrow> addr" where
  "wnode ep = ep + 16"

abbreviation wnode_ep :: "addr \<Rightarrow> addr" where
  "wnode_ep n \<equiv> LIST_ITEM n 16"

definition work_endpoint_init ::
  "'w ep_state \<Rightarrow> addr \<Rightarrow> 'w work_endpoint_ops option \<Rightarrow> addr \<Rightarrow> aresult_t \<times> 'w ep_state" where
  "work_endpoint_init s ep ops state =
     (case ops of
        None \<Rightarrow> (A_E_BADARGS, s)
      | Some ops' \<Rightarrow>
          if ep = NULL \<or> state = NULL then (A_E_BADARGS, s)
          else if \<not> (op_poll ops' \<noteq> None \<or> op_startup ops' \<noteq> None \<or> op_shutdown ops' \<noteq> None) then (A_E_BADARGS, s)
          else (A_OK, s\<lparr>eps := (eps s)(ep := \<lparr>we_ops = ops, we_priv = state, we_next_poll = 0, we_mode = 0\<rparr>),
                        nodes := list_init (nodes s) (wnode ep)\<rparr>))"

definition work_endpoint_startup :: "'w ep_state \<Rightarrow> addr \<Rightarrow> aresult_t \<times> 'w ep_state" where
  "work_endpoint_startup s ep =
     (if ep = NULL then (A_E_BADARGS, s)
      else case we_ops (eps s ep) of
        None \<Rightarrow> (A_E_BADARGS, s)
      | Some ops \<Rightarrow>
          (case op_startup ops of
             None \<Rightarrow> (A_OK, s)
           | Some f \<Rightarrow> let (ret, w) = f ep (world s) in (ret, s\<lparr>world := w\<rparr>)))"

text \<open>The waiting time is multiplied by 1000000 as an \<open>unsigned int\<close> and then added to a 64-bit time.\<close>

definition work_endpoint_poll ::
  "('w \<Rightarrow> u64 \<times> 'w) \<Rightarrow> 'w ep_state \<Rightarrow> addr \<Rightarrow> u32 option \<Rightarrow> aresult_t \<times> u32 option \<times> 'w ep_state" where
  "work_endpoint_poll clock s ep wait =
     (if ep = NULL then (A_E_BADARGS, wait, s)
      else case (wait, we_ops (eps s ep)) of
        (Some wv, Some ops) \<Rightarrow>
          (case op_poll ops of
             None \<Rightarrow> (A_OK, wait, s)
           | Some f \<Rightarrow>
               let (ret, wv, w) = f ep wv (world s);
                   (now, w) = clock w
               in (ret, Some wv, s\<lparr>eps := (eps s)(ep := (eps s ep)\<lparr>we_next_poll := now + ucast (wv * 1000000)\<rparr>), world := w\<rparr>))
      | _ \<Rightarrow> (A_E_BADARGS, wait, s))"

definition work_endpoint_shutdown :: "'w ep_state \<Rightarrow> addr \<Rightarrow> aresult_t \<times> 'w ep_state" where
  "work_endpoint_shutdown s ep =
     (if ep = NULL then (A_E_BADARGS, s)
      else case we_ops (eps s ep) of
        None \<Rightarrow> (A_E_BADARGS, s)
      | Some ops \<Rightarrow>
          (case op_shutdown ops of
             None \<Rightarrow> (A_OK, s)
           | Some f \<Rightarrow> let (ret, w) = f ep (world s) in (ret, s\<lparr>world := w\<rparr>)))"

subsection \<open>The thread function\<close>

definition WORK_THREAD_MAX_QUEUED_ENDPOINTS :: nat where "WORK_THREAD_MAX_QUEUED_ENDPOINTS = 32"
definition WORK_THREAD_ALIVE :: u32 where "WORK_THREAD_ALIVE = 0"
definition WORK_THREAD_DEAD :: u32 where "WORK_THREAD_DEAD = 1"
definition WORK_THREAD_FAST_SHUTDOWN :: u32 where "WORK_THREAD_FAST_SHUTDOWN = 2"

text \<open>The loop of \<open>__work_thread_check_new_endpoints\<close>: \<open>head\<close> is the address of the list \<open>work_endpoints\<close>, \<open>ep\<close> the content
  of the local variable that receives the popped pointer.\<close>

function new_endpoints_loop ::
  "'r ck_ring \<Rightarrow> addr \<Rightarrow> nat \<Rightarrow> addr \<Rightarrow> 'r work_queue option \<Rightarrow> 'w ep_state \<Rightarrow> 'r work_queue option \<times> 'w ep_state" where
  "new_endpoints_loop ck head i ep q s =
     (let (_, q, p) = work_queue_pop ck q (Some ep);
          ep = the p
      in if ep \<noteq> NULL \<and> i > 1
         then let (_, s) = work_endpoint_startup s ep
              in new_endpoints_loop ck head (i - 1) ep q (s\<lparr>nodes := list_append (nodes s) head (wnode ep)\<rparr>)
         else (q, s))"
  by pat_completeness auto
termination
  by (relation "measure (\<lambda>(ck, head, i, ep, q, s). i)") auto

declare new_endpoints_loop.simps [simp del]

definition work_thread_check_new_endpoints ::
  "'r ck_ring \<Rightarrow> addr \<Rightarrow> 'r work_queue option \<Rightarrow> 'w ep_state \<Rightarrow> 'r work_queue option \<times> 'w ep_state" where
  "work_thread_check_new_endpoints ck head q s =
     new_endpoints_loop ck head (WORK_THREAD_MAX_QUEUED_ENDPOINTS div 2) NULL q s"

text \<open>The body of the polling loop: the flag tells that the endpoint failed and was shut down; it is then taken off the list.\<close>

definition poll_endpoint :: "('w \<Rightarrow> u64 \<times> 'w) \<Rightarrow> addr \<Rightarrow> u32 \<Rightarrow> 'w ep_state \<Rightarrow> bool \<times> u32 \<times> 'w ep_state" where
  "poll_endpoint clock ep min_wait s =
     (let (now, w) = clock (world s);
          s = s\<lparr>world := w\<rparr>
      in if we_next_poll (eps s ep) > now then (False, min_wait, s)
         else let (poll_ret, millis, s) = work_endpoint_poll clock s ep (Some 0);
                  min_wait = (if the millis < min_wait then the millis else min_wait)
              in if AFAILED poll_ret then (True, min_wait, snd (work_endpoint_shutdown s ep)) else (False, min_wait, s))"

partial_function (option) poll_loop ::
  "('w \<Rightarrow> u64 \<times> 'w) \<Rightarrow> addr \<Rightarrow> addr \<Rightarrow> addr \<Rightarrow> u32 \<Rightarrow> 'w ep_state \<Rightarrow> (u32 \<times> 'w ep_state) option" where
  "poll_loop clock head ep temp min_wait s =
     (if wnode ep = head then Some (min_wait, s)
      else let (failed, min_wait, s) = poll_endpoint clock ep min_wait s;
               s = (if failed then s\<lparr>nodes := list_del (nodes s) (wnode ep)\<rparr> else s)
           in poll_loop clock head temp (wnode_ep (le_next (nodes s (wnode temp)))) min_wait s)"

partial_function (option) shutdown_loop :: "addr \<Rightarrow> addr \<Rightarrow> addr \<Rightarrow> 'w ep_state \<Rightarrow> 'w ep_state option" where
  "shutdown_loop head ep temp s =
     (if wnode ep = head then Some s
      else let (_, s) = work_endpoint_shutdown s ep;
               s = s\<lparr>nodes := list_del (nodes s) (wnode ep)\<rparr>
           in shutdown_loop head temp (wnode_ep (le_next (nodes s (wnode temp)))) s)"

text \<open>The first two positions of \<open>list_for_each_type_safe\<close>.\<close>

definition first_ep :: "'w ep_state \<Rightarrow> addr \<Rightarrow> addr" where
  "first_ep s head = wnode_ep (le_next (nodes s head))"

definition second_ep :: "'w ep_state \<Rightarrow> addr \<Rightarrow> addr" where
  "second_ep s head = wnode_ep (le_next (nodes s (wnode (first_ep s head))))"

text \<open>One iteration of the thread: new endpoints, polls, sleep.\<close>

definition work_thread_iteration ::
  "'r ck_ring \<Rightarrow> ('w \<Rightarrow> u64 \<times> 'w) \<Rightarrow> (u32 \<Rightarrow> 'w \<Rightarrow> 'w) \<Rightarrow> addr \<Rightarrow> 'r work_queue option \<Rightarrow> 'w ep_state \<Rightarrow>
   ('r work_queue option \<times> 'w ep_state) option" where
  "work_thread_iteration ck clock usleep head q s =
     (let (q, s) = work_thread_check_new_endpoints ck head q s
      in do { (min_wait, s) \<leftarrow> poll_loop clock head (first_ep s head) (second_ep s head) 5 s;
              Some (q, if min_wait > 0 then s\<lparr>world := usleep (min_wait * 1000) (world s)\<rparr> else s) })"

text \<open>The thread function. The list gives what the thread reads from \<open>signal_death\<close> at each iteration; \<open>None\<close> if the readings
  run out while it is alive.\<close>

fun work_thread_worker_func ::
  "'r ck_ring \<Rightarrow> ('w \<Rightarrow> u64 \<times> 'w) \<Rightarrow> (u32 \<Rightarrow> 'w \<Rightarrow> 'w) \<Rightarrow> addr \<Rightarrow> u32 list \<Rightarrow> 'r work_queue option \<Rightarrow> 'w ep_state \<Rightarrow>
   (aresult_t \<times> 'r work_queue option \<times> 'w ep_state) option" where
  "work_thread_worker_func ck clock usleep head [] q s = None"
| "work_thread_worker_func ck clock usleep head (signal # signals) q s =
     (if signal = WORK_THREAD_ALIVE
      then do { (q, s) \<leftarrow> work_thread_iteration ck clock usleep head q s;
                work_thread_worker_func ck clock usleep head signals q s }
      else do { s \<leftarrow> shutdown_loop head (first_ep s head) (second_ep s head) s; Some (A_OK, q, s) })"

end
