(* ===== verification/Work_Thread_Spec.thy ===== *)
theory Work_Thread_Spec
  imports Work_Thread
begin

section \<open>Offload threads against lists of endpoints\<close>

text \<open>
  What the loops over the linked list of endpoints do, stated on the list of endpoints itself: polling visits every
  endpoint once, in order, and keeps those that did not fail; shutting down visits every endpoint once and empties the list.
  The loops are shown to return.
\<close>

subsection \<open>Frames\<close>

lemma wnode_inverse [simp]: "wnode (wnode_ep n) = n" "wnode_ep (wnode ep) = ep"
  by (simp_all add: wnode_def LIST_ITEM_def)

lemma inj_wnode: "inj wnode"
  by (simp add: wnode_def inj_def)

lemma startup_nodes [simp]: "nodes (snd (work_endpoint_startup s ep)) = nodes s"
  by (simp add: work_endpoint_startup_def split: option.split prod.split)

lemma startup_frame: "snd (work_endpoint_startup (s\<lparr>nodes := m\<rparr>) ep) = snd (work_endpoint_startup s ep)\<lparr>nodes := m\<rparr>"
  by (simp add: work_endpoint_startup_def split: option.split prod.split)

lemma shutdown_nodes [simp]: "nodes (snd (work_endpoint_shutdown s ep)) = nodes s"
  by (simp add: work_endpoint_shutdown_def split: option.split prod.split)

lemma shutdown_frame: "snd (work_endpoint_shutdown (s\<lparr>nodes := m\<rparr>) ep) = snd (work_endpoint_shutdown s ep)\<lparr>nodes := m\<rparr>"
  by (simp add: work_endpoint_shutdown_def split: option.split prod.split)

lemma poll_frame:
  "work_endpoint_poll clock (s\<lparr>nodes := m\<rparr>) ep v =
     (case work_endpoint_poll clock s ep v of (ret, v, s) \<Rightarrow> (ret, v, s\<lparr>nodes := m\<rparr>))"
  by (simp add: work_endpoint_poll_def split: option.split prod.split)

lemma poll_endpoint_frame:
  "poll_endpoint clock ep mw (s\<lparr>nodes := m\<rparr>) =
     (case poll_endpoint clock ep mw s of (failed, mw, s) \<Rightarrow> (failed, mw, s\<lparr>nodes := m\<rparr>))"
proof -
  obtain now w where c: "clock (world s) = (now, w)" by fastforce
  obtain ret v s' where p: "work_endpoint_poll clock (s\<lparr>world := w\<rparr>) ep (Some 0) = (ret, v, s')" by (metis surj_pair)
  have eq: "s\<lparr>nodes := m, world := w\<rparr> = s\<lparr>world := w, nodes := m\<rparr>" by simp
  have "work_endpoint_poll clock (s\<lparr>world := w, nodes := m\<rparr>) ep (Some 0) = (ret, v, s'\<lparr>nodes := m\<rparr>)"
    using poll_frame [of clock m "s\<lparr>world := w\<rparr>" ep "Some 0"] p by simp
  then show ?thesis using c p by (simp add: poll_endpoint_def shutdown_frame eq Let_def)
qed

lemma poll_endpoint_nodes:
  assumes "poll_endpoint clock ep mw s = (failed, mw', s')"
  shows "nodes s' = nodes s"
proof -
  have "s' = s'\<lparr>nodes := nodes s\<rparr>" using poll_endpoint_frame [of clock ep mw "nodes s" s] assms by simp
  then have "nodes s' = nodes (s'\<lparr>nodes := nodes s\<rparr>)" by (rule arg_cong)
  then show ?thesis by simp
qed

subsection \<open>Polling\<close>

text \<open>Polling a list of endpoints: the endpoints that stay, the shortest wait and the state.\<close>

fun poll_all :: "('w \<Rightarrow> u64 \<times> 'w) \<Rightarrow> addr list \<Rightarrow> u32 \<Rightarrow> 'w ep_state \<Rightarrow> addr list \<times> u32 \<times> 'w ep_state" where
  "poll_all clock [] mw s = ([], mw, s)"
| "poll_all clock (x # xs) mw s =
     (let (failed, mw, s) = poll_endpoint clock x mw s;
          (ks, mw, s) = poll_all clock xs mw s
      in (if failed then ks else x # ks, mw, s))"

lemma poll_all_frame:
  "poll_all clock xs mw (s\<lparr>nodes := m\<rparr>) = (case poll_all clock xs mw s of (ks, mw, s) \<Rightarrow> (ks, mw, s\<lparr>nodes := m\<rparr>))"
proof (induction xs arbitrary: mw s)
  case (Cons x xs)
  obtain f mw' s' where p: "poll_endpoint clock x mw s = (f, mw', s')" by (metis surj_pair)
  obtain ks mw'' s'' where "poll_all clock xs mw' s' = (ks, mw'', s'')" by (metis surj_pair)
  then show ?case using Cons.IH [of mw' s'] p poll_endpoint_frame [of clock x mw m s] by simp
qed simp

lemma poll_all_kept:
  assumes "poll_all clock xs mw s = (ks, mw', s')"
  shows "set ks \<subseteq> set xs" "distinct xs \<Longrightarrow> distinct ks"
proof -
  have "set ks \<subseteq> set xs \<and> (distinct xs \<longrightarrow> distinct ks)"
    using assms
  proof (induction xs arbitrary: mw s ks)
    case (Cons x xs)
    obtain f mw1 s1 where "poll_endpoint clock x mw s = (f, mw1, s1)" by (metis surj_pair)
    moreover obtain ks1 mw2 s2 where "poll_all clock xs mw1 s1 = (ks1, mw2, s2)" by (metis surj_pair)
    ultimately show ?case using Cons.prems Cons.IH [of mw1 s1 ks1] by (auto split: if_splits)
  qed simp
  then show "set ks \<subseteq> set xs" "distinct xs \<Longrightarrow> distinct ks" by auto
qed

text \<open>The position of the loop: an endpoint, or the struct that the list head would be embedded in.\<close>

definition pos :: "addr \<Rightarrow> addr list \<Rightarrow> addr" where
  "pos head xs = (case xs of [] \<Rightarrow> wnode_ep head | x # _ \<Rightarrow> x)"

lemma pos_simps [simp]: "pos head [] = wnode_ep head" "pos head (x # xs) = x"
  by (simp_all add: pos_def)

lemma next_pos:
  assumes "is_list m head (map wnode (ks @ x # xs))"
  shows "wnode_ep (le_next (m (wnode x))) = pos head xs"
  using is_list_neighbours [of m head "map wnode ks" "wnode x" "map wnode xs"] assms by (cases xs) auto

lemma is_list_del_wnode:
  assumes "is_list m head (map wnode (ks @ x # xs))"
  shows "is_list (list_del m (wnode x)) head (map wnode (ks @ xs))"
proof -
  have "wnode x \<notin> set (map wnode ks)" using is_list_distinct [OF assms] by auto
  then have "remove1 (wnode x) (map wnode (ks @ x # xs)) = map wnode (ks @ xs)" by (simp add: remove1_append)
  then show ?thesis using is_list_del [OF assms, of "wnode x"] by simp
qed

lemma first_second_ep:
  assumes "is_list (nodes s) head (map wnode xs)"
  shows "first_ep s head = pos head xs" "xs = x # xs' \<Longrightarrow> second_ep s head = pos head xs'"
proof -
  show f: "first_ep s head = pos head xs"
    using is_list_ends(1) [OF assms] by (cases xs) (auto simp: first_ep_def)
  show "second_ep s head = pos head xs'" if "xs = x # xs'"
    using next_pos [of "nodes s" head "[]" x xs'] assms that f by (simp add: second_ep_def)
qed

lemma poll_loop_done: "poll_loop clock head (wnode_ep head) temp mw s = Some (mw, s)"
  by (simp add: poll_loop.simps)

lemma poll_loop_refines:
  assumes "is_list (nodes s) head (map wnode (ks @ x # xs))"
    and "poll_all clock (x # xs) mw s = (ks', mw', s')"
  shows "\<exists>m'. poll_loop clock head x (pos head xs) mw s = Some (mw', s'\<lparr>nodes := m'\<rparr>) \<and> is_list m' head (map wnode (ks @ ks'))"
  using assms
proof (induction xs arbitrary: x ks mw s ks' s')
  case Nil
  note l = Nil.prems(1)
  obtain f mw1 s1 where p: "poll_endpoint clock x mw s = (f, mw1, s1)" by (metis surj_pair)
  have n: "nodes s1 = nodes s" by (rule poll_endpoint_nodes [OF p])
  have n': "s1\<lparr>nodes := nodes s\<rparr> = s1" unfolding n [symmetric] by simp
  have x: "wnode x \<noteq> head" using is_list_distinct [OF l] by auto
  have eq: "ks' = (if f then [] else [x])" "mw' = mw1" "s' = s1" using Nil.prems(2) p by auto
  let ?m = "if f then list_del (nodes s) (wnode x) else nodes s"
  have "poll_loop clock head x (pos head []) mw s = Some (mw1, s1\<lparr>nodes := ?m\<rparr>)"
    using p x n by (subst poll_loop.simps) (auto simp: poll_loop_done n')
  moreover have "is_list ?m head (map wnode (ks @ ks'))"
    using is_list_del_wnode [OF l] l eq(1) by auto
  ultimately show ?case using eq by blast
next
  case (Cons y xs)
  note l = Cons.prems(1)
  obtain f mw1 s1 where p: "poll_endpoint clock x mw s = (f, mw1, s1)" by (metis surj_pair)
  have n: "nodes s1 = nodes s" by (rule poll_endpoint_nodes [OF p])
  have n': "s1\<lparr>nodes := nodes s\<rparr> = s1" unfolding n [symmetric] by simp
  have x: "wnode x \<noteq> head" using is_list_distinct [OF l] by auto
  let ?m = "if f then list_del (nodes s) (wnode x) else nodes s"
  let ?ks = "if f then ks else ks @ [x]"
  obtain ks1 mw2 s2 where a1: "poll_all clock (y # xs) mw1 s1 = (ks1, mw2, s2)" by (metis surj_pair)
  then have a: "poll_all clock (y # xs) mw1 s1 = (ks1, mw', s2)" "ks' = (if f then ks1 else x # ks1)" "s' = s2"
    using Cons.prems(2) unfolding poll_all.simps(2) [of clock x "y # xs"] p by auto
  have l': "is_list ?m head (map wnode (?ks @ y # xs))"
    using l is_list_del_wnode [OF l] by auto
  have loop: "poll_loop clock head x (pos head (y # xs)) mw s =
      poll_loop clock head y (wnode_ep (le_next (?m (wnode y)))) mw1 (s1\<lparr>nodes := ?m\<rparr>)"
    using p x n by (subst poll_loop.simps) (auto simp: n')
  have "poll_all clock (y # xs) mw1 (s1\<lparr>nodes := ?m\<rparr>) = (ks1, mw', s2\<lparr>nodes := ?m\<rparr>)"
    using a(1) poll_all_frame [of clock "y # xs" mw1 ?m s1] by simp
  from Cons.IH [OF _ this, of ?ks] l' obtain m' where
    "poll_loop clock head y (pos head xs) mw1 (s1\<lparr>nodes := ?m\<rparr>) = Some (mw', s2\<lparr>nodes := m'\<rparr>)"
    "is_list m' head (map wnode (?ks @ ks1))" by auto
  then show ?case using loop next_pos [OF l'] a by auto
qed

text \<open>The whole pass over the list.\<close>

lemma poll_pass:
  assumes l: "is_list (nodes s) head (map wnode xs)" and a: "poll_all clock xs mw s = (ks, mw', s')"
  shows "\<exists>m'. poll_loop clock head (first_ep s head) (second_ep s head) mw s = Some (mw', s'\<lparr>nodes := m'\<rparr>) \<and> is_list m' head (map wnode ks)"
proof (cases xs)
  case Nil
  then have "first_ep s head = wnode_ep head" "ks = []" "mw' = mw" "s' = s" using first_second_ep(1) [OF l] a by auto
  then show ?thesis using l Nil poll_loop_done [of clock head] by (intro exI [of _ "nodes s"]) auto
next
  case (Cons x xs')
  then show ?thesis
    using poll_loop_refines [of s head "[]" x xs' clock mw ks mw' s'] l a first_second_ep [OF l] by simp
qed

subsection \<open>Shutting down\<close>

definition shutdown_all :: "addr list \<Rightarrow> 'w ep_state \<Rightarrow> 'w ep_state" where
  "shutdown_all xs s = fold (\<lambda>x s. snd (work_endpoint_shutdown s x)) xs s"

lemma shutdown_all_simps [simp]:
  "shutdown_all [] s = s" "shutdown_all (x # xs) s = shutdown_all xs (snd (work_endpoint_shutdown s x))"
  by (simp_all add: shutdown_all_def)

lemma shutdown_all_frame: "shutdown_all xs (s\<lparr>nodes := m\<rparr>) = shutdown_all xs s\<lparr>nodes := m\<rparr>"
  by (induction xs arbitrary: s) (simp_all add: shutdown_frame)

lemma shutdown_loop_done: "shutdown_loop head (wnode_ep head) temp s = Some s"
  by (simp add: shutdown_loop.simps)

lemma shutdown_loop_refines:
  assumes "is_list (nodes s) head (map wnode (x # xs))"
  shows "\<exists>m'. shutdown_loop head x (pos head xs) s = Some (shutdown_all (x # xs) s\<lparr>nodes := m'\<rparr>) \<and> is_list m' head []"
  using assms
proof (induction xs arbitrary: x s)
  case Nil
  have x: "wnode x \<noteq> head" using is_list_distinct [OF Nil] by auto
  then have "shutdown_loop head x (pos head []) s = Some (shutdown_all [x] s\<lparr>nodes := list_del (nodes s) (wnode x)\<rparr>)"
    by (subst shutdown_loop.simps) (simp add: shutdown_loop_done split_beta)
  moreover have "is_list (list_del (nodes s) (wnode x)) head []" using is_list_del_wnode [of "nodes s" head "[]" x "[]"] Nil by simp
  ultimately show ?case by blast
next
  case (Cons y xs)
  have x: "wnode x \<noteq> head" using is_list_distinct [OF Cons.prems] by auto
  let ?s = "snd (work_endpoint_shutdown s x)\<lparr>nodes := list_del (nodes s) (wnode x)\<rparr>"
  have l: "is_list (nodes ?s) head (map wnode (y # xs))"
    using is_list_del_wnode [of "nodes s" head "[]" x "y # xs"] Cons.prems by simp
  have "shutdown_loop head x (pos head (y # xs)) s = shutdown_loop head y (pos head xs) ?s"
    using x next_pos [of "nodes ?s" head "[]" y xs] l by (subst shutdown_loop.simps) (simp add: split_beta)
  moreover have "shutdown_all (x # y # xs) s\<lparr>nodes := m'\<rparr> = shutdown_all (y # xs) ?s\<lparr>nodes := m'\<rparr>" for m'
    using shutdown_all_frame [of "y # xs" "list_del (nodes s) (wnode x)" "snd (work_endpoint_shutdown s x)"] by simp
  ultimately show ?case using Cons.IH [OF l] by simp
qed

lemma shutdown_pass:
  assumes l: "is_list (nodes s) head (map wnode xs)"
  shows "\<exists>m'. shutdown_loop head (first_ep s head) (second_ep s head) s = Some (shutdown_all xs s\<lparr>nodes := m'\<rparr>) \<and> is_list m' head []"
proof (cases xs)
  case Nil
  then have "first_ep s head = wnode_ep head" using first_second_ep(1) [OF l] by simp
  then show ?thesis using l Nil shutdown_loop_done [of head] by (intro exI [of _ "nodes s"]) auto
next
  case (Cons x xs')
  then show ?thesis using shutdown_loop_refines [of s head x xs'] l first_second_ep [OF l] by simp
qed

subsection \<open>New endpoints\<close>

definition startup_all :: "addr list \<Rightarrow> 'w ep_state \<Rightarrow> 'w ep_state" where
  "startup_all xs s = fold (\<lambda>x s. snd (work_endpoint_startup s x)) xs s"

lemma startup_all_simps [simp]:
  "startup_all [] s = s" "startup_all (x # xs) s = startup_all xs (snd (work_endpoint_startup s x))"
  by (simp_all add: startup_all_def)

lemma startup_all_frame: "startup_all xs (s\<lparr>nodes := m\<rparr>) = startup_all xs s\<lparr>nodes := m\<rparr>"
  by (induction xs arbitrary: s) (simp_all add: startup_frame)

lemma startup_all_nodes [simp]: "nodes (startup_all xs s) = nodes s"
  by (induction xs arbitrary: s) simp_all

text \<open>A thread with the endpoints \<open>xs\<close> in its list and \<open>qs\<close> in its queue.\<close>

definition thread_has :: "('r \<Rightarrow> addr list) \<Rightarrow> addr \<Rightarrow> 'r work_queue \<Rightarrow> list_mem \<Rightarrow> addr list \<Rightarrow> addr list \<Rightarrow> bool" where
  "thread_has contents head q m xs qs \<longleftrightarrow>
     is_list m head (map wnode xs) \<and> contents (wq_fifo q) = qs \<and> wq_buffer q \<noteq> NULL \<and>
     distinct (xs @ qs) \<and> NULL \<notin> set qs \<and> head \<notin> wnode ` set qs"

context ck_ring_contract
begin

lemma new_endpoints_refines:
  assumes "thread_has contents head q (nodes s) xs qs" "0 < i"
  shows "\<exists>q' m'. new_endpoints_loop ck head i ep (Some q) s = (Some q', startup_all (take (i - 1) qs) s\<lparr>nodes := m'\<rparr>) \<and>
    thread_has contents head q' m' (xs @ take (i - 1) qs) (drop i qs)"
  using assms
proof (induction i arbitrary: ep q s xs qs)
  case (Suc i)
  note h = Suc.prems(1)
  have q: "wq_buffer q \<noteq> NULL" "contents (wq_fifo q) = qs" using h by (auto simp: thread_has_def)
  obtain r' where r': "case qs of
       [] \<Rightarrow> work_queue_pop ck (Some q) (Some ep) = (A_OK, Some (q\<lparr>wq_fifo := r'\<rparr>), Some NULL) \<and> contents r' = []
     | y # ys \<Rightarrow> work_queue_pop ck (Some q) (Some ep) = (A_OK, Some (q\<lparr>wq_fifo := r'\<rparr>), Some y) \<and> contents r' = ys"
    using pop_result [OF q(1), of ep] q(2) by blast
  let ?q = "q\<lparr>wq_fifo := r'\<rparr>"
  show ?case
  proof (cases qs)
    case Nil
    then have "new_endpoints_loop ck head (Suc i) ep (Some q) s = (Some ?q, s)"
      using r' by (subst new_endpoints_loop.simps) simp
    moreover have "thread_has contents head ?q (nodes s) xs []" using h r' Nil by (simp add: thread_has_def)
    ultimately show ?thesis using Nil by (intro exI [of _ ?q] exI [of _ "nodes s"]) simp
  next
    case (Cons y ys)
    then have y: "y \<noteq> NULL" "wnode y \<notin> set (head # map wnode xs)" "head \<notin> wnode ` set ys"
      using h inj_wnode by (auto simp: thread_has_def inj_def)
    show ?thesis
    proof (cases "i = 0")
      case True
      then have "new_endpoints_loop ck head (Suc i) ep (Some q) s = (Some ?q, s)"
        using r' Cons by (subst new_endpoints_loop.simps) simp
      moreover have "thread_has contents head ?q (nodes s) xs ys" using h r' Cons by (auto simp: thread_has_def)
      ultimately show ?thesis using True Cons by (intro exI [of _ ?q] exI [of _ "nodes s"]) simp
    next
      case False
      let ?m = "list_append (nodes s) head (wnode y)"
      let ?s = "snd (work_endpoint_startup s y)\<lparr>nodes := ?m\<rparr>"
      have loop: "new_endpoints_loop ck head (Suc i) ep (Some q) s = new_endpoints_loop ck head i y (Some ?q) ?s"
        using r' Cons y(1) False by (subst new_endpoints_loop.simps) (simp add: split_beta)
      have "is_list ?m head (map wnode xs @ [wnode y])" using is_list_append [of "nodes s" head "map wnode xs"] h y(2) by (simp add: thread_has_def)
      then have "thread_has contents head ?q (nodes ?s) (xs @ [y]) ys" using h r' Cons y by (auto simp: thread_has_def)
      from Suc.IH [OF this, of y] False obtain q' m' where
        ih: "new_endpoints_loop ck head i y (Some ?q) ?s = (Some q', startup_all (take (i - 1) ys) ?s\<lparr>nodes := m'\<rparr>)"
          "thread_has contents head q' m' ((xs @ [y]) @ take (i - 1) ys) (drop i ys)" by auto
      have "take i qs = y # take (i - 1) ys" using Cons False by (cases i) simp_all
      then show ?thesis
        using ih loop Cons startup_all_frame [of "take (i - 1) ys" ?m "snd (work_endpoint_startup s y)"] by auto
    qed
  qed
qed simp

lemma iteration_refines:
  assumes h: "thread_has contents head q (nodes s) xs qs"
    and a: "poll_all clock (xs @ take 15 qs) 5 (startup_all (take 15 qs) s) = (ks, mw, s1)"
  shows "\<exists>q' m'. work_thread_iteration ck clock usleep head (Some q) s =
      Some (Some q', (if mw > 0 then s1\<lparr>world := usleep (mw * 1000) (world s1)\<rparr> else s1)\<lparr>nodes := m'\<rparr>) \<and>
    thread_has contents head q' m' ks (drop 16 qs)"
proof -
  obtain q' m where n: "work_thread_check_new_endpoints ck head (Some q) s = (Some q', startup_all (take 15 qs) s\<lparr>nodes := m\<rparr>)"
    and h': "thread_has contents head q' m (xs @ take 15 qs) (drop 16 qs)"
    using new_endpoints_refines [OF h, of 16 NULL]
    by (auto simp: work_thread_check_new_endpoints_def WORK_THREAD_MAX_QUEUED_ENDPOINTS_def)
  let ?s = "startup_all (take 15 qs) s\<lparr>nodes := m\<rparr>"
  have "is_list (nodes ?s) head (map wnode (xs @ take 15 qs))" using h' by (simp add: thread_has_def)
  moreover have "poll_all clock (xs @ take 15 qs) 5 ?s = (ks, mw, s1\<lparr>nodes := m\<rparr>)" using a by (simp add: poll_all_frame)
  ultimately obtain m' where p: "poll_loop clock head (first_ep ?s head) (second_ep ?s head) 5 ?s = Some (mw, s1\<lparr>nodes := m'\<rparr>)"
    "is_list m' head (map wnode ks)"
    using poll_pass by fastforce
  have eq: "s1\<lparr>nodes := m', world := w\<rparr> = s1\<lparr>world := w, nodes := m'\<rparr>" for w by simp
  have "work_thread_iteration ck clock usleep head (Some q) s =
      Some (Some q', (if mw > 0 then s1\<lparr>world := usleep (mw * 1000) (world s1)\<rparr> else s1)\<lparr>nodes := m'\<rparr>)"
    using n p(1) by (simp add: work_thread_iteration_def eq)
  moreover have "thread_has contents head q' m' ks (drop 16 qs)"
    using h' p(2) poll_all_kept [OF a] by (auto simp: thread_has_def)
  ultimately show ?thesis by blast
qed

lemma worker_func_returns:
  assumes "thread_has contents head q (nodes s) xs qs" "signal \<noteq> WORK_THREAD_ALIVE"
  shows "\<exists>q' s'. work_thread_worker_func ck clock usleep head (replicate n WORK_THREAD_ALIVE @ [signal]) (Some q) s =
      Some (A_OK, Some q', s') \<and> is_list (nodes s') head []"
  using assms(1)
proof (induction n arbitrary: q s xs qs)
  case 0
  then have "is_list (nodes s) head (map wnode xs)" by (simp add: thread_has_def)
  then show ?case using shutdown_pass [of s head xs] assms(2) by auto
next
  case (Suc n)
  obtain ks mw s1 where "poll_all clock (xs @ take 15 qs) 5 (startup_all (take 15 qs) s) = (ks, mw, s1)" by (metis surj_pair)
  from iteration_refines [OF Suc.prems this] obtain q' s' where
    "work_thread_iteration ck clock usleep head (Some q) s = Some (Some q', s')" "thread_has contents head q' (nodes s') ks (drop 16 qs)"
    by fastforce
  then show ?case using Suc.IH [of q' s'] by (auto simp: WORK_THREAD_ALIVE_def)
qed

end

subsection \<open>Properties\<close>

text \<open>Claim C10. One iteration of an offload thread with the endpoints \<open>xs\<close> in its list and \<open>qs\<close> in its queue returns. It starts
  the first 15 queued endpoints in order and appends them, polls every endpoint once in list order, shuts down those whose
  poll fails and keeps exactly the others in the list, and sleeps for the shortest requested wait. Sixteen entries leave the
  queue.\<close>

theorem work_thread_iteration_correct:
  assumes "ck_ring_contract ck contents slots" and "thread_has contents head q (nodes s) xs qs"
    and "poll_all clock (xs @ take 15 qs) 5 (startup_all (take 15 qs) s) = (ks, mw, s1)"
  shows "\<exists>q' m'. work_thread_iteration ck clock usleep head (Some q) s =
      Some (Some q', (if mw > 0 then s1\<lparr>world := usleep (mw * 1000) (world s1)\<rparr> else s1)\<lparr>nodes := m'\<rparr>) \<and>
    thread_has contents head q' m' ks (drop 16 qs)"
  using ck_ring_contract.iteration_refines [OF assms] .

text \<open>A thread with one endpoint in its list and one in its queue; the world counts the calls.\<close>

definition count_ops :: "nat work_endpoint_ops" where
  "count_ops = \<lparr>op_poll = Some (\<lambda>ep wait w. (A_OK, 3, w + 1)), op_startup = None, op_shutdown = Some (\<lambda>ep w. (A_OK, w + 100))\<rparr>"

definition sample_eps :: "nat ep_state" where
  "sample_eps = \<lparr>eps = (\<lambda>a. \<lparr>we_ops = Some count_ops, we_priv = 1, we_next_poll = 0, we_mode = 0\<rparr>),
     nodes = list_append (list_init (\<lambda>a. \<lparr>le_prev = 0, le_next = 0\<rparr>) 0x900) 0x900 (wnode 0x100), world = 0\<rparr>"

definition sample_queue :: "(nat \<times> addr list) work_queue" where
  "sample_queue = \<lparr>wq_fifo = (32, [0x200]), wq_max_items = 32, wq_buffer = 0x700\<rparr>"

lemma sample_thread_has: "thread_has snd 0x900 sample_queue (nodes sample_eps) [0x100] [0x200]"
proof -
  have "is_list (nodes sample_eps) 0x900 ([] @ [wnode 0x100])"
    unfolding sample_eps_def by simp (rule is_list_append [of _ _ "[]", simplified], simp_all add: is_list_init wnode_def)
  then show ?thesis by (simp add: thread_has_def sample_queue_def wnode_def)
qed

theorem work_thread_iteration_correct_witness:
  "\<exists>q' s'. work_thread_iteration list_ring (\<lambda>w. (7, w)) (\<lambda>us w. w) 0x900 (Some sample_queue) sample_eps = Some (Some q', s') \<and>
     thread_has snd 0x900 q' (nodes s') [0x100, 0x200] [] \<and> world s' = 2"
proof -
  have "poll_all (\<lambda>w. (7, w)) ([0x100] @ take 15 [0x200]) 5 (startup_all (take 15 [0x200]) sample_eps) =
      ([0x100, 0x200], 3, snd (snd (poll_all (\<lambda>w. (7, w)) ([0x100] @ take 15 [0x200]) 5 (startup_all (take 15 [0x200]) sample_eps))))"
    by (simp add: sample_eps_def poll_endpoint_def work_endpoint_poll_def work_endpoint_startup_def count_ops_def)
  moreover have "world (snd (snd (poll_all (\<lambda>w. (7, w)) ([0x100] @ take 15 [0x200]) 5 (startup_all (take 15 [0x200]) sample_eps)))) = 2"
    by (simp add: sample_eps_def poll_endpoint_def work_endpoint_poll_def work_endpoint_startup_def count_ops_def)
  ultimately show ?thesis
    using work_thread_iteration_correct [OF list_ring.ck_ring_contract_axioms sample_thread_has] by fastforce
qed

text \<open>An endpoint can be lost: when at least sixteen endpoints are queued, the sixteenth leaves the queue in the next
  iteration without being started, and afterwards it is neither in the queue nor in the thread's list.\<close>

theorem work_thread_loses_endpoint:
  assumes "ck_ring_contract ck contents slots" and "thread_has contents head q (nodes s) xs qs" and "16 \<le> length qs"
  shows "\<exists>q' s' ks. work_thread_iteration ck clock usleep head (Some q) s = Some (Some q', s') \<and>
    thread_has contents head q' (nodes s') ks (drop 16 qs) \<and> qs ! 15 \<notin> set ks \<union> set (drop 16 qs)"
proof -
  obtain ks mw s1 where a: "poll_all clock (xs @ take 15 qs) 5 (startup_all (take 15 qs) s) = (ks, mw, s1)" by (metis surj_pair)
  have qs: "qs = take 15 qs @ qs ! 15 # drop 16 qs" using assms(3) id_take_nth_drop [of 15 qs] by simp
  have "distinct (xs @ qs)" using assms(2) by (simp add: thread_has_def)
  then have "qs ! 15 \<notin> set (xs @ take 15 qs) \<union> set (drop 16 qs)" by (subst (asm) qs) auto
  then have "qs ! 15 \<notin> set ks \<union> set (drop 16 qs)" using poll_all_kept(1) [OF a] by blast
  then show ?thesis using ck_ring_contract.iteration_refines [OF assms(1,2) a] by fastforce
qed

definition full_queue :: "(nat \<times> addr list) work_queue" where
  "full_queue = \<lparr>wq_fifo = (32, map (\<lambda>i. of_nat i * 0x1000) [1..<17]), wq_max_items = 32, wq_buffer = 0x700\<rparr>"

theorem work_thread_loses_endpoint_witness:
  "\<exists>q' s' ks. work_thread_iteration list_ring (\<lambda>w. (7, w)) (\<lambda>us w. w) 0x900 (Some full_queue) sample_eps = Some (Some q', s') \<and>
     thread_has snd 0x900 q' (nodes s') ks [] \<and> 0x10000 \<notin> set ks"
proof -
  let ?qs = "map (\<lambda>i. of_nat i * 0x1000) [1..<17] :: addr list"
  have "?qs = [0x1000, 0x2000, 0x3000, 0x4000, 0x5000, 0x6000, 0x7000, 0x8000, 0x9000, 0xa000, 0xb000, 0xc000, 0xd000, 0xe000, 0xf000, 0x10000]"
    by code_simp
  then have "thread_has snd 0x900 full_queue (nodes sample_eps) [0x100] ?qs"
    using sample_thread_has by (simp add: thread_has_def full_queue_def wnode_def)
  then show ?thesis
    using work_thread_loses_endpoint [OF list_ring.ck_ring_contract_axioms, of "0x900" full_queue sample_eps "[0x100]" ?qs "\<lambda>w. (7, w)" "\<lambda>us w. w"]
    by (auto simp: nth_append)
qed

text \<open>Claim C22. The thread function ends when it is told to: with the death signal read after any number of iterations it
  returns A_OK (no loop over the endpoints runs forever, whatever the callbacks do), and then its list of endpoints is empty,
  every endpoint of the list having been shut down once.\<close>

theorem work_thread_worker_func_returns:
  assumes "ck_ring_contract ck contents slots" and "thread_has contents head q (nodes s) xs qs" and "signal \<noteq> WORK_THREAD_ALIVE"
  shows "(\<exists>q' s'. work_thread_worker_func ck clock usleep head (replicate n WORK_THREAD_ALIVE @ [signal]) (Some q) s =
      Some (A_OK, Some q', s') \<and> is_list (nodes s') head []) \<and>
    (\<exists>m'. work_thread_worker_func ck clock usleep head [signal] (Some q) s = Some (A_OK, Some q, shutdown_all xs s\<lparr>nodes := m'\<rparr>))"
proof
  show "\<exists>q' s'. work_thread_worker_func ck clock usleep head (replicate n WORK_THREAD_ALIVE @ [signal]) (Some q) s =
      Some (A_OK, Some q', s') \<and> is_list (nodes s') head []"
    by (rule ck_ring_contract.worker_func_returns [OF assms])
  have "is_list (nodes s) head (map wnode xs)" using assms(2) by (simp add: thread_has_def)
  then show "\<exists>m'. work_thread_worker_func ck clock usleep head [signal] (Some q) s = Some (A_OK, Some q, shutdown_all xs s\<lparr>nodes := m'\<rparr>)"
    using shutdown_pass [of s head xs] assms(3) by auto
qed

theorem work_thread_worker_func_returns_witness:
  "\<exists>q' s'. work_thread_worker_func list_ring (\<lambda>w. (7, w)) (\<lambda>us w. w) 0x900 [0, 0, 1] (Some sample_queue) sample_eps =
     Some (A_OK, Some q', s') \<and> is_list (nodes s') 0x900 []"
  using work_thread_worker_func_returns [OF list_ring.ck_ring_contract_axioms sample_thread_has, of WORK_THREAD_DEAD "\<lambda>w. (7, w)" "\<lambda>us w. w" 2]
  by (simp add: WORK_THREAD_DEAD_def WORK_THREAD_ALIVE_def numeral_2_eq_2)

text \<open>Claim C40. The next poll of an endpoint is due \<open>wait\<close> milliseconds after the clock only up to 4294 ms: the
  conversion to nanoseconds is done modulo 2 to the 32.\<close>

theorem work_endpoint_poll_deadline:
  assumes "ep \<noteq> NULL" "we_ops (eps s ep) = Some ops" "op_poll ops = Some f" "f ep v (world s) = (ret, wait, w)" "clock w = (now, w')"
  shows "\<exists>s'. work_endpoint_poll clock s ep (Some v) = (ret, Some wait, s') \<and> world s' = w' \<and>
    we_next_poll (eps s' ep) = now + of_nat (unat wait * 1000000 mod 2 ^ 32) \<and>
    (unat wait \<le> 4294 \<longrightarrow> we_next_poll (eps s' ep) = now + of_nat (unat wait * 1000000))"
proof -
  have "ucast (wait * 1000000 :: u32) = (of_nat (unat (wait * 1000000)) :: u64)" by simp
  moreover have "unat (wait * 1000000) = unat wait * 1000000 mod 2 ^ 32" by (simp add: unat_word_ariths)
  ultimately have "ucast (wait * 1000000 :: u32) = (of_nat (unat wait * 1000000 mod 2 ^ 32) :: u64)" by simp
  then show ?thesis using assms by (simp add: work_endpoint_poll_def)
qed

theorem work_endpoint_poll_deadline_witness:
  "\<exists>s'. work_endpoint_poll (\<lambda>w. (7, w)) sample_eps 0x100 (Some 0) = (A_OK, Some 3, s') \<and> we_next_poll (eps s' 0x100) = 3000007"
  using work_endpoint_poll_deadline [of "0x100" sample_eps count_ops "\<lambda>ep wait w. (A_OK, 3, w + 1)" 0 A_OK 3 1 "\<lambda>w. (7, w)" 7 1]
  by (auto simp: sample_eps_def count_ops_def)

end
