(* ===== verification/Work_Pool.thy ===== *)
theory Work_Pool
  imports Work_Thread_Spec
begin

section \<open>Offload thread pools (tsl/offload/thread.c, tsl/offload/pool.c)\<close>

text \<open>
  The controlling side: creating, starting, stopping and reaping work threads, and the pool that keeps them in a linked list.
  Work threads are structs in the memory \<open>ps_threads\<close>; the list entries embedded in them lie in \<open>ps_list\<close>, at offsets that
  depend on the layout of the ring of the concurrency kit and are therefore arguments. The head of the pool's list is the
  first member of \<open>struct work_pool\<close>, so it has the address of the pool. What the system answers is an argument.
\<close>

subsection \<open>Work threads\<close>

datatype work_function = work_thread_function

record 'r work_thread =
  wth_thread :: "work_function thread option"
  wth_thread_id :: u32
  wth_ep_queue :: "'r work_queue"
  wth_signal_death :: u32

record wt_layout =
  off_work_endpoints :: addr
  off_tnode :: addr

record 'r pool_state =
  ps_threads :: "addr \<Rightarrow> 'r work_thread"
  ps_list :: list_mem
  last_thread_id :: u32

text \<open>What the system answers to one creation of a work thread: the address of the zeroed struct (NULL if there is no
  memory), the outcomes of the allocations, the number of processors, the buffer of the queue, the handle of the new thread.\<close>

record wt_env =
  env_calloc :: addr
  env_mask_calloc :: bool
  env_cpu_alloc :: bool
  env_nprocs :: int
  env_thread_alloc :: bool
  env_queue_buf :: addr
  env_pcreate :: "nat option"

definition zero_work_thread :: "'r \<Rightarrow> 'r work_thread" where
  "zero_work_thread zero = \<lparr>wth_thread = None, wth_thread_id = 0,
     wth_ep_queue = \<lparr>wq_fifo = zero, wq_max_items = 0, wq_buffer = NULL\<rparr>, wth_signal_death = 0\<rparr>"

definition work_thread_new ::
  "'r ck_ring \<Rightarrow> 'r \<Rightarrow> wt_layout \<Rightarrow> wt_env \<Rightarrow> 'r pool_state \<Rightarrow> addr option \<Rightarrow> u32 \<Rightarrow> aresult_t \<times> addr option \<times> 'r pool_state" where
  "work_thread_new ck zero L env s thread cpu_affinity =
     (if thread = None then (A_E_BADARGS, thread, s)
      else let wt = env_calloc env
      in if wt = NULL then (A_E_NOMEM, thread, s)
      else let (ret, msk) = cpu_mask_create (env_mask_calloc env) (env_cpu_alloc env) (env_nprocs env) (Some None)
      in if AFAILED ret then (ret, thread, s)
      else let (ret, msk) = cpu_mask_set (the msk) (ucast cpu_affinity)
      in if AFAILED ret then (ret, thread, s)
      else let (ret, thr) = thread_create (env_thread_alloc env) (Some None) (Some work_thread_function) msk
      in if AFAILED ret then (ret, thread, s)
      else let (ret, q) = work_queue_new ck zero (env_queue_buf env) (Some (wth_ep_queue (zero_work_thread zero)))
                            (of_nat WORK_THREAD_MAX_QUEUED_ENDPOINTS)
      in if AFAILED ret then (ret, thread, s)
      else (A_OK, Some wt,
            s\<lparr>ps_threads := (ps_threads s)(wt := \<lparr>wth_thread = the thr, wth_thread_id = 0, wth_ep_queue = the q,
                                                 wth_signal_death = WORK_THREAD_ALIVE\<rparr>),
              ps_list := list_init (ps_list s) (wt + off_work_endpoints L)\<rparr>))"

text \<open>\<open>__work_thread_signal_to_die\<close> and \<open>__work_thread_signal_to_die_fast\<close>\<close>

definition work_thread_signal_to_die :: "'r pool_state \<Rightarrow> addr \<Rightarrow> 'r pool_state" where
  "work_thread_signal_to_die s t = s\<lparr>ps_threads := (ps_threads s)(t := (ps_threads s t)\<lparr>wth_signal_death := WORK_THREAD_DEAD\<rparr>)\<rparr>"

definition work_thread_signal_to_die_fast :: "'r pool_state \<Rightarrow> addr \<Rightarrow> 'r pool_state" where
  "work_thread_signal_to_die_fast s t =
     s\<lparr>ps_threads := (ps_threads s)(t := (ps_threads s t)\<lparr>wth_signal_death := WORK_THREAD_FAST_SHUTDOWN\<rparr>)\<rparr>"

definition work_thread_shutdown :: "'r pool_state \<Rightarrow> addr \<Rightarrow> aresult_t \<times> 'r pool_state" where
  "work_thread_shutdown s t =
     (if t = NULL then (A_E_BADARGS, s)
      else let (ret, v) = thread_running (wth_thread (ps_threads s t)) (Some 0)
           in if v = Some 0 \<or> AFAILED ret then (ret, s) else (ret, work_thread_signal_to_die s t))"

text \<open>The loop that drops all entries of a list; \<open>None\<close> if it does not end.\<close>

partial_function (option) drop_loop :: "addr \<Rightarrow> addr \<Rightarrow> addr \<Rightarrow> list_mem \<Rightarrow> list_mem option" where
  "drop_loop head n temp m =
     (if n = head then Some m
      else let m = list_del m n in drop_loop head temp (le_next (m temp)) m)"

text \<open>\<open>joined\<close> is the answer of \<open>pthread_join\<close>. The queue is released and the struct freed; its content is left as it was.\<close>

definition work_thread_destroy ::
  "'r \<Rightarrow> wt_layout \<Rightarrow> addr option \<Rightarrow> 'r pool_state \<Rightarrow> addr option \<Rightarrow> (aresult_t \<times> addr option \<times> 'r pool_state) option" where
  "work_thread_destroy zero L joined s thread =
     (case thread of
        None \<Rightarrow> Some (A_E_BADARGS, thread, s)
      | Some t \<Rightarrow>
          if t = NULL then Some (A_E_BADARGS, thread, s)
          else let wt = ps_threads s t;
                   (ret, v) = thread_running (wth_thread wt) (Some 0)
               in if AFAILED ret \<or> v \<noteq> Some 0 then Some (ret, thread, s)
                  else do {
                    (ret, thr, thread_ret) \<leftarrow> thread_join joined (wth_thread wt) (Some A_OK);
                    thr \<leftarrow> snd (thread_destroy (Some thr));
                    let wt = wt\<lparr>wth_thread := thr, wth_ep_queue := the (snd (work_queue_release zero (Some (wth_ep_queue wt))))\<rparr>;
                    let head = t + off_work_endpoints L;
                    m \<leftarrow> drop_loop head (le_next (ps_list s head)) (le_next (ps_list s (le_next (ps_list s head)))) (ps_list s);
                    ret \<leftarrow> thread_ret;
                    Some (ret, Some NULL, s\<lparr>ps_threads := (ps_threads s)(t := wt), ps_list := m\<rparr>) })"

text \<open>The last component: a thread was started.\<close>

definition work_thread_start :: "nat option \<Rightarrow> 'r pool_state \<Rightarrow> addr \<Rightarrow> aresult_t \<times> 'r pool_state \<times> bool" where
  "work_thread_start pcreate s t =
     (if t = NULL then (A_E_BADARGS, s, False)
      else let (ret, thr, started) = thread_start pcreate (wth_thread (ps_threads s t)) t
           in (ret, s\<lparr>ps_threads := (ps_threads s)(t := (ps_threads s t)\<lparr>wth_thread := thr\<rparr>)\<rparr>, started))"

definition work_thread_add_endpoint :: "'r ck_ring \<Rightarrow> 'r pool_state \<Rightarrow> addr \<Rightarrow> addr \<Rightarrow> aresult_t \<times> 'r pool_state" where
  "work_thread_add_endpoint ck s t endpoint =
     (if t = NULL \<or> endpoint = NULL then (A_E_BADARGS, s)
      else let (ret, q) = work_queue_push ck (Some (wth_ep_queue (ps_threads s t))) endpoint
           in (ret, s\<lparr>ps_threads := (ps_threads s)(t := (ps_threads s t)\<lparr>wth_ep_queue := the q\<rparr>)\<rparr>))"

subsection \<open>The pool\<close>

definition work_pool_create :: "addr \<Rightarrow> 'r pool_state \<Rightarrow> addr option \<Rightarrow> aresult_t \<times> addr option \<times> 'r pool_state" where
  "work_pool_create calloc s pool =
     (if pool = None then (A_E_BADARGS, pool, s)
      else if calloc = NULL then (A_E_NOMEM, Some NULL, s)
      else (A_OK, Some calloc, s\<lparr>ps_list := list_init (ps_list s) calloc, last_thread_id := 1\<rparr>))"

text \<open>\<open>joined\<close> is used only if the thread cannot be started.\<close>

definition work_pool_add_thread ::
  "'r ck_ring \<Rightarrow> 'r \<Rightarrow> wt_layout \<Rightarrow> wt_env \<Rightarrow> addr option \<Rightarrow> 'r pool_state \<Rightarrow> addr \<Rightarrow> u32 \<Rightarrow> u32 option \<Rightarrow>
   (aresult_t \<times> u32 option \<times> 'r pool_state) option" where
  "work_pool_add_thread ck zero L env joined s pool core_num thread_id =
     (if pool = NULL \<or> thread_id = None then Some (A_E_BADARGS, thread_id, s)
      else let (ret, new_thread, s) = work_thread_new ck zero L env s (Some NULL) core_num
           in if AFAILED ret then Some (ret, Some 0, s)
              else do {
                t \<leftarrow> new_thread;
                let (ret, s, started) = work_thread_start (env_pcreate env) s t;
                if AFAILED ret
                then do { (_, _, s) \<leftarrow> work_thread_destroy zero L joined s (Some t); Some (ret, Some 0, s) }
                else Some (ret, Some (last_thread_id s),
                       s\<lparr>ps_threads := (ps_threads s)(t := (ps_threads s t)\<lparr>wth_thread_id := last_thread_id s\<rparr>),
                         ps_list := list_append (ps_list s) pool (t + off_tnode L),
                         last_thread_id := last_thread_id s + 1\<rparr>) })"

text \<open>\<open>__work_pool_find_thread_by_id\<close>\<close>

partial_function (option) find_thread_loop :: "wt_layout \<Rightarrow> 'r pool_state \<Rightarrow> addr \<Rightarrow> u32 \<Rightarrow> addr \<Rightarrow> addr option" where
  "find_thread_loop L s pool thread_id t =
     (if t + off_tnode L = pool then Some NULL
      else if wth_thread_id (ps_threads s t) = thread_id then Some t
      else find_thread_loop L s pool thread_id (LIST_ITEM (le_next (ps_list s (t + off_tnode L))) (off_tnode L)))"

definition work_pool_find_thread_by_id :: "wt_layout \<Rightarrow> 'r pool_state \<Rightarrow> addr \<Rightarrow> u32 \<Rightarrow> addr option" where
  "work_pool_find_thread_by_id L s pool thread_id =
     find_thread_loop L s pool thread_id (LIST_ITEM (le_next (ps_list s pool)) (off_tnode L))"

definition work_pool_add_endpoint ::
  "'r ck_ring \<Rightarrow> wt_layout \<Rightarrow> 'r pool_state \<Rightarrow> addr \<Rightarrow> u32 \<Rightarrow> addr \<Rightarrow> (aresult_t \<times> 'r pool_state) option" where
  "work_pool_add_endpoint ck L s pool thread_id endpoint =
     (if pool = NULL \<or> endpoint = NULL \<or> \<not> thread_id < last_thread_id s then Some (A_E_BADARGS, s)
      else do {
        thr \<leftarrow> work_pool_find_thread_by_id L s pool thread_id;
        if thr = NULL then Some (A_E_NOTFOUND, s) else Some (work_thread_add_endpoint ck s thr endpoint) })"

text \<open>The inner loop of \<open>work_pool_destroy\<close>. Unlinking the entry of a NULL thread, or an entry that is unlinked already, is a
  fault; so is the message about a NULL thread.\<close>

fun destroy_tries ::
  "'r \<Rightarrow> wt_layout \<Rightarrow> addr option \<Rightarrow> nat \<Rightarrow> 'r pool_state \<Rightarrow> addr \<Rightarrow> 'r pool_state option" where
  "destroy_tries zero L joined 0 s t = (if t = NULL then None else Some s)"
| "destroy_tries zero L joined (Suc n) s t =
     (if t = NULL \<or> le_next (ps_list s (t + off_tnode L)) = LIST_POISON_NEXT then None
      else do {
        (ret, t', s) \<leftarrow> work_thread_destroy zero L joined (s\<lparr>ps_list := list_del (ps_list s) (t + off_tnode L)\<rparr>) (Some t);
        t' \<leftarrow> t';
        if \<not> AFAILED ret then Some s else destroy_tries zero L joined n s t' })"

partial_function (option) pool_destroy_loop ::
  "'r \<Rightarrow> wt_layout \<Rightarrow> (addr \<Rightarrow> addr option) \<Rightarrow> addr \<Rightarrow> 'r pool_state \<Rightarrow> addr \<Rightarrow> addr \<Rightarrow> 'r pool_state option" where
  "pool_destroy_loop zero L joined pool s t temp =
     (if t + off_tnode L = pool then Some s
      else do { s \<leftarrow> destroy_tries zero L (joined t) 100000 s t;
                pool_destroy_loop zero L joined pool s temp (LIST_ITEM (le_next (ps_list s (temp + off_tnode L))) (off_tnode L)) })"

definition work_pool_destroy ::
  "'r \<Rightarrow> wt_layout \<Rightarrow> (addr \<Rightarrow> addr option) \<Rightarrow> 'r pool_state \<Rightarrow> addr option \<Rightarrow> (aresult_t \<times> addr option \<times> 'r pool_state) option" where
  "work_pool_destroy zero L joined s pool =
     (case pool of
        None \<Rightarrow> Some (A_E_BADARGS, pool, s)
      | Some p \<Rightarrow>
          if p = NULL then Some (A_E_BADARGS, pool, s)
          else let t = LIST_ITEM (le_next (ps_list s p)) (off_tnode L);
                   temp = LIST_ITEM (le_next (ps_list s (t + off_tnode L))) (off_tnode L)
               in do { s \<leftarrow> pool_destroy_loop zero L joined p s t temp; Some (A_OK, Some NULL, s) })"

partial_function (option) pool_shutdown_loop ::
  "wt_layout \<Rightarrow> addr \<Rightarrow> aresult_t \<Rightarrow> 'r pool_state \<Rightarrow> addr \<Rightarrow> (aresult_t \<times> 'r pool_state) option" where
  "pool_shutdown_loop L pool ret s t =
     (if t + off_tnode L = pool then Some (ret, s)
      else let (ret, s) = work_thread_shutdown s t
           in pool_shutdown_loop L pool ret s (LIST_ITEM (le_next (ps_list s (t + off_tnode L))) (off_tnode L)))"

definition work_pool_shutdown :: "wt_layout \<Rightarrow> 'r pool_state \<Rightarrow> addr \<Rightarrow> (aresult_t \<times> 'r pool_state) option" where
  "work_pool_shutdown L s pool =
     (if pool = NULL then Some (A_E_BADARGS, s)
      else pool_shutdown_loop L pool A_OK s (LIST_ITEM (le_next (ps_list s pool)) (off_tnode L)))"

subsection \<open>Walking the pool's list\<close>

abbreviation tnode :: "wt_layout \<Rightarrow> addr \<Rightarrow> addr" where
  "tnode L t \<equiv> t + off_tnode L"

text \<open>The position of a loop over the threads: the next thread, or the struct the list head would be embedded in.\<close>

definition tpos :: "wt_layout \<Rightarrow> addr \<Rightarrow> addr list \<Rightarrow> addr" where
  "tpos L pool ts = (case ts of [] \<Rightarrow> LIST_ITEM pool (off_tnode L) | t # _ \<Rightarrow> t)"

lemma tpos_simps [simp]: "tpos L pool [] + off_tnode L = pool" "tpos L pool (t # ts) = t"
  by (simp_all add: tpos_def LIST_ITEM_def)

text \<open>The pool at \<open>pool\<close> has the threads \<open>ts\<close>, in this order.\<close>

definition pool_has :: "wt_layout \<Rightarrow> 'r pool_state \<Rightarrow> addr \<Rightarrow> addr list \<Rightarrow> bool" where
  "pool_has L s pool ts \<longleftrightarrow> is_list (ps_list s) pool (map (tnode L) ts) \<and> NULL \<notin> set ts"

lemma pool_first:
  assumes "pool_has L s pool ts"
  shows "LIST_ITEM (le_next (ps_list s pool)) (off_tnode L) = tpos L pool ts"
  using assms is_list_ends(1) [of "ps_list s" pool "map (tnode L) ts"]
  by (cases ts) (auto simp: pool_has_def tpos_def LIST_ITEM_def)

lemma pool_next:
  assumes "is_list m pool (map (tnode L) (us @ t # ts))"
  shows "LIST_ITEM (le_next (m (tnode L t))) (off_tnode L) = tpos L pool ts"
  using assms is_list_neighbours(2) [of m pool "map (tnode L) us" "tnode L t" "map (tnode L) ts"]
  by (cases ts) (auto simp: tpos_def LIST_ITEM_def)

lemma pool_not_head: "is_list m pool (map (tnode L) (us @ t # ts)) \<Longrightarrow> tnode L t \<noteq> pool"
  using is_list_distinct [of m pool "map (tnode L) (us @ t # ts)"] by auto

lemma find_thread_refines:
  "is_list (ps_list s) pool (map (tnode L) (us @ ts)) \<Longrightarrow>
   find_thread_loop L s pool i (tpos L pool ts) =
     Some (case List.find (\<lambda>t. wth_thread_id (ps_threads s t) = i) ts of None \<Rightarrow> NULL | Some t \<Rightarrow> t)"
proof (induction ts arbitrary: us)
  case Nil
  show ?case by (subst find_thread_loop.simps) simp
next
  case (Cons t ts)
  have "find_thread_loop L s pool i (tpos L pool ts) =
      Some (case List.find (\<lambda>t. wth_thread_id (ps_threads s t) = i) ts of None \<Rightarrow> NULL | Some t \<Rightarrow> t)"
    using Cons.IH [of "us @ [t]"] Cons.prems by simp
  then show ?case
    using pool_not_head [OF Cons.prems] pool_next [OF Cons.prems] by (subst find_thread_loop.simps) simp
qed

lemma work_pool_find_thread_refines:
  assumes "pool_has L s pool ts"
  shows "work_pool_find_thread_by_id L s pool i =
    Some (case List.find (\<lambda>t. wth_thread_id (ps_threads s t) = i) ts of None \<Rightarrow> NULL | Some t \<Rightarrow> t)"
  using find_thread_refines [of s pool L "[]" ts i] pool_first [OF assms] assms
  by (simp add: work_pool_find_thread_by_id_def pool_has_def)

text \<open>Whether a thread is seen as running.\<close>

definition is_running :: "'r work_thread \<Rightarrow> bool" where
  "is_running wt \<longleftrightarrow> (\<exists>thr. wth_thread wt = Some thr \<and> th_state thr = THREAD_STATE_RUNNING)"

lemma work_thread_shutdown_frame:
  "ps_list (snd (work_thread_shutdown s t)) = ps_list s" "last_thread_id (snd (work_thread_shutdown s t)) = last_thread_id s"
  by (simp_all add: work_thread_shutdown_def work_thread_signal_to_die_def split: prod.split)

lemma work_thread_shutdown_threads:
  assumes "t \<noteq> NULL"
  shows "ps_threads (snd (work_thread_shutdown s t)) = (ps_threads s)
    (t := if is_running (ps_threads s t) then (ps_threads s t)\<lparr>wth_signal_death := WORK_THREAD_DEAD\<rparr> else ps_threads s t)"
  using assms
  by (cases "wth_thread (ps_threads s t)")
    (auto simp: work_thread_shutdown_def work_thread_signal_to_die_def thread_running_def is_running_def fun_eq_iff)

lemma pool_shutdown_refines:
  assumes "is_list (ps_list s) pool (map (tnode L) (us @ ts))" "NULL \<notin> set ts"
  shows "\<exists>ret' s'. pool_shutdown_loop L pool ret s (tpos L pool ts) = Some (ret', s') \<and> ps_list s' = ps_list s \<and>
    ps_threads s' = (\<lambda>t. if t \<in> set ts \<and> is_running (ps_threads s t)
       then (ps_threads s t)\<lparr>wth_signal_death := WORK_THREAD_DEAD\<rparr> else ps_threads s t)"
  using assms
proof (induction ts arbitrary: us ret s)
  case Nil
  show ?case by (subst pool_shutdown_loop.simps) simp
next
  case (Cons t ts)
  obtain r1 s1 where w: "work_thread_shutdown s t = (r1, s1)" by fastforce
  have l: "ps_list s1 = ps_list s" using work_thread_shutdown_frame(1) [of s t] w by simp
  have th: "ps_threads s1 = (ps_threads s)
    (t := if is_running (ps_threads s t) then (ps_threads s t)\<lparr>wth_signal_death := WORK_THREAD_DEAD\<rparr> else ps_threads s t)"
    using work_thread_shutdown_threads [of t s] w Cons.prems(2) by auto
  have "t \<notin> set ts" using is_list_distinct [OF Cons.prems(1)] by auto
  obtain ret' s' where ih: "pool_shutdown_loop L pool r1 s1 (tpos L pool ts) = Some (ret', s')" "ps_list s' = ps_list s1"
    "ps_threads s' = (\<lambda>t. if t \<in> set ts \<and> is_running (ps_threads s1 t)
       then (ps_threads s1 t)\<lparr>wth_signal_death := WORK_THREAD_DEAD\<rparr> else ps_threads s1 t)"
    using Cons.IH [of s1 "us @ [t]" r1] Cons.prems l by auto
  have "pool_shutdown_loop L pool ret s (tpos L pool (t # ts)) = Some (ret', s')"
    using w l pool_not_head [OF Cons.prems(1)] pool_next [OF Cons.prems(1)] ih(1) by (subst pool_shutdown_loop.simps) simp
  moreover have "ps_threads s' = (\<lambda>u. if u \<in> set (t # ts) \<and> is_running (ps_threads s u)
       then (ps_threads s u)\<lparr>wth_signal_death := WORK_THREAD_DEAD\<rparr> else ps_threads s u)"
    unfolding ih(3) th using \<open>t \<notin> set ts\<close> by (auto simp: fun_eq_iff)
  ultimately show ?case using l ih(2) by auto
qed

subsection \<open>Reaping\<close>

lemma work_thread_destroy_running:
  assumes "t \<noteq> NULL" "is_running (ps_threads s t)"
  shows "work_thread_destroy zero L joined s (Some t) = Some (A_OK, Some t, s)"
  using assms by (auto simp: work_thread_destroy_def thread_running_def is_running_def)

lemma destroy_tries_running:
  assumes "t \<noteq> NULL" "is_running (ps_threads s t)" "le_next (ps_list s (tnode L t)) \<noteq> LIST_POISON_NEXT"
  shows "destroy_tries zero L joined (Suc n) s t = Some (s\<lparr>ps_list := list_del (ps_list s) (tnode L t)\<rparr>)"
  using assms work_thread_destroy_running [of t "s\<lparr>ps_list := list_del (ps_list s) (tnode L t)\<rparr>"] by simp

text \<open>A thread that has exited with an error is reaped, and the error is reported: the caller's pointer is NULL then.\<close>

lemma work_thread_destroy_failed:
  assumes "t \<noteq> NULL" "wth_thread (ps_threads s t) = Some thr" "th_state thr = THREAD_STATE_TERMINATED"
    and "is_list (ps_list s) (t + off_work_endpoints L) []"
  shows "\<exists>s'. work_thread_destroy zero L (Some (exit_value r)) s (Some t) = Some (r, Some NULL, s')"
proof -
  have "le_next (ps_list s (t + off_work_endpoints L)) = t + off_work_endpoints L" using is_list_ends(1) [OF assms(4)] by simp
  then have "drop_loop (t + off_work_endpoints L) (le_next (ps_list s (t + off_work_endpoints L))) temp (ps_list s) = Some (ps_list s)" for temp
    by (subst drop_loop.simps) simp
  then show ?thesis
    using assms by (simp add: work_thread_destroy_def thread_running_def thread_join_def thread_destroy_def work_queue_release_def Let_def)
qed

lemma pool_single:
  assumes "pool_has L s pool [t]"
  shows "LIST_ITEM (le_next (ps_list s pool)) (off_tnode L) = t" "le_next (ps_list s (tnode L t)) = pool" "tnode L t \<noteq> pool" "t \<noteq> NULL"
proof -
  have l: "is_list (ps_list s) pool (map (tnode L) ([] @ t # []))" using assms by (simp add: pool_has_def)
  show "LIST_ITEM (le_next (ps_list s pool)) (off_tnode L) = t" using pool_first [OF assms] by simp
  show "le_next (ps_list s (tnode L t)) = pool" using is_list_neighbours(2) [of "ps_list s" pool "[]" "tnode L t" "[]"] l by simp
  show "tnode L t \<noteq> pool" by (rule pool_not_head [OF l])
  show "t \<noteq> NULL" using assms by (simp add: pool_has_def)
qed

subsection \<open>Properties\<close>

text \<open>Claim C29. \<open>work_pool_add_endpoint\<close> on a pool with the threads \<open>ts\<close>: a NULL pool or endpoint and an identifier that was never
  given out are bad arguments; otherwise the endpoint goes to the end of the queue of the first thread with the identifier (A_E_BUSY
  and no change if that queue is full, A_E_BADARGS and no change if it has no buffer), and A_E_NOTFOUND is answered
  if no thread has it. The search always ends.\<close>

theorem work_pool_add_endpoint_correct:
  assumes "ck_ring_contract ck contents slots" and "pool_has L s pool ts"
  shows "if pool = NULL \<or> ep = NULL \<or> \<not> i < last_thread_id s then work_pool_add_endpoint ck L s pool i ep = Some (A_E_BADARGS, s)
    else case List.find (\<lambda>t. wth_thread_id (ps_threads s t) = i) ts of
        None \<Rightarrow> work_pool_add_endpoint ck L s pool i ep = Some (A_E_NOTFOUND, s)
      | Some t \<Rightarrow> let q = wth_ep_queue (ps_threads s t); room = length (contents (wq_fifo q)) + 1 < slots (wq_fifo q)
          in if wq_buffer q = NULL then work_pool_add_endpoint ck L s pool i ep = Some (A_E_BADARGS, s)
             else \<exists>r'. work_pool_add_endpoint ck L s pool i ep = Some (if room then A_OK else A_E_BUSY,
               s\<lparr>ps_threads := (ps_threads s)(t := (ps_threads s t)\<lparr>wth_ep_queue := q\<lparr>wq_fifo := r'\<rparr>\<rparr>)\<rparr>) \<and>
             contents r' = (if room then contents (wq_fifo q) @ [ep] else contents (wq_fifo q))"
proof (cases "pool = NULL \<or> ep = NULL \<or> \<not> i < last_thread_id s")
  case True
  then show ?thesis by (auto simp: work_pool_add_endpoint_def)
next
  case False
  show ?thesis
  proof (cases "List.find (\<lambda>t. wth_thread_id (ps_threads s t) = i) ts")
    case None
    then show ?thesis using False by (simp add: work_pool_add_endpoint_def work_pool_find_thread_refines [OF assms(2)])
  next
    case (Some t)
    then have "t \<in> set ts" by (metis find_Some_iff nth_mem)
    then have "t \<noteq> NULL" using assms(2) by (auto simp: pool_has_def)
    then have add: "work_pool_add_endpoint ck L s pool i ep = Some (work_thread_add_endpoint ck s t ep)"
      using False Some by (simp add: work_pool_add_endpoint_def work_pool_find_thread_refines [OF assms(2)])
    show ?thesis
    proof (cases "wq_buffer (wth_ep_queue (ps_threads s t)) = NULL")
      case True
      then have "work_thread_add_endpoint ck s t ep = (A_E_BADARGS, s)"
        using False \<open>t \<noteq> NULL\<close> by (simp add: work_thread_add_endpoint_def work_queue_push_def)
      then show ?thesis using False Some add True by (simp add: Let_def)
    next
      case buf: False
      then show ?thesis
        using False Some add \<open>t \<noteq> NULL\<close> ck_ring_contract.push_result [OF assms(1), of "wth_ep_queue (ps_threads s t)" ep]
        by (auto simp: work_thread_add_endpoint_def Let_def)
    qed
  qed
qed

text \<open>A pool with one thread, for the witnesses.\<close>

definition sample_layout :: wt_layout where
  "sample_layout = \<lparr>off_work_endpoints = 0x80, off_tnode = 0x100\<rparr>"

definition sample_pool :: "thread_state \<Rightarrow> (nat \<times> addr list) pool_state" where
  "sample_pool st =
     \<lparr>ps_threads = (\<lambda>a. \<lparr>wth_thread = Some \<lparr>th_hdl = 1, th_state = st, th_func = Some work_thread_function, th_mask = None, th_params = 0x2000\<rparr>,
                         wth_thread_id = 1, wth_ep_queue = \<lparr>wq_fifo = (32, []), wq_max_items = 32, wq_buffer = 0x700\<rparr>, wth_signal_death = 0\<rparr>),
      ps_list = list_append (list_init (list_init (\<lambda>a. \<lparr>le_prev = 0, le_next = 0\<rparr>) 0x2080) 0x1000) 0x1000 0x2100,
      last_thread_id = 2\<rparr>"

lemma sample_pool_has: "pool_has sample_layout (sample_pool st) 0x1000 [0x2000]"
proof -
  have "is_list (ps_list (sample_pool st)) 0x1000 ([] @ [0x2100])"
    unfolding sample_pool_def by simp (rule is_list_append [of _ _ "[]", simplified], simp_all add: is_list_init)
  then show ?thesis by (simp add: pool_has_def sample_layout_def)
qed

theorem work_pool_add_endpoint_correct_witness:
  "\<exists>s'. work_pool_add_endpoint list_ring sample_layout (sample_pool THREAD_STATE_RUNNING) 0x1000 1 0x300 = Some (A_OK, s') \<and>
     snd (wq_fifo (wth_ep_queue (ps_threads s' 0x2000))) = [0x300]"
  using work_pool_add_endpoint_correct
    [OF list_ring.ck_ring_contract_axioms sample_pool_has [of THREAD_STATE_RUNNING], where ep = "0x300" and i = 1]
  by (auto simp: sample_pool_def Let_def)

text \<open>\<open>work_pool_shutdown\<close> visits every thread of the pool and returns; it sets the death signal of exactly the threads
  that are seen as running. A thread that was started but has not come to mark itself as running gets no signal.\<close>

theorem work_pool_shutdown_signals:
  assumes "pool_has L s pool ts" "pool \<noteq> NULL"
  shows "\<exists>ret s'. work_pool_shutdown L s pool = Some (ret, s') \<and> pool_has L s' pool ts \<and>
    ps_threads s' = (\<lambda>t. if t \<in> set ts \<and> is_running (ps_threads s t)
       then (ps_threads s t)\<lparr>wth_signal_death := WORK_THREAD_DEAD\<rparr> else ps_threads s t)"
proof -
  have "is_list (ps_list s) pool (map (tnode L) ([] @ ts))" "NULL \<notin> set ts" using assms(1) by (auto simp: pool_has_def)
  from pool_shutdown_refines [OF this, of A_OK] obtain ret s' where
    "pool_shutdown_loop L pool A_OK s (tpos L pool ts) = Some (ret, s')" "ps_list s' = ps_list s"
    "ps_threads s' = (\<lambda>t. if t \<in> set ts \<and> is_running (ps_threads s t)
       then (ps_threads s t)\<lparr>wth_signal_death := WORK_THREAD_DEAD\<rparr> else ps_threads s t)" by blast
  then show ?thesis using assms pool_first [OF assms(1)] by (simp add: work_pool_shutdown_def pool_has_def)
qed

theorem work_pool_shutdown_signals_witness:
  "(\<exists>ret s'. work_pool_shutdown sample_layout (sample_pool THREAD_STATE_RUNNING) 0x1000 = Some (ret, s') \<and>
      wth_signal_death (ps_threads s' 0x2000) = WORK_THREAD_DEAD) \<and>
   (\<exists>ret s'. work_pool_shutdown sample_layout (sample_pool THREAD_STATE_IDLE) 0x1000 = Some (ret, s') \<and>
      wth_signal_death (ps_threads s' 0x2000) = WORK_THREAD_ALIVE)"
proof
  show "\<exists>ret s'. work_pool_shutdown sample_layout (sample_pool THREAD_STATE_RUNNING) 0x1000 = Some (ret, s') \<and>
      wth_signal_death (ps_threads s' 0x2000) = WORK_THREAD_DEAD"
    using work_pool_shutdown_signals [OF sample_pool_has, of THREAD_STATE_RUNNING] by (auto simp: sample_pool_def is_running_def)
  show "\<exists>ret s'. work_pool_shutdown sample_layout (sample_pool THREAD_STATE_IDLE) 0x1000 = Some (ret, s') \<and>
      wth_signal_death (ps_threads s' 0x2000) = WORK_THREAD_ALIVE"
    using work_pool_shutdown_signals [OF sample_pool_has, of THREAD_STATE_IDLE]
    by (auto simp: sample_pool_def is_running_def WORK_THREAD_ALIVE_def)
qed

text \<open>\<open>work_pool_destroy\<close> does not wait for a running thread: the thread is taken off the list, its destruction is
  answered with A_OK, and it is left as it is, unjoined, while the pool is gone.\<close>

theorem work_pool_destroy_abandons_running:
  assumes "pool_has L s pool [t]" "pool \<noteq> NULL" "pool \<noteq> LIST_POISON_NEXT" "is_running (ps_threads s t)"
  shows "\<exists>s'. work_pool_destroy zero L joined s (Some pool) = Some (A_OK, Some NULL, s') \<and> ps_threads s' = ps_threads s"
proof -
  note p = pool_single [OF assms(1)]
  let ?s = "s\<lparr>ps_list := list_del (ps_list s) (tnode L t)\<rparr>"
  have "destroy_tries zero L (joined t) (Suc 99999) s t = Some ?s"
    using destroy_tries_running [OF p(4) assms(4)] p(2) assms(3) by metis
  moreover have "Suc 99999 = 100000" by simp
  ultimately have "destroy_tries zero L (joined t) 100000 s t = Some ?s" by metis
  moreover have "pool_destroy_loop zero L joined pool ?s (LIST_ITEM pool (off_tnode L)) temp = Some ?s" for temp
    by (subst pool_destroy_loop.simps) (simp add: LIST_ITEM_def)
  ultimately have "pool_destroy_loop zero L joined pool s t (LIST_ITEM pool (off_tnode L)) = Some ?s"
    using p(3) by (subst pool_destroy_loop.simps) simp
  then show ?thesis using p assms(2) by (simp add: work_pool_destroy_def)
qed

theorem work_pool_destroy_abandons_running_witness:
  "\<exists>s'. work_pool_destroy (0, []) sample_layout (\<lambda>t. None) (sample_pool THREAD_STATE_RUNNING) (Some 0x1000) = Some (A_OK, Some NULL, s') \<and>
     is_running (ps_threads s' 0x2000)"
  using work_pool_destroy_abandons_running [OF sample_pool_has, of THREAD_STATE_RUNNING "(0, [])" "\<lambda>t. None"]
  by (auto simp: LIST_POISON_NEXT_def is_running_def sample_pool_def)

text \<open>A thread that has exited with an error, as one whose CPU mask was refused has, is reaped by
  \<open>work_pool_destroy\<close>, but its error is taken for a failure to reap it: the next try goes through the pointer that is NULL by now.\<close>

theorem work_pool_destroy_faults:
  assumes "pool_has L s pool [t]" "pool \<noteq> NULL" "pool \<noteq> LIST_POISON_NEXT"
    and "wth_thread (ps_threads s t) = Some thr" "th_state thr = THREAD_STATE_TERMINATED"
    and "joined t = Some (exit_value r)" "AFAILED r"
    and "is_list (ps_list s) (t + off_work_endpoints L) []" "t + off_work_endpoints L \<notin> {pool, tnode L t}"
  shows "work_pool_destroy zero L joined s (Some pool) = None"
proof -
  note p = pool_single [OF assms(1)]
  let ?s = "s\<lparr>ps_list := list_del (ps_list s) (tnode L t)\<rparr>"
  have l: "is_list (ps_list s) pool [tnode L t]" using assms(1) by (simp add: pool_has_def)
  have "list_del (ps_list s) (tnode L t) (t + off_work_endpoints L) = ps_list s (t + off_work_endpoints L)"
    using assms(9) by (intro list_del_outside_list [OF l]) auto
  then have "is_list (ps_list ?s) (t + off_work_endpoints L) []" using assms(8) by (subst is_list_cong [of _ _ _ "ps_list s"]) auto
  then obtain s' where "work_thread_destroy zero L (joined t) ?s (Some t) = Some (r, Some NULL, s')"
    using work_thread_destroy_failed [of t ?s thr L zero r] p(4) assms(4-6) by auto
  then have "destroy_tries zero L (joined t) (Suc (Suc n)) s t = None" for n
    using p assms(3,7) by simp
  moreover have "(100000 :: nat) = Suc (Suc 99998)" by simp
  ultimately have "destroy_tries zero L (joined t) 100000 s t = None" by metis
  then have "pool_destroy_loop zero L joined pool s t temp = None" for temp
    using p(3) by (subst pool_destroy_loop.simps) simp
  then show ?thesis using p(1) assms(2) by (simp add: work_pool_destroy_def)
qed

theorem work_pool_destroy_faults_witness:
  "work_pool_destroy (0, []) sample_layout (\<lambda>t. Some (exit_value A_E_INVAL)) (sample_pool THREAD_STATE_TERMINATED) (Some 0x1000) = None"
proof -
  have "is_list (ps_list (sample_pool THREAD_STATE_TERMINATED)) 0x2080 []"
    by (simp add: is_list_def link_def sample_pool_def list_append_def list_mem_simps list_init_def)
  then show ?thesis
    by (intro work_pool_destroy_faults [OF sample_pool_has, where r = A_E_INVAL and
          thr = "the (wth_thread (ps_threads (sample_pool THREAD_STATE_TERMINATED) 0x2000))"])
      (simp_all add: LIST_POISON_NEXT_def sample_pool_def sample_layout_def)
qed

end
