(* ===== verification/Logger.thy ===== *)
theory Logger
  imports RBTree_Order Work_Pool
begin

section \<open>The logger (tsl/logger/logger.h, tsl/logger/logger.c)\<close>

text \<open>
  A logger is a work endpoint of an offload thread: messages come in through a work queue, each is passed to the handler that
  is registered for its type in a red-black tree, and is returned through a second queue. The world that the callbacks of the
  endpoint act on is the logger's own state; \<open>lw_calls\<close> is the trace of handler calls (function, state argument, payload) and
  \<open>lw_fault\<close> tells that a NULL pointer was followed. The offsets of the members of \<open>struct logger_endpoint\<close> depend on the
  ring of the concurrency kit and are arguments.
\<close>

subsection \<open>State\<close>

datatype logger_state = LOGGER_STATE_INACTIVE | LOGGER_STATE_STARTING | LOGGER_STATE_RUNNING | LOGGER_STATE_TERMINATED

record logger_message =
  lm_timestamp :: u64
  lm_release :: addr
  lm_payload :: addr
  lm_message_type :: u32

text \<open>\<open>'f\<close>: function pointers. The members \<open>tnode\<close> and \<open>lnode\<close> of a handler lie in the memories of tree nodes and list
  entries, 24 and 64 bytes into the struct.\<close>

record 'f logger_message_handler =
  lh_message_type :: u32
  lh_state :: addr
  lh_dispatch :: "'f option"

definition htnode :: "addr \<Rightarrow> addr" where "htnode h = h + 24"
definition hlnode :: "addr \<Rightarrow> addr" where "hlnode h = h + 64"

record 'r logger_endpoint =
  lg_out_queue :: "'r work_queue"
  lg_in_queue :: "'r work_queue"
  lg_handlers :: "(addr \<Rightarrow> addr \<Rightarrow> int) rb_tree"
  lg_state :: logger_state

record ('r, 'f) lg_world =
  lw_lep :: "'r logger_endpoint"
  lw_handlers :: "addr \<Rightarrow> 'f logger_message_handler"
  lw_rb :: rb_mem
  lw_msgs :: "addr \<Rightarrow> logger_message"
  lw_calls :: "('f option \<times> addr \<times> addr) list"
  lw_fault :: bool

record lg_layout =
  off_ep :: addr
  off_handler_list :: addr

text \<open>\<open>__logger_cmp_message_handlers\<close>: the keys are cut to 32 bits; the subtraction wraps around.\<close>

definition logger_cmp_message_handlers :: "addr \<Rightarrow> addr \<Rightarrow> int" where
  "logger_cmp_message_handlers lhs rhs = sint (ucast lhs - ucast rhs :: u32)"

subsection \<open>The endpoint's callbacks\<close>

text \<open>\<open>__logger_get_handler\<close>: NULL if there is none; \<open>None\<close> if the search does not end.\<close>

definition logger_get_handler :: "('r, 'f) lg_world \<Rightarrow> u32 \<Rightarrow> addr option" where
  "logger_get_handler w message_id =
     do { (ret, handler) \<leftarrow> rb_tree_find (lw_rb w) (Some (lg_handlers (lw_lep w))) (ucast message_id) (Some NULL);
          if AFAILED ret then Some NULL else map_option (\<lambda>h. h - 24) handler }"

text \<open>The end of the poll function: the message goes back.\<close>

definition poll_done :: "'r ck_ring \<Rightarrow> addr \<Rightarrow> ('r, 'f) lg_world \<Rightarrow> ('r, 'f) lg_world" where
  "poll_done ck lmsg w =
     (if lmsg \<noteq> NULL
      then w\<lparr>lw_lep := (lw_lep w)\<lparr>lg_in_queue := the (snd (work_queue_push ck (Some (lg_in_queue (lw_lep w))) lmsg))\<rparr>\<rparr>
      else w)"

text \<open>The two early exits jump over the initialisation of \<open>lmsg\<close>: there it has the indeterminate value \<open>lmsg0\<close>.\<close>

definition logger_endpoint_poll_func ::
  "'r ck_ring \<Rightarrow> addr \<Rightarrow> addr \<Rightarrow> u32 \<Rightarrow> ('r, 'f) lg_world \<Rightarrow> aresult_t \<times> u32 \<times> ('r, 'f) lg_world" where
  "logger_endpoint_poll_func ck lmsg0 ep wait w =
     (let (r, fill) = work_queue_fill ck (Some (lg_out_queue (lw_lep w))) (Some 0)
      in if AFAILED r then (A_E_INVAL, wait, poll_done ck lmsg0 w)
         else if fill = Some 0 then (A_OK, wait, poll_done ck lmsg0 w)
         else let (r, q, p) = work_queue_pop ck (Some (lg_out_queue (lw_lep w))) (Some NULL);
                  w = w\<lparr>lw_lep := (lw_lep w)\<lparr>lg_out_queue := the q\<rparr>\<rparr>;
                  lmsg = the p
              in if AFAILED r then (A_OK, wait, poll_done ck lmsg w)
                 else if lmsg = NULL then (A_OK, wait, w\<lparr>lw_fault := True\<rparr>)
                 else case logger_get_handler w (lm_message_type (lw_msgs w lmsg)) of
                        None \<Rightarrow> (A_OK, wait, w\<lparr>lw_fault := True\<rparr>)
                      | Some hdlr \<Rightarrow>
                          if hdlr = NULL then (A_OK, wait, poll_done ck lmsg w)
                          else let h = lw_handlers w hdlr;
                                   w = w\<lparr>lw_calls := lw_calls w @ [(lh_dispatch h, lh_state h, lm_payload (lw_msgs w lmsg))]\<rparr>
                               in (A_OK, wait, poll_done ck lmsg w))"

definition logger_endpoint_startup :: "addr \<Rightarrow> ('r, 'f) lg_world \<Rightarrow> aresult_t \<times> ('r, 'f) lg_world" where
  "logger_endpoint_startup ep w = (A_OK, w\<lparr>lw_lep := (lw_lep w)\<lparr>lg_state := LOGGER_STATE_RUNNING\<rparr>\<rparr>)"

definition logger_endpoint_shutdown :: "addr \<Rightarrow> ('r, 'f) lg_world \<Rightarrow> aresult_t \<times> ('r, 'f) lg_world" where
  "logger_endpoint_shutdown ep w = (A_OK, w\<lparr>lw_lep := (lw_lep w)\<lparr>lg_state := LOGGER_STATE_TERMINATED\<rparr>\<rparr>)"

definition logger_endpoint_ops :: "'r ck_ring \<Rightarrow> addr \<Rightarrow> ('r, 'f) lg_world work_endpoint_ops" where
  "logger_endpoint_ops ck lmsg0 =
     \<lparr>op_poll = Some (logger_endpoint_poll_func ck lmsg0), op_startup = Some logger_endpoint_startup,
      op_shutdown = Some logger_endpoint_shutdown\<rparr>"

subsection \<open>Setting up\<close>

text \<open>\<open>nep\<close> is the address of the zeroed struct, \<open>buf1\<close> and \<open>buf2\<close> are the buffers of the queues (NULL if there is no memory).\<close>

definition logger_initialize ::
  "'r ck_ring \<Rightarrow> 'r \<Rightarrow> addr \<Rightarrow> lg_layout \<Rightarrow> addr \<Rightarrow> addr \<Rightarrow> addr \<Rightarrow> ('r, 'f) lg_world ep_state \<Rightarrow> addr option \<Rightarrow> u32 \<Rightarrow>
   aresult_t \<times> addr option \<times> ('r, 'f) lg_world ep_state" where
  "logger_initialize ck zero lmsg0 L nep buf1 buf2 s ep queue_depth =
     (if ep = None then (A_E_BADARGS, ep, s)
      else if nep = NULL then (A_E_NOMEM, Some NULL, s)
      else let zq = \<lparr>wq_fifo = zero, wq_max_items = 0, wq_buffer = NULL\<rparr>;
               (ret, s) = work_endpoint_init s (nep + off_ep L) (Some (logger_endpoint_ops ck lmsg0)) nep
      in if AFAILED ret then (ret, Some NULL, s)
      else let (ret, oq) = work_queue_new ck zero buf1 (Some zq) (ucast queue_depth)
      in if AFAILED ret then (ret, Some NULL, s)
      else let (ret, iq) = work_queue_new ck zero buf2 (Some zq) (ucast queue_depth)
      in if AFAILED ret then (ret, Some NULL, s)
      else let s = s\<lparr>nodes := list_init (nodes s) (nep + off_handler_list L)\<rparr>;
               (ret, tree) = rb_tree_new (Some \<lparr>rb_root = NULL, rb_compare = None, rb_rightmost = NULL, rb_state = (\<lambda>_ _. 0)\<rparr>)
                               (Some logger_cmp_message_handlers)
      in if AFAILED ret then (ret, Some NULL, s)
      else (ret, Some nep, s\<lparr>world := (world s)\<lparr>lw_lep := \<lparr>lg_out_queue = the oq, lg_in_queue = the iq, lg_handlers = the tree,
                                                          lg_state = LOGGER_STATE_INACTIVE\<rparr>\<rparr>\<rparr>))"

text \<open>\<open>nhdlr\<close> is the address of the zeroed handler struct, NULL if there is no memory.\<close>

definition logger_add_message_handler ::
  "lg_layout \<Rightarrow> addr \<Rightarrow> ('r, 'f) lg_world ep_state \<Rightarrow> addr \<Rightarrow> u32 \<Rightarrow> 'f option \<Rightarrow> (aresult_t \<times> ('r, 'f) lg_world ep_state) option" where
  "logger_add_message_handler L nhdlr s ep message_type func =
     (if ep = NULL \<or> \<not> 0 < message_type \<or> func = None \<or> lg_state (lw_lep (world s)) \<noteq> LOGGER_STATE_INACTIVE
      then Some (A_E_BADARGS, s)
      else do {
        let w = world s;
        (ret, temp) \<leftarrow> rb_tree_find (lw_rb w) (Some (lg_handlers (lw_lep w))) (ucast message_type) (Some NULL);
        if \<not> AFAILED ret then Some (A_E_BUSY, s)
        else if nhdlr = NULL then Some (A_E_NOMEM, s)
        else do {
          let m = (lw_rb w)(htnode nhdlr := \<lparr>rb_left = NULL, rb_right = NULL, rb_parent = NULL, rb_key = NULL, rb_color = 0\<rparr>);
          let w = w\<lparr>lw_handlers := (lw_handlers w)(nhdlr := \<lparr>lh_message_type = message_type, lh_state = ep, lh_dispatch = func\<rparr>)\<rparr>;
          let lm = list_init (nodes s) (hlnode nhdlr);
          (ret, m, tree) \<leftarrow> rb_tree_insert m (Some (lg_handlers (lw_lep w))) (ucast message_type) (htnode nhdlr);
          tree \<leftarrow> tree;
          let w = w\<lparr>lw_rb := m, lw_lep := (lw_lep w)\<lparr>lg_handlers := tree\<rparr>\<rparr>;
          if AFAILED ret then Some (ret, s\<lparr>nodes := lm, world := w\<rparr>)
          else Some (ret, s\<lparr>nodes := list_append lm (ep + off_handler_list L) (hlnode nhdlr), world := w\<rparr>) } })"

definition logger_start ::
  "'r ck_ring \<Rightarrow> wt_layout \<Rightarrow> lg_layout \<Rightarrow> ('r, 'f) lg_world \<Rightarrow> 'r pool_state \<Rightarrow> addr \<Rightarrow> addr \<Rightarrow> u32 \<Rightarrow>
   (aresult_t \<times> ('r, 'f) lg_world \<times> 'r pool_state) option" where
  "logger_start ck WL L w ps ep pool thread_id =
     (if ep = NULL \<or> pool = NULL \<or> lg_state (lw_lep w) \<noteq> LOGGER_STATE_INACTIVE then Some (A_E_BADARGS, w, ps)
      else do {
        (ret, ps) \<leftarrow> work_pool_add_endpoint ck WL ps pool thread_id (ep + off_ep L);
        Some (ret, w\<lparr>lw_lep := (lw_lep w)\<lparr>lg_state := if AFAILED ret then LOGGER_STATE_TERMINATED else LOGGER_STATE_STARTING\<rparr>\<rparr>, ps) })"

subsection \<open>The comparison callback\<close>

text \<open>Keys that are message types below 2 to the 31.\<close>

definition type_keys :: "addr set" where
  "type_keys = {k. uint k < 2 ^ 31}"

lemma logger_cmp_on_keys:
  assumes "a \<in> type_keys" "b \<in> type_keys"
  shows "logger_cmp_message_handlers a b = uint a - uint b"
proof -
  have a: "uint a < 2 ^ 31" "uint b < 2 ^ 31" using assms by (simp_all add: type_keys_def)
  have diff: "(ucast a - ucast b :: u32) = word_of_int (uint a - uint b)" by (simp only: ucast_eq of_int_diff)
  have "logger_cmp_message_handlers a b = signed_take_bit 31 (uint a - uint b)"
    unfolding logger_cmp_message_handlers_def diff by (simp add: sint_sbintrunc' del: of_int_diff)
  also have "\<dots> = uint a - uint b"
    using a uint_ge_0 [of a] uint_ge_0 [of b] by (intro signed_take_bit_int_eq_self) linarith+
  finally show ?thesis .
qed

interpretation logger_order: rb_order type_keys logger_cmp_message_handlers
  by unfold_locales (auto simp: logger_cmp_on_keys)

text \<open>Beyond that the callback is not an order: here are three keys, each before the next and the last before the first.\<close>

lemma logger_cmp_cycle:
  "logger_cmp_message_handlers 1 0x60000000 < 0 \<and> logger_cmp_message_handlers 0x60000000 0xc0000000 < 0 \<and>
   logger_cmp_message_handlers 0xc0000000 1 < 0"
  by (simp add: logger_cmp_message_handlers_def)

subsection \<open>Registered handlers\<close>

text \<open>The logger has the handlers \<open>hs\<close> (in the order of their types): their nodes are the tree's nodes, their types the keys.\<close>

definition logger_has :: "('r, 'f) lg_world \<Rightarrow> addr list \<Rightarrow> bool" where
  "logger_has w hs \<longleftrightarrow>
     rb_repr type_keys (lw_rb w) (lg_handlers (lw_lep w)) (map htnode hs) \<and>
     rb_cmp (lg_handlers (lw_lep w)) = logger_cmp_message_handlers \<and>
     (\<forall>h \<in> set hs. h \<noteq> NULL \<and> rb_key (lw_rb w (htnode h)) = ucast (lh_message_type (lw_handlers w h)))"

lemma ucast_type_key: "uint (ucast t :: addr) = uint (t :: u32)"
  using unsigned_less [of t, where 'a = int] by (simp add: unsigned_ucast_eq take_bit_int_eq_self_iff)

lemma type_key_iff: "(ucast t :: addr) \<in> type_keys \<longleftrightarrow> uint (t :: u32) < 2 ^ 31"
  by (simp add: type_keys_def ucast_type_key)

lemma ucast_type_inject [simp]: "(ucast t :: addr) = ucast u \<longleftrightarrow> t = (u :: u32)"
  by (metis ucast_type_key word_uint_eq_iff)

lemma htnode_inject [simp]: "htnode h = htnode h' \<longleftrightarrow> h = h'"
  by (simp add: htnode_def)

lemma htnode_inverse [simp]: "htnode h - 24 = h"
  by (simp add: htnode_def)

lemma logger_cmp_zero_iff: "a \<in> type_keys \<Longrightarrow> b \<in> type_keys \<Longrightarrow> logger_cmp_message_handlers a b = 0 \<longleftrightarrow> a = b"
  by (simp add: logger_cmp_on_keys word_uint_eq_iff)

lemma find_map: "List.find P (map f xs) = map_option f (List.find (P \<circ> f) xs)"
  by (induction xs) auto

lemma logger_has_keys:
  assumes "logger_has w hs" "h \<in> set hs"
  shows "rb_key (lw_rb w (htnode h)) \<in> type_keys" "rb_key (lw_rb w (htnode h)) = ucast (lh_message_type (lw_handlers w h))" "h \<noteq> NULL"
  using assms by (auto simp: logger_has_def rb_repr_def)

lemma logger_find:
  assumes "logger_has w hs" "0 < t" "uint t < 2 ^ 31"
  shows "rb_tree_find (lw_rb w) (Some (lg_handlers (lw_lep w))) (ucast t) (Some NULL) =
    Some (case List.find (\<lambda>h. lh_message_type (lw_handlers w h) = t) hs of
            None \<Rightarrow> (A_E_NOTFOUND, Some NULL) | Some h \<Rightarrow> (A_OK, Some (htnode h)))"
proof -
  have cmp: "rb_cmp (lg_handlers (lw_lep w)) = logger_cmp_message_handlers"
    and r: "rb_repr type_keys (lw_rb w) (lg_handlers (lw_lep w)) (map htnode hs)" using assms(1) by (auto simp: logger_has_def)
  have "t \<noteq> 0" using assms(2) by auto
  then have key: "(ucast t :: addr) \<in> type_keys" "(ucast t :: addr) \<noteq> NULL"
    using assms(3) ucast_type_inject [of t 0] by (auto simp: type_key_iff)
  have "List.find (\<lambda>a. rb_cmp (lg_handlers (lw_lep w)) (ucast t) (rb_key (lw_rb w a)) = 0) (map htnode hs) =
      map_option htnode (List.find (\<lambda>h. lh_message_type (lw_handlers w h) = t) hs)"
    unfolding cmp find_map comp_def
    using logger_has_keys [OF assms(1)] logger_cmp_zero_iff [OF key(1)]
    by (intro arg_cong [of _ _ "map_option htnode"] find_cong refl) auto
  then show ?thesis using find_refines [OF r key, of NULL] by (simp add: option.case_eq_if option.map_sel)
qed

lemma logger_get_handler_refines:
  assumes "logger_has w hs" "0 < t" "uint t < 2 ^ 31"
  shows "logger_get_handler w t = Some (case List.find (\<lambda>h. lh_message_type (lw_handlers w h) = t) hs of None \<Rightarrow> NULL | Some h \<Rightarrow> h)"
  using logger_find [OF assms] by (simp add: logger_get_handler_def split: option.split)

lemma rb_tree_insert_callback:
  assumes "rb_tree_insert m (Some t) key node = Some (ret, m', Some t')"
  shows "rb_compare t' = rb_compare t \<and> rb_state t' = rb_state t"
  using assms by (auto simp: rb_tree_insert_def Let_def split: if_splits bind_splits option.splits)

text \<open>Inserting a handler into the list that is ordered by type.\<close>

definition insert_handler :: "(addr \<Rightarrow> 'f logger_message_handler) \<Rightarrow> u32 \<Rightarrow> addr \<Rightarrow> addr list \<Rightarrow> addr list" where
  "insert_handler H t n hs =
     (let P = (\<lambda>h. lh_message_type (H h) < t) in takeWhile P hs @ n # dropWhile P hs)"

lemma set_insert_handler: "set (insert_handler H t n hs) = insert n (set hs)"
  by (simp add: insert_handler_def Let_def) (metis Un_insert_left set_append sup_commute takeWhile_dropWhile_id)

lemma insert_node_handlers:
  assumes "\<And>h. h \<in> set hs \<Longrightarrow> rb_key (m (htnode h)) = ucast (lh_message_type (H h)) \<and> uint (lh_message_type (H h)) < 2 ^ 31"
    and "uint t < 2 ^ 31"
  shows "insert_node logger_cmp_message_handlers m (ucast t) (htnode n) (map htnode hs) = map htnode (insert_handler H t n hs)"
proof -
  have "0 < logger_cmp_message_handlers (ucast t) (rb_key (m (htnode h))) \<longleftrightarrow> lh_message_type (H h) < t" if "h \<in> set hs" for h
    using assms(1) [OF that] assms(2) by (simp add: logger_cmp_on_keys type_key_iff ucast_type_key word_less_def)
  then have "takeWhile (\<lambda>a. 0 < logger_cmp_message_handlers (ucast t) (rb_key (m a))) (map htnode hs) = map htnode (takeWhile (\<lambda>h. lh_message_type (H h) < t) hs)"
    "dropWhile (\<lambda>a. 0 < logger_cmp_message_handlers (ucast t) (rb_key (m a))) (map htnode hs) = map htnode (dropWhile (\<lambda>h. lh_message_type (H h) < t) hs)"
    by (auto simp: takeWhile_map dropWhile_map comp_def intro!: arg_cong [of _ _ "map htnode"] takeWhile_cong dropWhile_cong)
  then show ?thesis by (simp add: insert_node_def insert_handler_def Let_def)
qed

lemma logger_add_refines:
  fixes s :: "('r, 'f) lg_world ep_state"
  assumes has: "logger_has (world s) hs" and st: "lg_state (lw_lep (world s)) = LOGGER_STATE_INACTIVE"
    and args: "ep \<noteq> NULL" "0 < t" "uint t < 2 ^ 31" "n \<noteq> NULL" "htnode n \<noteq> NULL" "n \<notin> set hs"
    and new: "\<forall>h \<in> set hs. lh_message_type (lw_handlers (world s) h) \<noteq> t"
  shows "\<exists>w'. logger_add_message_handler L n s ep t (Some f) =
      Some (A_OK, s\<lparr>nodes := list_append (list_init (nodes s) (hlnode n)) (ep + off_handler_list L) (hlnode n), world := w'\<rparr>) \<and>
    logger_has w' (insert_handler (lw_handlers (world s)) t n hs) \<and>
    lw_handlers w' = (lw_handlers (world s))(n := \<lparr>lh_message_type = t, lh_state = ep, lh_dispatch = Some f\<rparr>)"
proof -
  let ?w = "world s" and ?key = "ucast t :: addr"
  let ?tree = "lg_handlers (lw_lep ?w)" and ?H = "lw_handlers ?w"
  let ?m = "(lw_rb ?w)(htnode n := \<lparr>rb_left = NULL, rb_right = NULL, rb_parent = NULL, rb_key = NULL, rb_color = 0\<rparr>)"
  let ?h = "\<lparr>lh_message_type = t, lh_state = ep, lh_dispatch = Some f\<rparr>"
  have cmp: "rb_cmp ?tree = logger_cmp_message_handlers" and r: "rb_repr type_keys (lw_rb ?w) ?tree (map htnode hs)"
    using has by (auto simp: logger_has_def)
  have key: "?key \<in> type_keys" using args(3) by (simp add: type_key_iff)
  have m: "rb_key (?m (htnode h)) = ucast (lh_message_type (?H h)) \<and> uint (lh_message_type (?H h)) < 2 ^ 31" if "h \<in> set hs" for h
    using logger_has_keys [OF has that] that args(6) by (auto simp: type_key_iff)
  have rm: "rb_repr type_keys ?m ?tree (map htnode hs)"
    using r args(6) by (subst rb_repr_cong [of _ ?m "lw_rb ?w"]) auto
  have fresh: "fresh_node ?m (map htnode hs) (htnode n)" using args(5,6) by (auto simp: fresh_node_def)
  have none: "\<not> (\<exists>a \<in> set (map htnode hs). rb_cmp ?tree ?key (rb_key (?m a)) = 0)"
    using m new key by (auto simp: cmp logger_cmp_zero_iff type_key_iff)
  then obtain m' tree' where ins: "rb_tree_insert ?m (Some ?tree) ?key (htnode n) = Some (A_OK, m', Some tree')"
    "rb_repr type_keys m' tree' (insert_node (rb_cmp ?tree) ?m ?key (htnode n) (map htnode hs))"
    "rb_key (m' (htnode n)) = ?key" "\<forall>a \<in> set (map htnode hs). rb_key (m' a) = rb_key (?m a)"
    using insert_refines [OF rm key fresh] by auto
  have hs': "insert_node (rb_cmp ?tree) ?m ?key (htnode n) (map htnode hs) = map htnode (insert_handler ?H t n hs)"
    unfolding cmp using m args(3) by (intro insert_node_handlers) auto
  let ?w' = "?w\<lparr>lw_handlers := ?H(n := ?h), lw_rb := m', lw_lep := (lw_lep ?w)\<lparr>lg_handlers := tree'\<rparr>\<rparr>"
  have "rb_cmp tree' = logger_cmp_message_handlers" using rb_tree_insert_callback [OF ins(1)] cmp by simp
  moreover have "\<forall>h \<in> set hs. rb_key (m' (htnode h)) = ucast (lh_message_type (?H h)) \<and> h \<noteq> NULL"
    using ins(4) m logger_has_keys(3) [OF has] by auto
  ultimately have "logger_has ?w' (insert_handler ?H t n hs)"
    using ins(2,3) args(4,6) unfolding hs' by (auto simp: logger_has_def set_insert_handler)
  moreover have "List.find (\<lambda>h. lh_message_type (?H h) = t) hs = None" using new by (simp add: find_None_iff)
  then have "logger_add_message_handler L n s ep t (Some f) =
      Some (A_OK, s\<lparr>nodes := list_append (list_init (nodes s) (hlnode n)) (ep + off_handler_list L) (hlnode n), world := ?w'\<rparr>)"
    using args st ins(1) logger_find [OF has args(2,3)] by (simp add: logger_add_message_handler_def Let_def)
  ultimately show ?thesis by (intro exI [of _ ?w']) simp
qed

lemma find_skip: "\<not> P n \<Longrightarrow> List.find P (xs @ n # ys) = List.find P (xs @ ys)"
  by (induction xs) auto

lemma find_only: "P n \<Longrightarrow> \<forall>x \<in> set xs. \<not> P x \<Longrightarrow> List.find P (xs @ n # ys) = Some n"
  by (induction xs) auto

text \<open>Looking up the types after an insertion.\<close>

lemma find_insert_handler:
  assumes "n \<notin> set hs" "\<forall>h \<in> set hs. lh_message_type (H h) \<noteq> t" "lh_message_type x = t"
  shows "List.find (\<lambda>h. lh_message_type ((H(n := x)) h) = u) (insert_handler H t n hs) =
    (if u = t then Some n else List.find (\<lambda>h. lh_message_type (H h) = u) hs)"
proof (cases "u = t")
  case True
  then show ?thesis
    using assms by (auto simp: insert_handler_def Let_def dest: set_takeWhileD intro!: find_only)
next
  case False
  then have "List.find (\<lambda>h. lh_message_type ((H(n := x)) h) = u) (insert_handler H t n hs) =
      List.find (\<lambda>h. lh_message_type ((H(n := x)) h) = u) hs"
    using assms(3) unfolding insert_handler_def Let_def by (subst find_skip) simp_all
  also have "\<dots> = List.find (\<lambda>h. lh_message_type (H h) = u) hs" using assms(1) by (intro find_cong refl) auto
  finally show ?thesis using False by simp
qed

subsection \<open>Polling\<close>

context ck_ring_contract
begin

lemma poll_done_result:
  assumes "wq_buffer (lg_in_queue (lw_lep w)) \<noteq> NULL" "lmsg \<noteq> NULL"
  shows "\<exists>r'. poll_done ck lmsg w = w\<lparr>lw_lep := (lw_lep w)\<lparr>lg_in_queue := (lg_in_queue (lw_lep w))\<lparr>wq_fifo := r'\<rparr>\<rparr>\<rparr> \<and>
    contents r' = (let c = contents (wq_fifo (lg_in_queue (lw_lep w))) in
      if length c + 1 < slots (wq_fifo (lg_in_queue (lw_lep w))) then c @ [lmsg] else c) \<and>
    slots r' = slots (wq_fifo (lg_in_queue (lw_lep w)))"
  using push_result [OF assms] assms(2) by (auto simp: poll_done_def Let_def)

lemma fill_result:
  assumes "wq_buffer q \<noteq> NULL" "length (contents (wq_fifo q)) < 2 ^ 32"
  shows "\<exists>n. work_queue_fill ck (Some q) (Some 0) = (A_OK, Some n) \<and> (n = 0 \<longleftrightarrow> contents (wq_fifo q) = [])"
proof -
  have "ck_ring_size ck (wq_fifo q) = 0 \<longleftrightarrow> contents (wq_fifo q) = []"
    using size [OF assms(2)] by (metis length_0_conv unat_eq_zero)
  then show ?thesis using assms(1) by (simp add: work_queue_fill_def)
qed

lemma poll_empty:
  assumes "wq_buffer (lg_out_queue (lw_lep w)) \<noteq> NULL" "contents (wq_fifo (lg_out_queue (lw_lep w))) = []"
  shows "logger_endpoint_poll_func ck lmsg0 ep wait w = (A_OK, wait, poll_done ck lmsg0 w)"
  using fill_result [OF assms(1)] assms(2) by (auto simp: logger_endpoint_poll_func_def)

lemma poll_message:
  assumes has: "logger_has w hs" and q: "wq_buffer (lg_out_queue (lw_lep w)) \<noteq> NULL"
    and msg: "contents (wq_fifo (lg_out_queue (lw_lep w))) = msg # rest" "length (msg # rest) < 2 ^ 32" "msg \<noteq> NULL"
    and t: "0 < lm_message_type (lw_msgs w msg)" "uint (lm_message_type (lw_msgs w msg)) < 2 ^ 31"
  shows "\<exists>r'. contents r' = rest \<and> logger_endpoint_poll_func ck lmsg0 ep wait w = (A_OK, wait, poll_done ck msg
      (w\<lparr>lw_lep := (lw_lep w)\<lparr>lg_out_queue := (lg_out_queue (lw_lep w))\<lparr>wq_fifo := r'\<rparr>\<rparr>,
         lw_calls := lw_calls w @ (case List.find (\<lambda>h. lh_message_type (lw_handlers w h) = lm_message_type (lw_msgs w msg)) hs of
            None \<Rightarrow> [] | Some h \<Rightarrow> [(lh_dispatch (lw_handlers w h), lh_state (lw_handlers w h), lm_payload (lw_msgs w msg))])\<rparr>))"
proof -
  let ?q = "lg_out_queue (lw_lep w)" and ?t = "lm_message_type (lw_msgs w msg)"
  obtain n where n: "work_queue_fill ck (Some ?q) (Some 0) = (A_OK, Some n)" "n \<noteq> 0"
    using fill_result [OF q] msg(1,2) by auto
  obtain r' where r': "work_queue_pop ck (Some ?q) (Some NULL) = (A_OK, Some (?q\<lparr>wq_fifo := r'\<rparr>), Some msg)" "contents r' = rest"
    using pop_result [OF q, of NULL] msg(1) by auto
  let ?w = "w\<lparr>lw_lep := (lw_lep w)\<lparr>lg_out_queue := ?q\<lparr>wq_fifo := r'\<rparr>\<rparr>\<rparr>"
  have "logger_has ?w hs" using has by (simp add: logger_has_def)
  from logger_get_handler_refines [OF this t]
  have g: "logger_get_handler ?w ?t = Some (case List.find (\<lambda>h. lh_message_type (lw_handlers w h) = ?t) hs of None \<Rightarrow> NULL | Some h \<Rightarrow> h)"
    by simp
  have "h \<noteq> NULL" if "List.find (\<lambda>h. lh_message_type (lw_handlers w h) = ?t) hs = Some h" for h
    using that logger_has_keys(3) [OF has] by (metis find_Some_iff nth_mem)
  then show ?thesis
    using n r' g msg(3)
    by (intro exI [of _ r']) (auto simp: logger_endpoint_poll_func_def Let_def split: option.split)
qed

end

subsection \<open>Properties\<close>

lemma logger_has_empty:
  assumes "lg_handlers (lw_lep w) = \<lparr>rb_root = NULL, rb_compare = Some rb_tree_cmp_mapper, rb_rightmost = rm, rb_state = logger_cmp_message_handlers\<rparr>"
  shows "logger_has w []"
proof -
  have c: "rb_tree_cmp_mapper logger_cmp_message_handlers = logger_cmp_message_handlers" by (simp add: fun_eq_iff rb_tree_cmp_mapper_def)
  have "rb_valid (lw_rb w) NULL Leaf" by (auto simp: rb_valid_def tree_at_def black_def)
  then have "\<exists>T. rb_valid (lw_rb w) NULL T \<and> inorder T = []" by (intro exI [of _ Leaf]) simp
  then show ?thesis
    using assms logger_order.rb_order_axioms by (simp add: logger_has_def rb_repr_def ordered_def c)
qed

text \<open>Claim C11. Registering a handler refines the update of a map from message types (1 up to 2 to the 31 - 1) to handlers: a type
  that has a handler is answered with A_E_BUSY and nothing changes; otherwise the answer is A_OK, the new handler is found under
  its type from then on, every other type finds what it found before, and the handler is appended to the list.\<close>

theorem logger_add_message_handler_correct:
  fixes s :: "('r, 'f) lg_world ep_state"
  assumes "logger_has (world s) hs" and "lg_state (lw_lep (world s)) = LOGGER_STATE_INACTIVE"
    and "ep \<noteq> NULL" "0 < t" "uint t < 2 ^ 31" "n \<noteq> NULL" "htnode n \<noteq> NULL" "n \<notin> set hs"
  shows "if \<exists>h \<in> set hs. lh_message_type (lw_handlers (world s) h) = t
    then logger_add_message_handler L n s ep t (Some f) = Some (A_E_BUSY, s)
    else \<exists>s' hs'. logger_add_message_handler L n s ep t (Some f) = Some (A_OK, s') \<and> logger_has (world s') hs' \<and>
      nodes s' = list_append (list_init (nodes s) (hlnode n)) (ep + off_handler_list L) (hlnode n) \<and>
      lw_handlers (world s') n = \<lparr>lh_message_type = t, lh_state = ep, lh_dispatch = Some f\<rparr> \<and>
      (\<forall>u. 0 < u \<and> uint u < 2 ^ 31 \<longrightarrow>
         logger_get_handler (world s') u = (if u = t then Some n else logger_get_handler (world s) u))"
proof (cases "\<exists>h \<in> set hs. lh_message_type (lw_handlers (world s) h) = t")
  case True
  then obtain h where "List.find (\<lambda>h. lh_message_type (lw_handlers (world s) h) = t) hs = Some h"
    by (metis (mono_tags, lifting) find_None_iff not_Some_eq)
  then have "logger_add_message_handler L n s ep t (Some f) = Some (A_E_BUSY, s)"
    using logger_find [OF assms(1,4,5)] assms(2-4) by (simp add: logger_add_message_handler_def Let_def)
  then show ?thesis using True by simp
next
  case False
  then have new: "\<forall>h \<in> set hs. lh_message_type (lw_handlers (world s) h) \<noteq> t" by blast
  obtain w' where w': "logger_add_message_handler L n s ep t (Some f) =
      Some (A_OK, s\<lparr>nodes := list_append (list_init (nodes s) (hlnode n)) (ep + off_handler_list L) (hlnode n), world := w'\<rparr>)"
    and has': "logger_has w' (insert_handler (lw_handlers (world s)) t n hs)"
    and H': "lw_handlers w' = (lw_handlers (world s))(n := \<lparr>lh_message_type = t, lh_state = ep, lh_dispatch = Some f\<rparr>)"
    using logger_add_refines [OF assms new] by blast
  have "logger_get_handler w' u = (if u = t then Some n else logger_get_handler (world s) u)" if "0 < u \<and> uint u < 2 ^ 31" for u
    using logger_get_handler_refines [OF has', of u] logger_get_handler_refines [OF assms(1), of u] that
      find_insert_handler [OF assms(8) new, of "\<lparr>lh_message_type = t, lh_state = ep, lh_dispatch = Some f\<rparr>" u]
    unfolding H' by simp
  then show ?thesis using False w' has' H' by auto
qed

text \<open>A logger as \<open>logger_initialize\<close> makes it, for the witnesses.\<close>

definition sample_logger :: "((nat \<times> addr list), nat) lg_world ep_state" where
  "sample_logger = snd (snd (logger_initialize list_ring (0, []) 0 \<lparr>off_ep = 0x100, off_handler_list = 0x200\<rparr> 0x4000 0x700 0x800
     \<lparr>eps = (\<lambda>a. \<lparr>we_ops = None, we_priv = 0, we_next_poll = 0, we_mode = 0\<rparr>), nodes = (\<lambda>a. \<lparr>le_prev = 0, le_next = 0\<rparr>),
      world = \<lparr>lw_lep = \<lparr>lg_out_queue = \<lparr>wq_fifo = (0, []), wq_max_items = 0, wq_buffer = 0\<rparr>,
                         lg_in_queue = \<lparr>wq_fifo = (0, []), wq_max_items = 0, wq_buffer = 0\<rparr>,
                         lg_handlers = \<lparr>rb_root = 0, rb_compare = None, rb_rightmost = 0, rb_state = (\<lambda>_ _. 0)\<rparr>,
                         lg_state = LOGGER_STATE_TERMINATED\<rparr>,
               lw_handlers = (\<lambda>a. \<lparr>lh_message_type = 0, lh_state = 0, lh_dispatch = None\<rparr>),
               lw_rb = (\<lambda>a. \<lparr>rb_left = 0, rb_right = 0, rb_parent = 0, rb_key = 0, rb_color = 0\<rparr>),
               lw_msgs = (\<lambda>a. \<lparr>lm_timestamp = 0, lm_release = 0, lm_payload = a + 8, lm_message_type = 5\<rparr>),
               lw_calls = [], lw_fault = False\<rparr>\<rparr>
     (Some 0) 8))"

lemma sample_logger_lep:
  "lw_lep (world sample_logger) = \<lparr>lg_out_queue = \<lparr>wq_fifo = (8, []), wq_max_items = 8, wq_buffer = 0x700\<rparr>,
     lg_in_queue = \<lparr>wq_fifo = (8, []), wq_max_items = 8, wq_buffer = 0x800\<rparr>,
     lg_handlers = \<lparr>rb_root = 0, rb_compare = Some rb_tree_cmp_mapper, rb_rightmost = 0, rb_state = logger_cmp_message_handlers\<rparr>,
     lg_state = LOGGER_STATE_INACTIVE\<rparr>"
proof -
  have "(8 :: u64) AND 7 = 0" by simp
  then show ?thesis
    by (simp add: sample_logger_def logger_initialize_def work_endpoint_init_def logger_endpoint_ops_def work_queue_new_def
        rb_tree_new_def rb_tree_new_ex_def list_ring_def Let_def)
qed

lemma sample_logger_has: "logger_has (world sample_logger) []"
  by (rule logger_has_empty) (simp add: sample_logger_lep)

theorem logger_add_message_handler_correct_witness:
  "\<exists>s'. logger_add_message_handler \<lparr>off_ep = 0x100, off_handler_list = 0x200\<rparr> 0x5000 sample_logger 0x4000 5 (Some 77) = Some (A_OK, s') \<and>
     logger_get_handler (world s') 5 = Some 0x5000"
  using logger_add_message_handler_correct [OF sample_logger_has, of "0x4000" 5 "0x5000" "\<lparr>off_ep = 0x100, off_handler_list = 0x200\<rparr>" 77]
  by (auto simp: sample_logger_lep htnode_def)

text \<open>Polling a logger that has a message: the first message leaves the queue, the handler registered for its type is
  called exactly once, with its own state and the payload (no handler is called if none is registered), and the message is put
  at the end of the return queue; if that is full the message is lost.\<close>

theorem logger_poll_dispatches:
  assumes "ck_ring_contract ck contents slots" and "logger_has w hs"
    and "wq_buffer (lg_out_queue (lw_lep w)) \<noteq> NULL" "wq_buffer (lg_in_queue (lw_lep w)) \<noteq> NULL"
    and "contents (wq_fifo (lg_out_queue (lw_lep w))) = msg # rest" "length (msg # rest) < 2 ^ 32" "msg \<noteq> NULL"
    and "0 < lm_message_type (lw_msgs w msg)" "uint (lm_message_type (lw_msgs w msg)) < 2 ^ 31"
  shows "\<exists>w'. logger_endpoint_poll_func ck lmsg0 ep wait w = (A_OK, wait, w') \<and> logger_has w' hs \<and> lw_fault w' = lw_fault w \<and>
    contents (wq_fifo (lg_out_queue (lw_lep w'))) = rest \<and>
    contents (wq_fifo (lg_in_queue (lw_lep w'))) = (let c = contents (wq_fifo (lg_in_queue (lw_lep w))) in
      if length c + 1 < slots (wq_fifo (lg_in_queue (lw_lep w))) then c @ [msg] else c) \<and>
    lw_calls w' = lw_calls w @ (case List.find (\<lambda>h. lh_message_type (lw_handlers w h) = lm_message_type (lw_msgs w msg)) hs of
      None \<Rightarrow> [] | Some h \<Rightarrow> [(lh_dispatch (lw_handlers w h), lh_state (lw_handlers w h), lm_payload (lw_msgs w msg))])"
proof -
  obtain r' where r': "contents r' = rest" "logger_endpoint_poll_func ck lmsg0 ep wait w = (A_OK, wait, poll_done ck msg
      (w\<lparr>lw_lep := (lw_lep w)\<lparr>lg_out_queue := (lg_out_queue (lw_lep w))\<lparr>wq_fifo := r'\<rparr>\<rparr>,
         lw_calls := lw_calls w @ (case List.find (\<lambda>h. lh_message_type (lw_handlers w h) = lm_message_type (lw_msgs w msg)) hs of
            None \<Rightarrow> [] | Some h \<Rightarrow> [(lh_dispatch (lw_handlers w h), lh_state (lw_handlers w h), lm_payload (lw_msgs w msg))])\<rparr>))"
    (is "_ = (A_OK, wait, poll_done ck msg ?w)")
    using ck_ring_contract.poll_message [OF assms(1,2,3,5-9)] by blast
  have "wq_buffer (lg_in_queue (lw_lep ?w)) \<noteq> NULL" using assms(4) by simp
  then obtain r2 where r2: "poll_done ck msg ?w = ?w\<lparr>lw_lep := (lw_lep ?w)\<lparr>lg_in_queue := (lg_in_queue (lw_lep ?w))\<lparr>wq_fifo := r2\<rparr>\<rparr>\<rparr>"
    "contents r2 = (let c = contents (wq_fifo (lg_in_queue (lw_lep ?w))) in
      if length c + 1 < slots (wq_fifo (lg_in_queue (lw_lep ?w))) then c @ [msg] else c)"
    using ck_ring_contract.poll_done_result [OF assms(1) _ assms(7)] by blast
  have "logger_has (poll_done ck msg ?w) hs" using assms(2) unfolding r2(1) by (simp add: logger_has_def)
  then show ?thesis using r' r2 by (intro exI [of _ "poll_done ck msg ?w"]) simp
qed

theorem logger_poll_dispatches_witness:
  "let w = (world sample_logger)\<lparr>lw_lep := (lw_lep (world sample_logger))\<lparr>lg_out_queue := \<lparr>wq_fifo = (8, [0x600]), wq_max_items = 8, wq_buffer = 0x700\<rparr>\<rparr>\<rparr>
   in \<exists>w'. logger_endpoint_poll_func list_ring 0 0x4100 0 w = (A_OK, 0, w') \<and> snd (wq_fifo (lg_in_queue (lw_lep w'))) = [0x600]"
proof -
  let ?w = "(world sample_logger)\<lparr>lw_lep := (lw_lep (world sample_logger))\<lparr>lg_out_queue := \<lparr>wq_fifo = (8, [0x600]), wq_max_items = 8, wq_buffer = 0x700\<rparr>\<rparr>\<rparr>"
  have "logger_has ?w []" by (rule logger_has_empty) (simp add: sample_logger_lep)
  moreover have "lw_msgs ?w = (\<lambda>a. \<lparr>lm_timestamp = 0, lm_release = 0, lm_payload = a + 8, lm_message_type = 5\<rparr>)"
  proof -
    have "(8 :: u64) AND 7 = 0" by simp
    then show ?thesis
      by (simp add: sample_logger_def logger_initialize_def work_endpoint_init_def logger_endpoint_ops_def work_queue_new_def
          rb_tree_new_def rb_tree_new_ex_def list_ring_def Let_def)
  qed
  ultimately show ?thesis
    using logger_poll_dispatches [OF list_ring.ck_ring_contract_axioms, of ?w "[]" "0x600" "[]" 0 "0x4100" 0]
    by (auto simp: sample_logger_lep Let_def)
qed

text \<open>Polling a logger without messages reads a variable that was never initialised: whatever it holds is put into the
  return queue as if it were a message, unless it is NULL or the queue is full.\<close>

theorem logger_poll_empty_returns_garbage:
  assumes "ck_ring_contract ck contents slots" and "wq_buffer (lg_out_queue (lw_lep w)) \<noteq> NULL" "wq_buffer (lg_in_queue (lw_lep w)) \<noteq> NULL"
    and "contents (wq_fifo (lg_out_queue (lw_lep w))) = []" "lmsg0 \<noteq> NULL"
    and "length (contents (wq_fifo (lg_in_queue (lw_lep w)))) + 1 < slots (wq_fifo (lg_in_queue (lw_lep w)))"
  shows "\<exists>w'. logger_endpoint_poll_func ck lmsg0 ep wait w = (A_OK, wait, w') \<and>
    contents (wq_fifo (lg_in_queue (lw_lep w'))) = contents (wq_fifo (lg_in_queue (lw_lep w))) @ [lmsg0]"
  using ck_ring_contract.poll_empty [OF assms(1,2,4), of lmsg0 ep wait] ck_ring_contract.poll_done_result [OF assms(1,3,5)] assms(6)
  by (auto simp: Let_def)

theorem logger_poll_empty_returns_garbage_witness:
  "\<exists>w'. logger_endpoint_poll_func list_ring 0xdead 0x4100 0 (world sample_logger) = (A_OK, 0, w') \<and>
     snd (wq_fifo (lg_in_queue (lw_lep w'))) = [0xdead]"
  using logger_poll_empty_returns_garbage [OF list_ring.ck_ring_contract_axioms, of "world sample_logger" "0xdead" "0x4100" 0]
  by (auto simp: sample_logger_lep)

end
