(* ===== verification/Logger_Delivery.thy ===== *)
theory Logger_Delivery
  imports Logger
begin

section \<open>Delivery of log messages\<close>

text \<open>
  The logger on its offload thread from the queued messages to the shutdown: the message queue, the handlers' tree, the loops
  over the endpoint list and the thread function together.
\<close>

subsection \<open>The state of a logger with messages\<close>

definition deliverable :: "('r, 'f) lg_world \<Rightarrow> addr \<Rightarrow> bool" where
  "deliverable w msg \<longleftrightarrow> msg \<noteq> NULL \<and> 0 < lm_message_type (lw_msgs w msg) \<and> uint (lm_message_type (lw_msgs w msg)) < 2 ^ 31"

text \<open>\<open>msgs\<close> wait for their handlers, \<open>rback\<close> have been returned.\<close>

definition logger_queued :: "('r \<Rightarrow> addr list) \<Rightarrow> ('r, 'f) lg_world \<Rightarrow> addr list \<Rightarrow> addr list \<Rightarrow> addr list \<Rightarrow> bool" where
  "logger_queued contents w hs msgs rback \<longleftrightarrow> logger_has w hs \<and>
     wq_buffer (lg_out_queue (lw_lep w)) \<noteq> NULL \<and> wq_buffer (lg_in_queue (lw_lep w)) \<noteq> NULL \<and>
     contents (wq_fifo (lg_out_queue (lw_lep w))) = msgs \<and> contents (wq_fifo (lg_in_queue (lw_lep w))) = rback \<and>
     length msgs < 2 ^ 32 \<and> (\<forall>msg \<in> set msgs. deliverable w msg)"

text \<open>The calls that the messages should cause: for each one with a handler registered for its type, that handler with its own
  state and the payload.\<close>

definition handler_calls :: "('r, 'f) lg_world \<Rightarrow> addr list \<Rightarrow> addr list \<Rightarrow> ('f option \<times> addr \<times> addr) list" where
  "handler_calls w hs msgs = concat (map (\<lambda>msg.
     case List.find (\<lambda>h. lh_message_type (lw_handlers w h) = lm_message_type (lw_msgs w msg)) hs of
       None \<Rightarrow> [] | Some h \<Rightarrow> [(lh_dispatch (lw_handlers w h), lh_state (lw_handlers w h), lm_payload (lw_msgs w msg))]) msgs)"

lemma handler_calls_cong:
  "lw_handlers w' = lw_handlers w \<Longrightarrow> lw_msgs w' = lw_msgs w \<Longrightarrow> handler_calls w' hs msgs = handler_calls w hs msgs"
  unfolding handler_calls_def by (simp only:)

lemma handler_calls_take:
  "handler_calls w hs (take (Suc n) msgs) = handler_calls w hs (take 1 msgs) @ handler_calls w hs (take n (tl msgs))"
  by (cases msgs) (simp_all add: handler_calls_def)

text \<open>What \<open>n\<close> polls put into the return queue.\<close>

definition poll_returns :: "addr \<Rightarrow> addr list \<Rightarrow> nat \<Rightarrow> addr list" where
  "poll_returns stale msgs n = take n msgs @ (if stale = NULL then [] else replicate (n - length msgs) stale)"

lemma poll_returns_one: "length (poll_returns stale msgs 1) \<le> 1"
  by (cases msgs) (simp_all add: poll_returns_def)

lemma poll_returns_Suc: "poll_returns stale msgs 1 @ poll_returns stale (tl msgs) n = poll_returns stale msgs (Suc n)"
  by (cases msgs) (simp_all add: poll_returns_def)

text \<open>What the delivery of messages leaves alone.\<close>

definition same_logger :: "('r \<Rightarrow> nat) \<Rightarrow> ('r, 'f) lg_world \<Rightarrow> ('r, 'f) lg_world \<Rightarrow> bool" where
  "same_logger slots w w' \<longleftrightarrow> lw_handlers w' = lw_handlers w \<and> lw_msgs w' = lw_msgs w \<and> lw_fault w' = lw_fault w \<and>
     slots (wq_fifo (lg_in_queue (lw_lep w'))) = slots (wq_fifo (lg_in_queue (lw_lep w)))"

context ck_ring_contract
begin

lemma poll_one:
  assumes "logger_queued contents w hs (msg # rest) rback" "length rback + 1 < slots (wq_fifo (lg_in_queue (lw_lep w)))"
  shows "\<exists>w'. logger_endpoint_poll_func ck stale ep wait w = (A_OK, wait, w') \<and> logger_queued contents w' hs rest (rback @ [msg]) \<and>
    lw_calls w' = lw_calls w @ handler_calls w hs [msg] \<and> same_logger slots w w'"
proof -
  have has: "logger_has w hs" and q: "wq_buffer (lg_out_queue (lw_lep w)) \<noteq> NULL" "wq_buffer (lg_in_queue (lw_lep w)) \<noteq> NULL"
    and c: "contents (wq_fifo (lg_out_queue (lw_lep w))) = msg # rest" "length (msg # rest) < 2 ^ 32"
      "contents (wq_fifo (lg_in_queue (lw_lep w))) = rback"
    and d: "deliverable w msg" "\<forall>m \<in> set rest. deliverable w m"
    using assms(1) by (auto simp: logger_queued_def)
  note m = d(1) [unfolded deliverable_def]
  obtain r' where r': "contents r' = rest" "logger_endpoint_poll_func ck stale ep wait w = (A_OK, wait, poll_done ck msg
      (w\<lparr>lw_lep := (lw_lep w)\<lparr>lg_out_queue := (lg_out_queue (lw_lep w))\<lparr>wq_fifo := r'\<rparr>\<rparr>,
         lw_calls := lw_calls w @ (case List.find (\<lambda>h. lh_message_type (lw_handlers w h) = lm_message_type (lw_msgs w msg)) hs of
            None \<Rightarrow> [] | Some h \<Rightarrow> [(lh_dispatch (lw_handlers w h), lh_state (lw_handlers w h), lm_payload (lw_msgs w msg))])\<rparr>))"
    (is "_ = (A_OK, wait, poll_done ck msg ?w)")
    using poll_message [OF has q(1) c(1,2)] m by blast
  have "wq_buffer (lg_in_queue (lw_lep ?w)) \<noteq> NULL" "msg \<noteq> NULL" using q(2) m by simp_all
  then obtain r2 where r2: "poll_done ck msg ?w = ?w\<lparr>lw_lep := (lw_lep ?w)\<lparr>lg_in_queue := (lg_in_queue (lw_lep ?w))\<lparr>wq_fifo := r2\<rparr>\<rparr>\<rparr>"
    "contents r2 = rback @ [msg]" "slots r2 = slots (wq_fifo (lg_in_queue (lw_lep w)))"
    using poll_done_result [of ?w msg] c(3) assms(2) by auto
  have has': "logger_has (poll_done ck msg ?w) hs" using has unfolding r2(1) by (simp add: logger_has_def)
  have "logger_queued contents (poll_done ck msg ?w) hs rest (rback @ [msg])"
    using has' r' r2 q c(2) d(2) by (simp add: logger_queued_def deliverable_def)
  moreover have "lw_calls (poll_done ck msg ?w) = lw_calls w @ handler_calls w hs [msg]" "same_logger slots w (poll_done ck msg ?w)"
    unfolding r2(1) using r2(3) by (simp_all add: handler_calls_def same_logger_def)
  ultimately show ?thesis using r'(2) by blast
qed

text \<open>A poll of an empty queue returns the indeterminate pointer.\<close>

lemma poll_none:
  assumes "logger_queued contents w hs [] rback" "length rback + 1 < slots (wq_fifo (lg_in_queue (lw_lep w)))"
  shows "\<exists>w'. logger_endpoint_poll_func ck stale ep wait w = (A_OK, wait, w') \<and>
    logger_queued contents w' hs [] (rback @ (if stale = NULL then [] else [stale])) \<and>
    lw_calls w' = lw_calls w \<and> same_logger slots w w'"
proof -
  have has: "logger_has w hs" and q: "wq_buffer (lg_out_queue (lw_lep w)) \<noteq> NULL" "wq_buffer (lg_in_queue (lw_lep w)) \<noteq> NULL"
    and c: "contents (wq_fifo (lg_out_queue (lw_lep w))) = []" "contents (wq_fifo (lg_in_queue (lw_lep w))) = rback"
    using assms(1) by (auto simp: logger_queued_def)
  note poll = poll_empty [OF q(1) c(1), of stale ep wait]
  show ?thesis
  proof (cases "stale = NULL")
    case True
    then show ?thesis using poll assms(1) by (auto simp: poll_done_def same_logger_def)
  next
    case False
    then obtain r where r: "poll_done ck stale w = w\<lparr>lw_lep := (lw_lep w)\<lparr>lg_in_queue := (lg_in_queue (lw_lep w))\<lparr>wq_fifo := r\<rparr>\<rparr>\<rparr>"
      "contents r = rback @ [stale]" "slots r = slots (wq_fifo (lg_in_queue (lw_lep w)))"
      using poll_done_result [OF q(2), of stale] c(2) assms(2) by auto
    have "logger_has (poll_done ck stale w) hs" using has unfolding r(1) by (simp add: logger_has_def)
    then show ?thesis using poll r q c False by (auto simp: logger_queued_def same_logger_def)
  qed
qed

lemma poll_any:
  assumes "logger_queued contents w hs msgs rback" "length rback + 1 < slots (wq_fifo (lg_in_queue (lw_lep w)))"
  shows "\<exists>w'. logger_endpoint_poll_func ck stale ep wait w = (A_OK, wait, w') \<and>
    logger_queued contents w' hs (tl msgs) (rback @ poll_returns stale msgs 1) \<and>
    lw_calls w' = lw_calls w @ handler_calls w hs (take 1 msgs) \<and> same_logger slots w w'"
proof (cases msgs)
  case Nil
  then show ?thesis using poll_none [of w hs rback stale ep wait] assms
    by (cases "stale = NULL") (simp_all add: poll_returns_def handler_calls_def)
next
  case (Cons msg rest)
  then show ?thesis using poll_one [of w hs msg rest rback stale ep wait] assms
    by (cases "stale = NULL") (simp_all add: poll_returns_def)
qed

text \<open>One iteration of a thread that has the endpoint \<open>e\<close> of the logger.\<close>

lemma iteration_polls:
  assumes thread: "thread_has contents head q (nodes s) [e] []" and e: "e \<noteq> NULL" "we_ops (eps s e) = Some (logger_endpoint_ops ck stale)"
    and time: "we_next_poll (eps s e) \<le> fst (clock (world s))" and clock: "\<forall>w. snd (clock w) = w"
    and poll: "logger_endpoint_poll_func ck stale e 0 (world s) = (A_OK, 0, w2)"
  shows "\<exists>q' s'. work_thread_iteration ck clock usleep head (Some q) s = Some (Some q', s') \<and>
    thread_has contents head q' (nodes s') [e] [] \<and> we_ops (eps s' e) = Some (logger_endpoint_ops ck stale) \<and>
    we_next_poll (eps s' e) \<le> fst (clock (world s')) \<and> world s' = w2"
proof -
  obtain now where now: "clock (world s) = (now, world s)" using clock by (metis prod.collapse)
  obtain now2 where now2: "clock w2 = (now2, w2)" using clock by (metis prod.collapse)
  let ?s1 = "s\<lparr>eps := (eps s)(e := (eps s e)\<lparr>we_next_poll := now2\<rparr>), world := w2\<rparr>"
  have "\<not> we_next_poll (eps s e) > now" using time now by simp
  moreover have ws: "s\<lparr>world := world s\<rparr> = s" by simp
  ultimately have "poll_all clock ([e] @ take 15 []) 5 (startup_all (take 15 []) s) = ([e], 0, ?s1)"
    using e poll now now2 by (simp add: poll_endpoint_def work_endpoint_poll_def logger_endpoint_ops_def)
  from iteration_refines [OF thread this, of usleep] obtain q' m' where
    "work_thread_iteration ck clock usleep head (Some q) s = Some (Some q', ?s1\<lparr>nodes := m'\<rparr>)" "thread_has contents head q' m' [e] []"
    by auto
  then show ?thesis using e(2) now2 by (intro exI [of _ q'] exI [of _ "?s1\<lparr>nodes := m'\<rparr>"]) simp
qed

lemma thread_delivers:
  assumes "thread_has contents head q (nodes s) [e] []" "e \<noteq> NULL" "we_ops (eps s e) = Some (logger_endpoint_ops ck stale)"
    and "we_next_poll (eps s e) \<le> fst (clock (world s))" "\<forall>w. snd (clock w) = w" "signal \<noteq> WORK_THREAD_ALIVE"
    and "logger_queued contents (world s) hs msgs rback" "length rback + n < slots (wq_fifo (lg_in_queue (lw_lep (world s))))"
  shows "\<exists>q' s'. work_thread_worker_func ck clock usleep head (replicate n WORK_THREAD_ALIVE @ [signal]) (Some q) s =
      Some (A_OK, Some q', s') \<and> is_list (nodes s') head [] \<and>
    lw_calls (world s') = lw_calls (world s) @ handler_calls (world s) hs (take n msgs) \<and> lw_fault (world s') = lw_fault (world s) \<and>
    contents (wq_fifo (lg_out_queue (lw_lep (world s')))) = drop n msgs \<and>
    contents (wq_fifo (lg_in_queue (lw_lep (world s')))) = rback @ poll_returns stale msgs n \<and>
    lg_state (lw_lep (world s')) = LOGGER_STATE_TERMINATED"
  using assms
proof (induction n arbitrary: q s rback msgs)
  case 0
  then have "is_list (nodes s) head (map wnode [e])" by (simp add: thread_has_def)
  from shutdown_pass [OF this] obtain m' where
    "shutdown_loop head (first_ep s head) (second_ep s head) s = Some (shutdown_all [e] s\<lparr>nodes := m'\<rparr>)" "is_list m' head []" by blast
  then show ?case
    using 0 by (simp add: work_endpoint_shutdown_def logger_endpoint_ops_def logger_endpoint_shutdown_def handler_calls_def
        logger_queued_def poll_returns_def)
next
  case (Suc n)
  have room: "length rback + 1 < slots (wq_fifo (lg_in_queue (lw_lep (world s))))" using Suc.prems(8) by simp
  obtain w2 where w2: "logger_endpoint_poll_func ck stale e 0 (world s) = (A_OK, 0, w2)"
    "logger_queued contents w2 hs (tl msgs) (rback @ poll_returns stale msgs 1)"
    "lw_calls w2 = lw_calls (world s) @ handler_calls (world s) hs (take 1 msgs)" "same_logger slots (world s) w2"
    using poll_any [OF Suc.prems(7) room, of stale e 0] by blast
  obtain q1 s1 where i: "work_thread_iteration ck clock usleep head (Some q) s = Some (Some q1, s1)"
    and s1: "thread_has contents head q1 (nodes s1) [e] []" "we_ops (eps s1 e) = Some (logger_endpoint_ops ck stale)"
      "we_next_poll (eps s1 e) \<le> fst (clock (world s1))" "world s1 = w2"
    using iteration_polls [OF Suc.prems(1-5) w2(1)] by blast
  note w2' = w2(2-4) [folded s1(4)]
  have "length (rback @ poll_returns stale msgs 1) + n < slots (wq_fifo (lg_in_queue (lw_lep (world s1))))"
    using Suc.prems(8) w2'(3) poll_returns_one [of stale msgs] by (simp add: same_logger_def)
  from Suc.IH [OF s1(1) Suc.prems(2) s1(2,3) Suc.prems(5,6) w2'(1) this] obtain q' s' where
    r: "work_thread_worker_func ck clock usleep head (replicate n WORK_THREAD_ALIVE @ [signal]) (Some q1) s1 = Some (A_OK, Some q', s')"
      "is_list (nodes s') head []" "lg_state (lw_lep (world s')) = LOGGER_STATE_TERMINATED"
    and c: "lw_calls (world s') = lw_calls (world s1) @ handler_calls (world s1) hs (take n (tl msgs))" "lw_fault (world s') = lw_fault (world s1)"
      "contents (wq_fifo (lg_out_queue (lw_lep (world s')))) = drop n (tl msgs)"
      "contents (wq_fifo (lg_in_queue (lw_lep (world s')))) = (rback @ poll_returns stale msgs 1) @ poll_returns stale (tl msgs) n"
    by blast
  have "lw_calls (world s') = lw_calls (world s) @ handler_calls (world s) hs (take (Suc n) msgs)" "lw_fault (world s') = lw_fault (world s)"
    using c(1,2) w2'(2,3) handler_calls_cong [of "world s1" "world s" hs] handler_calls_take [of "world s" hs n msgs]
    by (simp_all add: same_logger_def)
  moreover have "drop n (tl msgs) = drop (Suc n) msgs" by (simp add: drop_Suc)
  moreover have "work_thread_worker_func ck clock usleep head (replicate (Suc n) WORK_THREAD_ALIVE @ [signal]) (Some q) s =
      work_thread_worker_func ck clock usleep head (replicate n WORK_THREAD_ALIVE @ [signal]) (Some q1) s1"
    using i by simp
  ultimately show ?case using r c(3,4) poll_returns_Suc [of stale msgs n] by (intro exI [of _ q'] exI [of _ s']) simp
qed

end

subsection \<open>Properties\<close>

text \<open>Claim C12. A thread runs a logger with the messages \<open>msgs\<close> in its queue and reads ALIVE any number \<open>n\<close> of times before it is told to stop.
  It delivers the first \<open>n\<close> messages: for each one the handler registered for its type is called once, in the order of the queue, and
  the messages are returned in this order. The messages behind them stay in the queue and are never
  delivered. Each iteration with an empty queue puts the indeterminate pointer \<open>stale\<close> (taken as the same for all polls) of \<open>logger_endpoint_poll_func\<close> into the return
  queue, unless it is NULL. In every case the logger is shut down, the list of endpoints is empty, and the thread returns A_OK. The return queue has
  to have room for \<open>n\<close> messages; between two iterations the clock depends on the state only, and no message is sent.\<close>

theorem logger_delivers_messages:
  assumes "ck_ring_contract ck contents slots"
    and "thread_has contents head q (nodes s) [e] []" "e \<noteq> NULL" "we_ops (eps s e) = Some (logger_endpoint_ops ck stale)"
    and "we_next_poll (eps s e) \<le> fst (clock (world s))" "\<forall>w. snd (clock w) = w" "signal \<noteq> WORK_THREAD_ALIVE"
    and "logger_queued contents (world s) hs msgs rback" "length rback + n < slots (wq_fifo (lg_in_queue (lw_lep (world s))))"
  shows "\<exists>q' s'. work_thread_worker_func ck clock usleep head (replicate n WORK_THREAD_ALIVE @ [signal]) (Some q) s =
      Some (A_OK, Some q', s') \<and> is_list (nodes s') head [] \<and>
    lw_calls (world s') = lw_calls (world s) @ handler_calls (world s) hs (take n msgs) \<and> lw_fault (world s') = lw_fault (world s) \<and>
    contents (wq_fifo (lg_out_queue (lw_lep (world s')))) = drop n msgs \<and>
    contents (wq_fifo (lg_in_queue (lw_lep (world s')))) =
      rback @ take n msgs @ (if stale = NULL then [] else replicate (n - length msgs) stale) \<and>
    lg_state (lw_lep (world s')) = LOGGER_STATE_TERMINATED"
  using ck_ring_contract.thread_delivers [OF assms] unfolding poll_returns_def .

text \<open>A logger with one handler, for type 5, and two messages of this type, alone on its thread, which reads ALIVE three times.\<close>

definition demo_world :: "((nat \<times> addr list), nat) lg_world" where
  "demo_world = \<lparr>lw_lep = \<lparr>lg_out_queue = \<lparr>wq_fifo = (8, [0x600, 0x640]), wq_max_items = 8, wq_buffer = 0x700\<rparr>,
                   lg_in_queue = \<lparr>wq_fifo = (8, []), wq_max_items = 8, wq_buffer = 0x800\<rparr>,
                   lg_handlers = \<lparr>rb_root = 0x5018, rb_compare = Some rb_tree_cmp_mapper, rb_rightmost = 0x5018,
                                  rb_state = logger_cmp_message_handlers\<rparr>,
                   lg_state = LOGGER_STATE_RUNNING\<rparr>,
     lw_handlers = (\<lambda>a. \<lparr>lh_message_type = 5, lh_state = 0x4000, lh_dispatch = Some 77\<rparr>),
     lw_rb = (\<lambda>a. \<lparr>rb_left = 0, rb_right = 0, rb_parent = 0, rb_key = 0, rb_color = 0\<rparr>)
       (0x5018 := \<lparr>rb_left = 0, rb_right = 0, rb_parent = 0, rb_key = 5, rb_color = COLOR_BLACK\<rparr>),
     lw_msgs = (\<lambda>a. \<lparr>lm_timestamp = 0, lm_release = 0, lm_payload = a + 8, lm_message_type = 5\<rparr>), lw_calls = [], lw_fault = False\<rparr>"

definition demo_thread :: "((nat \<times> addr list), nat) lg_world ep_state" where
  "demo_thread = \<lparr>eps = (\<lambda>a. \<lparr>we_ops = Some (logger_endpoint_ops list_ring 0xdead), we_priv = 0x4000, we_next_poll = 0, we_mode = 0\<rparr>),
     nodes = list_append (list_init (\<lambda>a. \<lparr>le_prev = 0, le_next = 0\<rparr>) 0x2080) 0x2080 (wnode 0x4100), world = demo_world\<rparr>"

lemma demo_world_has: "logger_has demo_world [0x5000]"
proof -
  let ?t = "\<lparr>rb_root = 0, rb_compare = Some rb_tree_cmp_mapper, rb_rightmost = 0, rb_state = logger_cmp_message_handlers\<rparr>"
  let ?m = "\<lambda>a :: addr. \<lparr>rb_left = 0, rb_right = 0, rb_parent = 0, rb_key = 0, rb_color = 0\<rparr>"
  have c: "rb_tree_cmp_mapper logger_cmp_message_handlers = logger_cmp_message_handlers" by (simp add: fun_eq_iff rb_tree_cmp_mapper_def)
  have ord: "rb_order type_keys (rb_tree_cmp_mapper logger_cmp_message_handlers)" using logger_order.rb_order_axioms by (simp only: c)
  have key: "5 \<in> type_keys" by (simp add: type_keys_def)
  have "rb_repr type_keys (?m(0x5018 := (?m 0x5018)\<lparr>rb_key := 5, rb_color := COLOR_BLACK\<rparr>)) (?t\<lparr>rb_root := 0x5018, rb_rightmost := 0x5018\<rparr>) [0x5018]"
    by (rule singleton_repr [where cmp = rb_tree_cmp_mapper], simp, simp, rule ord, rule key, simp_all)
  then show ?thesis by (simp add: logger_has_def demo_world_def htnode_def c)
qed

theorem logger_delivers_messages_witness:
  "\<exists>q' s'. work_thread_worker_func list_ring (\<lambda>w. (7, w)) (\<lambda>us w. w) 0x2080 [0, 0, 0, 1]
      (Some \<lparr>wq_fifo = (32, []), wq_max_items = 32, wq_buffer = 0x700\<rparr>) demo_thread = Some (A_OK, Some q', s') \<and>
    lw_calls (world s') = [(Some 77, 0x4000, 0x608), (Some 77, 0x4000, 0x648)] \<and>
    snd (wq_fifo (lg_in_queue (lw_lep (world s')))) = [0x600, 0x640, 0xdead]"
proof -
  let ?q = "\<lparr>wq_fifo = (32, []), wq_max_items = 32, wq_buffer = 0x700\<rparr>"
  have "is_list (nodes demo_thread) 0x2080 ([] @ [wnode 0x4100])"
    unfolding demo_thread_def by simp (rule is_list_append [of _ _ "[]", simplified], simp_all add: is_list_init wnode_def)
  then have thread: "thread_has snd 0x2080 ?q (nodes demo_thread) [0x4100] []" by (simp add: thread_has_def)
  have queued: "logger_queued snd (world demo_thread) [0x5000] [0x600, 0x640] []"
    using demo_world_has by (simp add: logger_queued_def demo_thread_def demo_world_def deliverable_def)
  have calls: "handler_calls (world demo_thread) [0x5000] (take 3 [0x600, 0x640]) = [(Some 77, 0x4000, 0x608), (Some 77, 0x4000, 0x648)]"
    "lw_calls (world demo_thread) = []"
    by (simp_all add: handler_calls_def demo_thread_def demo_world_def)
  have sig: "replicate 3 WORK_THREAD_ALIVE @ [1] = [0, 0, 0, 1]" by (simp add: WORK_THREAD_ALIVE_def numeral_eq_Suc)
  have "\<exists>q' s'. work_thread_worker_func list_ring (\<lambda>w. (7, w)) (\<lambda>us w. w) 0x2080
      (replicate 3 WORK_THREAD_ALIVE @ [1]) (Some ?q) demo_thread = Some (A_OK, Some q', s') \<and>
    lw_calls (world s') = lw_calls (world demo_thread) @ handler_calls (world demo_thread) [0x5000] (take 3 [0x600, 0x640]) \<and>
    snd (wq_fifo (lg_in_queue (lw_lep (world s')))) = [0x600, 0x640, 0xdead]"
    using logger_delivers_messages [OF list_ring.ck_ring_contract_axioms thread, of "0xdead" "\<lambda>w. (7, w)" 1 "[0x5000]" "[0x600, 0x640]" "[]" 3 "\<lambda>us w. w"] queued
    by (fastforce simp: demo_thread_def demo_world_def WORK_THREAD_ALIVE_def)
  then show ?thesis unfolding calls sig by simp
qed

end
