(* ===== verification/List_Visit.thy ===== *)
theory List_Visit
  imports TSL_List
begin

section \<open>Loops over intrusive lists that call back\<close>

text \<open>
  \<open>list_for_each_type\<close> with a loop body that may change the state, including the list itself: the link to the next
  entry is read after the body has run. Panic handlers are called by such a loop.
\<close>

text \<open>\<open>nodes\<close> projects the memory of list entries from the state. \<open>None\<close>: the body does not return, or the loop does not.\<close>

partial_function (option) list_visit ::
  "('s \<Rightarrow> list_mem) \<Rightarrow> (addr \<Rightarrow> 's \<Rightarrow> 's option) \<Rightarrow> addr \<Rightarrow> addr \<Rightarrow> 's \<Rightarrow> 's option" where
  "list_visit nodes body head iter s =
     (if \<not> iter \<noteq> head then Some s
      else do { s \<leftarrow> body iter s; list_visit nodes body head (le_next (nodes s iter)) s })"

definition list_for_each_do :: "('s \<Rightarrow> list_mem) \<Rightarrow> (addr \<Rightarrow> 's \<Rightarrow> 's option) \<Rightarrow> addr \<Rightarrow> 's \<Rightarrow> 's option" where
  "list_for_each_do nodes body head s = list_visit nodes body head (le_next (nodes s head)) s"

text \<open>The specification: the body applied to the entries of a sequence, one after the other.\<close>

fun visit_all :: "('a \<Rightarrow> 's \<Rightarrow> 's option) \<Rightarrow> 'a list \<Rightarrow> 's \<Rightarrow> 's option" where
  "visit_all body [] s = Some s"
| "visit_all body (x # xs) s = do { s \<leftarrow> body x s; visit_all body xs s }"

lemma visit_all_map: "visit_all body (map f xs) s = visit_all (\<lambda>x. body (f x)) xs s"
  by (induction xs arbitrary: s) (simp_all cong: Option.bind_cong)

text \<open>A body that leaves the entries of the list alone.\<close>

definition keeps_links :: "('s \<Rightarrow> list_mem) \<Rightarrow> (addr \<Rightarrow> 's \<Rightarrow> 's option) \<Rightarrow> addr set \<Rightarrow> bool" where
  "keeps_links nodes body A \<longleftrightarrow> (\<forall>x s s'. x \<in> A \<and> body x s = Some s' \<longrightarrow> (\<forall>a \<in> A. nodes s' a = nodes s a))"

lemma visit_all_keeps:
  "visit_all body xs s = Some s' \<Longrightarrow> set xs \<subseteq> A \<Longrightarrow> keeps_links nodes body A \<Longrightarrow> a \<in> A \<Longrightarrow> nodes s' a = nodes s a"
proof (induction xs arbitrary: s)
  case (Cons x xs)
  then obtain t where t: "body x s = Some t" "visit_all body xs t = Some s'" by (auto split: Option.bind_splits)
  then have "nodes t a = nodes s a" using Cons.prems(2-4) unfolding keeps_links_def by (metis list.set_intros(1) subsetD)
  then show ?case using Cons.IH [OF t(2)] Cons.prems(2-4) by simp
qed simp

lemma list_visit_all:
  assumes "successively (link (nodes s)) (xs @ [h])" "h \<notin> set xs" "keeps_links nodes body A" "insert h (set xs) \<subseteq> A"
  shows "list_visit nodes body h (hd (xs @ [h])) s = visit_all body xs s"
  using assms
proof (induction xs arbitrary: s)
  case Nil
  then show ?case by (simp add: list_visit.simps)
next
  case (Cons x xs)
  show ?case
  proof (cases "body x s")
    case None
    then show ?thesis using Cons.prems(2) by (auto simp: list_visit.simps [of nodes body h x])
  next
    case (Some t)
    have same: "nodes t a = nodes s a" if "a \<in> A" for a
      using Cons.prems(3,4) Some that unfolding keeps_links_def by (metis insert_subset list.simps(15))
    have "successively (link (nodes s)) (x # (xs @ [h]))" using Cons.prems(1) by simp
    then have tail: "successively (link (nodes s)) (xs @ [h])" and nxt: "le_next (nodes s x) = hd (xs @ [h])"
      by (auto simp: successively_Cons link_def)
    have "u \<in> A" if "u \<in> set (xs @ [h])" for u using that Cons.prems(4) by auto
    then have "successively (link (nodes t)) (xs @ [h])"
      using tail same
      by (subst links_cong [where m' = "nodes s"]) (blast dest: in_set_butlastD in_set_tlD intro: arg_cong)+
    then have "list_visit nodes body h (hd (xs @ [h])) t = visit_all body xs t"
      using Cons.IH [of t] Cons.prems(2-4) by simp
    moreover have "le_next (nodes t x) = hd (xs @ [h])" using same [of x] nxt Cons.prems(4) by simp
    moreover have "x \<noteq> h" using Cons.prems(2) by auto
    ultimately show ?thesis using Some by (simp add: list_visit.simps [of nodes body h x])
  qed
qed

lemma for_each_do_visits:
  assumes "is_list (nodes s) h xs" "keeps_links nodes body (insert h (set xs))"
  shows "list_for_each_do nodes body h s = visit_all body xs s"
proof -
  have "is_list (nodes s) h ([] @ xs)" using assms(1) by simp
  then have "successively (link (nodes s)) (xs @ [h])" "h \<notin> set xs" unfolding is_list_split by auto
  then show ?thesis
    using list_visit_all [of nodes s xs h body "insert h (set xs)"] assms(2) is_list_ends(1) [OF assms(1)] by (simp add: list_for_each_do_def)
qed

end
