(* ===== verification/Panic.thy ===== *)
theory Panic
  imports List_Visit
begin

section \<open>Panics (tsl/panic.h, tsl/panic.c)\<close>

text \<open>
  \<open>panic\<close> runs the registered handlers, reports and aborts. The handlers are code of the application: calling a function
  pointer is the argument \<open>call\<close>, which may change every part of the state, and is \<open>None\<close> if the handler does not return. The
  static list head \<open>panic_handlers\<close> is at an address that is an argument.
\<close>

subsection \<open>State and operations\<close>

record panic_handler =
  ph_func :: addr

text \<open>The address of the member \<open>pnode\<close> of a handler.\<close>

definition pnode :: "addr \<Rightarrow> addr" where
  "pnode hdlr = hdlr + 8"

text \<open>What \<open>panic\<close> writes to the standard error stream, in this order: the fixed text, the formatted message, the place, the
  backtrace (at most 20 symbols).\<close>

datatype panic_output =
    Banner
  | Message string
  | Terminating_At string int
  | Call_Backtrace "addr list"

record 'w panic_state =
  pn_nodes :: list_mem
  pn_handlers :: "addr \<Rightarrow> panic_handler"
  pn_stderr :: "panic_output list"
  pn_world :: 'w

definition run_handler :: "(addr \<Rightarrow> 'w panic_state \<Rightarrow> 'w panic_state option) \<Rightarrow> addr \<Rightarrow> 'w panic_state \<Rightarrow> 'w panic_state option" where
  "run_handler call hdlr s =
     (let func = ph_func (pn_handlers s hdlr) in if func = NULL then None else call func s)"

text \<open>The state in which the process is aborted; \<open>panic\<close> never returns. The result \<open>None\<close>: a handler or the loop does not end.\<close>

definition panic :: "(addr \<Rightarrow> 'w panic_state \<Rightarrow> 'w panic_state option) \<Rightarrow> addr \<Rightarrow> addr list \<Rightarrow> string \<Rightarrow> int \<Rightarrow> string \<Rightarrow>
    'w panic_state \<Rightarrow> 'w panic_state option" where
  "panic call panic_handlers symbols file line msg s =
     do { s \<leftarrow> list_for_each_do pn_nodes (\<lambda>node. run_handler call (LIST_ITEM node 8)) panic_handlers s;
          let s = s\<lparr>pn_stderr := pn_stderr s @ [Banner, Message msg]\<rparr>;
          let s = s\<lparr>pn_stderr := pn_stderr s @ [Terminating_At file line]\<rparr>;
          Some (s\<lparr>pn_stderr := pn_stderr s @ [Call_Backtrace (take 20 symbols)]\<rparr>) }"

definition register_panic_handler :: "addr \<Rightarrow> addr \<Rightarrow> list_mem \<Rightarrow> list_mem" where
  "register_panic_handler panic_handlers handler m =
     (let m = list_init m (pnode handler) in list_append m panic_handlers (pnode handler))"

subsection \<open>Lemmas\<close>

lemma pnode_simps [simp]: "LIST_ITEM (pnode h) 8 = h" "pnode h = pnode h' \<longleftrightarrow> h = h'" "inj pnode"
  by (simp_all add: LIST_ITEM_def pnode_def inj_def)

lemma list_init_outside: "x \<noteq> n \<Longrightarrow> list_init m n x = m x"
  by (simp add: list_init_def set_next_def set_prev_def)

lemma register_is_list:
  assumes "is_list m hd0 (map pnode hs)" "pnode h \<notin> set (hd0 # map pnode hs)"
  shows "is_list (register_panic_handler hd0 h m) hd0 (map pnode (hs @ [h]))"
proof -
  have "is_list (list_init m (pnode h)) hd0 (map pnode hs)"
    using assms is_list_cong [of hd0 "map pnode hs" "list_init m (pnode h)" m] list_init_outside by metis
  then show ?thesis
    using is_list_append [OF _ assms(2)] by (simp add: register_panic_handler_def)
qed

lemma next_chain_cong:
  "(\<And>u. u \<in> set (butlast zs) \<Longrightarrow> le_next (m u) = le_next (m' u)) \<Longrightarrow>
   successively (\<lambda>a b. le_next (m a) = b) zs \<longleftrightarrow> successively (\<lambda>a b. le_next (m' a) = b) zs"
  by (induction zs rule: induct_list012) auto

lemma list_walk_forward:
  assumes "successively (\<lambda>a b. le_next (m a) = b) (xs @ [h])" "h \<notin> set xs"
  shows "list_walk m h (hd (xs @ [h])) = Some xs"
  using assms
proof (induction xs)
  case Nil
  then show ?case by (simp add: list_walk.simps)
next
  case (Cons x xs)
  then have "successively (\<lambda>a b. le_next (m a) = b) (xs @ [h])" "le_next (m x) = hd (xs @ [h])"
    by (auto simp: successively_Cons)
  with Cons have "list_walk m h (le_next (m x)) = Some xs" by simp
  with Cons.prems show ?case by (auto simp: list_walk.simps [of m h x])
qed

text \<open>Handlers that leave the handler list and the handlers alone.\<close>

definition harmless :: "(addr \<Rightarrow> 'w panic_state \<Rightarrow> 'w panic_state option) \<Rightarrow> bool" where
  "harmless call \<longleftrightarrow> (\<forall>f s s'. call f s = Some s' \<longrightarrow> pn_nodes s' = pn_nodes s \<and> pn_handlers s' = pn_handlers s)"

lemma visit_handlers:
  assumes "harmless call" "\<forall>h \<in> set hs. ph_func (pn_handlers s h) \<noteq> NULL"
  shows "visit_all (run_handler call) hs s = visit_all call (map (\<lambda>h. ph_func (pn_handlers s h)) hs) s"
  using assms(2)
proof (induction hs arbitrary: s)
  case (Cons h hs)
  show ?case
  proof (cases "call (ph_func (pn_handlers s h)) s")
    case (Some t)
    then have "pn_handlers t = pn_handlers s" using assms(1) by (simp add: harmless_def)
    then show ?thesis using Cons.IH [of t] Cons.prems Some by (simp add: run_handler_def Let_def)
  qed (use Cons.prems in \<open>simp add: run_handler_def Let_def\<close>)
qed simp

subsection \<open>Properties\<close>

text \<open>Claim C33. \<open>panic\<close> with the registered handlers \<open>hs\<close>: every handler is called once, in the order of registration, before anything is
  written; then the report is written and the process aborts. A handler that does not return keeps the process from aborting.
  \<open>register_panic_handler\<close> of a handler that is not registered puts it at the end.\<close>

theorem panic_runs_handlers:
  assumes "is_list (pn_nodes s) head (map pnode hs)" "harmless call" "\<forall>h \<in> set hs. ph_func (pn_handlers s h) \<noteq> NULL"
  shows "panic call head symbols file line msg s =
      map_option (\<lambda>s'. s'\<lparr>pn_stderr := pn_stderr s' @ [Banner, Message msg, Terminating_At file line, Call_Backtrace (take 20 symbols)]\<rparr>)
        (visit_all call (map (\<lambda>h. ph_func (pn_handlers s h)) hs) s) \<and>
    (pnode h \<notin> set (head # map pnode hs) \<longrightarrow> is_list (register_panic_handler head h (pn_nodes s)) head (map pnode (hs @ [h])))"
proof -
  have "keeps_links pn_nodes (\<lambda>node. run_handler call (LIST_ITEM node 8)) A" for A
    using assms(2) by (auto simp: keeps_links_def harmless_def run_handler_def Let_def split: if_splits)
  then have e: "list_for_each_do pn_nodes (\<lambda>node. run_handler call (LIST_ITEM node 8)) head s =
      visit_all call (map (\<lambda>h. ph_func (pn_handlers s h)) hs) s"
    using for_each_do_visits [of pn_nodes s head "map pnode hs"] assms(1) visit_handlers [OF assms(2,3)] by (simp add: visit_all_map)
  show ?thesis
    unfolding panic_def e using register_is_list [OF assms(1), of h]
    by (cases "visit_all call (map (\<lambda>h. ph_func (pn_handlers s h)) hs) s") simp_all
qed

text \<open>Two handlers; calling one appends its function to the world.\<close>

definition demo_panic :: "addr list panic_state" where
  "demo_panic = \<lparr>pn_nodes = register_panic_handler 0x10 0x200 (register_panic_handler 0x10 0x100 (list_init (\<lambda>_. \<lparr>le_prev = 0, le_next = 0\<rparr>) 0x10)),
     pn_handlers = (\<lambda>h. \<lparr>ph_func = h + 1\<rparr>), pn_stderr = [], pn_world = []\<rparr>"

definition demo_call :: "addr \<Rightarrow> addr list panic_state \<Rightarrow> addr list panic_state option" where
  "demo_call f s = Some (s\<lparr>pn_world := pn_world s @ [f]\<rparr>)"

lemma demo_panic_list: "is_list (pn_nodes demo_panic) 0x10 (map pnode [0x100, 0x200])"
  using register_is_list [OF register_is_list [of _ "0x10" "[]" "0x100"], of "list_init (\<lambda>_. \<lparr>le_prev = 0, le_next = 0\<rparr>) 0x10" "0x200"]
  by (simp add: demo_panic_def is_list_init pnode_def)

theorem panic_runs_handlers_witness:
  "map_option pn_world (panic demo_call 0x10 [] ''f'' 7 ''m'' demo_panic) = Some [0x101, 0x201]"
proof -
  have "harmless demo_call" by (simp add: harmless_def demo_call_def)
  then show ?thesis
    using panic_runs_handlers [OF demo_panic_list, of demo_call "[]" "''f''" 7 "''m''"]
    by (simp add: demo_call_def) (simp add: demo_panic_def)
qed

text \<open>Registering a handler a second time drops every handler registered after it: they are no longer called.\<close>

theorem register_twice_drops_handlers:
  assumes l: "is_list m head (map pnode (xs @ h # ys))"
  shows "list_for_each (register_panic_handler head h m) head = Some (map pnode (xs @ [h]))"
proof -
  let ?m = "register_panic_handler head h m" and ?x = "pnode h" and ?X = "map pnode xs" and ?Y = "map pnode ys"
  have l': "is_list m head (?X @ ?x # ?Y)" using l by simp
  have d: "distinct (head # ?X @ ?x # ?Y)" using is_list_distinct [OF l'] .
  have "successively (link m) (head # ?X @ [?x])"
    using l' is_list_split [of m head "?X @ [?x]" ?Y] by simp
  then have fwd: "successively (\<lambda>a b. le_next (m a) = b) (head # ?X @ [?x])"
    by (rule successively_mono) (simp add: link_def)
  have ends: "le_prev (m head) = last (?x # ?Y)"
    using is_list_ends(2) [OF l'] by simp
  have nxt: "le_next (?m a) = (if a = ?x then head else le_next (m a))" if "a \<in> set (head # ?X) \<or> a = ?x" for a
  proof -
    obtain z where z: "last (?x # ?Y) = z" "z \<in> set (?x # ?Y)" using last_in_set by blast
    have p: "le_prev (m head) = z" using ends z(1) by simp
    have "a = z \<Longrightarrow> a = ?x" using that d z(2) by auto
    then show ?thesis
      using d p by (auto simp: register_panic_handler_def list_append_def list_mem_simps list_init_def)
  qed
  have "le_next (?m u) = le_next (m u)" if "u \<in> set (butlast (head # ?X @ [?x]))" for u
    using that nxt [of u] d by (auto simp: butlast_append)
  then have "successively (\<lambda>a b. le_next (?m a) = b) (head # ?X @ [?x])"
    using fwd next_chain_cong [of "head # ?X @ [?x]" ?m m] by blast
  then have "successively (\<lambda>a b. le_next (?m a) = b) ((?X @ [?x]) @ [head])" "le_next (?m head) = hd (?X @ [?x])"
    using nxt [of ?x] by (auto simp: successively_Cons successively_append_iff)
  then show ?thesis
    using list_walk_forward [of ?m "?X @ [?x]" head] d by (cases ?X) (auto simp: list_for_each_def)
qed

theorem register_twice_drops_handlers_witness:
  "list_for_each (register_panic_handler 0x10 0x100 (pn_nodes demo_panic)) 0x10 = Some [0x108]"
  using register_twice_drops_handlers [of "pn_nodes demo_panic" "0x10" "[]" "0x100" "[0x200]"] demo_panic_list by (simp add: pnode_def)

end
