(* ===== verification/Spec2Isabelle.thy ===== *)
theory Spec2Isabelle
  imports TSL_Basic TSL_List Heap_Sequences Timer_Sequences Megaqueue_Concurrent Work_Queue Refcnt Hash_Sequences RBTree_Sequences Slab_Pool
    Slab_Concurrent Logalloc_Prepare
    Config_Types Application Worker_Thread Work_Pool Logger_Delivery Panic
begin

text \<open>
  This development models the Trading Support Library (src/tsl), a C library for low-latency trading
  systems, and proves what its components promise. Machine integers are words of their width, pointers
  are 64-bit words with NULL = 0, memory is a function from addresses to structs, so that aliasing
  is part of the model. Every function of the C code is one definition; its \<open>aresult_t\<close> is part of the
  result, an access through NULL, a division by zero or a loop that does not end is \<open>None\<close>. The
  assertions of assert.h are branches that answer A_E_BADARGS.

  \<^bold>\<open>The parts and their theories.\<close>

  \<^item> \<open>TSL_Prelude\<close>: types of addresses and words, collections of simplification rules, list and array lemmas.

  \<^item> \<open>TSL_Bits\<close> (bits.h), \<open>TSL_Basic\<close> (basic.h) and \<open>TSL_Result\<close> (result.h, errors.h): bit fields, rounding, bit scans, minima;
    result codes.

  \<^item> \<open>TSL_List\<close> (list.h): intrusive circular lists over a memory of entries. \<open>is_list m h xs\<close> relates the memory to a
    sequence; the locale \<open>linked_lists\<close> is the interface that the clients use (effect on the own list, frame for others).

  \<^item> \<open>Comparator\<close>: the contract of comparison callbacks (locale \<open>comparator_on\<close>), shared by the heap and the tree.

  \<^item> \<open>Fixed_Heap\<close>, \<open>Heap_Sequences\<close> (fixed_heap.h, fixed_heap.c): the array heap; invariant, multiset behaviour, sorting;
    sequences of calls, resizing included, against a bounded multiset.

  \<^item> \<open>TSL_Time\<close> (time.h, time.c) and \<open>Timer\<close>, \<open>Timer_Firing\<close>, \<open>Timer_Sequences\<close> (timer.h, timer.c): time sources; timers on top
    of the heap and the lists; the order in which due timers fire; sequences of calls against a map from timers to deadlines.

  \<^item> \<open>Bounded_Queue\<close>: the locale of a bounded FIFO and what every sequence of calls returns. It is the contract of
    \<open>Megaqueue\<close> (megaqueue/), a ring in shared memory, and of \<open>Work_Queue\<close> (work_queue.h), a wrapper of the ring of
    the concurrency kit, which is a parameter with the locale \<open>ck_ring_contract\<close>. \<open>Megaqueue_Concurrent\<close> interleaves the
    accesses of a producer, a reader and a deleting process to one megaqueue.

  \<^item> \<open>Refcnt\<close> (refcnt.h): reference counts, sequentially and as interleaved memory accesses.

  \<^item> \<open>Call_Sequences\<close>: the locale \<open>simulation\<close>, which lifts the refinement of single calls to sequences of calls, for specifications
    that allow several answers, and \<open>data_refinement\<close> for those that fix the answer; used by \<open>Heap_Sequences\<close>, \<open>Timer_Sequences\<close>,
    \<open>Hash_Sequences\<close> and \<open>RBTree_Sequences\<close>, whose call types stand for a client.

  \<^item> \<open>Hash_Table\<close>, \<open>Hash_Sequences\<close> (hash_table.h, hash_table.c): buckets of intrusive lists as a map; the hash functions.

  \<^item> \<open>RBTree\<close>, \<open>RBTree_Shape\<close>, \<open>RBTree_Insert\<close>, \<open>RBTree_Order\<close>, \<open>RBTree_Delete\<close>, \<open>RBTree_Remove\<close>, \<open>RBTree_Frame\<close>,
    \<open>RBTree_Sequences\<close> (rbtree.h, rbtree.c): the operations
    over a memory of nodes; trees in memory and positions in them; rebalancing after an insertion; search, insertion and neighbours
    against an ordered list; rebalancing after a removal; removal against the ordered list; what each operation leaves alone; sequences of calls, for nodes whose
    links are NULL before their first use.

  \<^item> \<open>Slab_Allocator\<close>, \<open>Slab_Invariant\<close>, \<open>Slab_Pool\<close> (alloc.h, alloc/): the slab allocator; its invariant with the set of live
    items; the contract of an object pool (locale \<open>object_pool\<close>) and its interpretation. \<open>Slab_Concurrent\<close>: the calls of many threads
    on one slab class, interleaved by single accesses to memory; the spin lock is a parameter with the locale \<open>spin_lock\<close>.

  \<^item> \<open>Logalloc\<close>, \<open>Logalloc_Spec\<close>, \<open>Logalloc_Region\<close>, \<open>Logalloc_Prepare\<close> (logalloc.h, alloc/logalloc.c, alloc/logalloc_hugepage.c): the log-structured allocator over
    a memory of bytes; the log as two sequences of blocks (\<open>log_state\<close>), allocation (the blocks it keeps, \<open>kept\<close>, and what it
    writes, \<open>only_headers\<close>) and references on them; prepared regions, at the free end
    and among other blocks (\<open>search_free\<close>, \<open>chunks\<close>), and defects.

  \<^item> \<open>Config_Engine\<close>, \<open>Config_Types\<close> (config/): configuration atoms and lookup by path. The JSON library is a parameter; \<open>jansson_docs\<close> has what
    its documentation promises, interpreted on trees. \<open>Config_Types\<close>: the tag of an atom says which member is stored.

  \<^item> \<open>Cpu_Mask\<close> (cpumask.h, cpumask.c): CPU sets, and their construction from a configuration.

  \<^item> \<open>Sections\<close> (sections.h): the array of pointers that the linker puts into a section, as words of memory, and the loop over it.

  \<^item> \<open>Application\<close> (app.h, app.c): interrupts, daemonising, binding to a core through \<open>Cpu_Mask\<close>, initialisation of the subsystems
    that a section declares.

  \<^item> \<open>Threading\<close> (threading.h, threading.c) and \<open>Worker_Thread\<close> (worker_thread.h, worker_thread.c): the thread struct; the
    protocol between a worker and its controlling thread as a step relation over single memory accesses.

  \<^item> \<open>Work_Thread\<close>, \<open>Work_Thread_Spec\<close>, \<open>Work_Pool\<close> (offload/): endpoints with arbitrary callbacks, the thread function and
    its loops over the endpoint list, the pool of threads.

  \<^item> \<open>Logger\<close> (logger/): handlers in a red-black tree and a list, messages through two work queues, run as an endpoint of
    an offload thread. It provides the comparison callback on which the locale \<open>rb_order\<close> of the tree is interpreted.
    \<open>Logger_Delivery\<close>: the logger together with the thread function, from the queued messages to the shutdown.

  \<^item> \<open>List_Visit\<close> (list.h): loops over lists whose body calls back; \<open>Panic\<close> (panic.h, panic.c): panic handlers.

  \<^item> This theory: a property that spans the logger, the pool, the work queue and the offload thread.

  \<^bold>\<open>What the theorems show.\<close> For each container: an abstraction to a mathematical object (sequence, multiset, map, ordered
  list, set of live items, FIFO), that each operation implements the abstract one on every branch and keeps the invariant, and
  that it returns. For the concurrent parts: invariants over all interleavings (reference counts, worker threads, megaqueues, slab classes), the races the
  code has, and that shutdown completes. Error paths and the wrap-around of words are part of the statements. Several theorems
  state defects of the code: what happens instead of what the comments promise.

  \<^bold>\<open>Loops and bounds.\<close> Loops over data that may be malformed (lists, trees, rings) are \<open>partial_function (option)\<close>, and the theorems
  show that they return on well-formed data. Other loops are functions with a measure. No result depends on fuel. The thread
  function of the offload threads takes the list of values that it reads from the death signal; it is shown to return for
  any number of iterations. A worker exits within six steps after its work function returns. The comparison callback of the
  logger is an order only for message types below 2 to the 31; the theorems about the logger are limited to these.

  \<^bold>\<open>Arguments for what is outside.\<close> The concurrency kit (ring, compare-and-swap, spin lock), the JSON library, allocation results, system calls,
  clocks and callbacks of users are arguments. Accesses of offload threads to their list of endpoints are not
  interleaved with those of other threads: only the thread itself touches it. Pushes to its queue take effect between iterations.

  \<^bold>\<open>Not modelled.\<close> notifier.h, which does not compile (it uses a struct and a function that do not exist). The expansion of the assertions, diag.h, speed.h, cal.h, version.h (printing, compiler attributes, inline
  assembly for vector instructions, what the linker does to fill a section), the tests and the build files. Memory ordering weaker than sequential
  consistency is not part of the model.
\<close>

section \<open>A logger on an offload thread\<close>

lemma poll_done_state [simp]:
  "lg_state (lw_lep (poll_done ck m w)) = lg_state (lw_lep w)" "lg_out_queue (lw_lep (poll_done ck m w)) = lg_out_queue (lw_lep w)"
  by (simp_all add: poll_done_def)

lemma logger_poll_state:
  assumes "wq_buffer (lg_out_queue (lw_lep w)) \<noteq> NULL"
  shows "\<exists>w'. logger_endpoint_poll_func ck stale ep wait w = (A_OK, wait, w') \<and> lg_state (lw_lep w') = lg_state (lw_lep w)"
proof -
  obtain r q p where pop: "work_queue_pop ck (Some (lg_out_queue (lw_lep w))) (Some NULL) = (r, q, p)" by (metis surj_pair)
  show ?thesis
    using assms pop by (simp add: logger_endpoint_poll_func_def work_queue_fill_def Let_def split: option.split)
qed

text \<open>Claim C25. A logger comes to run on the thread it was started on: \<open>logger_start\<close> with the identifier of a thread of the pool whose
  queue is empty answers A_OK and leaves the logger in state STARTING; the next iteration of that thread takes its endpoint into
  the list of endpoints, after which the logger is in state RUNNING and stays in the list.\<close>

theorem logger_runs_on_thread:
  fixes s :: "('r, 'f) lg_world ep_state"
  assumes ring: "ck_ring_contract ck contents slots"
    and pool: "pool_has WL ps pool ts" "pool \<noteq> NULL" "i < last_thread_id ps"
      "List.find (\<lambda>t. wth_thread_id (ps_threads ps t) = i) ts = Some t"
      "\<forall>t \<in> set ts. wq_buffer (wth_ep_queue (ps_threads ps t)) \<noteq> NULL"
    and queue: "contents (wq_fifo (wth_ep_queue (ps_threads ps t))) = []" "1 < slots (wq_fifo (wth_ep_queue (ps_threads ps t)))"
    and lg: "lep \<noteq> NULL" "lg_state (lw_lep (world s)) = LOGGER_STATE_INACTIVE" "wq_buffer (lg_out_queue (lw_lep (world s))) \<noteq> NULL"
      "lep + off_ep L \<noteq> NULL" "we_ops (eps s (lep + off_ep L)) = Some (logger_endpoint_ops ck stale)" "we_next_poll (eps s (lep + off_ep L)) = 0"
    and thread: "is_list (nodes s) head []" "head \<noteq> wnode (lep + off_ep L)"
    and env: "\<forall>w. snd (clock w) = w"
  shows "\<exists>w' ps' q' s'. logger_start ck WL L (world s) ps lep pool i = Some (A_OK, w', ps') \<and>
    lg_state (lw_lep w') = LOGGER_STATE_STARTING \<and>
    work_thread_iteration ck clock usleep head (Some (wth_ep_queue (ps_threads ps' t))) (s\<lparr>world := w'\<rparr>) = Some (Some q', s') \<and>
    thread_has contents head q' (nodes s') [lep + off_ep L] [] \<and> lg_state (lw_lep (world s')) = LOGGER_STATE_RUNNING"
proof -
  let ?e = "lep + off_ep L" and ?q = "wth_ep_queue (ps_threads ps t)"
  have t: "t \<in> set ts" using pool(4) by (metis find_Some_iff nth_mem)
  have tn: "t \<noteq> NULL" "wq_buffer ?q \<noteq> NULL" using t pool(1,5) by (auto simp: pool_has_def)
  obtain r' where push: "work_queue_push ck (Some ?q) ?e = (A_OK, Some (?q\<lparr>wq_fifo := r'\<rparr>))" "contents r' = [?e]"
    using ck_ring_contract.push_result [OF ring tn(2) lg(4)] queue by auto
  let ?w = "(world s)\<lparr>lw_lep := (lw_lep (world s))\<lparr>lg_state := LOGGER_STATE_STARTING\<rparr>\<rparr>"
  let ?ps = "ps\<lparr>ps_threads := (ps_threads ps)(t := (ps_threads ps t)\<lparr>wth_ep_queue := ?q\<lparr>wq_fifo := r'\<rparr>\<rparr>)\<rparr>"
  have start: "logger_start ck WL L (world s) ps lep pool i = Some (A_OK, ?w, ?ps)"
    using pool(2-4) lg tn push(1)
    by (simp add: logger_start_def work_pool_add_endpoint_def work_pool_find_thread_refines [OF pool(1)] work_thread_add_endpoint_def)
  let ?s = "s\<lparr>world := ?w\<rparr>"
  let ?w1 = "?w\<lparr>lw_lep := (lw_lep ?w)\<lparr>lg_state := LOGGER_STATE_RUNNING\<rparr>\<rparr>"
  have has: "thread_has contents head (?q\<lparr>wq_fifo := r'\<rparr>) (nodes ?s) [] [?e]"
    using thread push(2) tn lg(4) by (simp add: thread_has_def)
  have up: "startup_all (take 15 [?e]) ?s = s\<lparr>world := ?w1\<rparr>"
    using lg by (simp add: work_endpoint_startup_def logger_endpoint_ops_def logger_endpoint_startup_def)
  obtain w2 where w2: "logger_endpoint_poll_func ck stale ?e 0 ?w1 = (A_OK, 0, w2)" "lg_state (lw_lep w2) = LOGGER_STATE_RUNNING"
    using logger_poll_state [of ?w1 ck stale ?e 0] lg(3) by auto
  obtain now where now: "clock ?w1 = (now, ?w1)" using env by (metis prod.collapse)
  obtain now2 where now2: "clock w2 = (now2, w2)" using env by (metis prod.collapse)
  have poll: "\<exists>s1. poll_all clock ([] @ take 15 [?e]) 5 (startup_all (take 15 [?e]) ?s) = ([?e], 0, s1) \<and> world s1 = w2"
    unfolding up using lg now now2 w2(1) by (simp add: poll_endpoint_def work_endpoint_poll_def logger_endpoint_ops_def)
  then obtain s1 where s1: "poll_all clock ([] @ take 15 [?e]) 5 (startup_all (take 15 [?e]) ?s) = ([?e], 0, s1)" "world s1 = w2" by blast
  from ck_ring_contract.iteration_refines [OF ring has s1(1), of usleep] obtain q' m' where
    "work_thread_iteration ck clock usleep head (Some (?q\<lparr>wq_fifo := r'\<rparr>)) ?s = Some (Some q', s1\<lparr>nodes := m'\<rparr>)"
    "thread_has contents head q' m' [?e] []" by auto
  then show ?thesis using start s1(2) w2(2)
    by (intro exI [of _ ?w] exI [of _ ?ps] exI [of _ q'] exI [of _ "s1\<lparr>nodes := m'\<rparr>"]) simp
qed

theorem logger_runs_on_thread_witness:
  "let s = sample_logger\<lparr>nodes := list_init (nodes sample_logger) 0x2080\<rparr>
   in \<exists>w' ps' q' s'. logger_start list_ring sample_layout \<lparr>off_ep = 0x100, off_handler_list = 0x200\<rparr> (world s)
        (sample_pool THREAD_STATE_RUNNING) 0x4000 0x1000 1 = Some (A_OK, w', ps') \<and>
      work_thread_iteration list_ring (\<lambda>w. (7, w)) (\<lambda>us w. w) 0x2080 (Some (wth_ep_queue (ps_threads ps' 0x2000))) (s\<lparr>world := w'\<rparr>) =
        Some (Some q', s') \<and> lg_state (lw_lep (world s')) = LOGGER_STATE_RUNNING"
proof -
  let ?s = "sample_logger\<lparr>nodes := list_init (nodes sample_logger) 0x2080\<rparr>"
  have "(8 :: u64) AND 7 = 0" by simp
  then have "eps ?s 0x4100 = \<lparr>we_ops = Some (logger_endpoint_ops list_ring 0), we_priv = 0x4000, we_next_poll = 0, we_mode = 0\<rparr>"
    by (simp add: sample_logger_def logger_initialize_def work_endpoint_init_def logger_endpoint_ops_def work_queue_new_def
        rb_tree_new_def rb_tree_new_ex_def list_ring_def Let_def)
  then show ?thesis
    using logger_runs_on_thread [OF list_ring.ck_ring_contract_axioms sample_pool_has [of THREAD_STATE_RUNNING], where s = ?s and
        lep = "0x4000" and L = "\<lparr>off_ep = 0x100, off_handler_list = 0x200\<rparr>" and i = 1 and t = "0x2000" and head = "0x2080" and
        stale = 0 and clock = "\<lambda>w. (7, w)" and usleep = "\<lambda>us w. w"]
    by (fastforce simp: sample_logger_lep sample_pool_def is_list_init wnode_def Let_def)
qed

end
